(* ===== verification/Prelude.thy ===== *)
theory Prelude
  imports Main "HOL-Library.Word" "HOL-Library.AList" "HOL-Library.Sublist"
begin

text \<open>
  Shared vocabulary of the Gentis development: the machine types of the Go code, Go maps as
  association lists with distinct keys, the results of code that can panic, and the generic
  facts on lists and maps that the component theories use.

  \<^item> \<open>u64\<close>, \<open>u32\<close> are Go's \<^verbatim>\<open>uint64\<close> and \<^verbatim>\<open>uint32\<close>; \<open>+\<close> wraps around on them.
  \<^item> \<open>bytes\<close> and \<open>string\<close> are Go's \<^verbatim>\<open>[]byte\<close> and \<^verbatim>\<open>string\<close>: both are byte sequences in Go, and
    Isabelle's \<^typ>\<open>char\<close> is an 8-bit value, so \<open>length\<close> counts what \<^verbatim>\<open>len\<close> counts.
  \<^item> A Go \<^verbatim>\<open>map[K]V\<close> is an association list with distinct keys (\<open>gomap_ok\<close>). Go leaves the
    iteration order open; a list fixes one order, and every fact proved about such a list
    holds for whichever order the runtime picks.
\<close>

type_synonym u64 = "64 word"
type_synonym u32 = "32 word"
type_synonym bytes = string
type_synonym ('k, 'v) gomap = "('k \<times> 'v) list"

named_theorems gomap_simps \<open>lookup after an update of a Go map\<close>
named_theorems inv_intros \<open>operations that keep a component invariant\<close>

section \<open>Go maps\<close>

definition gget :: "('k, 'v) gomap \<Rightarrow> 'k \<Rightarrow> 'v option" where
  "gget m k = map_of m k"

definition gput :: "'k \<Rightarrow> 'v \<Rightarrow> ('k, 'v) gomap \<Rightarrow> ('k, 'v) gomap" where
  "gput k v m = AList.update k v m"

definition gdel :: "'k \<Rightarrow> ('k, 'v) gomap \<Rightarrow> ('k, 'v) gomap" where
  "gdel k m = AList.delete k m"

abbreviation gkeys :: "('k, 'v) gomap \<Rightarrow> 'k list" where
  "gkeys m \<equiv> map fst m"

definition gomap_ok :: "('k, 'v) gomap \<Rightarrow> bool" where
  "gomap_ok m \<longleftrightarrow> distinct (gkeys m)"

lemma gget_Nil [simp]: "gget [] k = None"
  by (simp add: gget_def)

lemma gget_Cons: "gget ((k', v) # m) k = (if k = k' then Some v else gget m k)"
  by (simp add: gget_def)

lemma gget_gput [simp, gomap_simps]: "gget (gput k v m) k' = (if k' = k then Some v else gget m k')"
  by (simp add: gget_def gput_def update_conv')

lemma gget_gdel [simp, gomap_simps]: "gget (gdel k m) k' = (if k' = k then None else gget m k')"
  by (simp add: gget_def gdel_def delete_conv')

lemma gomap_ok_Nil [simp, intro]: "gomap_ok []"
  by (simp add: gomap_ok_def)

lemma gomap_ok_gput [simp, intro]: "gomap_ok m \<Longrightarrow> gomap_ok (gput k v m)"
  by (simp add: gomap_ok_def gput_def distinct_update)

lemma gomap_ok_gdel [simp, intro]: "gomap_ok m \<Longrightarrow> gomap_ok (gdel k m)"
  by (simp add: gomap_ok_def gdel_def distinct_delete)

lemma set_gkeys: "k \<in> fst ` set m \<longleftrightarrow> gget m k \<noteq> None"
  by (auto simp: gget_def dom_map_of_conv_image_fst [symmetric])

lemma gget_in_set: "gomap_ok m \<Longrightarrow> (k, v) \<in> set m \<longleftrightarrow> gget m k = Some v"
  by (simp add: gomap_ok_def gget_def)

lemma gget_SomeD: "gget m k = Some v \<Longrightarrow> (k, v) \<in> set m"
  by (simp add: gget_def map_of_SomeD)

lemma length_gput: "length (gput k v m) = (if gget m k = None then Suc (length m) else length m)"
  by (induction m) (auto simp: gput_def gget_def)

lemma length_gdel_le: "length (gdel k m) \<le> length m"
  by (simp add: gdel_def length_delete_le)

lemma gomap_nonempty: "gget m k \<noteq> None \<Longrightarrow> 0 < length m"
  by (cases m) auto

lemma gdel_absent: "gget m k = None \<Longrightarrow> gdel k m = m"
  by (auto simp: gdel_def gget_def delete_idem map_of_eq_None_iff)

lemma gdel_Cons: "gdel k ((k', v) # m) = (if k' = k then gdel k m else (k', v) # gdel k m)"
  by (simp add: gdel_def)

lemma length_gdel:
  "gomap_ok m \<Longrightarrow> length (gdel k m) = (if gget m k = None then length m else length m - 1)"
proof (induction m)
  case (Cons a m)
  show ?case
    using Cons gdel_absent [of m "fst a"] gomap_nonempty [of m k]
    by (cases a) (auto simp: gget_Cons gomap_ok_def gdel_Cons set_gkeys)
qed (simp add: gdel_def)

lemma set_gkeys_gput [simp]: "fst ` set (gput k v m) = insert k (fst ` set m)"
  by (simp add: gput_def dom_update)

lemma set_gkeys_gdel [simp]: "fst ` set (gdel k m) = fst ` set m - {k}"
  by (rule set_eqI) (simp add: set_gkeys)

section \<open>Sums over Go maps\<close>

text \<open>
  A counter kept beside a map (a subscription count, a byte total) is a sum over its values;
  these two facts say how an insertion and a deletion move such a sum.
\<close>

lemma sum_list_gput:
  fixes f :: "'v \<Rightarrow> 'a::ab_group_add"
  assumes "gomap_ok m"
  shows "(\<Sum>(k, v) \<leftarrow> gput k0 v0 m. f v) =
    (\<Sum>(k, v) \<leftarrow> m. f v) + f v0 - (case gget m k0 of None \<Rightarrow> 0 | Some v \<Rightarrow> f v)"
  using assms
  by (induction m) (auto simp: gput_def gget_def gomap_ok_def algebra_simps split: option.splits)

lemma sum_list_gdel:
  fixes f :: "'v \<Rightarrow> 'a::ab_group_add"
  assumes "gomap_ok m"
  shows "(\<Sum>(k, v) \<leftarrow> gdel k0 m. f v) =
    (\<Sum>(k, v) \<leftarrow> m. f v) - (case gget m k0 of None \<Rightarrow> 0 | Some v \<Rightarrow> f v)"
  using assms
proof (induction m)
  case (Cons a m)
  show ?case
    using Cons gdel_absent [of m "fst a"]
    by (cases a) (auto simp: gget_Cons gomap_ok_def gdel_Cons set_gkeys)
qed (simp add: gdel_def)

section \<open>Code that can panic\<close>

text \<open>The run-time panics the modelled code can raise.\<close>

datatype panic = DivideByZero | IndexOutOfRange | NilDereference

type_synonym 'a result = "panic + 'a"

section \<open>Lists\<close>

text \<open>The swap-free removal of the first occurrence, as \<^verbatim>\<open>slices.Delete(s, i, i+1)\<close> after a search.\<close>

lemma remove1_split: "x \<in> set xs \<Longrightarrow> \<exists>ys zs. xs = ys @ x # zs \<and> remove1 x xs = ys @ zs \<and> x \<notin> set ys"
  by (metis remove1_append remove1.simps(2) split_list_first)

lemma length_remove1_mem: "x \<in> set xs \<Longrightarrow> Suc (length (remove1 x xs)) = length xs"
  by (induction xs) auto

lemma drop_nth_Cons: "i < length xs \<Longrightarrow> drop i xs = xs ! i # drop (Suc i) xs"
  by (rule Cons_nth_drop_Suc [symmetric])

lemma ex_le_Suc_shift: "(\<exists>k \<le> Suc n. P k) \<longleftrightarrow> P 0 \<or> (\<exists>k \<le> n. P (Suc k))"
proof
  assume "\<exists>k \<le> Suc n. P k"
  then obtain k where "k \<le> Suc n" "P k" by blast
  then show "P 0 \<or> (\<exists>k \<le> n. P (Suc k))" by (cases k) auto
qed auto

text \<open>The search loop for the index of the first occurrence, as in \<^verbatim>\<open>slices.Index\<close>.\<close>

fun index_of :: "'a \<Rightarrow> 'a list \<Rightarrow> nat option" where
  "index_of x [] = None"
| "index_of x (y # ys) = (if y = x then Some 0 else map_option Suc (index_of x ys))"

lemma index_of_Some: "index_of x xs = Some i \<Longrightarrow> i < length xs \<and> xs ! i = x \<and> take i xs @ drop (Suc i) xs = remove1 x xs"
  by (induction xs arbitrary: i) (auto split: if_splits)

lemma index_of_None: "index_of x xs = None \<longleftrightarrow> x \<notin> set xs"
  by (induction xs) auto

lemma sum_list_list_update:
  fixes f :: "'a \<Rightarrow> 'b::ab_group_add"
  shows "i < length xs \<Longrightarrow> sum_list (map f (xs[i := x])) = sum_list (map f xs) - f (xs ! i) + f x"
  by (induction xs arbitrary: i) (auto split: nat.splits simp: algebra_simps)

section \<open>Machine words\<close>

lemma unat_bound: "unat (x :: 'a::len word) < 2 ^ LENGTH('a)"
  by (rule unsigned_less)

lemma unat_plus_1: "unat (x :: 'a::len word) + 1 < 2 ^ LENGTH('a) \<Longrightarrow> unat (x + 1) = unat x + 1"
  by (simp add: unat_word_ariths)

lemma unat_plus_1_less:
  fixes x y :: "'a::len word"
  assumes "x < y"
  shows "unat (x + 1) = unat x + 1"
proof -
  have "unat x + 1 \<le> unat y" using assms by (simp add: word_less_nat_alt)
  then show ?thesis using unat_bound [of y] by (intro unat_plus_1) linarith
qed

lemma unat_plus_1_wrap: "x + 1 \<noteq> (0 :: 'a::len word) \<Longrightarrow> unat (x + 1) = unat x + 1"
proof -
  assume "x + 1 \<noteq> 0"
  then have "unat x + 1 \<noteq> 2 ^ LENGTH('a)"
    by (metis add.commute mod_self unat_word_ariths(1) unat_1 unat_eq_0)
  then have "unat x + 1 < 2 ^ LENGTH('a)" using unat_bound [of x] by linarith
  then show ?thesis by (rule unat_plus_1)
qed

text \<open>Two offsets into a ring of size \<open>n\<close> that meet are the same offset.\<close>

lemma mod_eq_window:
  fixes a i j n :: nat
  assumes "(a + i) mod n = (a + j) mod n" "i < n" "j < n"
  shows "i = j"
proof -
  have "x = y" if "x \<le> y" "(a + x) mod n = (a + y) mod n" "y < n" for x y
  proof -
    have "n dvd (a + y) - (a + x)"
      using that mod_eq_dvd_iff_nat [of "a + x" "a + y" n] by simp
    then show "x = y" using that by (auto dest: dvd_imp_le)
  qed
  then show ?thesis using assms by (metis nat_le_linear)
qed

section \<open>Powers of two\<close>

definition is_pow2 :: "nat \<Rightarrow> bool" where
  "is_pow2 n \<longleftrightarrow> (\<exists>k. n = 2 ^ k)"

lemma is_pow2_pos: "is_pow2 n \<Longrightarrow> 0 < n"
  by (auto simp: is_pow2_def)

unbundle bit_operations_syntax

text \<open>Masking with \<open>n - 1\<close> is reduction modulo \<open>n\<close> when \<open>n\<close> is a power of two.\<close>

lemma and_pow2_minus_1:
  fixes h :: "'a::len word"
  assumes "is_pow2 n" "n < 2 ^ LENGTH('a)"
  shows "unat (h AND (of_nat n - 1)) = unat h mod n"
proof -
  from assms obtain k where k: "n = 2 ^ k" by (auto simp: is_pow2_def)
  have "(of_nat n - 1 :: 'a word) = mask k"
    by (simp add: k mask_eq_exp_minus_1)
  then have "unat (h AND (of_nat n - 1)) = unat (take_bit k h)"
    by (simp add: take_bit_eq_mask)
  also have "\<dots> = take_bit k (unat h)"
    by (simp add: unsigned_take_bit_eq)
  also have "\<dots> = unat h mod n"
    by (simp add: k take_bit_eq_mod)
  finally show ?thesis .
qed

end
