(* ===== verification/Pattern.thy ===== *)
theory Pattern
  imports Prelude
begin

text \<open>
  Model of \<^verbatim>\<open>internal/pattern/pattern.go\<close>: the star-only wildcard matcher, the two character
  tests on names, and the bounded memoisation cache with partial eviction. The matcher's greedy
  loop with one backtracking point is shown to decide the reference relation \<open>glob\<close>; the cache
  is shown to stay within its bound and to answer every hit with the value last stored.
\<close>

section \<open>The matcher\<close>

definition star_char :: char where
  "star_char = CHR 0x2A"

text \<open>\<^verbatim>\<open>for i < len(pattern) && pattern[i] == '*' { i++ }; return i == len(pattern)\<close>\<close>

function skip_stars :: "string \<Rightarrow> nat \<Rightarrow> nat" where
  "skip_stars pat i = (if i < length pat \<and> pat ! i = star_char then skip_stars pat (Suc i) else i)"
  by pat_completeness auto
termination
  by (relation "measure (\<lambda>(pat, i). length pat - i)") auto

declare skip_stars.simps [simp del]

text \<open>
  The loop's termination needs the relation between its four variables: the retry point \<open>mark\<close>
  never passes \<open>j\<close>, and the last star lies before \<open>i\<close>. The Go sentinel \<open>star = -1\<close> is \<open>None\<close>.
\<close>

definition loop_shape :: "nat option \<Rightarrow> nat \<Rightarrow> nat \<Rightarrow> nat \<Rightarrow> bool" where
  "loop_shape star mark i j \<longleftrightarrow> mark \<le> j \<and> (case star of None \<Rightarrow> True | Some s \<Rightarrow> s < i)"

function match_loop :: "string \<Rightarrow> string \<Rightarrow> nat option \<Rightarrow> nat \<Rightarrow> nat \<Rightarrow> nat \<Rightarrow> bool" where
  "match_loop pat name star mark i j =
     (if j < length name then
        if i < length pat \<and> pat ! i = star_char then match_loop pat name (Some i) j (Suc i) j
        else if i < length pat \<and> pat ! i = name ! j then
          match_loop pat name star mark (Suc i) (Suc j)
        else (case star of
                Some s \<Rightarrow> match_loop pat name star (Suc mark) (Suc s) (Suc mark)
              | None \<Rightarrow> False)
      else skip_stars pat i = length pat)"
  by pat_completeness auto
termination
  by (relation "measures
        [\<lambda>(pat, name, star, mark, i, j). if loop_shape star mark i j then 0 else 1,
         \<lambda>(pat, name, star, mark, i, j). case star of None \<Rightarrow> Suc (length pat) | Some s \<Rightarrow> length pat - s,
         \<lambda>(pat, name, star, mark, i, j). length name - mark,
         \<lambda>(pat, name, star, mark, i, j). length name - j]")
     (auto simp: loop_shape_def split: option.splits)

declare match_loop.simps [simp del]

definition Match :: "string \<Rightarrow> string \<Rightarrow> bool" where
  "Match pat name = match_loop pat name None 0 0 0"

definition IsPattern :: "string \<Rightarrow> bool" where
  "IsPattern s \<longleftrightarrow> star_char \<in> set s"

definition reserved_chars :: string where
  "reserved_chars = [CHR 0x3F, CHR 0x5B, CHR 0x5D, CHR 0x5C]"

definition HasReserved :: "string \<Rightarrow> bool" where
  "HasReserved s \<longleftrightarrow> (\<exists>c \<in> set s. c \<in> set reserved_chars)"

section \<open>The reference relation\<close>

text \<open>A star matches any sequence of bytes, every other byte matches itself.\<close>

fun glob :: "string \<Rightarrow> string \<Rightarrow> bool" where
  "glob [] n = (n = [])"
| "glob (c # p) [] = (c = star_char \<and> glob p [])"
| "glob (c # p) (x # xs) =
     (if c = star_char then glob p (x # xs) \<or> glob (c # p) xs else c = x \<and> glob p xs)"

lemma glob_star: "glob (star_char # p) n \<longleftrightarrow> (\<exists>k \<le> length n. glob p (drop k n))"
proof (induction n)
  case (Cons x xs)
  then show ?case by (simp add: ex_le_Suc_shift)
qed simp

lemma glob_star_drop: "glob (star_char # p) (drop k n) \<Longrightarrow> glob (star_char # p) n"
proof (induction k arbitrary: n)
  case (Suc k)
  then show ?case by (cases n) auto
qed simp

lemma glob_lit:
  "c \<noteq> star_char \<Longrightarrow> glob (c # p) n \<longleftrightarrow> (\<exists>xs. n = c # xs \<and> glob p xs)"
  by (cases n) auto

lemma glob_seg:
  "star_char \<notin> set seg \<Longrightarrow> glob (seg @ p) n \<longleftrightarrow> (\<exists>n'. n = seg @ n' \<and> glob p n')"
proof (induction seg arbitrary: n)
  case (Cons c seg)
  have "glob (c # (seg @ p)) n \<longleftrightarrow> (\<exists>xs. n = c # xs \<and> glob (seg @ p) xs)"
    using Cons.prems by (intro glob_lit) auto
  then show ?case using Cons by auto
qed simp

lemma glob_no_star: "star_char \<notin> set p \<Longrightarrow> glob p n \<longleftrightarrow> n = p"
  using glob_seg [of p "[]" n] by simp

lemma glob_prefix:
  "star_char \<notin> set p \<Longrightarrow> glob (p @ q) n \<Longrightarrow> prefix p n"
  by (auto simp: glob_seg prefix_def)

lemma skip_stars_all: "skip_stars pat i = length pat \<longleftrightarrow> i \<le> length pat \<and> glob (drop i pat) []"
proof (induction pat i rule: skip_stars.induct)
  case (1 pat i)
  show ?case
  proof (cases "i < length pat")
    case True
    then have "drop i pat = pat ! i # drop (Suc i) pat" by (rule drop_nth_Cons)
    with True 1 show ?thesis by (simp add: skip_stars.simps [of pat i])
  qed (auto simp: skip_stars.simps [of pat i])
qed

section \<open>Correctness of the greedy loop\<close>

text \<open>
  What a loop state still promises: either the rest of the pattern matches the rest of the name,
  or the last star can absorb more than it has so far.
\<close>

definition loop_goal :: "string \<Rightarrow> string \<Rightarrow> nat option \<Rightarrow> nat \<Rightarrow> nat \<Rightarrow> nat \<Rightarrow> bool" where
  "loop_goal pat name star mark i j \<longleftrightarrow> glob (drop i pat) (drop j name) \<or>
     (case star of None \<Rightarrow> False
      | Some s \<Rightarrow> (\<exists>m. mark < m \<and> m \<le> length name \<and> glob (drop (Suc s) pat) (drop m name)))"

text \<open>Between the last star and \<open>i\<close> the pattern is literal and has consumed \<open>name[mark..j)\<close>.\<close>

definition loop_inv :: "string \<Rightarrow> string \<Rightarrow> nat option \<Rightarrow> nat \<Rightarrow> nat \<Rightarrow> nat \<Rightarrow> bool" where
  "loop_inv pat name star mark i j \<longleftrightarrow> i \<le> length pat \<and> j \<le> length name \<and>
     (case star of None \<Rightarrow> True
      | Some s \<Rightarrow> (\<exists>seg. star_char \<notin> set seg \<and> i = Suc s + length seg \<and> j = mark + length seg \<and>
          drop (Suc s) pat = seg @ drop i pat))"

lemma loop_old_star_subsumed:
  assumes "loop_inv pat name (Some s) mark i j"
    and "drop i pat = star_char # rest"
    and "mark < m" "glob (drop (Suc s) pat) (drop m name)"
  shows "glob (drop i pat) (drop j name)"
proof -
  from assms(1) obtain seg where seg: "star_char \<notin> set seg" "j = mark + length seg"
      "drop (Suc s) pat = seg @ drop i pat"
    by (auto simp: loop_inv_def)
  from assms(4) seg obtain n' where n': "drop m name = seg @ n'" "glob (drop i pat) n'"
    by (auto simp: glob_seg)
  from n'(1) have "n' = drop (length seg) (drop m name)" by simp
  then have "n' = drop (m - mark) (drop j name)"
    using assms(3) seg(2) by (simp add: add.commute)
  with n'(2) assms(2) show ?thesis
    using glob_star_drop by metis
qed

lemma loop_exhausted:
  assumes "loop_inv pat name (Some s) mark i (length name)" "mark < m" "m \<le> length name"
  shows "\<not> glob (drop (Suc s) pat) (drop m name)"
proof
  assume g: "glob (drop (Suc s) pat) (drop m name)"
  from assms(1) obtain seg where seg: "star_char \<notin> set seg" "length name = mark + length seg"
      "drop (Suc s) pat = seg @ drop i pat"
    by (auto simp: loop_inv_def)
  from g seg obtain n' where "drop m name = seg @ n'" by (auto simp: glob_seg)
  then have "length name - m = length seg + length n'" by (metis length_append length_drop)
  with seg(2) assms(2,3) show False by linarith
qed

lemma loop_inv_star:
  "\<lbrakk>loop_inv pat name star mark i j; i < length pat\<rbrakk> \<Longrightarrow> loop_inv pat name (Some i) j (Suc i) j"
  by (auto simp: loop_inv_def)

lemma loop_inv_lit:
  assumes "loop_inv pat name star mark i j" "i < length pat" "j < length name" "pat ! i \<noteq> star_char"
  shows "loop_inv pat name star mark (Suc i) (Suc j)"
proof (cases star)
  case (Some s)
  with assms(1) obtain seg where seg: "star_char \<notin> set seg" "i = Suc s + length seg"
      "j = mark + length seg" "drop (Suc s) pat = seg @ drop i pat"
    by (auto simp: loop_inv_def)
  let ?seg = "seg @ [pat ! i]"
  have "star_char \<notin> set ?seg" "Suc i = Suc s + length ?seg" "Suc j = mark + length ?seg"
      "drop (Suc s) pat = ?seg @ drop (Suc i) pat"
    using assms seg by (auto simp: drop_nth_Cons)
  then have "\<exists>seg. star_char \<notin> set seg \<and> Suc i = Suc s + length seg \<and> Suc j = mark + length seg \<and>
      drop (Suc s) pat = seg @ drop (Suc i) pat" by blast
  then show ?thesis using Some assms by (auto simp: loop_inv_def)
qed (use assms in \<open>auto simp: loop_inv_def\<close>)

lemma loop_inv_back:
  assumes "loop_inv pat name (Some s) mark i j" "j < length name"
  shows "loop_inv pat name (Some s) (Suc mark) (Suc s) (Suc mark)"
  using assms by (auto simp: loop_inv_def)

lemma loop_goal_back:
  assumes "\<not> glob (drop i pat) (drop j name)" "mark < length name"
  shows "loop_goal pat name (Some s) mark i j =
    loop_goal pat name (Some s) (Suc mark) (Suc s) (Suc mark)"
proof -
  have "(\<exists>m. mark < m \<and> m \<le> length name \<and> P m) \<longleftrightarrow>
      P (Suc mark) \<or> (\<exists>m. Suc mark < m \<and> m \<le> length name \<and> P m)" for P
    using assms(2) by (metis Suc_leI Suc_lessI lessI less_trans)
  from this [of "\<lambda>m. glob (drop (Suc s) pat) (drop m name)"] assms(1)
  show ?thesis by (simp add: loop_goal_def)
qed

lemma loop_goal_star:
  assumes "j < length name"
  shows "loop_goal pat name (Some i) j (Suc i) j = glob (star_char # drop (Suc i) pat) (drop j name)"
proof -
  have "(\<exists>k \<le> length name - j. P (j + k)) \<longleftrightarrow> P j \<or> (\<exists>m. j < m \<and> m \<le> length name \<and> P m)" for P
  proof
    assume "\<exists>k \<le> length name - j. P (j + k)"
    then obtain k where "k \<le> length name - j" "P (j + k)" by blast
    then show "P j \<or> (\<exists>m. j < m \<and> m \<le> length name \<and> P m)"
      using assms by (cases k) (auto intro!: exI [of _ "j + k"])
  next
    assume "P j \<or> (\<exists>m. j < m \<and> m \<le> length name \<and> P m)"
    then obtain m where "j \<le> m" "m \<le> length name" "P m"
      using assms less_imp_le by blast
    then show "\<exists>k \<le> length name - j. P (j + k)" by (intro exI [of _ "m - j"]) auto
  qed
  from this [of "\<lambda>m. glob (drop (Suc i) pat) (drop m name)"]
  show ?thesis by (simp add: loop_goal_def glob_star add.commute)
qed

lemma match_loop_goal:
  "loop_inv pat name star mark i j \<Longrightarrow>
   match_loop pat name star mark i j = loop_goal pat name star mark i j"
proof (induction pat name star mark i j rule: match_loop.induct)
  case (1 pat name star mark i j)
  note inv = "1.prems" and unfold = match_loop.simps [of pat name star mark i j]
  consider (finished) "j = length name"
    | (star) "j < length name" "i < length pat" "pat ! i = star_char"
    | (lit) "j < length name" "i < length pat" "pat ! i \<noteq> star_char" "pat ! i = name ! j"
    | (stuck) "j < length name" "\<not> (i < length pat \<and> (pat ! i = star_char \<or> pat ! i = name ! j))"
    using inv le_neq_implies_less [of j "length name"] unfolding loop_inv_def by blast
  then show ?case
  proof cases
    case finished
    have "loop_goal pat name star mark i j = glob (drop i pat) []"
      using inv loop_exhausted [of pat name _ mark i] finished
      by (auto simp: loop_goal_def split: option.splits)
    then show ?thesis using inv finished unfolding unfold by (simp add: skip_stars_all loop_inv_def)
  next
    case star
    have d: "drop i pat = star_char # drop (Suc i) pat" using star by (simp add: drop_nth_Cons)
    have old: "loop_goal pat name star mark i j = glob (drop i pat) (drop j name)"
      using inv d loop_old_star_subsumed [of pat name _ mark i j]
      by (auto simp: loop_goal_def split: option.splits)
    show ?thesis
      using "1.IH"(1) [OF star(1)] star loop_inv_star [OF inv star(2)] old d
      by (simp add: unfold loop_goal_star)
  next
    case lit
    have "glob (drop i pat) (drop j name) = glob (drop (Suc i) pat) (drop (Suc j) name)"
      using lit by (simp add: drop_nth_Cons)
    then show ?thesis
      using "1.IH"(2) [OF lit(1)] lit loop_inv_lit [OF inv lit(2,1,3)]
      by (simp add: unfold loop_goal_def)
  next
    case stuck
    have neg: "\<not> glob (drop i pat) (drop j name)"
    proof (cases "i < length pat")
      case True
      then show ?thesis using stuck by (simp add: drop_nth_Cons)
    next
      case False
      then show ?thesis using stuck by simp
    qed
    show ?thesis
    proof (cases star)
      case None
      then show ?thesis using stuck neg unfolding unfold by (auto simp: loop_goal_def)
    next
      case (Some s)
      then have "mark < length name" using inv stuck by (auto simp: loop_inv_def)
      then show ?thesis
        using "1.IH"(3) [OF stuck(1)] Some stuck neg inv
          loop_goal_back [OF neg] loop_inv_back [of pat name s mark i j]
        unfolding unfold by auto
    qed
  qed
qed

lemma Match_glob: "Match pat name = glob pat name"
  by (simp add: Match_def match_loop_goal loop_inv_def loop_goal_def)

text \<open>
  (C1) The greedy two-pointer matcher decides exactly the wildcard relation: \<open>Match\<close> (which
  always returns, its loop terminating on every input) answers true precisely when the pattern
  with every star standing for an arbitrary byte sequence yields the name.
\<close>

theorem Match_iff_glob: "Match pat name \<longleftrightarrow> glob pat name"
  by (simp add: Match_glob)

section \<open>The memoisation cache\<close>

text \<open>
  When the cache is full, \<^verbatim>\<open>Set\<close> deletes the first quarter of the keys in the order in which the
  Go runtime happens to iterate the map. That order is the argument \<open>order\<close>: any enumeration
  of the current keys (\<open>iter_order\<close>).
\<close>

record 'v cache =
  cacheEntries :: "(string, 'v) gomap"
  cacheMax :: int

definition evictDivisor :: nat where
  "evictDivisor = 4"

definition iter_order :: "'k list \<Rightarrow> ('k, 'v) gomap \<Rightarrow> bool" where
  "iter_order order m \<longleftrightarrow> distinct order \<and> set order = set (gkeys m)"

definition NewCache :: "int \<Rightarrow> 'v cache" where
  "NewCache n = \<lparr>cacheEntries = [], cacheMax = (if n < 1 then 1 else n)\<rparr>"

definition Cache_Get :: "'v cache \<Rightarrow> string \<Rightarrow> 'v option" where
  "Cache_Get c key = gget (cacheEntries c) key"

definition evict :: "'k list \<Rightarrow> nat \<Rightarrow> ('k, 'v) gomap \<Rightarrow> ('k, 'v) gomap" where
  "evict order toEvict m = fold gdel (take toEvict order) m"

definition Cache_Set :: "string list \<Rightarrow> string \<Rightarrow> 'v \<Rightarrow> 'v cache \<Rightarrow> 'v cache" where
  "Cache_Set order key v c =
     (let m = cacheEntries c;
          m' = (if gget m key = None \<and> cacheMax c \<le> int (length m)
                then evict order (max (length m div evictDivisor) 1) m else m)
      in c\<lparr>cacheEntries := gput key v m'\<rparr>)"

definition Cache_Clear :: "'v cache \<Rightarrow> 'v cache" where
  "Cache_Clear c = c\<lparr>cacheEntries := []\<rparr>"

definition cache_ok :: "'v cache \<Rightarrow> bool" where
  "cache_ok c \<longleftrightarrow> 1 \<le> cacheMax c \<and> gomap_ok (cacheEntries c) \<and> int (length (cacheEntries c)) \<le> cacheMax c"

lemma gget_evict: "gget (evict order n m) k = (if k \<in> set (take n order) then None else gget m k)"
proof -
  have "gget (fold gdel ks m) k = (if k \<in> set ks then None else gget m k)" for ks
    by (induction ks arbitrary: m) auto
  then show ?thesis by (simp add: evict_def)
qed

lemma gomap_ok_evict: "gomap_ok m \<Longrightarrow> gomap_ok (evict order n m)"
proof -
  have "gomap_ok m \<Longrightarrow> gomap_ok (fold gdel ks m)" for ks :: "'a list"
    by (induction ks arbitrary: m) auto
  then show "gomap_ok m \<Longrightarrow> gomap_ok (evict order n m)" by (simp add: evict_def)
qed

lemma length_evict:
  assumes "gomap_ok m" "iter_order order m"
  shows "length (evict order n m) = length m - n"
proof -
  have "length (fold gdel ks m) = length m - length ks"
    if "gomap_ok m" "distinct ks" "set ks \<subseteq> set (gkeys m)" for ks and m :: "('a, 'b) gomap"
    using that
  proof (induction ks arbitrary: m)
    case (Cons k ks)
    have present: "gget m k \<noteq> None" using Cons.prems set_gkeys by force
    have "length (fold gdel ks (gdel k m)) = length (gdel k m) - length ks"
      using Cons.prems by (intro Cons.IH) auto
    then show ?case using present Cons.prems(1) by (simp add: length_gdel)
  qed simp
  moreover have "length order = length m"
    using assms by (metis gomap_ok_def iter_order_def distinct_card length_map)
  moreover have "distinct (take n order)" "set (take n order) \<subseteq> fst ` set m"
    using assms set_take_subset [of n order] by (auto simp: iter_order_def)
  ultimately have "length (evict order n m) = length m - min (length m) n"
    using assms(1) by (simp add: evict_def)
  then show ?thesis by simp
qed

lemma cache_ok_NewCache [simp, intro, inv_intros]: "cache_ok (NewCache n)"
  by (simp add: cache_ok_def NewCache_def)

lemma cache_ok_Clear [simp, intro, inv_intros]: "cache_ok c \<Longrightarrow> cache_ok (Cache_Clear c)"
  by (simp add: cache_ok_def Cache_Clear_def)

lemma cache_ok_Set [inv_intros]:
  assumes "cache_ok c" "iter_order order (cacheEntries c)"
  shows "cache_ok (Cache_Set order key v c)"
  using assms length_evict [of "cacheEntries c" order]
  by (auto simp: cache_ok_def Cache_Set_def Let_def length_gput gget_evict gomap_ok_evict)

lemma Cache_Get_Set_same [simp]: "Cache_Get (Cache_Set order key v c) key = Some v"
  by (simp add: Cache_Get_def Cache_Set_def Let_def)

lemma Cache_Get_Set_other:
  "k \<noteq> key \<Longrightarrow> Cache_Get (Cache_Set order key v c) k = Some w \<Longrightarrow> Cache_Get c k = Some w"
  by (auto simp: Cache_Get_def Cache_Set_def Let_def gget_evict split: if_splits)

lemma Cache_Get_Clear [simp]: "Cache_Get (Cache_Clear c) k = None"
  by (simp add: Cache_Get_def Cache_Clear_def)

lemma Cache_Get_New [simp]: "Cache_Get (NewCache n) k = None"
  by (simp add: Cache_Get_def NewCache_def)

text \<open>
  The cache never outgrows its bound, whatever iteration order the runtime evicts in: a
  \<open>Set\<close> on a cache within its maximum leaves it within that maximum, the stored key is
  readable with the stored value, and no other key gains or changes a value.
\<close>

theorem Cache_Set_bounded:
  assumes "cache_ok c" and "iter_order order (cacheEntries c)"
  shows "cache_ok (Cache_Set order key v c)
    \<and> Cache_Get (Cache_Set order key v c) key = Some v
    \<and> (\<forall>k w. k \<noteq> key \<longrightarrow> Cache_Get (Cache_Set order key v c) k = Some w \<longrightarrow> Cache_Get c k = Some w)"
  using assms cache_ok_Set Cache_Get_Set_other by fastforce

theorem Cache_Set_bounded_witness:
  "cache_ok (Cache_Set [''a''] ''b'' (1::nat) \<lparr>cacheEntries = [(''a'', 0)], cacheMax = 1\<rparr>)"
  using Cache_Set_bounded [of "\<lparr>cacheEntries = [(''a'', 0)], cacheMax = 1\<rparr>" "[''a'']" "''b''" "1::nat"]
  by (simp add: cache_ok_def iter_order_def gomap_ok_def)

section \<open>What a memoising client may rely on\<close>

text \<open>
  The router and the engine's pattern registry both read through a cache and store what they
  computed on a miss. They rely on one law of it: a value read back under a key was stored
  under that key. The lemma proved here from that law is that a reader which only ever stores
  values satisfying a predicate reads only such values.
\<close>

locale memo =
  fixes lookup :: "'c \<Rightarrow> string \<Rightarrow> 'v option"
    and store :: "string list \<Rightarrow> string \<Rightarrow> 'v \<Rightarrow> 'c \<Rightarrow> 'c"
  assumes hit_same: "lookup (store ord k v c) k = Some v"
    and hit_other: "k' \<noteq> k \<Longrightarrow> lookup (store ord k v c) k' = Some w \<Longrightarrow> lookup c k' = Some w"
begin

lemma coherent_store:
  assumes "\<And>k' w. lookup c k' = Some w \<Longrightarrow> P k' w" and "P k v"
    and "lookup (store ord k v c) k' = Some w"
  shows "P k' w"
  using assms hit_same hit_other by (metis option.inject)

lemma coherent_read:
  assumes "\<And>k' w. lookup c k' = Some w \<Longrightarrow> w = f k'"
  shows "(case lookup c k of Some v \<Rightarrow> v | None \<Rightarrow> f k) = f k"
  using assms by (auto split: option.splits)

end

interpretation cache_memo: memo Cache_Get Cache_Set
  by unfold_locales (auto dest: Cache_Get_Set_other)

end
