(* ===== verification/Auth.thy ===== *)
theory Auth
  imports Pattern
begin

text \<open>
  Model of \<^verbatim>\<open>internal/auth/auth.go\<close>: channel allowlists and their grammar, the insecure and the
  HMAC token verifier. Base64, JSON and HMAC-SHA256 come from Go's standard library; the verifier
  is parametric in them (\<open>codec\<close>), so its theorems hold for whatever these functions compute.

  A Go slice that may be \<^verbatim>\<open>nil\<close> is an \<open>option\<close>: a \<^verbatim>\<open>nil\<close> allowlist grants every channel, an empty
  one none. Expiry is a Unix second; \<open>None\<close> is the zero \<^verbatim>\<open>time.Time\<close>.
\<close>

datatype auth_error =
  ErrMalformedToken | ErrUnsupportedAlg | ErrBadSignature | ErrInvalidClaims
  | ErrTokenExpired | ErrTokenNotYetValid

record Claims =
  Subject :: string
  ExpiresAt :: "int option"
  Channels :: "string list option"
  Pub :: "string list option"

definition matchPattern :: "string \<Rightarrow> string \<Rightarrow> bool" where
  "matchPattern pattern channel =
     (if pattern \<noteq> [] \<and> last pattern = star_char then prefix (butlast pattern) channel
      else pattern = channel)"

definition matchAny :: "string list option \<Rightarrow> string \<Rightarrow> bool" where
  "matchAny patterns channel =
     (case patterns of None \<Rightarrow> True | Some ps \<Rightarrow> list_ex (\<lambda>p. matchPattern p channel) ps)"

definition CanSubscribe :: "Claims \<Rightarrow> string \<Rightarrow> bool" where
  "CanSubscribe c channel = matchAny (Channels c) channel"

definition CanPublish :: "Claims \<Rightarrow> string \<Rightarrow> bool" where
  "CanPublish c channel = matchAny (Pub c) channel"

text \<open>\<^verbatim>\<open>strings.IndexByte(entry, '*')\<close> must be absent or the last position.\<close>

definition validEntry :: "string \<Rightarrow> bool" where
  "validEntry entry =
     (if entry = [] then False
      else if HasReserved entry then False
      else if star_char \<in> set entry
              \<and> length (takeWhile (\<lambda>c. c \<noteq> star_char) entry) \<noteq> length entry - 1 then False
      else True)"

definition validEntries :: "string list option \<Rightarrow> bool" where
  "validEntries es = list_all validEntry (case es of None \<Rightarrow> [] | Some xs \<Rightarrow> xs)"

definition InsecureVerify :: "string \<Rightarrow> auth_error + Claims" where
  "InsecureVerify token =
     Inr \<lparr>Subject = ''anonymous'', ExpiresAt = None, Channels = None, Pub = None\<rparr>"

record claimsJSON =
  Sub :: string
  Exp :: int
  Nbf :: int
  cChannels :: "string list option"
  cPub :: "string list option"

record codec =
  b64decode :: "string \<Rightarrow> bytes option"
  jsonHeaderAlg :: "bytes \<Rightarrow> string option"
  jsonClaims :: "bytes \<Rightarrow> claimsJSON option"
  hmacSHA256 :: "bytes \<Rightarrow> bytes \<Rightarrow> bytes"

record HMACVerifier =
  vsecret :: bytes
  vnow :: int

definition dot :: char where
  "dot = CHR 0x2E"

text \<open>\<^verbatim>\<open>strings.Cut(s, ".")\<close>\<close>

definition cut_dot :: "string \<Rightarrow> (string \<times> string) option" where
  "cut_dot s = (if dot \<in> set s
     then Some (takeWhile (\<lambda>c. c \<noteq> dot) s, tl (dropWhile (\<lambda>c. c \<noteq> dot) s)) else None)"

definition nanos :: "int \<Rightarrow> int" where
  "nanos sec = sec * 1000000000"

text \<open>\<^verbatim>\<open>NewHMACVerifier\<close> panics on an empty secret; \<open>vnow\<close> is the clock reading in nanoseconds.\<close>

definition NewHMACVerifier :: "bytes \<Rightarrow> int \<Rightarrow> HMACVerifier option" where
  "NewHMACVerifier sec t = (if sec = [] then None else Some \<lparr>vsecret = sec, vnow = t\<rparr>)"

definition check_claims :: "HMACVerifier \<Rightarrow> claimsJSON \<Rightarrow> auth_error + Claims" where
  "check_claims v payload =
     (if Sub payload = [] \<or> Exp payload \<le> 0 then Inl ErrInvalidClaims
      else if \<not> validEntries (cChannels payload) \<or> \<not> validEntries (cPub payload)
        then Inl ErrInvalidClaims
      else if Nbf payload > 0 \<and> vnow v < nanos (Nbf payload) then Inl ErrTokenNotYetValid
      else if \<not> vnow v < nanos (Exp payload) then Inl ErrTokenExpired
      else Inr \<lparr>Subject = Sub payload, ExpiresAt = Some (Exp payload),
                Channels = cChannels payload, Pub = cPub payload\<rparr>)"

definition Verify :: "codec \<Rightarrow> HMACVerifier \<Rightarrow> string \<Rightarrow> auth_error + Claims" where
  "Verify cd v token =
     (case cut_dot token of
        None \<Rightarrow> Inl ErrMalformedToken
      | Some (headerB64, rest) \<Rightarrow>
          (case cut_dot rest of
             None \<Rightarrow> Inl ErrMalformedToken
           | Some (payloadB64, sigB64) \<Rightarrow>
               if dot \<in> set sigB64 then Inl ErrMalformedToken
               else (case (b64decode cd headerB64, b64decode cd payloadB64, b64decode cd sigB64) of
                       (Some headerRaw, Some payloadRaw, Some sig) \<Rightarrow>
                         (case jsonHeaderAlg cd headerRaw of
                            None \<Rightarrow> Inl ErrMalformedToken
                          | Some alg \<Rightarrow>
                              if alg \<noteq> ''HS256'' then Inl ErrUnsupportedAlg
                              else if sig \<noteq> hmacSHA256 cd (vsecret v)
                                        (take (length headerB64 + 1 + length payloadB64) token)
                                then Inl ErrBadSignature
                              else (case jsonClaims cd payloadRaw of
                                      None \<Rightarrow> Inl ErrInvalidClaims
                                    | Some payload \<Rightarrow> check_claims v payload))
                     | _ \<Rightarrow> Inl ErrMalformedToken)))"

section \<open>The claim grammar\<close>

lemma validEntry_shape:
  assumes "validEntry entry"
  shows "star_char \<notin> set entry \<or> (\<exists>p. entry = p @ [star_char] \<and> star_char \<notin> set p)"
proof (cases "star_char \<in> set entry")
  case True
  then obtain p q where pq: "entry = p @ star_char # q" "star_char \<notin> set p"
    by (meson split_list_first)
  then have "takeWhile (\<lambda>c. c \<noteq> star_char) entry = p"
    by (metis (mono_tags, lifting) takeWhile_append2 takeWhile.simps(2) append_Nil2)
  with assms True pq have "q = []" by (simp add: validEntry_def split: if_splits)
  with pq show ?thesis by simp
qed simp

text \<open>A literal entry admits only itself, a starred one exactly the names with its prefix.\<close>

lemma matchPattern_lit: "star_char \<notin> set p \<Longrightarrow> matchPattern p channel \<longleftrightarrow> channel = p"
  by (metis last_in_set matchPattern_def)

lemma matchPattern_star [simp]: "matchPattern (p @ [star_char]) channel \<longleftrightarrow> prefix p channel"
  by (simp add: matchPattern_def)

lemma matchPattern_glob_closed:
  assumes "validEntry entry" "matchPattern entry pat" "glob pat channel"
  shows "matchPattern entry channel"
  using validEntry_shape [OF assms(1)]
proof
  assume "star_char \<notin> set entry"
  with assms show ?thesis by (simp add: matchPattern_lit glob_no_star)
next
  assume "\<exists>p. entry = p @ [star_char] \<and> star_char \<notin> set p"
  then obtain p where p: "entry = p @ [star_char]" "star_char \<notin> set p" by blast
  with assms(2) obtain q where "pat = p @ q" by (auto simp: prefix_def)
  with assms(3) p show ?thesis by (simp add: glob_prefix)
qed

lemma matchAny_glob_closed:
  assumes "validEntries es" "matchAny es pat" "glob pat channel"
  shows "matchAny es channel"
proof (cases es)
  case (Some xs)
  with assms obtain p where "p \<in> set xs" "validEntry p" "matchPattern p pat"
    by (auto simp: matchAny_def validEntries_def list_ex_iff list_all_iff)
  then show ?thesis
    using Some matchPattern_glob_closed [OF _ _ assms(3)] by (auto simp: matchAny_def list_ex_iff)
qed (simp add: matchAny_def)

text \<open>The matcher of the claims agrees with the engine's pattern grammar on valid entries.\<close>

lemma matchPattern_glob:
  assumes "validEntry entry"
  shows "matchPattern entry channel = glob entry channel"
  using validEntry_shape [OF assms]
proof
  assume "star_char \<notin> set entry"
  then show ?thesis by (simp add: matchPattern_lit glob_no_star)
next
  assume "\<exists>p. entry = p @ [star_char] \<and> star_char \<notin> set p"
  then obtain p where p: "entry = p @ [star_char]" "star_char \<notin> set p" by blast
  have "glob [star_char] n" for n by (induction n) auto
  with p show ?thesis by (auto simp: glob_seg prefix_def)
qed

section \<open>What an accepted token guarantees\<close>

lemma cut_dot_Some:
  assumes "cut_dot s = Some (a, b)"
  shows "s = a @ dot # b \<and> dot \<notin> set a"
proof -
  from assms have in_s: "dot \<in> set s" and a: "a = takeWhile (\<lambda>c. c \<noteq> dot) s"
      and b: "b = tl (dropWhile (\<lambda>c. c \<noteq> dot) s)"
    by (auto simp: cut_dot_def split: if_splits)
  have "dropWhile (\<lambda>c. c \<noteq> dot) s = dot # b"
    using in_s b by (metis (mono_tags, lifting) dropWhile_eq_Nil_conv hd_dropWhile list.collapse)
  then show ?thesis using a by (metis set_takeWhileD takeWhile_dropWhile_id)
qed

lemma check_claims_ok:
  assumes "check_claims v payload = Inr c"
  shows "Subject c = Sub payload \<and> Subject c \<noteq> [] \<and> ExpiresAt c = Some (Exp payload)
    \<and> vnow v < nanos (Exp payload) \<and> nanos (Nbf payload) \<le> max (vnow v) 0
    \<and> Channels c = cChannels payload \<and> Pub c = cPub payload
    \<and> validEntries (Channels c) \<and> validEntries (Pub c)"
  using assms by (auto simp: check_claims_def nanos_def split: if_splits)

lemma Verify_Inr:
  assumes "Verify cd v token = Inr c"
  obtains h p s hr pr sg payload where
    "token = h @ dot # p @ dot # s" "dot \<notin> set h" "dot \<notin> set p" "dot \<notin> set s"
    "b64decode cd h = Some hr" "b64decode cd p = Some pr" "b64decode cd s = Some sg"
    "jsonHeaderAlg cd hr = Some ''HS256''" "sg = hmacSHA256 cd (vsecret v) (h @ dot # p)"
    "jsonClaims cd pr = Some payload" "check_claims v payload = Inr c"
proof -
  from assms obtain h rest p s where cut: "cut_dot token = Some (h, rest)" "cut_dot rest = Some (p, s)"
      "dot \<notin> set s"
    by (auto simp: Verify_def split: option.splits prod.splits if_splits)
  note tok = cut_dot_Some [OF cut(1)] cut_dot_Some [OF cut(2)]
  have "take (length h + 1 + length p) token = h @ dot # p" using tok by simp
  with assms cut obtain hr pr sg payload where
    "b64decode cd h = Some hr" "b64decode cd p = Some pr" "b64decode cd s = Some sg"
    "jsonHeaderAlg cd hr = Some ''HS256''" "sg = hmacSHA256 cd (vsecret v) (h @ dot # p)"
    "jsonClaims cd pr = Some payload" "check_claims v payload = Inr c"
    by (auto simp: Verify_def split: option.splits if_splits)
  with tok cut(3) show ?thesis by (intro that [of h p s]) simp_all
qed

text \<open>
  (C7) A token is accepted only if it has exactly three dot-separated parts, names HS256, carries
  the HMAC of its first two parts under the verifier's secret, and its claims are in force now:
  the subject is not empty, the clock is before the expiry and not before \<open>nbf\<close>, and both
  allowlists obey the claim grammar.
\<close>

theorem Verify_sound:
  assumes "Verify cd v token = Inr c"
  shows "\<exists>h p s hr pr payload. token = h @ dot # p @ dot # s \<and> dot \<notin> set (h @ p @ s)
    \<and> b64decode cd h = Some hr \<and> jsonHeaderAlg cd hr = Some ''HS256''
    \<and> b64decode cd s = Some (hmacSHA256 cd (vsecret v) (h @ dot # p))
    \<and> b64decode cd p = Some pr \<and> jsonClaims cd pr = Some payload
    \<and> Subject c = Sub payload \<and> Subject c \<noteq> [] \<and> ExpiresAt c = Some (Exp payload)
    \<and> vnow v < nanos (Exp payload) \<and> nanos (Nbf payload) \<le> max (vnow v) 0
    \<and> Channels c = cChannels payload \<and> Pub c = cPub payload
    \<and> validEntries (Channels c) \<and> validEntries (Pub c)"
  using assms
proof (rule Verify_Inr)
  fix h p s hr pr sg payload
  assume a: "token = h @ dot # p @ dot # s" "dot \<notin> set h" "dot \<notin> set p" "dot \<notin> set s"
    "b64decode cd h = Some hr" "b64decode cd p = Some pr" "b64decode cd s = Some sg"
    "jsonHeaderAlg cd hr = Some ''HS256''" "sg = hmacSHA256 cd (vsecret v) (h @ dot # p)"
    "jsonClaims cd pr = Some payload" "check_claims v payload = Inr c"
  have "dot \<notin> set (h @ p @ s)" "b64decode cd s = Some (hmacSHA256 cd (vsecret v) (h @ dot # p))"
    using a by simp_all
  then show ?thesis using a(1,5,6,8,10) check_claims_ok [OF a(11)] by blast
qed

definition demo_codec :: codec where
  "demo_codec = \<lparr>b64decode = Some, jsonHeaderAlg = (\<lambda>_. Some ''HS256''),
     jsonClaims = (\<lambda>_. Some \<lparr>Sub = ''alice'', Exp = 100, Nbf = 0,
        cChannels = Some [''orders:'' @ [star_char]], cPub = Some []\<rparr>),
     hmacSHA256 = (\<lambda>k m. ''sig'')\<rparr>"

definition demo_claims :: Claims where
  "demo_claims = \<lparr>Subject = ''alice'', ExpiresAt = Some 100,
     Channels = Some [''orders:'' @ [star_char]], Pub = Some []\<rparr>"

lemma demo_Verify:
  "Verify demo_codec \<lparr>vsecret = ''k'', vnow = 5\<rparr> ''h.p.sig'' = Inr demo_claims"
  by code_simp

theorem Verify_sound_witness: "validEntries (Channels demo_claims)"
  using Verify_sound [OF demo_Verify] by blast

text \<open>
  Wildcard requests cannot widen a token: if an accepted token's allowlist admits a
  subscription to a pattern, it also admits every single channel that pattern matches under the
  engine's matcher.
\<close>

theorem pattern_grant_closed:
  assumes "Verify cd v token = Inr c" and "CanSubscribe c pat" and "Match pat channel"
  shows "CanSubscribe c channel"
proof -
  from assms(1) have "validEntries (Channels c)" by (rule Verify_Inr) (use check_claims_ok in blast)
  with assms(2,3) show ?thesis
    by (simp add: CanSubscribe_def Match_glob matchAny_glob_closed)
qed

theorem pattern_grant_closed_witness:
  "CanSubscribe demo_claims (''orders:1'' @ [star_char]) \<and> CanSubscribe demo_claims ''orders:17''"
proof -
  have h: "CanSubscribe demo_claims (''orders:1'' @ [star_char])"
    by (simp add: CanSubscribe_def matchAny_def demo_claims_def matchPattern_def star_char_def)
  have "Match (''orders:1'' @ [star_char]) ''orders:17''"
    by (simp add: Match_glob star_char_def)
  then show ?thesis using h pattern_grant_closed [OF demo_Verify h] by simp
qed

end
