(* ===== verification/Namespace.thy ===== *)
theory Namespace
  imports Pattern
begin

text \<open>
  Model of \<^verbatim>\<open>internal/namespace/namespace.go\<close>: the settings a channel class carries, their
  validation, the registry that resolves a channel name to its class, and the construction of a
  registry from the decoded YAML section. Reading and decoding the YAML file itself (\<^verbatim>\<open>LoadFile\<close>)
  is file I/O and a third-party decoder and is left out; everything after the decode is here.

  Durations are nanosecond counts in \<^typ>\<open>int\<close>. The Go errors all wrap \<^verbatim>\<open>ErrInvalidConfig\<close> with a
  message naming the namespace; the model keeps the name and the reason.
\<close>

datatype QoSLevel = AtMostOnce | AtLeastOnce

datatype FanoutMode = Broadcast | RoundRobin | Priority

record Settings =
  HistorySize :: int
  HistoryTTL :: int
  AllowPublish :: bool
  MaxSubscribers :: int
  QoS :: QoSLevel
  RedeliveryTimeout :: int
  MaxRedeliveries :: int
  Fanout :: FanoutMode
  AllowWildcard :: bool
  IdleReap :: int

text \<open>The Go zero value \<^verbatim>\<open>Settings{}\<close>.\<close>

definition zero_settings :: Settings where
  "zero_settings = \<lparr>HistorySize = 0, HistoryTTL = 0, AllowPublish = False, MaxSubscribers = 0,
     QoS = AtMostOnce, RedeliveryTimeout = 0, MaxRedeliveries = 0, Fanout = Broadcast,
     AllowWildcard = False, IdleReap = 0\<rparr>"

datatype ns_reason =
    NegHistorySize | NegHistoryTTL | NegMaxSubscribers | NegRedeliveryTimeout
  | NegMaxRedeliveries | NegIdleReap | TTLWithoutHistory | WildcardNotBroadcast
  | QoSWithoutHistory | RedeliveryWithoutQoS
  | EmptyName | NameHasColon | BadQoS string | BadFanout string

datatype ns_error = ErrInvalidConfig string ns_reason

definition validate :: "string \<Rightarrow> Settings \<Rightarrow> ns_error option" where
  "validate name s =
     (if HistorySize s < 0 then Some (ErrInvalidConfig name NegHistorySize)
      else if HistoryTTL s < 0 then Some (ErrInvalidConfig name NegHistoryTTL)
      else if MaxSubscribers s < 0 then Some (ErrInvalidConfig name NegMaxSubscribers)
      else if RedeliveryTimeout s < 0 then Some (ErrInvalidConfig name NegRedeliveryTimeout)
      else if MaxRedeliveries s < 0 then Some (ErrInvalidConfig name NegMaxRedeliveries)
      else if IdleReap s < 0 then Some (ErrInvalidConfig name NegIdleReap)
      else if HistoryTTL s > 0 \<and> HistorySize s \<le> 0 then Some (ErrInvalidConfig name TTLWithoutHistory)
      else if AllowWildcard s \<and> Fanout s \<noteq> Broadcast then Some (ErrInvalidConfig name WildcardNotBroadcast)
      else if QoS s = AtLeastOnce \<and> HistorySize s \<le> 0 then Some (ErrInvalidConfig name QoSWithoutHistory)
      else if QoS s \<noteq> AtLeastOnce \<and> (RedeliveryTimeout s > 0 \<or> MaxRedeliveries s > 0)
        then Some (ErrInvalidConfig name RedeliveryWithoutQoS)
      else None)"

record Config =
  Default :: Settings
  Namespaces :: "(string, Settings) gomap"
  Strict :: bool

record Registry =
  regNamespaces :: "(string, Settings) gomap"
  regDef :: Settings
  regStrict :: bool

text \<open>The validating copy loop of \<^verbatim>\<open>NewRegistry\<close>: the first invalid namespace ends it.\<close>

fun copy_valid :: "(string, Settings) gomap \<Rightarrow> (string, Settings) gomap \<Rightarrow> ns_error + (string, Settings) gomap" where
  "copy_valid [] acc = Inr acc"
| "copy_valid ((name, s) # rest) acc =
     (case validate name s of Some e \<Rightarrow> Inl e | None \<Rightarrow> copy_valid rest (gput name s acc))"

definition NewRegistry :: "Config \<Rightarrow> ns_error + Registry" where
  "NewRegistry cfg =
     (case validate ''default'' (Default cfg) of
        Some e \<Rightarrow> Inl e
      | None \<Rightarrow>
          (case copy_valid (Namespaces cfg) [] of
             Inl e \<Rightarrow> Inl e
           | Inr m \<Rightarrow> Inr \<lparr>regNamespaces = m, regDef = Default cfg, regStrict = Strict cfg\<rparr>))"

definition Registry_All :: "Registry \<Rightarrow> Settings list" where
  "Registry_All r = regDef r # map snd (regNamespaces r)"

definition colon :: char where
  "colon = CHR 0x3A"

definition Split :: "string \<Rightarrow> string \<times> string \<times> bool" where
  "Split channel =
     (if colon \<in> set channel
      then (takeWhile (\<lambda>c. c \<noteq> colon) channel, tl (dropWhile (\<lambda>c. c \<noteq> colon) channel), True)
      else ([], channel, False))"

definition Prefix :: "string \<Rightarrow> string" where
  "Prefix channel = (if colon \<in> set channel then takeWhile (\<lambda>c. c \<noteq> colon) channel else [])"

definition Resolve :: "Registry \<Rightarrow> string \<Rightarrow> Settings \<times> bool" where
  "Resolve r channel =
     (case Split channel of (ns, _, found) \<Rightarrow>
        if ns = [] then
          (if found \<and> regStrict r then (zero_settings, False) else (regDef r, True))
        else
          (case gget (regNamespaces r) ns of
             Some s \<Rightarrow> (s, True)
           | None \<Rightarrow> if regStrict r then (zero_settings, False) else (regDef r, True)))"

section \<open>Building a registry from decoded YAML\<close>

record SettingsYAML =
  yHistorySize :: "int option"
  yHistoryTTL :: "int option"
  yAllowPublish :: "bool option"
  yMaxSubscribers :: "int option"
  yQoS :: "string option"
  yFanout :: "string option"
  yAllowWildcard :: "bool option"
  yRedeliveryTimeout :: "int option"
  yMaxRedeliveries :: "int option"
  yIdleReap :: "int option"

record ConfigYAML =
  yStrict :: bool
  yDefault :: SettingsYAML
  yNamespaces :: "(string, SettingsYAML) gomap"

definition or_else :: "'a option \<Rightarrow> 'a \<Rightarrow> 'a" where
  "or_else x d = (case x of Some v \<Rightarrow> v | None \<Rightarrow> d)"

definition parse_qos :: "string \<Rightarrow> string option \<Rightarrow> ns_error + QoSLevel" where
  "parse_qos name q =
     (case q of
        None \<Rightarrow> Inr AtMostOnce
      | Some v \<Rightarrow> if v = ''at-most-once'' then Inr AtMostOnce
                  else if v = ''at-least-once'' then Inr AtLeastOnce
                  else Inl (ErrInvalidConfig name (BadQoS v)))"

definition parse_fanout :: "string \<Rightarrow> string option \<Rightarrow> ns_error + FanoutMode" where
  "parse_fanout name f =
     (case f of
        None \<Rightarrow> Inr Broadcast
      | Some v \<Rightarrow> if v = ''broadcast'' then Inr Broadcast
                  else if v = ''round_robin'' then Inr RoundRobin
                  else if v = ''priority'' then Inr Priority
                  else Inl (ErrInvalidConfig name (BadFanout v)))"

text \<open>\<open>time_second\<close> is \<^verbatim>\<open>time.Second\<close> in nanoseconds.\<close>

definition time_second :: int where
  "time_second = 1000000000"

definition toSettings :: "string \<Rightarrow> SettingsYAML \<Rightarrow> ns_error + Settings" where
  "toSettings name raw =
     (case parse_qos name (yQoS raw) of
        Inl e \<Rightarrow> Inl e
      | Inr q \<Rightarrow>
          (case parse_fanout name (yFanout raw) of
             Inl e \<Rightarrow> Inl e
           | Inr f \<Rightarrow>
               (let s = \<lparr>HistorySize = or_else (yHistorySize raw) 0,
                         HistoryTTL = or_else (yHistoryTTL raw) 0,
                         AllowPublish = or_else (yAllowPublish raw) True,
                         MaxSubscribers = or_else (yMaxSubscribers raw) 0,
                         QoS = q,
                         RedeliveryTimeout = or_else (yRedeliveryTimeout raw) 0,
                         MaxRedeliveries = or_else (yMaxRedeliveries raw) 0,
                         Fanout = f,
                         AllowWildcard = or_else (yAllowWildcard raw) False,
                         IdleReap = or_else (yIdleReap raw) 0\<rparr>;
                    s' = (if q = AtLeastOnce then
                            s\<lparr>RedeliveryTimeout := or_else (yRedeliveryTimeout raw) (30 * time_second),
                              MaxRedeliveries := or_else (yMaxRedeliveries raw) 3\<rparr>
                          else s)
                in case validate name s' of Some e \<Rightarrow> Inl e | None \<Rightarrow> Inr s')))"

fun build_namespaces :: "(string, SettingsYAML) gomap \<Rightarrow> (string, Settings) gomap \<Rightarrow> ns_error + (string, Settings) gomap" where
  "build_namespaces [] acc = Inr acc"
| "build_namespaces ((name, raw) # rest) acc =
     (if name = [] then Inl (ErrInvalidConfig [] EmptyName)
      else if colon \<in> set name then Inl (ErrInvalidConfig name NameHasColon)
      else (case toSettings name raw of
              Inl e \<Rightarrow> Inl e
            | Inr s \<Rightarrow> build_namespaces rest (gput name s acc)))"

definition Build :: "ConfigYAML \<Rightarrow> ns_error + Registry" where
  "Build cfg =
     (case toSettings ''default'' (yDefault cfg) of
        Inl e \<Rightarrow> Inl e
      | Inr d \<Rightarrow>
          (case build_namespaces (yNamespaces cfg) [] of
             Inl e \<Rightarrow> Inl e
           | Inr m \<Rightarrow> NewRegistry \<lparr>Default = d, Namespaces = m, Strict = yStrict cfg\<rparr>))"

section \<open>What a registry promises\<close>

text \<open>Settings that pass validation, as one proposition.\<close>

definition settings_ok :: "Settings \<Rightarrow> bool" where
  "settings_ok s \<longleftrightarrow> 0 \<le> HistorySize s \<and> 0 \<le> HistoryTTL s \<and> 0 \<le> MaxSubscribers s
     \<and> 0 \<le> RedeliveryTimeout s \<and> 0 \<le> MaxRedeliveries s \<and> 0 \<le> IdleReap s
     \<and> (HistoryTTL s > 0 \<longrightarrow> HistorySize s > 0)
     \<and> (AllowWildcard s \<longrightarrow> Fanout s = Broadcast)
     \<and> (QoS s = AtLeastOnce \<longrightarrow> HistorySize s > 0)
     \<and> (QoS s \<noteq> AtLeastOnce \<longrightarrow> RedeliveryTimeout s = 0 \<and> MaxRedeliveries s = 0)"

lemma validate_None_iff: "validate name s = None \<longleftrightarrow> settings_ok s"
  by (auto simp: validate_def settings_ok_def)

lemma settings_ok_zero [simp]: "settings_ok zero_settings"
  by (simp add: settings_ok_def zero_settings_def)

definition registry_ok :: "Registry \<Rightarrow> bool" where
  "registry_ok r \<longleftrightarrow> gomap_ok (regNamespaces r) \<and> settings_ok (regDef r)
     \<and> (\<forall>ns s. gget (regNamespaces r) ns = Some s \<longrightarrow> settings_ok s)"

lemma copy_valid_ok:
  assumes "copy_valid m acc = Inr m'" "gomap_ok acc" "\<And>ns s. gget acc ns = Some s \<Longrightarrow> settings_ok s"
  shows "gomap_ok m' \<and> (\<forall>ns s. gget m' ns = Some s \<longrightarrow> settings_ok s)"
  using assms
  by (induction m acc rule: copy_valid.induct)
     (fastforce split: option.splits if_splits simp: validate_None_iff)+

lemma copy_valid_lookup:
  assumes "copy_valid m acc = Inr m'" "gomap_ok m"
  shows "gget m' ns = (case gget m ns of Some s \<Rightarrow> Some s | None \<Rightarrow> gget acc ns)"
  using assms
proof (induction m acc rule: copy_valid.induct)
  case (2 name s rest acc)
  have fresh: "gget rest name = None"
    using "2.prems"(2) set_gkeys [of name rest] by (auto simp: gomap_ok_def)
  have "gget m' ns = (case gget rest ns of Some s \<Rightarrow> Some s | None \<Rightarrow> gget (gput name s acc) ns)"
    using "2.prems" by (intro "2.IH") (auto simp: gomap_ok_def split: option.splits)
  then show ?case using fresh by (auto simp: gget_Cons split: option.splits)
qed simp

lemma NewRegistry_ok: "NewRegistry cfg = Inr r \<Longrightarrow> registry_ok r"
  by (auto simp: NewRegistry_def registry_ok_def validate_None_iff
      split: option.splits sum.splits dest!: copy_valid_ok)

lemma Build_NewRegistry: "Build cfg = Inr r \<Longrightarrow> \<exists>c. NewRegistry c = Inr r"
  by (auto simp: Build_def split: sum.splits)

lemma Build_ok: "Build cfg = Inr r \<Longrightarrow> registry_ok r"
  using Build_NewRegistry NewRegistry_ok by blast

lemma Resolve_ok: "registry_ok r \<Longrightarrow> settings_ok (fst (Resolve r channel))"
  by (auto simp: Resolve_def registry_ok_def split: prod.splits option.splits)

lemma Split_Prefix: "fst (Split channel) = Prefix channel"
  by (simp add: Split_def Prefix_def)

lemma takeWhile_join: "x \<notin> set ns \<Longrightarrow> takeWhile (\<lambda>c. c \<noteq> x) (ns @ x # rest) = ns"
  by (induction ns) auto

lemma dropWhile_join: "x \<notin> set ns \<Longrightarrow> dropWhile (\<lambda>c. c \<noteq> x) (ns @ x # rest) = x # rest"
  by (induction ns) auto

lemma Split_join: "colon \<notin> set ns \<Longrightarrow> Split (ns @ colon # rest) = (ns, rest, True)"
  by (simp add: Split_def takeWhile_join dropWhile_join)

lemma Split_found: "Split channel = (ns, rest, True) \<Longrightarrow> channel = ns @ colon # rest \<and> colon \<notin> set ns"
  by (auto simp: Split_def split: if_splits dest: set_takeWhileD)
     (metis (mono_tags, lifting) dropWhile_eq_Nil_conv hd_dropWhile list.collapse takeWhile_dropWhile_id)

text \<open>
  Every registry the loader accepts resolves every channel to settings that satisfy the
  cross-field rules: a wildcard-admitting class is broadcast, an at-least-once class has
  history, a TTL implies a history, and no bound is negative.
\<close>

theorem Build_Resolve_valid:
  assumes "Build cfg = Inr r"
  shows "settings_ok (fst (Resolve r channel))"
  using assms by (intro Resolve_ok Build_ok)

definition demo_yaml :: SettingsYAML where
  "demo_yaml = \<lparr>yHistorySize = None, yHistoryTTL = None, yAllowPublish = None, yMaxSubscribers = None,
     yQoS = None, yFanout = None, yAllowWildcard = None, yRedeliveryTimeout = None,
     yMaxRedeliveries = None, yIdleReap = None\<rparr>"

definition demo_config :: ConfigYAML where
  "demo_config = \<lparr>yStrict = True, yDefault = demo_yaml,
     yNamespaces = [(''orders'', demo_yaml\<lparr>yHistorySize := Some 8, yQoS := Some ''at-least-once''\<rparr>)]\<rparr>"

lemma demo_Build: "\<exists>r. Build demo_config = Inr r"
  by (simp add: Build_def demo_config_def demo_yaml_def toSettings_def parse_qos_def parse_fanout_def
      or_else_def validate_def time_second_def colon_def NewRegistry_def gput_def Let_def)

theorem Build_Resolve_valid_witness:
  "\<exists>r. Build demo_config = Inr r \<and> settings_ok (fst (Resolve r ''orders:1''))"
proof -
  obtain r where r: "Build demo_config = Inr r" using demo_Build by blast
  show ?thesis using r Build_Resolve_valid [OF r] by blast
qed

text \<open>A configured namespace governs exactly the channels that carry its prefix.\<close>

lemma build_namespaces_lookup:
  assumes "build_namespaces m acc = Inr m'" "gomap_ok m"
  shows "(case gget m ns of
            Some raw \<Rightarrow> ns \<noteq> [] \<and> colon \<notin> set ns \<and> (\<exists>s. toSettings ns raw = Inr s \<and> gget m' ns = Some s)
          | None \<Rightarrow> gget m' ns = gget acc ns)"
  using assms
proof (induction m acc rule: build_namespaces.induct)
  case (2 name raw rest acc)
  from "2.prems" obtain s where s: "toSettings name raw = Inr s" "name \<noteq> []" "colon \<notin> set name"
      "build_namespaces rest (gput name s acc) = Inr m'"
    by (auto split: if_splits sum.splits)
  have fresh: "gget rest name = None"
    using "2.prems"(2) set_gkeys [of name rest] by (auto simp: gomap_ok_def)
  have "case gget rest ns of
            Some raw \<Rightarrow> ns \<noteq> [] \<and> colon \<notin> set ns \<and> (\<exists>s. toSettings ns raw = Inr s \<and> gget m' ns = Some s)
          | None \<Rightarrow> gget m' ns = gget (gput name s acc) ns"
    using "2.prems" s by (intro "2.IH") (auto simp: gomap_ok_def)
  then show ?case using fresh s by (auto simp: gget_Cons split: option.splits if_splits)
qed simp

lemma build_namespaces_gomap_ok:
  "build_namespaces m acc = Inr m' \<Longrightarrow> gomap_ok acc \<Longrightarrow> gomap_ok m'"
  by (induction m acc rule: build_namespaces.induct) (auto split: if_splits sum.splits)

text \<open>
  Resolution honours the file: in a registry built from a decoded section, a channel
  \<open>ns:rest\<close> of a configured namespace resolves to exactly that namespace's settings, a channel
  without a prefix to the default, and a channel of an unknown or empty prefix is refused under
  strict mode and falls back to the default otherwise.
\<close>

theorem Build_Resolve_exact:
  assumes "Build cfg = Inr r" and "gomap_ok (yNamespaces cfg)" and "colon \<notin> set ns"
  shows "(case gget (yNamespaces cfg) ns of
            Some raw \<Rightarrow> (\<exists>s. toSettings ns raw = Inr s \<and> Resolve r (ns @ colon # rest) = (s, True))
          | None \<Rightarrow> Resolve r (ns @ colon # rest) =
                      (if yStrict cfg then (zero_settings, False) else (regDef r, True)))
    \<and> Resolve r ns = (regDef r, True) \<and> toSettings ''default'' (yDefault cfg) = Inr (regDef r)"
proof -
  from assms(1) obtain d m where dm: "toSettings ''default'' (yDefault cfg) = Inr d"
      "build_namespaces (yNamespaces cfg) [] = Inr m"
      "NewRegistry \<lparr>Default = d, Namespaces = m, Strict = yStrict cfg\<rparr> = Inr r"
    by (auto simp: Build_def split: sum.splits)
  have mok: "gomap_ok m" using build_namespaces_gomap_ok [OF dm(2)] by simp
  from dm(3) obtain m' where m': "copy_valid m [] = Inr m'"
      "r = \<lparr>regNamespaces = m', regDef = d, regStrict = yStrict cfg\<rparr>"
    by (auto simp: NewRegistry_def split: sum.splits option.splits)
  have same: "gget m' ns = gget m ns"
    using copy_valid_lookup [OF m'(1) mok] by (simp split: option.splits)
  show ?thesis
    using build_namespaces_lookup [OF dm(2) assms(2), of ns] same m'(2) dm(1) assms(3)
    by (auto simp: Resolve_def Split_join Split_def [of ns] split: option.splits)
qed

theorem Build_Resolve_exact_witness:
  "\<exists>r s. Build demo_config = Inr r \<and> Resolve r (''orders'' @ colon # ''1'') = (s, True)"
proof -
  obtain r where r: "Build demo_config = Inr r" using demo_Build by blast
  have ok: "gomap_ok (yNamespaces demo_config)" "colon \<notin> set ''orders''"
    by (simp_all add: demo_config_def gomap_ok_def colon_def)
  show ?thesis using r Build_Resolve_exact [OF r ok, of "''1''"]
    by (auto simp: demo_config_def gget_def)
qed

end
