(* ===== verification/History.thy ===== *)
theory History
  imports Prelude
begin

text \<open>
  Model of \<^verbatim>\<open>internal/engine/history.go\<close>: the bounded per-channel ring of publications addressed
  by offset. The ring is kept as the code keeps it (a backing array, the next write index and a
  fill count); \<open>hist_items\<close> reads it as the list of retained items, oldest first, and the
  operations are shown to be the bounded-list operations on that reading. \<^verbatim>\<open>replayN\<close> is given as
  written, with its arithmetic skip and its two-part copy out of the wrapped array.
\<close>

record historyItem =
  hiOffset :: u64
  hiData :: bytes
  hiStoredAt :: int

record history =
  hEntries :: "historyItem list"
  hHead :: nat
  hCount :: nat
  hTTL :: int
  hLastOffset :: u64

text \<open>The Go zero value \<^verbatim>\<open>historyItem{}\<close>.\<close>

definition zero_item :: historyItem where
  "zero_item = \<lparr>hiOffset = 0, hiData = [], hiStoredAt = 0\<rparr>"

definition newHistory :: "nat \<Rightarrow> int \<Rightarrow> history" where
  "newHistory capacity ttl =
     \<lparr>hEntries = replicate capacity zero_item, hHead = 0, hCount = 0, hTTL = ttl, hLastOffset = 0\<rparr>"

text \<open>
  \<^verbatim>\<open>appendNext\<close> advances the channel's sequence counter \<open>seq\<close>; the result is the new counter
  (which is the offset assigned) and the new ring.
\<close>

definition appendNext :: "history \<Rightarrow> u64 \<Rightarrow> bytes \<Rightarrow> int \<Rightarrow> u64 \<times> history" where
  "appendNext h seq data now =
     (let offset = seq + 1;
          n = length (hEntries h)
      in (offset,
          h\<lparr>hEntries := (hEntries h)[hHead h := \<lparr>hiOffset = offset, hiData = data, hiStoredAt = now\<rparr>],
            hHead := (hHead h + 1) mod n,
            hCount := (if hCount h < n then hCount h + 1 else hCount h),
            hLastOffset := offset\<rparr>))"

text \<open>\<^verbatim>\<open>(h.head - h.count + len(h.entries)) % len(h.entries)\<close>: the index of the oldest item.\<close>

definition hist_tail :: "history \<Rightarrow> nat" where
  "hist_tail h = nat ((int (hHead h) - int (hCount h) + int (length (hEntries h)))
                        mod int (length (hEntries h)))"

text \<open>The two copies out of the ring: \<open>want\<close> items from index \<open>start\<close>, wrapping once.\<close>

definition ring_copy :: "'a list \<Rightarrow> nat \<Rightarrow> nat \<Rightarrow> 'a list" where
  "ring_copy xs start want =
     (let first = take (min (start + want) (length xs) - start) (drop start xs)
      in first @ take (want - length first) xs)"

definition replayN :: "history \<Rightarrow> u64 \<Rightarrow> int \<Rightarrow> historyItem list option" where
  "replayN h fromOffset maxN =
     (if fromOffset = hLastOffset h then Some []
      else if hLastOffset h < fromOffset then None
      else if hCount h = 0 then None
      else
        (let n = length (hEntries h);
             tail = hist_tail h;
             oldest = hiOffset (hEntries h ! tail)
         in if fromOffset + 1 < oldest then None
            else
              (let skip = unat (fromOffset + 1 - oldest);
                   want0 = hCount h - skip;
                   want = (if 0 < maxN \<and> nat maxN < want0 then nat maxN else want0)
               in Some (ring_copy (hEntries h) ((tail + skip) mod n) want))))"

function sweep_loop :: "int \<Rightarrow> history \<Rightarrow> history" where
  "sweep_loop cutoff h =
     (if 0 < hCount h then
        (let tail = hist_tail h
         in if cutoff < hiStoredAt (hEntries h ! tail) then h
            else sweep_loop cutoff
                   (h\<lparr>hEntries := (hEntries h)[tail := zero_item], hCount := hCount h - 1\<rparr>))
      else h)"
  by pat_completeness auto
termination
  by (relation "measure (\<lambda>(c, h). hCount h)") auto

declare sweep_loop.simps [simp del]

definition hist_sweep :: "history \<Rightarrow> int \<Rightarrow> history" where
  "hist_sweep h now = (if hTTL h \<le> 0 then h else sweep_loop (now - hTTL h) h)"

definition hist_size :: "history \<Rightarrow> nat" where
  "hist_size h = hCount h"

section \<open>Reading the ring as a list\<close>

definition hist_items :: "history \<Rightarrow> historyItem list" where
  "hist_items h = map (\<lambda>i. hEntries h ! ((hist_tail h + i) mod length (hEntries h))) [0..<hCount h]"

text \<open>
  The ring invariant: a non-empty array, indices in range, and retained offsets that run
  contiguously up to the last one assigned, without having wrapped around.
\<close>

definition hist_ok :: "history \<Rightarrow> bool" where
  "hist_ok h \<longleftrightarrow> 0 < length (hEntries h) \<and> hHead h < length (hEntries h)
     \<and> hCount h \<le> length (hEntries h) \<and> hCount h \<le> unat (hLastOffset h)
     \<and> map (unat \<circ> hiOffset) (hist_items h) =
         [unat (hLastOffset h) + 1 - hCount h ..< unat (hLastOffset h) + 1]"

lemma hist_tail_mod:
  assumes "hCount h \<le> length (hEntries h)" "0 < length (hEntries h)"
  shows "hist_tail h = (hHead h + (length (hEntries h) - hCount h)) mod length (hEntries h)"
proof -
  have "int (hHead h) - int (hCount h) + int (length (hEntries h)) =
      int (hHead h + (length (hEntries h) - hCount h))"
    using assms by simp
  then show ?thesis by (simp add: hist_tail_def zmod_int [symmetric] del: of_nat_add of_nat_diff)
qed

lemma hist_tail_less: "0 < length (hEntries h) \<Longrightarrow> hist_tail h < length (hEntries h)"
  by (simp add: hist_tail_def nat_less_iff)

lemma length_hist_items [simp]: "length (hist_items h) = hCount h"
  by (simp add: hist_items_def)

lemma hist_items_nth:
  "i < hCount h \<Longrightarrow> hist_items h ! i = hEntries h ! ((hist_tail h + i) mod length (hEntries h))"
  by (simp add: hist_items_def)

text \<open>The index of item \<open>i\<close>, counted forward from the head.\<close>

lemma hist_index:
  assumes "hCount h \<le> length (hEntries h)" "0 < length (hEntries h)"
  shows "(hist_tail h + i) mod length (hEntries h) =
    (hHead h + (length (hEntries h) - hCount h) + i) mod length (hEntries h)"
  by (simp add: hist_tail_mod [OF assms] mod_simps)

section \<open>Append\<close>

definition mk_item :: "u64 \<Rightarrow> bytes \<Rightarrow> int \<Rightarrow> historyItem" where
  "mk_item off data now = \<lparr>hiOffset = off, hiData = data, hiStoredAt = now\<rparr>"

lemma appendNext_items:
  assumes "0 < length (hEntries h)" "hHead h < length (hEntries h)" "hCount h \<le> length (hEntries h)"
  shows "hist_items (snd (appendNext h seq data now)) =
    (if hCount h < length (hEntries h) then hist_items h else tl (hist_items h))
      @ [mk_item (seq + 1) data now]"
proof -
  let ?n = "length (hEntries h)" and ?h = "snd (appendNext h seq data now)"
  let ?item = "mk_item (seq + 1) data now"
  have len: "length (hEntries ?h) = ?n" by (simp add: appendNext_def Let_def)
  have cnt: "hCount ?h = (if hCount h < ?n then hCount h + 1 else hCount h)"
    by (simp add: appendNext_def Let_def)
  have ent: "hEntries ?h = (hEntries h)[hHead h := ?item]"
    by (simp add: appendNext_def Let_def mk_item_def)
  have idx: "(hist_tail ?h + i) mod ?n = (hHead h + 1 + (?n - hCount ?h) + i) mod ?n" for i
  proof -
    have "hHead ?h = (hHead h + 1) mod ?n" by (simp add: appendNext_def Let_def)
    moreover have "(hist_tail ?h + i) mod ?n = (hHead ?h + (?n - hCount ?h) + i) mod ?n"
      using hist_index [of ?h i] assms len cnt by simp
    ultimately show ?thesis by (metis add.assoc mod_add_left_eq)
  qed
  show ?thesis
  proof (rule nth_equalityI)
    show "length (hist_items ?h) = length ((if hCount h < ?n then hist_items h
        else tl (hist_items h)) @ [?item])"
      using assms by (simp add: cnt)
  next
    fix i assume i: "i < length (hist_items ?h)"
    then have icnt: "i < hCount ?h" by simp
    have lhs: "hist_items ?h ! i = (hEntries h)[hHead h := ?item] ! ((hHead h + 1 + (?n - hCount ?h) + i) mod ?n)"
      using icnt by (simp add: hist_items_nth len idx ent)
    show "hist_items ?h ! i = ((if hCount h < ?n then hist_items h else tl (hist_items h)) @ [?item]) ! i"
    proof (cases "i = hCount ?h - 1")
      case True
      have "hHead h + 1 + (?n - hCount ?h) + i = hHead h + ?n"
        using True cnt assms by (auto split: if_splits)
      then have "(hHead h + 1 + (?n - hCount ?h) + i) mod ?n = hHead h"
        using assms by (metis mod_add_self2 mod_less)
      then show ?thesis
        using True lhs cnt assms by (auto simp: nth_append split: if_splits)
    next
      case False
      define k where "k = (if hCount h < ?n then i else Suc i)"
      have k: "k < hCount h" using False icnt cnt by (auto simp: k_def split: if_splits)
      have eq: "hHead h + 1 + (?n - hCount ?h) + i = hHead h + (?n - hCount h) + k"
        using cnt assms by (auto simp: k_def split: if_splits)
      have kpos: "hCount h < ?n \<or> 0 < k" by (simp add: k_def)
      have ne: "(hHead h + (?n - hCount h) + k) mod ?n \<noteq> hHead h"
      proof
        assume "(hHead h + (?n - hCount h) + k) mod ?n = hHead h"
        then have "(hHead h + ((?n - hCount h) + k)) mod ?n = (hHead h + 0) mod ?n"
          using assms(2) by (simp add: add.assoc)
        then have "(?n - hCount h) + k = 0 \<or> ?n \<le> (?n - hCount h) + k"
          using mod_eq_window [of "hHead h" "?n - hCount h + k" ?n 0] assms(1) by linarith
        with k kpos assms(3) show False by linarith
      qed
      have "hist_items ?h ! i = hEntries h ! ((hHead h + (?n - hCount h) + k) mod ?n)"
        using lhs ne by (simp only: eq) simp
      also have "\<dots> = hist_items h ! k"
        using k assms by (simp add: hist_items_nth hist_index)
      finally show ?thesis
        using False k icnt cnt assms
        by (auto simp: nth_append nth_tl k_def split: if_splits)
    qed
  qed
qed

lemma length_appendNext [simp]: "length (hEntries (snd (appendNext h seq data now))) = length (hEntries h)"
  by (simp add: appendNext_def Let_def)

lemma fst_appendNext: "fst (appendNext h seq data now) = seq + 1"
  by (simp add: appendNext_def Let_def)

lemma hLastOffset_appendNext [simp]: "hLastOffset (snd (appendNext h seq data now)) = seq + 1"
  by (simp add: appendNext_def Let_def)

lemma hTTL_appendNext [simp]: "hTTL (snd (appendNext h seq data now)) = hTTL h"
  by (simp add: appendNext_def Let_def)

text \<open>
  A publication keeps the ring invariant: the channel's counter is the ring's last offset, and it
  has not reached the top of its range.
\<close>

lemma hist_ok_appendNext [inv_intros]:
  assumes "hist_ok h" "hLastOffset h = seq" "unat seq + 1 < 2 ^ 64"
  shows "hist_ok (snd (appendNext h seq data now))"
proof -
  let ?h = "snd (appendNext h seq data now)" and ?n = "length (hEntries h)"
  have base: "0 < ?n" "hHead h < ?n" "hCount h \<le> ?n" "hCount h \<le> unat seq"
      "map (unat \<circ> hiOffset) (hist_items h) = [unat seq + 1 - hCount h ..< unat seq + 1]"
    using assms(1,2) by (auto simp: hist_ok_def)
  have off: "unat (seq + 1) = unat seq + 1"
    using assms(3) by (simp add: unat_word_ariths)
  have head: "hHead ?h < ?n" using base by (simp add: appendNext_def Let_def)
  have cnt: "hCount ?h = (if hCount h < ?n then hCount h + 1 else hCount h)"
    by (simp add: appendNext_def Let_def)
  have items: "hist_items ?h = (if hCount h < ?n then hist_items h else tl (hist_items h))
      @ [mk_item (seq + 1) data now]"
    using appendNext_items [OF base(1-3)] .
  have "map (unat \<circ> hiOffset) (hist_items ?h) = [unat seq + 2 - hCount ?h ..< unat seq + 2]"
  proof (cases "hCount h < ?n")
    case True
    then show ?thesis
      using items base(4,5) off cnt by (simp add: mk_item_def upt_Suc_append Suc_diff_le)
  next
    case False
    then have "map (unat \<circ> hiOffset) (tl (hist_items h)) = [unat seq + 2 - hCount h ..< unat seq + 1]"
      using base by (simp add: map_tl tl_upt Suc_diff_le)
    moreover have "[unat seq + 2 - hCount h ..< unat seq + 2] =
        [unat seq + 2 - hCount h ..< unat seq + 1] @ [unat seq + 1]"
    proof -
      have le: "unat seq + 2 - hCount h \<le> unat seq + 1" using False base(1) by linarith
      show ?thesis using upt_Suc_append [OF le] by (simp del: upt_Suc)
    qed
    ultimately show ?thesis
      using False items off cnt by (simp add: mk_item_def del: upt_Suc)
  qed
  then show ?thesis
    using base head cnt off by (auto simp: hist_ok_def Suc_diff_le)
qed

lemma hist_ok_newHistory [inv_intros]: "0 < capacity \<Longrightarrow> hist_ok (newHistory capacity ttl)"
  by (simp add: hist_ok_def newHistory_def hist_items_def)

lemma newHistory_simps [simp]:
  "length (hEntries (newHistory capacity ttl)) = capacity" "hist_items (newHistory capacity ttl) = []"
  "hLastOffset (newHistory capacity ttl) = 0" "hTTL (newHistory capacity ttl) = ttl"
  by (simp_all add: newHistory_def hist_items_def)

section \<open>Sweep\<close>

text \<open>Dropping the oldest item: the body of the sweep loop.\<close>

definition drop_oldest :: "history \<Rightarrow> history" where
  "drop_oldest h = h\<lparr>hEntries := (hEntries h)[hist_tail h := zero_item], hCount := hCount h - 1\<rparr>"

lemma drop_oldest_items:
  assumes "0 < hCount h" "hCount h \<le> length (hEntries h)"
  shows "hist_items (drop_oldest h) = tl (hist_items h)"
proof (rule nth_equalityI)
  fix i assume "i < length (hist_items (drop_oldest h))"
  then have i: "i < hCount h - 1" by (simp add: drop_oldest_def)
  let ?n = "length (hEntries h)" and ?h = "drop_oldest h"
  have n: "0 < ?n" using assms by linarith
  have len: "length (hEntries ?h) = ?n" by (simp add: drop_oldest_def)
  have "(hist_tail ?h + i) mod ?n = (hHead h + (?n - (hCount h - 1)) + i) mod ?n"
    using hist_index [of ?h i] assms n len by (simp add: drop_oldest_def)
  also have "hHead h + (?n - (hCount h - 1)) + i = hHead h + (?n - hCount h) + Suc i"
    using assms by simp
  finally have idx: "(hist_tail ?h + i) mod ?n = (hist_tail h + Suc i) mod ?n"
    using hist_index [of h "Suc i"] assms n by simp
  have "(hist_tail h + Suc i) mod ?n \<noteq> hist_tail h"
  proof
    assume "(hist_tail h + Suc i) mod ?n = hist_tail h"
    then have "(hist_tail h + Suc i) mod ?n = (hist_tail h + 0) mod ?n"
      using hist_tail_less [of h] n by simp
    then show False using mod_eq_window [of "hist_tail h" "Suc i" ?n 0] i assms by linarith
  qed
  moreover have "hist_items ?h ! i = hEntries ?h ! ((hist_tail h + Suc i) mod ?n)"
    using i hist_items_nth [of i ?h] by (simp only: len idx) (simp add: drop_oldest_def)
  ultimately have "hist_items ?h ! i = hEntries h ! ((hist_tail h + Suc i) mod ?n)"
    by (simp add: drop_oldest_def)
  then show "hist_items (drop_oldest h) ! i = tl (hist_items h) ! i"
    using i by (simp add: hist_items_nth nth_tl)
qed (simp add: drop_oldest_def)

lemma hist_ok_drop_oldest: "hist_ok h \<Longrightarrow> 0 < hCount h \<Longrightarrow> hist_ok (drop_oldest h)"
  using drop_oldest_items [of h]
  by (auto simp: hist_ok_def drop_oldest_def map_tl tl_upt Suc_diff_le)

lemma sweep_loop_unfold:
  "sweep_loop cutoff h = (if 0 < hCount h \<and> \<not> cutoff < hiStoredAt (hEntries h ! hist_tail h)
     then sweep_loop cutoff (drop_oldest h) else h)"
  by (subst sweep_loop.simps) (auto simp: Let_def drop_oldest_def)

lemma hist_items_hd:
  assumes "hist_ok h" "0 < hCount h"
  shows "hist_items h \<noteq> [] \<and> hEntries h ! hist_tail h = hd (hist_items h)"
  using assms hist_items_nth [of 0 h] hist_tail_less [of h]
  by (auto simp: hist_ok_def hd_conv_nth simp flip: length_greater_0_conv)

text \<open>The loop keeps the invariant and drops exactly the expired items at the tail.\<close>

lemma sweep_loop_items:
  "hist_ok h \<Longrightarrow> hist_ok (sweep_loop cutoff h)
    \<and> hist_items (sweep_loop cutoff h) = dropWhile (\<lambda>x. hiStoredAt x \<le> cutoff) (hist_items h)
    \<and> hLastOffset (sweep_loop cutoff h) = hLastOffset h
    \<and> hTTL (sweep_loop cutoff h) = hTTL h
    \<and> length (hEntries (sweep_loop cutoff h)) = length (hEntries h)"
proof (induction "hCount h" arbitrary: h)
  case 0
  then show ?case
    by (subst (1 2 3 4 5) sweep_loop_unfold) (simp add: hist_items_def)
next
  case (Suc k)
  note hd = hist_items_hd [OF Suc.prems]
  have cnt: "0 < hCount h" using Suc.hyps(2) by simp
  have split: "hist_items h = hEntries h ! hist_tail h # tl (hist_items h)"
    using hd [OF cnt] by simp
  show ?case
  proof (cases "cutoff < hiStoredAt (hEntries h ! hist_tail h)")
    case True
    then have "sweep_loop cutoff h = h" by (subst sweep_loop_unfold) simp
    moreover have "dropWhile (\<lambda>x. hiStoredAt x \<le> cutoff) (hist_items h) = hist_items h"
      using True by (metis (mono_tags, lifting) split dropWhile.simps(2) not_le)
    ultimately show ?thesis using Suc.prems by simp
  next
    case False
    then have "sweep_loop cutoff h = sweep_loop cutoff (drop_oldest h)"
      using cnt by (subst sweep_loop_unfold) simp
    moreover have "hist_items (drop_oldest h) = tl (hist_items h)"
      using Suc.prems cnt by (intro drop_oldest_items) (simp_all add: hist_ok_def)
    moreover have "dropWhile (\<lambda>x. hiStoredAt x \<le> cutoff) (hist_items h) =
        dropWhile (\<lambda>x. hiStoredAt x \<le> cutoff) (tl (hist_items h))"
      using False by (metis (mono_tags, lifting) split dropWhile.simps(2) not_le)
    moreover have "k = hCount (drop_oldest h)" using Suc.hyps(2) by (simp add: drop_oldest_def)
    ultimately show ?thesis
      using Suc.hyps(1) [of "drop_oldest h"] hist_ok_drop_oldest [OF Suc.prems cnt]
      by (simp add: drop_oldest_def)
  qed
qed

lemma hist_sweep_items:
  assumes "hist_ok h"
  shows "hist_items (hist_sweep h now) =
      (if hTTL h \<le> 0 then hist_items h
       else dropWhile (\<lambda>x. hiStoredAt x \<le> now - hTTL h) (hist_items h))"
    and "hist_ok (hist_sweep h now)" "hLastOffset (hist_sweep h now) = hLastOffset h"
    and "hTTL (hist_sweep h now) = hTTL h"
  using assms sweep_loop_items [OF assms, of "now - hTTL h"] by (simp_all add: hist_sweep_def)

section \<open>Replay\<close>

lemma ring_copy_nth:
  assumes "start < length xs" "want \<le> length xs"
  shows "ring_copy xs start want = map (\<lambda>i. xs ! ((start + i) mod length xs)) [0..<want]"
proof (rule nth_equalityI)
  show "length (ring_copy xs start want) = length (map (\<lambda>i. xs ! ((start + i) mod length xs)) [0..<want])"
    using assms by (simp add: ring_copy_def Let_def)
next
  fix i assume "i < length (ring_copy xs start want)"
  then have i: "i < want" using assms by (simp add: ring_copy_def Let_def)
  have flen: "length (take (min (start + want) (length xs) - start) (drop start xs))
      = min want (length xs - start)"
    using assms by simp
  show "ring_copy xs start want ! i = map (\<lambda>i. xs ! ((start + i) mod length xs)) [0..<want] ! i"
  proof (cases "start + i < length xs")
    case True
    then have "i < min (start + want) (length xs) - start" using i by simp
    then show ?thesis using i assms True by (simp add: ring_copy_def Let_def nth_append)
  next
    case False
    then have "start + i = i - (length xs - start) + length xs" using assms by simp
    moreover have "i - (length xs - start) < length xs" using i assms by simp
    ultimately have "(start + i) mod length xs = i - (length xs - start)"
      by (metis mod_add_self2 mod_less)
    moreover have "\<not> i < length xs - start" using False by simp
    ultimately show ?thesis using False i assms by (simp add: ring_copy_def Let_def nth_append)
  qed
qed

text \<open>\<^verbatim>\<open>max\<close> caps the result; zero (or a negative value) means unbounded.\<close>

definition limit :: "int \<Rightarrow> 'a list \<Rightarrow> 'a list" where
  "limit maxN xs = (if 0 < maxN then take (nat maxN) xs else xs)"

lemma hist_items_offset:
  assumes "hist_ok h" "i < hCount h"
  shows "unat (hiOffset (hist_items h ! i)) = unat (hLastOffset h) + 1 - hCount h + i"
proof -
  have "map (unat \<circ> hiOffset) (hist_items h) ! i = [unat (hLastOffset h) + 1 - hCount h ..< unat (hLastOffset h) + 1] ! i"
    using assms by (simp add: hist_ok_def)
  then show ?thesis using assms by (simp add: hist_ok_def del: upt_Suc)
qed

lemma filter_newer:
  assumes "hist_ok h"
  shows "filter (\<lambda>x. from < hiOffset x) (hist_items h)
    = drop (unat from + hCount h - unat (hLastOffset h)) (hist_items h)"
proof -
  define skip where "skip = unat from + hCount h - unat (hLastOffset h)"
  have key: "from < hiOffset (hist_items h ! i) \<longleftrightarrow> skip \<le> i" if "i < hCount h" for i
    using hist_items_offset [OF assms that] assms that
    by (auto simp: word_less_nat_alt hist_ok_def skip_def)
  have "hist_items h = take skip (hist_items h) @ drop skip (hist_items h)" by simp
  moreover have "filter (\<lambda>x. from < hiOffset x) (take skip (hist_items h)) = []"
    using key by (auto simp: filter_empty_conv in_set_conv_nth)
  moreover have "filter (\<lambda>x. from < hiOffset x) (drop skip (hist_items h)) = drop skip (hist_items h)"
    using key by (auto simp: filter_id_conv in_set_conv_nth)
  ultimately show ?thesis by (metis append_Nil filter_append skip_def)
qed

lemma replayN_spec:
  assumes "hist_ok h"
  shows "replayN h from maxN =
    (if from \<le> hLastOffset h \<and> unat (hLastOffset h) - hCount h \<le> unat from
     then Some (limit maxN (filter (\<lambda>x. from < hiOffset x) (hist_items h))) else None)"
proof -
  let ?last = "unat (hLastOffset h)" and ?n = "length (hEntries h)"
  note ok = assms [unfolded hist_ok_def]
  consider (uptodate) "from = hLastOffset h" | (ahead) "hLastOffset h < from"
    | (empty) "from < hLastOffset h" "hCount h = 0" | (behind) "from < hLastOffset h" "0 < hCount h"
    by fastforce
  then show ?thesis
  proof cases
    case uptodate
    then show ?thesis by (simp add: replayN_def filter_newer [OF assms] limit_def)
  next
    case ahead
    then have "from \<noteq> hLastOffset h" "\<not> from \<le> hLastOffset h" by auto
    then show ?thesis using ahead by (simp add: replayN_def)
  next
    case empty
    then have "from \<noteq> hLastOffset h" by auto
    then show ?thesis using ok empty by (simp add: replayN_def word_less_nat_alt word_le_nat_alt)
  next
    case behind
    have lt: "unat from < ?last" using behind(1) by (simp add: word_less_nat_alt)
    have ne: "from \<noteq> hLastOffset h" using behind(1) by auto
    have from1: "unat (from + 1) = unat from + 1"
      using behind(1) by (rule unat_plus_1_less)
    have oldest: "unat (hiOffset (hEntries h ! hist_tail h)) = ?last + 1 - hCount h"
      using hist_items_hd [OF assms behind(2)] hist_items_offset [OF assms behind(2)] by (simp add: hd_conv_nth)
    show ?thesis
    proof (cases "unat from + 1 < ?last + 1 - hCount h")
      case True
      then have "\<not> ?last - hCount h \<le> unat from" by linarith
      moreover have "from + 1 < hiOffset (hEntries h ! hist_tail h)"
        using True from1 oldest by (simp add: word_less_nat_alt)
      ultimately show ?thesis using behind by (auto simp: replayN_def Let_def)
    next
      case False
      define skip where "skip = unat from + hCount h - ?last"
      define want where "want = (if 0 < maxN \<and> nat maxN < hCount h - skip then nat maxN else hCount h - skip)"
      have sk: "unat (from + 1 - hiOffset (hEntries h ! hist_tail h)) = skip"
        using False from1 oldest ok by (simp add: unat_sub word_le_nat_alt skip_def)
      have sklt: "skip < hCount h" using lt behind(2) by (simp add: skip_def)
      have "replayN h from maxN = Some (ring_copy (hEntries h) ((hist_tail h + skip) mod ?n) want)"
        using behind False from1 oldest sk ne
        by (simp add: replayN_def Let_def word_less_nat_alt want_def)
      also have "ring_copy (hEntries h) ((hist_tail h + skip) mod ?n) want
          = map (\<lambda>i. hEntries h ! ((hist_tail h + skip + i) mod ?n)) [0..<want]"
        using ok sklt by (subst ring_copy_nth) (auto simp: want_def mod_simps)
      also have "\<dots> = take want (drop skip (hist_items h))"
        using sklt hist_items_nth [of "skip + _" h]
        by (intro nth_equalityI) (auto simp: want_def add.assoc split: if_splits)
      also have "\<dots> = limit maxN (filter (\<lambda>x. from < hiOffset x) (hist_items h))"
        using sklt by (simp add: filter_newer [OF assms] skip_def [symmetric] limit_def want_def)
      moreover have "from \<le> hLastOffset h" "?last - hCount h \<le> unat from"
        using False behind(1) by (simp, linarith)
      ultimately show ?thesis by simp
    qed
  qed
qed

text \<open>
  (C4) Recovery is exact: on a well-formed ring, \<open>replayN\<close> answers precisely when the requested
  offset lies between the newest evicted offset and the last assigned one, and then returns all
  retained publications after it, oldest first, cut to the requested maximum; any other request
  (behind the retained tail, or ahead of the channel) is refused.
\<close>

theorem replayN_exact:
  assumes "hist_ok h"
  shows "replayN h from maxN =
    (if from \<le> hLastOffset h \<and> unat (hLastOffset h) - hCount h \<le> unat from
     then Some (limit maxN (filter (\<lambda>x. from < hiOffset x) (hist_items h))) else None)"
  using assms by (rule replayN_spec)

theorem replayN_exact_witness:
  "replayN (snd (appendNext (newHistory 2 0) 0 ''a'' 7)) 0 0
    = Some [\<lparr>hiOffset = 1, hiData = ''a'', hiStoredAt = 7\<rparr>]"
proof -
  have ok: "hist_ok (snd (appendNext (newHistory 2 0) 0 ''a'' 7))"
    by (intro hist_ok_appendNext hist_ok_newHistory) (simp_all add: newHistory_def)
  show ?thesis
    by (subst replayN_exact [OF ok])
       (simp add: appendNext_items newHistory_def hist_items_def mk_item_def limit_def appendNext_def
         hist_tail_def numeral_2_eq_2)
qed

section \<open>A whole run of publications\<close>

fun append_all :: "history \<Rightarrow> u64 \<Rightarrow> (bytes \<times> int) list \<Rightarrow> u64 \<times> history" where
  "append_all h seq [] = (seq, h)"
| "append_all h seq ((data, now) # ms) =
     append_all (snd (appendNext h seq data now)) (fst (appendNext h seq data now)) ms"

text \<open>The items a run of publications should leave, in publication order.\<close>

fun items_from :: "u64 \<Rightarrow> (bytes \<times> int) list \<Rightarrow> historyItem list" where
  "items_from seq [] = []"
| "items_from seq ((data, now) # ms) = mk_item (seq + 1) data now # items_from (seq + 1) ms"

lemma length_items_from [simp]: "length (items_from seq ms) = length ms"
  by (induction seq ms rule: items_from.induct) auto

definition lastn :: "nat \<Rightarrow> 'a list \<Rightarrow> 'a list" where
  "lastn n xs = drop (length xs - n) xs"

lemma lastn_snoc_lastn: "0 < n \<Longrightarrow> length xs \<le> n \<Longrightarrow>
  (if length xs < n then xs else tl xs) @ [y] = lastn n (xs @ [y])"
  by (auto simp: lastn_def drop_Suc Suc_diff_le)

lemma lastn_absorb: "lastn n (lastn n xs @ zs) = lastn n (xs @ zs)"
proof (cases "length xs \<le> n")
  case False
  let ?k = "length xs - n"
  have "lastn n (lastn n xs @ zs) = drop (length zs) (drop ?k xs @ zs)"
    using False by (simp add: lastn_def)
  also have "drop ?k xs @ zs = drop ?k (xs @ zs)" using False by simp
  also have "drop (length zs) (drop ?k (xs @ zs)) = lastn n (xs @ zs)"
    using False by (simp add: lastn_def add.commute del: drop_append)
  finally show ?thesis .
qed (simp add: lastn_def)

lemma append_all_spec:
  assumes "hist_ok h" "hLastOffset h = seq" "unat seq + length ms < 2 ^ 64"
  shows "let (seq', h') = append_all h seq ms in
    hist_ok h' \<and> hLastOffset h' = seq' \<and> unat seq' = unat seq + length ms
    \<and> length (hEntries h') = length (hEntries h)
    \<and> hist_items h' = lastn (length (hEntries h)) (hist_items h @ items_from seq ms)"
  using assms
proof (induction h seq ms rule: append_all.induct)
  case (1 h seq)
  then show ?case by (simp add: lastn_def hist_ok_def)
next
  case (2 h seq data now ms)
  let ?h = "snd (appendNext h seq data now)" and ?n = "length (hEntries h)"
  have ok: "hist_ok ?h" using "2.prems" by (intro hist_ok_appendNext) auto
  have off: "unat (seq + 1) = unat seq + 1" using "2.prems"(3) by (simp add: unat_word_ariths)
  have n: "0 < ?n" "hCount h \<le> ?n" "hHead h < ?n" using "2.prems"(1) by (auto simp: hist_ok_def)
  have items: "hist_items ?h = lastn ?n (hist_items h @ [mk_item (seq + 1) data now])"
    using n by (simp add: appendNext_items lastn_snoc_lastn [symmetric])
  have "let (seq', h') = append_all ?h (seq + 1) ms in
    hist_ok h' \<and> hLastOffset h' = seq' \<and> unat seq' = unat (seq + 1) + length ms
    \<and> length (hEntries h') = length (hEntries ?h)
    \<and> hist_items h' = lastn (length (hEntries ?h)) (hist_items ?h @ items_from (seq + 1) ms)"
    using "2.IH" "2.prems"(3) ok off by (simp add: fst_appendNext)
  moreover have "lastn ?n (hist_items ?h @ items_from (seq + 1) ms)
      = lastn ?n (hist_items h @ items_from seq ((data, now) # ms))"
    by (simp add: items lastn_absorb)
  ultimately show ?case by (simp add: fst_appendNext off case_prod_beta)
qed

lemma drop_items_from:
  "drop k (items_from seq ms) = items_from (seq + of_nat k) (drop k ms)"
proof (induction k arbitrary: seq ms)
  case (Suc k)
  then show ?case by (cases ms) (auto simp: algebra_simps)
qed simp

text \<open>
  A whole history: after publishing any sequence \<open>ms\<close> on a fresh ring of capacity \<open>cap\<close>,
  a client that last saw offset \<open>from\<close> is served exactly the publications it missed, in order
  and with their original payloads and consecutive offsets, if at most \<open>cap\<close> of them were missed;
  otherwise it is told to resynchronise. Nothing is served out of order, twice or with a gap.
\<close>

theorem publish_then_recover:
  assumes "0 < cap" and "length ms < 2 ^ 64"
  shows "replayN (snd (append_all (newHistory cap ttl) 0 ms)) from 0 =
    (if unat from \<le> length ms \<and> length ms \<le> unat from + cap
     then Some (items_from from (drop (unat from) ms)) else None)"
proof -
  let ?h = "snd (append_all (newHistory cap ttl) 0 ms)"
  have "hist_ok (newHistory cap ttl)" using assms(1) by (rule hist_ok_newHistory)
  from append_all_spec [OF this, of 0 ms] assms(2)
  have ok: "hist_ok ?h" and last: "unat (hLastOffset ?h) = length ms"
    and items: "hist_items ?h = lastn cap (items_from 0 ms)"
    by (simp_all add: case_prod_beta)
  have cnt: "hCount ?h = min cap (length ms)"
    using items length_hist_items [of ?h] by (simp add: lastn_def)
  have le: "from \<le> hLastOffset ?h \<longleftrightarrow> unat from \<le> length ms" by (simp add: word_le_nat_alt last)
  have served: "filter (\<lambda>x. from < hiOffset x) (hist_items ?h) = items_from from (drop (unat from) ms)"
    if "unat from \<le> length ms" "length ms \<le> unat from + cap"
  proof -
    have "filter (\<lambda>x. from < hiOffset x) (hist_items ?h)
        = drop (unat from + min cap (length ms) - length ms) (lastn cap (items_from 0 ms))"
      by (simp only: filter_newer [OF ok] last cnt) (simp only: items)
    also have "\<dots> = drop (unat from) (items_from 0 ms)"
      using that by (auto simp: lastn_def min_def)
    finally show ?thesis by (simp add: drop_items_from)
  qed
  show ?thesis
    using replayN_spec [OF ok, of "from" 0] le served by (auto simp: last cnt limit_def min_def)
qed

theorem publish_then_recover_witness:
  "replayN (snd (append_all (newHistory 2 0) 0 [(''a'', 1), (''b'', 2), (''c'', 3)])) 1 0
    = Some (items_from 1 [(''b'', 2), (''c'', 3)])"
  using publish_then_recover [of 2 "[(''a'', 1), (''b'', 2), (''c'', 3)]" 0 1] by simp

end
