(* ===== verification/Delivery.thy ===== *)
theory Delivery
  imports Prelude
begin

text \<open>
  The data a publication travels in (\<^verbatim>\<open>SubscriberID\<close>, \<^verbatim>\<open>Delivery\<close> and \<^verbatim>\<open>DeliveryFunc\<close> of
  \<^verbatim>\<open>internal/engine/engine.go\<close>) and the memoised wire encoding a fan-out shares
  (\<^verbatim>\<open>internal/engine/frame.go\<close>).

  A delivery callback runs arbitrary transport code: it is a state transformer on the transport's
  world \<open>'w\<close> that answers whether the subscriber took the delivery.
\<close>

type_synonym SubscriberID = u64

record EncodedFrame =
  frBytes :: "bytes option"

record Delivery =
  dChannel :: string
  dData :: bytes
  dOffset :: u64
  dEpoch :: u64
  dFrame :: "EncodedFrame option"

type_synonym 'w DeliveryFunc = "SubscriberID \<Rightarrow> Delivery \<Rightarrow> 'w \<Rightarrow> bool \<times> 'w"

definition Frame_Load :: "EncodedFrame \<Rightarrow> bytes \<times> bool" where
  "Frame_Load f = (case frBytes f of Some p \<Rightarrow> (p, True) | None \<Rightarrow> ([], False))"

definition Frame_Store :: "bytes \<Rightarrow> EncodedFrame \<Rightarrow> EncodedFrame" where
  "Frame_Store data f = f\<lparr>frBytes := Some data\<rparr>"

section \<open>Delivering to a list of subscribers\<close>

text \<open>
  The loop every fan-out runs over its slice: skip the excluded id, call the callback, count what
  it answered. It occurs four times in the engine (the sequential fan-out, a pool worker, the
  inline chunk and chunk 0 of \<^verbatim>\<open>parallelFanout\<close>).
\<close>

fun deliver_loop :: "'w DeliveryFunc \<Rightarrow> Delivery \<Rightarrow> SubscriberID \<Rightarrow> SubscriberID list \<Rightarrow> nat \<Rightarrow> nat \<Rightarrow> 'w
    \<Rightarrow> (nat \<times> nat) \<times> 'w" where
  "deliver_loop deliver d exclude [] del drp w = ((del, drp), w)"
| "deliver_loop deliver d exclude (i # ids) del drp w =
     (if i = exclude then deliver_loop deliver d exclude ids del drp w
      else (case deliver i d w of
              (True, w') \<Rightarrow> deliver_loop deliver d exclude ids (del + 1) drp w'
            | (False, w') \<Rightarrow> deliver_loop deliver d exclude ids del (drp + 1) w'))"

text \<open>
  A recording transport: the world is the log of the calls made to it, in order, and \<open>accept\<close>
  says which subscribers have room. It makes \<open>who received what\<close> a value to reason about.
\<close>

type_synonym dlog = "(SubscriberID \<times> Delivery) list"

definition recorder :: "(SubscriberID \<Rightarrow> bool) \<Rightarrow> dlog DeliveryFunc" where
  "recorder accept i d w = (accept i, w @ [(i, d)])"

definition receivers :: "SubscriberID \<Rightarrow> SubscriberID list \<Rightarrow> SubscriberID list" where
  "receivers exclude ids = filter (\<lambda>i. i \<noteq> exclude) ids"

lemma receivers_append [simp]: "receivers x (as @ bs) = receivers x as @ receivers x bs"
  by (simp add: receivers_def)

lemma receivers_Nil [simp]: "receivers x [] = []"
  by (simp add: receivers_def)

lemma set_receivers [simp]: "set (receivers x ids) = set ids - {x}"
  by (auto simp: receivers_def)

lemma distinct_receivers [simp, intro]: "distinct ids \<Longrightarrow> distinct (receivers x ids)"
  by (simp add: receivers_def)

lemma deliver_loop_recorder:
  "deliver_loop (recorder accept) d exclude ids del drp w =
     ((del + length (filter accept (receivers exclude ids)),
       drp + length (filter (Not \<circ> accept) (receivers exclude ids))),
      w @ map (\<lambda>i. (i, d)) (receivers exclude ids))"
  by (induction ids arbitrary: del drp w) (auto simp: recorder_def receivers_def)

lemma deliver_loop_append:
  "deliver_loop deliver d exclude (as @ bs) del drp w =
     (case deliver_loop deliver d exclude as del drp w of
        ((del', drp'), w') \<Rightarrow> deliver_loop deliver d exclude bs del' drp' w')"
  by (induction as arbitrary: del drp w) (auto split: prod.splits bool.splits)

lemma deliver_loop_counters:
  "deliver_loop deliver d exclude ids del drp w =
     (case deliver_loop deliver d exclude ids 0 0 w of ((a, b), w') \<Rightarrow> ((del + a, drp + b), w'))"
proof (induction ids arbitrary: del drp w)
  case (Cons i ids)
  obtain ok w' where call: "deliver i d w = (ok, w')" by (cases "deliver i d w")
  show ?case
    using Cons [of del drp w] Cons [of "del + 1" drp w'] Cons [of del "drp + 1" w']
      Cons [of 1 0 w'] Cons [of 0 1 w'] call
    by (cases ok) (auto split: prod.splits)
qed simp

lemma deliver_loop_total:
  "deliver_loop deliver d exclude ids 0 0 w = ((a, b), w') \<Longrightarrow> a + b = length (receivers exclude ids)"
proof (induction ids arbitrary: a b w w')
  case (Cons i ids)
  obtain ok w1 where call: "deliver i d w = (ok, w1)" by (cases "deliver i d w")
  obtain a' b' w2 where rest: "deliver_loop deliver d exclude ids 0 0 w1 = ((a', b'), w2)"
    by (metis prod.collapse)
  show ?case
    using Cons.prems Cons.IH [OF rest] Cons.IH [of w a b w'] call rest
      deliver_loop_counters [of deliver d exclude ids 1 0 w1]
      deliver_loop_counters [of deliver d exclude ids 0 1 w1]
    by (cases ok) (auto simp: receivers_def split: if_splits)
qed simp

end
