(* ===== verification/Channel.thy ===== *)
theory Channel
  imports Namespace History Delivery
begin

text \<open>
  Model of \<^verbatim>\<open>internal/engine/channel.go\<close>: one channel's state and the operations on its subscriber
  list, its priority ranks and its pool life cycle. The copy-on-write slices are values here, so
  a snapshot a reader took is a list that later operations cannot change. \<open>None\<close> is a Go nil
  pointer, slice or map. The reference count, the recycled and pooled flags and the generation
  are carried as the code carries them; their concurrent use is the subject of
  \<^verbatim>\<open>Channel_Pool\<close>.
\<close>

record Channel =
  chName :: string
  chEpoch :: u64
  chOffset :: u64
  chSubs :: "SubscriberID list option"
  chRefs :: int
  chRecycled :: bool
  chPooled :: bool
  chGen :: u64
  chHist :: "history option"
  chMaxSubs :: int
  chIdleReap :: int
  chLastActive :: int
  chFanout :: FanoutMode
  chRR :: u64
  chPrios :: "(SubscriberID, int) gomap option"
  chTop :: "SubscriberID list option"

text \<open>The Go zero value \<^verbatim>\<open>&Channel{}\<close> the pool hands out when it is empty.\<close>

definition zero_channel :: Channel where
  "zero_channel = \<lparr>chName = [], chEpoch = 0, chOffset = 0, chSubs = None, chRefs = 0,
     chRecycled = False, chPooled = False, chGen = 0, chHist = None, chMaxSubs = 0, chIdleReap = 0,
     chLastActive = 0, chFanout = Broadcast, chRR = 0, chPrios = None, chTop = None\<rparr>"

text \<open>
  \<^verbatim>\<open>newEpoch\<close> draws until the draw is not zero; \<open>draws\<close> is the random source and the result is
  \<open>None\<close> while only zeros were drawn.
\<close>

fun newEpoch :: "u64 list \<Rightarrow> u64 option" where
  "newEpoch [] = None"
| "newEpoch (e # draws) = (if e \<noteq> 0 then Some e else newEpoch draws)"

text \<open>\<open>c\<close> is the channel \<^verbatim>\<open>channelPool.Get\<close> returned, \<open>ep\<close> the epoch drawn.\<close>

definition NewChannel :: "string \<Rightarrow> u64 \<Rightarrow> Channel \<Rightarrow> Channel" where
  "NewChannel name ep c = c\<lparr>chGen := chGen c + 1, chName := name, chEpoch := ep, chOffset := 0,
     chRefs := 0, chRecycled := False, chPooled := False, chSubs := Some []\<rparr>"

text \<open>
  \<open>returnToPool\<close> answers whether this call won the \<^verbatim>\<open>pooled\<close> flag and so put the channel back.
\<close>

definition returnToPool :: "u64 \<Rightarrow> Channel \<Rightarrow> bool \<times> Channel" where
  "returnToPool expectedGen c =
     (if chGen c \<noteq> expectedGen then (False, c)
      else if chPooled c then (False, c)
      else (True, c\<lparr>chPooled := True, chName := [], chEpoch := 0, chHist := None, chMaxSubs := 0,
                    chIdleReap := 0, chFanout := Broadcast, chRR := 0, chPrios := None,
                    chTop := None, chSubs := None\<rparr>))"

definition recycleChannel :: "Channel \<Rightarrow> bool \<times> Channel" where
  "recycleChannel c =
     (let g = chGen c; c' = c\<lparr>chRecycled := True\<rparr>
      in if chRefs c' = 0 then returnToPool g c' else (False, c'))"

definition Acquire :: "Channel \<Rightarrow> Channel" where
  "Acquire c = c\<lparr>chRefs := chRefs c + 1\<rparr>"

definition Release :: "Channel \<Rightarrow> bool \<times> Channel" where
  "Release c =
     (let g = chGen c; c' = c\<lparr>chRefs := chRefs c - 1\<rparr>
      in if chRefs c' = 0 \<and> chRecycled c' then returnToPool g c' else (False, c'))"

definition Subscribers :: "Channel \<Rightarrow> SubscriberID list" where
  "Subscribers c = (case chSubs c of None \<Rightarrow> [] | Some ids \<Rightarrow> ids)"

definition SubscriberCount :: "Channel \<Rightarrow> int" where
  "SubscriberCount c = (case chSubs c of None \<Rightarrow> 0 | Some ids \<Rightarrow> int (length ids))"

definition Channel_Subscribe :: "SubscriberID \<Rightarrow> Channel \<Rightarrow> bool \<times> Channel" where
  "Channel_Subscribe sid c =
     (let current = (case chSubs c of None \<Rightarrow> [] | Some ids \<Rightarrow> ids)
      in if sid \<in> set current then (False, c)
         else (True, c\<lparr>chSubs := Some (current @ [sid])\<rparr>))"

definition Channel_Unsubscribe :: "SubscriberID \<Rightarrow> Channel \<Rightarrow> bool \<times> Channel" where
  "Channel_Unsubscribe sid c =
     (case chSubs c of
        None \<Rightarrow> (False, c)
      | Some current \<Rightarrow>
          if current = [] then (False, c)
          else (case index_of sid current of
                  None \<Rightarrow> (False, c)
                | Some idx \<Rightarrow> (True, c\<lparr>chSubs := Some (take idx current @ drop (idx + 1) current)\<rparr>)))"

text \<open>The maximum search of \<^verbatim>\<open>rebuildTopCohortLocked\<close>, with its \<^verbatim>\<open>found\<close> flag as an option.\<close>

fun best_loop :: "int option \<Rightarrow> (SubscriberID \<times> int) list \<Rightarrow> int option" where
  "best_loop best [] = best"
| "best_loop best ((_, p) # ps) =
     best_loop (case best of None \<Rightarrow> Some p | Some b \<Rightarrow> if p > b then Some p else Some b) ps"

definition top_cohort :: "(SubscriberID, int) gomap \<Rightarrow> SubscriberID list" where
  "top_cohort prios =
     (case best_loop None prios of
        None \<Rightarrow> []
      | Some best \<Rightarrow> sort (map fst (filter (\<lambda>(sid, p). p = best) prios)))"

definition rebuildTopCohort :: "Channel \<Rightarrow> Channel" where
  "rebuildTopCohort c =
     (let prios = (case chPrios c of None \<Rightarrow> [] | Some m \<Rightarrow> m)
      in c\<lparr>chTop := Some (if length prios = 0 then [] else top_cohort prios)\<rparr>)"

definition setPriority :: "SubscriberID \<Rightarrow> int \<Rightarrow> Channel \<Rightarrow> Channel" where
  "setPriority sid prio c =
     (let m = (case chPrios c of None \<Rightarrow> [] | Some m \<Rightarrow> m)
      in rebuildTopCohort (c\<lparr>chPrios := Some (gput sid prio m)\<rparr>))"

definition clearPriority :: "SubscriberID \<Rightarrow> Channel \<Rightarrow> Channel" where
  "clearPriority sid c =
     (case chPrios c of
        None \<Rightarrow> c
      | Some m \<Rightarrow> rebuildTopCohort (c\<lparr>chPrios := Some (gdel sid m)\<rparr>))"

section \<open>The subscriber list\<close>

lemma Channel_Subscribe_eq:
  "Channel_Subscribe i c = (if i \<in> set (Subscribers c) then (False, c)
     else (True, c\<lparr>chSubs := Some (Subscribers c @ [i])\<rparr>))"
  by (simp add: Channel_Subscribe_def Subscribers_def Let_def)

lemma Channel_Unsubscribe_eq:
  "Channel_Unsubscribe i c = (if i \<in> set (Subscribers c)
     then (True, c\<lparr>chSubs := Some (remove1 i (Subscribers c))\<rparr>) else (False, c))"
  using index_of_None [of i] index_of_Some [of i]
  by (fastforce simp: Channel_Unsubscribe_def Subscribers_def split: option.splits)

lemma SubscriberCount_eq: "SubscriberCount c = int (length (Subscribers c))"
  by (simp add: SubscriberCount_def Subscribers_def split: option.splits)

section \<open>The top cohort\<close>

lemma best_loop_spec:
  "best_loop b ps = (if b = None \<and> ps = [] then None
     else Some (Max (set_option b \<union> snd ` set ps)))"
proof (induction ps arbitrary: b)
  case (Cons q ps)
  have max: "Max (insert x (insert y A)) = Max (insert (if y > x then y else x) A)"
    if "finite A" for x y :: int and A
    using that by (cases "A = {}") (auto simp: max_def)
  show ?case
    using max [of "snd ` set ps"]
    by (cases q; cases b) (auto simp: Cons.IH)
next
  case Nil
  show ?case by (cases b) simp_all
qed

definition highest_ranked :: "(SubscriberID, int) gomap \<Rightarrow> SubscriberID \<Rightarrow> bool" where
  "highest_ranked m i \<longleftrightarrow> (\<exists>p. gget m i = Some p \<and> (\<forall>j q. gget m j = Some q \<longrightarrow> q \<le> p))"

lemma top_cohort_set:
  assumes "gomap_ok m"
  shows "set (top_cohort m) = {i. highest_ranked m i}"
proof (cases "m = []")
  case False
  then have best: "best_loop None m = Some (Max (snd ` set m))" by (simp add: best_loop_spec)
  have ge: "q \<le> Max (snd ` set m)" if "gget m j = Some q" for j q
    using gget_SomeD [OF that] by (force intro: Max_ge)
  have in_set: "\<exists>j. gget m j = Some (Max (snd ` set m))"
    using Max_in [of "snd ` set m"] False gget_in_set [OF assms] by fastforce
  have "set (top_cohort m) = {i. (i, Max (snd ` set m)) \<in> set m}"
    by (auto simp: top_cohort_def best image_iff)
  also have "\<dots> = {i. gget m i = Some (Max (snd ` set m))}" by (simp add: gget_in_set [OF assms])
  also have "\<dots> = {i. highest_ranked m i}"
    using ge in_set by (fastforce simp: highest_ranked_def intro: order_antisym)
  finally show ?thesis .
qed (simp add: top_cohort_def highest_ranked_def)

lemma top_cohort_sorted_distinct: "gomap_ok m \<Longrightarrow> sorted (top_cohort m) \<and> distinct (top_cohort m)"
  by (auto simp: top_cohort_def gomap_ok_def distinct_map_filter split: option.splits)

section \<open>The channel invariant\<close>

text \<open>
  A live channel: its subscriber list has no duplicates, its history (if any) is a sound ring
  numbered up to the channel's offset, and in priority mode every subscriber has a rank and the
  cached cohort is the one the ranks determine.
\<close>

definition prios_ok :: "Channel \<Rightarrow> bool" where
  "prios_ok c \<longleftrightarrow>
     (case chPrios c of
        None \<Rightarrow> chTop c = None \<and> (chFanout c = Priority \<longrightarrow> Subscribers c = [])
      | Some m \<Rightarrow> gomap_ok m \<and> chTop c = Some (top_cohort m)
          \<and> chFanout c = Priority \<and> fst ` set m = set (Subscribers c))"

definition hist_sync :: "Channel \<Rightarrow> bool" where
  "hist_sync c \<longleftrightarrow> (\<forall>h. chHist c = Some h \<longrightarrow> hist_ok h \<and> hLastOffset h = chOffset c)"

definition channel_ok :: "Channel \<Rightarrow> bool" where
  "channel_ok c \<longleftrightarrow> chSubs c \<noteq> None \<and> distinct (Subscribers c) \<and> prios_ok c \<and> hist_sync c
     \<and> \<not> chRecycled c \<and> \<not> chPooled c \<and> chRefs c = 0"

lemma rebuildTopCohort_eq: "rebuildTopCohort c = c\<lparr>chTop := Some (top_cohort (case chPrios c of None \<Rightarrow> [] | Some m \<Rightarrow> m))\<rparr>"
  by (auto simp: rebuildTopCohort_def top_cohort_def Let_def split: option.splits)

text \<open>One subscription, and one cancellation, as \<^verbatim>\<open>engine.go\<close> performs them on the channel.\<close>

definition subscribe_ranked :: "SubscriberID \<Rightarrow> int \<Rightarrow> Channel \<Rightarrow> Channel" where
  "subscribe_ranked i prio c =
     (let c' = snd (Channel_Subscribe i c)
      in if chFanout c' = Priority then setPriority i prio c' else c')"

definition unsubscribe_ranked :: "SubscriberID \<Rightarrow> Channel \<Rightarrow> Channel" where
  "unsubscribe_ranked i c =
     (let c' = snd (Channel_Unsubscribe i c)
      in if chFanout c' = Priority then clearPriority i c' else c')"

lemma Subscribers_subscribe_ranked [simp]:
  "i \<notin> set (Subscribers c) \<Longrightarrow> Subscribers (subscribe_ranked i prio c) = Subscribers c @ [i]"
  by (simp add: subscribe_ranked_def Channel_Subscribe_eq setPriority_def rebuildTopCohort_eq
      Subscribers_def [of "_\<lparr>chSubs := _\<rparr>"] Subscribers_def [of "_\<lparr>chTop := _\<rparr>"] Let_def)

lemma Subscribers_unsubscribe_ranked [simp]:
  "i \<in> set (Subscribers c) \<Longrightarrow> Subscribers (unsubscribe_ranked i c) = remove1 i (Subscribers c)"
  by (simp add: unsubscribe_ranked_def Channel_Unsubscribe_eq clearPriority_def rebuildTopCohort_eq
      Subscribers_def [of "_\<lparr>chSubs := _\<rparr>"] Subscribers_def [of "_\<lparr>chTop := _\<rparr>"] Let_def
      split: option.splits)

lemma channel_ok_subscribe [inv_intros]:
  assumes "channel_ok c" "i \<notin> set (Subscribers c)"
  shows "channel_ok (subscribe_ranked i prio c)"
  using assms
  by (auto simp: channel_ok_def prios_ok_def hist_sync_def subscribe_ranked_def Channel_Subscribe_eq
      setPriority_def rebuildTopCohort_eq Subscribers_def Let_def split: option.splits)

lemma channel_ok_unsubscribe [inv_intros]:
  assumes "channel_ok c" "i \<in> set (Subscribers c)"
  shows "channel_ok (unsubscribe_ranked i c)"
  using assms
  by (auto simp: channel_ok_def prios_ok_def hist_sync_def unsubscribe_ranked_def set_remove1_eq Channel_Unsubscribe_eq
      clearPriority_def rebuildTopCohort_eq Subscribers_def Let_def distinct_remove1
      split: option.splits)

section \<open>Consumer ranks\<close>

text \<open>
  The subscription changes a channel sees, and their effect on the ranks as a specification: a
  map from the current subscribers to the rank each gave when it subscribed.
\<close>

datatype rank_op = RSub SubscriberID int | RUnsub SubscriberID

fun rank_step :: "rank_op \<Rightarrow> Channel \<Rightarrow> Channel" where
  "rank_step (RSub i p) c = (if i \<in> set (Subscribers c) then c else subscribe_ranked i p c)"
| "rank_step (RUnsub i) c = (if i \<in> set (Subscribers c) then unsubscribe_ranked i c else c)"

fun rank_spec :: "rank_op \<Rightarrow> (SubscriberID \<rightharpoonup> int) \<Rightarrow> (SubscriberID \<rightharpoonup> int)" where
  "rank_spec (RSub i p) r = (if r i = None then r(i \<mapsto> p) else r)"
| "rank_spec (RUnsub i) r = r(i := None)"

definition ranks :: "Channel \<Rightarrow> SubscriberID \<rightharpoonup> int" where
  "ranks c = (case chPrios c of None \<Rightarrow> Map.empty | Some m \<Rightarrow> gget m)"

lemma ranks_dom:
  assumes "channel_ok c" "chFanout c = Priority"
  shows "dom (ranks c) = set (Subscribers c)"
proof (cases "chPrios c")
  case (Some m)
  then show ?thesis
    using assms set_gkeys [of _ m] by (auto simp: channel_ok_def prios_ok_def ranks_def dom_def)
qed (use assms in \<open>simp add: channel_ok_def prios_ok_def ranks_def\<close>)

lemma chFanout_ranked [simp]:
  "chFanout (subscribe_ranked i p c) = chFanout c" "chFanout (unsubscribe_ranked i c) = chFanout c"
  by (auto simp: subscribe_ranked_def unsubscribe_ranked_def Channel_Subscribe_eq Channel_Unsubscribe_eq
      setPriority_def clearPriority_def rebuildTopCohort_eq Let_def split: option.splits)

lemma ranks_subscribe:
  assumes "channel_ok c" "chFanout c = Priority" "i \<notin> set (Subscribers c)"
  shows "ranks (subscribe_ranked i p c) = (ranks c)(i \<mapsto> p)"
  using assms
  by (auto simp: ranks_def subscribe_ranked_def Channel_Subscribe_eq setPriority_def rebuildTopCohort_eq
      Let_def split: option.splits)

lemma ranks_unsubscribe:
  assumes "channel_ok c" "chFanout c = Priority" "i \<in> set (Subscribers c)"
  shows "ranks (unsubscribe_ranked i c) = (ranks c)(i := None)"
  using assms
  by (auto simp: ranks_def unsubscribe_ranked_def Channel_Unsubscribe_eq clearPriority_def
      rebuildTopCohort_eq Let_def split: option.splits)

lemma rank_step_ok:
  assumes "channel_ok c" "chFanout c = Priority"
  shows "channel_ok (rank_step op c)" "chFanout (rank_step op c) = Priority"
    "ranks (rank_step op c) = rank_spec op (ranks c)"
  using assms ranks_dom [OF assms]
  by (cases op; auto simp: ranks_subscribe ranks_unsubscribe channel_ok_subscribe channel_ok_unsubscribe)+

lemma rank_steps_ok:
  assumes "channel_ok c" "chFanout c = Priority"
  shows "channel_ok (fold rank_step ops c) \<and> chFanout (fold rank_step ops c) = Priority
    \<and> ranks (fold rank_step ops c) = fold rank_spec ops (ranks c)"
  using assms by (induction ops arbitrary: c) (auto simp: rank_step_ok)

lemma chTop_ranks:
  assumes "channel_ok c" "chTop c = Some ids"
  shows "set ids = {i. \<exists>p. ranks c i = Some p \<and> (\<forall>j q. ranks c j = Some q \<longrightarrow> q \<le> p)}"
    "sorted ids" "distinct ids" "set ids \<subseteq> set (Subscribers c)"
proof -
  from assms obtain m where m: "chPrios c = Some m" "gomap_ok m" "ids = top_cohort m"
    "fst ` set m = set (Subscribers c)"
    by (auto simp: channel_ok_def prios_ok_def split: option.splits)
  then show "set ids = {i. \<exists>p. ranks c i = Some p \<and> (\<forall>j q. ranks c j = Some q \<longrightarrow> q \<le> p)}"
    "sorted ids" "distinct ids"
    using top_cohort_set [of m] top_cohort_sorted_distinct [of m]
    by (simp_all add: ranks_def highest_ranked_def)
  show "set ids \<subseteq> set (Subscribers c)"
    using m top_cohort_set [of m] set_gkeys [of _ m] by (auto simp: highest_ranked_def)
qed

lemma map_has_max:
  fixes r :: "'a \<rightharpoonup> 'b::linorder"
  assumes "finite (dom r)" "dom r \<noteq> {}"
  shows "\<exists>i p. r i = Some p \<and> (\<forall>j q. r j = Some q \<longrightarrow> q \<le> p)"
proof -
  have fin: "finite (ran r)" using assms(1) by (rule finite_ran)
  from assms(2) obtain k v where "r k = Some v" by blast
  then have "ran r \<noteq> {}" by (auto intro: ranI)
  then have "Max (ran r) \<in> ran r" using fin by simp
  then obtain i where "r i = Some (Max (ran r))" by (auto simp: ran_def)
  moreover have "q \<le> Max (ran r)" if "r j = Some q" for j q
    using that by (intro Max_ge fin) (auto simp: ran_def)
  ultimately show ?thesis by blast
qed


definition demo_channel :: Channel where
  "demo_channel = (NewChannel ''jobs'' 7 zero_channel)\<lparr>chFanout := Priority\<rparr>"


end
