(* ===== verification/Shards.thy ===== *)
theory Shards
  imports Channel
begin

text \<open>
  Model of \<^verbatim>\<open>internal/engine/shard.go\<close> and of the shard count options of
  \<^verbatim>\<open>internal/engine/options.go\<close>: the channel map, split over a power of two of shards selected by a
  masked hash, with the rebuild of a shard whose map has shrunk. The seeded hash is a parameter.
\<close>

record Shard =
  shChannels :: "(string, Channel) gomap"
  shPeak :: nat
  shPublish :: int
  shDelivered :: int
  shDropped :: int
  shBytes :: int

definition empty_shard :: Shard where
  "empty_shard = \<lparr>shChannels = [], shPeak = 0, shPublish = 0, shDelivered = 0, shDropped = 0, shBytes = 0\<rparr>"

definition defaultNumShards :: int where "defaultNumShards = 32"

text \<open>
  \<^verbatim>\<open>nextPowerOf2\<close> on Go's 64-bit \<^verbatim>\<open>int\<close>: \<open>smear\<close> is the cascade of shifts, and the final increment
  wraps into the sign bit when the power is \<open>2 ^ 63\<close>.
\<close>

definition smear :: "int \<Rightarrow> int" where
  "smear n0 =
     (let n1 = n0 OR drop_bit 1 n0; n2 = n1 OR drop_bit 2 n1; n3 = n2 OR drop_bit 4 n2;
          n4 = n3 OR drop_bit 8 n3; n5 = n4 OR drop_bit 16 n4
      in n5 OR drop_bit 32 n5)"

definition wrap64 :: "int \<Rightarrow> int" where
  "wrap64 n = (n + 2 ^ 63) mod 2 ^ 64 - 2 ^ 63"

definition nextPowerOf2 :: "int \<Rightarrow> int" where
  "nextPowerOf2 n = (if n \<le> 1 then 1 else wrap64 (smear (n - 1) + 1))"

definition getShard :: "(string \<Rightarrow> u64) \<Rightarrow> 'a list \<Rightarrow> string \<Rightarrow> nat" where
  "getShard hash shards channel = unat (hash channel AND (of_nat (length shards) - 1))"

definition maybeRebuild :: "Shard \<Rightarrow> Shard" where
  "maybeRebuild s =
     (if 64 < shPeak s \<and> length (shChannels s) < shPeak s div 4
      then s\<lparr>shChannels := fold (\<lambda>(k, v) m. gput k v m) (shChannels s) [],
             shPeak := length (shChannels s)\<rparr>
      else s)"

section \<open>The smallest power of two\<close>

lemma smear_bit:
  assumes "0 \<le> n" "n < 2 ^ 64"
  shows "bit (smear n) i \<longleftrightarrow> (\<exists>j \<ge> i. bit n j)"
proof -
  define filled where "filled w m \<longleftrightarrow> (\<forall>i. bit m i \<longleftrightarrow> (\<exists>j \<in> {i ..< i + w}. bit n j))" for w and m :: int
  have double: "filled (2 * w) (m OR drop_bit w m)" if "filled w m" for w m
  proof -
    have "{i ..< i + 2 * w} = {i ..< i + w} \<union> {i + w ..< i + w + w}" for i by auto
    then show ?thesis
      using that by (simp add: filled_def bit_or_iff bit_drop_bit_eq bex_Un add.commute [of w])
  qed
  have "filled 1 n" by (auto simp: filled_def)
  from double [OF this] have "filled 2 (n OR drop_bit 1 n)" by simp
  from double [OF this] have f4: "filled 4 (let n1 = n OR drop_bit 1 n in n1 OR drop_bit 2 n1)" by (simp add: Let_def)
  from double [OF double [OF double [OF double [OF f4]]]] have "filled 64 (smear n)"
    by (simp add: smear_def Let_def)
  moreover have "j < 64" if "bit n j" for j
  proof (rule ccontr)
    assume "\<not> j < 64"
    have "take_bit 64 n = n" using assms by (simp add: take_bit_int_eq_self)
    with that have "bit (take_bit 64 n) j" by simp
    with \<open>\<not> j < 64\<close> show False by (simp add: bit_take_bit_iff)
  qed
  ultimately show ?thesis unfolding filled_def by (metis atLeastLessThan_iff trans_less_add2)
qed

lemma smear_mask:
  assumes "0 < n" "n < 2 ^ 64"
  shows "\<exists>k < 64. 2 ^ k \<le> n \<and> n < 2 ^ Suc k \<and> smear n = 2 ^ Suc k - 1"
proof -
  obtain k where k: "2 ^ k \<le> n" "n < 2 ^ Suc k"
  proof -
    from assms(1) obtain m where m: "n = int m" "1 \<le> m" by (metis Suc_leI One_nat_def of_nat_0_less_iff zero_less_imp_eq_int)
    obtain k where "2 ^ k \<le> m" "m < 2 ^ (k + 1)" using ex_power_ivl1 [of 2 m] m(2) by auto
    then have "int (2 ^ k) \<le> int m" "int m < int (2 ^ Suc k)"
      unfolding of_nat_le_iff of_nat_less_iff by simp_all
    then show ?thesis using that [of k] unfolding m(1) of_nat_power of_nat_numeral by blast
  qed
  have "k < 64" using k(1) assms(2) by (metis leD linorder_not_le order_le_less_trans power_increasing one_le_numeral)
  have top: "bit n k"
  proof -
    have "n div 2 ^ k = 1" using k by (simp add: div_pos_geq div_pos_pos_trivial)
    then show ?thesis by (simp add: bit_iff_odd)
  qed
  have none: "\<not> bit n j" if "Suc k \<le> j" for j
  proof -
    have "n < 2 ^ j" using k(2) that by (metis order_less_le_trans power_increasing one_le_numeral)
    then show ?thesis using assms(1) by (simp add: bit_iff_odd)
  qed
  have "smear n = mask (Suc k)"
  proof (rule bit_eqI)
    fix i
    have "(\<exists>j \<ge> i. bit n j) \<longleftrightarrow> i < Suc k" using top none by (metis less_Suc_eq_le not_less order_trans)
    then show "bit (smear n) i \<longleftrightarrow> bit (mask (Suc k) :: int) i"
      using assms smear_bit [of n i] by (simp add: bit_mask_iff)
  qed
  with k \<open>k < 64\<close> show ?thesis by (auto simp: mask_eq_exp_minus_1)
qed

lemma nextPowerOf2_spec:
  assumes "n \<le> 2 ^ 62"
  shows "\<exists>k. k \<le> 62 \<and> nextPowerOf2 n = 2 ^ k \<and> n \<le> 2 ^ k \<and> (1 < n \<longrightarrow> 2 ^ k < 2 * n)"
proof (cases "n \<le> 1")
  case True
  then show ?thesis by (intro exI [of _ 0]) (simp add: nextPowerOf2_def)
next
  case False
  then obtain k where k: "2 ^ k \<le> n - 1" "n - 1 < 2 ^ Suc k" "smear (n - 1) = 2 ^ Suc k - 1"
    using smear_mask [of "n - 1"] assms by auto
  have "(2::int) ^ k < 2 ^ 62" using k(1) assms by linarith
  then have "k < 62" by (rule power_less_imp_less_exp [rotated]) simp
  then have "(2::int) ^ Suc k \<le> 2 ^ 62" by (intro power_increasing) auto
  then have "nextPowerOf2 n = 2 ^ Suc k"
    using False k(3) by (simp add: nextPowerOf2_def wrap64_def)
  with k \<open>k < 62\<close> show ?thesis by (intro exI [of _ "Suc k"]) auto
qed

section \<open>The sharded channel table\<close>

text \<open>
  The shard array as one table from names to channels. \<open>table_insert\<close> is the insertion of
  \<^verbatim>\<open>createChannelLocked\<close> with its high-water mark, \<open>table_update\<close> a change to a channel already
  reachable through its pointer, \<open>table_delete\<close> the deletion with \<^verbatim>\<open>maybeRebuild\<close>.
\<close>

type_synonym hashfn = "string \<Rightarrow> u64"

definition find_channel :: "hashfn \<Rightarrow> string \<Rightarrow> Shard list \<Rightarrow> Channel option" where
  "find_channel h name shards = gget (shChannels (shards ! getShard h shards name)) name"

definition table_insert :: "hashfn \<Rightarrow> string \<Rightarrow> Channel \<Rightarrow> Shard list \<Rightarrow> Shard list" where
  "table_insert h name c shards =
     (let k = getShard h shards name; s = shards ! k; m = gput name c (shChannels s)
      in shards[k := s\<lparr>shChannels := m, shPeak := (if shPeak s < length m then length m else shPeak s)\<rparr>])"

definition table_update :: "hashfn \<Rightarrow> string \<Rightarrow> Channel \<Rightarrow> Shard list \<Rightarrow> Shard list" where
  "table_update h name c shards =
     (let k = getShard h shards name; s = shards ! k
      in shards[k := s\<lparr>shChannels := gput name c (shChannels s)\<rparr>])"

definition table_delete :: "hashfn \<Rightarrow> string \<Rightarrow> Shard list \<Rightarrow> Shard list" where
  "table_delete h name shards =
     (let k = getShard h shards name; s = shards ! k
      in shards[k := maybeRebuild (s\<lparr>shChannels := gdel name (shChannels s)\<rparr>)])"

text \<open>The sum of a quantity over all channels of the table.\<close>

definition shard_total :: "(Channel \<Rightarrow> int) \<Rightarrow> Shard \<Rightarrow> int" where
  "shard_total f s = (\<Sum>(k, v) \<leftarrow> shChannels s. f v)"

definition table_total :: "(Channel \<Rightarrow> int) \<Rightarrow> Shard list \<Rightarrow> int" where
  "table_total f shards = sum_list (map (shard_total f) shards)"

definition table_ok :: "hashfn \<Rightarrow> Shard list \<Rightarrow> bool" where
  "table_ok h shards \<longleftrightarrow> is_pow2 (length shards) \<and> length shards < 2 ^ 64
     \<and> (\<forall>k < length shards. gomap_ok (shChannels (shards ! k))
          \<and> (\<forall>name c. gget (shChannels (shards ! k)) name = Some c \<longrightarrow> getShard h shards name = k))"

lemma getShard_less:
  assumes "is_pow2 (length shards)" "length shards < 2 ^ 64"
  shows "getShard h shards name < length shards"
proof -
  have "getShard h shards name = unat (h name) mod length shards"
    unfolding getShard_def by (rule and_pow2_minus_1) (use assms in simp_all)
  then show ?thesis using is_pow2_pos [OF assms(1)] by simp
qed

lemma getShard_length: "length shards = length shards' \<Longrightarrow> getShard h shards name = getShard h shards' name"
  by (simp add: getShard_def)

lemma fold_gput_distinct:
  "distinct (map fst xs @ map fst ys) \<Longrightarrow> fold (\<lambda>(k, v) m. gput k v m) xs ys = ys @ xs"
proof (induction xs arbitrary: ys)
  case (Cons a xs)
  obtain k v where a: "a = (k, v)" by (cases a)
  have "gput k v ys = ys @ [(k, v)]"
    using Cons.prems a by (simp add: gput_def) (induction ys; auto)
  with Cons a show ?case by simp
qed simp

text \<open>A rebuild copies the map and loses nothing.\<close>

lemma maybeRebuild_channels: "gomap_ok (shChannels s) \<Longrightarrow> shChannels (maybeRebuild s) = shChannels s"
  using fold_gput_distinct [of "shChannels s" "[]"] by (simp add: maybeRebuild_def gomap_ok_def)

lemma table_replace:
  assumes "table_ok h shards" "k = getShard h shards name" "gomap_ok (shChannels s)"
    and "\<And>n. n \<noteq> name \<Longrightarrow> gget (shChannels s) n = gget (shChannels (shards ! k)) n"
  shows "table_ok h (shards[k := s])"
    and "find_channel h n (shards[k := s]) = (if n = name then gget (shChannels s) name else find_channel h n shards)"
    and "table_total f (shards[k := s]) = table_total f shards - shard_total f (shards ! k) + shard_total f s"
proof -
  have pow: "is_pow2 (length shards)" "length shards < 2 ^ 64" using assms(1) by (simp_all add: table_ok_def)
  have k: "k < length shards" unfolding assms(2) by (rule getShard_less [OF pow])
  have idx: "getShard h (shards[k := s]) n = getShard h shards n" for n by (rule getShard_length) simp
  show "table_ok h (shards[k := s])"
    unfolding table_ok_def
  proof (intro conjI allI impI)
    fix j assume j: "j < length (shards[k := s])"
    have old: "gomap_ok (shChannels (shards ! j))"
      "\<And>n c. gget (shChannels (shards ! j)) n = Some c \<Longrightarrow> getShard h shards n = j"
      using assms(1) j by (simp_all add: table_ok_def)
    show "gomap_ok (shChannels (shards[k := s] ! j))"
      using old(1) assms(3) k by (cases "j = k") simp_all
    fix n c assume get: "gget (shChannels (shards[k := s] ! j)) n = Some c"
    then have "getShard h shards n = j"
      using old(2) assms(2,4) k by (cases "j = k"; cases "n = name") auto
    then show "getShard h (shards[k := s]) n = j" by (simp add: idx)
  qed (use pow in simp_all)
  have new: "find_channel h n (shards[k := s]) = gget (shChannels (shards[k := s] ! getShard h shards n)) n"
    by (simp add: find_channel_def idx)
  show "find_channel h n (shards[k := s]) = (if n = name then gget (shChannels s) name else find_channel h n shards)"
  proof (cases "getShard h shards n = k")
    case True
    with new k assms(4) [of n] show ?thesis by (simp add: find_channel_def)
  next
    case False
    then have "n \<noteq> name" using assms(2) by blast
    with False new show ?thesis by (simp add: find_channel_def)
  qed
  show "table_total f (shards[k := s]) = table_total f shards - shard_total f (shards ! k) + shard_total f s"
    using k by (simp add: table_total_def sum_list_list_update)
qed

lemma table_shard_ok:
  "table_ok h shards \<Longrightarrow> gomap_ok (shChannels (shards ! getShard h shards name))"
  using getShard_less by (auto simp: table_ok_def)

lemma table_put:
  assumes "table_ok h shards" "t \<in> {table_insert h name c shards, table_update h name c shards}"
  shows "table_ok h t" "find_channel h n t = (if n = name then Some c else find_channel h n shards)"
    "table_total f t = table_total f shards + f c - (case find_channel h name shards of None \<Rightarrow> 0 | Some c' \<Rightarrow> f c')"
    "length t = length shards"
proof -
  define k where "k = getShard h shards name"
  obtain s where t: "t = shards[k := s]" and s: "shChannels s = gput name c (shChannels (shards ! k))"
    using assms(2) that by (auto simp: table_insert_def table_update_def Let_def k_def)
  have ok: "gomap_ok (shChannels (shards ! k))" unfolding k_def by (rule table_shard_ok [OF assms(1)])
  have "shard_total f s = shard_total f (shards ! k) + f c
      - (case find_channel h name shards of None \<Rightarrow> 0 | Some c' \<Rightarrow> f c')"
    by (simp add: shard_total_def s sum_list_gput [OF ok] find_channel_def k_def [symmetric])
  then show "table_ok h t" "find_channel h n t = (if n = name then Some c else find_channel h n shards)"
    "table_total f t = table_total f shards + f c - (case find_channel h name shards of None \<Rightarrow> 0 | Some c' \<Rightarrow> f c')"
    "length t = length shards"
    using table_replace [OF assms(1) k_def, of s] ok by (simp_all add: t s)
qed

lemma table_delete_spec:
  assumes "table_ok h shards"
  shows "table_ok h (table_delete h name shards)"
    "find_channel h n (table_delete h name shards) = (if n = name then None else find_channel h n shards)"
    "table_total f (table_delete h name shards) =
       table_total f shards - (case find_channel h name shards of None \<Rightarrow> 0 | Some c' \<Rightarrow> f c')"
    "length (table_delete h name shards) = length shards"
proof -
  define k where "k = getShard h shards name"
  have ok: "gomap_ok (shChannels (shards ! k))" unfolding k_def by (rule table_shard_ok [OF assms])
  define s where "s = maybeRebuild ((shards ! k)\<lparr>shChannels := gdel name (shChannels (shards ! k))\<rparr>)"
  have t: "table_delete h name shards = shards[k := s]" by (simp add: table_delete_def Let_def k_def s_def)
  have s: "shChannels s = gdel name (shChannels (shards ! k))"
    unfolding s_def using ok by (subst maybeRebuild_channels) simp_all
  have "shard_total f s = shard_total f (shards ! k) - (case find_channel h name shards of None \<Rightarrow> 0 | Some c' \<Rightarrow> f c')"
    by (simp add: shard_total_def s sum_list_gdel [OF ok] find_channel_def k_def [symmetric])
  then show "table_ok h (table_delete h name shards)"
    "find_channel h n (table_delete h name shards) = (if n = name then None else find_channel h n shards)"
    "table_total f (table_delete h name shards) =
       table_total f shards - (case find_channel h name shards of None \<Rightarrow> 0 | Some c' \<Rightarrow> f c')"
    "length (table_delete h name shards) = length shards"
    using table_replace [OF assms k_def, of s] ok by (simp_all add: t s)
qed

end
