(* ===== verification/Sub_Index.thy ===== *)
theory Sub_Index
  imports Delivery
begin

text \<open>
  Model of \<^verbatim>\<open>internal/engine/subscription.go\<close>: the reverse index from a subscriber to the channels
  it is on. A subscriber's channels sit in a hybrid container, a flat slice for few channels and a
  map for many, with promotion above \<open>flatThreshold\<close> and demotion at half of it; the index is
  sharded by subscriber id and each shard rebuilds its map after it shrank.
\<close>

definition numSubShards :: nat where "numSubShards = 32"

definition flatThreshold :: nat where "flatThreshold = 8"

record channelSet =
  csFlat :: "string list"
  csMap :: "(string, unit) gomap option"

definition empty_channelSet :: channelSet where
  "empty_channelSet = \<lparr>csFlat = [], csMap = None\<rparr>"

definition channelSet_add :: "string \<Rightarrow> channelSet \<Rightarrow> channelSet" where
  "channelSet_add channel cs =
     (case csMap cs of
        Some m \<Rightarrow> cs\<lparr>csMap := Some (gput channel () m)\<rparr>
      | None \<Rightarrow>
          if channel \<in> set (csFlat cs) then cs
          else if length (csFlat cs) < flatThreshold then cs\<lparr>csFlat := csFlat cs @ [channel]\<rparr>
          else \<lparr>csFlat = [],
                csMap = Some (gput channel () (fold (\<lambda>ch m. gput ch () m) (csFlat cs) []))\<rparr>)"

definition channelSet_remove :: "string \<Rightarrow> channelSet \<Rightarrow> channelSet" where
  "channelSet_remove channel cs =
     (case csMap cs of
        Some m \<Rightarrow>
          (let m' = gdel channel m
           in if length m' \<le> flatThreshold div 2 then \<lparr>csFlat = gkeys m', csMap = None\<rparr>
              else cs\<lparr>csMap := Some m'\<rparr>)
      | None \<Rightarrow>
          (case index_of channel (csFlat cs) of
             None \<Rightarrow> cs
           | Some i \<Rightarrow> cs\<lparr>csFlat := butlast ((csFlat cs)[i := last (csFlat cs)])\<rparr>))"

definition channelSet_len :: "channelSet \<Rightarrow> nat" where
  "channelSet_len cs = (case csMap cs of Some m \<Rightarrow> length m | None \<Rightarrow> length (csFlat cs))"

definition toSlice :: "channelSet \<Rightarrow> string list" where
  "toSlice cs = (case csMap cs of Some m \<Rightarrow> gkeys m | None \<Rightarrow> csFlat cs)"

record subShard =
  ixMap :: "(SubscriberID, channelSet) gomap"
  ixPeak :: nat

definition subShard_maybeRebuild :: "subShard \<Rightarrow> subShard" where
  "subShard_maybeRebuild sh =
     (if 64 < ixPeak sh \<and> length (ixMap sh) < ixPeak sh div 4
      then \<lparr>ixMap = fold (\<lambda>(k, v) m. gput k v m) (ixMap sh) [], ixPeak = length (ixMap sh)\<rparr>
      else sh)"

type_synonym subscriptions = "subShard list"

definition newSubscriptions :: subscriptions where
  "newSubscriptions = replicate numSubShards \<lparr>ixMap = [], ixPeak = 0\<rparr>"

definition subs_getShard :: "SubscriberID \<Rightarrow> nat" where
  "subs_getShard i = unat i mod numSubShards"

text \<open>Each mutator locks one shard and works on it alone.\<close>

definition shard_Add :: "SubscriberID \<Rightarrow> string \<Rightarrow> subShard \<Rightarrow> subShard" where
  "shard_Add i channel sh =
     (case gget (ixMap sh) i of
        Some cs \<Rightarrow> sh\<lparr>ixMap := gput i (channelSet_add channel cs) (ixMap sh)\<rparr>
      | None \<Rightarrow>
          (let m = gput i empty_channelSet (ixMap sh)
           in \<lparr>ixMap = gput i (channelSet_add channel empty_channelSet) m,
               ixPeak = (if ixPeak sh < length m then length m else ixPeak sh)\<rparr>))"

definition shard_Remove :: "SubscriberID \<Rightarrow> string \<Rightarrow> subShard \<Rightarrow> subShard" where
  "shard_Remove i channel sh =
     (case gget (ixMap sh) i of
        None \<Rightarrow> sh
      | Some cs \<Rightarrow>
          (let cs' = channelSet_remove channel cs
           in if channelSet_len cs' = 0 then subShard_maybeRebuild (sh\<lparr>ixMap := gdel i (ixMap sh)\<rparr>)
              else sh\<lparr>ixMap := gput i cs' (ixMap sh)\<rparr>))"

definition shard_RemoveAll :: "SubscriberID \<Rightarrow> subShard \<Rightarrow> subShard" where
  "shard_RemoveAll i sh = subShard_maybeRebuild (sh\<lparr>ixMap := gdel i (ixMap sh)\<rparr>)"

definition subscriptions_Add :: "SubscriberID \<Rightarrow> string \<Rightarrow> subscriptions \<Rightarrow> subscriptions" where
  "subscriptions_Add i channel s = s[subs_getShard i := shard_Add i channel (s ! subs_getShard i)]"

definition subscriptions_Remove :: "SubscriberID \<Rightarrow> string \<Rightarrow> subscriptions \<Rightarrow> subscriptions" where
  "subscriptions_Remove i channel s = s[subs_getShard i := shard_Remove i channel (s ! subs_getShard i)]"

definition subscriptions_RemoveAll :: "SubscriberID \<Rightarrow> subscriptions \<Rightarrow> subscriptions" where
  "subscriptions_RemoveAll i s = s[subs_getShard i := shard_RemoveAll i (s ! subs_getShard i)]"

definition GetChannels :: "SubscriberID \<Rightarrow> subscriptions \<Rightarrow> string list" where
  "GetChannels i s =
     (case gget (ixMap (s ! subs_getShard i)) i of None \<Rightarrow> [] | Some cs \<Rightarrow> toSlice cs)"

section \<open>The hybrid container\<close>

text \<open>
  The container never holds a channel twice; the flat form holds at most \<open>flatThreshold\<close> channels,
  the map form more than half of that, and only one form is in use.
\<close>

definition channelSet_ok :: "channelSet \<Rightarrow> bool" where
  "channelSet_ok cs \<longleftrightarrow>
     (case csMap cs of
        None \<Rightarrow> distinct (csFlat cs) \<and> length (csFlat cs) \<le> flatThreshold
      | Some m \<Rightarrow> csFlat cs = [] \<and> gomap_ok m \<and> flatThreshold div 2 < length m)"

lemma fold_gput_units:
  "fst ` set (fold (\<lambda>ch m. gput ch () m) xs m) = fst ` set m \<union> set xs
   \<and> (gomap_ok m \<longrightarrow> gomap_ok (fold (\<lambda>ch m. gput ch () m) xs m))"
  by (induction xs arbitrary: m) auto

lemma gomap_ok_length: "gomap_ok m \<Longrightarrow> length m = card (fst ` set m)"
  by (metis distinct_card gomap_ok_def length_map set_map)

lemma set_toSlice_empty [simp]: "toSlice empty_channelSet = []"
  by (simp add: toSlice_def empty_channelSet_def)

lemma channelSet_ok_empty [simp]: "channelSet_ok empty_channelSet"
  by (simp add: channelSet_ok_def empty_channelSet_def)

lemma channelSet_len_toSlice: "channelSet_len cs = length (toSlice cs)"
  by (simp add: channelSet_len_def toSlice_def split: option.splits)

lemma distinct_toSlice: "channelSet_ok cs \<Longrightarrow> distinct (toSlice cs)"
  by (auto simp: channelSet_ok_def toSlice_def gomap_ok_def split: option.splits)

lemma set_channelSet_add: "set (toSlice (channelSet_add ch cs)) = insert ch (set (toSlice cs))"
  using fold_gput_units [of "csFlat cs" "[]"]
  by (auto simp: channelSet_add_def toSlice_def split: option.splits)

lemma channelSet_ok_add [inv_intros]:
  assumes "channelSet_ok cs"
  shows "channelSet_ok (channelSet_add ch cs)"
proof (cases "csMap cs")
  case (Some m)
  then show ?thesis using assms by (auto simp: channelSet_ok_def channelSet_add_def length_gput)
next
  case None
  let ?m = "gput ch () (fold (\<lambda>ch m. gput ch () m) (csFlat cs) [])"
  have ok: "gomap_ok ?m" using fold_gput_units [of "csFlat cs" "[]"] by auto
  have "fst ` set ?m = insert ch (set (csFlat cs))" using fold_gput_units [of "csFlat cs" "[]"] by simp
  then have "length ?m = Suc (length (csFlat cs))" if "ch \<notin> set (csFlat cs)"
    using that assms None gomap_ok_length [OF ok] by (simp add: channelSet_ok_def distinct_card)
  with ok show ?thesis
    using assms None by (auto simp: channelSet_ok_def channelSet_add_def flatThreshold_def)
qed

lemma swap_remove:
  assumes "i < length xs" "distinct xs"
  shows "set (butlast (xs[i := last xs])) = set xs - {xs ! i}"
    and "distinct (butlast (xs[i := last xs]))"
    and "length (butlast (xs[i := last xs])) = length xs - 1"
proof -
  obtain ys z where xs: "xs = ys @ [z]" using assms(1) by (cases xs rule: rev_cases) auto
  show "set (butlast (xs[i := last xs])) = set xs - {xs ! i}"
    "distinct (butlast (xs[i := last xs]))"
    using assms xs set_update_distinct [of ys i z] distinct_list_update [of ys z i]
    by (auto simp: list_update_append nth_append split: if_splits)
qed simp

lemma set_channelSet_remove:
  assumes "channelSet_ok cs"
  shows "set (toSlice (channelSet_remove ch cs)) = set (toSlice cs) - {ch}"
  using assms index_of_Some [of ch "csFlat cs"] index_of_None [of ch "csFlat cs"]
  by (auto simp: channelSet_remove_def toSlice_def channelSet_ok_def Let_def swap_remove(1)
      split: option.splits)

lemma channelSet_ok_remove [inv_intros]:
  assumes "channelSet_ok cs"
  shows "channelSet_ok (channelSet_remove ch cs)"
  using assms index_of_Some [of ch "csFlat cs"] gomap_ok_gdel [of _ ch]
  by (auto simp: channelSet_remove_def channelSet_ok_def Let_def swap_remove(2,3) gomap_ok_def
      flatThreshold_def split: option.splits)

section \<open>The index as a relation\<close>

lemma subs_getShard_less [simp]: "subs_getShard i < numSubShards"
  by (simp add: subs_getShard_def numSubShards_def)

lemma rebuilt_gget:
  assumes "gomap_ok m"
  shows "gget (fold (\<lambda>(k, v) m. gput k v m) m m0) k = (case gget m k of Some v \<Rightarrow> Some v | None \<Rightarrow> gget m0 k)"
  using assms
proof (induction m arbitrary: m0)
  case (Cons a m)
  then have "gomap_ok m" "gget m (fst a) = None" by (auto simp: gomap_ok_def gget_def map_of_eq_None_iff)
  then show ?case using Cons.IH by (cases a) (auto simp: gget_Cons split: option.splits)
qed simp

lemma rebuilt_ok: "gomap_ok m0 \<Longrightarrow> gomap_ok (fold (\<lambda>(k, v) m. gput k v m) m m0)"
  by (induction m arbitrary: m0) auto

lemma maybeRebuild_gget [simp]:
  "gomap_ok (ixMap sh) \<Longrightarrow> gget (ixMap (subShard_maybeRebuild sh)) i = gget (ixMap sh) i"
  by (simp add: subShard_maybeRebuild_def rebuilt_gget split: option.splits)

lemma maybeRebuild_ok [simp]:
  "gomap_ok (ixMap sh) \<Longrightarrow> gomap_ok (ixMap (subShard_maybeRebuild sh))"
  by (simp add: subShard_maybeRebuild_def rebuilt_ok)

definition subShard_ok :: "subShard \<Rightarrow> bool" where
  "subShard_ok sh \<longleftrightarrow> gomap_ok (ixMap sh) \<and> (\<forall>i cs. gget (ixMap sh) i = Some cs \<longrightarrow> channelSet_ok cs)"

definition subs_ok :: "subscriptions \<Rightarrow> bool" where
  "subs_ok s \<longleftrightarrow> length s = numSubShards \<and> (\<forall>sh \<in> set s. subShard_ok sh)"

text \<open>What one shard knows of a subscriber, and the effect of each mutator on it.\<close>

definition shard_channels :: "subShard \<Rightarrow> SubscriberID \<Rightarrow> string set" where
  "shard_channels sh i = (case gget (ixMap sh) i of None \<Rightarrow> {} | Some cs \<Rightarrow> set (toSlice cs))"

lemma shard_Add_spec:
  assumes "subShard_ok sh"
  shows "subShard_ok (shard_Add i ch sh)"
    "shard_channels (shard_Add i ch sh) = (shard_channels sh)(i := insert ch (shard_channels sh i))"
  using assms
  by (auto simp: subShard_ok_def shard_Add_def shard_channels_def Let_def fun_eq_iff channelSet_ok_add
      set_channelSet_add split: option.splits if_splits)

lemma shard_RemoveAll_spec:
  assumes "subShard_ok sh"
  shows "subShard_ok (shard_RemoveAll i sh)"
    "shard_channels (shard_RemoveAll i sh) = (shard_channels sh)(i := {})"
  using assms
  by (auto simp: subShard_ok_def shard_RemoveAll_def shard_channels_def fun_eq_iff split: if_splits)

lemma shard_Remove_spec:
  assumes "subShard_ok sh"
  shows "subShard_ok (shard_Remove i ch sh)"
    "shard_channels (shard_Remove i ch sh) = (shard_channels sh)(i := shard_channels sh i - {ch})"
proof -
  show "subShard_ok (shard_Remove i ch sh)"
    using assms
    by (auto simp: subShard_ok_def shard_Remove_def Let_def channelSet_ok_remove
        split: option.splits if_splits)
  show "shard_channels (shard_Remove i ch sh) = (shard_channels sh)(i := shard_channels sh i - {ch})"
  proof (cases "gget (ixMap sh) i")
    case (Some cs)
    then have ok: "channelSet_ok cs" "gomap_ok (ixMap sh)" using assms by (simp_all add: subShard_ok_def)
    let ?cs = "channelSet_remove ch cs"
    have "gget (ixMap (shard_Remove i ch sh)) j =
        (if j = i then if toSlice ?cs = [] then None else Some ?cs else gget (ixMap sh) j)" for j
      using Some ok by (simp add: shard_Remove_def Let_def channelSet_len_toSlice)
    moreover have "set (toSlice ?cs) = set (toSlice cs) - {ch}" by (rule set_channelSet_remove [OF ok(1)])
    ultimately show ?thesis using Some by (force simp: shard_channels_def fun_eq_iff)
  qed (simp add: shard_Remove_def shard_channels_def fun_eq_iff)
qed

text \<open>The whole index, read as the channels of each subscriber.\<close>

definition channels_of :: "subscriptions \<Rightarrow> SubscriberID \<Rightarrow> string set" where
  "channels_of s i = shard_channels (s ! subs_getShard i) i"

lemma set_GetChannels: "set (GetChannels i s) = channels_of s i"
  by (simp add: GetChannels_def channels_of_def shard_channels_def split: option.splits)

lemma distinct_GetChannels: "subs_ok s \<Longrightarrow> distinct (GetChannels i s)"
proof -
  assume "subs_ok s"
  then have "subShard_ok (s ! subs_getShard i)" by (simp add: subs_ok_def)
  then show ?thesis by (auto simp: GetChannels_def subShard_ok_def distinct_toSlice split: option.splits)
qed

lemma subs_update:
  assumes "subs_ok s" "subShard_ok sh"
    and "shard_channels sh = (shard_channels (s ! subs_getShard i))(i := v)"
  shows "subs_ok (s[subs_getShard i := sh])"
    "channels_of (s[subs_getShard i := sh]) = (channels_of s)(i := v)"
  using assms set_update_subset_insert [of s "subs_getShard i" sh]
  by (auto simp: subs_ok_def channels_of_def nth_list_update fun_eq_iff)

lemma subs_shard_ok: "subs_ok s \<Longrightarrow> subShard_ok (s ! subs_getShard i)"
  by (simp add: subs_ok_def)

lemma subs_Add_spec:
  assumes "subs_ok s"
  shows "subs_ok (subscriptions_Add i ch s)"
    "channels_of (subscriptions_Add i ch s) = (channels_of s)(i := insert ch (channels_of s i))"
  using subs_update [OF assms shard_Add_spec [OF subs_shard_ok [OF assms]]]
  by (simp_all add: subscriptions_Add_def channels_of_def [of _ i])

lemma subs_Remove_spec:
  assumes "subs_ok s"
  shows "subs_ok (subscriptions_Remove i ch s)"
    "channels_of (subscriptions_Remove i ch s) = (channels_of s)(i := channels_of s i - {ch})"
  using subs_update [OF assms shard_Remove_spec [OF subs_shard_ok [OF assms]]]
  by (simp_all add: subscriptions_Remove_def channels_of_def [of _ i])

lemma subs_RemoveAll_spec:
  assumes "subs_ok s"
  shows "subs_ok (subscriptions_RemoveAll i s)"
    "channels_of (subscriptions_RemoveAll i s) = (channels_of s)(i := {})"
  using subs_update [OF assms shard_RemoveAll_spec [OF subs_shard_ok [OF assms]]]
  by (simp_all add: subscriptions_RemoveAll_def)

lemma subs_ok_new [inv_intros]: "subs_ok newSubscriptions"
  by (simp add: subs_ok_def newSubscriptions_def subShard_ok_def)

lemma channels_of_new: "channels_of newSubscriptions = (\<lambda>_. {})"
  by (simp add: channels_of_def newSubscriptions_def shard_channels_def fun_eq_iff)

section \<open>The contract the engine relies on\<close>

text \<open>
  A reverse index keeps, per subscriber, the set of channels added and not yet removed, and
  lists it without duplicates. The engine's bookkeeping lemmas are proved from this alone.
\<close>

locale reverse_index =
  fixes ok :: "'ix \<Rightarrow> bool"
    and rel :: "'ix \<Rightarrow> 'id \<Rightarrow> 'ch set"
    and add :: "'id \<Rightarrow> 'ch \<Rightarrow> 'ix \<Rightarrow> 'ix"
    and del :: "'id \<Rightarrow> 'ch \<Rightarrow> 'ix \<Rightarrow> 'ix"
    and clear :: "'id \<Rightarrow> 'ix \<Rightarrow> 'ix"
    and listing :: "'id \<Rightarrow> 'ix \<Rightarrow> 'ch list"
  assumes add_ok: "ok s \<Longrightarrow> ok (add i c s)"
    and add_rel: "ok s \<Longrightarrow> rel (add i c s) = (rel s)(i := insert c (rel s i))"
    and del_ok: "ok s \<Longrightarrow> ok (del i c s)"
    and del_rel: "ok s \<Longrightarrow> rel (del i c s) = (rel s)(i := rel s i - {c})"
    and clear_ok: "ok s \<Longrightarrow> ok (clear i s)"
    and clear_rel: "ok s \<Longrightarrow> rel (clear i s) = (rel s)(i := {})"
    and listing_set: "set (listing i s) = rel s i"
    and listing_distinct: "ok s \<Longrightarrow> distinct (listing i s)"
begin

text \<open>A relation \<open>R\<close> between subscribers and channels is indexed by \<open>s\<close>.\<close>

definition indexes :: "'ix \<Rightarrow> ('id \<times> 'ch) set \<Rightarrow> bool" where
  "indexes s R \<longleftrightarrow> ok s \<and> (\<forall>i. rel s i = {c. (i, c) \<in> R})"

lemma indexes_add: "indexes s R \<Longrightarrow> indexes (add i c s) (insert (i, c) R)"
  by (auto simp: indexes_def add_ok add_rel)

lemma indexes_del: "indexes s R \<Longrightarrow> indexes (del i c s) (R - {(i, c)})"
  by (auto simp: indexes_def del_ok del_rel)

lemma indexes_clear: "indexes s R \<Longrightarrow> indexes (clear i s) (R - {i} \<times> UNIV)"
  by (auto simp: indexes_def clear_ok clear_rel)

lemma indexes_listing: "indexes s R \<Longrightarrow> distinct (listing i s) \<and> set (listing i s) = {c. (i, c) \<in> R}"
  by (simp add: indexes_def listing_set listing_distinct)

end

interpretation subs_index: reverse_index subs_ok channels_of subscriptions_Add subscriptions_Remove
    subscriptions_RemoveAll GetChannels
  by unfold_locales
     (simp_all add: subs_Add_spec subs_Remove_spec subs_RemoveAll_spec set_GetChannels distinct_GetChannels)

text \<open>
  The index after a run of operations, against the relation those operations describe.
\<close>

datatype index_op = IxAdd SubscriberID string | IxRemove SubscriberID string | IxRemoveAll SubscriberID

fun index_step :: "index_op \<Rightarrow> subscriptions \<Rightarrow> subscriptions" where
  "index_step (IxAdd i c) s = subscriptions_Add i c s"
| "index_step (IxRemove i c) s = subscriptions_Remove i c s"
| "index_step (IxRemoveAll i) s = subscriptions_RemoveAll i s"

fun index_spec :: "index_op \<Rightarrow> (SubscriberID \<times> string) set \<Rightarrow> (SubscriberID \<times> string) set" where
  "index_spec (IxAdd i c) R = insert (i, c) R"
| "index_spec (IxRemove i c) R = R - {(i, c)}"
| "index_spec (IxRemoveAll i) R = R - {i} \<times> UNIV"

lemma index_step_indexes: "subs_index.indexes s R \<Longrightarrow> subs_index.indexes (index_step op s) (index_spec op R)"
  by (cases op) (auto intro: subs_index.indexes_add subs_index.indexes_del subs_index.indexes_clear)

lemma index_steps_indexes:
  "subs_index.indexes s R \<Longrightarrow> subs_index.indexes (fold index_step ops s) (fold index_spec ops R)"
  by (induction ops arbitrary: s R) (auto intro: index_step_indexes)

text \<open>
  The sharded hybrid index refines a plain relation: after any sequence of additions and
  removals the channels listed for a subscriber are, without duplicates, exactly those the
  sequence leaves it on, through every promotion to a map, demotion to a slice and shard rebuild.
\<close>

theorem subscription_index_refines:
  "distinct (GetChannels i (fold index_step ops newSubscriptions))
   \<and> set (GetChannels i (fold index_step ops newSubscriptions)) = {c. (i, c) \<in> fold index_spec ops {}}"
proof -
  have "subs_index.indexes newSubscriptions {}"
    by (simp add: subs_index.indexes_def subs_ok_new channels_of_new)
  from subs_index.indexes_listing [OF index_steps_indexes [OF this]] show ?thesis .
qed

end
