(* ===== verification/Pattern_Registry.thy ===== *)
theory Pattern_Registry
  imports Namespace Delivery
begin

text \<open>
  Model of \<^verbatim>\<open>internal/engine/pattern.go\<close>: the engine-wide registry of wildcard subscriptions. Mutators
  update two maps under a lock and publish an immutable snapshot under a fresh generation;
  readers match a channel against a snapshot and memoise the result in a sharded cache, tagged
  with the generation it was computed from. \<open>prSeed\<close> is the seeded \<^verbatim>\<open>maphash\<close> function, a
  parameter; a Go map is iterated in the order of its list.
\<close>

definition patternCacheSize :: int where "patternCacheSize = 10000"

definition patternCacheShards :: nat where "patternCacheShards = 32"

definition dedupMapThreshold :: nat where "dedupMapThreshold = 32"

record patternEntry =
  pePat :: string
  peNS :: string
  peSubs :: "SubscriberID list"

record patternSnapshot =
  psGen :: u64
  psEntries :: "patternEntry list"

record cachedMatch =
  cmGen :: u64
  cmIds :: "SubscriberID list"

record patternRegistry =
  prSubs :: "(string, SubscriberID list) gomap"
  prByID :: "(SubscriberID, string list) gomap"
  prScoped :: bool
  prSnap :: patternSnapshot
  prSeed :: "string \<Rightarrow> u64"
  prCaches :: "cachedMatch cache list"

definition newPatternRegistry :: "(string \<Rightarrow> u64) \<Rightarrow> bool \<Rightarrow> patternRegistry" where
  "newPatternRegistry seed scoped =
     \<lparr>prSubs = [], prByID = [], prScoped = scoped, prSnap = \<lparr>psGen = 0, psEntries = []\<rparr>, prSeed = seed,
      prCaches = replicate patternCacheShards (NewCache (patternCacheSize div int patternCacheShards))\<rparr>"

text \<open>Reading a map of slices: a missing key reads as the nil slice.\<close>

definition gl :: "('k, 'v list) gomap \<Rightarrow> 'k \<Rightarrow> 'v list" where
  "gl m k = (case gget m k of None \<Rightarrow> [] | Some v \<Rightarrow> v)"

definition swapLocked :: "patternSnapshot \<Rightarrow> patternRegistry \<Rightarrow> patternRegistry" where
  "swapLocked nxt p = p\<lparr>prSnap := nxt, prCaches := map Cache_Clear (prCaches p)\<rparr>"

definition publishLocked :: "patternRegistry \<Rightarrow> patternRegistry" where
  "publishLocked p =
     swapLocked \<lparr>psGen = psGen (prSnap p) + 1,
        psEntries = map (\<lambda>(pat, ids). \<lparr>pePat = pat, peNS = Prefix pat, peSubs = ids\<rparr>) (prSubs p)\<rparr> p"

text \<open>The loop of \<^verbatim>\<open>publishEntryLocked\<close>; the flag is \<^verbatim>\<open>found\<close>.\<close>

fun replace_entry :: "string \<Rightarrow> SubscriberID list option \<Rightarrow> patternEntry list \<Rightarrow> patternEntry list \<times> bool" where
  "replace_entry pat ids [] = ([], False)"
| "replace_entry pat ids (e # es) =
     (case replace_entry pat ids es of (rest, found) \<Rightarrow>
        if pePat e = pat then
          (case ids of
             Some live \<Rightarrow> (\<lparr>pePat = pat, peNS = peNS e, peSubs = live\<rparr> # rest, True)
           | None \<Rightarrow> (rest, True))
        else (e # rest, found))"

definition publishEntryLocked :: "string \<Rightarrow> patternRegistry \<Rightarrow> patternRegistry" where
  "publishEntryLocked pat p =
     (let ids = gget (prSubs p) pat;
          (es, found) = replace_entry pat ids (psEntries (prSnap p));
          es' = (case ids of
                   Some live \<Rightarrow> if found then es
                                else es @ [\<lparr>pePat = pat, peNS = Prefix pat, peSubs = live\<rparr>]
                 | None \<Rightarrow> es)
      in swapLocked \<lparr>psGen = psGen (prSnap p) + 1, psEntries = es'\<rparr> p)"

definition patterns_add :: "SubscriberID \<Rightarrow> string \<Rightarrow> patternRegistry \<Rightarrow> bool \<times> patternRegistry" where
  "patterns_add i pat p =
     (if i \<in> set (gl (prSubs p) pat) then (False, p)
      else (True, publishEntryLocked pat
              (p\<lparr>prSubs := gput pat (gl (prSubs p) pat @ [i]) (prSubs p),
                 prByID := gput i (gl (prByID p) i @ [pat]) (prByID p)\<rparr>)))"

text \<open>\<^verbatim>\<open>slices.Delete(s, i, i+1)\<close>, and the write-back that drops an emptied slice's key.\<close>

definition slices_Delete :: "nat \<Rightarrow> 'a list \<Rightarrow> 'a list" where
  "slices_Delete i xs = take i xs @ drop (i + 1) xs"

definition put_or_delete :: "'k \<Rightarrow> 'v list \<Rightarrow> ('k, 'v list) gomap \<Rightarrow> ('k, 'v list) gomap" where
  "put_or_delete k v m = (if length v = 0 then gdel k m else gput k v m)"

definition removeLocked :: "SubscriberID \<Rightarrow> string \<Rightarrow> patternRegistry \<Rightarrow> bool \<times> patternRegistry" where
  "removeLocked i pat p =
     (let ids = gl (prSubs p) pat
      in case index_of i ids of
           None \<Rightarrow> (False, p)
         | Some idx \<Rightarrow>
             (let p1 = p\<lparr>prSubs := put_or_delete pat (slices_Delete idx ids) (prSubs p)\<rparr>;
                  pats = gl (prByID p1) i
              in case index_of pat pats of
                   None \<Rightarrow> (True, p1)
                 | Some pidx \<Rightarrow>
                     (True, p1\<lparr>prByID := put_or_delete i (slices_Delete pidx pats) (prByID p1)\<rparr>)))"

definition patterns_remove :: "SubscriberID \<Rightarrow> string \<Rightarrow> patternRegistry \<Rightarrow> bool \<times> patternRegistry" where
  "patterns_remove i pat p =
     (case removeLocked i pat p of
        (False, p1) \<Rightarrow> (False, p1)
      | (True, p1) \<Rightarrow> (True, publishEntryLocked pat p1))"

definition patterns_removeAll :: "SubscriberID \<Rightarrow> patternRegistry \<Rightarrow> nat \<times> patternRegistry" where
  "patterns_removeAll i p =
     (let pats = gl (prByID p) i;
          p1 = fold (\<lambda>pat q. snd (removeLocked i pat q)) pats p;
          p2 = (if length pats > 0 then publishLocked p1 else p1)
      in (length pats, p2))"

text \<open>
  One step of the deduplicating inner loop of \<^verbatim>\<open>subscribersFor\<close>: past \<open>dedupMapThreshold\<close> ids a set
  replaces the linear search.
\<close>

fun dedup_step :: "SubscriberID \<Rightarrow> SubscriberID list \<times> (SubscriberID, unit) gomap option
    \<Rightarrow> SubscriberID list \<times> (SubscriberID, unit) gomap option" where
  "dedup_step i (ids, Some seen) =
     (if gget seen i \<noteq> None then (ids, Some seen) else (ids @ [i], Some (gput i () seen)))"
| "dedup_step i (ids, None) =
     (if i \<in> set ids then (ids, None)
      else (let ids' = ids @ [i]
            in if length ids' > dedupMapThreshold
               then (ids', Some (fold (\<lambda>x m. gput x () m) ids' []))
               else (ids', None)))"

fun match_loop_entries :: "bool \<Rightarrow> string \<Rightarrow> string \<Rightarrow> patternEntry list
    \<Rightarrow> SubscriberID list \<times> (SubscriberID, unit) gomap option
    \<Rightarrow> SubscriberID list \<times> (SubscriberID, unit) gomap option" where
  "match_loop_entries scoped chNS channel [] acc = acc"
| "match_loop_entries scoped chNS channel (e # es) acc =
     (if scoped \<and> peNS e \<noteq> chNS then match_loop_entries scoped chNS channel es acc
      else if \<not> Match (pePat e) channel then match_loop_entries scoped chNS channel es acc
      else match_loop_entries scoped chNS channel es (fold dedup_step (peSubs e) acc))"

definition compute_match :: "bool \<Rightarrow> patternSnapshot \<Rightarrow> string \<Rightarrow> SubscriberID list" where
  "compute_match scoped snap channel =
     fst (match_loop_entries scoped (if scoped then Prefix channel else []) channel (psEntries snap) ([], None))"

definition cache_index :: "patternRegistry \<Rightarrow> string \<Rightarrow> nat" where
  "cache_index p channel = unat (prSeed p channel AND (of_nat patternCacheShards - 1))"

text \<open>
  \<^verbatim>\<open>subscribersFor\<close> from the snapshot \<open>snap\<close> it loaded: the result and the registry after the
  cache was filled. \<open>order\<close> is the order in which the runtime iterates a cache that must evict.
\<close>

definition subscribersFor_at :: "string list \<Rightarrow> patternSnapshot \<Rightarrow> string \<Rightarrow> patternRegistry
    \<Rightarrow> SubscriberID list \<times> patternRegistry" where
  "subscribersFor_at order snap channel p =
     (if length (psEntries snap) = 0 then ([], p)
      else
        (let k = cache_index p channel; c = prCaches p ! k;
             miss = (let ids = compute_match (prScoped p) snap channel
                     in (ids, p\<lparr>prCaches := (prCaches p)[k :=
                               Cache_Set order channel \<lparr>cmGen = psGen snap, cmIds = ids\<rparr> c]\<rparr>))
         in case Cache_Get c channel of
              Some m \<Rightarrow> if cmGen m = psGen snap then (cmIds m, p) else miss
            | None \<Rightarrow> miss))"

definition subscribersFor :: "string list \<Rightarrow> string \<Rightarrow> patternRegistry \<Rightarrow> SubscriberID list \<times> patternRegistry" where
  "subscribersFor order channel p = subscribersFor_at order (prSnap p) channel p"

section \<open>Maps of slices\<close>

lemma gl_gput [simp]: "gl (gput k v m) k' = (if k' = k then v else gl m k')"
  by (simp add: gl_def)

lemma gl_put_or_delete [simp]: "gl (put_or_delete k v m) k' = (if k' = k then v else gl m k')"
  by (simp add: gl_def put_or_delete_def)

definition lists_ok :: "('k, 'v list) gomap \<Rightarrow> bool" where
  "lists_ok m \<longleftrightarrow> gomap_ok m \<and> (\<forall>k v. gget m k = Some v \<longrightarrow> v \<noteq> [] \<and> distinct v)"

lemma lists_ok_Nil [simp]: "lists_ok []"
  by (simp add: lists_ok_def)

lemma distinct_gl: "lists_ok m \<Longrightarrow> distinct (gl m k)"
  by (auto simp: lists_ok_def gl_def split: option.splits)

lemma lists_ok_gput: "lists_ok m \<Longrightarrow> v \<noteq> [] \<Longrightarrow> distinct v \<Longrightarrow> lists_ok (gput k v m)"
  by (auto simp: lists_ok_def split: if_splits)

lemma lists_ok_put_or_delete: "lists_ok m \<Longrightarrow> distinct v \<Longrightarrow> lists_ok (put_or_delete k v m)"
  by (auto simp: lists_ok_def put_or_delete_def split: if_splits)

lemma gget_gl: "lists_ok m \<Longrightarrow> gget m k = (if gl m k = [] then None else Some (gl m k))"
  by (auto simp: lists_ok_def gl_def split: option.splits)

lemma slices_Delete_index: "index_of x xs = Some i \<Longrightarrow> slices_Delete i xs = remove1 x xs"
  using index_of_Some [of x xs i] by (simp add: slices_Delete_def)

text \<open>The number of values held.\<close>

definition total_len :: "('k, 'v list) gomap \<Rightarrow> int" where
  "total_len m = (\<Sum>(k, v) \<leftarrow> m. int (length v))"

lemma total_len_gput:
  "gomap_ok m \<Longrightarrow> total_len (gput k v m) = total_len m + int (length v) - int (length (gl m k))"
  by (simp add: total_len_def sum_list_gput gl_def split: option.splits)

lemma total_len_put_or_delete:
  "gomap_ok m \<Longrightarrow> total_len (put_or_delete k v m) = total_len m + int (length v) - int (length (gl m k))"
  by (simp add: put_or_delete_def total_len_gput) (simp add: total_len_def sum_list_gdel gl_def split: option.splits)

section \<open>Deduplication\<close>

text \<open>The order-preserving union the loop computes.\<close>

definition insert_new :: "'a \<Rightarrow> 'a list \<Rightarrow> 'a list" where
  "insert_new x xs = (if x \<in> set xs then xs else xs @ [x])"

definition dedup_inv :: "SubscriberID list \<times> (SubscriberID, unit) gomap option \<Rightarrow> bool" where
  "dedup_inv acc \<longleftrightarrow> (\<forall>m. snd acc = Some m \<longrightarrow> fst ` set m = set (fst acc))"

lemma dedup_step_insert:
  assumes "dedup_inv acc"
  shows "fst (dedup_step i acc) = insert_new i (fst acc) \<and> dedup_inv (dedup_step i acc)"
proof -
  have seen: "fst ` set (fold (\<lambda>x m. gput x () m) xs m) = set xs \<union> fst ` set m" for xs :: "SubscriberID list" and m
    by (induction xs arbitrary: m) auto
  obtain ids s where acc: "acc = (ids, s)" by (cases acc)
  show ?thesis
  proof (cases s)
    case (Some m)
    then show ?thesis using assms acc set_gkeys [of i m] by (auto simp: dedup_inv_def insert_new_def)
  qed (auto simp: acc dedup_inv_def insert_new_def Let_def seen)
qed

lemma dedup_fold:
  "dedup_inv acc \<Longrightarrow> fst (fold dedup_step xs acc) = fold insert_new xs (fst acc) \<and> dedup_inv (fold dedup_step xs acc)"
  by (induction xs arbitrary: acc) (auto simp: dedup_step_insert)

lemma fold_insert_new:
  "set (fold insert_new xs ys) = set ys \<union> set xs \<and> (distinct ys \<longrightarrow> distinct (fold insert_new xs ys))"
  by (induction xs arbitrary: ys) (auto simp: insert_new_def)

definition entry_matches :: "bool \<Rightarrow> string \<Rightarrow> string \<Rightarrow> patternEntry \<Rightarrow> bool" where
  "entry_matches scoped chNS channel e \<longleftrightarrow> (scoped \<longrightarrow> peNS e = chNS) \<and> Match (pePat e) channel"

lemma match_loop_entries_spec:
  assumes "dedup_inv acc" "distinct (fst acc)"
  shows "set (fst (match_loop_entries scoped ns ch es acc)) =
      set (fst acc) \<union> (\<Union>e \<in> {e \<in> set es. entry_matches scoped ns ch e}. set (peSubs e))
    \<and> distinct (fst (match_loop_entries scoped ns ch es acc))"
  using assms
proof (induction es arbitrary: acc)
  case (Cons e es)
  show ?case
    using Cons.IH [of acc] Cons.IH [of "fold dedup_step (peSubs e) acc"] Cons.prems
      dedup_fold [of acc "peSubs e"] fold_insert_new [of "peSubs e" "fst acc"]
    by (auto simp: entry_matches_def)
qed simp

lemma compute_match_spec:
  "set (compute_match scoped snap ch) =
     (\<Union>e \<in> {e \<in> set (psEntries snap). entry_matches scoped (if scoped then Prefix ch else []) ch e}. set (peSubs e))"
  "distinct (compute_match scoped snap ch)"
  using match_loop_entries_spec [of "([], None)"] by (simp_all add: compute_match_def dedup_inv_def)

section \<open>The registry invariant\<close>

text \<open>
  The two maps are inverse to each other, and the snapshot has one entry per live pattern, with
  that pattern's subscribers and namespace prefix.
\<close>

definition maps_ok :: "patternRegistry \<Rightarrow> bool" where
  "maps_ok p \<longleftrightarrow> lists_ok (prSubs p) \<and> lists_ok (prByID p)
     \<and> (\<forall>i pat. pat \<in> set (gl (prByID p) i) \<longleftrightarrow> i \<in> set (gl (prSubs p) pat))
     \<and> length (prCaches p) = patternCacheShards"

definition snap_of :: "(string, SubscriberID list) gomap \<Rightarrow> patternEntry list \<Rightarrow> bool" where
  "snap_of m es \<longleftrightarrow> distinct (map pePat es)
     \<and> (\<forall>e. e \<in> set es \<longleftrightarrow> gget m (pePat e) = Some (peSubs e) \<and> peNS e = Prefix (pePat e))"

definition patterns_ok :: "patternRegistry \<Rightarrow> bool" where
  "patterns_ok p \<longleftrightarrow> maps_ok p \<and> snap_of (prSubs p) (psEntries (prSnap p))"

text \<open>The wildcard subscriptions held: who is subscribed to which pattern.\<close>

definition pattern_rel :: "patternRegistry \<Rightarrow> (SubscriberID \<times> string) set" where
  "pattern_rel p = {(i, pat). i \<in> set (gl (prSubs p) pat)}"

definition pattern_count :: "patternRegistry \<Rightarrow> int" where
  "pattern_count p = total_len (prSubs p)"

lemma replace_entry_spec:
  assumes "replace_entry pat ids es = (es', found)" "distinct (map pePat es)"
    and "\<And>e. e \<in> set es \<Longrightarrow> peNS e = Prefix (pePat e)"
  shows "found \<longleftrightarrow> pat \<in> pePat ` set es" and "distinct (map pePat es')"
    and "set es' = {e \<in> set es. pePat e \<noteq> pat}
      \<union> (case ids of Some live \<Rightarrow> if found then {\<lparr>pePat = pat, peNS = Prefix pat, peSubs = live\<rparr>} else {} | None \<Rightarrow> {})"
    and "pePat ` set es' \<subseteq> pePat ` set es"
proof -
  have "(found \<longleftrightarrow> pat \<in> pePat ` set es) \<and> distinct (map pePat es') \<and> pePat ` set es' \<subseteq> pePat ` set es
    \<and> set es' = {e \<in> set es. pePat e \<noteq> pat}
      \<union> (case ids of Some live \<Rightarrow> if found then {\<lparr>pePat = pat, peNS = Prefix pat, peSubs = live\<rparr>} else {} | None \<Rightarrow> {})"
    using assms
  proof (induction es arbitrary: es' found)
    case (Cons e es)
    obtain r f where rec: "replace_entry pat ids es = (r, f)" by (cases "replace_entry pat ids es")
    have ih: "(f \<longleftrightarrow> pat \<in> pePat ` set es) \<and> distinct (map pePat r) \<and> pePat ` set r \<subseteq> pePat ` set es
      \<and> set r = {e \<in> set es. pePat e \<noteq> pat}
        \<union> (case ids of Some live \<Rightarrow> if f then {\<lparr>pePat = pat, peNS = Prefix pat, peSubs = live\<rparr>} else {} | None \<Rightarrow> {})"
      by (rule Cons.IH [OF rec]) (use Cons.prems in auto)
    show ?case
    proof (cases "pePat e = pat")
      case True
      with Cons.prems have "pat \<notin> pePat ` set es" "\<not> f" using ih by auto
      with True ih rec Cons.prems show ?thesis by (cases ids) auto
    next
      case False
      with ih rec Cons.prems show ?thesis by (auto split: option.splits)
    qed
  qed (simp split: option.splits)
  then show "found \<longleftrightarrow> pat \<in> pePat ` set es" "distinct (map pePat es')"
    "set es' = {e \<in> set es. pePat e \<noteq> pat}
      \<union> (case ids of Some live \<Rightarrow> if found then {\<lparr>pePat = pat, peNS = Prefix pat, peSubs = live\<rparr>} else {} | None \<Rightarrow> {})"
    "pePat ` set es' \<subseteq> pePat ` set es" by auto
qed

text \<open>
  The incremental publication is right when the previous snapshot was right for maps that differ
  from the current ones at the touched pattern only.
\<close>

lemma publishEntry_snap:
  assumes "snap_of m (psEntries (prSnap p))"
    and "\<And>k. k \<noteq> pat \<Longrightarrow> gget (prSubs p) k = gget m k"
  shows "snap_of (prSubs p) (psEntries (prSnap (publishEntryLocked pat p)))"
proof -
  let ?es = "psEntries (prSnap p)" and ?ids = "gget (prSubs p) pat"
  let ?new = "\<lambda>live. \<lparr>pePat = pat, peNS = Prefix pat, peSubs = live\<rparr>"
  obtain es found where r: "replace_entry pat ?ids ?es = (es, found)" by (cases "replace_entry pat ?ids ?es")
  have m: "distinct (map pePat ?es)" "\<And>e. e \<in> set ?es \<Longrightarrow> peNS e = Prefix (pePat e)"
    "\<And>e. e \<in> set ?es \<longleftrightarrow> gget m (pePat e) = Some (peSubs e) \<and> peNS e = Prefix (pePat e)"
    using assms(1) by (auto simp: snap_of_def)
  note spec = replace_entry_spec [OF r m(1,2)]
  define es' where "es' = (case ?ids of Some live \<Rightarrow> if found then es else es @ [?new live] | None \<Rightarrow> es)"
  have pub: "psEntries (prSnap (publishEntryLocked pat p)) = es'"
    by (simp add: publishEntryLocked_def r Let_def swapLocked_def es'_def)
  have set': "set es' = {e \<in> set ?es. pePat e \<noteq> pat} \<union> (case ?ids of Some live \<Rightarrow> {?new live} | None \<Rightarrow> {})"
    using spec(3) by (auto simp: es'_def split: option.splits if_splits)
  have "distinct (map pePat es')"
    using spec(1,2,4) by (auto simp: es'_def split: option.splits)
  moreover have "e \<in> set es' \<longleftrightarrow> gget (prSubs p) (pePat e) = Some (peSubs e) \<and> peNS e = Prefix (pePat e)" for e
  proof (cases "pePat e = pat")
    case True
    have "e = ?new live \<longleftrightarrow> peNS e = Prefix pat \<and> peSubs e = live" for live using True by (cases e) auto
    with True show ?thesis by (auto simp: set' split: option.splits)
  next
    case False
    then show ?thesis using m(3) assms(2) by (auto simp: set' split: option.splits)
  qed
  ultimately show ?thesis by (simp add: snap_of_def pub)
qed

lemma publishLocked_snap:
  assumes "gomap_ok (prSubs p)"
  shows "snap_of (prSubs p) (psEntries (prSnap (publishLocked p)))"
  using assms gget_in_set [OF assms]
  by (force simp: snap_of_def publishLocked_def swapLocked_def gomap_ok_def comp_def case_prod_beta image_iff)

lemma publish_fields [simp]:
  "prSubs (publishEntryLocked pat p) = prSubs p" "prByID (publishEntryLocked pat p) = prByID p"
  "prScoped (publishEntryLocked pat p) = prScoped p" "prSeed (publishEntryLocked pat p) = prSeed p"
  "length (prCaches (publishEntryLocked pat p)) = length (prCaches p)"
  "psGen (prSnap (publishEntryLocked pat p)) = psGen (prSnap p) + 1"
  "prSubs (publishLocked p) = prSubs p" "prByID (publishLocked p) = prByID p"
  "prScoped (publishLocked p) = prScoped p" "prSeed (publishLocked p) = prSeed p"
  "length (prCaches (publishLocked p)) = length (prCaches p)"
  "psGen (prSnap (publishLocked p)) = psGen (prSnap p) + 1"
  by (simp_all add: publishEntryLocked_def publishLocked_def swapLocked_def Let_def split: prod.splits)

lemma maps_ok_publish [simp]:
  "maps_ok (publishEntryLocked pat p) = maps_ok p" "maps_ok (publishLocked p) = maps_ok p"
  by (simp_all add: maps_ok_def)

section \<open>The operations\<close>

lemma patterns_add_spec:
  assumes "patterns_ok p" "patterns_add i pat p = (ok, p')"
  shows "patterns_ok p'" "ok \<longleftrightarrow> (i, pat) \<notin> pattern_rel p"
    "pattern_rel p' = insert (i, pat) (pattern_rel p)"
    "pattern_count p' = pattern_count p + (if ok then 1 else 0)"
    "prScoped p' = prScoped p"
proof -
  let ?q = "p\<lparr>prSubs := gput pat (gl (prSubs p) pat @ [i]) (prSubs p),
    prByID := gput i (gl (prByID p) i @ [pat]) (prByID p)\<rparr>"
  have mp: "maps_ok p" and sp: "snap_of (prSubs p) (psEntries (prSnap p))"
    using assms(1) by (simp_all add: patterns_ok_def)
  have new: "maps_ok ?q" if "i \<notin> set (gl (prSubs p) pat)"
    using mp that by (auto simp: maps_ok_def distinct_gl intro!: lists_ok_gput)
  have pub: "snap_of (prSubs ?q) (psEntries (prSnap (publishEntryLocked pat ?q)))"
    using publishEntry_snap [of "prSubs p" ?q pat] sp by simp
  show "patterns_ok p'"
    using assms new pub by (auto simp: patterns_add_def patterns_ok_def split: if_splits)
  show "ok \<longleftrightarrow> (i, pat) \<notin> pattern_rel p" "pattern_rel p' = insert (i, pat) (pattern_rel p)" "prScoped p' = prScoped p"
    using assms(2) by (auto simp: patterns_add_def pattern_rel_def split: if_splits)
  show "pattern_count p' = pattern_count p + (if ok then 1 else 0)"
    using assms(2) mp
    by (auto simp: patterns_add_def pattern_count_def total_len_gput maps_ok_def lists_ok_def split: if_splits)
qed

lemma removeLocked_eq:
  assumes "maps_ok p"
  shows "removeLocked i pat p =
    (if (i, pat) \<in> pattern_rel p
     then (True, p\<lparr>prSubs := put_or_delete pat (remove1 i (gl (prSubs p) pat)) (prSubs p),
                   prByID := put_or_delete i (remove1 pat (gl (prByID p) i)) (prByID p)\<rparr>)
     else (False, p))"
proof (cases "index_of i (gl (prSubs p) pat)")
  case None
  then have "i \<notin> set (gl (prSubs p) pat)" by (simp add: index_of_None)
  with None show ?thesis by (simp add: removeLocked_def pattern_rel_def Let_def)
next
  case (Some idx)
  then have "i \<in> set (gl (prSubs p) pat)" using index_of_None [of i "gl (prSubs p) pat"] by auto
  moreover from this have "pat \<in> set (gl (prByID p) i)" using assms by (simp add: maps_ok_def)
  then obtain pidx where "index_of pat (gl (prByID p) i) = Some pidx"
    using index_of_None [of pat "gl (prByID p) i"] by auto
  ultimately show ?thesis
    using Some by (simp add: removeLocked_def Let_def pattern_rel_def slices_Delete_index)
qed

lemma removeLocked_spec:
  assumes "maps_ok p" "removeLocked i pat p = (ok, p')"
  shows "maps_ok p'" "ok \<longleftrightarrow> (i, pat) \<in> pattern_rel p"
    "pattern_rel p' = pattern_rel p - {(i, pat)}"
    "pattern_count p' = pattern_count p - (if ok then 1 else 0)"
    "prScoped p' = prScoped p" "prSnap p' = prSnap p" "prCaches p' = prCaches p" "prSeed p' = prSeed p"
    "\<And>k. k \<noteq> pat \<Longrightarrow> gget (prSubs p') k = gget (prSubs p) k"
proof -
  have lists: "lists_ok (prSubs p)" "lists_ok (prByID p)" using assms(1) by (simp_all add: maps_ok_def)
  note d = distinct_gl [OF lists(1), of pat] distinct_gl [OF lists(2), of i]
  show "maps_ok p'"
    using assms d by (auto simp: removeLocked_eq maps_ok_def lists_ok_put_or_delete split: if_splits)
  show "ok \<longleftrightarrow> (i, pat) \<in> pattern_rel p" "pattern_rel p' = pattern_rel p - {(i, pat)}"
    using assms d by (auto simp: removeLocked_eq pattern_rel_def split: if_splits)
  show "pattern_count p' = pattern_count p - (if ok then 1 else 0)"
    using assms lists length_remove1_mem [of i "gl (prSubs p) pat"]
    by (auto simp: removeLocked_eq pattern_count_def pattern_rel_def total_len_put_or_delete lists_ok_def
        split: if_splits)
  show "prScoped p' = prScoped p" "prSnap p' = prSnap p" "prCaches p' = prCaches p" "prSeed p' = prSeed p"
    using assms by (auto simp: removeLocked_eq split: if_splits)
  show "\<And>k. k \<noteq> pat \<Longrightarrow> gget (prSubs p') k = gget (prSubs p) k"
    using assms by (auto simp: removeLocked_eq put_or_delete_def split: if_splits)
qed

lemma patterns_remove_spec:
  assumes "patterns_ok p" "patterns_remove i pat p = (ok, p')"
  shows "patterns_ok p'" "ok \<longleftrightarrow> (i, pat) \<in> pattern_rel p"
    "pattern_rel p' = pattern_rel p - {(i, pat)}"
    "pattern_count p' = pattern_count p - (if ok then 1 else 0)"
    "prScoped p' = prScoped p"
proof -
  have mp: "maps_ok p" and sp: "snap_of (prSubs p) (psEntries (prSnap p))"
    using assms(1) by (simp_all add: patterns_ok_def)
  obtain p1 where r: "removeLocked i pat p = (ok, p1)"
    and p': "p' = (if ok then publishEntryLocked pat p1 else p1)"
    using assms(2) by (auto simp: patterns_remove_def split: prod.splits bool.splits)
  note spec = removeLocked_spec [OF mp r]
  have "snap_of (prSubs p1) (psEntries (prSnap (publishEntryLocked pat p1)))"
    using publishEntry_snap [of "prSubs p" p1 pat] sp spec(6,9) by simp
  moreover have "\<not> ok \<Longrightarrow> p1 = p" using r mp by (auto simp: removeLocked_eq split: if_splits)
  ultimately show "patterns_ok p'" using p' spec(1) assms(1) by (auto simp: patterns_ok_def)
  show "ok \<longleftrightarrow> (i, pat) \<in> pattern_rel p" "pattern_rel p' = pattern_rel p - {(i, pat)}"
    "pattern_count p' = pattern_count p - (if ok then 1 else 0)" "prScoped p' = prScoped p"
    using spec p' by (auto simp: pattern_rel_def pattern_count_def)
qed

lemma removeLocked_fold:
  assumes "maps_ok p" "distinct pats" "\<forall>pat \<in> set pats. (i, pat) \<in> pattern_rel p"
    and "p' = fold (\<lambda>pat q. snd (removeLocked i pat q)) pats p"
  shows "maps_ok p' \<and> pattern_rel p' = pattern_rel p - {i} \<times> set pats
    \<and> pattern_count p' = pattern_count p - int (length pats)
    \<and> prScoped p' = prScoped p \<and> prSnap p' = prSnap p \<and> prCaches p' = prCaches p \<and> prSeed p' = prSeed p"
  using assms
proof (induction pats arbitrary: p)
  case (Cons pat pats)
  obtain ok q where r: "removeLocked i pat p = (ok, q)" by (cases "removeLocked i pat p")
  note spec = removeLocked_spec [OF Cons.prems(1) r]
  have "\<forall>pat' \<in> set pats. (i, pat') \<in> pattern_rel q" using Cons.prems spec(3) by auto
  from Cons.IH [OF spec(1) _ this] Cons.prems r spec show ?case by auto
qed simp

lemma patterns_removeAll_spec:
  assumes "patterns_ok p" "patterns_removeAll i p = (n, p')"
  shows "patterns_ok p'" "pattern_rel p' = pattern_rel p - {i} \<times> UNIV"
    "pattern_count p' = pattern_count p - int n" "n = card {pat. (i, pat) \<in> pattern_rel p}"
    "prScoped p' = prScoped p"
proof -
  let ?pats = "gl (prByID p) i"
  define p1 where "p1 = fold (\<lambda>pat q. snd (removeLocked i pat q)) ?pats p"
  have mp: "maps_ok p" using assms(1) by (simp add: patterns_ok_def)
  have pats: "set ?pats = {pat. (i, pat) \<in> pattern_rel p}" "distinct ?pats"
    using mp by (auto simp: maps_ok_def pattern_rel_def distinct_gl)
  then have f: "maps_ok p1 \<and> pattern_rel p1 = pattern_rel p - {i} \<times> set ?pats
      \<and> pattern_count p1 = pattern_count p - int (length ?pats)
      \<and> prScoped p1 = prScoped p \<and> prSnap p1 = prSnap p \<and> prCaches p1 = prCaches p \<and> prSeed p1 = prSeed p"
    using removeLocked_fold [OF mp _ _ p1_def] by blast
  have n: "n = length ?pats" and p': "p' = (if ?pats = [] then p1 else publishLocked p1)"
    using assms(2) by (auto simp: patterns_removeAll_def p1_def Let_def)
  show "patterns_ok p'"
    using f p' assms(1) publishLocked_snap [of p1]
    by (auto simp: patterns_ok_def maps_ok_def lists_ok_def p1_def)
  show "pattern_rel p' = pattern_rel p - {i} \<times> UNIV" "pattern_count p' = pattern_count p - int n"
    "prScoped p' = prScoped p"
    using f p' pats n by (auto simp: pattern_rel_def pattern_count_def)
  show "n = card {pat. (i, pat) \<in> pattern_rel p}" using n pats by (metis distinct_card)
qed

section \<open>Readers\<close>

text \<open>
  \<open>H\<close> gives the snapshot published under each generation. A cache entry is sound when it holds
  the match set of the snapshot of its tag, and a snapshot a reader holds is the one of its tag.
\<close>

definition caches_ok :: "(u64 \<Rightarrow> patternSnapshot) \<Rightarrow> patternRegistry \<Rightarrow> bool" where
  "caches_ok H p \<longleftrightarrow> (\<forall>c \<in> set (prCaches p). \<forall>ch m. Cache_Get c ch = Some m \<longrightarrow>
     cmIds m = compute_match (prScoped p) (H (cmGen m)) ch)"

lemma compute_match_no_entries: "psEntries snap = [] \<Longrightarrow> compute_match scoped snap ch = []"
  by (simp add: compute_match_def)

lemma cache_index_less: "cache_index p ch < patternCacheShards"
proof -
  have "is_pow2 patternCacheShards" unfolding is_pow2_def patternCacheShards_def by (rule exI [of _ 5]) simp
  then have "cache_index p ch = unat (prSeed p ch) mod patternCacheShards"
    unfolding cache_index_def by (rule and_pow2_minus_1) (simp add: patternCacheShards_def)
  then show ?thesis by (simp add: patternCacheShards_def)
qed

lemma subscribersFor_at_fields:
  assumes "subscribersFor_at order snap ch p = (ids, p')"
  shows "prSubs p' = prSubs p" "prByID p' = prByID p" "prScoped p' = prScoped p" "prSnap p' = prSnap p"
    "length (prCaches p') = length (prCaches p)"
  using assms by (auto simp: subscribersFor_at_def Let_def split: if_splits option.splits)

lemma cached_in:
  assumes "maps_ok p" shows "prCaches p ! cache_index p ch \<in> set (prCaches p)"
  using assms cache_index_less [of p ch] by (simp add: maps_ok_def)

lemma subscribersFor_at_caches:
  assumes "caches_ok H p" "maps_ok p" "snap = H (psGen snap)" "subscribersFor_at order snap ch p = (ids, p')"
  shows "caches_ok H p'"
proof -
  let ?k = "cache_index p ch"
  let ?good = "\<lambda>ch m. cmIds m = compute_match (prScoped p) (H (cmGen m)) ch"
  define entry where "entry = \<lparr>cmGen = psGen snap, cmIds = compute_match (prScoped p) snap ch\<rparr>"
  define c where "c = Cache_Set order ch entry (prCaches p ! ?k)"
  consider "p' = p" | "p' = p\<lparr>prCaches := (prCaches p)[?k := c]\<rparr>"
    using assms(4) by (auto simp: subscribersFor_at_def Let_def c_def entry_def split: if_splits option.splits)
  then show ?thesis
  proof cases
    case 2
    have e: "?good ch entry" using assms(3) by (simp add: entry_def)
    have "?good k m" if "Cache_Get c k = Some m" for k m
    proof (rule cache_memo.coherent_store [where P = ?good, OF _ e that [unfolded c_def]])
      fix k w assume "Cache_Get (prCaches p ! ?k) k = Some w"
      then show "?good k w" using assms(1) cached_in [OF assms(2)] unfolding caches_ok_def by blast
    qed
    moreover have "set (prCaches p') \<subseteq> insert c (set (prCaches p))"
      using 2 set_update_subset_insert [of "prCaches p" ?k c] by simp
    moreover have "prScoped p' = prScoped p" using 2 by simp
    ultimately show ?thesis using assms(1) unfolding caches_ok_def by auto
  qed (use assms(1) in simp)
qed

text \<open>The result is the match set of the snapshot the reader loaded, hit or miss.\<close>

lemma subscribersFor_at_result:
  assumes "caches_ok H p" "maps_ok p" "snap = H (psGen snap)"
  shows "fst (subscribersFor_at order snap ch p) = compute_match (prScoped p) snap ch"
proof -
  have "cmIds m = compute_match (prScoped p) snap ch"
    if "Cache_Get (prCaches p ! cache_index p ch) ch = Some m" "cmGen m = psGen snap" for m
    using that assms(1,3) cached_in [OF assms(2)] unfolding caches_ok_def by metis
  then show ?thesis
    by (auto simp: subscribersFor_at_def Let_def compute_match_no_entries split: option.splits)
qed

lemma caches_ok_cleared [simp]: "caches_ok H (publishEntryLocked pat p)" "caches_ok H (publishLocked p)"
  by (auto simp: caches_ok_def publishEntryLocked_def publishLocked_def swapLocked_def Let_def split: prod.splits)

lemma snap_match:
  assumes "patterns_ok p"
  shows "set (compute_match (prScoped p) (prSnap p) ch) =
    {i. \<exists>pat. (i, pat) \<in> pattern_rel p \<and> glob pat ch \<and> (prScoped p \<longrightarrow> Prefix pat = Prefix ch)}"
proof -
  have snap: "e \<in> set (psEntries (prSnap p)) \<longleftrightarrow>
      gget (prSubs p) (pePat e) = Some (peSubs e) \<and> peNS e = Prefix (pePat e)" for e
    using assms by (simp add: patterns_ok_def snap_of_def)
  have "\<exists>e \<in> set (psEntries (prSnap p)). pePat e = pat \<and> i \<in> set (peSubs e)"
    if "(i, pat) \<in> pattern_rel p" for i pat
    using that snap [of "\<lparr>pePat = pat, peNS = Prefix pat, peSubs = gl (prSubs p) pat\<rparr>"]
    by (force simp: pattern_rel_def gl_def split: option.splits)
  moreover have "(i, pePat e) \<in> pattern_rel p" if "e \<in> set (psEntries (prSnap p))" "i \<in> set (peSubs e)" for e i
    using that snap [of e] by (simp add: pattern_rel_def gl_def)
  ultimately show ?thesis
    using snap by (fastforce simp: compute_match_spec entry_matches_def Match_glob)
qed

section \<open>Readers racing mutators\<close>

text \<open>
  The lock serialises the mutators; readers take no lock. A reader loads the snapshot in one step
  and reads or fills the cache in a later one, with any number of mutations in between. The state
  adds to the registry the snapshots loaded by readers that have not finished, and two ghosts: the
  snapshot of every generation and the subscriptions made so far. A mutator step that would wrap
  the 64-bit generation is excluded.
\<close>

record race =
  rcReg :: patternRegistry
  rcHeld :: "patternSnapshot set"
  rcGens :: "u64 \<Rightarrow> patternSnapshot"
  rcRel :: "(SubscriberID \<times> string) set"

definition mutated :: "race \<Rightarrow> patternRegistry \<Rightarrow> (SubscriberID \<times> string) set \<Rightarrow> race" where
  "mutated s p R = s\<lparr>rcReg := p, rcGens := (rcGens s)(psGen (prSnap p) := prSnap p), rcRel := R\<rparr>"

inductive race_step :: "race \<Rightarrow> race \<Rightarrow> bool" where
  add: "psGen (prSnap (rcReg s)) + 1 \<noteq> 0 \<Longrightarrow> patterns_add i pat (rcReg s) = (ok, p) \<Longrightarrow>
    race_step s (mutated s p (insert (i, pat) (rcRel s)))"
| remove: "psGen (prSnap (rcReg s)) + 1 \<noteq> 0 \<Longrightarrow> patterns_remove i pat (rcReg s) = (ok, p) \<Longrightarrow>
    race_step s (mutated s p (rcRel s - {(i, pat)}))"
| removeAll: "psGen (prSnap (rcReg s)) + 1 \<noteq> 0 \<Longrightarrow> patterns_removeAll i (rcReg s) = (n, p) \<Longrightarrow>
    race_step s (mutated s p (rcRel s - {i} \<times> UNIV))"
| load: "race_step s (s\<lparr>rcHeld := insert (prSnap (rcReg s)) (rcHeld s)\<rparr>)"
| lookup: "snap \<in> rcHeld s \<Longrightarrow> subscribersFor_at order snap ch (rcReg s) = (ids, p) \<Longrightarrow>
    race_step s (s\<lparr>rcReg := p\<rparr>)"

definition race_start :: "(string \<Rightarrow> u64) \<Rightarrow> bool \<Rightarrow> race" where
  "race_start seed scoped = \<lparr>rcReg = newPatternRegistry seed scoped, rcHeld = {},
     rcGens = (\<lambda>_. \<lparr>psGen = 0, psEntries = []\<rparr>), rcRel = {}\<rparr>"

definition race_inv :: "bool \<Rightarrow> race \<Rightarrow> bool" where
  "race_inv scoped s \<longleftrightarrow> patterns_ok (rcReg s) \<and> caches_ok (rcGens s) (rcReg s)
     \<and> prScoped (rcReg s) = scoped \<and> pattern_rel (rcReg s) = rcRel s
     \<and> (\<forall>snap \<in> insert (prSnap (rcReg s)) (rcHeld s).
           snap = rcGens s (psGen snap) \<and> psGen snap \<le> psGen (prSnap (rcReg s)))"

lemma race_inv_start: "race_inv scoped (race_start seed scoped)"
  by (auto simp: race_inv_def race_start_def newPatternRegistry_def patterns_ok_def maps_ok_def gl_def
      snap_of_def caches_ok_def pattern_rel_def)

text \<open>A mutation either changes nothing or publishes the next generation with cleared caches.\<close>

lemma mutation_publishes:
  assumes "maps_ok q"
  shows "patterns_add i pat q = (ok, p) \<Longrightarrow> p = q \<or> (psGen (prSnap p) = psGen (prSnap q) + 1 \<and> (\<forall>H. caches_ok H p))"
    "patterns_remove i pat q = (ok, p) \<Longrightarrow> p = q \<or> (psGen (prSnap p) = psGen (prSnap q) + 1 \<and> (\<forall>H. caches_ok H p))"
    "patterns_removeAll i q = (n, p) \<Longrightarrow> p = q \<or> (psGen (prSnap p) = psGen (prSnap q) + 1 \<and> (\<forall>H. caches_ok H p))"
proof -
  show "patterns_add i pat q = (ok, p) \<Longrightarrow> p = q \<or> (psGen (prSnap p) = psGen (prSnap q) + 1 \<and> (\<forall>H. caches_ok H p))"
    by (auto simp: patterns_add_def split: if_splits)
  show "patterns_remove i pat q = (ok, p) \<Longrightarrow> p = q \<or> (psGen (prSnap p) = psGen (prSnap q) + 1 \<and> (\<forall>H. caches_ok H p))"
    using assms by (auto simp: patterns_remove_def removeLocked_eq split: if_splits)
  let ?pats = "gl (prByID q) i"
  have "prSnap (fold (\<lambda>pat q. snd (removeLocked i pat q)) ?pats q) = prSnap q"
    using removeLocked_fold [OF assms _ _ refl, of ?pats i] assms
    by (auto simp: maps_ok_def pattern_rel_def distinct_gl)
  then show "patterns_removeAll i q = (n, p) \<Longrightarrow> p = q \<or> (psGen (prSnap p) = psGen (prSnap q) + 1 \<and> (\<forall>H. caches_ok H p))"
    by (cases "?pats = []") (auto simp: patterns_removeAll_def Let_def)
qed

lemma race_inv_mutated:
  assumes "race_inv scoped s" "psGen (prSnap (rcReg s)) + 1 \<noteq> 0"
    and "p = rcReg s \<or> (psGen (prSnap p) = psGen (prSnap (rcReg s)) + 1 \<and> (\<forall>H. caches_ok H p))"
    and "patterns_ok p" "prScoped p = prScoped (rcReg s)" "pattern_rel p = R"
  shows "race_inv scoped (mutated s p R)"
proof -
  let ?g = "psGen (prSnap (rcReg s))"
  have inv: "caches_ok (rcGens s) (rcReg s)" "prScoped (rcReg s) = scoped"
    "\<And>snap. snap \<in> insert (prSnap (rcReg s)) (rcHeld s) \<Longrightarrow> snap = rcGens s (psGen snap) \<and> psGen snap \<le> ?g"
    using assms(1) unfolding race_inv_def by blast+
  show ?thesis
  proof (cases "p = rcReg s")
    case True
    then have "rcGens (mutated s p R) = rcGens s" using inv(3) by (simp add: mutated_def fun_upd_idem)
    then show ?thesis using assms(4-6) inv True by (auto simp: race_inv_def mutated_def)
  next
    case False
    with assms(3) have p: "psGen (prSnap p) = ?g + 1" "\<And>H. caches_ok H p" by auto
    have "psGen snap \<noteq> ?g + 1" "psGen snap \<le> ?g + 1" if "psGen snap \<le> ?g" for snap
      using that unat_plus_1_wrap [OF assms(2)] by (auto simp: word_le_nat_alt)
    then show ?thesis using assms(4-6) inv p by (auto simp: race_inv_def mutated_def)
  qed
qed

lemma race_inv_step:
  assumes "race_step s s'" "race_inv scoped s"
  shows "race_inv scoped s'"
proof -
  have ok: "patterns_ok (rcReg s)" and mp: "maps_ok (rcReg s)" and rel: "pattern_rel (rcReg s) = rcRel s"
    using assms(2) by (simp_all add: race_inv_def patterns_ok_def)
  from assms(1) show ?thesis
  proof cases
    case (add i pat b p)
    with patterns_add_spec [OF ok add(3)] mutation_publishes(1) [OF mp add(3)] rel assms(2)
    show ?thesis by (simp add: race_inv_mutated)
  next
    case (remove i pat b p)
    with patterns_remove_spec [OF ok remove(3)] mutation_publishes(2) [OF mp remove(3)] rel assms(2)
    show ?thesis by (simp add: race_inv_mutated)
  next
    case (removeAll i n p)
    with patterns_removeAll_spec [OF ok removeAll(3)] mutation_publishes(3) [OF mp removeAll(3)] rel assms(2)
    show ?thesis by (simp add: race_inv_mutated)
  next
    case load
    then show ?thesis using assms(2) by (auto simp: race_inv_def)
  next
    case (lookup snap order ch ids p)
    have "snap = rcGens s (psGen snap)" using lookup(2) assms(2) by (simp add: race_inv_def)
    then have "caches_ok (rcGens s) p"
      using subscribersFor_at_caches [OF _ mp _ lookup(3)] assms(2) by (simp add: race_inv_def)
    with subscribersFor_at_fields [OF lookup(3)] lookup(1) assms(2) show ?thesis
      by (simp add: race_inv_def patterns_ok_def maps_ok_def pattern_rel_def)
  qed
qed

lemma race_reachable_inv:
  assumes "race_step\<^sup>*\<^sup>* (race_start seed scoped) s"
  shows "race_inv scoped s"
  using assms by induction (auto simp: race_inv_start race_inv_step)

text \<open>
  (C2) No reader resurrects a stale match set: in every interleaving of wildcard subscribes and
  unsubscribes with lock-free readers, a reader that loads the snapshot now gets, without
  duplicates, exactly the subscribers holding a pattern that matches the channel (and, when the
  registry is scoped, lives in the channel's own namespace); and a reader that loaded an older
  snapshot gets the match set of the snapshot it loaded, whatever others have cached since.
\<close>

theorem subscribersFor_exact:
  assumes "race_step\<^sup>*\<^sup>* (race_start seed scoped) s"
  shows "set (fst (subscribersFor order ch (rcReg s))) =
      {i. \<exists>pat. (i, pat) \<in> rcRel s \<and> glob pat ch \<and> (scoped \<longrightarrow> Prefix pat = Prefix ch)}
    \<and> distinct (fst (subscribersFor order ch (rcReg s)))
    \<and> (\<forall>snap \<in> rcHeld s. fst (subscribersFor_at order snap ch (rcReg s)) = compute_match scoped snap ch)"
proof -
  have inv: "patterns_ok (rcReg s)" "maps_ok (rcReg s)" "caches_ok (rcGens s) (rcReg s)"
    "prScoped (rcReg s) = scoped" "pattern_rel (rcReg s) = rcRel s"
    "\<And>snap. snap \<in> insert (prSnap (rcReg s)) (rcHeld s) \<Longrightarrow> snap = rcGens s (psGen snap)"
    using race_reachable_inv [OF assms] by (auto simp: race_inv_def patterns_ok_def)
  have res: "fst (subscribersFor_at order snap ch (rcReg s)) = compute_match scoped snap ch"
    if "snap \<in> insert (prSnap (rcReg s)) (rcHeld s)" for snap
    using subscribersFor_at_result [OF inv(3,2) inv(6) [OF that]] inv(4) by simp
  show ?thesis
    using res snap_match [OF inv(1), of ch] compute_match_spec(2) inv(4,5)
    by (simp add: subscribersFor_def)
qed

theorem subscribersFor_exact_witness:
  "\<exists>s. race_step\<^sup>*\<^sup>* (race_start (\<lambda>_. 0) True) s
     \<and> set (fst (subscribersFor [] ''a:x'' (rcReg s))) = {7}"
proof -
  let ?s = "race_start (\<lambda>_. 0) True"
  obtain ok p where a: "patterns_add 7 ''a:*'' (rcReg ?s) = (ok, p)" by (cases "patterns_add 7 ''a:*'' (rcReg ?s)")
  have "psGen (prSnap (rcReg ?s)) + 1 \<noteq> 0" by (simp add: race_start_def newPatternRegistry_def)
  then have "race_step ?s (mutated ?s p (insert (7, ''a:*'') (rcRel ?s)))" using a by (rule race_step.add)
  then have r: "race_step\<^sup>*\<^sup>* ?s (mutated ?s p (insert (7, ''a:*'') (rcRel ?s)))" by (rule r_into_rtranclp)
  have "glob ''a:*'' ''a:x''" "Prefix ''a:*'' = Prefix ''a:x''"
    by (simp_all add: star_char_def Prefix_def colon_def)
  then have "set (fst (subscribersFor [] ''a:x'' (rcReg (mutated ?s p (insert (7, ''a:*'') (rcRel ?s)))))) = {7}"
    using subscribersFor_exact [OF r, of "[]" "''a:x''"] by (simp add: mutated_def race_start_def del: glob.simps)
  with r show ?thesis by blast
qed

end
