(* ===== verification/Fanout.thy ===== *)
theory Fanout
  imports Delivery "HOL-Library.Multiset"
begin

text \<open>
  Model of \<^verbatim>\<open>internal/engine/fanout.go\<close>: the parallel fan-out of one publication. The subscriber
  slice is cut into chunks; chunk 0 runs on the publishing goroutine, the others on pool workers
  or, when the pool is shutting down, inline. Each chunk is a job that runs the delivery loop over
  its ids and counts the answers; the publisher waits for all of them and adds the counts up.

  Jobs run concurrently and share the transport's world. A \<open>sched\<close> lists which job makes the next
  delivery call; jobs it leaves unfinished are completed in order, as \<^verbatim>\<open>wg.Wait\<close> demands. Every
  interleaving the workers can produce is such a list, the inline execution during shutdown
  included.
\<close>

record fanoutJob =
  fjChunk :: "SubscriberID list"
  fjDelivered :: nat
  fjDropped :: nat

definition new_job :: "SubscriberID list \<Rightarrow> fanoutJob" where
  "new_job ids = \<lparr>fjChunk = ids, fjDelivered = 0, fjDropped = 0\<rparr>"

text \<open>One iteration of a job's delivery loop.\<close>

definition job_step :: "'w DeliveryFunc \<Rightarrow> Delivery \<Rightarrow> SubscriberID \<Rightarrow> fanoutJob \<Rightarrow> 'w \<Rightarrow> fanoutJob \<times> 'w" where
  "job_step deliver d exclude job w =
     (case fjChunk job of
        [] \<Rightarrow> (job, w)
      | i # rest \<Rightarrow>
          if i = exclude then (job\<lparr>fjChunk := rest\<rparr>, w)
          else (case deliver i d w of
                  (True, w') \<Rightarrow> (job\<lparr>fjChunk := rest, fjDelivered := fjDelivered job + 1\<rparr>, w')
                | (False, w') \<Rightarrow> (job\<lparr>fjChunk := rest, fjDropped := fjDropped job + 1\<rparr>, w')))"

fun run_schedule :: "'w DeliveryFunc \<Rightarrow> Delivery \<Rightarrow> SubscriberID \<Rightarrow> nat list \<Rightarrow> fanoutJob list \<Rightarrow> 'w
    \<Rightarrow> fanoutJob list \<times> 'w" where
  "run_schedule deliver d exclude [] jobs w = (jobs, w)"
| "run_schedule deliver d exclude (k # sched) jobs w =
     (if k < length jobs then
        (case job_step deliver d exclude (jobs ! k) w of
           (job, w') \<Rightarrow> run_schedule deliver d exclude sched (jobs[k := job]) w')
      else run_schedule deliver d exclude sched jobs w)"

text \<open>A worker's loop over a whole chunk, as \<^verbatim>\<open>worker\<close> runs it.\<close>

definition worker :: "'w DeliveryFunc \<Rightarrow> Delivery \<Rightarrow> SubscriberID \<Rightarrow> fanoutJob \<Rightarrow> 'w \<Rightarrow> fanoutJob \<times> 'w" where
  "worker deliver d exclude job w =
     (case deliver_loop deliver d exclude (fjChunk job) (fjDelivered job) (fjDropped job) w of
        ((del, drp), w') \<Rightarrow> (\<lparr>fjChunk = [], fjDelivered = del, fjDropped = drp\<rparr>, w'))"

fun finish_jobs :: "'w DeliveryFunc \<Rightarrow> Delivery \<Rightarrow> SubscriberID \<Rightarrow> fanoutJob list \<Rightarrow> 'w \<Rightarrow> fanoutJob list \<times> 'w" where
  "finish_jobs deliver d exclude [] w = ([], w)"
| "finish_jobs deliver d exclude (job # jobs) w =
     (case worker deliver d exclude job w of
        (job', w') \<Rightarrow> (case finish_jobs deliver d exclude jobs w' of (jobs', w'') \<Rightarrow> (job' # jobs', w'')))"

definition chunk_of :: "SubscriberID list \<Rightarrow> nat \<Rightarrow> nat \<Rightarrow> SubscriberID list" where
  "chunk_of subs chunkSize i =
     (let start = i * chunkSize; stop = min (start + chunkSize) (length subs)
      in take (stop - start) (drop start subs))"

text \<open>
  \<open>DivideByZero\<close> is the run-time panic of an integer division by zero, \<open>IndexOutOfRange\<close> that of
  reslicing the pooled results array beyond its capacity, the worker count.
\<close>

definition parallelFanout :: "nat \<Rightarrow> nat list \<Rightarrow> SubscriberID list \<Rightarrow> Delivery \<Rightarrow> SubscriberID \<Rightarrow> 'w DeliveryFunc
    \<Rightarrow> 'w \<Rightarrow> ((nat \<times> nat) \<times> 'w) result" where
  "parallelFanout workers sched subscribers d exclude deliver w =
     (let n = length subscribers
      in if workers = 0 then Inl DivideByZero
         else
           (let chunkSize = (n + workers - 1) div workers
            in if chunkSize = 0 then Inl DivideByZero
               else
                 (let numChunks = (n + chunkSize - 1) div chunkSize
                  in if workers < numChunks then Inl IndexOutOfRange
                     else
                       (let jobs = map (new_job \<circ> chunk_of subscribers chunkSize) [0..<numChunks];
                            (jobs1, w1) = run_schedule deliver d exclude sched jobs w;
                            (jobs2, w2) = finish_jobs deliver d exclude jobs1 w1
                        in Inr ((sum_list (map fjDelivered jobs2), sum_list (map fjDropped jobs2)), w2)))))"

text \<open>Replacing one element of a list of parts; the relay's workers use it too.\<close>

lemma mset_concat_update:
  "i < length xs \<Longrightarrow> mset (concat (map f (xs[i := x]))) + mset (f (xs ! i)) = mset (concat (map f xs)) + mset (f x)"
proof (induction xs arbitrary: i)
  case (Cons y ys)
  then show ?case by (cases i) (auto simp: ac_simps)
qed simp

section \<open>The chunks partition the subscribers\<close>

lemma chunk_bounds:
  fixes n workers :: nat
  assumes "0 < n" "0 < workers"
  defines "cs \<equiv> (n + workers - 1) div workers"
  defines "nc \<equiv> (n + cs - 1) div cs"
  shows "0 < cs" "nc \<le> workers" "n \<le> nc * cs" "0 < nc" "(nc - 1) * cs < n"
proof -
  have "workers \<le> n + workers - 1" using assms(1) by simp
  then show cs: "0 < cs" using assms(2) by (simp add: cs_def div_greater_zero_iff)
  have n_le: "n \<le> workers * cs"
  proof -
    have "n + workers - 1 < workers * (cs + 1)"
      unfolding cs_def using assms(2) by (metis add.commute dividend_less_times_div mult_Suc_right plus_1_eq_Suc)
    then show ?thesis by (simp add: algebra_simps)
  qed
  have nc_upper: "n + cs - 1 < (nc + 1) * cs"
    unfolding nc_def using cs by (metis add.commute dividend_less_div_times mult_Suc plus_1_eq_Suc)
  then show "n \<le> nc * cs" using cs by (simp add: algebra_simps)
  have nc_lower: "nc * cs \<le> n + cs - 1" unfolding nc_def by (rule div_times_less_eq_dividend)
  show pos: "0 < nc" using \<open>n \<le> nc * cs\<close> assms(1) by (cases nc) auto
  show "(nc - 1) * cs < n" using nc_lower cs assms(1) by (simp add: diff_mult_distrib)
  show "nc \<le> workers"
  proof (rule ccontr)
    assume "\<not> nc \<le> workers"
    then have "(workers + 1) * cs \<le> nc * cs" by (intro mult_le_mono1) simp
    then show False using nc_lower n_le cs by (simp add: algebra_simps)
  qed
qed

lemma chunk_of_eq: "i * cs \<le> length subs \<Longrightarrow> chunk_of subs cs i = take cs (drop (i * cs) subs)"
  by (simp add: chunk_of_def Let_def min_def)

lemma concat_chunks_take:
  "k * cs \<le> length subs + cs \<Longrightarrow> concat (map (chunk_of subs cs) [0..<k]) = take (k * cs) subs"
proof (induction k)
  case (Suc k)
  then have "concat (map (chunk_of subs cs) [0..<k]) = take (k * cs) subs" by simp
  moreover have "chunk_of subs cs k = take cs (drop (k * cs) subs)"
    using Suc.prems by (intro chunk_of_eq) simp
  ultimately show ?case by (simp add: take_add [symmetric] add.commute)
qed simp

lemma concat_chunks:
  assumes "0 < length subs" "0 < workers"
  defines "cs \<equiv> (length subs + workers - 1) div workers"
  defines "nc \<equiv> (length subs + cs - 1) div cs"
  shows "concat (map (chunk_of subs cs) [0..<nc]) = subs"
proof -
  note b = chunk_bounds [OF assms(1,2), folded cs_def, folded nc_def]
  have "nc * cs \<le> length subs + cs" using b(4,5) by (simp add: diff_mult_distrib)
  then show ?thesis using concat_chunks_take [of nc cs subs] b(3) by simp
qed

section \<open>What a fan-out delivers\<close>

text \<open>The ids a set of jobs has yet to visit, and the calls still to be made.\<close>

definition todo :: "SubscriberID \<Rightarrow> fanoutJob list \<Rightarrow> SubscriberID multiset" where
  "todo exclude jobs = mset (receivers exclude (concat (map fjChunk jobs)))"

definition counted :: "fanoutJob list \<Rightarrow> nat \<times> nat" where
  "counted jobs = (sum_list (map fjDelivered jobs), sum_list (map fjDropped jobs))"

lemma todo_Nil [simp]: "todo exclude [] = {#}"
  by (simp add: todo_def)

lemma todo_Cons: "todo exclude (j # jobs) = mset (receivers exclude (fjChunk j)) + todo exclude jobs"
  by (simp add: todo_def)

lemma todo_append: "todo exclude (js @ js') = todo exclude js + todo exclude js'"
  by (simp add: todo_def)

text \<open>
  The accounting invariant on the recording transport: what has been called together with what is
  still to be called never changes, and the counters are the accepted and the refused calls.
\<close>

definition accounts :: "(SubscriberID \<Rightarrow> bool) \<Rightarrow> Delivery \<Rightarrow> SubscriberID multiset \<Rightarrow> dlog
    \<Rightarrow> SubscriberID multiset \<Rightarrow> nat \<times> nat \<Rightarrow> dlog \<Rightarrow> bool" where
  "accounts accept d all w0 rest cnt w \<longleftrightarrow>
     (\<exists>calls. w = w0 @ map (\<lambda>i. (i, d)) calls \<and> mset calls + rest = all
        \<and> cnt = (length (filter accept calls), length (filter (Not \<circ> accept) calls)))"

lemma accounts_start: "accounts accept d all w all (0, 0) w"
  by (auto simp: accounts_def intro: exI [of _ "[]"])

lemma accounts_calls:
  assumes "accounts accept d all w0 (mset extra + rest) (a, b) w"
  shows "accounts accept d all w0 rest
    (a + length (filter accept extra), b + length (filter (Not \<circ> accept) extra)) (w @ map (\<lambda>i. (i, d)) extra)"
proof -
  from assms obtain calls where "w = w0 @ map (\<lambda>i. (i, d)) calls" "mset calls + (mset extra + rest) = all"
    "(a, b) = (length (filter accept calls), length (filter (Not \<circ> accept) calls))"
    by (auto simp: accounts_def)
  then show ?thesis by (auto simp: accounts_def intro!: exI [of _ "calls @ extra"])
qed

lemma job_step_calls:
  assumes "job_step (recorder accept) d exclude job w = (job', w')"
  obtains extra where "mset (receivers exclude (fjChunk job)) = mset extra + mset (receivers exclude (fjChunk job'))"
    "fjDelivered job' = fjDelivered job + length (filter accept extra)"
    "fjDropped job' = fjDropped job + length (filter (Not \<circ> accept) extra)"
    "w' = w @ map (\<lambda>i. (i, d)) extra"
proof (cases "fjChunk job")
  case Nil
  with assms that [of "[]"] show ?thesis by (simp add: job_step_def)
next
  case (Cons i rest)
  show ?thesis
  proof (cases "i = exclude")
    case True
    with assms Cons that [of "[]"] show ?thesis by (auto simp: job_step_def receivers_def)
  next
    case False
    with assms Cons that [of "[i]"] show ?thesis
      by (auto simp: job_step_def receivers_def recorder_def split: bool.splits if_splits)
  qed
qed

text \<open>Replacing job \<open>k\<close> by one that has made the calls \<open>extra\<close> keeps the account.\<close>

lemma accounts_replace:
  assumes "accounts accept d all w0 (todo exclude jobs) (counted jobs) w" "k < length jobs"
    and "mset (receivers exclude (fjChunk (jobs ! k))) = mset extra + mset (receivers exclude (fjChunk job'))"
    and "fjDelivered job' = fjDelivered (jobs ! k) + length (filter accept extra)"
    and "fjDropped job' = fjDropped (jobs ! k) + length (filter (Not \<circ> accept) extra)"
  shows "accounts accept d all w0 (todo exclude (jobs[k := job'])) (counted (jobs[k := job']))
    (w @ map (\<lambda>i. (i, d)) extra)"
proof -
  have split: "jobs = take k jobs @ jobs ! k # drop (Suc k) jobs" using assms(2) by (rule id_take_nth_drop)
  have upd: "jobs[k := job'] = take k jobs @ job' # drop (Suc k) jobs" using assms(2) by (rule upd_conv_take_nth_drop)
  have "todo exclude jobs = mset extra + todo exclude (jobs[k := job'])"
    by (subst split, unfold upd) (simp add: todo_append todo_Cons assms(3))
  moreover have "counted (jobs[k := job']) =
      (fst (counted jobs) + length (filter accept extra), snd (counted jobs) + length (filter (Not \<circ> accept) extra))"
    by (subst (2 3) split, unfold upd) (simp add: counted_def assms(4,5))
  ultimately show ?thesis using accounts_calls [of accept d all w0 extra _ "fst (counted jobs)" "snd (counted jobs)"] assms(1) by simp
qed

lemma run_schedule_accounts:
  assumes "accounts accept d all w0 (todo exclude jobs) (counted jobs) w"
    and "run_schedule (recorder accept) d exclude sched jobs w = (jobs', w')"
  shows "accounts accept d all w0 (todo exclude jobs') (counted jobs') w'"
  using assms
proof (induction sched arbitrary: jobs w)
  case (Cons k sched)
  show ?case
  proof (cases "k < length jobs")
    case True
    obtain job w1 where j: "job_step (recorder accept) d exclude (jobs ! k) w = (job, w1)"
      by (cases "job_step (recorder accept) d exclude (jobs ! k) w")
    from job_step_calls [OF j] accounts_replace [OF Cons.prems(1) True]
    have "accounts accept d all w0 (todo exclude (jobs[k := job])) (counted (jobs[k := job])) w1" by metis
    with Cons.IH Cons.prems(2) True j show ?thesis by simp
  next
    case False
    with Cons show ?thesis by simp
  qed
qed simp

lemma finish_jobs_accounts:
  assumes "accounts accept d all w0 (todo exclude (pre @ jobs)) (counted (pre @ jobs)) w"
    and "finish_jobs (recorder accept) d exclude jobs w = (jobs', w')"
  shows "accounts accept d all w0 (todo exclude (pre @ jobs')) (counted (pre @ jobs')) w'
    \<and> (\<forall>j \<in> set jobs'. fjChunk j = [])"
  using assms
proof (induction jobs arbitrary: pre jobs' w)
  case (Cons job jobs)
  let ?rs = "receivers exclude (fjChunk job)"
  define job1 where "job1 = \<lparr>fjChunk = [], fjDelivered = fjDelivered job + length (filter accept ?rs),
    fjDropped = fjDropped job + length (filter (Not \<circ> accept) ?rs)\<rparr>"
  have wk: "worker (recorder accept) d exclude job w = (job1, w @ map (\<lambda>i. (i, d)) ?rs)"
    by (simp add: worker_def deliver_loop_recorder job1_def)
  have "accounts accept d all w0 (todo exclude ((pre @ job # jobs)[length pre := job1]))
      (counted ((pre @ job # jobs)[length pre := job1])) (w @ map (\<lambda>i. (i, d)) ?rs)"
    by (rule accounts_replace [OF Cons.prems(1)]) (simp_all add: job1_def)
  then have acc: "accounts accept d all w0 (todo exclude ((pre @ [job1]) @ jobs)) (counted ((pre @ [job1]) @ jobs))
      (w @ map (\<lambda>i. (i, d)) ?rs)" by (simp add: list_update_append)
  obtain js where "finish_jobs (recorder accept) d exclude jobs (w @ map (\<lambda>i. (i, d)) ?rs) = (js, w')"
    and jobs': "jobs' = job1 # js"
    using Cons.prems(2) wk by (auto split: prod.splits)
  from Cons.IH [OF acc this(1)] show ?case by (simp add: jobs' job1_def)
qed simp

lemma todo_done: "\<forall>j \<in> set jobs. fjChunk j = [] \<Longrightarrow> todo exclude jobs = {#}"
  by (induction jobs) (simp_all add: todo_Cons)

lemma parallelFanout_exact_run:
  assumes "subscribers \<noteq> []" and "0 < workers"
  shows "\<exists>calls. parallelFanout workers sched subscribers d exclude (recorder accept) w0 =
      Inr ((length (filter accept calls), length (filter (Not \<circ> accept) calls)), w0 @ map (\<lambda>i. (i, d)) calls)
    \<and> mset calls = mset (receivers exclude subscribers)"
proof -
  let ?cs = "(length subscribers + workers - 1) div workers"
  let ?nc = "(length subscribers + ?cs - 1) div ?cs"
  let ?jobs = "map (new_job \<circ> chunk_of subscribers ?cs) [0..<?nc]"
  let ?all = "mset (receivers exclude subscribers)"
  have n: "0 < length subscribers" using assms(1) by simp
  note b = chunk_bounds [OF n assms(2)]
  obtain jobs1 w1 where r: "run_schedule (recorder accept) d exclude sched ?jobs w0 = (jobs1, w1)"
    by (cases "run_schedule (recorder accept) d exclude sched ?jobs w0")
  obtain jobs2 w2 where f: "finish_jobs (recorder accept) d exclude jobs1 w1 = (jobs2, w2)"
    by (cases "finish_jobs (recorder accept) d exclude jobs1 w1")
  have "todo exclude ?jobs = ?all"
    using concat_chunks [OF n assms(2)] by (simp add: todo_def new_job_def comp_def)
  moreover have "counted ?jobs = (0, 0)" by (simp add: counted_def new_job_def comp_def)
  ultimately have "accounts accept d ?all w0 (todo exclude ?jobs) (counted ?jobs) w0" by (simp add: accounts_start)
  from run_schedule_accounts [OF this r] have "accounts accept d ?all w0 (todo exclude jobs1) (counted jobs1) w1" .
  with finish_jobs_accounts [of accept d ?all w0 exclude "[]" jobs1 w1 jobs2 w2] f
  have acc: "accounts accept d ?all w0 (todo exclude jobs2) (counted jobs2) w2"
    and fin: "\<forall>j \<in> set jobs2. fjChunk j = []" by simp_all
  note fin = todo_done [OF fin, of exclude]
  from acc fin obtain calls where c: "w2 = w0 @ map (\<lambda>i. (i, d)) calls" "mset calls = ?all"
    "counted jobs2 = (length (filter accept calls), length (filter (Not \<circ> accept) calls))"
    by (auto simp: accounts_def)
  have "parallelFanout workers sched subscribers d exclude (recorder accept) w0 = Inr (counted jobs2, w2)"
    using assms(2) b(1,2) r f by (simp add: parallelFanout_def Let_def counted_def not_less)
  with c show ?thesis by auto
qed

text \<open>
  Parallel fan-out is exact under every interleaving: with at least one subscriber and one
  worker the call returns, and it has called the transport exactly once for each subscriber other
  than the excluded one (as often as it is listed), for nobody else, with this delivery; the two
  results are the numbers of accepted and of refused calls.
\<close>

theorem parallelFanout_exact:
  assumes "subscribers \<noteq> []" and "0 < workers"
  shows "\<exists>calls. parallelFanout workers sched subscribers d exclude (recorder accept) w0 =
      Inr ((length (filter accept calls), length (filter (Not \<circ> accept) calls)), w0 @ map (\<lambda>i. (i, d)) calls)
    \<and> mset calls = mset (receivers exclude subscribers)"
  using assms by (rule parallelFanout_exact_run)

theorem parallelFanout_exact_witness:
  "\<exists>calls. parallelFanout 2 [1, 0] [10, 11, 12] \<lparr>dChannel = ''c'', dData = [], dOffset = 1, dEpoch = 1, dFrame = None\<rparr>
      11 (recorder (\<lambda>i. i = 10)) [] =
      Inr ((length (filter (\<lambda>i. i = 10) calls), length (filter (Not \<circ> (\<lambda>i. i = 10)) calls)),
        map (\<lambda>i. (i, \<lparr>dChannel = ''c'', dData = [], dOffset = 1, dEpoch = 1, dFrame = None\<rparr>)) calls)
    \<and> mset calls = {#10, 12#}"
  using parallelFanout_exact [of "[10, 11, 12]" 2 "[1, 0]"
      "\<lparr>dChannel = ''c'', dData = [], dOffset = 1, dEpoch = 1, dFrame = None\<rparr>" 11 "\<lambda>i. i = 10" "[]"]
  by (simp add: receivers_def)

text \<open>With no subscribers the chunk size is zero and the chunk count divides by it.\<close>

lemma parallelFanout_empty: "0 < workers \<Longrightarrow> parallelFanout workers sched [] d exclude deliver w = Inl DivideByZero"
  by (simp add: parallelFanout_def)

end
