(* ===== verification/Engine.thy ===== *)
theory Engine
  imports Shards Sub_Index Pattern_Registry Fanout
begin

text \<open>
  Model of \<^verbatim>\<open>internal/engine/engine.go\<close> with the configuration of \<^verbatim>\<open>internal/engine/options.go\<close>: the
  engine's state and every operation on it, each as one function on the engine record, composed of
  the channel, shard, index, registry and fan-out operations the way the code composes them.

  The clock reading, the epoch drawn, the order in which the runtime iterates an evicting cache
  and the worker schedule are arguments. The transport's world is threaded through the deliveries.
  A channel leaves the pool and returns to it by value: the table owns the live channels and
  \<open>ePool\<close> the free ones. The 64-bit statistics counters are unbounded integers. Metrics
  observation and logging are left out.
\<close>

section \<open>Configuration\<close>

record econfig =
  cfgNumShards :: int
  cfgFanoutThreshold :: int
  cfgFanoutWorkers :: int
  cfgHistSize :: int
  cfgHistTTL :: int
  cfgNamespaces :: "Registry option"

definition defaultConfig :: "int \<Rightarrow> econfig" where
  "defaultConfig gomaxprocs =
     (let n = nextPowerOf2 (gomaxprocs * 4)
      in \<lparr>cfgNumShards = (if n < defaultNumShards then defaultNumShards else n),
          cfgFanoutThreshold = 100000, cfgFanoutWorkers = 4, cfgHistSize = 0, cfgHistTTL = 0,
          cfgNamespaces = None\<rparr>)"

definition WithShards :: "int \<Rightarrow> econfig \<Rightarrow> econfig" where
  "WithShards n c = (if n > 0 then c\<lparr>cfgNumShards := nextPowerOf2 n\<rparr> else c)"

definition WithHistory :: "int \<Rightarrow> int \<Rightarrow> econfig \<Rightarrow> econfig" where
  "WithHistory sz ttl c = c\<lparr>cfgHistSize := sz, cfgHistTTL := ttl\<rparr>"

definition WithNamespaces :: "Registry option \<Rightarrow> econfig \<Rightarrow> econfig" where
  "WithNamespaces r c = c\<lparr>cfgNamespaces := r\<rparr>"

definition WithFanoutThreshold :: "int \<Rightarrow> econfig \<Rightarrow> econfig" where
  "WithFanoutThreshold n c = (if n \<ge> 0 then c\<lparr>cfgFanoutThreshold := n\<rparr> else c)"

definition WithFanoutWorkers :: "int \<Rightarrow> econfig \<Rightarrow> econfig" where
  "WithFanoutWorkers n c = (if n > 0 then c\<lparr>cfgFanoutWorkers := n\<rparr> else c)"

section \<open>State\<close>

datatype engine_error =
    ErrAlreadySubscribed | ErrUnknownNamespace | ErrChannelFull | ErrPublishDenied | ErrWildcardDenied

record PublishResult =
  resChannel :: string
  resOffset :: u64
  resEpoch :: u64
  resDelivered :: int
  resDropped :: int

record EngineStats =
  stChannels :: int
  stTotalSubscribers :: int
  stPublished :: int
  stDelivered :: int
  stDropped :: int
  stSubscribeOps :: int
  stUnsubscribeOps :: int
  stMessageBytes :: int

record Engine =
  eConfig :: econfig
  eShards :: "Shard list"
  eSubs :: subscriptions
  ePatterns :: patternRegistry
  eHash :: hashfn
  ePool :: "Channel list"
  eChannelCount :: int
  eSubscriptionCount :: int
  ePatternSubs :: int
  eSubscribeOps :: int
  eUnsubscribeOps :: int

text \<open>\<^verbatim>\<open>New\<close> after the options were applied; \<open>hash\<close> and \<open>seed\<close> are the two seeded hash functions.\<close>

definition New :: "hashfn \<Rightarrow> hashfn \<Rightarrow> econfig \<Rightarrow> Engine" where
  "New hash seed cfg =
     \<lparr>eConfig = cfg, eShards = replicate (nat (cfgNumShards cfg)) empty_shard, eSubs = newSubscriptions,
      ePatterns = newPatternRegistry seed (cfgNamespaces cfg \<noteq> None), eHash = hash, ePool = [],
      eChannelCount = 0, eSubscriptionCount = 0, ePatternSubs = 0, eSubscribeOps = 0, eUnsubscribeOps = 0\<rparr>"

definition lookup :: "string \<Rightarrow> Engine \<Rightarrow> Channel option" where
  "lookup name e = find_channel (eHash e) name (eShards e)"

definition channelSettings :: "string \<Rightarrow> Engine \<Rightarrow> Settings \<times> bool" where
  "channelSettings name e =
     (case cfgNamespaces (eConfig e) of
        Some r \<Rightarrow> Resolve r name
      | None \<Rightarrow> (zero_settings\<lparr>HistorySize := cfgHistSize (eConfig e),
                               HistoryTTL := cfgHistTTL (eConfig e), AllowPublish := True\<rparr>, True))"

definition QoSPolicy :: "string \<Rightarrow> Engine \<Rightarrow> bool \<times> int \<times> int" where
  "QoSPolicy channel e =
     (case cfgNamespaces (eConfig e) of
        None \<Rightarrow> (False, 0, 0)
      | Some r \<Rightarrow>
          (case Resolve r channel of (s, ok) \<Rightarrow>
             if \<not> ok \<or> QoS s \<noteq> AtLeastOnce then (False, 0, 0)
             else (True, RedeliveryTimeout s, MaxRedeliveries s)))"

definition CheckPublish :: "string \<Rightarrow> Engine \<Rightarrow> engine_error option" where
  "CheckPublish channel e =
     (case cfgNamespaces (eConfig e) of
        None \<Rightarrow> None
      | Some r \<Rightarrow>
          (case Resolve r channel of (s, ok) \<Rightarrow>
             if \<not> ok then Some ErrUnknownNamespace
             else if \<not> AllowPublish s then Some ErrPublishDenied
             else None))"

section \<open>Creating and dropping channels\<close>

text \<open>\<^verbatim>\<open>channelPool.Get\<close>: a pooled channel if there is one.\<close>

definition pool_get :: "Engine \<Rightarrow> Channel \<times> Engine" where
  "pool_get e = (case ePool e of [] \<Rightarrow> (zero_channel, e) | c # cs \<Rightarrow> (c, e\<lparr>ePool := cs\<rparr>))"

definition createChannelLocked :: "int \<Rightarrow> u64 \<Rightarrow> string \<Rightarrow> Settings \<Rightarrow> Engine \<Rightarrow> Channel \<times> Engine" where
  "createChannelLocked now ep name settings e0 =
     (let (pooled, e) = pool_get e0;
          c0 = NewChannel name ep pooled;
          c1 = (if HistorySize settings > 0
                then c0\<lparr>chHist := Some (newHistory (nat (HistorySize settings)) (HistoryTTL settings))\<rparr>
                else c0);
          c2 = c1\<lparr>chMaxSubs := MaxSubscribers settings, chFanout := Fanout settings,
                  chIdleReap := IdleReap settings, chLastActive := now\<rparr>
      in (c2, e\<lparr>eShards := table_insert (eHash e) name c2 (eShards e),
               eChannelCount := eChannelCount e + 1\<rparr>))"

text \<open>Writing a channel back through its pointer.\<close>

definition store :: "string \<Rightarrow> Channel \<Rightarrow> Engine \<Rightarrow> Engine" where
  "store name c e = e\<lparr>eShards := table_update (eHash e) name c (eShards e)\<rparr>"

text \<open>
  \<^verbatim>\<open>delete(s.channels, name); e.channelCount.Add(-1); s.maybeRebuild(); recycleChannel(ch)\<close>, the
  four lines every removal runs.
\<close>

definition drop_channel :: "string \<Rightarrow> Channel \<Rightarrow> Engine \<Rightarrow> Engine" where
  "drop_channel name ch e =
     (case recycleChannel ch of (returned, c) \<Rightarrow>
        e\<lparr>eShards := table_delete (eHash e) name (eShards e), eChannelCount := eChannelCount e - 1,
          ePool := (if returned then c # ePool e else ePool e)\<rparr>)"

definition drained :: "Channel \<Rightarrow> bool" where
  "drained ch \<longleftrightarrow> SubscriberCount ch = 0 \<and> chHist ch = None"

definition reapEmptyChannels :: "Engine \<Rightarrow> Engine" where
  "reapEmptyChannels e =
     fold (\<lambda>k e. fold (\<lambda>(name, ch) e. if drained ch then drop_channel name ch e else e)
                      (shChannels (eShards e ! k)) e)
          [0..<length (eShards e)] e"

definition dropDrainedChannel :: "string \<Rightarrow> Engine \<Rightarrow> Engine" where
  "dropDrainedChannel name e =
     (case lookup name e of
        Some ch \<Rightarrow> if drained ch then drop_channel name ch e else e
      | None \<Rightarrow> e)"

section \<open>Subscribing\<close>

definition SubscribePriority :: "int \<Rightarrow> u64 \<Rightarrow> SubscriberID \<Rightarrow> string \<Rightarrow> int \<Rightarrow> Engine \<Rightarrow> engine_error option \<times> Engine" where
  "SubscribePriority now ep sid name prio e0 =
     (let e = e0\<lparr>eSubscribeOps := eSubscribeOps e0 + 1\<rparr>;
          attach = (\<lambda>ch e.
            if chMaxSubs ch > 0 \<and> SubscriberCount ch \<ge> chMaxSubs ch then (Some ErrChannelFull, e)
            else
              (case Channel_Subscribe sid ch of
                 (False, _) \<Rightarrow> (Some ErrAlreadySubscribed, e)
               | (True, ch1) \<Rightarrow>
                   (let ch2 = (if chFanout ch1 = Priority then setPriority sid prio ch1 else ch1);
                        e1 = store name ch2 e
                    in (None, e1\<lparr>eSubs := subscriptions_Add sid name (eSubs e1),
                                 eSubscriptionCount := eSubscriptionCount e1 + 1\<rparr>))))
      in case lookup name e of
           Some ch \<Rightarrow> attach ch e
         | None \<Rightarrow>
             (case channelSettings name e of (settings, known) \<Rightarrow>
                if \<not> known then (Some ErrUnknownNamespace, e)
                else (case createChannelLocked now ep name settings e of (ch, e1) \<Rightarrow> attach ch e1)))"

definition Subscribe :: "int \<Rightarrow> u64 \<Rightarrow> SubscriberID \<Rightarrow> string \<Rightarrow> Engine \<Rightarrow> engine_error option \<times> Engine" where
  "Subscribe now ep sid name e = SubscribePriority now ep sid name 0 e"

definition SubscribePattern :: "SubscriberID \<Rightarrow> string \<Rightarrow> Engine \<Rightarrow> engine_error option \<times> Engine" where
  "SubscribePattern sid pat e =
     (let denied =
        (case cfgNamespaces (eConfig e) of
           None \<Rightarrow> None
         | Some r \<Rightarrow>
             (case Split pat of (ns, _, _) \<Rightarrow>
                if IsPattern ns then Some ErrWildcardDenied
                else (case Resolve r pat of (settings, known) \<Rightarrow>
                        if \<not> known then Some ErrUnknownNamespace
                        else if \<not> AllowWildcard settings then Some ErrWildcardDenied
                        else None)))
      in case denied of
           Some err \<Rightarrow> (Some err, e)
         | None \<Rightarrow>
             (let e1 = e\<lparr>eSubscribeOps := eSubscribeOps e + 1\<rparr>
              in case patterns_add sid pat (ePatterns e1) of
                   (False, p) \<Rightarrow> (Some ErrAlreadySubscribed, e1\<lparr>ePatterns := p\<rparr>)
                 | (True, p) \<Rightarrow> (None, e1\<lparr>ePatterns := p, ePatternSubs := ePatternSubs e1 + 1,
                                         eSubscriptionCount := eSubscriptionCount e1 + 1\<rparr>)))"

section \<open>Unsubscribing\<close>

definition UnsubscribePattern :: "SubscriberID \<Rightarrow> string \<Rightarrow> Engine \<Rightarrow> bool \<times> Engine" where
  "UnsubscribePattern sid pat e =
     (case patterns_remove sid pat (ePatterns e) of
        (False, p) \<Rightarrow> (False, e\<lparr>ePatterns := p\<rparr>)
      | (True, p) \<Rightarrow>
          (let e1 = e\<lparr>ePatterns := p, eUnsubscribeOps := eUnsubscribeOps e + 1,
                      eSubscriptionCount := eSubscriptionCount e - 1, ePatternSubs := ePatternSubs e - 1\<rparr>
           in (True, if ePatternSubs e1 = 0 then reapEmptyChannels e1 else e1)))"

text \<open>
  What both \<^verbatim>\<open>Unsubscribe\<close> and \<^verbatim>\<open>UnsubscribeAll\<close> do with a channel after the subscriber left it:
  drop it when drained, restart its idle clock when only its history keeps it.
\<close>

definition settle :: "int \<Rightarrow> string \<Rightarrow> Channel \<Rightarrow> Engine \<Rightarrow> Engine" where
  "settle now name ch e =
     (if SubscriberCount ch = 0 then
        (if chHist ch = None then drop_channel name ch e
         else if chIdleReap ch > 0 then store name (ch\<lparr>chLastActive := now\<rparr>) e
         else store name ch e)
      else store name ch e)"

definition Unsubscribe :: "int \<Rightarrow> SubscriberID \<Rightarrow> string \<Rightarrow> Engine \<Rightarrow> bool \<times> Engine" where
  "Unsubscribe now sid name e0 =
     (let e = e0\<lparr>eUnsubscribeOps := eUnsubscribeOps e0 + 1\<rparr>
      in case lookup name e of
           None \<Rightarrow> (False, e)
         | Some ch \<Rightarrow>
             (case Channel_Unsubscribe sid ch of
                (False, _) \<Rightarrow> (False, e)
              | (True, ch1) \<Rightarrow>
                  (let ch2 = (if chFanout ch1 = Priority then clearPriority sid ch1 else ch1);
                       e1 = settle now name ch2 e
                   in (True, e1\<lparr>eSubs := subscriptions_Remove sid name (eSubs e1),
                                eSubscriptionCount := eSubscriptionCount e1 - 1\<rparr>))))"

definition leave_channel :: "int \<Rightarrow> SubscriberID \<Rightarrow> string \<Rightarrow> Engine \<Rightarrow> Engine" where
  "leave_channel now sid name e =
     (case lookup name e of
        None \<Rightarrow> e
      | Some ch \<Rightarrow>
          (case Channel_Unsubscribe sid ch of
             (True, ch1) \<Rightarrow>
               (let ch2 = (if chFanout ch1 = Priority then clearPriority sid ch1 else ch1)
                in settle now name ch2 (e\<lparr>eSubscriptionCount := eSubscriptionCount e - 1\<rparr>))
           | (False, _) \<Rightarrow> settle now name ch e))"

definition UnsubscribeAll :: "int \<Rightarrow> SubscriberID \<Rightarrow> Engine \<Rightarrow> Engine" where
  "UnsubscribeAll now sid e0 =
     (let channels = GetChannels sid (eSubs e0);
          e1 = (if length channels > 0
                then e0\<lparr>eUnsubscribeOps := eUnsubscribeOps e0 + int (length channels)\<rparr> else e0);
          e2 = fold (leave_channel now sid) channels e1;
          e3 = e2\<lparr>eSubs := subscriptions_RemoveAll sid (eSubs e2)\<rparr>
      in case patterns_removeAll sid (ePatterns e3) of (n, p) \<Rightarrow>
           (let e4 = e3\<lparr>ePatterns := p\<rparr>
            in if n > 0 then
                 (let e5 = e4\<lparr>eUnsubscribeOps := eUnsubscribeOps e4 + int n,
                              eSubscriptionCount := eSubscriptionCount e4 - int n,
                              ePatternSubs := ePatternSubs e4 - int n\<rparr>
                  in if ePatternSubs e5 = 0 then reapEmptyChannels e5 else e5)
               else e4))"

section \<open>Publishing\<close>

text \<open>\<open>materializeChannel\<close> answers the acquired channel, or \<open>None\<close> in an unknown namespace.\<close>

definition materializeChannel :: "int \<Rightarrow> u64 \<Rightarrow> string \<Rightarrow> Engine \<Rightarrow> Channel option \<times> Engine" where
  "materializeChannel now ep channel e =
     (case channelSettings channel e of (settings, known) \<Rightarrow>
        if \<not> known then (None, e)
        else
          (let (ch, e1) = (case lookup channel e of
                             Some ch \<Rightarrow> (ch, e)
                           | None \<Rightarrow> createChannelLocked now ep channel settings e);
               ch' = Acquire ch
           in (Some ch', store channel ch' e1)))"

definition deliverPatterns :: "SubscriberID list \<Rightarrow> SubscriberID list \<Rightarrow> Delivery \<Rightarrow> SubscriberID
    \<Rightarrow> 'w DeliveryFunc \<Rightarrow> 'w \<Rightarrow> (nat \<times> nat) \<times> 'w" where
  "deliverPatterns exact patternIDs d exclude deliver w =
     (if length patternIDs = 0 then ((0, 0), w)
      else
        (let reached = (if length exact > 32 \<and> length patternIDs > 1
                        then (\<lambda>i. gget (fold (\<lambda>x m. gput x () m) exact []) i \<noteq> None)
                        else (\<lambda>i. i \<in> set exact))
         in deliver_loop deliver d exclude (filter (\<lambda>i. \<not> reached i) patternIDs) 0 0 w))"

text \<open>
  The search of \<^verbatim>\<open>roundRobinDeliver\<close>: \<open>k\<close> candidates are left to try, the next one at index
  \<open>(start + i) % n\<close>; the sum wraps at 64 bits as in Go.
\<close>

fun rr_loop :: "SubscriberID list \<Rightarrow> Delivery \<Rightarrow> SubscriberID \<Rightarrow> 'w DeliveryFunc \<Rightarrow> u64 \<Rightarrow> u64 \<Rightarrow> nat \<Rightarrow> nat \<Rightarrow> 'w
    \<Rightarrow> (nat \<times> nat) \<times> 'w" where
  "rr_loop subs d exclude deliver start i 0 tried w = (if tried = 0 then ((0, 0), w) else ((0, 1), w))"
| "rr_loop subs d exclude deliver start i (Suc k) tried w =
     (let sid = subs ! unat ((start + i) mod of_nat (length subs))
      in if sid = exclude then rr_loop subs d exclude deliver start (i + 1) k tried w
         else (case deliver sid d w of
                 (True, w') \<Rightarrow> ((1, 0), w')
               | (False, w') \<Rightarrow> rr_loop subs d exclude deliver start (i + 1) k (tried + 1) w'))"

definition roundRobinDeliver :: "Channel \<Rightarrow> SubscriberID list \<Rightarrow> Delivery \<Rightarrow> SubscriberID \<Rightarrow> 'w DeliveryFunc \<Rightarrow> 'w
    \<Rightarrow> (nat \<times> nat) \<times> Channel \<times> 'w" where
  "roundRobinDeliver ch subs d exclude deliver w =
     (if length subs = 0 then ((0, 0), ch, w)
      else
        (let ch' = ch\<lparr>chRR := chRR ch + 1\<rparr>; start = chRR ch' - 1
         in case rr_loop subs d exclude deliver start 0 (length subs) 0 w of (counts, w') \<Rightarrow> (counts, ch', w')))"

text \<open>Numbering the publication: through the history ring when there is one.\<close>

definition assign_offset :: "int \<Rightarrow> bytes \<Rightarrow> Channel \<Rightarrow> u64 \<times> Channel" where
  "assign_offset now data ch =
     (case chHist ch of
        Some h \<Rightarrow>
          (case appendNext h (chOffset ch) data now of (offset, h') \<Rightarrow>
             (offset, ch\<lparr>chOffset := offset, chHist := Some h',
                         chLastActive := (if chIdleReap ch > 0 then now else chLastActive ch)\<rparr>))
      | None \<Rightarrow>
          (let offset = chOffset ch + 1
           in (offset, ch\<lparr>chOffset := offset,
                          chLastActive := (if chIdleReap ch > 0 then now else chLastActive ch)\<rparr>)))"

text \<open>
  The fan-out switch: the counts, the channel (whose rotation cursor may have moved), the exact
  snapshot the pattern pass must skip, the delivery (which may have gained a shared frame) and the
  world.
\<close>

definition fan_out :: "econfig \<Rightarrow> nat list \<Rightarrow> Channel \<Rightarrow> SubscriberID list \<Rightarrow> Delivery \<Rightarrow> SubscriberID
    \<Rightarrow> 'w DeliveryFunc \<Rightarrow> 'w \<Rightarrow> ((nat \<times> nat) \<times> Channel \<times> SubscriberID list \<times> Delivery \<times> 'w) result" where
  "fan_out cfg sched ch patternIDs d0 exclude deliver w =
     (case chFanout ch of
        RoundRobin \<Rightarrow>
          (case roundRobinDeliver ch (Subscribers ch) d0 exclude deliver w of
             (counts, ch', w') \<Rightarrow> Inr (counts, ch', Subscribers ch, d0, w'))
      | mode \<Rightarrow>
          (let subs = (if mode = Priority
                       then (case chTop ch of Some cohort \<Rightarrow> cohort | None \<Rightarrow> Subscribers ch)
                       else Subscribers ch);
               d = (if length subs + length patternIDs > 1
                    then d0\<lparr>dFrame := Some \<lparr>frBytes = None\<rparr>\<rparr> else d0)
           in if int (length subs) \<ge> cfgFanoutThreshold cfg \<and> cfgFanoutWorkers cfg > 1 then
                (case parallelFanout (nat (cfgFanoutWorkers cfg)) sched subs d exclude deliver w of
                   Inl p \<Rightarrow> Inl p
                 | Inr (counts, w') \<Rightarrow> Inr (counts, ch, subs, d, w'))
              else
                (case deliver_loop deliver d exclude subs 0 0 w of
                   (counts, w') \<Rightarrow> Inr (counts, ch, subs, d, w'))))"

definition bump :: "string \<Rightarrow> int \<Rightarrow> int \<Rightarrow> int \<Rightarrow> int \<Rightarrow> Engine \<Rightarrow> Engine" where
  "bump channel published delivered dropped bytes e =
     (let k = getShard (eHash e) (eShards e) channel; s = eShards e ! k
      in e\<lparr>eShards := (eShards e)[k := s\<lparr>shPublish := shPublish s + published,
             shDelivered := shDelivered s + delivered, shDropped := shDropped s + dropped,
             shBytes := shBytes s + bytes\<rparr>]\<rparr>)"

text \<open>\<open>match_ids\<close> is \<^verbatim>\<open>e.patternSubs.Load() != 0\<close> guarding \<^verbatim>\<open>e.patterns.subscribersFor(channel)\<close>.\<close>

definition match_ids :: "string list \<Rightarrow> string \<Rightarrow> Engine \<Rightarrow> SubscriberID list \<times> Engine" where
  "match_ids order channel e =
     (if ePatternSubs e = 0 then ([], e)
      else (case subscribersFor order channel (ePatterns e) of (ids, p) \<Rightarrow> (ids, e\<lparr>ePatterns := p\<rparr>)))"

text \<open>
  The channel a publication goes to, acquired: the one in the table, or one materialised because a
  pattern matches. The last branch is the re-check for a racing reap: the channel is dropped again
  and the publisher is left holding it, marked as recycled.
\<close>

definition publish_target :: "int \<Rightarrow> u64 \<Rightarrow> string list \<Rightarrow> string \<Rightarrow> Engine \<Rightarrow> Channel option \<times> Engine" where
  "publish_target now ep order channel e =
     (case lookup channel e of
        Some ch \<Rightarrow> (let ch' = Acquire ch in (Some ch', store channel ch' e))
      | None \<Rightarrow>
          (case match_ids order channel e of (ids, e1) \<Rightarrow>
             if length ids = 0 then (None, e1)
             else
               (case materializeChannel now ep channel e1 of
                  (None, e2) \<Rightarrow> (None, e2)
                | (Some ch, e2) \<Rightarrow>
                    if ePatternSubs e2 = 0
                    then (let e3 = dropDrainedChannel channel e2
                          in (Some (if lookup channel e3 = None then ch\<lparr>chRecycled := True\<rparr> else ch), e3))
                    else (Some ch, e2))))"

text \<open>The deferred \<^verbatim>\<open>ch.Release()\<close>, with the write-back of the published state.\<close>

definition release :: "string \<Rightarrow> Channel \<Rightarrow> Engine \<Rightarrow> Engine" where
  "release channel ch e =
     (case Release ch of (returned, c) \<Rightarrow>
        if returned then e\<lparr>ePool := c # ePool e\<rparr>
        else if lookup channel e = None then e
        else store channel c e)"

definition Publish :: "int \<Rightarrow> u64 \<Rightarrow> string list \<Rightarrow> nat list \<Rightarrow> string \<Rightarrow> bytes \<Rightarrow> SubscriberID
    \<Rightarrow> 'w DeliveryFunc \<Rightarrow> Engine \<Rightarrow> 'w \<Rightarrow> (PublishResult \<times> Engine \<times> 'w) result" where
  "Publish now ep order sched channel data exclude deliver e0 w =
     (let e1 = bump channel 1 0 0 (int (length data)) e0;
          result = \<lparr>resChannel = channel, resOffset = 0, resEpoch = 0, resDelivered = 0, resDropped = 0\<rparr>
      in case publish_target now ep order channel e1 of
           (None, e2) \<Rightarrow> Inr (result, e2, w)
         | (Some ch, e2) \<Rightarrow>
             (let (offset, ch1) = assign_offset now data ch;
                  d0 = \<lparr>dChannel = channel, dData = data, dOffset = offset, dEpoch = chEpoch ch1, dFrame = None\<rparr>;
                  (patternIDs, e3) = match_ids order channel e2
              in case fan_out (eConfig e3) sched ch1 patternIDs d0 exclude deliver w of
                   Inl p \<Rightarrow> Inl p
                 | Inr ((del, drp), ch2, exact, d, w1) \<Rightarrow>
                     (case deliverPatterns exact patternIDs d exclude deliver w1 of ((pdel, pdrp), w2) \<Rightarrow>
                        (let e4 = bump channel 0 (int (del + pdel)) (int (drp + pdrp)) 0 e3
                         in Inr (result\<lparr>resOffset := offset, resEpoch := chEpoch ch1,
                                        resDelivered := int (del + pdel), resDropped := int (drp + pdrp)\<rparr>,
                                 release channel ch2 e4, w2)))))"

section \<open>Reading and sweeping\<close>

definition Stats :: "Engine \<Rightarrow> EngineStats" where
  "Stats e =
     \<lparr>stChannels = eChannelCount e, stTotalSubscribers = eSubscriptionCount e,
      stPublished = sum_list (map shPublish (eShards e)),
      stDelivered = sum_list (map shDelivered (eShards e)),
      stDropped = sum_list (map shDropped (eShards e)),
      stSubscribeOps = eSubscribeOps e, stUnsubscribeOps = eUnsubscribeOps e,
      stMessageBytes = sum_list (map shBytes (eShards e))\<rparr>"

text \<open>\<^verbatim>\<open>RecoverN\<close> acquires and releases the channel around a read and leaves the engine as it was.\<close>

definition RecoverN :: "string \<Rightarrow> u64 \<Rightarrow> u64 \<Rightarrow> int \<Rightarrow> Engine \<Rightarrow> Delivery list option" where
  "RecoverN channel fromOffset epoch maxN e =
     (case lookup channel e of
        None \<Rightarrow> None
      | Some ch \<Rightarrow>
          (case chHist ch of
             None \<Rightarrow> None
           | Some h \<Rightarrow>
               if chEpoch ch \<noteq> epoch then None
               else (case replayN h fromOffset maxN of
                       None \<Rightarrow> None
                     | Some items \<Rightarrow>
                         Some (map (\<lambda>item. \<lparr>dChannel = channel, dData = hiData item, dOffset = hiOffset item,
                                            dEpoch = chEpoch ch, dFrame = None\<rparr>) items))))"

definition Recover :: "string \<Rightarrow> u64 \<Rightarrow> u64 \<Rightarrow> Engine \<Rightarrow> Delivery list option" where
  "Recover channel fromOffset epoch e = RecoverN channel fromOffset epoch 0 e"

text \<open>\<^verbatim>\<open>consider\<close> keeps the smallest positive duration; zero stands for none so far.\<close>

definition consider_ttl :: "int \<Rightarrow> int \<Rightarrow> int" where
  "consider_ttl d minTTL = (if d > 0 \<and> (minTTL = 0 \<or> d < minTTL) then d else minTTL)"

definition historySweepInterval :: "econfig \<Rightarrow> int" where
  "historySweepInterval cfg =
     (let minTTL =
        (case cfgNamespaces cfg of
           Some r \<Rightarrow> fold (\<lambda>s m. consider_ttl (IdleReap s)
                                   (if HistorySize s > 0 then consider_ttl (HistoryTTL s) m else m))
                         (Registry_All r) 0
         | None \<Rightarrow> if cfgHistSize cfg > 0 then consider_ttl (cfgHistTTL cfg) 0 else 0)
      in if minTTL = 0 then 0 else max (minTTL div 2) (10 * 1000000))"

definition reapable :: "int \<Rightarrow> Channel \<Rightarrow> bool" where
  "reapable now ch \<longleftrightarrow> SubscriberCount ch = 0
     \<and> ((case chHist ch of Some h \<Rightarrow> hist_size h = 0 | None \<Rightarrow> False)
        \<or> chIdleReap ch > 0 \<and> now - chLastActive ch > chIdleReap ch)"

definition sweep_channel :: "int \<Rightarrow> Channel \<Rightarrow> Channel" where
  "sweep_channel now ch = (case chHist ch of Some h \<Rightarrow> ch\<lparr>chHist := Some (hist_sweep h now)\<rparr> | None \<Rightarrow> ch)"

text \<open>One shard of one sweeper tick: trim under the read lock, then reap under the write lock.\<close>

definition sweep_shard :: "int \<Rightarrow> nat \<Rightarrow> Engine \<Rightarrow> Engine" where
  "sweep_shard now k e =
     (let chans = shChannels (eShards e ! k);
          e1 = fold (\<lambda>(name, ch) e. store name (sweep_channel now ch) e) chans e;
          names = map fst (filter (\<lambda>(name, ch). reapable now (sweep_channel now ch)) chans)
      in fold (\<lambda>name e. case lookup name e of
                 None \<Rightarrow> e
               | Some ch \<Rightarrow> if reapable now ch then drop_channel name ch e else e) names e1)"

definition sweep_tick :: "int \<Rightarrow> Engine \<Rightarrow> Engine" where
  "sweep_tick now e = fold (sweep_shard now) [0..<length (eShards e)] e"

end
