(* ===== verification/Engine_Inv.thy ===== *)
theory Engine_Inv
  imports Engine
begin

text \<open>
  The invariant of the engine and its preservation by every operation: the sharded table, the
  reverse index, the wildcard registry, the channel pool and the counters agree with one another,
  and no channel outlives its purpose.
\<close>

section \<open>The invariant\<close>

definition live_rel :: "Engine \<Rightarrow> (SubscriberID \<times> string) set" where
  "live_rel e = {(i, name). \<exists>ch. lookup name e = Some ch \<and> i \<in> set (Subscribers ch)}"

text \<open>A channel carries the settings its namespace resolves to, and honours the subscriber cap.\<close>

definition settled :: "Engine \<Rightarrow> string \<Rightarrow> Channel \<Rightarrow> bool" where
  "settled e name ch \<longleftrightarrow> (\<exists>s. channelSettings name e = (s, True) \<and> chFanout ch = Fanout s
     \<and> chMaxSubs ch = MaxSubscribers s \<and> chIdleReap ch = IdleReap s
     \<and> (chHist ch = None \<longleftrightarrow> HistorySize s \<le> 0))
     \<and> (chMaxSubs ch > 0 \<longrightarrow> SubscriberCount ch \<le> chMaxSubs ch)"

definition pool_clean :: "Channel \<Rightarrow> bool" where
  "pool_clean c \<longleftrightarrow> chHist c = None \<and> chMaxSubs c = 0 \<and> chIdleReap c = 0 \<and> chFanout c = Broadcast
     \<and> chRR c = 0 \<and> chPrios c = None \<and> chTop c = None"

definition admitted :: "Engine \<Rightarrow> string \<Rightarrow> bool" where
  "admitted e pat \<longleftrightarrow> (\<forall>r. cfgNamespaces (eConfig e) = Some r \<longrightarrow>
     \<not> IsPattern (Prefix pat) \<and> snd (Resolve r pat) \<and> AllowWildcard (fst (Resolve r pat)))"

definition tables_ok :: "Engine \<Rightarrow> bool" where
  "tables_ok e \<longleftrightarrow> table_ok (eHash e) (eShards e)
     \<and> (\<forall>name ch. lookup name e = Some ch \<longrightarrow> channel_ok ch \<and> settled e name ch)
     \<and> (\<forall>c \<in> set (ePool e). pool_clean c)
     \<and> eChannelCount e = table_total (\<lambda>_. 1) (eShards e)"

definition pats_ok :: "Engine \<Rightarrow> bool" where
  "pats_ok e \<longleftrightarrow> patterns_ok (ePatterns e) \<and> caches_ok (\<lambda>_. prSnap (ePatterns e)) (ePatterns e)
     \<and> prScoped (ePatterns e) = (cfgNamespaces (eConfig e) \<noteq> None)
     \<and> ePatternSubs e = pattern_count (ePatterns e)
     \<and> (\<forall>i pat. (i, pat) \<in> pattern_rel (ePatterns e) \<longrightarrow> admitted e pat)"

definition exact_count :: "Engine \<Rightarrow> int" where
  "exact_count e = table_total SubscriberCount (eShards e)"

text \<open>
  \<open>no_leak\<close>: a channel without subscribers and without history exists only while somebody holds a
  wildcard subscription.
\<close>

definition no_leak :: "Engine \<Rightarrow> bool" where
  "no_leak e \<longleftrightarrow> (\<forall>name ch. lookup name e = Some ch \<longrightarrow> drained ch \<longrightarrow> 0 < ePatternSubs e)"

definition engine_ok :: "Engine \<Rightarrow> bool" where
  "engine_ok e \<longleftrightarrow> tables_ok e \<and> pats_ok e \<and> subs_index.indexes (eSubs e) (live_rel e)
     \<and> eSubscriptionCount e = exact_count e + ePatternSubs e \<and> no_leak e"

section \<open>The primitive updates\<close>

lemma lookup_cong: "eHash e = eHash e' \<Longrightarrow> eShards e = eShards e' \<Longrightarrow> lookup name e = lookup name e'"
  by (simp add: lookup_def)

lemma store_fields [simp]:
  "eConfig (store name c e) = eConfig e" "eSubs (store name c e) = eSubs e"
  "ePatterns (store name c e) = ePatterns e" "eHash (store name c e) = eHash e"
  "ePool (store name c e) = ePool e" "eChannelCount (store name c e) = eChannelCount e"
  "eSubscriptionCount (store name c e) = eSubscriptionCount e" "ePatternSubs (store name c e) = ePatternSubs e"
  "eSubscribeOps (store name c e) = eSubscribeOps e" "eUnsubscribeOps (store name c e) = eUnsubscribeOps e"
  by (simp_all add: store_def)

lemma drop_channel_fields [simp]:
  "eConfig (drop_channel name c e) = eConfig e" "eSubs (drop_channel name c e) = eSubs e"
  "ePatterns (drop_channel name c e) = ePatterns e" "eHash (drop_channel name c e) = eHash e"
  "eChannelCount (drop_channel name c e) = eChannelCount e - 1"
  "eShards (drop_channel name c e) = table_delete (eHash e) name (eShards e)"
  "eSubscriptionCount (drop_channel name c e) = eSubscriptionCount e"
  "ePatternSubs (drop_channel name c e) = ePatternSubs e"
  by (simp_all add: drop_channel_def split: prod.splits)

lemma channelSettings_cong: "eConfig e = eConfig e' \<Longrightarrow> channelSettings name e = channelSettings name e'"
  by (simp add: channelSettings_def split: option.split)

lemma settled_cong: "eConfig e = eConfig e' \<Longrightarrow> settled e name ch = settled e' name ch"
  using channelSettings_cong [of e e' name] by (simp add: settled_def)

lemma lookup_store:
  "table_ok (eHash e) (eShards e) \<Longrightarrow> lookup n (store name c e) = (if n = name then Some c else lookup n e)"
  using table_put(2) [of "eHash e" "eShards e" "table_update (eHash e) name c (eShards e)" name c]
  by (simp add: lookup_def store_def)

lemma lookup_drop:
  "table_ok (eHash e) (eShards e) \<Longrightarrow> lookup n (drop_channel name c e) = (if n = name then None else lookup n e)"
  by (simp add: lookup_def table_delete_spec)

lemma pool_clean_recycled: "pool_clean (snd (recycleChannel c))" if "fst (recycleChannel c)"
  using that by (auto simp: recycleChannel_def returnToPool_def pool_clean_def Let_def split: if_splits)

lemma tables_ok_store:
  assumes "tables_ok e" "lookup name e = Some ch" "channel_ok ch'" "settled e name ch'"
  shows "tables_ok (store name ch' e)"
    and "exact_count (store name ch' e) = exact_count e + SubscriberCount ch' - SubscriberCount ch"
proof -
  have t: "table_ok (eHash e) (eShards e)" using assms(1) by (simp add: tables_ok_def)
  note put = table_put [OF t, of "table_update (eHash e) name ch' (eShards e)" name ch']
  show "tables_ok (store name ch' e)"
    using assms put(1,3) lookup_store [OF t] settled_cong [of "store name ch' e" e]
    by (auto simp: tables_ok_def store_def lookup_def split: if_splits)
  show "exact_count (store name ch' e) = exact_count e + SubscriberCount ch' - SubscriberCount ch"
    using assms(2) put(3) by (simp add: exact_count_def store_def lookup_def)
qed

lemma tables_ok_drop:
  assumes "tables_ok e" "lookup name e = Some ch" "Subscribers ch = []"
  shows "tables_ok (drop_channel name c e)" "exact_count (drop_channel name c e) = exact_count e"
proof -
  have t: "table_ok (eHash e) (eShards e)" using assms(1) by (simp add: tables_ok_def)
  note del = table_delete_spec [OF t, where name = name]
  have pool: "\<forall>x \<in> set (ePool (drop_channel name c e)). pool_clean x"
    using assms(1) pool_clean_recycled [of c] by (auto simp: tables_ok_def drop_channel_def split: prod.splits if_splits)
  show "tables_ok (drop_channel name c e)"
    using assms del(1,3) lookup_drop [OF t] settled_cong [of "drop_channel name c e" e] pool
    by (auto simp: tables_ok_def lookup_def split: if_splits)
  show "exact_count (drop_channel name c e) = exact_count e"
    using assms(2,3) del(3) by (simp add: exact_count_def lookup_def SubscriberCount_eq)
qed

section \<open>Creating a channel\<close>

lemma createChannelLocked_spec:
  assumes "tables_ok e" "lookup name e = None" "channelSettings name e = (s, True)"
    and "createChannelLocked now ep name s e = (ch, e')"
  shows "tables_ok e'" "exact_count e' = exact_count e" "Subscribers ch = []" "channel_ok ch"
    and "\<And>n. lookup n e' = (if n = name then Some ch else lookup n e)"
    and "eConfig e' = eConfig e" "eSubs e' = eSubs e" "ePatterns e' = ePatterns e"
    "eSubscriptionCount e' = eSubscriptionCount e" "ePatternSubs e' = ePatternSubs e"
    and "chOffset ch = 0" "chEpoch ch = ep" "chName ch = name" "settled e name ch" "eHash e' = eHash e"
proof -
  have t: "table_ok (eHash e) (eShards e)" using assms(1) by (simp add: tables_ok_def)
  obtain c0 e0 where g: "pool_get e = (c0, e0)" by (cases "pool_get e")
  have c0: "pool_clean c0"
    using g assms(1) by (auto simp: pool_get_def tables_ok_def zero_channel_def pool_clean_def split: list.splits)
  have e0: "eShards e0 = eShards e" "eHash e0 = eHash e" "eConfig e0 = eConfig e" "eSubs e0 = eSubs e"
    "ePatterns e0 = ePatterns e" "eSubscriptionCount e0 = eSubscriptionCount e" "ePatternSubs e0 = ePatternSubs e"
    "eChannelCount e0 = eChannelCount e" "set (ePool e0) \<subseteq> set (ePool e)"
    using g by (auto simp: pool_get_def split: list.splits)
  have ch: "ch = (let c1 = NewChannel name ep c0 in
      (if HistorySize s > 0 then c1\<lparr>chHist := Some (newHistory (nat (HistorySize s)) (HistoryTTL s))\<rparr> else c1)
        \<lparr>chMaxSubs := MaxSubscribers s, chFanout := Fanout s, chIdleReap := IdleReap s, chLastActive := now\<rparr>)"
    and e': "e' = e0\<lparr>eShards := table_insert (eHash e) name ch (eShards e), eChannelCount := eChannelCount e + 1\<rparr>"
    using assms(4) g e0 by (auto simp: createChannelLocked_def Let_def)
  show subs: "Subscribers ch = []" and "chOffset ch = 0" "chEpoch ch = ep" "chName ch = name"
    by (simp_all add: ch Let_def NewChannel_def Subscribers_def)
  show ok: "channel_ok ch"
    using c0 by (auto simp: ch Let_def NewChannel_def channel_ok_def prios_ok_def hist_sync_def Subscribers_def
        pool_clean_def hist_ok_newHistory)
  show st: "settled e name ch"
    using assms(3) c0 by (auto simp: settled_def ch Let_def NewChannel_def pool_clean_def SubscriberCount_def)
  note put = table_put [OF t, of "table_insert (eHash e) name ch (eShards e)" name ch]
  show look: "lookup n e' = (if n = name then Some ch else lookup n e)" for n
    using put(2) by (simp add: lookup_def e' e0(2))
  show cfg: "eConfig e' = eConfig e" "eSubs e' = eSubs e" "ePatterns e' = ePatterns e"
    "eSubscriptionCount e' = eSubscriptionCount e" "ePatternSubs e' = ePatternSubs e" "eHash e' = eHash e"
    using e0 by (simp_all add: e')
  show "exact_count e' = exact_count e"
    using put(3) assms(2) subs by (simp add: exact_count_def e' lookup_def SubscriberCount_eq)
  have "set (ePool e') \<subseteq> set (ePool e)" using e0(9) by (simp add: e')
  moreover have "eChannelCount e' = table_total (\<lambda>_. 1) (eShards e')"
    using assms(1,2) put(3) by (simp add: tables_ok_def e' lookup_def)
  moreover have "table_ok (eHash e') (eShards e')" using put(1) by (simp add: e' e0(2))
  moreover have "channel_ok c \<and> settled e' n c" if "lookup n e' = Some c" for n c
    using that look [of n] assms(1) ok st settled_cong [OF cfg(1)] by (auto simp: tables_ok_def split: if_splits)
  ultimately show "tables_ok e'" using assms(1) unfolding tables_ok_def by blast
qed

section \<open>Updates the invariant does not see\<close>

lemma lookup_other [simp]:
  "lookup n (e\<lparr>eSubs := a\<rparr>) = lookup n e" "lookup n (e\<lparr>ePatterns := b\<rparr>) = lookup n e"
  "lookup n (e\<lparr>eSubscriptionCount := x\<rparr>) = lookup n e" "lookup n (e\<lparr>ePatternSubs := x\<rparr>) = lookup n e"
  "lookup n (e\<lparr>eSubscribeOps := x\<rparr>) = lookup n e" "lookup n (e\<lparr>eUnsubscribeOps := x\<rparr>) = lookup n e"
  "lookup n (e\<lparr>ePool := y\<rparr>) = lookup n e"
  by (simp_all add: lookup_def)

lemma settled_other [simp]:
  "settled (e\<lparr>eSubs := a\<rparr>) = settled e" "settled (e\<lparr>ePatterns := b\<rparr>) = settled e"
  "settled (e\<lparr>eSubscriptionCount := x\<rparr>) = settled e" "settled (e\<lparr>ePatternSubs := x\<rparr>) = settled e"
  "settled (e\<lparr>eSubscribeOps := x\<rparr>) = settled e" "settled (e\<lparr>eUnsubscribeOps := x\<rparr>) = settled e"
  "settled (e\<lparr>ePool := y\<rparr>) = settled e"
  by (auto simp: fun_eq_iff intro!: settled_cong)

lemma tables_ok_other [simp]:
  "tables_ok (e\<lparr>eSubs := a\<rparr>) = tables_ok e" "tables_ok (e\<lparr>ePatterns := b\<rparr>) = tables_ok e"
  "tables_ok (e\<lparr>eSubscriptionCount := x\<rparr>) = tables_ok e" "tables_ok (e\<lparr>ePatternSubs := x\<rparr>) = tables_ok e"
  "tables_ok (e\<lparr>eSubscribeOps := x\<rparr>) = tables_ok e" "tables_ok (e\<lparr>eUnsubscribeOps := x\<rparr>) = tables_ok e"
  by (simp_all add: tables_ok_def)

lemma exact_count_other [simp]:
  "exact_count (e\<lparr>eSubs := a\<rparr>) = exact_count e" "exact_count (e\<lparr>ePatterns := b\<rparr>) = exact_count e"
  "exact_count (e\<lparr>eSubscriptionCount := x\<rparr>) = exact_count e" "exact_count (e\<lparr>ePatternSubs := x\<rparr>) = exact_count e"
  "exact_count (e\<lparr>eSubscribeOps := x\<rparr>) = exact_count e" "exact_count (e\<lparr>eUnsubscribeOps := x\<rparr>) = exact_count e"
  "exact_count (e\<lparr>ePool := y\<rparr>) = exact_count e"
  by (simp_all add: exact_count_def)

lemma live_rel_cong: "(\<And>n. lookup n e = lookup n e') \<Longrightarrow> live_rel e = live_rel e'"
  by (simp add: live_rel_def)

lemma pats_ok_cong:
  assumes "ePatterns e' = ePatterns e" "eConfig e' = eConfig e" "ePatternSubs e' = ePatternSubs e"
  shows "pats_ok e' = pats_ok e"
  using assms by (simp add: pats_ok_def admitted_def)

lemma channelSettings_other [simp]: "channelSettings name (e\<lparr>eSubscribeOps := x\<rparr>) = channelSettings name e"
  by (rule channelSettings_cong) simp

text \<open>The operation counters play no part in the invariant.\<close>

lemma engine_ok_ops [simp]:
  "engine_ok (e\<lparr>eSubscribeOps := x\<rparr>) = engine_ok e" "engine_ok (e\<lparr>eUnsubscribeOps := x\<rparr>) = engine_ok e"
  using pats_ok_cong [of "e\<lparr>eSubscribeOps := x\<rparr>" e] pats_ok_cong [of "e\<lparr>eUnsubscribeOps := x\<rparr>" e]
    live_rel_cong [of "e\<lparr>eSubscribeOps := x\<rparr>" e] live_rel_cong [of "e\<lparr>eUnsubscribeOps := x\<rparr>" e]
  by (simp_all add: engine_ok_def no_leak_def)

section \<open>Subscribing\<close>

text \<open>The successful tail of \<^verbatim>\<open>SubscribePriority\<close>.\<close>

definition attach_done :: "SubscriberID \<Rightarrow> string \<Rightarrow> int \<Rightarrow> Channel \<Rightarrow> Engine \<Rightarrow> Engine" where
  "attach_done sid name prio ch e =
     (let e1 = store name (subscribe_ranked sid prio ch) e
      in e1\<lparr>eSubs := subscriptions_Add sid name (eSubs e1), eSubscriptionCount := eSubscriptionCount e1 + 1\<rparr>)"

lemma SubscribePriority_cases:
  assumes "SubscribePriority now ep sid name prio e0 = (err, e')"
  defines "e \<equiv> e0\<lparr>eSubscribeOps := eSubscribeOps e0 + 1\<rparr>"
  obtains (unknown) "lookup name e0 = None" "\<not> snd (channelSettings name e0)" "err = Some ErrUnknownNamespace" "e' = e"
  | (full) ch where "lookup name e0 = Some ch" "chMaxSubs ch > 0" "SubscriberCount ch \<ge> chMaxSubs ch"
      "err = Some ErrChannelFull" "e' = e"
  | (dup) ch where "lookup name e0 = Some ch" "sid \<in> set (Subscribers ch)" "err = Some ErrAlreadySubscribed" "e' = e"
  | (old) ch where "lookup name e0 = Some ch" "chMaxSubs ch > 0 \<longrightarrow> SubscriberCount ch < chMaxSubs ch"
      "sid \<notin> set (Subscribers ch)" "err = None" "e' = attach_done sid name prio ch e"
  | (new) s ch e1 where "lookup name e0 = None" "channelSettings name e0 = (s, True)"
      "createChannelLocked now ep name s e = (ch, e1)" "Subscribers ch = []" "err = None"
      "e' = attach_done sid name prio ch e1"
proof -
  define attach where "attach ch e = (if chMaxSubs ch > 0 \<and> SubscriberCount ch \<ge> chMaxSubs ch then (Some ErrChannelFull, e)
      else if sid \<in> set (Subscribers ch) then (Some ErrAlreadySubscribed, e)
      else (None, attach_done sid name prio ch e))" for ch e
  have sub: "SubscribePriority now ep sid name prio e0 =
    (case lookup name e0 of Some ch \<Rightarrow> attach ch e
     | None \<Rightarrow> (case channelSettings name e0 of (settings, known) \<Rightarrow>
         if \<not> known then (Some ErrUnknownNamespace, e)
         else (case createChannelLocked now ep name settings e of (ch, e1) \<Rightarrow> attach ch e1)))"
    unfolding SubscribePriority_def attach_def attach_done_def e_def
    by (auto simp: Channel_Subscribe_eq subscribe_ranked_def Let_def split: option.splits prod.splits)
  show ?thesis
  proof (cases "lookup name e0")
    case (Some ch)
    with assms(1) sub show ?thesis
      using full dup old by (auto simp: attach_def split: if_splits)
  next
    case None
    obtain s known where st: "channelSettings name e0 = (s, known)" by (cases "channelSettings name e0")
    obtain ch e1 where cr: "createChannelLocked now ep name s e = (ch, e1)" by (cases "createChannelLocked now ep name s e")
    have "Subscribers ch = []"
      using cr by (auto simp: createChannelLocked_def Let_def NewChannel_def Subscribers_def split: prod.splits)
    then show ?thesis
      using assms(1) sub None st cr unknown new
      by (auto simp: attach_def SubscriberCount_eq split: if_splits)
  qed
qed

lemma settled_subscribe:
  assumes "settled e name ch" "sid \<notin> set (Subscribers ch)" "chMaxSubs ch > 0 \<longrightarrow> SubscriberCount ch < chMaxSubs ch"
  shows "settled e name (subscribe_ranked sid prio ch)"
proof -
  have "chMaxSubs (subscribe_ranked sid prio ch) = chMaxSubs ch" "chIdleReap (subscribe_ranked sid prio ch) = chIdleReap ch"
    "chHist (subscribe_ranked sid prio ch) = chHist ch"
    by (simp_all add: subscribe_ranked_def Channel_Subscribe_eq setPriority_def rebuildTopCohort_eq Let_def)
  then show ?thesis using assms by (auto simp: settled_def SubscriberCount_eq)
qed

text \<open>
  Attaching a subscriber to a channel of an engine that is sound up to its possibly empty new
  channel.
\<close>

lemma attach_done_ok:
  assumes "tables_ok e" "pats_ok e" "subs_index.indexes (eSubs e) (live_rel e)"
    and "eSubscriptionCount e = exact_count e + ePatternSubs e"
    and "\<And>n c. n \<noteq> name \<Longrightarrow> lookup n e = Some c \<Longrightarrow> drained c \<Longrightarrow> 0 < ePatternSubs e"
    and "lookup name e = Some ch" "sid \<notin> set (Subscribers ch)"
    and "chMaxSubs ch > 0 \<longrightarrow> SubscriberCount ch < chMaxSubs ch"
  shows "engine_ok (attach_done sid name prio ch e)"
    and "live_rel (attach_done sid name prio ch e) = insert (sid, name) (live_rel e)"
proof -
  let ?c = "subscribe_ranked sid prio ch"
  let ?e = "attach_done sid name prio ch e"
  have ch: "channel_ok ch" "settled e name ch" "table_ok (eHash e) (eShards e)"
    using assms(1,6) by (simp_all add: tables_ok_def)
  have subs: "Subscribers ?c = Subscribers ch @ [sid]" by (rule Subscribers_subscribe_ranked [OF assms(7)])
  note st = tables_ok_store [OF assms(1,6) channel_ok_subscribe [OF ch(1) assms(7)] settled_subscribe [OF ch(2) assms(7,8)]]
  have look: "lookup n ?e = (if n = name then Some ?c else lookup n e)" for n
    using lookup_store [OF ch(3)] by (simp add: attach_done_def Let_def)
  have fields: "eSubs ?e = subscriptions_Add sid name (eSubs e)" "ePatterns ?e = ePatterns e" "eConfig ?e = eConfig e"
    "ePatternSubs ?e = ePatternSubs e" "eSubscriptionCount ?e = eSubscriptionCount e + 1"
    by (simp_all add: attach_done_def Let_def)
  show live: "live_rel ?e = insert (sid, name) (live_rel e)"
    using assms(6) subs by (auto simp: live_rel_def look split: if_splits)
  have "tables_ok ?e" "exact_count ?e = exact_count e + 1"
    using st subs by (simp_all add: attach_done_def Let_def SubscriberCount_eq)
  moreover have "no_leak ?e"
    using assms(5) subs by (auto simp: no_leak_def look drained_def SubscriberCount_eq fields split: if_splits)
  moreover have "subs_index.indexes (eSubs ?e) (live_rel ?e)"
    unfolding live fields by (rule subs_index.indexes_add [OF assms(3)])
  moreover have "pats_ok ?e" using assms(2) fields pats_ok_cong by metis
  ultimately show "engine_ok ?e" using assms(4) fields by (simp add: engine_ok_def)
qed

lemma SubscribePriority_spec:
  assumes "engine_ok e" "SubscribePriority now ep sid name prio e = (err, e')"
  shows "engine_ok e'" "ePatterns e' = ePatterns e" "eConfig e' = eConfig e"
    and "live_rel e' = (if err = None then insert (sid, name) (live_rel e) else live_rel e)"
    and "err = Some ErrAlreadySubscribed \<Longrightarrow> (sid, name) \<in> live_rel e"
    and "err = None \<Longrightarrow> (sid, name) \<notin> live_rel e"
proof -
  let ?e = "e\<lparr>eSubscribeOps := eSubscribeOps e + 1\<rparr>"
  have ok: "tables_ok ?e" "pats_ok ?e" "subs_index.indexes (eSubs ?e) (live_rel ?e)"
    "eSubscriptionCount ?e = exact_count ?e + ePatternSubs ?e" "no_leak ?e"
    using assms(1) engine_ok_ops(1) [where e = e] unfolding engine_ok_def by blast+
  have same: "live_rel ?e = live_rel e" by (rule live_rel_cong) simp
  have main: "engine_ok e' \<and> ePatterns e' = ePatterns e \<and> eConfig e' = eConfig e
    \<and> live_rel e' = (if err = None then insert (sid, name) (live_rel e) else live_rel e)
    \<and> (err = Some ErrAlreadySubscribed \<longrightarrow> (sid, name) \<in> live_rel e)
    \<and> (err = None \<longrightarrow> (sid, name) \<notin> live_rel e)"
    using assms(2)
  proof (cases rule: SubscribePriority_cases)
    case (old ch)
    have "lookup name ?e = Some ch" using old(1) by simp
    from attach_done_ok [OF ok(1-4) _ this old(3,2), where prio = prio] ok(5) old same show ?thesis
      by (auto simp: attach_done_def Let_def no_leak_def live_rel_def)
  next
    case (new s ch e1)
    have none: "lookup name ?e = None" "channelSettings name ?e = (s, True)" using new(1,2) by simp_all
    note cr = createChannelLocked_spec [OF ok(1) none new(3)]
    have live: "live_rel e1 = live_rel ?e" using none(1) cr(3,5) by (auto simp: live_rel_def split: if_splits)
    have pat: "pats_ok e1" using ok(2) pats_ok_cong [of e1 ?e] cr by simp
    have leak: "\<And>n c. n \<noteq> name \<Longrightarrow> lookup n e1 = Some c \<Longrightarrow> drained c \<Longrightarrow> 0 < ePatternSubs e1"
      using ok(5) cr(5,10) by (simp add: no_leak_def)
    have room: "chMaxSubs ch > 0 \<longrightarrow> SubscriberCount ch < chMaxSubs ch" "sid \<notin> set (Subscribers ch)"
      using cr(3) by (simp_all add: SubscriberCount_eq)
    have idx: "subs_index.indexes (eSubs e1) (live_rel e1)" using ok(3) live cr(7) by simp
    have cnt: "eSubscriptionCount e1 = exact_count e1 + ePatternSubs e1" using ok(4) cr(2,9,10) by simp
    have look: "lookup name e1 = Some ch" using cr(5) by simp
    from attach_done_ok [OF cr(1) pat idx cnt leak look room(2,1), where prio = prio] new cr live same none(1) show ?thesis
      by (auto simp: attach_done_def Let_def live_rel_def)
  next
    case (dup ch)
    then show ?thesis using assms(1) same by (auto simp: live_rel_def)
  qed (use assms(1) same in auto)
  then show "engine_ok e'" "ePatterns e' = ePatterns e" "eConfig e' = eConfig e"
    "live_rel e' = (if err = None then insert (sid, name) (live_rel e) else live_rel e)"
    "err = Some ErrAlreadySubscribed \<Longrightarrow> (sid, name) \<in> live_rel e"
    "err = None \<Longrightarrow> (sid, name) \<notin> live_rel e" by blast+
qed

section \<open>Reaping\<close>

text \<open>Dropping the channels of a list of names that satisfy a condition.\<close>

definition drop_if :: "(Channel \<Rightarrow> bool) \<Rightarrow> string \<Rightarrow> Engine \<Rightarrow> Engine" where
  "drop_if P name e = (case lookup name e of
     None \<Rightarrow> e | Some ch \<Rightarrow> if P ch then drop_channel name ch e else e)"

definition same_outside :: "Engine \<Rightarrow> Engine \<Rightarrow> bool" where
  "same_outside e e' \<longleftrightarrow> eConfig e' = eConfig e \<and> eSubs e' = eSubs e \<and> ePatterns e' = ePatterns e
     \<and> eHash e' = eHash e \<and> eSubscriptionCount e' = eSubscriptionCount e \<and> ePatternSubs e' = ePatternSubs e
     \<and> length (eShards e') = length (eShards e)"

lemma same_outside_refl [simp]: "same_outside e e"
  by (simp add: same_outside_def)

lemma same_outside_trans: "same_outside e e1 \<Longrightarrow> same_outside e1 e2 \<Longrightarrow> same_outside e e2"
  by (simp add: same_outside_def)

lemma drop_if_spec:
  assumes "tables_ok e" "\<forall>c. P c \<longrightarrow> Subscribers c = []"
  shows "tables_ok (drop_if P name e)" "exact_count (drop_if P name e) = exact_count e"
    "lookup n (drop_if P name e) = (if n = name \<and> (\<exists>c. lookup n e = Some c \<and> P c) then None else lookup n e)"
    "same_outside e (drop_if P name e)"
  using assms tables_ok_drop [OF assms(1)] lookup_drop [of e] table_delete_spec(4) [of "eHash e" "eShards e" name]
  by (auto simp: drop_if_def tables_ok_def same_outside_def split: option.splits)

lemma drop_all_spec:
  assumes "tables_ok e" "\<forall>c. P c \<longrightarrow> Subscribers c = []"
  shows "tables_ok (fold (drop_if P) names e) \<and> exact_count (fold (drop_if P) names e) = exact_count e
    \<and> same_outside e (fold (drop_if P) names e)
    \<and> (\<forall>n. lookup n (fold (drop_if P) names e) =
         (if n \<in> set names \<and> (\<exists>c. lookup n e = Some c \<and> P c) then None else lookup n e))"
  using assms(1)
proof (induction names arbitrary: e)
  case (Cons name names)
  note step = drop_if_spec [where P = P and name = name, OF Cons.prems assms(2)]
  show ?case
    using Cons.IH [OF step(1)] step(2,3,4) same_outside_trans by (auto split: if_splits)
qed simp

lemma shard_pairs:
  assumes "table_ok h shards" "k < length shards"
  shows "(n, c) \<in> set (shChannels (shards ! k)) \<longleftrightarrow> find_channel h n shards = Some c \<and> getShard h shards n = k"
  using assms gget_in_set [of "shChannels (shards ! k)" n c] by (auto simp: table_ok_def find_channel_def)

text \<open>The inner loop of \<^verbatim>\<open>reapEmptyChannels\<close> ranges over pairs read before it starts.\<close>

lemma reap_pairs:
  assumes "tables_ok e" "distinct (map fst xs)" "\<forall>(n, c) \<in> set xs. lookup n e = Some c"
  shows "fold (\<lambda>(name, ch) e. if drained ch then drop_channel name ch e else e) xs e
       = fold (drop_if drained) (map fst xs) e"
  using assms
proof (induction xs arbitrary: e)
  case (Cons x xs)
  obtain n c where x: "x = (n, c)" by (cases x)
  have n: "lookup n e = Some c" using Cons.prems(3) x by simp
  have empty: "\<forall>c. drained c \<longrightarrow> Subscribers c = []" by (simp add: drained_def SubscriberCount_eq)
  note step = drop_if_spec [where P = drained and name = n, OF Cons.prems(1) empty]
  have "\<forall>(m, d) \<in> set xs. lookup m (drop_if drained n e) = Some d"
    using Cons.prems(2,3) step(3) x by (force split: if_splits)
  with Cons.IH [OF step(1)] Cons.prems(2) n x show ?case by (simp add: drop_if_def)
qed simp

lemma reapEmptyChannels_spec:
  assumes "tables_ok e"
  shows "tables_ok (reapEmptyChannels e)" "exact_count (reapEmptyChannels e) = exact_count e"
    "same_outside e (reapEmptyChannels e)"
    "\<And>n. lookup n (reapEmptyChannels e) = (if \<exists>c. lookup n e = Some c \<and> drained c then None else lookup n e)"
proof -
  define reap where "reap k e = fold (\<lambda>(name, ch) e. if drained ch then drop_channel name ch e else e)
                      (shChannels (eShards e ! k)) e" for k e
  have empty: "\<forall>c. drained c \<longrightarrow> Subscribers c = []" by (simp add: drained_def SubscriberCount_eq)
  have one: "tables_ok (reap k e') \<and> exact_count (reap k e') = exact_count e' \<and> same_outside e' (reap k e')
      \<and> (\<forall>n. lookup n (reap k e') =
           (if getShard (eHash e') (eShards e') n = k \<and> (\<exists>c. lookup n e' = Some c \<and> drained c) then None else lookup n e'))"
    if "tables_ok e'" "k < length (eShards e')" for k e'
  proof -
    have t: "table_ok (eHash e') (eShards e')" using that(1) by (simp add: tables_ok_def)
    have pairs: "(n, c) \<in> set (shChannels (eShards e' ! k)) \<longleftrightarrow> lookup n e' = Some c \<and> getShard (eHash e') (eShards e') n = k" for n c
      using shard_pairs [OF t that(2)] by (simp add: lookup_def)
    have "reap k e' = fold (drop_if drained) (map fst (shChannels (eShards e' ! k))) e'"
      unfolding reap_def using that t pairs by (intro reap_pairs) (auto simp: table_ok_def gomap_ok_def)
    moreover have "n \<in> set (map fst (shChannels (eShards e' ! k))) \<longleftrightarrow>
        lookup n e' \<noteq> None \<and> getShard (eHash e') (eShards e') n = k" for n
      using pairs by force
    ultimately show ?thesis using drop_all_spec [where P = drained and names = "map fst (shChannels (eShards e' ! k))", OF that(1) empty] by auto
  qed
  have all: "tables_ok (fold reap ks e) \<and> exact_count (fold reap ks e) = exact_count e \<and> same_outside e (fold reap ks e)
      \<and> (\<forall>n. lookup n (fold reap ks e) =
           (if getShard (eHash e) (eShards e) n \<in> set ks \<and> (\<exists>c. lookup n e = Some c \<and> drained c) then None else lookup n e))"
    if "set ks \<subseteq> {..<length (eShards e)}" for ks
    using that
  proof (induction ks rule: rev_induct)
    case (snoc k ks)
    let ?e = "fold reap ks e"
    have ih: "tables_ok ?e" "exact_count ?e = exact_count e" "same_outside e ?e"
      "\<And>n. lookup n ?e = (if getShard (eHash e) (eShards e) n \<in> set ks \<and> (\<exists>c. lookup n e = Some c \<and> drained c)
         then None else lookup n e)"
      using snoc by auto
    have "k < length (eShards ?e)" and idx: "\<And>n. getShard (eHash ?e) (eShards ?e) n = getShard (eHash e) (eShards e) n"
      using snoc.prems ih(3) getShard_length by (auto simp: same_outside_def)
    note o = one [OF ih(1) this(1), unfolded idx]
    have "same_outside e (reap k ?e)" using o ih(3) same_outside_trans by blast
    moreover have "lookup n (reap k ?e) = (if getShard (eHash e) (eShards e) n \<in> set (ks @ [k])
        \<and> (\<exists>c. lookup n e = Some c \<and> drained c) then None else lookup n e)" for n
      unfolding o [THEN conjunct2, THEN conjunct2, THEN conjunct2, rule_format] ih(4)
      by (cases "lookup n e"; cases "getShard (eHash e) (eShards e) n \<in> set ks") auto
    ultimately show ?case using o ih(2) by simp
  qed (simp add: assms)
  have range: "set [0..<length (eShards e)] \<subseteq> {..<length (eShards e)}" by auto
  have eq: "reapEmptyChannels e = fold reap [0..<length (eShards e)] e"
    by (simp add: reapEmptyChannels_def reap_def [abs_def])
  have "getShard (eHash e) (eShards e) n < length (eShards e)" for n
    using assms getShard_less by (auto simp: tables_ok_def table_ok_def)
  then show "tables_ok (reapEmptyChannels e)" "exact_count (reapEmptyChannels e) = exact_count e"
    "same_outside e (reapEmptyChannels e)"
    "\<And>n. lookup n (reapEmptyChannels e) = (if \<exists>c. lookup n e = Some c \<and> drained c then None else lookup n e)"
    using all [OF range] unfolding eq by auto
qed

text \<open>After a reap nothing is drained, whatever the wildcard count.\<close>

lemma reap_engine_ok:
  assumes "tables_ok e" "pats_ok e" "subs_index.indexes (eSubs e) (live_rel e)"
    and "eSubscriptionCount e = exact_count e + ePatternSubs e"
  shows "engine_ok (reapEmptyChannels e)" "live_rel (reapEmptyChannels e) = live_rel e"
proof -
  note r = reapEmptyChannels_spec [OF assms(1)]
  show live: "live_rel (reapEmptyChannels e) = live_rel e"
    using r(4) by (auto simp: live_rel_def drained_def SubscriberCount_eq split: if_splits)
  have "pats_ok (reapEmptyChannels e)" using assms(2) r(3) pats_ok_cong [of "reapEmptyChannels e" e] by (simp add: same_outside_def)
  moreover have "no_leak (reapEmptyChannels e)" using r(4) by (auto simp: no_leak_def split: if_splits)
  ultimately show "engine_ok (reapEmptyChannels e)"
    using assms r(1-3) live by (simp add: engine_ok_def same_outside_def)
qed

section \<open>Unsubscribing\<close>

lemma settled_unsubscribe:
  assumes "settled e name ch" "sid \<in> set (Subscribers ch)"
  shows "settled e name (unsubscribe_ranked sid ch)"
proof -
  have "chMaxSubs (unsubscribe_ranked sid ch) = chMaxSubs ch" "chIdleReap (unsubscribe_ranked sid ch) = chIdleReap ch"
    "chHist (unsubscribe_ranked sid ch) = chHist ch"
    by (simp_all add: unsubscribe_ranked_def Channel_Unsubscribe_eq clearPriority_def rebuildTopCohort_eq Let_def split: option.splits)
  then show ?thesis using assms by (auto simp: settled_def SubscriberCount_eq length_remove1)
qed

lemma channel_ok_lastActive [simp]: "channel_ok (ch\<lparr>chLastActive := x\<rparr>) = channel_ok ch"
  by (simp add: channel_ok_def prios_ok_def hist_sync_def Subscribers_def split: option.splits)

lemma settled_lastActive [simp]: "settled e name (ch\<lparr>chLastActive := x\<rparr>) = settled e name ch"
  by (simp add: settled_def SubscriberCount_def)

lemma Subscribers_lastActive [simp]: "Subscribers (ch\<lparr>chLastActive := x\<rparr>) = Subscribers ch"
  by (simp add: Subscribers_def)

lemma store_same_outside: "same_outside e (store name c e)"
  by (simp add: same_outside_def) (simp add: store_def table_update_def Let_def)

lemma settle_spec:
  fixes now :: int
  assumes "tables_ok e" "lookup name e = Some ch0" "channel_ok ch" "settled e name ch"
    and "set (Subscribers ch) \<subseteq> set (Subscribers ch0)"
  defines "e' \<equiv> settle now name ch e"
  shows "tables_ok e'" "exact_count e' = exact_count e + SubscriberCount ch - SubscriberCount ch0"
    "same_outside e e'" "\<And>n. n \<noteq> name \<Longrightarrow> lookup n e' = lookup n e"
    "drained ch \<Longrightarrow> lookup name e' = None"
    "\<not> drained ch \<Longrightarrow> \<exists>c. lookup name e' = Some c \<and> Subscribers c = Subscribers ch \<and> chHist c = chHist ch"
proof -
  have t: "table_ok (eHash e) (eShards e)" using assms(1) by (simp add: tables_ok_def)
  define ch' where "ch' = (if SubscriberCount ch = 0 \<and> chIdleReap ch > 0 then ch\<lparr>chLastActive := now\<rparr> else ch)"
  have ch': "channel_ok ch'" "settled e name ch'" "Subscribers ch' = Subscribers ch" "chHist ch' = chHist ch"
    using assms(3,4) by (simp_all add: ch'_def)
  have eq: "e' = (if drained ch then drop_channel name ch e else store name ch' e)"
    by (simp add: e'_def settle_def drained_def ch'_def)
  note st = tables_ok_store [OF assms(1,2) ch'(1,2)]
  show "exact_count e' = exact_count e + SubscriberCount ch - SubscriberCount ch0" "tables_ok e'"
  proof -
    show "exact_count e' = exact_count e + SubscriberCount ch - SubscriberCount ch0"
    proof (cases "drained ch")
      case True
      have "exact_count (drop_channel name ch e) = exact_count e - SubscriberCount ch0"
        using table_delete_spec(3) [OF t, of SubscriberCount name] assms(2) by (simp add: exact_count_def lookup_def)
      with True show ?thesis by (simp add: eq drained_def)
    qed (simp add: eq st ch'(3) SubscriberCount_eq)
    show "tables_ok e'"
    proof (cases "drained ch")
      case True
      have "\<forall>x \<in> set (ePool (drop_channel name ch e)). pool_clean x"
        using assms(1) pool_clean_recycled [of ch] by (auto simp: tables_ok_def drop_channel_def split: prod.splits if_splits)
      then have "tables_ok (drop_channel name ch e)"
        using assms(1,2) table_delete_spec(1,3) [OF t, where name = name] lookup_drop [OF t]
          settled_cong [of "drop_channel name ch e" e]
        by (auto simp: tables_ok_def lookup_def split: if_splits)
      with True show ?thesis by (simp add: eq)
    qed (simp add: eq st)
  qed
  show "same_outside e e'"
    using store_same_outside table_delete_spec(4) [OF t] by (simp add: eq same_outside_def)
  show "\<And>n. n \<noteq> name \<Longrightarrow> lookup n e' = lookup n e"
    "drained ch \<Longrightarrow> lookup name e' = None"
    "\<not> drained ch \<Longrightarrow> \<exists>c. lookup name e' = Some c \<and> Subscribers c = Subscribers ch \<and> chHist c = chHist ch"
    using lookup_drop [OF t] lookup_store [OF t] ch'(3,4) by (simp_all add: eq)
qed

lemma settle_live:
  assumes "tables_ok e" "lookup name e = Some ch0" "channel_ok ch" "settled e name ch"
    and "set (Subscribers ch) = set (Subscribers ch0) - {sid}"
  shows "live_rel (settle now name ch e) = live_rel e - {(sid, name)}"
    and "no_leak e \<Longrightarrow> no_leak (settle now name ch e)"
proof -
  let ?e = "settle now name ch e"
  note st = settle_spec [where now = now, OF assms(1-4)]
  have sub: "set (Subscribers ch) \<subseteq> set (Subscribers ch0)" using assms(5) by auto
  have empty: "drained ch \<Longrightarrow> Subscribers ch = []" by (simp add: drained_def SubscriberCount_eq)
  have here: "(\<exists>c. lookup name ?e = Some c \<and> i \<in> set (Subscribers c)) \<longleftrightarrow> i \<in> set (Subscribers ch)" for i
    using st(5,6) [OF sub] empty by (cases "drained ch") auto
  show "live_rel ?e = live_rel e - {(sid, name)}"
  proof (rule set_eqI)
    fix x :: "SubscriberID \<times> string"
    obtain i n where x: "x = (i, n)" by (cases x)
    show "x \<in> live_rel ?e \<longleftrightarrow> x \<in> live_rel e - {(sid, name)}"
      using here [of i] st(4) [OF sub, of n] assms(2,5) by (cases "n = name") (auto simp: x live_rel_def)
  qed
  assume leak: "no_leak e"
  have "ePatternSubs ?e = ePatternSubs e" using st(3) [OF sub] by (simp add: same_outside_def)
  moreover have "\<not> drained c" if "lookup name ?e = Some c" for c
    using that st(5,6) [OF sub] by (cases "drained ch") (auto simp: drained_def SubscriberCount_eq)
  ultimately show "no_leak ?e"
    using leak st(4) [OF sub] unfolding no_leak_def by metis
qed

lemma Unsubscribe_eq:
  "Unsubscribe now sid name e0 =
     (let e = e0\<lparr>eUnsubscribeOps := eUnsubscribeOps e0 + 1\<rparr>
      in case lookup name e0 of
           None \<Rightarrow> (False, e)
         | Some ch \<Rightarrow>
             if sid \<in> set (Subscribers ch) then
               (let e1 = settle now name (unsubscribe_ranked sid ch) e
                in (True, e1\<lparr>eSubs := subscriptions_Remove sid name (eSubs e1),
                             eSubscriptionCount := eSubscriptionCount e1 - 1\<rparr>))
             else (False, e))"
  by (simp add: Unsubscribe_def Channel_Unsubscribe_eq unsubscribe_ranked_def Let_def split: option.splits)

lemma Unsubscribe_spec:
  assumes "engine_ok e" "Unsubscribe now sid name e = (ok, e')"
  shows "engine_ok e'" "ok \<longleftrightarrow> (sid, name) \<in> live_rel e" "live_rel e' = live_rel e - {(sid, name)}"
    "ePatterns e' = ePatterns e" "eConfig e' = eConfig e"
proof -
  let ?e = "e\<lparr>eUnsubscribeOps := eUnsubscribeOps e + 1\<rparr>"
  have inv: "tables_ok ?e" "pats_ok ?e" "subs_index.indexes (eSubs ?e) (live_rel ?e)"
    "eSubscriptionCount ?e = exact_count ?e + ePatternSubs ?e" "no_leak ?e" "engine_ok ?e"
    using assms(1) engine_ok_ops(2) [where e = e] unfolding engine_ok_def by blast+
  have same: "live_rel ?e = live_rel e" by (rule live_rel_cong) simp
  have main: "engine_ok e' \<and> (ok \<longleftrightarrow> (sid, name) \<in> live_rel e) \<and> live_rel e' = live_rel e - {(sid, name)}
    \<and> ePatterns e' = ePatterns e \<and> eConfig e' = eConfig e"
  proof (cases "(sid, name) \<in> live_rel e")
    case True
    then obtain ch where ch: "lookup name ?e = Some ch" "sid \<in> set (Subscribers ch)" by (auto simp: live_rel_def)
    let ?c = "unsubscribe_ranked sid ch"
    define e1 where "e1 = settle now name ?c ?e"
    have cok: "channel_ok ch" "settled ?e name ch" using inv(1) ch(1) unfolding tables_ok_def by blast+
    have subs: "Subscribers ?c = remove1 sid (Subscribers ch)" by (rule Subscribers_unsubscribe_ranked [OF ch(2)])
    have set: "set (Subscribers ?c) = set (Subscribers ch) - {sid}" "set (Subscribers ?c) \<subseteq> set (Subscribers ch)"
      using cok(1) subs by (auto simp: channel_ok_def)
    have cnt: "SubscriberCount ?c = SubscriberCount ch - 1"
      using subs length_remove1_mem [OF ch(2)] by (simp add: SubscriberCount_eq)
    note pre = inv(1) ch(1) channel_ok_unsubscribe [OF cok(1) ch(2)] settled_unsubscribe [OF cok(2) ch(2)]
    note st = settle_spec [where now = now, OF pre set(2), folded e1_def]
    note lv = settle_live [where now = now, OF pre set(1), folded e1_def]
    have e': "e' = e1\<lparr>eSubs := subscriptions_Remove sid name (eSubs e1), eSubscriptionCount := eSubscriptionCount e1 - 1\<rparr>" "ok"
      using assms(2) ch by (simp_all add: Unsubscribe_eq Let_def e1_def)
    have live: "live_rel e' = live_rel e - {(sid, name)}"
      using lv(1) same live_rel_cong [of e' e1] by (simp add: e')
    have idx: "subs_index.indexes (eSubs e') (live_rel e')"
      using subs_index.indexes_del [OF inv(3), of sid name] st(3) same unfolding live by (simp add: e' same_outside_def)
    have "pats_ok e'" using inv(2) st(3) pats_ok_cong [of e' ?e] by (simp add: e' same_outside_def)
    moreover have "no_leak e'" using lv(2) [OF inv(5)] by (simp add: no_leak_def e')
    ultimately have "engine_ok e'"
      using st(1,2,3) inv(4) cnt idx by (simp add: engine_ok_def e' same_outside_def)
    with live True e' st(3) show ?thesis by (simp add: same_outside_def)
  next
    case False
    then have "ok = False" "e' = ?e" using assms(2) by (auto simp: Unsubscribe_eq Let_def live_rel_def split: option.splits if_splits)
    with False inv(6) same show ?thesis by simp
  qed
  then show "engine_ok e'" "ok \<longleftrightarrow> (sid, name) \<in> live_rel e" "live_rel e' = live_rel e - {(sid, name)}"
    "ePatterns e' = ePatterns e" "eConfig e' = eConfig e" by blast+
qed

text \<open>What holds while \<^verbatim>\<open>UnsubscribeAll\<close> walks the channels, before it clears the index.\<close>

definition walk_ok :: "Engine \<Rightarrow> bool" where
  "walk_ok e \<longleftrightarrow> tables_ok e \<and> pats_ok e \<and> eSubscriptionCount e = exact_count e + ePatternSubs e \<and> no_leak e"

lemma leave_channel_spec:
  assumes "walk_ok e"
  shows "walk_ok (leave_channel now sid name e)"
    "live_rel (leave_channel now sid name e) = live_rel e - {(sid, name)}"
    "eSubs (leave_channel now sid name e) = eSubs e" "ePatterns (leave_channel now sid name e) = ePatterns e"
    "eConfig (leave_channel now sid name e) = eConfig e"
proof -
  let ?e' = "leave_channel now sid name e"
  have main: "walk_ok ?e' \<and> live_rel ?e' = live_rel e - {(sid, name)} \<and> eSubs ?e' = eSubs e
      \<and> ePatterns ?e' = ePatterns e \<and> eConfig ?e' = eConfig e"
  proof (cases "lookup name e")
    case None
    then show ?thesis using assms by (auto simp: leave_channel_def live_rel_def)
  next
    case (Some ch)
    define member where "member \<longleftrightarrow> sid \<in> set (Subscribers ch)"
    define c where "c = (if member then unsubscribe_ranked sid ch else ch)"
    define e1 where "e1 = (if member then e\<lparr>eSubscriptionCount := eSubscriptionCount e - 1\<rparr> else e)"
    have e': "?e' = settle now name c e1"
      using Some by (simp add: leave_channel_def Channel_Unsubscribe_eq unsubscribe_ranked_def c_def e1_def member_def Let_def)
    have ok1: "tables_ok e1" "no_leak e1" using assms by (auto simp: walk_ok_def e1_def no_leak_def)
    have look: "lookup name e1 = Some ch" using Some by (simp add: e1_def)
    have ch: "channel_ok ch" "settled e1 name ch" using ok1(1) look unfolding tables_ok_def by blast+
    have c: "channel_ok c" "settled e1 name c"
      using ch channel_ok_unsubscribe settled_unsubscribe by (auto simp: c_def member_def)
    have set: "set (Subscribers c) = set (Subscribers ch) - {sid}" "set (Subscribers c) \<subseteq> set (Subscribers ch)"
      using ch(1) by (auto simp: c_def member_def channel_ok_def)
    have cnt: "SubscriberCount c - SubscriberCount ch = (if member then -1 else 0)"
      using length_remove1_mem [of sid "Subscribers ch"] by (auto simp: c_def member_def SubscriberCount_eq)
    note st = settle_spec [where now = now, OF ok1(1) look c set(2), folded e']
    note lv = settle_live [where now = now, OF ok1(1) look c set(1), folded e']
    have "live_rel e1 = live_rel e" by (rule live_rel_cong) (simp add: e1_def)
    moreover have "pats_ok ?e'" using assms st(3) pats_ok_cong [of ?e' e] by (auto simp: walk_ok_def same_outside_def e1_def)
    moreover have "eSubscriptionCount ?e' = exact_count ?e' + ePatternSubs ?e'"
      using assms st(2,3) cnt by (auto simp: walk_ok_def same_outside_def e1_def)
    ultimately show ?thesis
      using st(1,3) lv ok1(2) by (auto simp: walk_ok_def same_outside_def e1_def)
  qed
  then show "walk_ok ?e'" "live_rel ?e' = live_rel e - {(sid, name)}" "eSubs ?e' = eSubs e"
    "ePatterns ?e' = ePatterns e" "eConfig ?e' = eConfig e" by blast+
qed

lemma leave_all_spec:
  assumes "walk_ok e"
  shows "walk_ok (fold (leave_channel now sid) names e)
    \<and> live_rel (fold (leave_channel now sid) names e) = live_rel e - {sid} \<times> set names
    \<and> eSubs (fold (leave_channel now sid) names e) = eSubs e
    \<and> ePatterns (fold (leave_channel now sid) names e) = ePatterns e
    \<and> eConfig (fold (leave_channel now sid) names e) = eConfig e"
  using assms
proof (induction names arbitrary: e)
  case (Cons name names)
  from Cons.IH [OF leave_channel_spec(1) [OF Cons.prems]] leave_channel_spec [OF Cons.prems, where name = name]
  show ?case by auto
qed simp

section \<open>Wildcard subscriptions\<close>

text \<open>Replacing the registry: what the rest of the invariant needs of it.\<close>

lemma pats_ok_replace:
  assumes "patterns_ok p" "caches_ok (\<lambda>_. prSnap p) p" "prScoped p = (cfgNamespaces (eConfig e) \<noteq> None)"
    and "ePatternSubs e = pattern_count p" "\<And>i pat. (i, pat) \<in> pattern_rel p \<Longrightarrow> admitted e pat" "ePatterns e = p"
  shows "pats_ok e"
  using assms by (simp add: pats_ok_def)

lemma admitted_cong: "eConfig e = eConfig e' \<Longrightarrow> admitted e pat = admitted e' pat"
  by (simp add: admitted_def)

lemma SubscribePattern_eq:
  "SubscribePattern sid pat e =
     (if admitted e pat then
        (let e1 = e\<lparr>eSubscribeOps := eSubscribeOps e + 1\<rparr>
         in case patterns_add sid pat (ePatterns e) of
              (False, p) \<Rightarrow> (Some ErrAlreadySubscribed, e1\<lparr>ePatterns := p\<rparr>)
            | (True, p) \<Rightarrow> (None, e1\<lparr>ePatterns := p, ePatternSubs := ePatternSubs e + 1,
                                    eSubscriptionCount := eSubscriptionCount e + 1\<rparr>))
      else (Some (case cfgNamespaces (eConfig e) of
                    Some r \<Rightarrow> if \<not> IsPattern (Prefix pat) \<and> \<not> snd (Resolve r pat) then ErrUnknownNamespace
                              else ErrWildcardDenied
                  | None \<Rightarrow> ErrWildcardDenied), e))"
proof (cases "cfgNamespaces (eConfig e)")
  case None
  then show ?thesis by (simp add: SubscribePattern_def admitted_def Let_def split: prod.splits bool.splits)
next
  case (Some r)
  have "fst (Split pat) = Prefix pat" by (rule Split_Prefix)
  then obtain rest found where "Split pat = (Prefix pat, rest, found)" by (cases "Split pat") auto
  with Some show ?thesis
    by (cases "Resolve r pat") (auto simp: SubscribePattern_def admitted_def Let_def split: prod.splits bool.splits)
qed

lemma SubscribePattern_spec:
  assumes "engine_ok e" "SubscribePattern sid pat e = (err, e')"
  shows "engine_ok e'" "live_rel e' = live_rel e" "eConfig e' = eConfig e"
    "pattern_rel (ePatterns e') = (if err = None then insert (sid, pat) (pattern_rel (ePatterns e)) else pattern_rel (ePatterns e))"
    "err = None \<Longrightarrow> admitted e pat"
proof -
  obtain ok p where add: "patterns_add sid pat (ePatterns e) = (ok, p)" by (cases "patterns_add sid pat (ePatterns e)")
  have pok: "pats_ok e" and p0: "patterns_ok (ePatterns e)" and m0: "maps_ok (ePatterns e)"
    using assms(1) by (simp_all add: engine_ok_def pats_ok_def patterns_ok_def)
  note spec = patterns_add_spec [OF p0 add]
  have caches: "caches_ok (\<lambda>_. prSnap p) p"
    using mutation_publishes(1) [OF m0 add] pok by (auto simp: pats_ok_def)
  have main: "engine_ok e' \<and> live_rel e' = live_rel e \<and> eConfig e' = eConfig e
    \<and> pattern_rel (ePatterns e') = (if err = None then insert (sid, pat) (pattern_rel (ePatterns e)) else pattern_rel (ePatterns e))
    \<and> (err = None \<longrightarrow> admitted e pat)"
  proof (cases "admitted e pat")
    case True
    define d :: int where "d = (if ok then 1 else 0)"
    define e2 where "e2 = e\<lparr>eSubscribeOps := eSubscribeOps e + 1, ePatterns := p, ePatternSubs := ePatternSubs e + d,
        eSubscriptionCount := eSubscriptionCount e + d\<rparr>"
    have e': "e' = e2" "err = (if ok then None else Some ErrAlreadySubscribed)"
      using assms(2) True add by (auto simp: SubscribePattern_eq e2_def d_def Let_def)
    have live: "live_rel e2 = live_rel e" by (rule live_rel_cong) (simp add: e2_def)
    have "pats_ok e2"
    proof (rule pats_ok_replace)
      show "admitted e2 q" if "(i, q) \<in> pattern_rel p" for i q
        using that spec(3) pok True admitted_cong [of e2 e q] by (auto simp: e2_def pats_ok_def)
    qed (use spec caches pok in \<open>simp_all add: e2_def d_def pats_ok_def\<close>)
    moreover have "no_leak e2"
      using assms(1) unfolding engine_ok_def no_leak_def by (fastforce simp: e2_def d_def)
    ultimately have "engine_ok e2"
      using assms(1) live by (simp add: engine_ok_def) (simp add: e2_def)
    with live e' spec True show ?thesis by (auto simp: e2_def)
  next
    case False
    with assms show ?thesis by (auto simp: SubscribePattern_eq)
  qed
  then show "engine_ok e'" "live_rel e' = live_rel e" "eConfig e' = eConfig e"
    "pattern_rel (ePatterns e') = (if err = None then insert (sid, pat) (pattern_rel (ePatterns e)) else pattern_rel (ePatterns e))"
    "err = None \<Longrightarrow> admitted e pat" by blast+
qed

text \<open>
  Losing wildcard subscriptions: the registry shrinks, the counters follow, and when the last one
  is gone the drained channels are reaped.
\<close>

lemma lose_patterns:
  assumes "tables_ok e" "pats_ok e" "subs_index.indexes (eSubs e) (live_rel e)"
    and "eSubscriptionCount e = exact_count e + ePatternSubs e" "no_leak e"
    and "patterns_ok p" "caches_ok (\<lambda>_. prSnap p) p" "prScoped p = prScoped (ePatterns e)"
    and "pattern_rel p \<subseteq> pattern_rel (ePatterns e)" "pattern_count p = pattern_count (ePatterns e) - int n" "0 < n"
    and "e1 = e\<lparr>ePatterns := p, eUnsubscribeOps := x, eSubscriptionCount := eSubscriptionCount e - int n,
           ePatternSubs := ePatternSubs e - int n\<rparr>"
    and "e' = (if ePatternSubs e1 = 0 then reapEmptyChannels e1 else e1)"
  shows "engine_ok e'" "live_rel e' = live_rel e" "ePatterns e' = p" "eConfig e' = eConfig e"
proof -
  have live: "live_rel e1 = live_rel e" by (rule live_rel_cong) (simp add: assms(12))
  have adm: "admitted e1 pat" if "(i, pat) \<in> pattern_rel p" for i pat
    using that assms(2,9) admitted_cong [of e1 e pat] by (auto simp: pats_ok_def assms(12))
  have pats: "pats_ok e1"
    by (rule pats_ok_replace [OF assms(6,7) _ _ adm]) (use assms(2,8,10) in \<open>simp_all add: assms(12) pats_ok_def\<close>)
  have parts: "tables_ok e1" "subs_index.indexes (eSubs e1) (live_rel e1)"
    "eSubscriptionCount e1 = exact_count e1 + ePatternSubs e1"
    using assms(1,3,4) live by (simp_all add: assms(12))
  have nonneg: "0 \<le> ePatternSubs e1"
  proof -
    have "0 \<le> total_len (prSubs p)" unfolding total_len_def by (intro sum_list_nonneg) auto
    then show ?thesis using pats by (simp add: pats_ok_def pattern_count_def assms(12))
  qed
  note reap = reap_engine_ok [OF parts(1) pats parts(2,3)]
  show "engine_ok e'"
  proof (cases "ePatternSubs e1 = 0")
    case False
    then have "no_leak e1" using nonneg by (auto simp: no_leak_def)
    then show ?thesis using False parts pats by (simp add: engine_ok_def assms(13))
  qed (simp add: reap assms(13))
  show "live_rel e' = live_rel e" using reap(2) live by (simp add: assms(13))
  show "ePatterns e' = p" "eConfig e' = eConfig e"
    using reapEmptyChannels_spec(3) [OF parts(1)] by (auto simp: assms(12,13) same_outside_def)
qed

lemma UnsubscribePattern_spec:
  assumes "engine_ok e" "UnsubscribePattern sid pat e = (ok, e')"
  shows "engine_ok e'" "live_rel e' = live_rel e" "eConfig e' = eConfig e"
    "pattern_rel (ePatterns e') = pattern_rel (ePatterns e) - {(sid, pat)}"
    "ok \<longleftrightarrow> (sid, pat) \<in> pattern_rel (ePatterns e)"
proof -
  obtain b p where r: "patterns_remove sid pat (ePatterns e) = (b, p)" by (cases "patterns_remove sid pat (ePatterns e)")
  have inv: "tables_ok e" "pats_ok e" "subs_index.indexes (eSubs e) (live_rel e)"
    "eSubscriptionCount e = exact_count e + ePatternSubs e" "no_leak e"
    using assms(1) by (simp_all add: engine_ok_def)
  have p0: "patterns_ok (ePatterns e)" and m0: "maps_ok (ePatterns e)" using inv(2) by (simp_all add: pats_ok_def patterns_ok_def)
  note spec = patterns_remove_spec [OF p0 r]
  have caches: "caches_ok (\<lambda>_. prSnap p) p" using mutation_publishes(2) [OF m0 r] inv(2) by (auto simp: pats_ok_def)
  have main: "engine_ok e' \<and> live_rel e' = live_rel e \<and> eConfig e' = eConfig e \<and> ePatterns e' = p \<and> ok = b"
  proof (cases b)
    case True
    define e1 where "e1 = e\<lparr>ePatterns := p, eUnsubscribeOps := eUnsubscribeOps e + 1,
        eSubscriptionCount := eSubscriptionCount e - int 1, ePatternSubs := ePatternSubs e - int 1\<rparr>"
    have e': "e' = (if ePatternSubs e1 = 0 then reapEmptyChannels e1 else e1)" "ok"
      using assms(2) r True by (auto simp: UnsubscribePattern_def Let_def e1_def)
    have "pattern_rel p \<subseteq> pattern_rel (ePatterns e)" "pattern_count p = pattern_count (ePatterns e) - int 1"
      using spec(3,4) True by auto
    from lose_patterns [OF inv spec(1) caches spec(5) this _ e1_def e'(1)] e'(2) True show ?thesis by simp
  next
    case False
    then have "p = ePatterns e" using r m0 by (auto simp: patterns_remove_def removeLocked_eq split: if_splits)
    then show ?thesis using assms r False by (auto simp: UnsubscribePattern_def)
  qed
  then show "engine_ok e'" "live_rel e' = live_rel e" "eConfig e' = eConfig e"
    "pattern_rel (ePatterns e') = pattern_rel (ePatterns e) - {(sid, pat)}"
    "ok \<longleftrightarrow> (sid, pat) \<in> pattern_rel (ePatterns e)" using spec by auto
qed

lemma UnsubscribeAll_spec:
  assumes "engine_ok e" "e' = UnsubscribeAll now sid e"
  shows "engine_ok e'" "live_rel e' = live_rel e - {sid} \<times> UNIV" "eConfig e' = eConfig e"
    "pattern_rel (ePatterns e') = pattern_rel (ePatterns e) - {sid} \<times> UNIV"
proof -
  let ?chs = "GetChannels sid (eSubs e)"
  define e1 where "e1 = (if length ?chs > 0 then e\<lparr>eUnsubscribeOps := eUnsubscribeOps e + int (length ?chs)\<rparr> else e)"
  define e2 where "e2 = fold (leave_channel now sid) ?chs e1"
  define e3 where "e3 = e2\<lparr>eSubs := subscriptions_RemoveAll sid (eSubs e2)\<rparr>"
  obtain n p where r: "patterns_removeAll sid (ePatterns e3) = (n, p)" by (cases "patterns_removeAll sid (ePatterns e3)")
  have ok1: "engine_ok e1" using assms(1) by (simp add: e1_def)
  have live1: "live_rel e1 = live_rel e" by (rule live_rel_cong) (simp add: e1_def)
  have f1: "eSubs e1 = eSubs e" "ePatterns e1 = ePatterns e" "eConfig e1 = eConfig e" by (simp_all add: e1_def)
  have "walk_ok e1" using ok1 by (simp add: walk_ok_def engine_ok_def)
  note w = leave_all_spec [OF this, of now sid ?chs, folded e2_def]
  have chs: "set ?chs = {c. (sid, c) \<in> live_rel e}"
    using assms(1) subs_index.indexes_listing [of "eSubs e" "live_rel e" sid] by (simp add: engine_ok_def)
  have live2: "live_rel e2 = live_rel e - {sid} \<times> UNIV" using w live1 chs by auto
  have live3: "live_rel e3 = live_rel e - {sid} \<times> UNIV" using live2 live_rel_cong [of e3 e2] by (simp add: e3_def)
  have idx: "subs_index.indexes (eSubs e3) (live_rel e3)"
    using subs_index.indexes_clear [of "eSubs e" "live_rel e" sid] assms(1) w f1 unfolding live3
    by (simp add: e3_def engine_ok_def)
  have inv: "tables_ok e3" "pats_ok e3" "eSubscriptionCount e3 = exact_count e3 + ePatternSubs e3" "no_leak e3"
    using w pats_ok_cong [of e3 e2] by (auto simp: walk_ok_def e3_def no_leak_def)
  have p3: "ePatterns e3 = ePatterns e" "eConfig e3 = eConfig e" using w f1 by (simp_all add: e3_def)
  have p0: "patterns_ok (ePatterns e3)" and m0: "maps_ok (ePatterns e3)"
    using inv(2) by (simp_all add: pats_ok_def patterns_ok_def)
  note spec = patterns_removeAll_spec [OF p0 r]
  have caches: "caches_ok (\<lambda>_. prSnap p) p"
    using mutation_publishes(3) [OF m0 r] inv(2) by (auto simp: pats_ok_def)
  have main: "engine_ok e' \<and> live_rel e' = live_rel e3 \<and> ePatterns e' = p \<and> eConfig e' = eConfig e3"
  proof (cases "n > 0")
    case True
    define e5 where "e5 = e3\<lparr>ePatterns := p, eUnsubscribeOps := eUnsubscribeOps e3 + int n,
        eSubscriptionCount := eSubscriptionCount e3 - int n, ePatternSubs := ePatternSubs e3 - int n\<rparr>"
    have e': "e' = (if ePatternSubs e5 = 0 then reapEmptyChannels e5 else e5)"
      using assms(2) r True
      by (simp add: UnsubscribeAll_def Let_def e5_def e3_def e2_def e1_def)
    have "pattern_rel p \<subseteq> pattern_rel (ePatterns e3)" using spec(2) by auto
    from lose_patterns [OF inv(1,2) idx inv(3,4) spec(1) caches spec(5) this spec(3) True e5_def e'] show ?thesis by simp
  next
    case False
    then have "length (gl (prByID (ePatterns e3)) sid) = 0" using r by (simp add: patterns_removeAll_def Let_def)
    then have "p = ePatterns e3" using r by (simp add: patterns_removeAll_def Let_def)
    then have "e' = e3"
      using assms(2) r False by (simp add: UnsubscribeAll_def Let_def e3_def e2_def e1_def)
    then show ?thesis using inv idx \<open>p = ePatterns e3\<close> by (simp add: engine_ok_def)
  qed
  then show "engine_ok e'" "live_rel e' = live_rel e - {sid} \<times> UNIV" "eConfig e' = eConfig e"
    "pattern_rel (ePatterns e') = pattern_rel (ePatterns e) - {sid} \<times> UNIV"
    using live3 spec(2) p3 by simp_all
qed

end
