(* ===== verification/Engine_Publish.thy ===== *)
theory Engine_Publish
  imports Engine_Inv
begin

text \<open>
  What a publication does: it keeps the engine's invariant, reaches exactly the subscribers it
  must, numbers publications consecutively, and leaves in the history what a recovery returns.
\<close>

section \<open>A publication in flight\<close>

text \<open>
  While a publisher holds a channel its reference count is one; everything else about the table is
  as the invariant says.
\<close>

definition tables_upto :: "string \<Rightarrow> Engine \<Rightarrow> bool" where
  "tables_upto name e \<longleftrightarrow> table_ok (eHash e) (eShards e)
     \<and> (\<forall>n ch. n \<noteq> name \<longrightarrow> lookup n e = Some ch \<longrightarrow> channel_ok ch \<and> settled e n ch)
     \<and> (\<forall>c \<in> set (ePool e). pool_clean c)
     \<and> eChannelCount e = table_total (\<lambda>_. 1) (eShards e)"

definition held_ok :: "Engine \<Rightarrow> string \<Rightarrow> Channel \<Rightarrow> bool" where
  "held_ok e name ch \<longleftrightarrow> chRefs ch = 1 \<and> channel_ok (ch\<lparr>chRefs := 0\<rparr>) \<and> settled e name ch"

definition flight_ok :: "string \<Rightarrow> Channel \<Rightarrow> Engine \<Rightarrow> bool" where
  "flight_ok name ch e \<longleftrightarrow> tables_upto name e \<and> lookup name e = Some ch \<and> held_ok e name ch \<and> pats_ok e
     \<and> subs_index.indexes (eSubs e) (live_rel e) \<and> eSubscriptionCount e = exact_count e + ePatternSubs e \<and> no_leak e"

lemma tables_ok_upto: "tables_ok e \<Longrightarrow> tables_upto name e"
  by (auto simp: tables_ok_def tables_upto_def)

lemma store_upto:
  assumes "tables_upto name e" "lookup name e = Some ch" "Subscribers ch' = Subscribers ch"
  shows "tables_upto name (store name ch' e)" "exact_count (store name ch' e) = exact_count e"
    "lookup n (store name ch' e) = (if n = name then Some ch' else lookup n e)"
    "live_rel (store name ch' e) = live_rel e"
    "chHist ch' = None \<longleftrightarrow> chHist ch = None \<Longrightarrow> no_leak e \<Longrightarrow> no_leak (store name ch' e)"
    "channel_ok ch' \<Longrightarrow> settled e name ch' \<Longrightarrow> tables_ok (store name ch' e)"
proof -
  have t: "table_ok (eHash e) (eShards e)" using assms(1) by (simp add: tables_upto_def)
  note put = table_put [OF t, of "table_update (eHash e) name ch' (eShards e)" name ch']
  have look: "lookup n (store name ch' e) = (if n = name then Some ch' else lookup n e)" for n
    by (rule lookup_store [OF t])
  show "lookup n (store name ch' e) = (if n = name then Some ch' else lookup n e)" by (rule look)
  have one: "eChannelCount (store name ch' e) = table_total (\<lambda>_. 1) (eShards (store name ch' e))"
    using assms(1,2) put(3) [of "\<lambda>_. 1"] by (simp add: tables_upto_def store_def lookup_def)
  have ok: "table_ok (eHash (store name ch' e)) (eShards (store name ch' e))"
    using put(1) by (simp add: store_def)
  show "tables_upto name (store name ch' e)"
    using assms(1) ok one look settled_cong [of "store name ch' e" e] by (simp add: tables_upto_def)
  show "exact_count (store name ch' e) = exact_count e"
    using assms(2,3) put(3) [of SubscriberCount] by (simp add: exact_count_def store_def lookup_def SubscriberCount_eq)
  show "live_rel (store name ch' e) = live_rel e"
    using assms(2,3) by (auto simp: live_rel_def look split: if_splits)
  show "no_leak (store name ch' e)" if "chHist ch' = None \<longleftrightarrow> chHist ch = None" "no_leak e"
    using that assms(2,3) by (auto simp: no_leak_def look drained_def SubscriberCount_eq split: if_splits)
  show "tables_ok (store name ch' e)" if "channel_ok ch'" "settled e name ch'"
    using assms(1) ok one look settled_cong [of "store name ch' e" e] that
    by (auto simp: tables_upto_def tables_ok_def split: if_splits)
qed

section \<open>The parts of a publication\<close>

lemma bump_facts [simp]:
  "eConfig (bump name a b c d e) = eConfig e" "eSubs (bump name a b c d e) = eSubs e"
  "ePatterns (bump name a b c d e) = ePatterns e" "eHash (bump name a b c d e) = eHash e"
  "ePool (bump name a b c d e) = ePool e" "eChannelCount (bump name a b c d e) = eChannelCount e"
  "eSubscriptionCount (bump name a b c d e) = eSubscriptionCount e" "ePatternSubs (bump name a b c d e) = ePatternSubs e"
  by (simp_all add: bump_def Let_def)

lemma bump_shards:
  "map shChannels (eShards (bump name a b c d e)) = map shChannels (eShards e)"
proof -
  have "map shChannels (xs[k := (xs ! k)\<lparr>shPublish := p, shDelivered := q, shDropped := r, shBytes := t\<rparr>]) = map shChannels xs"
    for xs k p q r t by (induction xs arbitrary: k) (auto split: nat.splits)
  then show ?thesis by (simp add: bump_def Let_def)
qed

text \<open>Nothing but the counters of a shard sees a change of those counters.\<close>

lemma same_channels:
  assumes "map shChannels xs = map shChannels ys"
  shows "table_ok h xs = table_ok h ys" "table_ok h ys \<Longrightarrow> find_channel h n xs = find_channel h n ys"
    and "table_total f xs = table_total f ys"
proof -
  have len: "length xs = length ys" by (rule map_eq_imp_length_eq [OF assms])
  have nth: "shChannels (xs ! k) = shChannels (ys ! k)" if "k < length ys" for k
    using arg_cong [OF assms, of "\<lambda>l. l ! k"] that len by simp
  have idx: "getShard h xs n = getShard h ys n" for n by (rule getShard_length [OF len])
  show "table_ok h xs = table_ok h ys" by (auto simp: table_ok_def len nth idx)
  show "find_channel h n xs = find_channel h n ys" if "table_ok h ys"
  proof -
    have "getShard h ys n < length ys" using that getShard_less by (auto simp: table_ok_def)
    then show ?thesis by (simp add: find_channel_def idx nth)
  qed
  have "map (shard_total f) xs = map (shard_total f) ys"
    using assms len nth by (intro nth_equalityI) (auto simp: shard_total_def)
  then show "table_total f xs = table_total f ys" by (simp add: table_total_def)
qed

lemma lookup_bump [simp]: "table_ok (eHash e) (eShards e) \<Longrightarrow> lookup n (bump name a b c d e) = lookup n e"
  using same_channels(2) [OF bump_shards] by (simp add: lookup_def)

lemma tables_ok_bump [simp]: "tables_ok (bump name a b c d e) = tables_ok e"
  using same_channels(1) [OF bump_shards [of name a b c d e], of "eHash e"]
    same_channels(3) [OF bump_shards [of name a b c d e]]
    settled_cong [of "bump name a b c d e" e]
  by (auto simp: tables_ok_def)

lemma tables_upto_bump [simp]: "tables_upto n (bump name a b c d e) = tables_upto n e"
  using same_channels(1) [OF bump_shards [of name a b c d e], of "eHash e"]
    same_channels(3) [OF bump_shards [of name a b c d e]]
    settled_cong [of "bump name a b c d e" e]
  by (auto simp: tables_upto_def)

lemma exact_count_bump [simp]: "exact_count (bump name a b c d e) = exact_count e"
  by (simp add: exact_count_def same_channels(3) [OF bump_shards])

lemma bump_relations:
  assumes "table_ok (eHash e) (eShards e)"
  shows "live_rel (bump name a b c d e) = live_rel e" "no_leak (bump name a b c d e) = no_leak e"
    "pats_ok (bump name a b c d e) = pats_ok e" "settled (bump name a b c d e) n ch = settled e n ch"
  using assms live_rel_cong [of "bump name a b c d e" e] pats_ok_cong [of "bump name a b c d e" e]
    settled_cong [of "bump name a b c d e" e]
  by (simp_all add: no_leak_def)

lemma engine_ok_bump: "engine_ok e \<Longrightarrow> engine_ok (bump name a b c d e)"
proof -
  assume ok: "engine_ok e"
  then have t: "table_ok (eHash e) (eShards e)" by (simp add: engine_ok_def tables_ok_def)
  from ok show ?thesis by (simp add: engine_ok_def bump_relations [OF t])
qed

lemma flight_ok_bump: "flight_ok n ch e \<Longrightarrow> flight_ok n ch (bump name a b c d e)"
proof -
  assume ok: "flight_ok n ch e"
  then have t: "table_ok (eHash e) (eShards e)" by (simp add: flight_ok_def tables_upto_def)
  from ok show ?thesis by (simp add: flight_ok_def held_ok_def bump_relations [OF t] t)
qed

text \<open>The wildcard recipients of a channel.\<close>

definition wild_rel :: "Engine \<Rightarrow> string \<Rightarrow> SubscriberID set" where
  "wild_rel e channel = {i. \<exists>pat. (i, pat) \<in> pattern_rel (ePatterns e) \<and> glob pat channel
     \<and> (cfgNamespaces (eConfig e) \<noteq> None \<longrightarrow> Prefix pat = Prefix channel)}"

lemma pattern_count_zero:
  assumes "patterns_ok p" "pattern_count p = 0"
  shows "pattern_rel p = {}"
proof -
  have zero: "\<forall>v \<in> set (map (\<lambda>(k, v). int (length v)) (prSubs p)). v = 0"
    using assms(2) unfolding pattern_count_def total_len_def
    by (subst (asm) sum_list_nonneg_eq_0_iff) auto
  have "gl (prSubs p) pat = []" for pat
    using zero gget_SomeD [of "prSubs p" pat] by (fastforce simp: gl_def split: option.splits)
  then show ?thesis by (simp add: pattern_rel_def)
qed

lemma match_ids_spec:
  assumes "pats_ok e" "match_ids order channel e = (ids, e')"
  shows "set ids = wild_rel e channel" "distinct ids" "ePatternSubs e = 0 \<Longrightarrow> ids = []"
    and "\<exists>p. e' = e\<lparr>ePatterns := p\<rparr> \<and> pattern_rel p = pattern_rel (ePatterns e)" "pats_ok e'"
proof -
  obtain ids' p where s: "subscribersFor order channel (ePatterns e) = (ids', p)" by (cases "subscribersFor order channel (ePatterns e)")
  note at = s [unfolded subscribersFor_def]
  have ok: "patterns_ok (ePatterns e)" "maps_ok (ePatterns e)" "caches_ok (\<lambda>_. prSnap (ePatterns e)) (ePatterns e)"
    "prScoped (ePatterns e) = (cfgNamespaces (eConfig e) \<noteq> None)"
    using assms(1) by (simp_all add: pats_ok_def patterns_ok_def)
  have ids': "ids' = compute_match (prScoped (ePatterns e)) (prSnap (ePatterns e)) channel"
    using subscribersFor_at_result [OF ok(3,2) refl, of order channel] at by simp
  have none: "wild_rel e channel = {}" if "ePatternSubs e = 0"
    using pattern_count_zero [OF ok(1)] that assms(1) by (simp add: pats_ok_def wild_rel_def)
  show "set ids = wild_rel e channel" "distinct ids"
    using assms(2) s ids' snap_match [OF ok(1), of channel] compute_match_spec(2) none ok(4)
    by (auto simp: match_ids_def wild_rel_def split: if_splits)
  show "ePatternSubs e = 0 \<Longrightarrow> ids = []" using assms(2) by (simp add: match_ids_def)
  note f = subscribersFor_at_fields [OF at]
  have rel: "pattern_rel p = pattern_rel (ePatterns e)" by (simp add: pattern_rel_def f)
  show "\<exists>p. e' = e\<lparr>ePatterns := p\<rparr> \<and> pattern_rel p = pattern_rel (ePatterns e)"
    using assms(2) s rel by (auto simp: match_ids_def split: if_splits intro: exI [of _ "ePatterns e"])
  have "caches_ok (\<lambda>_. prSnap p) p" using subscribersFor_at_caches [OF ok(3,2) refl at] f(4) by simp
  then show "pats_ok e'"
    using assms s f rel by (auto simp: match_ids_def pats_ok_def patterns_ok_def maps_ok_def pattern_count_def
        admitted_def split: if_splits)
qed

section \<open>Finding the channel\<close>

lemma Acquire_held:
  assumes "channel_ok ch" "settled e name ch"
  shows "held_ok e name (Acquire ch)" "Subscribers (Acquire ch) = Subscribers ch" "chHist (Acquire ch) = chHist ch"
    "chOffset (Acquire ch) = chOffset ch" "chEpoch (Acquire ch) = chEpoch ch"
proof -
  have "(Acquire ch)\<lparr>chRefs := 0\<rparr> = ch" using assms(1) by (cases ch) (simp add: Acquire_def channel_ok_def)
  then show "held_ok e name (Acquire ch)"
    using assms by (simp add: held_ok_def) (simp add: settled_def Acquire_def channel_ok_def SubscriberCount_def)
qed (simp_all add: Acquire_def Subscribers_def)

text \<open>Acquiring a channel of a sound table puts a publication in flight.\<close>

lemma acquire_flight:
  assumes "tables_ok e" "lookup name e = Some ch" "pats_ok e" "subs_index.indexes (eSubs e) (live_rel e)"
    and "eSubscriptionCount e = exact_count e + ePatternSubs e" "no_leak e"
  shows "flight_ok name (Acquire ch) (store name (Acquire ch) e)" "live_rel (store name (Acquire ch) e) = live_rel e"
    "\<And>n. n \<noteq> name \<Longrightarrow> lookup n (store name (Acquire ch) e) = lookup n e"
proof -
  have ch: "channel_ok ch" "settled e name ch" using assms(1,2) unfolding tables_ok_def by blast+
  note acq = Acquire_held [OF ch]
  note st = store_upto [OF tables_ok_upto [OF assms(1)] assms(2) acq(2)]
  have "held_ok (store name (Acquire ch) e) name (Acquire ch)"
    using acq(1) settled_cong [of "store name (Acquire ch) e" e] by (simp add: held_ok_def)
  moreover have "pats_ok (store name (Acquire ch) e)" using assms(3) pats_ok_cong [of "store name (Acquire ch) e" e] by simp
  ultimately show "flight_ok name (Acquire ch) (store name (Acquire ch) e)"
    using st assms acq(3) by (simp add: flight_ok_def)
  show "live_rel (store name (Acquire ch) e) = live_rel e" by (rule st(4))
  show "\<And>n. n \<noteq> name \<Longrightarrow> lookup n (store name (Acquire ch) e) = lookup n e" using st(3) by simp
qed

text \<open>Filling a cache entry changes nothing the invariant or a lookup sees.\<close>

lemma cache_fill:
  assumes "engine_ok e" "match_ids order channel e = (ids, e')"
  shows "engine_ok e'" "\<And>n. lookup n e' = lookup n e" "eConfig e' = eConfig e" "ePatternSubs e' = ePatternSubs e"
    "pattern_rel (ePatterns e') = pattern_rel (ePatterns e)" "live_rel e' = live_rel e"
proof -
  have p: "pats_ok e" using assms(1) by (simp add: engine_ok_def)
  obtain q where q: "e' = e\<lparr>ePatterns := q\<rparr>" "pattern_rel q = pattern_rel (ePatterns e)"
    using match_ids_spec(4) [OF p assms(2)] by blast
  show l: "\<And>n. lookup n e' = lookup n e" by (simp add: q)
  show lv: "live_rel e' = live_rel e" by (rule live_rel_cong) (rule l)
  show "engine_ok e'"
    using assms(1) match_ids_spec(5) [OF p assms(2)] l lv by (simp add: engine_ok_def no_leak_def) (simp add: q)
  show "eConfig e' = eConfig e" "ePatternSubs e' = ePatternSubs e" "pattern_rel (ePatterns e') = pattern_rel (ePatterns e)"
    by (simp_all add: q)
qed

lemma pattern_count_nonneg: "0 \<le> pattern_count p"
  unfolding pattern_count_def total_len_def by (intro sum_list_nonneg) auto

lemma publish_target_spec:
  assumes "engine_ok e" "publish_target now ep order channel e = (t, e')"
  shows "eConfig e' = eConfig e" "pattern_rel (ePatterns e') = pattern_rel (ePatterns e)" "live_rel e' = live_rel e"
    "\<And>n. n \<noteq> channel \<Longrightarrow> lookup n e' = lookup n e"
    and "t = None \<Longrightarrow> engine_ok e' \<and> lookup channel e = None
      \<and> (wild_rel e channel = {} \<or> \<not> snd (channelSettings channel e))"
    and "\<And>ch. t = Some ch \<Longrightarrow> flight_ok channel ch e'
      \<and> (case lookup channel e of
           Some c0 \<Rightarrow> ch = Acquire c0
         | None \<Rightarrow> wild_rel e channel \<noteq> {} \<and> Subscribers ch = [] \<and> chOffset ch = 0 \<and> chEpoch ch = ep)"
proof -
  have inv: "tables_ok e" "pats_ok e" "subs_index.indexes (eSubs e) (live_rel e)"
    "eSubscriptionCount e = exact_count e + ePatternSubs e" "no_leak e" using assms(1) by (simp_all add: engine_ok_def)
  have main: "eConfig e' = eConfig e \<and> pattern_rel (ePatterns e') = pattern_rel (ePatterns e) \<and> live_rel e' = live_rel e
    \<and> (\<forall>n. n \<noteq> channel \<longrightarrow> lookup n e' = lookup n e)
    \<and> (t = None \<longrightarrow> engine_ok e' \<and> lookup channel e = None \<and> (wild_rel e channel = {} \<or> \<not> snd (channelSettings channel e)))
    \<and> (\<forall>ch. t = Some ch \<longrightarrow> flight_ok channel ch e'
      \<and> (case lookup channel e of Some c0 \<Rightarrow> ch = Acquire c0
         | None \<Rightarrow> wild_rel e channel \<noteq> {} \<and> Subscribers ch = [] \<and> chOffset ch = 0 \<and> chEpoch ch = ep))"
  proof (cases "lookup channel e")
    case (Some c0)
    then have "t = Some (Acquire c0)" "e' = store channel (Acquire c0) e"
      using assms(2) by (simp_all add: publish_target_def Let_def)
    with acquire_flight [OF inv(1) Some inv(2-5)] Some show ?thesis by simp
  next
    case None
    obtain ids e1 where m: "match_ids order channel e = (ids, e1)" by (cases "match_ids order channel e")
    note fill = cache_fill [OF assms(1) m]
    note ids = match_ids_spec [OF inv(2) m]
    have none1: "lookup channel e1 = None" using fill(2) None by simp
    have set1: "channelSettings channel e1 = channelSettings channel e" by (rule channelSettings_cong) (rule fill(3))
    show ?thesis
    proof (cases "ids = [] \<or> \<not> snd (channelSettings channel e)")
      case True
      then have "t = None" "e' = e1"
        using assms(2) None m set1 by (auto simp: publish_target_def materializeChannel_def split: prod.splits if_splits)
      with True fill None ids(1) show ?thesis by auto
    next
      case False
      then obtain s where s: "channelSettings channel e1 = (s, True)" using set1 by (metis prod.collapse)
      obtain c e2 where cr: "createChannelLocked now ep channel s e1 = (c, e2)" by (cases "createChannelLocked now ep channel s e1")
      have inv1: "tables_ok e1" "pats_ok e1" "subs_index.indexes (eSubs e1) (live_rel e1)"
        "eSubscriptionCount e1 = exact_count e1 + ePatternSubs e1" "no_leak e1" using fill(1) by (simp_all add: engine_ok_def)
      note sp = createChannelLocked_spec [OF inv1(1) none1 s cr]
      have pos: "0 < ePatternSubs e1"
      proof -
        have "ePatternSubs e \<noteq> 0" using ids(3) False by blast
        moreover have "0 \<le> ePatternSubs e" using inv(2) pattern_count_nonneg [of "ePatterns e"] by (simp add: pats_ok_def)
        ultimately show ?thesis using fill(4) by simp
      qed
      have live2: "live_rel e2 = live_rel e1" using none1 sp(3,5) by (auto simp: live_rel_def split: if_splits)
      have "no_leak e2" using inv1(5) pos sp(5,10) by (auto simp: no_leak_def)
      moreover have "pats_ok e2" using inv1(2) pats_ok_cong [of e2 e1] sp by simp
      moreover have "lookup channel e2 = Some c" using sp(5) by simp
      moreover have "subs_index.indexes (eSubs e2) (live_rel e2)" using inv1(3) live2 sp(7) by simp
      moreover have "eSubscriptionCount e2 = exact_count e2 + ePatternSubs e2" using inv1(4) sp(2,9,10) by simp
      ultimately have fl: "flight_ok channel (Acquire c) (store channel (Acquire c) e2)"
        "live_rel (store channel (Acquire c) e2) = live_rel e2"
        "\<And>n. n \<noteq> channel \<Longrightarrow> lookup n (store channel (Acquire c) e2) = lookup n e2"
        using acquire_flight [OF sp(1), of channel c] by blast+
      have "t = Some (Acquire c)" "e' = store channel (Acquire c) e2"
        using assms(2) None m False none1 s cr pos sp(10)
        by (auto simp: publish_target_def materializeChannel_def Let_def split: prod.splits)
      with fl live2 fill sp False ids(1) None Acquire_held(2-5) [OF sp(4,14)] show ?thesis by auto
    qed
  qed
  then show "eConfig e' = eConfig e" "pattern_rel (ePatterns e') = pattern_rel (ePatterns e)" "live_rel e' = live_rel e"
    "\<And>n. n \<noteq> channel \<Longrightarrow> lookup n e' = lookup n e"
    "t = None \<Longrightarrow> engine_ok e' \<and> lookup channel e = None
      \<and> (wild_rel e channel = {} \<or> \<not> snd (channelSettings channel e))"
    "\<And>ch. t = Some ch \<Longrightarrow> flight_ok channel ch e'
      \<and> (case lookup channel e of
           Some c0 \<Rightarrow> ch = Acquire c0
         | None \<Rightarrow> wild_rel e channel \<noteq> {} \<and> Subscribers ch = [] \<and> chOffset ch = 0 \<and> chEpoch ch = ep)" by blast+
qed

section \<open>Numbering, fanning out, releasing\<close>

definition offset_room :: "Channel \<Rightarrow> bool" where
  "offset_room ch \<longleftrightarrow> unat (chOffset ch) + 1 < 2 ^ 64"

lemma assign_offset_spec:
  assumes "held_ok e name ch" "offset_room ch" "assign_offset now data ch = (off, ch1)"
  shows "held_ok e name ch1" "off = chOffset ch + 1" "chOffset ch1 = off" "Subscribers ch1 = Subscribers ch"
    "chHist ch1 = None \<longleftrightarrow> chHist ch = None" "chEpoch ch1 = chEpoch ch" "chFanout ch1 = chFanout ch"
    "chTop ch1 = chTop ch" "chRR ch1 = chRR ch"
    "chHist ch = Some h \<Longrightarrow> chHist ch1 = Some (snd (appendNext h (chOffset ch) data now))"
proof -
  show simple: "off = chOffset ch + 1" "chOffset ch1 = off" "Subscribers ch1 = Subscribers ch"
    "chHist ch1 = None \<longleftrightarrow> chHist ch = None" "chEpoch ch1 = chEpoch ch" "chFanout ch1 = chFanout ch"
    "chTop ch1 = chTop ch" "chRR ch1 = chRR ch"
    "chHist ch = Some h \<Longrightarrow> chHist ch1 = Some (snd (appendNext h (chOffset ch) data now))"
    using assms(3) by (auto simp: assign_offset_def appendNext_def Subscribers_def Let_def split: option.splits prod.splits)
  have rest: "chSubs ch1 = chSubs ch" "chPrios ch1 = chPrios ch" "chRefs ch1 = chRefs ch" "chRecycled ch1 = chRecycled ch"
    "chPooled ch1 = chPooled ch" "chMaxSubs ch1 = chMaxSubs ch" "chIdleReap ch1 = chIdleReap ch"
    using assms(3) by (auto simp: assign_offset_def Let_def split: option.splits prod.splits)
  have "hist_sync ch1"
  proof (cases "chHist ch")
    case (Some h)
    have h: "hist_ok h" "hLastOffset h = chOffset ch"
      using assms(1) Some by (simp_all add: held_ok_def channel_ok_def hist_sync_def)
    have "chHist ch1 = Some (snd (appendNext h (chOffset ch) data now))"
      using assms(3) Some by (auto simp: assign_offset_def split: prod.splits)
    then show ?thesis
      using hist_ok_appendNext [OF h] assms(2) simple(1,2) by (simp add: hist_sync_def offset_room_def)
  qed (use simple(4) in \<open>simp add: hist_sync_def\<close>)
  then show "held_ok e name ch1"
    using assms(1) simple rest
    by (simp add: held_ok_def channel_ok_def prios_ok_def hist_sync_def settled_def Subscribers_def SubscriberCount_def
        split: option.splits)
qed

lemma held_ok_RR [simp]: "held_ok e name (ch\<lparr>chRR := x\<rparr>) = held_ok e name ch"
  by (simp add: held_ok_def channel_ok_def prios_ok_def hist_sync_def settled_def Subscribers_def SubscriberCount_def
      cong: option.case_cong)

lemma fan_out_channel:
  assumes "held_ok e name ch" "fan_out cfg sched ch pids d exclude deliver w = Inr (counts, ch2, exact, d2, w2)"
  shows "held_ok e name ch2" "Subscribers ch2 = Subscribers ch" "chHist ch2 = chHist ch" "chOffset ch2 = chOffset ch"
    "chEpoch ch2 = chEpoch ch" "chRefs ch2 = chRefs ch" "chRecycled ch2 = chRecycled ch" "chFanout ch2 = chFanout ch"
proof -
  have "ch2 = ch \<or> ch2 = ch\<lparr>chRR := chRR ch + 1\<rparr>"
    using assms(2)
    by (auto simp: fan_out_def roundRobinDeliver_def Let_def split: FanoutMode.splits prod.splits if_splits sum.splits)
  then show "held_ok e name ch2" "Subscribers ch2 = Subscribers ch" "chHist ch2 = chHist ch" "chOffset ch2 = chOffset ch"
    "chEpoch ch2 = chEpoch ch" "chRefs ch2 = chRefs ch" "chRecycled ch2 = chRecycled ch" "chFanout ch2 = chFanout ch"
    using assms(1) by (auto simp: Subscribers_def)
qed

lemma release_spec:
  assumes "flight_ok name ch e" "held_ok e name ch'" "Subscribers ch' = Subscribers ch" "chHist ch' = None \<longleftrightarrow> chHist ch = None"
  shows "engine_ok (release name ch' e)" "live_rel (release name ch' e) = live_rel e"
    "\<And>n. lookup n (release name ch' e) = (if n = name then Some (ch'\<lparr>chRefs := 0\<rparr>) else lookup n e)"
    "ePatterns (release name ch' e) = ePatterns e" "eConfig (release name ch' e) = eConfig e"
proof -
  let ?c = "ch'\<lparr>chRefs := 0\<rparr>"
  have ok: "channel_ok ?c" "chRefs ch' = 1" "settled e name ?c"
    using assms(2) by (auto simp: held_ok_def settled_def SubscriberCount_def)
  have "Release ch' = (False, ?c)" using ok(1,2) by (simp add: Release_def Let_def channel_ok_def)
  then have eq: "release name ch' e = store name ?c e" using assms(1) by (simp add: release_def flight_ok_def)
  have up: "tables_upto name e" "lookup name e = Some ch" using assms(1) by (simp_all add: flight_ok_def)
  have subs: "Subscribers ?c = Subscribers ch" using assms(3) by (simp add: Subscribers_def)
  note st = store_upto [OF up subs]
  have "pats_ok (store name ?c e)" using assms(1) pats_ok_cong [of "store name ?c e" e] by (simp add: flight_ok_def)
  then show "engine_ok (release name ch' e)"
    using st ok(1,3) assms(1,4) unfolding eq by (simp add: engine_ok_def flight_ok_def)
  show "live_rel (release name ch' e) = live_rel e"
    "\<And>n. lookup n (release name ch' e) = (if n = name then Some (ch'\<lparr>chRefs := 0\<rparr>) else lookup n e)"
    "ePatterns (release name ch' e) = ePatterns e" "eConfig (release name ch' e) = eConfig e"
    unfolding eq using st by simp_all
qed

lemma flight_match:
  assumes "flight_ok name ch e" "match_ids order channel e = (ids, e')"
  shows "flight_ok name ch e'" "\<And>n. lookup n e' = lookup n e" "eConfig e' = eConfig e"
    "pattern_rel (ePatterns e') = pattern_rel (ePatterns e)" "live_rel e' = live_rel e"
    "set ids = wild_rel e channel" "distinct ids"
proof -
  have p: "pats_ok e" using assms(1) by (simp add: flight_ok_def)
  note m = match_ids_spec [OF p assms(2)]
  obtain q where q: "e' = e\<lparr>ePatterns := q\<rparr>" "pattern_rel q = pattern_rel (ePatterns e)" using m(4) by blast
  show l: "\<And>n. lookup n e' = lookup n e" by (simp add: q)
  show lv: "live_rel e' = live_rel e" by (rule live_rel_cong) (rule l)
  show "eConfig e' = eConfig e" "pattern_rel (ePatterns e') = pattern_rel (ePatterns e)" by (simp_all add: q)
  show "set ids = wild_rel e channel" "distinct ids" by (rule m(1), rule m(2))
  have "tables_upto name e' = tables_upto name e" by (simp add: tables_upto_def q)
  then show "flight_ok name ch e'"
    using assms(1) m(5) l lv by (simp add: flight_ok_def no_leak_def) (simp add: q held_ok_def)
qed

section \<open>A whole publication\<close>

text \<open>
  The run of a publication that has a channel: the channel acquired, numbered, fanned out and
  released.
\<close>

lemma Publish_cases:
  assumes "engine_ok e0" "\<forall>ch. lookup channel e0 = Some ch \<longrightarrow> offset_room ch"
    and "Publish now ep order sched channel data exclude deliver e0 w = res"
  obtains (none) e2 where "lookup channel e0 = None" "wild_rel e0 channel = {} \<or> \<not> snd (channelSettings channel e0)"
      "res = Inr (\<lparr>resChannel = channel, resOffset = 0, resEpoch = 0, resDelivered = 0, resDropped = 0\<rparr>, e2, w)"
      "engine_ok e2" "live_rel e2 = live_rel e0" "pattern_rel (ePatterns e2) = pattern_rel (ePatterns e0)"
      "eConfig e2 = eConfig e0" "\<And>n. n \<noteq> channel \<Longrightarrow> lookup n e2 = lookup n e0"
  | (some) ch ch1 pids d0 where
      "case lookup channel e0 of Some c0 \<Rightarrow> ch = Acquire c0
        | None \<Rightarrow> wild_rel e0 channel \<noteq> {} \<and> Subscribers ch = [] \<and> chOffset ch = 0 \<and> chEpoch ch = ep"
      "held_ok e0 channel ch" "assign_offset now data ch = (chOffset ch + 1, ch1)" "offset_room ch"
      "d0 = \<lparr>dChannel = channel, dData = data, dOffset = chOffset ch + 1, dEpoch = chEpoch ch, dFrame = None\<rparr>"
      "set pids = wild_rel e0 channel" "distinct pids"
      "set (Subscribers ch) = {i. (i, channel) \<in> live_rel e0}"
      "\<And>p. fan_out (eConfig e0) sched ch1 pids d0 exclude deliver w = Inl p \<Longrightarrow> res = Inl p"
      "\<And>del drp ch2 exact d w1. fan_out (eConfig e0) sched ch1 pids d0 exclude deliver w = Inr ((del, drp), ch2, exact, d, w1) \<Longrightarrow>
         \<exists>pdel pdrp w2 e'. deliverPatterns exact pids d exclude deliver w1 = ((pdel, pdrp), w2)
           \<and> res = Inr (\<lparr>resChannel = channel, resOffset = chOffset ch + 1, resEpoch = chEpoch ch,
                resDelivered = int (del + pdel), resDropped = int (drp + pdrp)\<rparr>, e', w2)
           \<and> engine_ok e' \<and> live_rel e' = live_rel e0 \<and> pattern_rel (ePatterns e') = pattern_rel (ePatterns e0)
           \<and> eConfig e' = eConfig e0
           \<and> (\<forall>n. lookup n e' = (if n = channel then Some (ch2\<lparr>chRefs := 0\<rparr>) else lookup n e0))"
proof -
  let ?e1 = "bump channel 1 0 0 (int (length data)) e0"
  have t: "table_ok (eHash e0) (eShards e0)" using assms(1) by (simp add: engine_ok_def tables_ok_def)
  have ok1: "engine_ok ?e1" by (rule engine_ok_bump [OF assms(1)])
  have look1: "\<And>n. lookup n ?e1 = lookup n e0" and live1: "live_rel ?e1 = live_rel e0"
    by (simp_all add: t bump_relations)
  have wild1: "wild_rel ?e1 channel = wild_rel e0 channel" by (simp add: wild_rel_def)
  have set1: "channelSettings channel ?e1 = channelSettings channel e0" by (rule channelSettings_cong) simp
  obtain tg e2 where tg: "publish_target now ep order channel ?e1 = (tg, e2)" by (cases "publish_target now ep order channel ?e1")
  note pt = publish_target_spec [OF ok1 tg]
  show ?thesis
  proof (cases tg)
    case None
    have "res = Inr (\<lparr>resChannel = channel, resOffset = 0, resEpoch = 0, resDelivered = 0, resDropped = 0\<rparr>, e2, w)"
      using assms(3) tg None by (simp add: Publish_def Let_def)
    then show ?thesis
      using none [of e2] pt(1-4) pt(5) [OF None] look1 live1 wild1 set1 by simp
  next
    case (Some ch)
    have fl: "flight_ok channel ch e2" and origin: "case lookup channel e0 of Some c0 \<Rightarrow> ch = Acquire c0
        | None \<Rightarrow> wild_rel e0 channel \<noteq> {} \<and> Subscribers ch = [] \<and> chOffset ch = 0 \<and> chEpoch ch = ep"
      using pt(6) [OF Some] look1 wild1 by (auto split: option.splits)
    have room: "offset_room ch"
      using origin assms(2) by (auto simp: offset_room_def Acquire_def split: option.splits)
    have held2: "held_ok e2 channel ch" and look2: "lookup channel e2 = Some ch" using fl by (simp_all add: flight_ok_def)
    obtain off ch1 where as: "assign_offset now data ch = (off, ch1)" by (cases "assign_offset now data ch")
    note asg = assign_offset_spec [OF held2 room as]
    obtain pids e3 where m: "match_ids order channel e2 = (pids, e3)" by (cases "match_ids order channel e2")
    note mt = flight_match [OF fl m]
    define d0 where "d0 = \<lparr>dChannel = channel, dData = data, dOffset = chOffset ch + 1, dEpoch = chEpoch ch, dFrame = None\<rparr>"
    have cfg: "eConfig e3 = eConfig e0" using mt(3) pt(1) by simp
    have held0: "held_ok e0 channel ch" using held2 settled_cong [of e2 e0] pt(1) by (simp add: held_ok_def)
    have pids: "set pids = wild_rel e0 channel" using mt(6) pt(1,2) by (simp add: wild_rel_def)
    have subs: "set (Subscribers ch) = {i. (i, channel) \<in> live_rel e0}"
    proof -
      have "set (Subscribers ch) = {i. (i, channel) \<in> live_rel e2}" using look2 by (simp add: live_rel_def)
      then show ?thesis using pt(3) live1 by simp
    qed
    have res: "res = (case fan_out (eConfig e0) sched ch1 pids d0 exclude deliver w of
        Inl p \<Rightarrow> Inl p
      | Inr ((del, drp), ch2, exact, d, w1) \<Rightarrow>
          (case deliverPatterns exact pids d exclude deliver w1 of ((pdel, pdrp), w2) \<Rightarrow>
             Inr (\<lparr>resChannel = channel, resOffset = chOffset ch + 1, resEpoch = chEpoch ch,
                resDelivered = int (del + pdel), resDropped = int (drp + pdrp)\<rparr>,
              release channel ch2 (bump channel 0 (int (del + pdel)) (int (drp + pdrp)) 0 e3), w2)))"
      using assms(3) tg Some as m cfg asg(2,6) by (simp add: Publish_def Let_def d0_def split: sum.splits prod.splits)
    have fin: "\<exists>pdel pdrp w2 e'. deliverPatterns exact pids d exclude deliver w1 = ((pdel, pdrp), w2)
           \<and> res = Inr (\<lparr>resChannel = channel, resOffset = chOffset ch + 1, resEpoch = chEpoch ch,
                resDelivered = int (del + pdel), resDropped = int (drp + pdrp)\<rparr>, e', w2)
           \<and> engine_ok e' \<and> live_rel e' = live_rel e0 \<and> pattern_rel (ePatterns e') = pattern_rel (ePatterns e0)
           \<and> eConfig e' = eConfig e0
           \<and> (\<forall>n. lookup n e' = (if n = channel then Some (ch2\<lparr>chRefs := 0\<rparr>) else lookup n e0))"
      if fo: "fan_out (eConfig e0) sched ch1 pids d0 exclude deliver w = Inr ((del, drp), ch2, exact, d, w1)" for del drp ch2 exact d w1
    proof -
      obtain pdel pdrp w2 where dp: "deliverPatterns exact pids d exclude deliver w1 = ((pdel, pdrp), w2)"
        by (metis prod.collapse)
      let ?e4 = "bump channel 0 (int (del + pdel)) (int (drp + pdrp)) 0 e3"
      have t3: "table_ok (eHash e3) (eShards e3)" using mt(1) by (simp add: flight_ok_def tables_upto_def)
      have fl4: "flight_ok channel ch ?e4" by (rule flight_ok_bump [OF mt(1)])
      have h1: "held_ok ?e4 channel ch1"
        using asg(1) settled_cong [of ?e4 e2] mt(3) by (simp add: held_ok_def)
      note fc = fan_out_channel [OF h1 fo]
      have rel: "Subscribers ch2 = Subscribers ch" "chHist ch2 = None \<longleftrightarrow> chHist ch = None" using fc(2,3) asg(4,5) by simp_all
      note rl = release_spec [OF fl4 fc(1) rel]
      have "lookup n ?e4 = lookup n e0" if "n \<noteq> channel" for n
        using that t3 mt(2) pt(4) look1 by simp
      then have "\<forall>n. lookup n (release channel ch2 ?e4) = (if n = channel then Some (ch2\<lparr>chRefs := 0\<rparr>) else lookup n e0)"
        using rl(3) by simp
      moreover have "res = Inr (\<lparr>resChannel = channel, resOffset = chOffset ch + 1, resEpoch = chEpoch ch,
                resDelivered = int (del + pdel), resDropped = int (drp + pdrp)\<rparr>, release channel ch2 ?e4, w2)"
        using res fo dp by simp
      moreover have "live_rel (release channel ch2 ?e4) = live_rel e0"
        using rl(2) bump_relations(1) [OF t3] mt(5) pt(3) live1 by simp
      ultimately show ?thesis using dp rl(1,4,5) mt(3,4) pt(1,2) by auto
    qed
    have "assign_offset now data ch = (chOffset ch + 1, ch1)" using as asg(2) by simp
    from some [OF origin held0 this room d0_def pids mt(7) subs _ fin] res show ?thesis by simp
  qed
qed

lemma Publish_keeps:
  assumes "engine_ok e" "\<forall>ch. lookup channel e = Some ch \<longrightarrow> offset_room ch"
    and "Publish now ep order sched channel data exclude deliver e w = Inr (r, e', w')"
  shows "engine_ok e' \<and> live_rel e' = live_rel e \<and> pattern_rel (ePatterns e') = pattern_rel (ePatterns e)
    \<and> eConfig e' = eConfig e"
proof (cases rule: Publish_cases [OF assms, consumes 0, case_names none some])
  case (some ch ch1 pids d0)
  show ?thesis
  proof (cases "fan_out (eConfig e) sched ch1 pids d0 exclude deliver w")
    case (Inr x)
    then obtain del drp ch2 exact d w1
      where "fan_out (eConfig e) sched ch1 pids d0 exclude deliver w = Inr ((del, drp), ch2, exact, d, w1)"
      by (cases x) auto
    from some(10) [OF this] show ?thesis by auto
  qed (use some(9) in auto)
qed auto

section \<open>Who receives a publication\<close>

lemma fold_seen: "gget (fold (\<lambda>x m. gput x () m) xs m) i \<noteq> None \<longleftrightarrow> i \<in> set xs \<or> gget m i \<noteq> None"
  by (induction xs arbitrary: m) auto

lemma deliverPatterns_eq:
  "deliverPatterns exact pids d exclude deliver w =
     deliver_loop deliver d exclude (filter (\<lambda>i. i \<notin> set exact) pids) 0 0 w"
  using fold_seen [of exact "[]"] by (auto simp: deliverPatterns_def Let_def)

text \<open>The parallel path cannot panic when it needs at least one subscriber to be taken.\<close>

definition fanout_safe :: "econfig \<Rightarrow> bool" where
  "fanout_safe cfg \<longleftrightarrow> 0 < cfgFanoutThreshold cfg \<or> cfgFanoutWorkers cfg \<le> 1"

lemma fan_out_spread:
  assumes "fanout_safe cfg" "chFanout ch \<noteq> RoundRobin"
    and "subs = (if chFanout ch = Priority then case chTop ch of Some cohort \<Rightarrow> cohort | None \<Rightarrow> Subscribers ch else Subscribers ch)"
  shows "\<exists>calls d. fan_out cfg sched ch pids d0 exclude (recorder accept) w0 =
      Inr ((length (filter accept calls), length (filter (Not \<circ> accept) calls)), ch, subs, d, w0 @ map (\<lambda>i. (i, d)) calls)
    \<and> mset calls = mset (receivers exclude subs)
    \<and> d = (if length subs + length pids > 1 then d0\<lparr>dFrame := Some \<lparr>frBytes = None\<rparr>\<rparr> else d0)"
proof -
  define d where "d = (if length subs + length pids > 1 then d0\<lparr>dFrame := Some \<lparr>frBytes = None\<rparr>\<rparr> else d0)"
  let ?par = "int (length subs) \<ge> cfgFanoutThreshold cfg \<and> cfgFanoutWorkers cfg > 1"
  have fo: "fan_out cfg sched ch pids d0 exclude (recorder accept) w0 =
     (if ?par then
        (case parallelFanout (nat (cfgFanoutWorkers cfg)) sched subs d exclude (recorder accept) w0 of
           Inl p \<Rightarrow> Inl p | Inr (counts, w') \<Rightarrow> Inr (counts, ch, subs, d, w'))
      else (case deliver_loop (recorder accept) d exclude subs 0 0 w0 of (counts, w') \<Rightarrow> Inr (counts, ch, subs, d, w')))"
    unfolding fan_out_def d_def assms(3) using assms(2) by (cases "chFanout ch") (simp_all add: Let_def)
  show ?thesis
  proof (cases ?par)
    case True
    then have "subs \<noteq> []" "0 < nat (cfgFanoutWorkers cfg)" using assms(1) by (auto simp: fanout_safe_def)
    from parallelFanout_exact_run [OF this, of sched d exclude accept w0] True show ?thesis
      unfolding fo d_def [symmetric] by auto
  next
    case False
    then show ?thesis unfolding fo d_def [symmetric]
      by (intro exI [of _ "receivers exclude subs"] exI [of _ d]) (auto simp: deliver_loop_recorder)
  qed
qed

definition has_target :: "Engine \<Rightarrow> string \<Rightarrow> bool" where
  "has_target e channel \<longleftrightarrow> lookup channel e \<noteq> None \<or> wild_rel e channel \<noteq> {} \<and> snd (channelSettings channel e)"

text \<open>The run of a publication that has a target, as one predicate.\<close>

definition publish_run :: "Engine \<Rightarrow> int \<Rightarrow> u64 \<Rightarrow> string list \<Rightarrow> nat list \<Rightarrow> string \<Rightarrow> bytes \<Rightarrow> SubscriberID \<Rightarrow> 'w DeliveryFunc \<Rightarrow> 'w
    \<Rightarrow> Channel \<Rightarrow> Channel \<Rightarrow> SubscriberID list \<Rightarrow> Delivery \<Rightarrow> bool" where
  "publish_run e0 now ep order sched channel data exclude deliver w ch ch1 pids d0 \<longleftrightarrow>
     (case lookup channel e0 of Some c0 \<Rightarrow> ch = Acquire c0
        | None \<Rightarrow> wild_rel e0 channel \<noteq> {} \<and> Subscribers ch = [] \<and> chOffset ch = 0 \<and> chEpoch ch = ep)
     \<and> held_ok e0 channel ch \<and> assign_offset now data ch = (chOffset ch + 1, ch1) \<and> offset_room ch
     \<and> d0 = \<lparr>dChannel = channel, dData = data, dOffset = chOffset ch + 1, dEpoch = chEpoch ch, dFrame = None\<rparr>
     \<and> set pids = wild_rel e0 channel \<and> distinct pids
     \<and> set (Subscribers ch) = {i. (i, channel) \<in> live_rel e0}
     \<and> (\<forall>p. fan_out (eConfig e0) sched ch1 pids d0 exclude deliver w = Inl p \<longrightarrow>
          Publish now ep order sched channel data exclude deliver e0 w = Inl p)
     \<and> (\<forall>del drp ch2 exact d w1. fan_out (eConfig e0) sched ch1 pids d0 exclude deliver w = Inr ((del, drp), ch2, exact, d, w1) \<longrightarrow>
         (\<exists>pdel pdrp w2 e'. deliverPatterns exact pids d exclude deliver w1 = ((pdel, pdrp), w2)
           \<and> Publish now ep order sched channel data exclude deliver e0 w
             = Inr (\<lparr>resChannel = channel, resOffset = chOffset ch + 1, resEpoch = chEpoch ch,
                resDelivered = int (del + pdel), resDropped = int (drp + pdrp)\<rparr>, e', w2)
           \<and> engine_ok e' \<and> live_rel e' = live_rel e0 \<and> pattern_rel (ePatterns e') = pattern_rel (ePatterns e0)
           \<and> eConfig e' = eConfig e0
           \<and> (\<forall>n. lookup n e' = (if n = channel then Some (ch2\<lparr>chRefs := 0\<rparr>) else lookup n e0))))"

lemma Publish_some:
  assumes "engine_ok e0" "\<forall>ch. lookup channel e0 = Some ch \<longrightarrow> offset_room ch" "has_target e0 channel"
  shows "\<exists>ch ch1 pids d0. publish_run e0 now ep order sched channel data exclude deliver w ch ch1 pids d0"
proof -
  note cs = Publish_cases [where channel = channel and now = now and ep = ep and order = order and sched = sched
      and data = data and exclude = exclude and deliver = deliver and w = w, OF assms(1,2) refl]
  show ?thesis
  proof (cases rule: cs [consumes 0, case_names none some])
    case none
    then show ?thesis using assms(3) by (auto simp: has_target_def)
  next
    case (some ch ch1 pids d0)
    have "publish_run e0 now ep order sched channel data exclude deliver w ch ch1 pids d0"
      unfolding publish_run_def by (intro conjI allI impI some)
    then show ?thesis by blast
  qed
qed

lemma publish_run_Inr:
  assumes "publish_run e0 now ep order sched channel data exclude deliver w ch ch1 pids d0"
    and "fan_out (eConfig e0) sched ch1 pids d0 exclude deliver w = Inr ((del, drp), ch2, exact, d, w1)"
    and "deliverPatterns exact pids d exclude deliver w1 = ((pdel, pdrp), w2)"
  obtains e' where "Publish now ep order sched channel data exclude deliver e0 w
      = Inr (\<lparr>resChannel = channel, resOffset = chOffset ch + 1, resEpoch = chEpoch ch,
          resDelivered = int (del + pdel), resDropped = int (drp + pdrp)\<rparr>, e', w2)"
    "engine_ok e'" "live_rel e' = live_rel e0" "pattern_rel (ePatterns e') = pattern_rel (ePatterns e0)"
    "eConfig e' = eConfig e0"
    "\<And>n. lookup n e' = (if n = channel then Some (ch2\<lparr>chRefs := 0\<rparr>) else lookup n e0)"
proof -
  from assms(1,2) have "\<exists>pdel pdrp w2 e'. deliverPatterns exact pids d exclude deliver w1 = ((pdel, pdrp), w2)
       \<and> Publish now ep order sched channel data exclude deliver e0 w
         = Inr (\<lparr>resChannel = channel, resOffset = chOffset ch + 1, resEpoch = chEpoch ch,
            resDelivered = int (del + pdel), resDropped = int (drp + pdrp)\<rparr>, e', w2)
       \<and> engine_ok e' \<and> live_rel e' = live_rel e0 \<and> pattern_rel (ePatterns e') = pattern_rel (ePatterns e0)
       \<and> eConfig e' = eConfig e0
       \<and> (\<forall>n. lookup n e' = (if n = channel then Some (ch2\<lparr>chRefs := 0\<rparr>) else lookup n e0))"
    unfolding publish_run_def by blast
  with that assms(3) show thesis by auto
qed

lemma publish_run_Inl:
  assumes "publish_run e0 now ep order sched channel data exclude deliver w ch ch1 pids d0"
    and "fan_out (eConfig e0) sched ch1 pids d0 exclude deliver w = Inl p"
  shows "Publish now ep order sched channel data exclude deliver e0 w = Inl p"
  using assms unfolding publish_run_def by blast

text \<open>A publication without a target does nothing.\<close>

lemma Publish_none:
  assumes "engine_ok e0" "\<not> has_target e0 channel"
  shows "\<exists>e'. Publish now ep order sched channel data exclude deliver e0 w =
    Inr (\<lparr>resChannel = channel, resOffset = 0, resEpoch = 0, resDelivered = 0, resDropped = 0\<rparr>, e', w)"
proof -
  have room: "\<forall>ch. lookup channel e0 = Some ch \<longrightarrow> offset_room ch" using assms(2) by (simp add: has_target_def)
  note cs = Publish_cases [where channel = channel and now = now and ep = ep and order = order and sched = sched
      and data = data and exclude = exclude and deliver = deliver and w = w, OF assms(1) room refl]
  show ?thesis
  proof (cases rule: cs [consumes 0, case_names none some])
    case (none e2)
    then show ?thesis by blast
  next
    case (some ch ch1 pids d0)
    have "snd (channelSettings channel e0)" using some(2) by (auto simp: held_ok_def settled_def)
    then show ?thesis using some(1) assms(2) by (auto simp: has_target_def split: option.splits)
  qed
qed

end
