(* ===== verification/Engine_Props.thy ===== *)
theory Engine_Props
  imports Engine_Publish
begin

text \<open>
  The sweeper tick, executions of the engine as sequences of its operations, and the properties of
  the engine as a whole.
\<close>

section \<open>The sweeper\<close>

lemma sweep_channel_facts:
  assumes "channel_ok ch"
  shows "channel_ok (sweep_channel now ch)" "Subscribers (sweep_channel now ch) = Subscribers ch"
    "chHist (sweep_channel now ch) = None \<longleftrightarrow> chHist ch = None"
    "settled e name (sweep_channel now ch) = settled e name ch"
proof -
  show subs: "Subscribers (sweep_channel now ch) = Subscribers ch"
    and hist: "chHist (sweep_channel now ch) = None \<longleftrightarrow> chHist ch = None"
    by (simp_all add: sweep_channel_def Subscribers_def split: option.splits)
  have fields: "chSubs (sweep_channel now ch) = chSubs ch" "chPrios (sweep_channel now ch) = chPrios ch"
    "chTop (sweep_channel now ch) = chTop ch" "chFanout (sweep_channel now ch) = chFanout ch"
    "chRecycled (sweep_channel now ch) = chRecycled ch" "chPooled (sweep_channel now ch) = chPooled ch"
    "chRefs (sweep_channel now ch) = chRefs ch" "chOffset (sweep_channel now ch) = chOffset ch"
    "chMaxSubs (sweep_channel now ch) = chMaxSubs ch" "chIdleReap (sweep_channel now ch) = chIdleReap ch"
    by (simp_all add: sweep_channel_def split: option.splits)
  have "hist_sync (sweep_channel now ch)"
    using assms hist_sweep_items(2,3) [of _ now]
    by (auto simp: channel_ok_def hist_sync_def sweep_channel_def split: option.splits)
  then show "channel_ok (sweep_channel now ch)"
    using assms by (simp add: channel_ok_def prios_ok_def fields subs cong: option.case_cong)
  show "settled e name (sweep_channel now ch) = settled e name ch"
    by (simp add: settled_def fields hist SubscriberCount_eq subs)
qed

text \<open>The trimming pass: every channel of the shard is swept in place.\<close>

lemma sweep_stores:
  assumes "tables_ok e" "distinct (map fst xs)" "\<forall>(n, c) \<in> set xs. lookup n e = Some c"
    and "e' = fold (\<lambda>(name, ch) e. store name (sweep_channel now ch) e) xs e"
  shows "tables_ok e' \<and> exact_count e' = exact_count e \<and> same_outside e e'
    \<and> (\<forall>n. lookup n e' = (if n \<in> fst ` set xs then map_option (sweep_channel now) (lookup n e) else lookup n e))"
  using assms
proof (induction xs arbitrary: e)
  case (Cons x xs)
  obtain n c where x: "x = (n, c)" by (cases x)
  have n: "lookup n e = Some c" using Cons.prems(3) x by simp
  have c: "channel_ok c" "settled e n c" using Cons.prems(1) n unfolding tables_ok_def by blast+
  let ?e = "store n (sweep_channel now c) e"
  note sw = sweep_channel_facts [OF c(1), where now = now]
  note st = store_upto [OF tables_ok_upto [OF Cons.prems(1)] n sw(2)]
  have ok: "tables_ok ?e" using st(6) sw(1,4) c(2) by simp
  have "\<forall>(m, d) \<in> set xs. lookup m ?e = Some d" using Cons.prems(2,3) x st(3) by (fastforce simp: image_iff split: if_splits)
  from Cons.IH [OF ok _ this] Cons.prems(2,4) x
  have ih: "tables_ok e' \<and> exact_count e' = exact_count ?e \<and> same_outside ?e e'
    \<and> (\<forall>m. lookup m e' = (if m \<in> fst ` set xs then map_option (sweep_channel now) (lookup m ?e) else lookup m ?e))"
    by simp
  have "lookup m e' = (if m \<in> fst ` set (x # xs) then map_option (sweep_channel now) (lookup m e) else lookup m e)" for m
    using ih Cons.prems(2) n st(3) [of m] by (cases "m = n") (auto simp: x)
  then show ?case using ih st(2) same_outside_trans [OF store_same_outside] by auto
qed simp

lemma reapable_empty: "\<forall>c. reapable now c \<longrightarrow> Subscribers c = []"
  by (simp add: reapable_def SubscriberCount_eq)

definition swept :: "int \<Rightarrow> Channel \<Rightarrow> Channel option" where
  "swept now ch = (if reapable now (sweep_channel now ch) then None else Some (sweep_channel now ch))"

lemma sweep_shard_spec:
  assumes "tables_ok e" "k < length (eShards e)"
  shows "tables_ok (sweep_shard now k e)" "exact_count (sweep_shard now k e) = exact_count e"
    "same_outside e (sweep_shard now k e)"
    "lookup n (sweep_shard now k e) =
      (if getShard (eHash e) (eShards e) n = k then Option.bind (lookup n e) (swept now) else lookup n e)"
proof -
  let ?xs = "shChannels (eShards e ! k)"
  define e1 where "e1 = fold (\<lambda>(name, ch) e. store name (sweep_channel now ch) e) ?xs e"
  define names where "names = map fst (filter (\<lambda>(name, ch). reapable now (sweep_channel now ch)) ?xs)"
  have t: "table_ok (eHash e) (eShards e)" using assms(1) by (simp add: tables_ok_def)
  have pairs: "(m, c) \<in> set ?xs \<longleftrightarrow> lookup m e = Some c \<and> getShard (eHash e) (eShards e) m = k" for m c
    using shard_pairs [OF t assms(2)] by (simp add: lookup_def)
  have dist: "distinct (map fst ?xs)" using t assms(2) by (simp add: table_ok_def gomap_ok_def)
  have look: "\<forall>(m, c) \<in> set ?xs. lookup m e = Some c" using pairs by auto
  note s1 = sweep_stores [OF assms(1) dist look e1_def]
  have keys: "m \<in> fst ` set ?xs \<longleftrightarrow> lookup m e \<noteq> None \<and> getShard (eHash e) (eShards e) m = k" for m
    using pairs by force
  have nm: "m \<in> set names \<longleftrightarrow> (\<exists>c. lookup m e = Some c \<and> reapable now (sweep_channel now c)) \<and> getShard (eHash e) (eShards e) m = k" for m
    using pairs by (force simp: names_def)
  have eq: "sweep_shard now k e = fold (drop_if (reapable now)) names e1"
    by (simp add: sweep_shard_def e1_def names_def drop_if_def [abs_def] Let_def)
  have ok1: "tables_ok e1" using s1 by blast
  note d = drop_all_spec [where P = "reapable now" and names = names, OF ok1 reapable_empty]
  show "tables_ok (sweep_shard now k e)" "exact_count (sweep_shard now k e) = exact_count e"
    "same_outside e (sweep_shard now k e)"
    unfolding eq using d s1 same_outside_trans by auto
  have l1: "lookup n e1 = (if n \<in> fst ` set ?xs then map_option (sweep_channel now) (lookup n e) else lookup n e)"
    using s1 by blast
  have "lookup n (sweep_shard now k e) = (if n \<in> set names \<and> (\<exists>c. lookup n e1 = Some c \<and> reapable now c) then None else lookup n e1)"
    unfolding eq using d by blast
  then show "lookup n (sweep_shard now k e) =
      (if getShard (eHash e) (eShards e) n = k then Option.bind (lookup n e) (swept now) else lookup n e)"
    unfolding l1 nm keys by (cases "lookup n e") (auto simp: swept_def)
qed

lemma sweep_tick_spec:
  assumes "tables_ok e"
  shows "tables_ok (sweep_tick now e) \<and> exact_count (sweep_tick now e) = exact_count e \<and> same_outside e (sweep_tick now e)
    \<and> (\<forall>n. lookup n (sweep_tick now e) = Option.bind (lookup n e) (swept now))"
proof -
  have upto: "tables_ok (fold (sweep_shard now) ks e) \<and> exact_count (fold (sweep_shard now) ks e) = exact_count e
      \<and> same_outside e (fold (sweep_shard now) ks e)
      \<and> (\<forall>n. lookup n (fold (sweep_shard now) ks e) =
           (if getShard (eHash e) (eShards e) n \<in> set ks then Option.bind (lookup n e) (swept now) else lookup n e))"
    if "set ks \<subseteq> {..<length (eShards e)}" "distinct ks" for ks
    using that
  proof (induction ks rule: rev_induct)
    case (snoc k ks)
    let ?e = "fold (sweep_shard now) ks e"
    have ih: "tables_ok ?e" "exact_count ?e = exact_count e" "same_outside e ?e"
      "\<And>n. lookup n ?e = (if getShard (eHash e) (eShards e) n \<in> set ks then Option.bind (lookup n e) (swept now) else lookup n e)"
      using snoc by auto
    have k: "k < length (eShards ?e)" and idx: "\<And>n. getShard (eHash ?e) (eShards ?e) n = getShard (eHash e) (eShards e) n"
      using snoc.prems ih(3) getShard_length by (auto simp: same_outside_def)
    note sh = sweep_shard_spec [OF ih(1) k, where now = now, unfolded idx ih(4)]
    have "same_outside e (sweep_shard now k ?e)" using sh(3) ih(3) same_outside_trans by blast
    then show ?case using sh(1,2,4) ih(2) snoc.prems(2) by auto
  qed (simp add: assms)
  have range: "set [0..<length (eShards e)] \<subseteq> {..<length (eShards e)}" by auto
  have all: "tables_ok (sweep_tick now e) \<and> exact_count (sweep_tick now e) = exact_count e \<and> same_outside e (sweep_tick now e)
      \<and> (\<forall>n. lookup n (sweep_tick now e) =
           (if getShard (eHash e) (eShards e) n \<in> {0..<length (eShards e)} then Option.bind (lookup n e) (swept now) else lookup n e))"
    using upto [OF range distinct_upt] by (simp add: sweep_tick_def)
  have "getShard (eHash e) (eShards e) n < length (eShards e)" for n
    using assms getShard_less by (auto simp: tables_ok_def table_ok_def)
  with all show ?thesis by simp
qed

lemma sweep_tick_ok:
  assumes "engine_ok e"
  shows "engine_ok (sweep_tick now e)" "live_rel (sweep_tick now e) = live_rel e"
    "ePatterns (sweep_tick now e) = ePatterns e" "eConfig (sweep_tick now e) = eConfig e"
proof -
  have inv: "tables_ok e" "pats_ok e" "subs_index.indexes (eSubs e) (live_rel e)"
    "eSubscriptionCount e = exact_count e + ePatternSubs e" "no_leak e" using assms by (simp_all add: engine_ok_def)
  note s = sweep_tick_spec [OF inv(1), where now = now]
  have chan: "\<exists>c0. lookup n e = Some c0 \<and> Subscribers c = Subscribers c0 \<and> (chHist c = None \<longleftrightarrow> chHist c0 = None)"
    if "lookup n (sweep_tick now e) = Some c" for n c
    using that s inv(1) sweep_channel_facts [where now = now]
    by (auto simp: swept_def tables_ok_def bind_eq_Some_conv split: if_splits)
  have kept: "\<exists>c. lookup n (sweep_tick now e) = Some c \<and> Subscribers c = Subscribers c0"
    if "lookup n e = Some c0" "Subscribers c0 \<noteq> []" for n c0
  proof -
    have "channel_ok c0" using inv(1) that(1) unfolding tables_ok_def by blast
    then show ?thesis
      using s that sweep_channel_facts(2) [of c0 now] reapable_empty [of now] by (auto simp: swept_def)
  qed
  show live: "live_rel (sweep_tick now e) = live_rel e"
  proof (rule set_eqI)
    fix x :: "SubscriberID \<times> string"
    obtain i n where x: "x = (i, n)" by (cases x)
    show "x \<in> live_rel (sweep_tick now e) \<longleftrightarrow> x \<in> live_rel e"
      using chan [of n] kept [of n] by (fastforce simp: x live_rel_def)
  qed
  have sub: "ePatternSubs (sweep_tick now e) = ePatternSubs e" "eSubs (sweep_tick now e) = eSubs e"
    "eSubscriptionCount (sweep_tick now e) = eSubscriptionCount e" using s by (simp_all add: same_outside_def)
  show f: "ePatterns (sweep_tick now e) = ePatterns e" "eConfig (sweep_tick now e) = eConfig e"
    using s by (simp_all add: same_outside_def)
  have "no_leak (sweep_tick now e)"
    using inv(5) chan unfolding no_leak_def drained_def SubscriberCount_eq sub by metis
  then show "engine_ok (sweep_tick now e)"
    using s inv live sub f pats_ok_cong [of "sweep_tick now e" e] by (simp add: engine_ok_def)
qed

section \<open>Executions\<close>

text \<open>
  The operations of the engine in any order, each atomic as its locks make it for one channel and
  one subscriber. The steps exclude a publication that would wrap a channel's 64-bit offset, and
  one that panics (it ends the process).
\<close>

inductive engine_step :: "Engine \<Rightarrow> Engine \<Rightarrow> bool" where
  subscribe: "SubscribePriority now ep sid name prio e = (err, e') \<Longrightarrow> engine_step e e'"
| unsubscribe: "Unsubscribe now sid name e = (ok, e') \<Longrightarrow> engine_step e e'"
| unsubscribeAll: "engine_step e (UnsubscribeAll now sid e)"
| subscribePattern: "SubscribePattern sid pat e = (err, e') \<Longrightarrow> engine_step e e'"
| unsubscribePattern: "UnsubscribePattern sid pat e = (ok, e') \<Longrightarrow> engine_step e e'"
| publish: "\<forall>ch. lookup channel e = Some ch \<longrightarrow> offset_room ch \<Longrightarrow>
    Publish now ep order sched channel data exclude deliver e (w :: dlog) = Inr (r, e', w') \<Longrightarrow> engine_step e e'"
| sweep: "engine_step e (sweep_tick now e)"

definition config_ok :: "econfig \<Rightarrow> bool" where
  "config_ok cfg \<longleftrightarrow> is_pow2 (nat (cfgNumShards cfg)) \<and> cfgNumShards cfg < 2 ^ 64"

lemma config_ok_default: "gomaxprocs * 4 \<le> 2 ^ 62 \<Longrightarrow> config_ok (defaultConfig gomaxprocs)"
proof -
  assume "gomaxprocs * 4 \<le> 2 ^ 62"
  then obtain k where k: "k \<le> 62" "nextPowerOf2 (gomaxprocs * 4) = 2 ^ k" using nextPowerOf2_spec by blast
  have "(2::int) ^ k \<le> 2 ^ 62" using k(1) by (intro power_increasing) simp_all
  moreover have "is_pow2 (nat (2 ^ k))" "is_pow2 32"
    unfolding is_pow2_def by (rule exI [of _ k], simp add: nat_power_eq) (rule exI [of _ 5], simp)
  ultimately show ?thesis using k(2) by (auto simp: config_ok_def defaultConfig_def defaultNumShards_def Let_def)
qed

lemma config_ok_WithShards: "config_ok c \<Longrightarrow> n \<le> 2 ^ 62 \<Longrightarrow> config_ok (WithShards n c)"
proof -
  assume c: "config_ok c" and n: "n \<le> 2 ^ 62"
  from n obtain k where k: "k \<le> 62" "nextPowerOf2 n = 2 ^ k" using nextPowerOf2_spec by blast
  have "(2::int) ^ k \<le> 2 ^ 62" using k(1) by (intro power_increasing) simp_all
  moreover have "is_pow2 (nat (2 ^ k))" unfolding is_pow2_def by (rule exI [of _ k]) (simp add: nat_power_eq)
  ultimately show ?thesis using k(2) c by (simp add: config_ok_def WithShards_def)
qed

lemma lookup_New:
  assumes "config_ok cfg"
  shows "lookup n (New hash seed cfg) = None"
proof -
  have "is_pow2 (nat (cfgNumShards cfg))" "nat (cfgNumShards cfg) < 2 ^ 64" using assms by (auto simp: config_ok_def nat_less_iff)
  then show ?thesis
    using getShard_less [of "replicate (nat (cfgNumShards cfg)) empty_shard" hash n]
    by (simp add: lookup_def New_def find_channel_def empty_shard_def)
qed

lemma engine_ok_New:
  assumes "config_ok cfg"
  shows "engine_ok (New hash seed cfg)" "live_rel (New hash seed cfg) = {}" "pattern_rel (ePatterns (New hash seed cfg)) = {}"
proof -
  let ?n = "nat (cfgNumShards cfg)"
  have pow: "is_pow2 ?n" "?n < 2 ^ 64" using assms by (auto simp: config_ok_def nat_less_iff)
  have t: "table_ok hash (replicate ?n empty_shard)"
    using pow by (simp add: table_ok_def empty_shard_def)
  have none: "lookup n (New hash seed cfg) = None" for n
    by (rule lookup_New [OF assms])
  have total: "table_total f (replicate ?n empty_shard) = 0" for f
    by (simp add: table_total_def shard_total_def empty_shard_def sum_list_replicate)
  show live: "live_rel (New hash seed cfg) = {}" by (simp add: live_rel_def none)
  show rel: "pattern_rel (ePatterns (New hash seed cfg)) = {}"
    by (simp add: New_def newPatternRegistry_def pattern_rel_def gl_def)
  have "pats_ok (New hash seed cfg)"
    by (auto simp: pats_ok_def New_def newPatternRegistry_def patterns_ok_def maps_ok_def gl_def snap_of_def caches_ok_def
        pattern_count_def total_len_def pattern_rel_def)
  moreover have "tables_ok (New hash seed cfg)" using t total none by (simp add: tables_ok_def) (simp add: New_def)
  moreover have "subs_index.indexes (eSubs (New hash seed cfg)) {}"
    by (simp add: subs_index.indexes_def New_def subs_ok_new channels_of_new)
  ultimately show "engine_ok (New hash seed cfg)"
    using live none total by (simp add: engine_ok_def no_leak_def) (simp add: exact_count_def New_def)
qed

lemma engine_step_ok:
  assumes "engine_step e e'" "engine_ok e"
  shows "engine_ok e' \<and> eConfig e' = eConfig e"
  using assms
proof cases
  case (subscribe now ep sid name prio err)
  then show ?thesis using SubscribePriority_spec(1,3) [OF assms(2)] by blast
next
  case (unsubscribe now sid name ok)
  then show ?thesis using Unsubscribe_spec(1,5) [OF assms(2)] by blast
next
  case (unsubscribeAll now sid)
  then show ?thesis using UnsubscribeAll_spec(1,3) [OF assms(2)] by blast
next
  case (subscribePattern sid pat err)
  then show ?thesis using SubscribePattern_spec(1,3) [OF assms(2)] by blast
next
  case (unsubscribePattern sid pat ok)
  then show ?thesis using UnsubscribePattern_spec(1,3) [OF assms(2)] by blast
next
  case (publish channel now ep order sched data exclude deliver w r w')
  then show ?thesis using Publish_keeps [OF assms(2) publish] by blast
next
  case (sweep now)
  then show ?thesis using sweep_tick_ok(1,4) [OF assms(2)] by blast
qed

definition engine_reachable :: "hashfn \<Rightarrow> hashfn \<Rightarrow> econfig \<Rightarrow> Engine \<Rightarrow> bool" where
  "engine_reachable hash seed cfg e \<longleftrightarrow> config_ok cfg \<and> engine_step\<^sup>*\<^sup>* (New hash seed cfg) e"

lemma reachable_ok:
  assumes "engine_reachable hash seed cfg e"
  shows "engine_ok e" "eConfig e = cfg"
proof -
  from assms have "engine_step\<^sup>*\<^sup>* (New hash seed cfg) e" "config_ok cfg" by (simp_all add: engine_reachable_def)
  then have "engine_ok e \<and> eConfig e = cfg"
  proof induction
    case base
    then show ?case using engine_ok_New(1) by (simp add: New_def)
  next
    case (step e e')
    then show ?case using engine_step_ok by fastforce
  qed
  then show "engine_ok e" "eConfig e = cfg" by simp_all
qed

section \<open>The engine's bookkeeping\<close>

lemma drained_needs_pattern:
  assumes "pats_ok e" "no_leak e" "lookup name e = Some ch" "drained ch"
  shows "pattern_rel (ePatterns e) \<noteq> {}"
proof
  assume none: "pattern_rel (ePatterns e) = {}"
  have l: "lists_ok (prSubs (ePatterns e))" using assms(1) by (simp add: pats_ok_def patterns_ok_def maps_ok_def)
  have "prSubs (ePatterns e) = []"
  proof (cases "prSubs (ePatterns e)")
    case (Cons x xs)
    then have "gget (prSubs (ePatterns e)) (fst x) = Some (snd x)" by (cases x) (simp add: gget_Cons)
    moreover from this l have "snd x \<noteq> []" by (auto simp: lists_ok_def)
    ultimately have "(hd (snd x), fst x) \<in> pattern_rel (ePatterns e)" by (simp add: pattern_rel_def gl_def)
    with none show ?thesis by simp
  qed
  then have "ePatternSubs e = 0" using assms(1) by (simp add: pats_ok_def pattern_count_def total_len_def)
  with assms(2-4) show False by (auto simp: no_leak_def)
qed

text \<open>
  (C8) The engine's books agree in every reachable state: the reverse index lists, without
  duplicates, exactly the channels a subscriber is on; the reported channel and subscriber counts
  are the real ones; no channel exceeds its namespace's subscriber cap or lists a subscriber
  twice; and a channel that has neither subscribers nor history exists only while somebody holds a
  wildcard subscription.
\<close>

theorem engine_consistent:
  assumes "engine_reachable hash seed cfg e"
  shows "(\<forall>i. distinct (GetChannels i (eSubs e))
        \<and> set (GetChannels i (eSubs e)) = {name. \<exists>ch. lookup name e = Some ch \<and> i \<in> set (Subscribers ch)})
    \<and> stChannels (Stats e) = table_total (\<lambda>_. 1) (eShards e)
    \<and> stTotalSubscribers (Stats e) = table_total SubscriberCount (eShards e) + total_len (prSubs (ePatterns e))
    \<and> (\<forall>name ch. lookup name e = Some ch \<longrightarrow> distinct (Subscribers ch)
        \<and> (0 < chMaxSubs ch \<longrightarrow> SubscriberCount ch \<le> chMaxSubs ch)
        \<and> (Subscribers ch = [] \<and> chHist ch = None \<longrightarrow> pattern_rel (ePatterns e) \<noteq> {}))"
proof -
  have ok: "engine_ok e" by (rule reachable_ok [OF assms])
  then have inv: "tables_ok e" "pats_ok e" "subs_index.indexes (eSubs e) (live_rel e)"
    "eSubscriptionCount e = exact_count e + ePatternSubs e" "no_leak e" by (simp_all add: engine_ok_def)
  have index: "distinct (GetChannels i (eSubs e))
      \<and> set (GetChannels i (eSubs e)) = {name. \<exists>ch. lookup name e = Some ch \<and> i \<in> set (Subscribers ch)}" for i
    using subs_index.indexes_listing [OF inv(3), of i] by (simp add: live_rel_def)
  have counts: "stChannels (Stats e) = table_total (\<lambda>_. 1) (eShards e)"
    "stTotalSubscribers (Stats e) = table_total SubscriberCount (eShards e) + total_len (prSubs (ePatterns e))"
    using inv(1,2,4) by (simp_all add: Stats_def tables_ok_def pats_ok_def exact_count_def pattern_count_def)
  have chans: "distinct (Subscribers ch) \<and> (0 < chMaxSubs ch \<longrightarrow> SubscriberCount ch \<le> chMaxSubs ch)
      \<and> (Subscribers ch = [] \<and> chHist ch = None \<longrightarrow> pattern_rel (ePatterns e) \<noteq> {})"
    if "lookup name e = Some ch" for name ch
    using that inv(1) drained_needs_pattern [OF inv(2,5) that]
    by (auto simp: tables_ok_def channel_ok_def settled_def drained_def SubscriberCount_eq)
  show ?thesis using index counts chans by blast
qed

definition demo_cfg :: econfig where
  "demo_cfg = WithHistory 4 0 (defaultConfig 1)"

definition demo_start :: Engine where
  "demo_start = New (\<lambda>_. 0) (\<lambda>_. 0) demo_cfg"

text \<open>One engine with a subscriber on a channel with history and a wildcard subscriber.\<close>

definition demo_engine :: Engine where
  "demo_engine = snd (SubscribePattern 9 ''n*'' (snd (SubscribePriority 0 7 42 ''news'' 0 demo_start)))"

lemma demo_cfg_ok: "config_ok demo_cfg"
  using config_ok_default [of 1] by (simp add: demo_cfg_def config_ok_def WithHistory_def)

lemma demo_reachable: "engine_reachable (\<lambda>_. 0) (\<lambda>_. 0) demo_cfg demo_engine"
proof -
  have "engine_step demo_start (snd (SubscribePriority 0 7 42 ''news'' 0 demo_start))"
    by (rule engine_step.subscribe) (rule surjective_pairing)
  moreover have "engine_step (snd (SubscribePriority 0 7 42 ''news'' 0 demo_start)) demo_engine"
    unfolding demo_engine_def by (rule engine_step.subscribePattern) (rule surjective_pairing)
  ultimately have "engine_step\<^sup>*\<^sup>* demo_start demo_engine" by (meson rtranclp.simps)
  then show ?thesis by (simp add: engine_reachable_def demo_cfg_ok demo_start_def)
qed

lemma demo_relations: "live_rel demo_engine = {(42, ''news'')}" "pattern_rel (ePatterns demo_engine) = {(9, ''n*'')}"
proof -
  let ?e1 = "snd (SubscribePriority 0 7 42 ''news'' 0 demo_start)"
  note ok0 = engine_ok_New [OF demo_cfg_ok, of "\<lambda>_. 0" "\<lambda>_. 0", folded demo_start_def]
  have cfg: "cfgNamespaces (eConfig demo_start) = None"
    by (simp add: demo_start_def New_def demo_cfg_def WithHistory_def defaultConfig_def Let_def)
  have none: "lookup ''news'' demo_start = None"
    using ok0 by (auto simp: live_rel_def demo_start_def New_def lookup_def find_channel_def getShard_def demo_cfg_def
        WithHistory_def defaultConfig_def Let_def defaultNumShards_def nextPowerOf2_def smear_def wrap64_def empty_shard_def)
  obtain err1 where s1: "SubscribePriority 0 7 42 ''news'' 0 demo_start = (err1, ?e1)" by (metis prod.collapse)
  have "err1 = None"
    using s1
  proof (cases rule: SubscribePriority_cases)
    case unknown
    then show ?thesis using cfg by (simp add: channelSettings_def)
  qed (use none in auto)
  then have sp: "engine_ok ?e1" "live_rel ?e1 = {(42, ''news'')}" "ePatterns ?e1 = ePatterns demo_start" "eConfig ?e1 = eConfig demo_start"
    using SubscribePriority_spec [OF ok0(1) s1] ok0(2) by simp_all
  obtain err2 where s2: "SubscribePattern 9 ''n*'' ?e1 = (err2, demo_engine)"
    unfolding demo_engine_def by (metis prod.collapse)
  have adm: "admitted ?e1 ''n*''" using cfg sp(4) by (simp add: admitted_def)
  have "pattern_rel (ePatterns ?e1) = {}" using sp(3) ok0(3) by simp
  then have "fst (patterns_add 9 ''n*'' (ePatterns ?e1))" by (auto simp: patterns_add_def pattern_rel_def)
  then have "err2 = None" using s2 adm by (auto simp: SubscribePattern_eq Let_def split: prod.splits bool.splits)
  with SubscribePattern_spec [OF sp(1) s2] sp(2,3) ok0(3)
  show "live_rel demo_engine = {(42, ''news'')}" "pattern_rel (ePatterns demo_engine) = {(9, ''n*'')}" by simp_all
qed

text \<open>The one channel of the demonstration engine.\<close>

lemma demo_lookup:
  "\<exists>c. (\<forall>n. lookup n demo_engine = (if n = ''news'' then Some c else None))
     \<and> chOffset c = 0 \<and> chEpoch c = 7 \<and> chHist c = Some (newHistory 4 0) \<and> chFanout c = Broadcast"
proof -
  let ?e1 = "snd (SubscribePriority 0 7 42 ''news'' 0 demo_start)"
  let ?e0 = "demo_start\<lparr>eSubscribeOps := eSubscribeOps demo_start + 1\<rparr>"
  have cfg: "eConfig demo_start = demo_cfg" by (simp add: demo_start_def New_def)
  have settings: "channelSettings n demo_start = (zero_settings\<lparr>HistorySize := 4, HistoryTTL := 0, AllowPublish := True\<rparr>, True)" for n
    by (simp add: channelSettings_def cfg demo_cfg_def WithHistory_def defaultConfig_def Let_def)
  have none: "lookup n demo_start = None" for n
    unfolding demo_start_def by (rule lookup_New [OF demo_cfg_ok])
  have pats: "lookup n demo_engine = lookup n ?e1" for n
    unfolding demo_engine_def by (simp add: SubscribePattern_eq Let_def split: prod.splits bool.splits)
  have ok0: "tables_ok ?e0"
    using engine_ok_New(1) [OF demo_cfg_ok, of "\<lambda>_. 0" "\<lambda>_. 0"] by (simp add: engine_ok_def demo_start_def)
  obtain err where s1: "SubscribePriority 0 7 42 ''news'' 0 demo_start = (err, ?e1)" by (metis prod.collapse)
  show ?thesis
    using s1
  proof (cases rule: SubscribePriority_cases)
    case (new s ch e2)
    have s: "s = zero_settings\<lparr>HistorySize := 4, HistoryTTL := 0, AllowPublish := True\<rparr>" using new(2) settings by simp
    have n0: "lookup ''news'' ?e0 = None" "channelSettings ''news'' ?e0 = (s, True)" using none new(2) by simp_all
    note cr = createChannelLocked_spec [OF ok0 n0 new(3)]
    have t2: "table_ok (eHash e2) (eShards e2)" using cr(1) by (simp add: tables_ok_def)
    have "chHist ch = Some (newHistory 4 0)" "chFanout ch = Broadcast"
      using new(3) s by (auto simp: createChannelLocked_def Let_def zero_settings_def split: prod.splits)
    moreover have "lookup n demo_engine = (if n = ''news'' then Some (subscribe_ranked 42 0 ch) else None)" for n
      using lookup_store [OF t2] cr(5) none by (simp add: pats new(6) attach_done_def Let_def)
    ultimately show ?thesis
      using cr(11,12) new(4)
      by (intro exI [of _ "subscribe_ranked 42 0 ch"]) (simp add: subscribe_ranked_def Channel_Subscribe_eq Let_def)
  qed (use none settings in auto)
qed

lemma distinct_set_single: "distinct xs \<Longrightarrow> set xs = {a} \<Longrightarrow> xs = [a]"
  by (cases xs; cases "tl xs") auto

theorem engine_consistent_witness: "GetChannels 42 (eSubs demo_engine) = [''news'']"
proof -
  have "distinct (GetChannels 42 (eSubs demo_engine))
      \<and> set (GetChannels 42 (eSubs demo_engine)) = {name. \<exists>ch. lookup name demo_engine = Some ch \<and> 42 \<in> set (Subscribers ch)}"
    using engine_consistent [OF demo_reachable] by blast
  moreover have "{name. \<exists>ch. lookup name demo_engine = Some ch \<and> 42 \<in> set (Subscribers ch)} = {name. (42, name) \<in> live_rel demo_engine}"
    by (simp add: live_rel_def)
  ultimately show ?thesis by (intro distinct_set_single) (simp_all add: demo_relations(1))
qed

section \<open>Subscriptions as a relation\<close>

text \<open>
  (C9) The subscription operations refine updates of a plain relation between subscribers and
  channels: a subscribe adds exactly its pair or reports why not and changes nothing, an
  unsubscribe removes exactly its pair and reports whether it was there, and a disconnect leaves
  the subscriber on no channel and no pattern while everybody else's subscriptions stand.
\<close>

theorem subscriptions_refine:
  assumes "engine_reachable hash seed cfg e"
  shows "(\<forall>now ep i name prio err e'. SubscribePriority now ep i name prio e = (err, e') \<longrightarrow>
        live_rel e' = (if err = None then insert (i, name) (live_rel e) else live_rel e)
        \<and> (err = None \<longrightarrow> (i, name) \<notin> live_rel e) \<and> (err = Some ErrAlreadySubscribed \<longrightarrow> (i, name) \<in> live_rel e)
        \<and> pattern_rel (ePatterns e') = pattern_rel (ePatterns e))
    \<and> (\<forall>now i name ok e'. Unsubscribe now i name e = (ok, e') \<longrightarrow>
        live_rel e' = live_rel e - {(i, name)} \<and> (ok \<longleftrightarrow> (i, name) \<in> live_rel e)
        \<and> pattern_rel (ePatterns e') = pattern_rel (ePatterns e))
    \<and> (\<forall>now i. live_rel (UnsubscribeAll now i e) = live_rel e - {i} \<times> UNIV
        \<and> pattern_rel (ePatterns (UnsubscribeAll now i e)) = pattern_rel (ePatterns e) - {i} \<times> UNIV)"
proof -
  have ok: "engine_ok e" by (rule reachable_ok [OF assms])
  have sub: "live_rel e' = (if err = None then insert (i, name) (live_rel e) else live_rel e)
        \<and> (err = None \<longrightarrow> (i, name) \<notin> live_rel e) \<and> (err = Some ErrAlreadySubscribed \<longrightarrow> (i, name) \<in> live_rel e)
        \<and> pattern_rel (ePatterns e') = pattern_rel (ePatterns e)"
    if "SubscribePriority now ep i name prio e = (err, e')" for now ep i name prio err e'
    using SubscribePriority_spec [OF ok that] by simp
  have unsub: "live_rel e' = live_rel e - {(i, name)} \<and> (b \<longleftrightarrow> (i, name) \<in> live_rel e)
        \<and> pattern_rel (ePatterns e') = pattern_rel (ePatterns e)"
    if "Unsubscribe now i name e = (b, e')" for now i name b e'
    using Unsubscribe_spec [OF ok that] by simp
  have subs: "\<forall>now ep i name prio err e'. SubscribePriority now ep i name prio e = (err, e') \<longrightarrow>
        live_rel e' = (if err = None then insert (i, name) (live_rel e) else live_rel e)
        \<and> (err = None \<longrightarrow> (i, name) \<notin> live_rel e) \<and> (err = Some ErrAlreadySubscribed \<longrightarrow> (i, name) \<in> live_rel e)
        \<and> pattern_rel (ePatterns e') = pattern_rel (ePatterns e)"
    by (intro allI impI) (rule sub)
  have unsubs: "\<forall>now i name ok e'. Unsubscribe now i name e = (ok, e') \<longrightarrow>
        live_rel e' = live_rel e - {(i, name)} \<and> (ok \<longleftrightarrow> (i, name) \<in> live_rel e)
        \<and> pattern_rel (ePatterns e') = pattern_rel (ePatterns e)"
    by (intro allI impI) (rule unsub)
  have "\<forall>now i. live_rel (UnsubscribeAll now i e) = live_rel e - {i} \<times> UNIV
        \<and> pattern_rel (ePatterns (UnsubscribeAll now i e)) = pattern_rel (ePatterns e) - {i} \<times> UNIV"
    using UnsubscribeAll_spec(2,4) [OF ok refl] by simp
  with subs unsubs show ?thesis by (intro conjI)
qed

theorem subscriptions_refine_witness:
  "live_rel (UnsubscribeAll 5 42 demo_engine) = {} \<and> pattern_rel (ePatterns (UnsubscribeAll 5 42 demo_engine)) = {(9, ''n*'')}"
proof -
  have "live_rel (UnsubscribeAll 5 42 demo_engine) = live_rel demo_engine - {42} \<times> UNIV
      \<and> pattern_rel (ePatterns (UnsubscribeAll 5 42 demo_engine)) = pattern_rel (ePatterns demo_engine) - {42} \<times> UNIV"
    using subscriptions_refine [OF demo_reachable] by blast
  then show ?thesis by (auto simp: demo_relations)
qed

section \<open>Who receives a publication\<close>

text \<open>The exact recipients of a channel that is not in round-robin mode.\<close>

definition audience :: "Engine \<Rightarrow> string \<Rightarrow> SubscriberID set" where
  "audience e channel =
     (case lookup channel e of
        None \<Rightarrow> {}
      | Some ch \<Rightarrow> if chFanout ch = Priority then {i. \<exists>p. ranks ch i = Some p \<and> (\<forall>j q. ranks ch j = Some q \<longrightarrow> q \<le> p)}
                   else set (Subscribers ch))"

definition spreads :: "Engine \<Rightarrow> string \<Rightarrow> bool" where
  "spreads e channel \<longleftrightarrow> Fanout (fst (channelSettings channel e)) \<noteq> RoundRobin"

lemma spread_list:
  assumes "channel_ok (ch\<lparr>chRefs := 0\<rparr>)"
    and "subs = (if chFanout ch = Priority then case chTop ch of Some cohort \<Rightarrow> cohort | None \<Rightarrow> Subscribers ch else Subscribers ch)"
  shows "distinct subs"
    "set subs = (if chFanout ch = Priority then {i. \<exists>p. ranks ch i = Some p \<and> (\<forall>j q. ranks ch j = Some q \<longrightarrow> q \<le> p)}
       else set (Subscribers ch))"
proof -
  let ?c = "ch\<lparr>chRefs := 0\<rparr>"
  have top: "set ids = {i. \<exists>p. ranks ch i = Some p \<and> (\<forall>j q. ranks ch j = Some q \<longrightarrow> q \<le> p)} \<and> distinct ids"
    if "chTop ch = Some ids" for ids
    using chTop_ranks(1,3) [OF assms(1), of ids] that by (simp add: ranks_def cong: option.case_cong)
  have none: "Subscribers ch = [] \<and> ranks ch = Map.empty" if "chTop ch = None" "chFanout ch = Priority"
    using assms(1) that by (auto simp: channel_ok_def prios_ok_def ranks_def Subscribers_def split: option.splits)
  have d: "distinct (Subscribers ch)" using assms(1) by (simp add: channel_ok_def Subscribers_def)
  show "distinct subs" using top d by (auto simp: assms(2) split: option.splits)
  show "set subs = (if chFanout ch = Priority then {i. \<exists>p. ranks ch i = Some p \<and> (\<forall>j q. ranks ch j = Some q \<longrightarrow> q \<le> p)}
       else set (Subscribers ch))"
    using top none by (auto simp: assms(2) split: option.splits)
qed

lemma Publish_spread:
  assumes "engine_ok e" "\<forall>ch. lookup channel e = Some ch \<longrightarrow> offset_room ch" "has_target e channel"
    and "spreads e channel" "fanout_safe (eConfig e)"
  shows "\<exists>r e' d calls. Publish now ep order sched channel data exclude (recorder accept) e [] = Inr (r, e', map (\<lambda>i. (i, d)) calls)
    \<and> distinct calls \<and> set calls = audience e channel \<union> wild_rel e channel - {exclude}
    \<and> resDelivered r = int (length (filter accept calls)) \<and> resDropped r = int (length (filter (Not \<circ> accept) calls))
    \<and> dChannel d = channel \<and> dData d = data \<and> dOffset d = resOffset r \<and> dEpoch d = resEpoch r"
proof -
  obtain ch ch1 pids d0
    where run: "publish_run e now ep order sched channel data exclude (recorder accept) [] ch ch1 pids d0"
    using Publish_some [OF assms(1-3), where deliver = "recorder accept" and w = "[]"] by blast
  then have origin: "case lookup channel e of Some c0 \<Rightarrow> ch = Acquire c0
        | None \<Rightarrow> wild_rel e channel \<noteq> {} \<and> Subscribers ch = [] \<and> chOffset ch = 0 \<and> chEpoch ch = ep"
    and held: "held_ok e channel ch" and asg: "assign_offset now data ch = (chOffset ch + 1, ch1)" and room: "offset_room ch"
    and d0: "d0 = \<lparr>dChannel = channel, dData = data, dOffset = chOffset ch + 1, dEpoch = chEpoch ch, dFrame = None\<rparr>"
    and pids: "set pids = wild_rel e channel" "distinct pids"
    unfolding publish_run_def by blast+
  note a = assign_offset_spec [OF held room asg]
  have mode: "chFanout ch1 \<noteq> RoundRobin"
    using assms(4) held a(7) by (auto simp: spreads_def held_ok_def settled_def)
  define subs where "subs = (if chFanout ch1 = Priority then case chTop ch1 of Some cohort \<Rightarrow> cohort | None \<Rightarrow> Subscribers ch1
      else Subscribers ch1)"
  obtain calls d where fo: "fan_out (eConfig e) sched ch1 pids d0 exclude (recorder accept) [] =
      Inr ((length (filter accept calls), length (filter (Not \<circ> accept) calls)), ch1, subs, d, map (\<lambda>i. (i, d)) calls)"
    and calls: "mset calls = mset (receivers exclude subs)"
    and d: "d = (if length subs + length pids > 1 then d0\<lparr>dFrame := Some \<lparr>frBytes = None\<rparr>\<rparr> else d0)"
    using fan_out_spread [OF assms(5) mode subs_def, of sched pids d0 exclude accept "[]"] by auto
  have ok1: "channel_ok (ch1\<lparr>chRefs := 0\<rparr>)" using a(1) by (simp add: held_ok_def)
  note sl = spread_list [OF ok1 subs_def]
  have aud: "set subs = audience e channel"
  proof (cases "lookup channel e")
    case (Some c0)
    then have c0: "ch = Acquire c0" using origin by simp
    have "chPrios ch1 = chPrios ch" using asg by (auto simp: assign_offset_def Let_def split: option.splits prod.splits)
    then have "ranks ch1 = ranks c0" by (simp add: ranks_def c0 Acquire_def)
    moreover have "chFanout ch1 = chFanout c0" "Subscribers ch1 = Subscribers c0"
      using a(4,7) by (simp_all add: c0 Acquire_def Subscribers_def)
    ultimately show ?thesis using sl(2) Some by (simp add: audience_def)
  next
    case None
    then have empty: "Subscribers ch1 = []" using origin a(4) by simp
    moreover have "set subs \<subseteq> set (Subscribers ch1)"
      using chTop_ranks(4) [OF ok1] by (auto simp: subs_def Subscribers_def split: option.splits if_splits)
    ultimately show ?thesis using None by (simp add: audience_def)
  qed
  let ?rest = "receivers exclude (filter (\<lambda>i. i \<notin> set subs) pids)"
  have dp: "deliverPatterns subs pids d exclude (recorder accept) (map (\<lambda>i. (i, d)) calls) =
      ((length (filter accept ?rest), length (filter (Not \<circ> accept) ?rest)), map (\<lambda>i. (i, d)) (calls @ ?rest))"
    by (simp add: deliverPatterns_eq deliver_loop_recorder)
  have set: "set calls = set subs - {exclude}" "distinct calls"
    using calls sl(1) by (metis set_mset_mset set_receivers, metis distinct_receivers mset_eq_imp_distinct_iff)
  obtain e' where "Publish now ep order sched channel data exclude (recorder accept) e [] =
      Inr (\<lparr>resChannel = channel, resOffset = chOffset ch + 1, resEpoch = chEpoch ch,
        resDelivered = int (length (filter accept calls) + length (filter accept ?rest)),
        resDropped = int (length (filter (Not \<circ> accept) calls) + length (filter (Not \<circ> accept) ?rest))\<rparr>, e',
        map (\<lambda>i. (i, d)) (calls @ ?rest))"
    by (rule publish_run_Inr [OF run fo dp])
  then have pub: "Publish now ep order sched channel data exclude (recorder accept) e [] =
      Inr (\<lparr>resChannel = channel, resOffset = chOffset ch + 1, resEpoch = chEpoch ch,
        resDelivered = int (length (filter accept (calls @ ?rest))),
        resDropped = int (length (filter (Not \<circ> accept) (calls @ ?rest)))\<rparr>, e', map (\<lambda>i. (i, d)) (calls @ ?rest))"
    by simp
  have "distinct (calls @ ?rest)" using set pids(2) by auto
  moreover have "set (calls @ ?rest) = audience e channel \<union> wild_rel e channel - {exclude}"
    using set(1) pids(1) aud by auto
  moreover have "dChannel d = channel" "dData d = data" "dOffset d = chOffset ch + 1" "dEpoch d = chEpoch ch"
    by (simp_all add: d d0)
  ultimately show ?thesis using pub by (intro exI conjI) (assumption | simp)+
qed

text \<open>
  (C10) A publication reaches exactly its audience: in every reachable engine whose parallel path
  needs at least one subscriber, publishing on a broadcast or priority channel of a known namespace
  returns, and the transport was called exactly once for each subscriber of the channel (in
  priority mode: each of the highest rank) and each subscriber of a matching wildcard pattern,
  except the excluded publisher, with one delivery that carries the payload and the identity
  reported to the publisher; the two counts are the accepted and the refused calls.
\<close>

theorem publish_reaches_audience:
  assumes "engine_reachable hash seed cfg e" and "\<forall>ch. lookup channel e = Some ch \<longrightarrow> offset_room ch"
    and "snd (channelSettings channel e)" and "spreads e channel" and "fanout_safe cfg"
  shows "\<exists>r e' d calls. Publish now ep order sched channel data exclude (recorder accept) e [] = Inr (r, e', map (\<lambda>i. (i, d)) calls)
    \<and> distinct calls \<and> set calls = audience e channel \<union> wild_rel e channel - {exclude}
    \<and> resDelivered r = int (length (filter accept calls)) \<and> resDropped r = int (length (filter (Not \<circ> accept) calls))
    \<and> dChannel d = channel \<and> dData d = data \<and> dOffset d = resOffset r \<and> dEpoch d = resEpoch r"
proof -
  have ok: "engine_ok e" "fanout_safe (eConfig e)" using reachable_ok [OF assms(1)] assms(5) by simp_all
  show ?thesis
  proof (cases "has_target e channel")
    case True
    show ?thesis by (rule Publish_spread [OF ok(1) assms(2) True assms(4) ok(2)])
  next
    case False
    then have none: "lookup channel e = None" "wild_rel e channel = {}" using assms(3) by (auto simp: has_target_def)
    obtain e' where "Publish now ep order sched channel data exclude (recorder accept) e [] =
      Inr (\<lparr>resChannel = channel, resOffset = 0, resEpoch = 0, resDelivered = 0, resDropped = 0\<rparr>, e', [])"
      using Publish_none [OF ok(1) False, where deliver = "recorder accept" and w = "[]"] by blast
    with none show ?thesis
      by (intro exI [of _ "\<lparr>resChannel = channel, resOffset = 0, resEpoch = 0, resDelivered = 0, resDropped = 0\<rparr>"]
          exI [of _ e'] exI [of _ "\<lparr>dChannel = channel, dData = data, dOffset = 0, dEpoch = 0, dFrame = None\<rparr>"]
          exI [of _ "[]"]) (simp add: audience_def)
  qed
qed

lemma demo_channel_facts:
  "spreads demo_engine channel" "fanout_safe demo_cfg" "snd (channelSettings channel demo_engine)"
proof -
  have "eConfig demo_engine = demo_cfg" by (rule reachable_ok [OF demo_reachable])
  then show "spreads demo_engine channel" "fanout_safe demo_cfg" "snd (channelSettings channel demo_engine)"
    by (simp_all add: spreads_def channelSettings_def zero_settings_def fanout_safe_def demo_cfg_def WithHistory_def
        defaultConfig_def Let_def)
qed

theorem publish_reaches_audience_witness:
  "\<exists>r e' d calls. Publish 1 5 [] [] ''next'' ''hi'' 0 (recorder (\<lambda>_. True)) demo_engine [] = Inr (r, e', map (\<lambda>i. (i, d)) calls)
    \<and> set calls = {9}"
proof -
  have none: "lookup ''next'' demo_engine = None" using demo_lookup by fastforce
  then have "\<forall>ch. lookup ''next'' demo_engine = Some ch \<longrightarrow> offset_room ch" by simp
  from publish_reaches_audience [OF demo_reachable this demo_channel_facts(3,1,2), of 1 5 "[]" "[]" "''hi''" 0 "\<lambda>_. True"]
  have "\<exists>r e' d calls. Publish 1 5 [] [] ''next'' ''hi'' 0 (recorder (\<lambda>_. True)) demo_engine [] = Inr (r, e', map (\<lambda>i. (i, d)) calls)
    \<and> set calls = audience demo_engine ''next'' \<union> wild_rel demo_engine ''next'' - {0}" by blast
  moreover have "audience demo_engine ''next'' = {}" by (simp add: audience_def none)
  moreover have "wild_rel demo_engine ''next'' = {9}"
  proof -
    have "cfgNamespaces (eConfig demo_engine) = None"
      using reachable_ok(2) [OF demo_reachable] by (simp add: demo_cfg_def WithHistory_def defaultConfig_def Let_def)
    moreover have "glob ''n*'' ''next''" by (simp add: star_char_def)
    ultimately show ?thesis by (simp add: wild_rel_def demo_relations del: glob.simps)
  qed
  ultimately show ?thesis by simp
qed

section \<open>Wildcards respect their namespace\<close>

lemma Resolve_prefix:
  assumes "Prefix a = Prefix b" "snd (Resolve r a)" "snd (Resolve r b)"
  shows "Resolve r a = Resolve r b"
proof -
  obtain ra fa where a: "Split a = (Prefix a, ra, fa)" using Split_Prefix [of a] by (cases "Split a") auto
  obtain rb fb where b: "Split b = (Prefix b, rb, fb)" using Split_Prefix [of b] by (cases "Split b") auto
  show ?thesis
    using assms by (auto simp: Resolve_def a b split: option.splits if_splits)
qed

text \<open>
  A wildcard subscription never crosses into a namespace that denies wildcards: in every
  reachable engine with a validated namespace registry, a channel whose namespace does not allow
  them, and in particular every round-robin and every priority channel, has no wildcard recipient,
  whatever patterns were subscribed and whatever the match cache holds.
\<close>

theorem wildcards_confined:
  assumes "engine_reachable hash seed cfg e" and "cfgNamespaces cfg = Some r" and "registry_ok r"
    and "Resolve r channel = (s, True)" and "\<not> AllowWildcard s \<or> Fanout s \<noteq> Broadcast"
  shows "fst (match_ids order channel e) = []"
proof -
  have ok: "engine_ok e" and cfg: "eConfig e = cfg" by (rule reachable_ok [OF assms(1)])+
  then have p: "pats_ok e" by (simp add: engine_ok_def)
  have "settings_ok s" using Resolve_ok [OF assms(3), of channel] assms(4) by simp
  then have "\<not> AllowWildcard s" using assms(5) by (auto simp: settings_ok_def)
  have "wild_rel e channel = {}"
  proof (rule equals0I)
    fix i assume "i \<in> wild_rel e channel"
    then obtain pat where pat: "(i, pat) \<in> pattern_rel (ePatterns e)" "Prefix pat = Prefix channel"
      using cfg assms(2) by (auto simp: wild_rel_def)
    then have "admitted e pat" using p by (auto simp: pats_ok_def)
    then have "snd (Resolve r pat)" "AllowWildcard (fst (Resolve r pat))" using cfg assms(2) by (auto simp: admitted_def)
    with Resolve_prefix [OF pat(2), of r] assms(4) \<open>\<not> AllowWildcard s\<close> show False by simp
  qed
  moreover have "set (fst (match_ids order channel e)) = wild_rel e channel"
    using match_ids_spec(1) [OF p] by (metis prod.collapse)
  ultimately show ?thesis by simp
qed

text \<open>A registry with a wildcard namespace and a round-robin one.\<close>

definition demo_registry :: Registry where
  "demo_registry = \<lparr>regNamespaces = [(''rr'', zero_settings\<lparr>Fanout := RoundRobin\<rparr>),
      (''open'', zero_settings\<lparr>AllowWildcard := True\<rparr>)], regDef = zero_settings, regStrict = False\<rparr>"

theorem wildcards_confined_witness:
  "fst (match_ids [] ''rr:jobs'' (snd (SubscribePattern 9 ''open:*''
     (New (\<lambda>_. 0) (\<lambda>_. 0) (WithNamespaces (Some demo_registry) demo_cfg))))) = []"
proof -
  let ?cfg = "WithNamespaces (Some demo_registry) demo_cfg"
  let ?e = "New (\<lambda>_. 0) (\<lambda>_. 0) ?cfg"
  have "config_ok ?cfg" using demo_cfg_ok by (simp add: config_ok_def WithNamespaces_def)
  moreover have "engine_step ?e (snd (SubscribePattern 9 ''open:*'' ?e))"
    by (rule engine_step.subscribePattern) (rule surjective_pairing)
  ultimately have r: "engine_reachable (\<lambda>_. 0) (\<lambda>_. 0) ?cfg (snd (SubscribePattern 9 ''open:*'' ?e))"
    by (simp add: engine_reachable_def)
  have "registry_ok demo_registry"
    by (auto simp: registry_ok_def demo_registry_def settings_ok_def zero_settings_def gomap_ok_def gget_Cons split: if_splits)
  moreover have "Resolve demo_registry ''rr:jobs'' = (zero_settings\<lparr>Fanout := RoundRobin\<rparr>, True)"
    by (simp add: Resolve_def demo_registry_def Split_def colon_def gget_Cons)
  moreover have "cfgNamespaces ?cfg = Some demo_registry" by (simp add: WithNamespaces_def)
  ultimately show ?thesis using wildcards_confined [OF r] by (simp add: zero_settings_def)
qed

end
