(* ===== verification/Engine_Delivery.thy ===== *)
theory Engine_Delivery
  imports Engine_Props
begin

text \<open>
  Round-robin delivery, recovery from the history, and the configuration under which a publication
  panics.
\<close>

section \<open>Round robin\<close>

text \<open>The order in which \<^verbatim>\<open>roundRobinDeliver\<close> tries the subscribers from cursor \<open>s\<close> on.\<close>

definition rotation :: "nat \<Rightarrow> 'a list \<Rightarrow> 'a list" where
  "rotation s xs = map (\<lambda>i. xs ! ((s + i) mod length xs)) [0..<length xs]"

lemma rotation_rotate: "xs \<noteq> [] \<Longrightarrow> rotation s xs = rotate s xs"
  by (rule nth_equalityI) (simp_all add: rotation_def nth_rotate)

lemma set_rotation: "set (rotation s xs) = set xs"
  by (cases "xs = []") (simp_all add: rotation_rotate, simp add: rotation_def)

lemma distinct_rotation: "distinct xs \<Longrightarrow> distinct (rotation s xs)"
  by (cases "xs = []") (simp_all add: rotation_rotate, simp add: rotation_def)

text \<open>What the search does with a list of candidates: try each until one accepts.\<close>

fun first_taker :: "(SubscriberID \<Rightarrow> bool) \<Rightarrow> SubscriberID list \<Rightarrow> SubscriberID list \<times> bool" where
  "first_taker accept [] = ([], False)"
| "first_taker accept (i # is) =
     (if accept i then ([i], True) else (case first_taker accept is of (tried, took) \<Rightarrow> (i # tried, took)))"

lemma rr_loop_recorder:
  assumes "unat start + unat i + k < 2 ^ 64" "length subs < 2 ^ 64" "subs \<noteq> []"
    and "cands = receivers exclude (map (\<lambda>j. subs ! ((unat start + j) mod length subs)) [unat i ..< unat i + k])"
    and "first_taker accept cands = (calls, took)"
  shows "rr_loop subs d exclude (recorder accept) start i k tried w =
    ((if took then (1, 0) else if tried = 0 \<and> cands = [] then (0, 0) else (0, 1)), w @ map (\<lambda>j. (j, d)) calls)"
  using assms
proof (induction k arbitrary: i tried w cands calls took)
  case (Suc k)
  have i1: "unat (i + 1) = unat i + 1" using Suc.prems(1) by (intro unat_plus_1) simp
  have sum: "unat (start + i) = unat start + unat i"
    using Suc.prems(1) by (simp add: unat_word_ariths)
  have len: "unat (of_nat (length subs) :: u64) = length subs" using Suc.prems(2) by (simp add: unat_of_nat)
  have idx: "unat ((start + i) mod of_nat (length subs)) = (unat start + unat i) mod length subs"
    by (simp add: unat_mod len sum)
  let ?sid = "subs ! ((unat start + unat i) mod length subs)"
  let ?rest = "receivers exclude (map (\<lambda>j. subs ! ((unat start + j) mod length subs)) [unat (i + 1) ..< unat (i + 1) + k])"
  have range: "[unat i ..< unat i + Suc k] = unat i # [unat (i + 1) ..< unat (i + 1) + k]"
    using i1 by (simp add: upt_conv_Cons del: upt_Suc)
  have cands: "cands = (if ?sid = exclude then ?rest else ?sid # ?rest)"
    unfolding Suc.prems(4) range by (simp add: receivers_def)
  have b: "unat start + unat (i + 1) + k < 2 ^ 64" using Suc.prems(1) i1 by simp
  obtain calls' took' where ft: "first_taker accept ?rest = (calls', took')" by (cases "first_taker accept ?rest")
  note ih = Suc.IH [OF b Suc.prems(2,3) refl ft]
  show ?case
  proof (cases "?sid = exclude")
    case True
    then show ?thesis using ih Suc.prems(5) cands ft by (simp add: Let_def idx)
  next
    case False
    show ?thesis
    proof (cases "accept ?sid")
      case True
      then show ?thesis using False Suc.prems(5) cands by (auto simp add: Let_def idx recorder_def)
    next
      case no: False
      then have "calls = ?sid # calls'" "took = took'" using False Suc.prems(5) cands ft by simp_all
      then show ?thesis using False no ih [of "tried + 1" "w @ [(?sid, d)]"] cands by (simp add: Let_def idx recorder_def)
    qed
  qed
qed simp

lemma first_taker_spec:
  "first_taker accept is = (calls, took) \<Longrightarrow>
    (took \<longleftrightarrow> (\<exists>i \<in> set is. accept i)) \<and> prefix calls is
    \<and> (took \<longrightarrow> calls \<noteq> [] \<and> accept (last calls) \<and> (\<forall>i \<in> set (butlast calls). \<not> accept i))
    \<and> (\<not> took \<longrightarrow> calls = is)"
proof (induction "is" arbitrary: calls took)
  case (Cons i "is")
  obtain c t where r: "first_taker accept is = (c, t)" by (cases "first_taker accept is")
  show ?case using Cons.prems Cons.IH [OF r] r by (cases "accept i") auto
qed simp

text \<open>
  Round-robin delivery hands a publication to one consumer: from the rotation cursor on, each
  subscriber but the publisher is tried at most once and in order, the search stops at the first
  that takes it, exactly that one is counted as delivered, and the message counts as dropped
  exactly when there was somebody to try and everybody refused; the cursor moves on by one, so the
  next publication starts at the next subscriber.
\<close>

theorem round_robin_exact:
  assumes "subs \<noteq> []" and "unat (chRR ch) + length subs < 2 ^ 64"
    and "cands = receivers exclude (rotate (unat (chRR ch)) subs)"
    and "roundRobinDeliver ch subs d exclude (recorder accept) w = ((del, drp), ch', w')"
  shows "\<exists>calls. w' = w @ map (\<lambda>i. (i, d)) calls \<and> prefix calls cands \<and> chRR ch' = chRR ch + 1
    \<and> (if \<exists>i \<in> set cands. accept i
       then del = 1 \<and> drp = 0 \<and> calls \<noteq> [] \<and> accept (last calls) \<and> (\<forall>i \<in> set (butlast calls). \<not> accept i)
       else del = 0 \<and> drp = (if cands = [] then 0 else 1) \<and> calls = cands)"
proof -
  have start: "chRR (ch\<lparr>chRR := chRR ch + 1\<rparr>) - 1 = chRR ch" by simp
  obtain calls took where ft: "first_taker accept cands = (calls, took)" by (cases "first_taker accept cands")
  have cands: "cands = receivers exclude (map (\<lambda>j. subs ! ((unat (chRR ch) + j) mod length subs)) [unat (0 :: u64) ..< unat (0 :: u64) + length subs])"
    using assms(1,3) by (simp add: rotation_rotate [symmetric] rotation_def)
  have bounds: "unat (chRR ch) + unat (0 :: u64) + length subs < 2 ^ 64" "length subs < 2 ^ 64" using assms(2) by simp_all
  note rr = rr_loop_recorder [OF bounds assms(1) cands ft, of d 0 w]
  have res: "(del, drp) = (if took then (1, 0) else if cands = [] then (0, 0) else (0, 1))"
    "ch' = ch\<lparr>chRR := chRR ch + 1\<rparr>" "w' = w @ map (\<lambda>j. (j, d)) calls"
    using assms(1,4) rr by (auto simp add: roundRobinDeliver_def Let_def)
  have del: "del = (if took then 1 else 0)" "drp = (if took \<or> cands = [] then 0 else 1)"
    using res(1) by (auto split: if_splits)
  show ?thesis
    using first_taker_spec [OF ft] by (intro exI [of _ calls]) (auto simp: res(2,3) del)
qed

definition demo_delivery :: Delivery where
  "demo_delivery = \<lparr>dChannel = ''jobs'', dData = ''x'', dOffset = 1, dEpoch = 5, dFrame = None\<rparr>"

theorem round_robin_exact_witness:
  "\<exists>calls. snd (snd (roundRobinDeliver (zero_channel\<lparr>chRR := 1\<rparr>) [10, 11, 12] demo_delivery 12
      (recorder (\<lambda>i. i = 10)) [])) = map (\<lambda>i. (i, demo_delivery)) calls \<and> calls \<noteq> [] \<and> last calls = 10"
proof -
  let ?ch = "zero_channel\<lparr>chRR := 1\<rparr>"
  have run: "roundRobinDeliver ?ch [10, 11, 12] demo_delivery 12 (recorder (\<lambda>i. i = 10)) []
    = ((1, 0), ?ch\<lparr>chRR := 2\<rparr>, [(11, demo_delivery), (10, demo_delivery)])"
    by (simp add: roundRobinDeliver_def recorder_def Let_def)
  have "unat (chRR ?ch) + length [10, 11, 12 :: SubscriberID] < 2 ^ 64" by simp
  from round_robin_exact [OF list.simps(3) this refl run]
  have "\<exists>calls. [(11, demo_delivery), (10, demo_delivery)] = [] @ map (\<lambda>i. (i, demo_delivery)) calls \<and>
      calls \<noteq> [] \<and> last calls = (10 :: SubscriberID)"
    by (auto simp: receivers_def rotate_def simp del: append.simps map_eq_Cons_conv Cons_eq_map_conv)
  then show ?thesis unfolding run by simp
qed

section \<open>Recovery\<close>

lemma lookup_history:
  assumes "engine_ok e" "lookup channel e = Some ch" "chHist ch = Some h"
  shows "hist_ok h" "hLastOffset h = chOffset ch"
proof -
  have "channel_ok ch" using assms(1,2) by (auto simp: engine_ok_def tables_ok_def)
  with assms(3) show "hist_ok h" "hLastOffset h = chOffset ch" by (simp_all add: channel_ok_def hist_sync_def)
qed

text \<open>The deliveries a list of retained items is sent as.\<close>

definition deliveries :: "string \<Rightarrow> u64 \<Rightarrow> historyItem list \<Rightarrow> Delivery list" where
  "deliveries channel epoch = map (\<lambda>item. \<lparr>dChannel = channel, dData = hiData item, dOffset = hiOffset item,
     dEpoch = epoch, dFrame = None\<rparr>)"

lemma RecoverN_spec:
  assumes "engine_ok e" "lookup channel e = Some ch" "chHist ch = Some h"
  shows "RecoverN channel from epoch maxN e =
    (if chEpoch ch = epoch \<and> from \<le> chOffset ch \<and> unat (chOffset ch) - hCount h \<le> unat from
     then Some (deliveries channel epoch (limit maxN (filter (\<lambda>x. from < hiOffset x) (hist_items h)))) else None)"
  using lookup_history [OF assms] assms(2,3)
  by (simp add: RecoverN_def replayN_spec deliveries_def)


text \<open>What one more publication does to a replay: the new item is appended, unless the replay already needed the whole ring.\<close>

lemma replayN_append:
  assumes "hist_ok h" "unat (hLastOffset h) + 1 < 2 ^ 64" "replayN h from 0 = Some old"
  shows "replayN (snd (appendNext h (hLastOffset h) data now)) from 0 =
    (if length old = length (hEntries h) then None else Some (old @ [mk_item (hLastOffset h + 1) data now]))"
proof -
  let ?h = "snd (appendNext h (hLastOffset h) data now)" and ?last = "unat (hLastOffset h)" and ?n = "length (hEntries h)"
  have ok': "hist_ok ?h" by (rule hist_ok_appendNext [OF assms(1) refl assms(2)])
  have base: "0 < ?n" "hHead h < ?n" "hCount h \<le> ?n" "hCount h \<le> ?last" using assms(1) by (simp_all add: hist_ok_def)
  have items: "hist_items ?h = (if hCount h < ?n then hist_items h else tl (hist_items h)) @ [mk_item (hLastOffset h + 1) data now]"
    by (rule appendNext_items [OF base(1-3)])
  then have "length (hist_items ?h) = (if hCount h < ?n then hCount h + 1 else hCount h)"
    using base(1,3) by simp
  then have cnt: "hCount ?h = (if hCount h < ?n then hCount h + 1 else hCount h)" by simp
  have last': "unat (hLastOffset ?h) = ?last + 1" using assms(2) by (simp add: unat_plus_1)
  have old: "unat from \<le> ?last" "?last - hCount h \<le> unat from" "old = drop (unat from + hCount h - ?last) (hist_items h)"
    using assms(3) replayN_spec [OF assms(1), of "from" 0] filter_newer [OF assms(1), of "from"]
    by (auto simp: limit_def word_le_nat_alt split: if_splits)
  then have len: "length old = ?last - unat from" using base(4) by simp
  have new: "replayN ?h from 0 = (if ?last + 1 - hCount ?h \<le> unat from
      then Some (drop (unat from + hCount ?h - (?last + 1)) (hist_items ?h)) else None)"
    using replayN_spec [OF ok', of "from" 0] filter_newer [OF ok', of "from"] last' old(1)
    by (simp add: limit_def word_le_nat_alt)
  show ?thesis
  proof (cases "hCount h < ?n")
    case True
    then show ?thesis using new len cnt items old base by auto
  next
    case False
    then have full: "hCount h = ?n" using base(3) by simp
    show ?thesis
    proof (cases "length old = ?n")
      case True
      then show ?thesis using new full cnt len base by auto
    next
      case False
      then have "unat from + ?n - ?last = Suc (unat from + ?n - (?last + 1))" using len full old(2) base(4) by auto
      then have "drop (unat from + ?n - (?last + 1)) (tl (hist_items h)) = old"
        using old(3) full by (simp add: drop_Suc)
      moreover have "unat from + ?n - (?last + 1) \<le> length (tl (hist_items h))" using full old(1) by simp
      ultimately show ?thesis using False new full cnt len items old base by (auto simp: Suc_diff_le)
    qed
  qed
qed


lemma Publish_lookup:
  assumes "engine_ok e" "lookup channel e = Some c0" "offset_room c0" "chHist c0 = Some h"
    and "Publish now ep order sched channel data exclude deliver e w = Inr (r, e', w')"
  shows "\<exists>c. engine_ok e' \<and> lookup channel e' = Some c \<and> chHist c = Some (snd (appendNext h (chOffset c0) data now))
    \<and> chEpoch c = chEpoch c0 \<and> chOffset c = chOffset c0 + 1 \<and> resOffset r = chOffset c0 + 1 \<and> resEpoch r = chEpoch c0"
proof -
  have room: "\<forall>ch. lookup channel e = Some ch \<longrightarrow> offset_room ch" using assms(2,3) by simp
  have tgt: "has_target e channel" using assms(2) by (simp add: has_target_def)
  obtain ch ch1 pids d0 where run: "publish_run e now ep order sched channel data exclude deliver w ch ch1 pids d0"
    using Publish_some [OF assms(1) room tgt, where deliver = deliver and w = w] by blast
  then have ch: "ch = Acquire c0" and held: "held_ok e channel ch" and asg: "assign_offset now data ch = (chOffset ch + 1, ch1)"
    and roomy: "offset_room ch"
    using assms(2) unfolding publish_run_def by auto
  have c0: "chHist ch = Some h" "chOffset ch = chOffset c0" "chEpoch ch = chEpoch c0"
    using assms(4) by (simp_all add: ch Acquire_def)
  note a = assign_offset_spec [OF held roomy asg]
  show ?thesis
  proof (cases "fan_out (eConfig e) sched ch1 pids d0 exclude deliver w")
    case (Inl p)
    from publish_run_Inl [OF run this] assms(5) show ?thesis by simp
  next
    case (Inr x)
    then obtain del drp ch2 exact d w1 where
      fo: "fan_out (eConfig e) sched ch1 pids d0 exclude deliver w = Inr ((del, drp), ch2, exact, d, w1)"
      by (cases x) auto
    obtain pdel pdrp w2 where dp: "deliverPatterns exact pids d exclude deliver w1 = ((pdel, pdrp), w2)"
      by (metis prod.collapse)
    note fc = fan_out_channel [OF a(1) fo]
    obtain e2 where "Publish now ep order sched channel data exclude deliver e w
      = Inr (\<lparr>resChannel = channel, resOffset = chOffset ch + 1, resEpoch = chEpoch ch,
          resDelivered = int (del + pdel), resDropped = int (drp + pdrp)\<rparr>, e2, w2)"
      "engine_ok e2" "lookup channel e2 = Some (ch2\<lparr>chRefs := 0\<rparr>)"
      by (rule publish_run_Inr [OF run fo dp]) simp
    with assms(5) show ?thesis
      using fc(3-5) a(3,6) a(10) [OF c0(1)] c0 by (intro exI [of _ "ch2\<lparr>chRefs := 0\<rparr>"]) auto
  qed
qed

lemma Recover_after_Publish:
  assumes "engine_ok e" and "lookup channel e = Some c0" and "chHist c0 = Some h" and "offset_room c0"
    and "Publish now ep order sched channel data exclude deliver e w = Inr (r, e', w')"
    and "Recover channel from (chEpoch c0) e = Some old"
  shows "Recover channel from (resEpoch r) e' =
      (if length old = length (hEntries h) then None
       else Some (old @ [\<lparr>dChannel = channel, dData = data, dOffset = resOffset r, dEpoch = resEpoch r, dFrame = None\<rparr>]))
    \<and> Recover channel (resOffset r - 1) (resEpoch r) e' =
      Some [\<lparr>dChannel = channel, dData = data, dOffset = resOffset r, dEpoch = resEpoch r, dFrame = None\<rparr>]"
proof -
  note ok = assms(1)
  note h = lookup_history [OF ok assms(2,3)]
  obtain c where c: "lookup channel e' = Some c" "chHist c = Some (snd (appendNext h (hLastOffset h) data now))"
      "chEpoch c = chEpoch c0" "resOffset r = hLastOffset h + 1" "resEpoch r = chEpoch c0"
    using Publish_lookup [OF ok assms(2,4,3,5)] h(2) by auto
  have room: "unat (hLastOffset h) + 1 < 2 ^ 64" using assms(4) h(2) by (simp add: offset_room_def)
  let ?send = "\<lambda>item. \<lparr>dChannel = channel, dData = hiData item, dOffset = hiOffset item, dEpoch = chEpoch c0, dFrame = None\<rparr>"
  have grow: "Recover channel f (resEpoch r) e' = (if length xs = length (hEntries h) then None
      else Some (map ?send xs @ [?send (mk_item (hLastOffset h + 1) data now)]))" if "replayN h f 0 = Some xs" for f xs
    using replayN_append [OF h(1) room that, of data now] c by (simp add: Recover_def RecoverN_def)
  have here: "replayN h (hLastOffset h) 0 = Some []" "0 < length (hEntries h)"
    using replayN_spec [OF h(1), of "hLastOffset h" 0] filter_newer [OF h(1), of "hLastOffset h"] h(1)
    by (auto simp: limit_def hist_ok_def)
  obtain xs where xs: "replayN h from 0 = Some xs" "old = map ?send xs"
    using assms(2,3,6) by (auto simp: Recover_def RecoverN_def split: option.splits)
  show ?thesis using grow [OF xs(1)] grow [OF here(1)] here(2) xs(2) c(4,5) by (simp add: mk_item_def)
qed

text \<open>
  (C11) A reconnecting subscriber misses nothing and sees nothing twice: when a publication on a
  channel with history returns, a consumer that asks for everything after an offset it could
  recover from before gets what it would have got before followed by exactly the new publication,
  with the offset and epoch reported to the publisher; only when it already needed the whole ring
  is it refused, so the overwritten publication is never skipped silently. In particular asking
  from the offset before the new one returns the new one alone.
\<close>

theorem publish_extends_recovery:
  assumes "engine_reachable hash seed cfg e" and "lookup channel e = Some c0" and "chHist c0 = Some h" and "offset_room c0"
    and "Publish now ep order sched channel data exclude deliver e w = Inr (r, e', w')"
    and "Recover channel from (chEpoch c0) e = Some old"
  shows "Recover channel from (resEpoch r) e' =
      (if length old = length (hEntries h) then None
       else Some (old @ [\<lparr>dChannel = channel, dData = data, dOffset = resOffset r, dEpoch = resEpoch r, dFrame = None\<rparr>]))
    \<and> Recover channel (resOffset r - 1) (resEpoch r) e' =
      Some [\<lparr>dChannel = channel, dData = data, dOffset = resOffset r, dEpoch = resEpoch r, dFrame = None\<rparr>]"
  by (rule Recover_after_Publish [OF _ assms(2-6)]) (rule reachable_ok [OF assms(1)])

text \<open>The demonstration engine after one publication on its channel.\<close>

lemma demo_publish:
  "\<exists>r e' w' c. Publish 1 5 [] [] ''news'' ''hi'' 0 (recorder (\<lambda>_. True)) demo_engine [] = Inr (r, e', w')
    \<and> lookup ''news'' demo_engine = Some c \<and> chHist c = Some (newHistory 4 0) \<and> offset_room c \<and> chEpoch c = 7 \<and> resEpoch r = 7
    \<and> Recover ''news'' 0 (chEpoch c) demo_engine = Some [] \<and> engine_reachable (\<lambda>_. 0) (\<lambda>_. 0) demo_cfg e'"
proof -
  obtain c where c: "lookup ''news'' demo_engine = Some c" "chOffset c = 0" "chEpoch c = 7" "chHist c = Some (newHistory 4 0)"
    using demo_lookup by auto
  have ok: "engine_ok demo_engine" "eConfig demo_engine = demo_cfg" by (rule reachable_ok [OF demo_reachable])+
  have room: "offset_room c" using c(2) by (simp add: offset_room_def)
  then have rooms: "\<forall>ch. lookup ''news'' demo_engine = Some ch \<longrightarrow> offset_room ch" using c(1) by simp
  have safe: "fanout_safe (eConfig demo_engine)" using ok(2) demo_channel_facts(2) by simp
  have tgt: "has_target demo_engine ''news''" using c(1) by (simp add: has_target_def)
  from Publish_spread [OF ok(1) rooms tgt demo_channel_facts(1) safe, of 1 5 "[]" "[]" "''hi''" 0 "\<lambda>_. True"]
  obtain r e' w' where pub: "Publish 1 5 [] [] ''news'' ''hi'' 0 (recorder (\<lambda>_. True)) demo_engine [] = Inr (r, e', w')"
    by auto
  have none: "Recover ''news'' 0 (chEpoch c) demo_engine = Some []"
    using RecoverN_spec [OF ok(1) c(1,4), of 0 "chEpoch c" 0] c(2)
    by (simp add: Recover_def deliveries_def limit_def)
  have "resEpoch r = 7" using Publish_lookup [OF ok(1) c(1) room c(4) pub] c(3) by auto
  moreover have "engine_reachable (\<lambda>_. 0) (\<lambda>_. 0) demo_cfg e'"
    using demo_reachable engine_step.publish [OF rooms pub] by (auto simp: engine_reachable_def)
  ultimately show ?thesis using pub c room none by blast
qed

theorem publish_extends_recovery_witness:
  "\<exists>r e' w'. Publish 1 5 [] [] ''news'' ''hi'' 0 (recorder (\<lambda>_. True)) demo_engine [] = Inr (r, e', w')
    \<and> Recover ''news'' 0 7 e' = Some [\<lparr>dChannel = ''news'', dData = ''hi'', dOffset = resOffset r, dEpoch = 7, dFrame = None\<rparr>]"
proof -
  obtain r e' w' c where pub: "Publish 1 5 [] [] ''news'' ''hi'' 0 (recorder (\<lambda>_. True)) demo_engine [] = Inr (r, e', w')"
    and c: "lookup ''news'' demo_engine = Some c" "chHist c = Some (newHistory 4 0)" "offset_room c"
    and none: "Recover ''news'' 0 (chEpoch c) demo_engine = Some []" and "resEpoch r = 7"
    using demo_publish by auto
  then show ?thesis using publish_extends_recovery [OF demo_reachable c pub none] by auto
qed

section \<open>A configuration that panics\<close>

lemma fan_out_panics:
  assumes "\<not> fanout_safe cfg" "chFanout ch \<noteq> RoundRobin" "channel_ok (ch\<lparr>chRefs := 0\<rparr>)" "Subscribers ch = []"
  shows "fan_out cfg sched ch pids d exclude deliver w = Inl DivideByZero"
proof -
  have empty: "ids = []" if "chTop ch = Some ids" for ids
    using chTop_ranks(4) [OF assms(3), of ids] that assms(4) by (cases "chSubs ch") (simp_all add: Subscribers_def)
  have "cfgFanoutThreshold cfg \<le> 0" "1 < cfgFanoutWorkers cfg" using assms(1) by (auto simp: fanout_safe_def)
  then show ?thesis
    using assms(2,4) empty by (cases "chFanout ch") (auto simp: fan_out_def Let_def parallelFanout_empty split: option.splits)
qed

text \<open>
  (C12) The one panic of a publication, and when it happens: with a fan-out threshold of zero,
  which the options and the configuration accept, and more than one worker, publishing to a
  broadcast or priority channel that exists but has no exact subscriber (one kept for its history,
  or materialised for a wildcard subscriber) divides by zero in the parallel fan-out, whatever the
  payload, the schedule and the transport.
\<close>

theorem zero_threshold_panics:
  assumes "engine_reachable hash seed cfg e" and "cfgFanoutThreshold cfg = 0" and "1 < cfgFanoutWorkers cfg"
    and "\<forall>ch. lookup channel e = Some ch \<longrightarrow> offset_room ch" and "has_target e channel" and "spreads e channel"
    and "\<forall>i. (i, channel) \<notin> live_rel e"
  shows "Publish now ep order sched channel data exclude deliver e w = Inl DivideByZero"
proof -
  have ok: "engine_ok e" "eConfig e = cfg" by (rule reachable_ok [OF assms(1)])+
  obtain ch ch1 pids d0 where run: "publish_run e now ep order sched channel data exclude deliver w ch ch1 pids d0"
    using Publish_some [OF ok(1) assms(4,5), where deliver = deliver and w = w] by blast
  then have held: "held_ok e channel ch" and asg: "assign_offset now data ch = (chOffset ch + 1, ch1)" and room: "offset_room ch"
    and subs: "set (Subscribers ch) = {i. (i, channel) \<in> live_rel e}"
    unfolding publish_run_def by blast+
  note a = assign_offset_spec [OF held room asg]
  have mode: "chFanout ch1 \<noteq> RoundRobin"
    using assms(6) held a(7) by (auto simp: spreads_def held_ok_def settled_def)
  have "channel_ok (ch1\<lparr>chRefs := 0\<rparr>)" using a(1) by (simp add: held_ok_def)
  moreover have "Subscribers ch1 = []" using subs assms(7) a(4) by simp
  moreover have "\<not> fanout_safe (eConfig e)" using assms(2,3) ok(2) by (simp add: fanout_safe_def)
  ultimately have "fan_out (eConfig e) sched ch1 pids d0 exclude deliver w = Inl DivideByZero"
    using mode by (intro fan_out_panics)
  with run show ?thesis by (rule publish_run_Inl)
qed

lemma first_pattern:
  assumes "engine_ok e" "pattern_rel (ePatterns e) = {}" "cfgNamespaces (eConfig e) = None"
  shows "fst (SubscribePattern sid pat e) = None" "lookup n (snd (SubscribePattern sid pat e)) = lookup n e"
proof -
  have "fst (patterns_add sid pat (ePatterns e))" using assms(2) by (auto simp: patterns_add_def pattern_rel_def)
  moreover have "admitted e pat" using assms(3) by (simp add: admitted_def)
  ultimately show "fst (SubscribePattern sid pat e) = None" "lookup n (snd (SubscribePattern sid pat e)) = lookup n e"
    by (auto simp: SubscribePattern_eq Let_def split: prod.splits bool.splits)
qed

theorem zero_threshold_panics_witness:
  "Publish 1 5 [] [] ''news'' ''hi'' 0 (recorder (\<lambda>_. True))
     (snd (SubscribePattern 9 ''n*'' (New (\<lambda>_. 0) (\<lambda>_. 0) (WithFanoutThreshold 0 demo_cfg)))) [] = Inl DivideByZero"
proof -
  define cfg where "cfg = WithFanoutThreshold 0 demo_cfg"
  define e0 where "e0 = New (\<lambda>_. 0) (\<lambda>_. 0) cfg"
  define e where "e = snd (SubscribePattern 9 ''n*'' e0)"
  have cfg: "config_ok cfg" "cfgNamespaces cfg = None" "cfgFanoutThreshold cfg = 0" "1 < cfgFanoutWorkers cfg"
    using demo_cfg_ok by (simp_all add: cfg_def config_ok_def WithFanoutThreshold_def demo_cfg_def WithHistory_def defaultConfig_def Let_def)
  note new = engine_ok_New [OF cfg(1), of "\<lambda>_. 0" "\<lambda>_. 0", folded e0_def]
  have c0: "cfgNamespaces (eConfig e0) = None" using cfg(2) by (simp add: e0_def New_def)
  note first = first_pattern [OF new(1,3) c0, where sid = 9 and pat = "''n*''"]
  have sub: "SubscribePattern 9 ''n*'' e0 = (None, e)" using first(1) by (simp add: e_def prod_eq_iff)
  have r: "engine_reachable (\<lambda>_. 0) (\<lambda>_. 0) cfg e"
    using engine_step.subscribePattern [OF sub] cfg(1) by (simp add: engine_reachable_def e0_def)
  note spec = SubscribePattern_spec [OF new(1) sub]
  have none: "lookup ''news'' e = None"
    using first(2) [where n = "''news''"] lookup_New [OF cfg(1)] by (simp add: e_def e0_def)
  have "eConfig e = cfg" by (rule reachable_ok [OF r])
  moreover have "glob ''n*'' ''news''" by (simp add: star_char_def)
  ultimately have "has_target e ''news''" "spreads e ''news''"
    using spec(4) new(3) cfg(2)
    by (simp_all add: has_target_def wild_rel_def channelSettings_def spreads_def zero_settings_def del: glob.simps)
  then show ?thesis
    using zero_threshold_panics [OF r cfg(3,4), of "''news''"] none spec(2) new(2) by (simp add: e_def e0_def cfg_def)
qed

end
