(* ===== verification/Client.thy ===== *)
theory Client
  imports Auth
begin

text \<open>
  Model of \<^verbatim>\<open>internal/client/client.go\<close> (the state a session keeps about its peer) and of the
  interface \<^verbatim>\<open>SessionState\<close> of \<^verbatim>\<open>internal/transport/transport.go\<close>. Each method runs under the state's
  lock and is one function here.
\<close>

datatype AddSubscriptionResult = SubscriptionAdded | SubscriptionAlreadyPresent | SubscriptionCapReached

record State =
  stId :: int
  stAuthenticated :: bool
  stClaims :: Claims
  stSubscriptions :: "(string, unit) gomap"

definition zero_claims :: Claims where
  "zero_claims = \<lparr>Subject = [], ExpiresAt = None, Channels = None, Pub = None\<rparr>"

definition NewState :: "int \<Rightarrow> State" where
  "NewState i = \<lparr>stId = i, stAuthenticated = False, stClaims = zero_claims, stSubscriptions = []\<rparr>"

definition State_Authenticate :: "Claims \<Rightarrow> State \<Rightarrow> State" where
  "State_Authenticate c s = s\<lparr>stAuthenticated := True, stClaims := c\<rparr>"

definition IsAuthenticated :: "State \<Rightarrow> bool" where
  "IsAuthenticated s = stAuthenticated s"

definition State_Subject :: "State \<Rightarrow> string" where
  "State_Subject s = Subject (stClaims s)"

definition State_CanSubscribe :: "string \<Rightarrow> State \<Rightarrow> bool" where
  "State_CanSubscribe channel s = CanSubscribe (stClaims s) channel"

definition State_CanPublish :: "string \<Rightarrow> State \<Rightarrow> bool" where
  "State_CanPublish channel s = CanPublish (stClaims s) channel"

definition AddSubscription :: "string \<Rightarrow> State \<Rightarrow> AddSubscriptionResult \<times> State" where
  "AddSubscription channel s =
     (if gget (stSubscriptions s) channel \<noteq> None then (SubscriptionAlreadyPresent, s)
      else (SubscriptionAdded, s\<lparr>stSubscriptions := gput channel () (stSubscriptions s)\<rparr>))"

definition RemoveSubscription :: "string \<Rightarrow> State \<Rightarrow> State" where
  "RemoveSubscription channel s = s\<lparr>stSubscriptions := gdel channel (stSubscriptions s)\<rparr>"

definition SubscriptionCount :: "State \<Rightarrow> int" where
  "SubscriptionCount s = int (length (stSubscriptions s))"

section \<open>The set of recorded subscriptions\<close>

definition recorded :: "State \<Rightarrow> string set" where
  "recorded s = fst ` set (stSubscriptions s)"

lemma recorded_AddSubscription [simp]: "recorded (snd (AddSubscription ch s)) = insert ch (recorded s)"
  using set_gkeys [of ch "stSubscriptions s"] by (auto simp: recorded_def AddSubscription_def)

lemma recorded_RemoveSubscription [simp]: "recorded (RemoveSubscription ch s) = recorded s - {ch}"
  by (simp add: recorded_def RemoveSubscription_def)

lemma AddSubscription_fields [simp]:
  "stAuthenticated (snd (AddSubscription ch s)) = stAuthenticated s" "stClaims (snd (AddSubscription ch s)) = stClaims s"
  "gomap_ok (stSubscriptions s) \<Longrightarrow> gomap_ok (stSubscriptions (snd (AddSubscription ch s)))"
  "SubscriptionCount (snd (AddSubscription ch s)) \<le> SubscriptionCount s + 1"
  by (auto simp: AddSubscription_def SubscriptionCount_def length_gput)

lemma RemoveSubscription_fields [simp]:
  "stAuthenticated (RemoveSubscription ch s) = stAuthenticated s" "stClaims (RemoveSubscription ch s) = stClaims s"
  "gomap_ok (stSubscriptions s) \<Longrightarrow> gomap_ok (stSubscriptions (RemoveSubscription ch s))"
  "SubscriptionCount (RemoveSubscription ch s) \<le> SubscriptionCount s"
  using length_gdel_le [of ch "stSubscriptions s"] by (auto simp: RemoveSubscription_def SubscriptionCount_def)

end
