(* ===== verification/Window.thy ===== *)
theory Window
  imports Prelude
begin

text \<open>
  Model of \<^verbatim>\<open>internal/qos/window.go\<close>: the credit window of unconfirmed deliveries that backs
  at-least-once delivery for one subscription. Every method is one function on the window record;
  the Go mutex makes each of them atomic, so an execution is a sequence of these functions. \<open>Admit\<close>
  calls the transport while it holds the lock: \<open>send\<close> is a state transformer that answers
  whether the enqueue succeeded.

  Offsets and epochs are \<open>u64\<close>; \<^verbatim>\<open>offset - 1\<close> and \<^verbatim>\<open>delivered + 1\<close> wrap as in Go.
\<close>

datatype Verdict = Admitted | Full | Dup | Refused

record RedeliveryAction =
  ResendFrom :: u64
  Poisoned :: u64

record entry =
  eOffset :: u64
  eSize :: int

record Window =
  wMaxCount :: int
  wMaxBytes :: int
  wTimeout :: int
  wMaxRedeliveries :: int
  wEpoch :: u64
  wBaselined :: bool
  wDelivered :: u64
  wConfirmed :: u64
  wInflight :: "entry list"
  wInflightBytes :: int
  wAttempts :: int
  wAttemptsOffset :: u64
  wOldestAt :: int

definition NewWindow :: "int \<Rightarrow> int \<Rightarrow> int \<Rightarrow> int \<Rightarrow> Window" where
  "NewWindow maxCount maxBytes timeout maxRedeliveries =
     \<lparr>wMaxCount = maxCount, wMaxBytes = maxBytes, wTimeout = timeout,
      wMaxRedeliveries = maxRedeliveries, wEpoch = 0, wBaselined = False, wDelivered = 0,
      wConfirmed = 0, wInflight = [], wInflightBytes = 0, wAttempts = 0, wAttemptsOffset = 0,
      wOldestAt = 0\<rparr>"

text \<open>The baseline step at the head of \<open>Admit\<close>: a first delivery, or one of a new epoch.\<close>

definition rebase :: "u64 \<Rightarrow> u64 \<Rightarrow> Window \<Rightarrow> Window" where
  "rebase offset epoch w =
     (if \<not> wBaselined w then
        w\<lparr>wBaselined := True, wEpoch := epoch, wDelivered := offset - 1, wConfirmed := offset - 1\<rparr>
      else if epoch \<noteq> wEpoch w then
        w\<lparr>wEpoch := epoch, wDelivered := offset - 1, wConfirmed := offset - 1, wInflight := [],
          wInflightBytes := 0, wAttempts := 0, wAttemptsOffset := 0\<rparr>
      else w)"

definition Admit :: "u64 \<Rightarrow> u64 \<Rightarrow> int \<Rightarrow> int \<Rightarrow> ('s \<Rightarrow> bool \<times> 's) \<Rightarrow> Window \<Rightarrow> 's
    \<Rightarrow> Verdict \<times> Window \<times> 's" where
  "Admit offset epoch sz now send w0 s =
     (if offset = 0 then (Dup, w0, s)
      else
        (let w = rebase offset epoch w0
         in if offset \<le> wDelivered w then (Dup, w, s)
            else if offset \<noteq> wDelivered w + 1 then (Full, w, s)
            else if wMaxCount w > 0 \<and> int (length (wInflight w)) \<ge> wMaxCount w then (Full, w, s)
            else if wMaxBytes w > 0 \<and> wInflight w \<noteq> [] \<and> wInflightBytes w + sz > wMaxBytes w
              then (Full, w, s)
            else
              (case send s of
                 (False, s') \<Rightarrow> (Refused, w, s')
               | (True, s') \<Rightarrow>
                   (Admitted,
                    w\<lparr>wOldestAt := (if wInflight w = [] then now else wOldestAt w),
                      wInflight := wInflight w @ [\<lparr>eOffset = offset, eSize = sz\<rparr>],
                      wInflightBytes := wInflightBytes w + sz,
                      wDelivered := offset\<rparr>, s'))))"

definition Baseline :: "u64 \<Rightarrow> u64 \<Rightarrow> Window \<Rightarrow> Window" where
  "Baseline offset epoch w =
     (if wBaselined w then w
      else w\<lparr>wBaselined := True, wEpoch := epoch, wDelivered := offset, wConfirmed := offset\<rparr>)"

definition Reset :: "Window \<Rightarrow> Window" where
  "Reset w = w\<lparr>wBaselined := False, wEpoch := 0, wDelivered := 0, wConfirmed := 0, wInflight := [],
     wInflightBytes := 0, wAttempts := 0, wAttemptsOffset := 0\<rparr>"

definition Confirm :: "u64 \<Rightarrow> int \<Rightarrow> Window \<Rightarrow> Window" where
  "Confirm offset0 now w =
     (let offset = (if wDelivered w < offset0 then wDelivered w else offset0)
      in if offset \<le> wConfirmed w then w
         else
           (let gone = takeWhile (\<lambda>e. \<not> offset < eOffset e) (wInflight w);
                trimmed = length gone
            in w\<lparr>wConfirmed := offset,
                 wInflightBytes := wInflightBytes w - sum_list (map eSize gone),
                 wInflight := drop trimmed (wInflight w),
                 wOldestAt := (if trimmed > 0 then now else wOldestAt w)\<rparr>))"

definition CheckRedelivery :: "int \<Rightarrow> Window \<Rightarrow> RedeliveryAction \<times> Window" where
  "CheckRedelivery now w =
     (case wInflight w of
        [] \<Rightarrow> (\<lparr>ResendFrom = 0, Poisoned = 0\<rparr>, w)
      | head # _ \<Rightarrow>
          if wTimeout w \<le> 0 then (\<lparr>ResendFrom = 0, Poisoned = 0\<rparr>, w)
          else if now - wOldestAt w < wTimeout w then (\<lparr>ResendFrom = 0, Poisoned = 0\<rparr>, w)
          else
            (let oldest = eOffset head;
                 w1 = (if wAttemptsOffset w \<noteq> oldest
                       then w\<lparr>wAttemptsOffset := oldest, wAttempts := 0\<rparr> else w);
                 poison = (wAttempts w1 \<ge> wMaxRedeliveries w1);
                 w2 = (if poison then w1\<lparr>wConfirmed := oldest, wAttempts := 0, wAttemptsOffset := 0\<rparr>
                       else w1\<lparr>wAttempts := wAttempts w1 + 1\<rparr>);
                 w3 = w2\<lparr>wInflight := [], wInflightBytes := 0, wDelivered := wConfirmed w2,
                         wOldestAt := now\<rparr>
             in (\<lparr>ResendFrom = wConfirmed w3 + 1, Poisoned = (if poison then oldest else 0)\<rparr>, w3)))"

text \<open>\<open>room\<close> is \<^verbatim>\<open>1 << 20\<close> when the count is unlimited.\<close>

definition PumpPoint :: "Window \<Rightarrow> u64 \<times> u64 \<times> int" where
  "PumpPoint w =
     (if \<not> wBaselined w then (0, 0, 0)
      else (wDelivered w, wEpoch w,
            if wMaxCount w = 0 then 1048576 else wMaxCount w - int (length (wInflight w))))"

section \<open>The window invariant\<close>

text \<open>The offsets after \<open>c\<close> up to and including \<open>d\<close>.\<close>

definition span :: "u64 \<Rightarrow> u64 \<Rightarrow> nat list" where
  "span c d = [unat c + 1 ..< unat d + 1]"

lemma span_same [simp]: "span c c = []"
  by (simp add: span_def)

lemma length_span [simp]: "length (span c d) = unat d - unat c"
  by (simp add: span_def del: upt_Suc)

lemma span_snoc: "c \<le> d \<Longrightarrow> d + 1 \<noteq> 0 \<Longrightarrow> span c (d + 1) = span c d @ [unat (d + 1)]"
  by (simp add: span_def word_le_nat_alt unat_plus_1_wrap)

lemma span_nth: "i < unat d - unat c \<Longrightarrow> span c d ! i = unat c + 1 + i"
  unfolding span_def by (subst nth_upt) auto

text \<open>
  The unconfirmed entries are exactly the offsets after the confirmed one up to the delivered one,
  the byte count is their total, and the credit limits hold: at most \<open>wMaxCount\<close> entries, and more
  than \<open>wMaxBytes\<close> bytes only when a single oversized message is in flight.
\<close>

definition window_ok :: "Window \<Rightarrow> bool" where
  "window_ok w \<longleftrightarrow> wConfirmed w \<le> wDelivered w
     \<and> map (unat \<circ> eOffset) (wInflight w) = span (wConfirmed w) (wDelivered w)
     \<and> wInflightBytes w = sum_list (map eSize (wInflight w))
     \<and> (\<forall>e \<in> set (wInflight w). 0 \<le> eSize e)
     \<and> (0 < wMaxCount w \<longrightarrow> int (length (wInflight w)) \<le> wMaxCount w)
     \<and> (0 < wMaxBytes w \<longrightarrow> wInflightBytes w \<le> wMaxBytes w \<or> length (wInflight w) = 1)
     \<and> (\<not> wBaselined w \<longrightarrow> wInflight w = [])
     \<and> 0 \<le> wAttempts w \<and> (0 \<le> wMaxRedeliveries w \<longrightarrow> wAttempts w \<le> wMaxRedeliveries w)"

lemma window_ok_NewWindow [inv_intros]: "window_ok (NewWindow c b t r)"
  by (simp add: window_ok_def NewWindow_def)

lemma window_ok_Reset [inv_intros]: "window_ok w \<Longrightarrow> window_ok (Reset w)"
  by (simp add: window_ok_def Reset_def)

lemma window_ok_Baseline [inv_intros]: "window_ok w \<Longrightarrow> window_ok (Baseline offset epoch w)"
  by (auto simp: window_ok_def Baseline_def)

lemma window_ok_rebase:
  assumes "window_ok w"
  shows "window_ok (rebase offset epoch w)"
  using assms by (auto simp: window_ok_def rebase_def)

text \<open>The limits and the cursor that \<open>rebase\<close> leaves alone.\<close>

lemma rebase_fields [simp]:
  "wMaxCount (rebase offset epoch w) = wMaxCount w" "wMaxBytes (rebase offset epoch w) = wMaxBytes w"
  "wTimeout (rebase offset epoch w) = wTimeout w"
  "wMaxRedeliveries (rebase offset epoch w) = wMaxRedeliveries w"
  "wBaselined (rebase offset epoch w)" "wEpoch (rebase offset epoch w) = epoch"
  by (auto simp: rebase_def)

lemma rebase_same: "wBaselined w \<Longrightarrow> epoch = wEpoch w \<Longrightarrow> rebase offset epoch w = w"
  by (simp add: rebase_def)

text \<open>What a window looks like after it took a delivery.\<close>

definition push_entry :: "u64 \<Rightarrow> int \<Rightarrow> int \<Rightarrow> Window \<Rightarrow> Window" where
  "push_entry offset sz now w =
     w\<lparr>wOldestAt := (if wInflight w = [] then now else wOldestAt w),
       wInflight := wInflight w @ [\<lparr>eOffset = offset, eSize = sz\<rparr>],
       wInflightBytes := wInflightBytes w + sz, wDelivered := offset\<rparr>"

lemma push_entry_ok:
  assumes "window_ok w" "wBaselined w" "wDelivered w + 1 = offset" "offset \<noteq> 0" "0 \<le> sz"
    and "0 < wMaxCount w \<longrightarrow> int (length (wInflight w)) < wMaxCount w"
    and "0 < wMaxBytes w \<longrightarrow> wInflight w = [] \<or> wInflightBytes w + sz \<le> wMaxBytes w"
  shows "window_ok (push_entry offset sz now w)"
proof -
  have "map (unat \<circ> eOffset) (wInflight (push_entry offset sz now w)) = span (wConfirmed w) offset"
    using assms(1,3,4) span_snoc [of "wConfirmed w" "wDelivered w"]
    by (auto simp: window_ok_def push_entry_def)
  moreover have "wConfirmed w \<le> offset"
    using assms(1,3,4) unat_plus_1_wrap [of "wDelivered w"]
    by (auto simp: window_ok_def word_le_nat_alt)
  ultimately show ?thesis
    using assms by (auto simp: window_ok_def push_entry_def)
qed

text \<open>All the ways \<open>Admit\<close> can return.\<close>

lemma Admit_cases:
  assumes "Admit offset epoch sz now send w s = (v, w', s')"
  obtains (zero) "offset = 0" "v = Dup" "w' = w" "s' = s"
  | (dup) "offset \<noteq> 0" "v = Dup" "w' = rebase offset epoch w" "s' = s" "offset \<le> wDelivered w'"
  | (full) "offset \<noteq> 0" "v = Full" "w' = rebase offset epoch w" "s' = s"
      "wDelivered w' < offset"
  | (refused) "offset \<noteq> 0" "v = Refused" "w' = rebase offset epoch w" "send s = (False, s')"
      "wDelivered w' + 1 = offset"
  | (admitted) "offset \<noteq> 0" "v = Admitted" "send s = (True, s')"
      "w' = push_entry offset sz now (rebase offset epoch w)"
      "wDelivered (rebase offset epoch w) + 1 = offset"
      "0 < wMaxCount w \<longrightarrow> int (length (wInflight (rebase offset epoch w))) < wMaxCount w"
      "0 < wMaxBytes w \<longrightarrow> wInflight (rebase offset epoch w) = []
         \<or> wInflightBytes (rebase offset epoch w) + sz \<le> wMaxBytes w"
proof (cases "offset = 0")
  case True
  with assms zero show ?thesis by (simp add: Admit_def)
next
  case False
  let ?w = "rebase offset epoch w"
  let ?full = "offset \<noteq> wDelivered ?w + 1
    \<or> (wMaxCount w > 0 \<and> int (length (wInflight ?w)) \<ge> wMaxCount w)
    \<or> (wMaxBytes w > 0 \<and> wInflight ?w \<noteq> [] \<and> wInflightBytes ?w + sz > wMaxBytes w)"
  consider (d) "offset \<le> wDelivered ?w" | (f) "wDelivered ?w < offset" "?full"
    | (s) "wDelivered ?w < offset" "\<not> ?full"
    by (meson not_le)
  then show ?thesis
  proof cases
    case d
    with False assms dup show ?thesis by (simp add: Admit_def Let_def)
  next
    case f
    with False have "Admit offset epoch sz now send w s = (Full, ?w, s)"
      by (auto simp: Admit_def Let_def)
    with f False assms full show ?thesis by simp
  next
    case s
    obtain ok s1 where snd: "send s = (ok, s1)" by (cases "send s")
    have "Admit offset epoch sz now send w s
        = (if ok then (Admitted, push_entry offset sz now ?w, s1) else (Refused, ?w, s1))"
      using s False snd by (cases ok) (auto simp: Admit_def Let_def push_entry_def)
    with assms have res: "(if ok then (Admitted, push_entry offset sz now ?w, s1)
        else (Refused, ?w, s1)) = (v, w', s')" by simp
    show ?thesis
    proof (cases ok)
      case True
      with res s snd False show ?thesis by (intro admitted) auto
    next
      case False
      with res s snd \<open>offset \<noteq> 0\<close> show ?thesis by (intro refused) auto
    qed
  qed
qed

lemma window_ok_Admit [inv_intros]:
  assumes "window_ok w" "0 \<le> sz" "Admit offset epoch sz now send w s = (v, w', s')"
  shows "window_ok w'"
  using assms(3)
proof (cases rule: Admit_cases)
  case admitted
  have "window_ok (push_entry offset sz now (rebase offset epoch w))"
    using admitted assms(2) by (intro push_entry_ok window_ok_rebase [OF assms(1)]) simp_all
  then show ?thesis by (simp add: admitted(4))
qed (simp_all add: assms(1) window_ok_rebase)

lemma takeWhile_upto:
  assumes "map (unat \<circ> eOffset) xs = [a ..< b]" "a \<le> k" "k \<le> b"
    and "\<And>e. e \<in> set xs \<Longrightarrow> P e \<longleftrightarrow> unat (eOffset e) < k"
  shows "map (unat \<circ> eOffset) (takeWhile P xs) = [a ..< k]
    \<and> map (unat \<circ> eOffset) (dropWhile P xs) = [k ..< b]"
proof -
  have len: "length xs = b - a" using arg_cong [OF assms(1), of length] by simp
  have nth: "unat (eOffset (xs ! i)) = a + i" if "i < length xs" for i
  proof -
    have "map (unat \<circ> eOffset) xs ! i = [a ..< b] ! i" by (simp add: assms(1))
    then show ?thesis using that len by simp
  qed
  have P: "P (xs ! i) \<longleftrightarrow> i < k - a" if "i < length xs" for i
    using assms(4) [of "xs ! i"] nth [OF that] that assms(2) by (auto simp: less_diff_conv2)
  have tw: "takeWhile P xs = take (k - a) xs"
    using len assms(3) P by (intro takeWhile_eq_take_P_nth) auto
  then have "length (takeWhile P xs) = k - a" using len assms(3) by simp
  then have "dropWhile P xs = drop (k - a) xs" by (simp add: dropWhile_eq_drop)
  then show ?thesis
    using tw assms(1,2,3) by (simp add: take_map [symmetric] drop_map [symmetric])
qed

lemma window_ok_Confirm [inv_intros]:
  assumes "window_ok w"
  shows "window_ok (Confirm offset now w)"
proof -
  define off where "off = (if wDelivered w < offset then wDelivered w else offset)"
  let ?P = "\<lambda>e. \<not> off < eOffset e"
  show ?thesis
  proof (cases "off \<le> wConfirmed w")
    case True
    then show ?thesis using assms by (simp add: Confirm_def Let_def off_def)
  next
    case False
    define gone where "gone = takeWhile ?P (wInflight w)"
    define keep where "keep = dropWhile ?P (wInflight w)"
    have le: "off \<le> wDelivered w" by (auto simp: off_def)
    have split: "wInflight w = gone @ keep" by (simp add: gone_def keep_def)
    have dropped: "drop (length gone) (wInflight w) = keep" by (simp add: split)
    have sub: "set keep \<subseteq> set (wInflight w)" by (simp add: split)
    have offs: "map (unat \<circ> eOffset) keep = span off (wDelivered w)"
      unfolding span_def keep_def using assms [unfolded window_ok_def span_def] False le
      by (intro takeWhile_upto [of _ "unat (wConfirmed w) + 1", THEN conjunct2])
         (auto simp: word_le_nat_alt word_less_nat_alt)
    have bytes: "wInflightBytes w = sum_list (map eSize gone) + sum_list (map eSize keep)"
      using assms by (metis (no_types) map_append split sum_list_append window_ok_def)
    have nonneg: "0 \<le> sum_list (map eSize gone)"
      using assms split by (intro sum_list_nonneg) (auto simp: window_ok_def)
    have len: "length keep \<le> length (wInflight w)" by (metis split length_append le_add2)
    have "keep = [] \<or> sum_list (map eSize keep) \<le> wMaxBytes w \<or> length keep = 1"
      if "0 < wMaxBytes w"
    proof (cases "length (wInflight w) = 1")
      case True
      then show ?thesis using len by (cases keep) auto
    next
      case False
      then show ?thesis using that assms bytes nonneg by (auto simp: window_ok_def)
    qed
    moreover have "Confirm offset now w = w\<lparr>wConfirmed := off,
        wInflightBytes := sum_list (map eSize keep), wInflight := keep,
        wOldestAt := (if length gone > 0 then now else wOldestAt w)\<rparr>"
      using False bytes dropped by (simp add: Confirm_def Let_def off_def gone_def)
    ultimately show ?thesis
      using assms offs le len sub by (auto simp: window_ok_def)
  qed
qed

text \<open>When a redelivery check acts, and what it does then.\<close>

definition redelivery_due :: "int \<Rightarrow> Window \<Rightarrow> bool" where
  "redelivery_due now w \<longleftrightarrow> wInflight w \<noteq> [] \<and> 0 < wTimeout w \<and> wTimeout w \<le> now - wOldestAt w"

definition attempts_at :: "Window \<Rightarrow> u64 \<Rightarrow> int" where
  "attempts_at w offset = (if wAttemptsOffset w = offset then wAttempts w else 0)"

lemma CheckRedelivery_idle:
  "\<not> redelivery_due now w \<Longrightarrow> CheckRedelivery now w = (\<lparr>ResendFrom = 0, Poisoned = 0\<rparr>, w)"
  by (auto simp: CheckRedelivery_def redelivery_due_def split: list.splits)

lemma CheckRedelivery_due:
  assumes "redelivery_due now w"
  shows "CheckRedelivery now w =
    (let oldest = eOffset (hd (wInflight w)); a = attempts_at w oldest;
         rewind = (\<lambda>w c. w\<lparr>wInflight := [], wInflightBytes := 0, wDelivered := c, wOldestAt := now\<rparr>)
     in if a \<ge> wMaxRedeliveries w
        then (\<lparr>ResendFrom = oldest + 1, Poisoned = oldest\<rparr>,
              rewind (w\<lparr>wConfirmed := oldest, wAttempts := 0, wAttemptsOffset := 0\<rparr>) oldest)
        else (\<lparr>ResendFrom = wConfirmed w + 1, Poisoned = 0\<rparr>,
              rewind (w\<lparr>wAttempts := a + 1, wAttemptsOffset := oldest\<rparr>) (wConfirmed w)))"
proof (cases "wInflight w")
  case (Cons e es)
  then show ?thesis
    using assms by (auto simp: CheckRedelivery_def redelivery_due_def attempts_at_def Let_def)
qed (use assms in \<open>simp add: redelivery_due_def\<close>)

lemma window_ok_CheckRedelivery [inv_intros]:
  assumes "window_ok w"
  shows "window_ok (snd (CheckRedelivery now w))"
proof (cases "redelivery_due now w")
  case True
  then show ?thesis
    using assms by (auto simp: CheckRedelivery_due Let_def window_ok_def attempts_at_def)
qed (simp add: CheckRedelivery_idle assms)

section \<open>Executions\<close>

text \<open>
  The calls a session makes on a window, in the order the lock serialises them; the flag of
  \<open>OpAdmit\<close> is what the transport answers. A payload length is never negative.
\<close>

datatype window_op =
    OpAdmit u64 u64 nat int bool
  | OpBaseline u64 u64
  | OpReset
  | OpConfirm u64 int
  | OpCheck int

fun window_step :: "window_op \<Rightarrow> Window \<Rightarrow> Window" where
  "window_step (OpAdmit off ep sz now ok) w = fst (snd (Admit off ep (int sz) now (\<lambda>u. (ok, u)) w ()))"
| "window_step (OpBaseline off ep) w = Baseline off ep w"
| "window_step OpReset w = Reset w"
| "window_step (OpConfirm off now) w = Confirm off now w"
| "window_step (OpCheck now) w = snd (CheckRedelivery now w)"

inductive window_reach :: "Window \<Rightarrow> Window \<Rightarrow> bool" for w0 where
  start: "window_reach w0 w0"
| step: "window_reach w0 w \<Longrightarrow> window_reach w0 (window_step op w)"

lemma window_ok_step: "window_ok w \<Longrightarrow> window_ok (window_step op w)"
proof (cases op)
  case (OpAdmit off ep sz now ok)
  assume "window_ok w"
  obtain v w' u where "Admit off ep (int sz) now (\<lambda>u. (ok, u)) w () = (v, w', u)"
    by (metis prod_cases3)
  with window_ok_Admit [OF \<open>window_ok w\<close> of_nat_0_le_iff this] OpAdmit show ?thesis by simp
qed (simp_all add: inv_intros)

lemma push_entry_limits [simp]:
  "wMaxCount (push_entry off sz now w) = wMaxCount w" "wMaxBytes (push_entry off sz now w) = wMaxBytes w"
  by (simp_all add: push_entry_def)

lemma Admit_limits:
  "Admit off ep sz now send w s = (v, w', s') \<Longrightarrow> wMaxCount w' = wMaxCount w \<and> wMaxBytes w' = wMaxBytes w"
  by (erule Admit_cases) simp_all

lemma window_step_limits:
  "wMaxCount (window_step op w) = wMaxCount w \<and> wMaxBytes (window_step op w) = wMaxBytes w"
proof (cases op)
  case (OpAdmit off ep sz now ok)
  obtain v w' u where "Admit off ep (int sz) now (\<lambda>u. (ok, u)) w () = (v, w', u)"
    by (metis prod_cases3)
  with Admit_limits [OF this] OpAdmit show ?thesis by simp
qed (auto simp: Baseline_def Reset_def Confirm_def CheckRedelivery_def Let_def split: list.splits)

lemma window_reach_ok:
  assumes "window_reach w0 w" "window_ok w0"
  shows "window_ok w \<and> wMaxCount w = wMaxCount w0 \<and> wMaxBytes w = wMaxBytes w0"
  using assms by induction (auto simp: window_ok_step window_step_limits)

text \<open>
  (C5) In every execution of a window the unconfirmed deliveries are exactly the consecutive
  offsets between the confirmed and the delivered cursor, their number never exceeds the count
  credit, and their bytes exceed the byte credit only while one single message is in flight.
\<close>

theorem window_credit_respected:
  assumes "window_reach (NewWindow c b t r) w"
  shows "wConfirmed w \<le> wDelivered w
    \<and> map (unat \<circ> eOffset) (wInflight w) = [unat (wConfirmed w) + 1 ..< unat (wDelivered w) + 1]
    \<and> wInflightBytes w = sum_list (map eSize (wInflight w))
    \<and> (c > 0 \<longrightarrow> int (length (wInflight w)) \<le> c)
    \<and> (b > 0 \<longrightarrow> sum_list (map eSize (wInflight w)) \<le> b \<or> length (wInflight w) = 1)"
proof -
  have "wMaxCount (NewWindow c b t r) = c" "wMaxBytes (NewWindow c b t r) = b"
    by (simp_all add: NewWindow_def)
  with window_reach_ok [OF assms window_ok_NewWindow] show ?thesis
    unfolding window_ok_def span_def by metis
qed

theorem window_credit_respected_witness:
  "\<exists>w. window_reach (NewWindow 1 0 0 0) w \<and> wInflight w \<noteq> [] \<and> int (length (wInflight w)) \<le> 1"
proof -
  let ?w = "window_step (OpAdmit 5 9 10 0 True) (NewWindow 1 0 0 0)"
  have r: "window_reach (NewWindow 1 0 0 0) ?w" by (intro window_reach.intros)
  have "wInflight ?w \<noteq> []" by (simp add: Admit_def NewWindow_def rebase_def)
  with r window_credit_respected [OF r] show ?thesis by auto
qed

text \<open>
  Admission is ordered and transactional: on a window pinned to the delivery's epoch, a
  delivery is admitted only if it is the successor of the last delivered offset and the transport
  took it, and then exactly the delivered cursor and the unconfirmed tail advance; a duplicate, a
  gap, an exhausted credit and a refused enqueue all leave the window as it was.
\<close>

theorem Admit_transactional:
  assumes "window_ok w" and "wBaselined w" and "Admit offset (wEpoch w) sz now send w s = (v, w', s')"
  shows "(v = Admitted \<longleftrightarrow> w' \<noteq> w)
    \<and> (v = Admitted \<longrightarrow> offset = wDelivered w + 1 \<and> wDelivered w < offset \<and> send s = (True, s')
         \<and> wDelivered w' = offset \<and> wConfirmed w' = wConfirmed w
         \<and> wInflight w' = wInflight w @ [\<lparr>eOffset = offset, eSize = sz\<rparr>])
    \<and> (v = Refused \<longrightarrow> offset = wDelivered w + 1 \<and> send s = (False, s'))
    \<and> (v = Dup \<longrightarrow> offset \<le> wDelivered w \<and> s' = s)
    \<and> (v = Full \<longrightarrow> wDelivered w < offset \<and> s' = s)"
proof -
  have base: "rebase offset (wEpoch w) w = w" using assms(2) by (simp add: rebase_same)
  have next_less: "d < off" if "d + 1 = off" "off \<noteq> 0" for d off :: u64
    using that unat_plus_1_wrap [of d] by (auto simp: word_less_nat_alt)
  show ?thesis
    using assms(3)
  proof (cases rule: Admit_cases)
    case admitted
    have "wInflight (push_entry offset sz now w) \<noteq> wInflight w" by (simp add: push_entry_def)
    then have "push_entry offset sz now w \<noteq> w" by metis
    with admitted base next_less [of "wDelivered w" offset] show ?thesis
      by (auto simp: push_entry_def)
  qed (use base in auto)
qed

theorem Admit_transactional_witness:
  "fst (Admit 6 9 10 0 (\<lambda>u. (True, u)) (Baseline 5 9 (NewWindow 1 0 0 0)) ()) = Admitted
   \<and> (6 :: u64) = wDelivered (Baseline 5 9 (NewWindow 1 0 0 0)) + 1"
proof -
  let ?w = "Baseline 5 9 (NewWindow 1 0 0 0)"
  obtain v w' s' where a: "Admit 6 (wEpoch ?w) 10 0 (\<lambda>u. (True, u)) ?w () = (v, w', s')"
    by (metis prod_cases3)
  have ep: "wEpoch ?w = 9" and base: "wBaselined ?w" by (simp_all add: Baseline_def NewWindow_def)
  have ok: "window_ok ?w" by (intro inv_intros)
  have v: "fst (Admit 6 9 10 0 (\<lambda>u. (True, u)) ?w ()) = Admitted"
    by (simp add: Admit_def Baseline_def NewWindow_def rebase_def)
  moreover from a ep this have "v = Admitted" by (metis fst_conv)
  ultimately show ?thesis using Admit_transactional [OF ok base a] by blast
qed

section \<open>The redelivery budget\<close>

text \<open>
  One round in which the consumer stays silent: the check fires when the head's timeout elapses,
  and the pump sends the head again.
\<close>

definition silent_round :: "int \<Rightarrow> Window \<Rightarrow> Window" where
  "silent_round sz w =
     (let now = wOldestAt w + wTimeout w; w' = snd (CheckRedelivery now w)
      in fst (snd (Admit (wConfirmed w' + 1) (wEpoch w') sz now (\<lambda>u. (True, u)) w' ())))"

definition one_inflight :: "u64 \<Rightarrow> int \<Rightarrow> int \<Rightarrow> Window \<Rightarrow> bool" where
  "one_inflight offset sz k w \<longleftrightarrow> wBaselined w \<and> wInflight w = [\<lparr>eOffset = offset, eSize = sz\<rparr>]
     \<and> wConfirmed w + 1 = offset \<and> offset \<noteq> 0 \<and> 0 < wTimeout w \<and> attempts_at w offset = k"

lemma silent_round_step:
  assumes "one_inflight offset sz k w" "k < wMaxRedeliveries w"
  shows "one_inflight offset sz (k + 1) (silent_round sz w)
    \<and> wMaxRedeliveries (silent_round sz w) = wMaxRedeliveries w"
proof -
  let ?now = "wOldestAt w + wTimeout w"
  define w' where "w' = w\<lparr>wAttempts := k + 1, wAttemptsOffset := offset, wInflight := [],
    wInflightBytes := 0, wDelivered := wConfirmed w, wOldestAt := ?now\<rparr>"
  have "redelivery_due ?now w" using assms(1) by (simp add: redelivery_due_def one_inflight_def)
  then have check: "snd (CheckRedelivery ?now w) = w'"
    using assms by (simp add: CheckRedelivery_due Let_def one_inflight_def w'_def)
  have off: "wConfirmed w + 1 = offset" "offset \<noteq> 0" using assms(1) by (simp_all add: one_inflight_def)
  then have "\<not> offset \<le> wDelivered w'"
    using unat_plus_1_wrap [of "wConfirmed w"] by (auto simp: word_le_nat_alt w'_def)
  moreover have "wDelivered w' + 1 = offset" "wInflight w' = []" "wBaselined w'"
    using assms(1) by (simp_all add: w'_def one_inflight_def)
  ultimately have "fst (snd (Admit offset (wEpoch w') sz ?now (\<lambda>u. (True, u)) w' ()))
      = push_entry offset sz ?now w'"
    using off(2) by (auto simp: Admit_def rebase_same push_entry_def Let_def)
  moreover have "wConfirmed w' + 1 = offset" using assms(1) by (simp add: w'_def one_inflight_def)
  ultimately have "silent_round sz w = push_entry offset sz ?now w'"
    using check by (simp add: silent_round_def Let_def)
  then show ?thesis
    using assms(1) by (simp add: one_inflight_def push_entry_def w'_def attempts_at_def)
qed

lemma silent_rounds:
  assumes "one_inflight offset sz 0 w" "int n \<le> wMaxRedeliveries w"
  shows "one_inflight offset sz (int n) ((silent_round sz ^^ n) w)
    \<and> wMaxRedeliveries ((silent_round sz ^^ n) w) = wMaxRedeliveries w"
  using assms(2)
proof (induction n)
  case (Suc n)
  then have ih: "one_inflight offset sz (int n) ((silent_round sz ^^ n) w)"
    "wMaxRedeliveries ((silent_round sz ^^ n) w) = wMaxRedeliveries w" by simp_all
  with Suc.prems silent_round_step [OF ih(1)] show ?case by (simp add: add.commute)
qed (use assms(1) in simp)

text \<open>
  The redelivery budget is exact: a delivery the client never confirms is sent again at each
  timeout, and is given up as poison at the timeout after the configured number of redeliveries,
  never earlier; the window then resumes at the next offset.
\<close>

theorem redelivery_budget:
  assumes "one_inflight offset sz 0 w" and "int n \<le> wMaxRedeliveries w"
    and "w' = (silent_round sz ^^ n) w" and "now \<ge> wOldestAt w' + wTimeout w'"
  shows "fst (CheckRedelivery now w') =
    (if int n = wMaxRedeliveries w then \<lparr>ResendFrom = offset + 1, Poisoned = offset\<rparr>
     else \<lparr>ResendFrom = offset, Poisoned = 0\<rparr>)"
proof -
  have one: "one_inflight offset sz (int n) w'" and maxr: "wMaxRedeliveries w' = wMaxRedeliveries w"
    using silent_rounds [OF assms(1,2)] assms(3) by simp_all
  then have "redelivery_due now w'" using assms(4) by (simp add: redelivery_due_def one_inflight_def)
  then show ?thesis
    using one maxr assms(2) by (simp add: CheckRedelivery_due Let_def one_inflight_def)
qed

definition demo_window :: Window where
  "demo_window = (NewWindow 1 0 5 2)\<lparr>wBaselined := True, wEpoch := 9,
     wInflight := [\<lparr>eOffset = 1, eSize = 10\<rparr>], wInflightBytes := 10, wDelivered := 1\<rparr>"

theorem redelivery_budget_witness:
  "\<exists>w' now. w' = (silent_round 10 ^^ 2) demo_window
    \<and> fst (CheckRedelivery now w') = \<lparr>ResendFrom = 2, Poisoned = 1\<rparr>"
proof -
  have one: "one_inflight 1 10 0 demo_window" and r: "int 2 \<le> wMaxRedeliveries demo_window"
    by (simp_all add: demo_window_def one_inflight_def NewWindow_def attempts_at_def)
  have "int 2 = wMaxRedeliveries demo_window" by (simp add: demo_window_def NewWindow_def)
  then show ?thesis
    using redelivery_budget [OF one r refl order_refl] by auto
qed

end
