(* ===== verification/Consumer.thy ===== *)
theory Consumer
  imports Window Delivery
begin

text \<open>
  Model of \<^verbatim>\<open>internal/qos/consumer.go\<close> and \<^verbatim>\<open>internal/qos/sweeper.go\<close>: the at-least-once windows of
  one transport session, the pump that feeds a window from the channel history, and the registry
  of consumers the redelivery timer visits.

  The world \<open>'s\<close> is whatever the transport and the engine keep. \<open>deliver\<close> is the transport's
  delivery function, \<open>now\<close> reads the clock, and \<open>rec\<close> is \<^verbatim>\<open>Recoverer.RecoverN\<close>, which the locale
  \<open>recoverer\<close> specifies and the engine provides. The pump is a loop without a bound of its own, so
  it is a \<open>partial_function\<close> whose value \<open>None\<close> means that it does not return. A consumer is
  known to the sweeper by its pointer, here a number \<open>cid\<close>.
\<close>

type_synonym 's clock = "'s \<Rightarrow> int \<times> 's"
type_synonym 's transport = "Delivery \<Rightarrow> 's \<Rightarrow> bool \<times> 's"
type_synonym 's recover = "string \<Rightarrow> u64 \<Rightarrow> u64 \<Rightarrow> int \<Rightarrow> 's \<Rightarrow> Delivery list option"

section \<open>The sweeper's registry\<close>

record Sweeper =
  swConsumers :: "(nat, unit) gomap"
  swStarted :: bool
  swStopped :: bool

definition NewSweeper :: Sweeper where
  "NewSweeper = \<lparr>swConsumers = [], swStarted = False, swStopped = False\<rparr>"

definition Sweeper_add :: "nat \<Rightarrow> Sweeper \<Rightarrow> Sweeper" where
  "Sweeper_add cid sw = (if swStopped sw then sw else sw\<lparr>swConsumers := gput cid () (swConsumers sw), swStarted := True\<rparr>)"

definition Sweeper_remove :: "nat \<Rightarrow> Sweeper \<Rightarrow> Sweeper" where
  "Sweeper_remove cid sw = sw\<lparr>swConsumers := gdel cid (swConsumers sw)\<rparr>"

definition Sweeper_size :: "Sweeper \<Rightarrow> int" where
  "Sweeper_size sw = int (length (swConsumers sw))"

definition appendConsumers :: "nat list \<Rightarrow> Sweeper \<Rightarrow> nat list" where
  "appendConsumers buf sw = buf @ gkeys (swConsumers sw)"

definition Sweeper_Stop :: "Sweeper \<Rightarrow> Sweeper" where
  "Sweeper_Stop sw = sw\<lparr>swStopped := True\<rparr>"

section \<open>The consumer\<close>

definition pumpBatch :: int where
  "pumpBatch = 64"

record Consumer =
  cSwept :: bool
  cWindows :: "(string, Window) gomap option"
  cStopped :: bool
  cActive :: bool
  cPoisoned :: int
  cLostGaps :: int

text \<open>\<open>swept\<close> says whether a sweeper was given; a nil one opts out of background redelivery.\<close>

definition NewConsumer :: "bool \<Rightarrow> Consumer" where
  "NewConsumer swept = \<lparr>cSwept = swept, cWindows = None, cStopped = False, cActive = False, cPoisoned = 0, cLostGaps = 0\<rparr>"

definition windows :: "Consumer \<Rightarrow> (string, Window) gomap" where
  "windows c = (case cWindows c of None \<Rightarrow> [] | Some m \<Rightarrow> m)"

definition Consumer_Subscribe :: "nat \<Rightarrow> string \<Rightarrow> Window \<Rightarrow> Consumer \<Rightarrow> Sweeper \<Rightarrow> bool \<times> Consumer \<times> Sweeper" where
  "Consumer_Subscribe cid channel w c sw =
     (if gget (windows c) channel \<noteq> None then (False, c, sw)
      else
        (let m = gput channel w (windows c);
             sw' = (if \<not> cStopped c \<and> length m = 1 \<and> cSwept c then Sweeper_add cid sw else sw)
         in (True, c\<lparr>cWindows := Some m, cActive := True\<rparr>, sw')))"

definition Consumer_Unsubscribe :: "nat \<Rightarrow> string \<Rightarrow> Consumer \<Rightarrow> Sweeper \<Rightarrow> Consumer \<times> Sweeper" where
  "Consumer_Unsubscribe cid channel c sw =
     (let c1 = c\<lparr>cWindows := map_option (gdel channel) (cWindows c)\<rparr>
      in if length (windows c1) = 0
         then (c1\<lparr>cActive := False\<rparr>, if cSwept c then Sweeper_remove cid sw else sw)
         else (c1, sw))"

definition Consumer_Stop :: "nat \<Rightarrow> Consumer \<Rightarrow> Sweeper \<Rightarrow> Consumer \<times> Sweeper" where
  "Consumer_Stop cid c sw =
     (if cStopped c then (c, sw)
      else (c\<lparr>cStopped := True\<rparr>, if cSwept c then Sweeper_remove cid sw else sw))"

definition consumer_window :: "string \<Rightarrow> Consumer \<Rightarrow> Window option" where
  "consumer_window channel c = (if \<not> cActive c then None else gget (windows c) channel)"

text \<open>The write-back of a window the Go code mutates through its pointer.\<close>

definition put_window :: "string \<Rightarrow> Window \<Rightarrow> Consumer \<Rightarrow> Consumer" where
  "put_window channel w c = c\<lparr>cWindows := Some (gput channel w (windows c))\<rparr>"

definition Consumer_Deliver :: "'s clock \<Rightarrow> 's transport \<Rightarrow> Delivery \<Rightarrow> Consumer \<Rightarrow> 's \<Rightarrow> bool \<times> Consumer \<times> 's" where
  "Consumer_Deliver now deliver d c s =
     (case consumer_window (dChannel d) c of
        None \<Rightarrow> (case deliver d s of (ok, s') \<Rightarrow> (ok, c, s'))
      | Some w \<Rightarrow>
          (case now s of (t, s1) \<Rightarrow>
             (case Admit (dOffset d) (dEpoch d) (int (length (dData d))) t (deliver d) w s1 of
                (v, w', s') \<Rightarrow> (v \<noteq> Refused, put_window (dChannel d) w' c, s'))))"

text \<open>The inner loop of the pump; the flag says whether the whole batch went through.\<close>

fun pump_batch :: "'s transport \<Rightarrow> int \<Rightarrow> Delivery list \<Rightarrow> Window \<Rightarrow> 's \<Rightarrow> bool \<times> Window \<times> 's" where
  "pump_batch deliver t [] w s = (True, w, s)"
| "pump_batch deliver t (d # ds) w s =
     (case Admit (dOffset d) (dEpoch d) (int (length (dData d))) t (deliver d) w s of
        (v, w', s') \<Rightarrow>
          if v = Admitted \<or> v = Dup then pump_batch deliver t ds w' s' else (False, w', s'))"

text \<open>The result is the window, the number of gaps given up, and the world.\<close>

partial_function (option) pump :: "'s recover \<Rightarrow> 's clock \<Rightarrow> 's transport \<Rightarrow> string \<Rightarrow> Window \<Rightarrow> int \<Rightarrow> 's
    \<Rightarrow> (Window \<times> int \<times> 's) option" where
  "pump rec now deliver channel w lost s =
     (case PumpPoint w of (from, epoch, room) \<Rightarrow>
        if room \<le> 0 \<or> epoch = 0 then Some (w, lost, s)
        else
          (case rec channel from epoch (if room > pumpBatch then pumpBatch else room) s of
             None \<Rightarrow> Some (Reset w, lost + 1, s)
           | Some batch \<Rightarrow>
               if length batch = 0 then Some (w, lost, s)
               else
                 (case now s of (t, s1) \<Rightarrow>
                    (case pump_batch deliver t batch w s1 of (whole, w', s') \<Rightarrow>
                       if whole then pump rec now deliver channel w' lost s'
                       else Some (w', lost, s')))))"

definition Consumer_Confirm :: "'s recover \<Rightarrow> 's clock \<Rightarrow> 's transport \<Rightarrow> string \<Rightarrow> u64 \<Rightarrow> Consumer \<Rightarrow> 's
    \<Rightarrow> (Consumer \<times> 's) option" where
  "Consumer_Confirm rec now deliver channel offset c s =
     (case consumer_window channel c of
        None \<Rightarrow> Some (c, s)
      | Some w \<Rightarrow>
          (case now s of (t, s1) \<Rightarrow>
             (case pump rec now deliver channel (Confirm offset t w) (cLostGaps c) s1 of
                None \<Rightarrow> None
              | Some (w', lost, s') \<Rightarrow> Some ((put_window channel w' c)\<lparr>cLostGaps := lost\<rparr>, s'))))"

text \<open>The loop of \<^verbatim>\<open>Tick\<close> over the channels it copied, at the one time it read.\<close>

fun tick_loop :: "'s recover \<Rightarrow> 's clock \<Rightarrow> 's transport \<Rightarrow> int \<Rightarrow> string list \<Rightarrow> Consumer \<Rightarrow> 's \<Rightarrow> (Consumer \<times> 's) option" where
  "tick_loop rec now deliver t [] c s = Some (c, s)"
| "tick_loop rec now deliver t (ch # chs) c s =
     (case consumer_window ch c of
        None \<Rightarrow> tick_loop rec now deliver t chs c s
      | Some w \<Rightarrow>
          (case CheckRedelivery t w of (action, w1) \<Rightarrow>
             (let c1 = (if Poisoned action \<noteq> 0 then c\<lparr>cPoisoned := cPoisoned c + 1\<rparr> else c)
              in case pump rec now deliver ch w1 (cLostGaps c1) s of
                   None \<Rightarrow> None
                 | Some (w', lost, s') \<Rightarrow>
                     tick_loop rec now deliver t chs ((put_window ch w' c1)\<lparr>cLostGaps := lost\<rparr>) s')))"

definition Consumer_Tick :: "'s recover \<Rightarrow> 's clock \<Rightarrow> 's transport \<Rightarrow> Consumer \<Rightarrow> 's \<Rightarrow> (Consumer \<times> 's) option" where
  "Consumer_Tick rec now deliver c s =
     (if \<not> cActive c then Some (c, s)
      else if cStopped c then Some (c, s)
      else (case now s of (t, s1) \<Rightarrow> tick_loop rec now deliver t (gkeys (windows c)) c s1))"

text \<open>
  One turn of the sweeper's loop: every consumer of the snapshot is ticked, in the snapshot's
  order. \<open>cs\<close> is the heap of consumers.
\<close>

fun sweep_consumers :: "'s recover \<Rightarrow> 's clock \<Rightarrow> (nat \<Rightarrow> 's transport) \<Rightarrow> nat list \<Rightarrow> (nat \<Rightarrow> Consumer) \<Rightarrow> 's
    \<Rightarrow> ((nat \<Rightarrow> Consumer) \<times> 's) option" where
  "sweep_consumers rec now deliver [] cs s = Some (cs, s)"
| "sweep_consumers rec now deliver (cid # cids) cs s =
     (case Consumer_Tick rec now (deliver cid) (cs cid) s of
        None \<Rightarrow> None
      | Some (c, s') \<Rightarrow> sweep_consumers rec now deliver cids (cs(cid := c)) s')"

definition Sweeper_turn :: "'s recover \<Rightarrow> 's clock \<Rightarrow> (nat \<Rightarrow> 's transport) \<Rightarrow> Sweeper \<Rightarrow> (nat \<Rightarrow> Consumer) \<Rightarrow> 's
    \<Rightarrow> ((nat \<Rightarrow> Consumer) \<times> 's) option" where
  "Sweeper_turn rec now deliver sw cs s =
     (if swStopped sw \<or> \<not> swStarted sw then Some (cs, s)
      else sweep_consumers rec now deliver (appendConsumers [] sw) cs s)"

section \<open>Admitting the next delivery\<close>

text \<open>The credit is used up for a delivery of this size.\<close>

definition blocked :: "Window \<Rightarrow> int \<Rightarrow> bool" where
  "blocked w sz \<longleftrightarrow> wMaxCount w > 0 \<and> int (length (wInflight w)) \<ge> wMaxCount w
     \<or> wMaxBytes w > 0 \<and> wInflight w \<noteq> [] \<and> wInflightBytes w + sz > wMaxBytes w"

abbreviation dsize :: "Delivery \<Rightarrow> int" where
  "dsize d \<equiv> int (length (dData d))"

lemma Admit_next:
  assumes "wBaselined w" "unat (dOffset d) = unat (wDelivered w) + 1" "dEpoch d = wEpoch w"
  shows "Admit (dOffset d) (dEpoch d) sz t send w s =
    (if blocked w sz then (Full, w, s)
     else case send s of (ok, s') \<Rightarrow> if ok then (Admitted, push_entry (dOffset d) sz t w, s') else (Refused, w, s'))"
proof -
  have "dOffset d \<noteq> 0" using assms(2) by auto
  moreover have "\<not> dOffset d \<le> wDelivered w" using assms(2) by (simp add: word_le_nat_alt)
  moreover have "dOffset d = wDelivered w + 1"
    using assms(2) unat_plus_1 [of "wDelivered w"] unat_bound [of "dOffset d"] by (intro word_unat_eq_iff [THEN iffD2]) simp
  ultimately show ?thesis
    using assms(1,3)
    by (auto simp: Admit_def Let_def rebase_same blocked_def push_entry_def split: prod.splits bool.splits)
qed

text \<open>\<open>run d0 ds\<close>: the offsets of \<open>ds\<close> are the ones right after \<open>d0\<close>, without a gap.\<close>

definition offsets_after :: "u64 \<Rightarrow> Delivery list \<Rightarrow> bool" where
  "offsets_after from ds \<longleftrightarrow> map (unat \<circ> dOffset) ds = [unat from + 1 ..< unat from + 1 + length ds]"

lemma offsets_after_Nil [simp]: "offsets_after from []"
  by (simp add: offsets_after_def)

lemma offsets_after_Cons:
  "offsets_after from (d # ds) \<longleftrightarrow> unat (dOffset d) = unat from + 1 \<and> offsets_after (dOffset d) ds"
  by (auto simp: offsets_after_def upt_rec [of "Suc (unat from)"] simp del: upt_Suc)

lemma push_entry_simps [simp]:
  "wBaselined (push_entry off sz t w) = wBaselined w" "wEpoch (push_entry off sz t w) = wEpoch w"
  "wDelivered (push_entry off sz t w) = off" "wConfirmed (push_entry off sz t w) = wConfirmed w"
  "wInflight (push_entry off sz t w) = wInflight w @ [\<lparr>eOffset = off, eSize = sz\<rparr>]"
  "wInflightBytes (push_entry off sz t w) = wInflightBytes w + sz"
  by (simp_all add: push_entry_def)

section \<open>What the pump relies on\<close>

text \<open>
  The contract of \<^verbatim>\<open>Recoverer\<close>: \<open>RecoverN\<close> answers with the deliveries right after the given
  offset, without a gap and all of the epoch asked for, at most as many as asked for; and asking
  again from the first of them answers with the others. \<open>inv\<close> is the invariant of the provider.
\<close>

locale recoverer =
  fixes rec :: "'s recover" and inv :: "'s \<Rightarrow> bool"
  assumes rec_run: "inv s \<Longrightarrow> rec ch from ep n s = Some ds \<Longrightarrow> offsets_after from ds"
    and rec_epoch: "inv s \<Longrightarrow> rec ch from ep n s = Some ds \<Longrightarrow> d \<in> set ds \<Longrightarrow> dEpoch d = ep \<and> dChannel d = ch"
    and rec_limit: "inv s \<Longrightarrow> 0 < n \<Longrightarrow> rec ch from ep n s = map_option (take (nat n)) (rec ch from ep 0 s)"
    and rec_rest: "inv s \<Longrightarrow> rec ch from ep 0 s = Some (d # ds) \<Longrightarrow> rec ch (dOffset d) ep 0 s = Some ds"
begin

lemma pump_batch_advances:
  assumes "pump_batch deliver t ds w s = (whole, w', s')" "wBaselined w" "offsets_after (wDelivered w) ds"
    and "\<forall>d \<in> set ds. dEpoch d = wEpoch w" "inv s" "\<forall>d s. inv s \<longrightarrow> inv (snd (deliver d s))"
  shows "inv s' \<and> (whole \<longrightarrow> wBaselined w' \<and> wEpoch w' = wEpoch w \<and> unat (wDelivered w') = unat (wDelivered w) + length ds)"
  using assms(1-5)
proof (induction ds arbitrary: w s)
  case (Cons d ds)
  from Cons.prems(3) have d: "unat (dOffset d) = unat (wDelivered w) + 1" "offsets_after (dOffset d) ds"
    by (simp_all add: offsets_after_Cons)
  obtain ok s1 where call: "deliver d s = (ok, s1)" by (cases "deliver d s")
  have inv1: "inv s1" using assms(6) Cons.prems(5) call by (metis snd_conv)
  note ih = Cons.IH [of "push_entry (dOffset d) (dsize d) t w" s1]
  show ?case
    using Cons.prems(1,4,5) inv1 Admit_next [OF Cons.prems(2) d(1), of "dsize d" t "deliver d" s] ih Cons.prems(2) d call
    by (auto split: if_splits)
qed simp

lemma pump_returns:
  assumes "inv s" "\<forall>d s. inv s \<longrightarrow> inv (snd (deliver d s))" "\<forall>s. inv s \<longrightarrow> inv (snd (now s))"
  shows "\<exists>w' lost' s'. pump rec now deliver channel w lost s = Some (w', lost', s') \<and> inv s'"
  using assms(1)
proof (induction "2 ^ 64 - unat (wDelivered w)" arbitrary: w s rule: less_induct)
  case less
  obtain "from" epoch room where pp: "PumpPoint w = (from, epoch, room)" by (cases "PumpPoint w") auto
  let ?n = "if room > pumpBatch then pumpBatch else room"
  show ?case
  proof (cases "room \<le> 0 \<or> epoch = 0")
    case False
    then have w: "wBaselined w" "from = wDelivered w" "epoch = wEpoch w"
      using pp by (auto simp: PumpPoint_def split: if_splits)
    show ?thesis
    proof (cases "rec channel from epoch ?n s")
      case None
      then show ?thesis using pp False less.prems by (simp add: pump.simps)
    next
      case (Some batch)
      show ?thesis
      proof (cases "batch = []")
        case True
        then show ?thesis using pp False Some less.prems by (simp add: pump.simps)
      next
        case ne: False
        obtain t s1 where t: "now s = (t, s1)" by (cases "now s")
        have inv1: "inv s1" using assms(3) less.prems t by (metis snd_conv)
        obtain whole w' s' where b: "pump_batch deliver t batch w s1 = (whole, w', s')" by (metis prod_cases3)
        have run: "offsets_after (wDelivered w) batch" "\<forall>d \<in> set batch. dEpoch d = wEpoch w"
          using rec_run [OF less.prems Some] rec_epoch [OF less.prems Some] w by auto
        note adv = pump_batch_advances [OF b w(1) run inv1 assms(2)]
        have step: "pump rec now deliver channel w lost s = (if whole then pump rec now deliver channel w' lost s' else Some (w', lost, s'))"
          using pp False Some ne t b by (simp add: pump.simps [of rec now deliver channel w])
        show ?thesis
        proof (cases whole)
          case True
          then have "unat (wDelivered w) < unat (wDelivered w')" using adv ne by simp
          then have "2 ^ 64 - unat (wDelivered w') < 2 ^ 64 - unat (wDelivered w)"
            using unat_bound [of "wDelivered w'"] by simp
          then show ?thesis using less.hyps [of w' s'] adv step True by simp
        qed (use adv step in simp)
      qed
    qed
  qed (use pp less.prems in \<open>auto simp: pump.simps\<close>)
qed

end

section \<open>What the pump sends\<close>

text \<open>A transport that records what it is asked to send, beside a part of the world it leaves alone.\<close>

definition taped :: "(Delivery \<Rightarrow> bool) \<Rightarrow> ('e \<times> Delivery list) transport" where
  "taped accept d s = (accept d, (fst s, snd s @ [d]))"

text \<open>The window \<open>w'\<close> is \<open>w\<close> with \<open>ds\<close> put in flight.\<close>

definition pumped :: "Window \<Rightarrow> Delivery list \<Rightarrow> Window \<Rightarrow> bool" where
  "pumped w ds w' \<longleftrightarrow> wInflight w' = wInflight w @ map (\<lambda>d. \<lparr>eOffset = dOffset d, eSize = dsize d\<rparr>) ds
     \<and> wDelivered w' = (if ds = [] then wDelivered w else dOffset (last ds))
     \<and> wInflightBytes w' = wInflightBytes w + sum_list (map dsize ds)
     \<and> wConfirmed w' = wConfirmed w \<and> wEpoch w' = wEpoch w \<and> wBaselined w' = wBaselined w
     \<and> wMaxCount w' = wMaxCount w \<and> wMaxBytes w' = wMaxBytes w"

lemma pumped_Nil [simp]: "pumped w [] w"
  by (simp add: pumped_def)

lemma pumped_trans: "pumped w a w1 \<Longrightarrow> pumped w1 b w2 \<Longrightarrow> pumped w (a @ b) w2"
  by (auto simp: pumped_def)

lemma pumped_push: "pumped w [d] (push_entry (dOffset d) (dsize d) t w)"
  by (simp add: pumped_def push_entry_def)

text \<open>
  Why the pump stopped with \<open>rest\<close> still to send, and what it tried last: there was nothing left,
  the credit was used up, or the transport refused the next one.
\<close>

fun stopped_at :: "(Delivery \<Rightarrow> bool) \<Rightarrow> Window \<Rightarrow> Delivery list \<Rightarrow> Delivery list \<Rightarrow> bool" where
  "stopped_at accept w [] last_try \<longleftrightarrow> last_try = []"
| "stopped_at accept w (d # rest) last_try \<longleftrightarrow>
     blocked w (dsize d) \<and> last_try = [] \<or> \<not> blocked w (dsize d) \<and> \<not> accept d \<and> last_try = [d]"

lemma pump_batch_taped:
  assumes "pump_batch (taped accept) t ds w s = (whole, w', s')" "wBaselined w" "offsets_after (wDelivered w) ds"
    and "\<forall>d \<in> set ds. dEpoch d = wEpoch w"
  shows "\<exists>sent rest last_try. ds = sent @ rest \<and> (\<forall>d \<in> set sent. accept d) \<and> pumped w sent w'
    \<and> s' = (fst s, snd s @ sent @ last_try) \<and> stopped_at accept w' rest last_try \<and> (whole \<longleftrightarrow> rest = [])"
  using assms
proof (induction ds arbitrary: w s)
  case Nil
  then show ?case by auto
next
  case (Cons d ds)
  from Cons.prems(3) have d: "unat (dOffset d) = unat (wDelivered w) + 1" "offsets_after (dOffset d) ds"
    by (simp_all add: offsets_after_Cons)
  note ad = Admit_next [OF Cons.prems(2) d(1), of "dsize d" t "taped accept d" s]
  have call: "taped accept d s = (accept d, (fst s, snd s @ [d]))" by (simp add: taped_def)
  consider (blocked) "blocked w (dsize d)" | (refused) "\<not> blocked w (dsize d)" "\<not> accept d"
    | (sent) "\<not> blocked w (dsize d)" "accept d" by blast
  then show ?case
  proof cases
    case blocked
    then show ?thesis using Cons.prems(1,4) ad by (intro exI [of _ "[]"] exI [of _ "d # ds"]) auto
  next
    case refused
    then show ?thesis using Cons.prems(1,4) ad
      by (intro exI [of _ "[]"] exI [of _ "d # ds"] exI [of _ "[d]"]) (auto simp: call)
  next
    case sent
    let ?w = "push_entry (dOffset d) (dsize d) t w" and ?s = "(fst s, snd s @ [d])"
    have "pump_batch (taped accept) t ds ?w ?s = (whole, w', s')"
      using Cons.prems(1,4) ad sent by (simp add: call)
    from Cons.IH [OF this] Cons.prems(2,4) d(2)
    obtain sent rest last_try where "ds = sent @ rest" "\<forall>d \<in> set sent. accept d" "pumped ?w sent w'"
      "s' = (fst ?s, snd ?s @ sent @ last_try)" "stopped_at accept w' rest last_try" "whole \<longleftrightarrow> rest = []" by auto
    moreover from this(3) have "pumped w (d # sent) w'" using pumped_trans [OF pumped_push] by force
    ultimately show ?thesis using sent(2)
      by (intro exI [of _ "d # sent"] exI [of _ rest] exI [of _ last_try]) auto
  qed
qed

context recoverer
begin

text \<open>Skipping over a prefix of what can be recovered.\<close>

lemma rec_skip:
  assumes "inv s" "rec ch from ep 0 s = Some (sent @ rest)"
  shows "rec ch (if sent = [] then from else dOffset (last sent)) ep 0 s = Some rest"
  using assms(2)
proof (induction sent arbitrary: "from")
  case (Cons d sent)
  then have "rec ch (dOffset d) ep 0 s = Some (sent @ rest)" using rec_rest [OF assms(1)] by simp
  from Cons.IH [OF this] show ?case by (cases sent) auto
qed simp

end

text \<open>
  The pump against a history that stands still: it returns, and what it sent is a prefix of
  what the history holds after the window's cursor, each delivery once and in order.
\<close>

locale tape_recoverer = recoverer rec inv for rec :: "('e \<times> Delivery list) recover" and inv +
  assumes tape_free: "rec ch from ep n (e, log) = rec ch from ep n (e, log')"
    and inv_tape: "inv (e, log) \<longleftrightarrow> inv (e, log')"
begin

lemma pump_exact:
  assumes "inv s" "wBaselined w" "wEpoch w \<noteq> 0" "0 \<le> wMaxCount w"
    and "rec channel (wDelivered w) (wEpoch w) 0 s = Some todo" "\<forall>s. fst (snd (now s)) = fst s \<and> snd (snd (now s)) = snd s"
  shows "\<exists>sent rest last_try w'. pump rec now (taped accept) channel w lost s = Some (w', lost, (fst s, snd s @ sent @ last_try))
    \<and> todo = sent @ rest \<and> (\<forall>d \<in> set sent. accept d) \<and> pumped w sent w' \<and> stopped_at accept w' rest last_try"
  using assms(1-5)
proof (induction "length todo" arbitrary: todo w s rule: less_induct)
  case less
  note pump_eq = pump.simps [of rec now "taped accept" channel w lost s]
  define room where "room = (if wMaxCount w = 0 then 1048576 else wMaxCount w - int (length (wInflight w)))"
  have pp: "PumpPoint w = (wDelivered w, wEpoch w, room)" using less.prems(2) by (simp add: PumpPoint_def room_def)
  define n where "n = (if room > pumpBatch then pumpBatch else room)"
  show ?case
  proof (cases "room \<le> 0")
    case True
    then have "blocked w sz" for sz using less.prems(4) by (auto simp: blocked_def room_def split: if_splits)
    then show ?thesis using True pp pump_eq
      by (intro exI [of _ "[]"] exI [of _ todo] exI [of _ w]) (cases todo; simp)
  next
    case False
    then have n: "0 < n" by (simp add: n_def pumpBatch_def)
    have batch: "rec channel (wDelivered w) (wEpoch w) n s = Some (take (nat n) todo)"
      using rec_limit [OF less.prems(1) n] less.prems(5) by simp
    show ?thesis
    proof (cases "todo = []")
      case True
      then show ?thesis using False pp pump_eq batch [unfolded n_def] less.prems(3) by (intro exI [of _ "[]"] exI [of _ w]) simp
    next
      case ne: False
      then have bne: "take (nat n) todo \<noteq> []" using n by simp
      obtain t s1 where t: "now s = (t, s1)" by (cases "now s")
      then have s1: "s1 = s" using assms(6) by (metis prod_eqI snd_conv)
      obtain whole w1 s2 where b: "pump_batch (taped accept) t (take (nat n) todo) w s = (whole, w1, s2)"
        by (metis prod_cases3)
      have run: "offsets_after (wDelivered w) (take (nat n) todo)" "\<forall>d \<in> set (take (nat n) todo). dEpoch d = wEpoch w"
        using rec_run [OF less.prems(1) batch] rec_epoch [OF less.prems(1) batch] by auto
      obtain sent rest last_try where sr: "take (nat n) todo = sent @ rest" "\<forall>d \<in> set sent. accept d" "pumped w sent w1"
        "s2 = (fst s, snd s @ sent @ last_try)" "stopped_at accept w1 rest last_try" "whole \<longleftrightarrow> rest = []"
        using pump_batch_taped [OF b less.prems(2) run] by blast
      have todo: "todo = sent @ rest @ drop (nat n) todo" by (metis append.assoc append_take_drop_id sr(1))
      have step: "pump rec now (taped accept) channel w lost s =
          (if whole then pump rec now (taped accept) channel w1 lost s2 else Some (w1, lost, s2))"
        using pump_eq pp False less.prems(3) batch [unfolded n_def] n ne t s1 b by (simp add: n_def [symmetric] min_def split del: if_split) (simp split: if_splits)
      show ?thesis
      proof (cases whole)
        case False
        then obtain d rest' where rest: "rest = d # rest'" using sr(6) by (cases rest) auto
        then show ?thesis using step False sr todo
          by (intro exI [of _ sent] exI [of _ "rest @ drop (nat n) todo"] exI [of _ last_try] exI [of _ w1])
            (simp del: append.simps, simp)
      next
        case True
        then have rest: "rest = []" "last_try = []" using sr(5,6) by auto
        then have s2: "s2 = (fst s, snd s @ sent)" using sr(4) by simp
        have todo1: "todo = sent @ drop (nat n) todo" using todo rest by simp
        have sne: "sent \<noteq> []" using bne sr(1) rest by simp
        have inv2: "inv s2" using less.prems(1) inv_tape s2 by (metis prod.collapse)
        have w1: "wBaselined w1" "wEpoch w1 = wEpoch w" "wMaxCount w1 = wMaxCount w" "wDelivered w1 = dOffset (last sent)"
          using sr(3) less.prems(2) sne by (simp_all add: pumped_def)
        have "rec channel (wDelivered w1) (wEpoch w) 0 s = Some (drop (nat n) todo)"
          using rec_skip [OF less.prems(1), of channel "wDelivered w" "wEpoch w" sent] less.prems(5) todo1 sne w1(4) by metis
        then have rec2: "rec channel (wDelivered w1) (wEpoch w1) 0 s2 = Some (drop (nat n) todo)"
          using tape_free s2 w1(2) by (metis prod.collapse)
        have "length (drop (nat n) todo) < length todo" using n ne by simp
        from less.hyps [OF this inv2 w1(1) _ _ rec2] w1 less.prems(3,4)
        obtain sent' rest' last_try' w' where
          ih: "pump rec now (taped accept) channel w1 lost s2 = Some (w', lost, (fst s2, snd s2 @ sent' @ last_try'))"
          "drop (nat n) todo = sent' @ rest'" "\<forall>d \<in> set sent'. accept d" "pumped w1 sent' w'" "stopped_at accept w' rest' last_try'"
          by auto
        show ?thesis
          by (intro exI [of _ "sent @ sent'"] exI [of _ rest'] exI [of _ last_try'] exI [of _ w'])
            (use step True ih s2 todo1 sr(2) pumped_trans [OF sr(3) ih(4)] in auto)
      qed
    qed
  qed
qed

end

section \<open>The consumer's books\<close>

lemma window_ok_pump_batch:
  "window_ok w \<Longrightarrow> pump_batch deliver t ds w s = (whole, w', s') \<Longrightarrow> window_ok w'"
proof (induction ds arbitrary: w s)
  case (Cons d ds)
  obtain v w1 s1 where a: "Admit (dOffset d) (dEpoch d) (dsize d) t (deliver d) w s = (v, w1, s1)" by (metis prod_cases3)
  have "window_ok w1" by (rule window_ok_Admit [OF Cons.prems(1) _ a]) simp
  then show ?case using Cons.prems(2) Cons.IH a by (auto split: if_splits)
qed simp

lemma window_ok_pump:
  assumes "pump rec now deliver channel w lost s = Some r" "window_ok w"
  shows "window_ok (fst r)"
proof -
  have "window_ok w \<longrightarrow> window_ok (fst r)"
  proof (rule pump.raw_induct [where P = "\<lambda>rec now deliver channel w lost s r. window_ok w \<longrightarrow> window_ok (fst r)", OF _ assms(1)], rule impI)
    fix f :: "'a recover \<Rightarrow> 'a clock \<Rightarrow> 'a transport \<Rightarrow> string \<Rightarrow> Window \<Rightarrow> int \<Rightarrow> 'a \<Rightarrow> (Window \<times> int \<times> 'a) option"
      and rec :: "'a recover" and now deliver channel w lost s r
    assume IH: "\<And>rec now deliver channel w lost s r. f rec now deliver channel w lost s = Some r \<Longrightarrow> window_ok w \<longrightarrow> window_ok (fst r)"
      and ok: "window_ok w"
      and eq: "(case PumpPoint w of (from, epoch, room) \<Rightarrow>
        if room \<le> 0 \<or> epoch = 0 then Some (w, lost, s)
        else (case rec channel from epoch (if room > pumpBatch then pumpBatch else room) s of
             None \<Rightarrow> Some (Reset w, lost + 1, s)
           | Some batch \<Rightarrow> if length batch = 0 then Some (w, lost, s)
               else (case now s of (t, s1) \<Rightarrow> (case pump_batch deliver t batch w s1 of (whole, w', s') \<Rightarrow>
                       if whole then f rec now deliver channel w' lost s' else Some (w', lost, s'))))) = Some r"
    obtain "from" epoch room where pp: "PumpPoint w = (from, epoch, room)" by (cases "PumpPoint w") auto
    show "window_ok (fst r)"
    proof (cases "room \<le> 0 \<or> epoch = 0")
      case False
      show ?thesis
      proof (cases "rec channel from epoch (if room > pumpBatch then pumpBatch else room) s")
        case None
        then show ?thesis using eq pp False window_ok_Reset [OF ok] by auto
      next
        case (Some batch)
        obtain t s1 where t: "now s = (t, s1)" by (cases "now s")
        obtain whole w' s' where b: "pump_batch deliver t batch w s1 = (whole, w', s')" by (metis prod_cases3)
        have "window_ok w'" by (rule window_ok_pump_batch [OF ok b])
        then show ?thesis
          using eq pp False Some t b ok IH [of rec now deliver channel w' lost s' r] by (auto split: if_splits)
      qed
    qed (use eq pp ok in auto)
  qed
  with assms(2) show ?thesis by simp
qed

text \<open>
  One consumer beside its sweeper: the keys and the contents of its windows, the flag that lets
  sessions without windows skip the map, and its membership in the sweeper's tick set.
\<close>

definition windows_ok :: "Consumer \<Rightarrow> bool" where
  "windows_ok c \<longleftrightarrow> gomap_ok (windows c) \<and> (\<forall>ch w. gget (windows c) ch = Some w \<longrightarrow> window_ok w)
     \<and> (cActive c \<longleftrightarrow> windows c \<noteq> [])"

definition swept_ok :: "nat \<Rightarrow> Consumer \<Rightarrow> Sweeper \<Rightarrow> bool" where
  "swept_ok cid c sw \<longleftrightarrow>
     (if cSwept c \<and> windows c \<noteq> [] \<and> \<not> cStopped c
      then (if gget (swConsumers sw) cid = None then swStopped sw else swStarted sw)
      else gget (swConsumers sw) cid = None)"

lemma windows_put [simp]: "windows (put_window ch w c) = gput ch w (windows c)"
  by (simp add: windows_def put_window_def)

lemma put_window_fields [simp]:
  "cActive (put_window ch w c) = cActive c" "cStopped (put_window ch w c) = cStopped c" "cSwept (put_window ch w c) = cSwept c"
  "cLostGaps (put_window ch w c) = cLostGaps c"
  by (simp_all add: put_window_def)

lemma windows_gaps [simp]:
  "windows (c\<lparr>cWindows := Some m\<rparr>) = m"
  "windows (c\<lparr>cLostGaps := x\<rparr>) = windows c" "windows (c\<lparr>cPoisoned := x\<rparr>) = windows c"
  "windows (c\<lparr>cStopped := b\<rparr>) = windows c" "windows (c\<lparr>cActive := b\<rparr>) = windows c"
  by (simp_all add: windows_def)

lemma gput_nonempty [simp]: "gput k v m \<noteq> []"
  by (cases m) (auto simp: gput_def)

text \<open>\<open>c'\<close> has the windows of \<open>c\<close>, possibly moved on, and the same place in the sweeper's set.\<close>

definition same_books :: "Consumer \<Rightarrow> Consumer \<Rightarrow> bool" where
  "same_books c c' \<longleftrightarrow> cSwept c' = cSwept c \<and> cStopped c' = cStopped c \<and> cActive c' = cActive c
     \<and> fst ` set (windows c') = fst ` set (windows c)"

lemma same_books_nonempty: "same_books c c' \<Longrightarrow> windows c' = [] \<longleftrightarrow> windows c = []"
  by (metis image_is_empty same_books_def set_empty)

lemma consumer_window_cases:
  assumes "consumer_window ch c = Some w"
  shows "cActive c" "gget (windows c) ch = Some w"
  using assms by (auto simp: consumer_window_def split: if_splits)

lemma put_window_ok:
  assumes "windows_ok c" "consumer_window ch c = Some w" "window_ok w'"
  shows "windows_ok (put_window ch w' c)" "same_books c (put_window ch w' c)"
proof -
  have "cActive c" "gget (windows c) ch \<noteq> None" using consumer_window_cases [OF assms(2)] by simp_all
  with assms(1,3) show "windows_ok (put_window ch w' c)" "same_books c (put_window ch w' c)"
    using set_gkeys [of ch "windows c"] by (auto simp: windows_ok_def same_books_def)
qed

lemma same_books_refl [simp]: "same_books c c"
  by (simp add: same_books_def)

lemma same_books_trans: "same_books a b \<Longrightarrow> same_books b c \<Longrightarrow> same_books a c"
  by (simp add: same_books_def)

lemma books_gaps [simp]:
  "windows_ok (c\<lparr>cLostGaps := x\<rparr>) = windows_ok c" "windows_ok (c\<lparr>cPoisoned := x\<rparr>) = windows_ok c"
  "same_books c (c'\<lparr>cLostGaps := x\<rparr>) = same_books c c'" "same_books c (c'\<lparr>cPoisoned := x\<rparr>) = same_books c c'"
  "consumer_window ch (c\<lparr>cPoisoned := x\<rparr>) = consumer_window ch c"
  by (simp_all add: windows_ok_def same_books_def consumer_window_def)

lemma Consumer_Deliver_ok:
  assumes "windows_ok c" "Consumer_Deliver now deliver d c s = (ok, c', s')"
  shows "windows_ok c' \<and> same_books c c'"
proof (cases "consumer_window (dChannel d) c")
  case None
  then show ?thesis using assms by (auto simp: Consumer_Deliver_def split: prod.splits)
next
  case (Some w)
  obtain t s1 where t: "now s = (t, s1)" by (cases "now s")
  obtain v w' s2 where a: "Admit (dOffset d) (dEpoch d) (dsize d) t (deliver d) w s1 = (v, w', s2)" by (metis prod_cases3)
  have "window_ok w" using consumer_window_cases [OF Some] assms(1) by (auto simp: windows_ok_def)
  then have "window_ok w'" by (rule window_ok_Admit [OF _ _ a]) simp
  with put_window_ok [OF assms(1) Some this] assms(2) Some t a show ?thesis by (auto simp: Consumer_Deliver_def)
qed

lemma pump_put:
  assumes "windows_ok c" "consumer_window ch c = Some w" "window_ok w1"
    and "pump rec now deliver ch w1 lost s = Some (w', lost', s')"
  shows "windows_ok (put_window ch w' c) \<and> same_books c (put_window ch w' c)"
  using put_window_ok [OF assms(1,2)] window_ok_pump [OF assms(4,3)] by simp

lemma Consumer_Confirm_ok:
  assumes "windows_ok c" "Consumer_Confirm rec now deliver channel offset c s = Some (c', s')"
  shows "windows_ok c' \<and> same_books c c'"
proof (cases "consumer_window channel c")
  case (Some w)
  then have "window_ok w" using consumer_window_cases [OF Some] assms(1) by (auto simp: windows_ok_def)
  then have "window_ok (Confirm offset t w)" for t by (rule window_ok_Confirm)
  with pump_put [OF assms(1) Some] assms(2) Some show ?thesis
    by (fastforce simp: Consumer_Confirm_def split: prod.splits option.splits)
qed (use assms in \<open>auto simp: Consumer_Confirm_def\<close>)

lemma tick_loop_ok:
  "windows_ok c \<Longrightarrow> tick_loop rec now deliver t chs c s = Some (c', s') \<Longrightarrow> windows_ok c' \<and> same_books c c'"
proof (induction chs arbitrary: c s)
  case (Cons ch chs)
  show ?case
  proof (cases "consumer_window ch c")
    case (Some w)
    obtain action w1 where r: "CheckRedelivery t w = (action, w1)" by (cases "CheckRedelivery t w")
    have "window_ok w" using consumer_window_cases [OF Some] Cons.prems(1) by (auto simp: windows_ok_def)
    then have w1: "window_ok w1" using window_ok_CheckRedelivery [of w t] r by simp
    define c1 where "c1 = (if Poisoned action \<noteq> 0 then c\<lparr>cPoisoned := cPoisoned c + 1\<rparr> else c)"
    have c1: "windows_ok c1" "same_books c c1" "consumer_window ch c1 = Some w"
      using Cons.prems(1) Some by (simp_all add: c1_def)
    obtain w' lost s1 where p: "pump rec now deliver ch w1 (cLostGaps c1) s = Some (w', lost, s1)"
      and rest: "tick_loop rec now deliver t chs ((put_window ch w' c1)\<lparr>cLostGaps := lost\<rparr>) s1 = Some (c', s')"
      using Cons.prems(2) Some r by (auto simp: c1_def [symmetric] Let_def split: option.splits)
    note put = pump_put [OF c1(1,3) w1 p]
    then have "windows_ok ((put_window ch w' c1)\<lparr>cLostGaps := lost\<rparr>)" by simp
    note ih = Cons.IH [OF this rest]
    have "same_books c1 ((put_window ch w' c1)\<lparr>cLostGaps := lost\<rparr>)" using put by simp
    from same_books_trans [OF same_books_trans [OF c1(2) this]] ih show ?thesis by blast
  qed (use Cons in simp)
qed simp

lemma Consumer_Tick_ok:
  assumes "windows_ok c" "Consumer_Tick rec now deliver c s = Some (c', s')"
  shows "windows_ok c' \<and> same_books c c'"
  using assms by (auto simp: Consumer_Tick_def split: if_splits prod.splits dest: tick_loop_ok)

section \<open>Executions of a consumer\<close>

text \<open>
  The steps of one consumer \<open>cid\<close> and of the sweeper it shares with others: its own operations,
  the registrations of the other consumers, and the sweeper's stop. The world may be anything at
  each step.
\<close>

inductive consumer_step :: "'s recover \<Rightarrow> nat \<Rightarrow> Consumer \<times> Sweeper \<Rightarrow> Consumer \<times> Sweeper \<Rightarrow> bool" for rec :: "'s recover" and cid where
  subscribe: "window_ok w \<Longrightarrow> Consumer_Subscribe cid channel w c sw = (ok, c', sw') \<Longrightarrow> consumer_step rec cid (c, sw) (c', sw')"
| unsubscribe: "consumer_step rec cid (c, sw) (Consumer_Unsubscribe cid channel c sw)"
| stop: "consumer_step rec cid (c, sw) (Consumer_Stop cid c sw)"
| deliver: "Consumer_Deliver (now :: 's clock) dlv d c s = (ok, c', s') \<Longrightarrow> consumer_step rec cid (c, sw) (c', sw)"
| confirm: "Consumer_Confirm rec now dlv channel offset c s = Some (c', s') \<Longrightarrow> consumer_step rec cid (c, sw) (c', sw)"
| tick: "Consumer_Tick rec now dlv c s = Some (c', s') \<Longrightarrow> consumer_step rec cid (c, sw) (c', sw)"
| other_add: "other \<noteq> cid \<Longrightarrow> consumer_step rec cid (c, sw) (c, Sweeper_add other sw)"
| other_remove: "other \<noteq> cid \<Longrightarrow> consumer_step rec cid (c, sw) (c, Sweeper_remove other sw)"
| sweeper_stop: "consumer_step rec cid (c, sw) (c, Sweeper_Stop sw)"

definition books_ok :: "nat \<Rightarrow> Consumer \<times> Sweeper \<Rightarrow> bool" where
  "books_ok cid = (\<lambda>(c, sw). windows_ok c \<and> swept_ok cid c sw)"

lemma swept_ok_same: "swept_ok cid c sw \<Longrightarrow> same_books c c' \<Longrightarrow> swept_ok cid c' sw"
proof -
  assume ok: "swept_ok cid c sw" and same: "same_books c c'"
  have eqs: "cSwept c' = cSwept c" "cStopped c' = cStopped c" "(windows c' \<noteq> []) = (windows c \<noteq> [])"
    using same same_books_nonempty [OF same] by (simp_all add: same_books_def)
  show ?thesis using ok unfolding swept_ok_def eqs .
qed

lemma Consumer_Subscribe_ok:
  assumes "windows_ok c" "swept_ok cid c sw" "window_ok w" "Consumer_Subscribe cid channel w c sw = (ok, c', sw')"
  shows "windows_ok c' \<and> swept_ok cid c' sw'"
proof (cases "gget (windows c) channel = None")
  case True
  let ?m = "gput channel w (windows c)"
  have m: "windows (c\<lparr>cWindows := Some ?m, cActive := True\<rparr>) = ?m" by (simp add: windows_def)
  have one: "length ?m = 1 \<longleftrightarrow> windows c = []" using True by (auto simp: length_gput)
  have "windows_ok (c\<lparr>cWindows := Some ?m, cActive := True\<rparr>)"
    using assms(1,3) by (auto simp: windows_ok_def m split: if_splits)
  moreover have "swept_ok cid (c\<lparr>cWindows := Some ?m, cActive := True\<rparr>)
      (if \<not> cStopped c \<and> length ?m = 1 \<and> cSwept c then Sweeper_add cid sw else sw)"
    unfolding swept_ok_def m one using assms(2) by (simp add: swept_ok_def Sweeper_add_def)
  ultimately show ?thesis using assms(4) True by (simp add: Consumer_Subscribe_def Let_def)
qed (use assms in \<open>auto simp: Consumer_Subscribe_def\<close>)

lemma Consumer_Unsubscribe_ok:
  assumes "windows_ok c" "swept_ok cid c sw" "Consumer_Unsubscribe cid channel c sw = (c', sw')"
  shows "windows_ok c' \<and> swept_ok cid c' sw'"
proof -
  have m: "windows (c\<lparr>cWindows := map_option (gdel channel) (cWindows c)\<rparr>) = gdel channel (windows c)"
    by (cases "cWindows c") (simp_all add: windows_def gdel_def)
  have ok: "gomap_ok (gdel channel (windows c))" "\<forall>ch w. gget (gdel channel (windows c)) ch = Some w \<longrightarrow> window_ok w"
    using assms(1) by (auto simp: windows_ok_def)
  let ?c = "c\<lparr>cWindows := map_option (gdel channel) (cWindows c)\<rparr>"
  show ?thesis
  proof (cases "gdel channel (windows c) = []")
    case True
    then have "windows (?c\<lparr>cActive := False\<rparr>) = []" by (simp only: windows_gaps m)
    with True assms(3) m show ?thesis
      using assms(2)
      by (auto simp: Consumer_Unsubscribe_def Let_def swept_ok_def windows_ok_def Sweeper_remove_def split: if_splits)
  next
    case False
    have "windows c \<noteq> []" using False by (auto simp: gdel_def)
    moreover have "c' = ?c" "sw' = sw" using False assms(3) m by (simp_all add: Consumer_Unsubscribe_def Let_def)
    ultimately show ?thesis using False ok assms(1,2) by (simp add: windows_ok_def swept_ok_def m)
  qed
qed

lemma books_ok_step:
  assumes "consumer_step rec cid a b" "books_ok cid a"
  shows "books_ok cid b"
  using assms
proof cases
  case (subscribe w channel c sw ok c' sw')
  then show ?thesis using assms(2) Consumer_Subscribe_ok [of c cid sw w channel ok c' sw'] by (simp add: books_ok_def)
next
  case (unsubscribe c sw channel)
  then show ?thesis using assms(2) Consumer_Unsubscribe_ok [of c cid sw channel] by (auto simp: books_ok_def split: prod.splits)
next
  case (stop c sw)
  then show ?thesis using assms(2)
    by (auto simp: books_ok_def Consumer_Stop_def swept_ok_def windows_ok_def Sweeper_remove_def split: if_splits)
next
  case (deliver now dlv d c s ok c' s' sw)
  then show ?thesis using assms(2) Consumer_Deliver_ok [OF _ deliver(3)] swept_ok_same by (auto simp: books_ok_def)
next
  case (confirm now dlv channel offset c s c' s' sw)
  then show ?thesis using assms(2) Consumer_Confirm_ok [OF _ confirm(3)] swept_ok_same by (auto simp: books_ok_def)
next
  case (tick now dlv c s c' s' sw)
  then show ?thesis using assms(2) Consumer_Tick_ok [OF _ tick(3)] swept_ok_same by (auto simp: books_ok_def)
qed (use assms(2) in \<open>auto simp: books_ok_def swept_ok_def Sweeper_add_def Sweeper_remove_def Sweeper_Stop_def split: if_splits\<close>)

inductive_cases consumer_stepE: "consumer_step rec cid a b"

lemma books_ok_start: "gget (swConsumers sw) cid = None \<Longrightarrow> books_ok cid (NewConsumer swept, sw)"
  by (simp add: books_ok_def windows_ok_def swept_ok_def NewConsumer_def windows_def)

lemma books_ok_reach:
  assumes "(consumer_step rec cid)\<^sup>*\<^sup>* a b" "books_ok cid a"
  shows "books_ok cid b"
  using assms by (induction) (auto intro: books_ok_step)

text \<open>A stopped consumer stays stopped.\<close>

lemma stopped_step:
  assumes "consumer_step rec cid a b" "books_ok cid a" "cStopped (fst a)"
  shows "cStopped (fst b)"
  using assms(1)
proof cases
  case (deliver now dlv d c s ok c' s' sw)
  then show ?thesis using Consumer_Deliver_ok [OF _ deliver(3)] assms(2,3) by (auto simp: books_ok_def same_books_def)
next
  case (confirm now dlv channel offset c s c' s' sw)
  then show ?thesis using Consumer_Confirm_ok [OF _ confirm(3)] assms(2,3) by (auto simp: books_ok_def same_books_def)
next
  case (tick now dlv c s c' s' sw)
  then show ?thesis using Consumer_Tick_ok [OF _ tick(3)] assms(2,3) by (auto simp: books_ok_def same_books_def)
qed (use assms(3) in \<open>auto simp: Consumer_Subscribe_def Consumer_Unsubscribe_def Consumer_Stop_def Let_def split: if_splits\<close>)

lemma stopped_reach:
  assumes "(consumer_step rec cid)\<^sup>*\<^sup>* a b" "books_ok cid a" "cStopped (fst a)"
  shows "cStopped (fst b)"
  using assms(1)
proof induction
  case (step b c)
  then show ?case using stopped_step [OF step(2)] books_ok_reach [OF step(1) assms(2)] by blast
qed (rule assms(3))

text \<open>
  A consumer is in the sweeper's tick set exactly when it has something to redeliver: in
  every interleaving of its own operations with those of the other consumers of a running sweeper,
  it is registered if and only if it holds at least one window and has not been stopped, its
  fast-path flag is set exactly when it holds a window, and each of its windows keeps its
  credit limits.
\<close>

theorem consumer_registered:
  assumes "(consumer_step rec cid)\<^sup>*\<^sup>* (NewConsumer True, NewSweeper) (c, sw)" and "\<not> swStopped sw"
  shows "(cid \<in> set (appendConsumers [] sw) \<longleftrightarrow> windows c \<noteq> [] \<and> \<not> cStopped c) \<and> (cActive c \<longleftrightarrow> windows c \<noteq> [])
    \<and> (\<forall>channel w. gget (windows c) channel = Some w \<longrightarrow> window_ok w)"
proof -
  have swept: "cSwept (fst b)" if "(consumer_step rec cid)\<^sup>*\<^sup>* (NewConsumer True, NewSweeper) b" for b
    using that
  proof induction
    case (step a b)
    have ok: "windows_ok (fst a)"
      using books_ok_reach [OF step(1) books_ok_start] by (auto simp: NewSweeper_def books_ok_def)
    from step(2) show ?case
    proof cases
      case (deliver now dlv d c s ok c' s' sw)
      then show ?thesis using Consumer_Deliver_ok [OF _ deliver(3)] ok step(3) by (auto simp: same_books_def)
    next
      case (confirm now dlv channel offset c s c' s' sw)
      then show ?thesis using Consumer_Confirm_ok [OF _ confirm(3)] ok step(3) by (auto simp: same_books_def)
    next
      case (tick now dlv c s c' s' sw)
      then show ?thesis using Consumer_Tick_ok [OF _ tick(3)] ok step(3) by (auto simp: same_books_def)
    qed (use step(3) in \<open>auto simp: Consumer_Subscribe_def Consumer_Unsubscribe_def Consumer_Stop_def Let_def split: if_splits\<close>)
  qed (simp add: NewConsumer_def)
  have "books_ok cid (c, sw)" using books_ok_reach [OF assms(1) books_ok_start] by (simp add: NewSweeper_def)
  then have ok: "windows_ok c" "swept_ok cid c sw" by (simp_all add: books_ok_def)
  have "cSwept c" using swept [OF assms(1)] by simp
  moreover have "cid \<in> set (appendConsumers [] sw) \<longleftrightarrow> gget (swConsumers sw) cid \<noteq> None"
    by (simp add: appendConsumers_def set_gkeys)
  ultimately show ?thesis using ok assms(2) by (auto simp: windows_ok_def swept_ok_def split: if_splits)
qed

theorem consumer_registered_witness:
  "3 \<in> set (appendConsumers [] (snd (snd (Consumer_Subscribe 3 ''a'' (NewWindow 1 0 0 0) (NewConsumer True) NewSweeper))))"
proof -
  obtain ok c sw where s: "Consumer_Subscribe 3 ''a'' (NewWindow 1 0 0 0) (NewConsumer True) NewSweeper = (ok, c, sw)"
    by (metis prod_cases3)
  have "consumer_step (\<lambda>_ _ _ _ _. None :: Delivery list option) 3 (NewConsumer True, NewSweeper) (c, sw)"
    by (rule consumer_step.subscribe [OF window_ok_NewWindow s])
  then have r: "(consumer_step (\<lambda>_ _ _ _ _. None) 3)\<^sup>*\<^sup>* (NewConsumer True, NewSweeper) (c, sw)" by blast
  have "\<not> swStopped sw" "windows c \<noteq> [] \<and> \<not> cStopped c"
    using s by (auto simp: Consumer_Subscribe_def NewConsumer_def NewSweeper_def Let_def Sweeper_add_def windows_def split: if_splits)
  with consumer_registered [OF r] s show ?thesis by simp
qed

text \<open>
  Stopping a consumer fences it for good: whatever happens after \<^verbatim>\<open>Stop\<close>, in any
  interleaving, the consumer is not in the sweeper's tick set and a tick returns at once without
  touching a window or the transport.
\<close>

theorem stopped_consumer_inert:
  assumes "(consumer_step rec cid)\<^sup>*\<^sup>* (NewConsumer swept, NewSweeper) (c, sw)"
    and "(consumer_step rec cid)\<^sup>*\<^sup>* (Consumer_Stop cid c sw) (c', sw')"
  shows "Consumer_Tick rec now deliver c' s = Some (c', s) \<and> cid \<notin> set (appendConsumers [] sw')"
proof -
  have "books_ok cid (c, sw)" using books_ok_reach [OF assms(1) books_ok_start] by (simp add: NewSweeper_def)
  then have ok: "books_ok cid (Consumer_Stop cid c sw)" by (intro books_ok_step [OF consumer_step.stop])
  have "cStopped (fst (Consumer_Stop cid c sw))" by (simp add: Consumer_Stop_def)
  then have st: "cStopped c'" using stopped_reach [OF assms(2) ok] by simp
  have "swept_ok cid c' sw'" using books_ok_reach [OF assms(2) ok] by (simp add: books_ok_def)
  with st have "gget (swConsumers sw') cid = None" by (simp add: swept_ok_def)
  with st show ?thesis by (simp add: Consumer_Tick_def appendConsumers_def set_gkeys)
qed

theorem stopped_consumer_inert_witness:
  "Consumer_Tick (\<lambda>_ _ _ _ _. None) (\<lambda>s. (5, s)) (\<lambda>d s. (True, d # s)) (fst (Consumer_Stop 3 (NewConsumer True) NewSweeper)) []
    = Some (fst (Consumer_Stop 3 (NewConsumer True) NewSweeper), [])"
proof -
  obtain c sw where s: "Consumer_Stop 3 (NewConsumer True) NewSweeper = (c, sw)" by (metis prod.collapse)
  have "Consumer_Tick (\<lambda>_ _ _ _ _. None) (\<lambda>s. (5, s)) (\<lambda>d s. (True, d # s)) c [] = Some (c, []) \<and> 3 \<notin> set (appendConsumers [] sw)"
    by (rule stopped_consumer_inert [of _ 3 True "NewConsumer True" NewSweeper]) (simp_all add: s)
  with s show ?thesis by simp
qed

end
