(* ===== verification/Consumer_Engine.thy ===== *)
theory Consumer_Engine
  imports Consumer Engine_Delivery
begin

text \<open>
  The engine as the consumer's source of history: \<^verbatim>\<open>RecoverN\<close> meets the contract of
  \<^verbatim>\<open>qos.Recoverer\<close>, so the lemmas on the pump hold for the two components together.
\<close>

section \<open>The engine is a recoverer\<close>

definition engine_recover :: "(Engine \<times> 'x) recover" where
  "engine_recover channel from epoch maxN s = RecoverN channel from epoch maxN (fst s)"

lemma RecoverN_Some:
  assumes "engine_ok e" "RecoverN ch from ep n e = Some ds"
  shows "\<exists>h. hist_ok h \<and> from \<le> hLastOffset h \<and> unat (hLastOffset h) - hCount h \<le> unat from
    \<and> (\<forall>f m. f \<le> hLastOffset h \<and> unat (hLastOffset h) - hCount h \<le> unat f \<longrightarrow>
         RecoverN ch f ep m e = Some (deliveries ch ep (limit m (drop (unat f + hCount h - unat (hLastOffset h)) (hist_items h)))))"
proof -
  obtain c h where c: "lookup ch e = Some c" "chHist c = Some h"
    using assms(2) by (auto simp: RecoverN_def split: option.splits)
  note h = lookup_history [OF assms(1) c]
  have ep: "chEpoch c = ep" "from \<le> hLastOffset h" "unat (hLastOffset h) - hCount h \<le> unat from"
    using assms(2) h(2) by (auto simp: RecoverN_spec [OF assms(1) c] split: if_splits)
  show ?thesis
    using h ep by (intro exI [of _ h]) (simp add: RecoverN_spec [OF assms(1) c] filter_newer)
qed

lemma offsets_after_drop:
  assumes "hist_ok h" "from \<le> hLastOffset h" "unat (hLastOffset h) - hCount h \<le> unat from"
  shows "offsets_after from (deliveries ch ep (limit n (drop (unat from + hCount h - unat (hLastOffset h)) (hist_items h))))"
proof -
  let ?k = "unat from + hCount h - unat (hLastOffset h)" and ?items = "hist_items h"
  have le: "hCount h \<le> unat (hLastOffset h)" "unat from \<le> unat (hLastOffset h)"
    using assms(1,2) by (auto simp: hist_ok_def word_le_nat_alt)
  have all: "offsets_after from (deliveries ch ep (drop ?k ?items))"
    unfolding offsets_after_def
  proof (rule nth_equalityI)
    fix i assume "i < length (map (unat \<circ> dOffset) (deliveries ch ep (drop ?k ?items)))"
    then have i: "?k + i < hCount h" by (simp add: deliveries_def)
    have "map (unat \<circ> dOffset) (deliveries ch ep (drop ?k ?items)) ! i = unat (hiOffset (?items ! (?k + i)))"
      using i by (simp add: deliveries_def)
    also have "\<dots> = unat (hLastOffset h) + 1 - hCount h + (?k + i)" by (rule hist_items_offset [OF assms(1) i])
    also have "\<dots> = unat from + 1 + i" using assms(3) le by simp
    also have "\<dots> = [unat from + 1 ..< unat from + 1 + length (deliveries ch ep (drop ?k ?items))] ! i"
      using i by (simp add: deliveries_def del: upt_Suc)
    finally show "map (unat \<circ> dOffset) (deliveries ch ep (drop ?k ?items)) ! i =
      [unat from + 1 ..< unat from + 1 + length (deliveries ch ep (drop ?k ?items))] ! i" .
  qed (simp add: deliveries_def del: upt_Suc)
  have pre: "offsets_after f (take m xs)" if "offsets_after f xs" for f m xs
    using that by (induction xs arbitrary: f m) (auto simp: offsets_after_Cons take_Cons' )
  show ?thesis using all pre [OF all, of "nat n"] by (auto simp: limit_def deliveries_def take_map)
qed

interpretation engine_rec: tape_recoverer engine_recover "\<lambda>s. engine_ok (fst s)"
proof unfold_locales
  fix s :: "Engine \<times> Delivery list" and ch "from" ep n ds
  assume ok: "engine_ok (fst s)" and r: "engine_recover ch from ep n s = Some ds"
  obtain h where h: "hist_ok h" "from \<le> hLastOffset h" "unat (hLastOffset h) - hCount h \<le> unat from"
    "ds = deliveries ch ep (limit n (drop (unat from + hCount h - unat (hLastOffset h)) (hist_items h)))"
    using RecoverN_Some [OF ok] r by (fastforce simp: engine_recover_def)
  from offsets_after_drop [OF h(1-3)] show "offsets_after from ds" unfolding h(4) .
  show "dEpoch d = ep \<and> dChannel d = ch" if "d \<in> set ds" for d using that h(4) by (auto simp: deliveries_def)
next
  fix s :: "Engine \<times> Delivery list" and ch "from" ep and n :: int
  assume ok: "engine_ok (fst s)" and n: "0 < n"
  show "engine_recover ch from ep n s = map_option (take (nat n)) (engine_recover ch from ep 0 s)"
  proof (cases "\<exists>m ds. RecoverN ch from ep m (fst s) = Some ds")
    case True
    then obtain m ds where "RecoverN ch from ep m (fst s) = Some ds" by blast
    from RecoverN_Some [OF ok this] n show ?thesis by (auto simp: engine_recover_def limit_def deliveries_def take_map)
  qed (auto simp: engine_recover_def)
next
  fix s :: "Engine \<times> Delivery list" and ch "from" ep d ds
  assume ok: "engine_ok (fst s)" and r: "engine_recover ch from ep 0 s = Some (d # ds)"
  then have r': "RecoverN ch from ep 0 (fst s) = Some (d # ds)" by (simp add: engine_recover_def)
  obtain h where h: "hist_ok h" "from \<le> hLastOffset h" "unat (hLastOffset h) - hCount h \<le> unat from"
    and all: "\<And>f m. f \<le> hLastOffset h \<Longrightarrow> unat (hLastOffset h) - hCount h \<le> unat f \<Longrightarrow>
         RecoverN ch f ep m (fst s) = Some (deliveries ch ep (limit m (drop (unat f + hCount h - unat (hLastOffset h)) (hist_items h))))"
    using RecoverN_Some [OF ok r'] by blast
  let ?k = "unat from + hCount h - unat (hLastOffset h)"
  have dd: "d # ds = deliveries ch ep (drop ?k (hist_items h))" using all [OF h(2,3), of 0] r' by (simp add: limit_def)
  have "length (d # ds) = hCount h - ?k" unfolding dd by (simp add: deliveries_def)
  then have k: "?k < hCount h" by simp
  have off: "unat (dOffset d) = unat from + 1"
    using offsets_after_drop [OF h, of ch ep 0] unfolding limit_def by (simp add: dd [symmetric] offsets_after_Cons)
  have "dOffset d \<le> hLastOffset h" "unat (hLastOffset h) - hCount h \<le> unat (dOffset d)"
    using off h(1,3) k by (auto simp: word_le_nat_alt hist_ok_def)
  from all [OF this, of 0] off have "RecoverN ch (dOffset d) ep 0 (fst s) = Some (deliveries ch ep (drop (Suc ?k) (hist_items h)))"
    using h(3) k by (simp add: limit_def Suc_diff_le)
  moreover have "ds = deliveries ch ep (drop (Suc ?k) (hist_items h))"
    using arg_cong [OF dd, of tl] by (simp add: deliveries_def drop_Suc tl_drop map_tl [symmetric])
  ultimately show "engine_recover ch (dOffset d) ep 0 s = Some ds" by (simp add: engine_recover_def)
qed (simp_all add: engine_recover_def)

section \<open>The consumer over the engine\<close>

lemma Confirm_fields [simp]:
  "wBaselined (Confirm off t w) = wBaselined w" "wEpoch (Confirm off t w) = wEpoch w"
  "wDelivered (Confirm off t w) = wDelivered w" "wMaxCount (Confirm off t w) = wMaxCount w"
  by (simp_all add: Confirm_def Let_def)

text \<open>
  (C15) The pump always returns: whatever the transport does, including publishing on the engine
  from inside a delivery so that the history grows while it is being pumped, and whatever window it
  starts with, the loop ends, because every batch that goes through moves the 64-bit cursor up.
\<close>

theorem pump_terminates:
  fixes deliver :: "(Engine \<times> Delivery list) transport"
  assumes "engine_ok (fst s)" and "\<forall>d s. engine_ok (fst s) \<longrightarrow> engine_ok (fst (snd (deliver d s)))"
    and "\<forall>s. engine_ok (fst s) \<longrightarrow> engine_ok (fst (snd (now s)))"
  shows "\<exists>w' lost' s'. pump engine_recover now deliver channel w lost s = Some (w', lost', s') \<and> engine_ok (fst s')"
  by (rule engine_rec.pump_returns [OF assms])

theorem pump_terminates_witness:
  "\<exists>w' lost' s'. pump engine_recover (\<lambda>s. (3, s)) (taped (\<lambda>_. True)) ''news'' (Baseline 0 7 (NewWindow 0 0 0 0)) 0 (demo_engine, [])
    = Some (w', lost', s') \<and> engine_ok (fst s')"
  by (rule pump_terminates) (simp_all add: reachable_ok [OF demo_reachable] taped_def)

text \<open>
  (C14) At-least-once delivery resumes where it stopped: when a subscriber confirms, the consumer
  trims its window and then sends, from the engine's history, exactly the retained publications
  after the last one it had sent, in order, each once; it stops only at the end of the history, at
  the credit limit, or at the first one the transport refuses, and the window records precisely
  the accepted ones as in flight.
\<close>

theorem confirm_resumes:
  assumes "engine_reachable hash seed cfg e" and "consumer_window channel c = Some w"
    and "wBaselined w" and "wEpoch w \<noteq> 0" and "0 \<le> wMaxCount w"
    and "Recover channel (wDelivered w) (wEpoch w) e = Some pending"
  shows "\<exists>sent rest last_try w' c'.
    Consumer_Confirm engine_recover (\<lambda>s. (t, s)) (taped accept) channel offset c (e, log) = Some (c', (e, log @ sent @ last_try))
    \<and> pending = sent @ rest \<and> (\<forall>d \<in> set sent. accept d) \<and> stopped_at accept w' rest last_try
    \<and> consumer_window channel c' = Some w' \<and> pumped (Confirm offset t w) sent w'
    \<and> (\<forall>other. other \<noteq> channel \<longrightarrow> consumer_window other c' = consumer_window other c)"
proof -
  have ok: "engine_ok (fst (e, log))" using reachable_ok [OF assms(1)] by simp
  have rec: "engine_recover channel (wDelivered (Confirm offset t w)) (wEpoch (Confirm offset t w)) 0 (e, log) = Some pending"
    using assms(6) by (simp add: engine_recover_def Recover_def)
  have w: "wBaselined (Confirm offset t w)" "wEpoch (Confirm offset t w) \<noteq> 0" "0 \<le> wMaxCount (Confirm offset t w)"
    using assms(3-5) by simp_all
  have clock: "\<forall>s. fst (snd ((\<lambda>s. (t, s)) s)) = fst s \<and> snd (snd ((\<lambda>s. (t, s)) s)) = snd s" by simp
  obtain sent rest last_try w' where
    p: "pump engine_recover (\<lambda>s. (t, s)) (taped accept) channel (Confirm offset t w) (cLostGaps c) (e, log)
        = Some (w', cLostGaps c, (e, log @ sent @ last_try))"
    "pending = sent @ rest" "\<forall>d \<in> set sent. accept d" "pumped (Confirm offset t w) sent w'" "stopped_at accept w' rest last_try"
    using engine_rec.pump_exact [OF ok w rec clock, of accept "cLostGaps c"] by auto
  let ?c = "(put_window channel w' c)\<lparr>cLostGaps := cLostGaps c\<rparr>"
  have "Consumer_Confirm engine_recover (\<lambda>s. (t, s)) (taped accept) channel offset c (e, log) = Some (?c, (e, log @ sent @ last_try))"
    using p(1) assms(2) by (simp add: Consumer_Confirm_def)
  moreover have "consumer_window channel ?c = Some w'" "\<forall>other. other \<noteq> channel \<longrightarrow> consumer_window other ?c = consumer_window other c"
    using consumer_window_cases [OF assms(2)] by (simp_all add: consumer_window_def)
  ultimately show ?thesis using p(2-5) by blast
qed

text \<open>A consumer on \<^verbatim>\<open>news\<close> that has seen nothing of epoch 7 yet.\<close>

definition demo_consumer :: Consumer where
  "demo_consumer = put_window ''news'' (Baseline 0 7 (NewWindow 2 0 0 0)) (NewConsumer False)\<lparr>cActive := True\<rparr>"

theorem confirm_resumes_witness:
  "\<exists>e. engine_reachable (\<lambda>_. 0) (\<lambda>_. 0) demo_cfg e
    \<and> (\<exists>c' d. Consumer_Confirm engine_recover (\<lambda>s. (3, s)) (taped (\<lambda>_. True)) ''news'' 0 demo_consumer (e, []) = Some (c', (e, [d]))
        \<and> dData d = ''hi'')"
proof -
  obtain r e w' c where pub: "Publish 1 5 [] [] ''news'' ''hi'' 0 (recorder (\<lambda>_. True)) demo_engine [] = Inr (r, e, w')"
    and c: "lookup ''news'' demo_engine = Some c" "chHist c = Some (newHistory 4 0)" "offset_room c"
    and none: "Recover ''news'' 0 (chEpoch c) demo_engine = Some []" and ep: "resEpoch r = 7"
    and e: "engine_reachable (\<lambda>_. 0) (\<lambda>_. 0) demo_cfg e"
    using demo_publish by auto
  let ?d = "\<lparr>dChannel = ''news'', dData = ''hi'', dOffset = resOffset r, dEpoch = 7, dFrame = None\<rparr>"
  let ?w = "Baseline 0 7 (NewWindow 2 0 0 0)"
  have "Recover ''news'' 0 7 e = Some [?d]"
    using Recover_after_Publish [OF reachable_ok(1) [OF demo_reachable] c pub none] ep by auto
  then have rec: "Recover ''news'' (wDelivered ?w) (wEpoch ?w) e = Some [?d]" by (simp add: Baseline_def NewWindow_def)
  have w: "consumer_window ''news'' demo_consumer = Some ?w" "wBaselined ?w" "wEpoch ?w \<noteq> 0" "0 \<le> wMaxCount ?w"
    by (simp_all add: demo_consumer_def consumer_window_def Baseline_def NewWindow_def)
  obtain sent rest last_try w' c' where
    r: "Consumer_Confirm engine_recover (\<lambda>s. (3, s)) (taped (\<lambda>_. True)) ''news'' 0 demo_consumer (e, []) = Some (c', (e, sent @ last_try))"
    "[?d] = sent @ rest" "stopped_at (\<lambda>_. True) w' rest last_try" "pumped (Confirm 0 3 ?w) sent w'"
    using confirm_resumes [OF e w rec, of 3 "\<lambda>_. True" 0 "[]"] by auto
  have "rest = []"
  proof (rule ccontr)
    assume "rest \<noteq> []"
    then have "sent = []" "rest = [?d]" using r(2) by (auto simp: Cons_eq_append_conv)
    then have "blocked w' 2" using r(3) by simp
    then show False using r(4) \<open>sent = []\<close> by (simp add: blocked_def pumped_def Confirm_def Baseline_def NewWindow_def Let_def)
  qed
  then have "sent = [?d]" "last_try = []" using r(2,3) by simp_all
  then show ?thesis using e r(1) by auto
qed

text \<open>
  A gap is reported and not papered over: when the engine no longer retains what follows the
  window's cursor, or the epoch has changed, the pump sends nothing, counts one lost gap and forgets the
  cursor, so that the next live delivery starts a new baseline.
\<close>

theorem lost_gap_rebaselines:
  assumes "engine_reachable hash seed cfg e" and "consumer_window channel c = Some w" and "wBaselined w" and "wEpoch w \<noteq> 0"
    and "wMaxCount w = 0 \<or> int (length (wInflight (Confirm offset t w))) < wMaxCount w"
    and "Recover channel (wDelivered w) (wEpoch w) e = None"
  shows "\<exists>c'. Consumer_Confirm engine_recover (\<lambda>s. (t, s)) deliver channel offset c (e, x) = Some (c', (e, x))
    \<and> cLostGaps c' = cLostGaps c + 1 \<and> consumer_window channel c' = Some (Reset (Confirm offset t w))
    \<and> PumpPoint (Reset (Confirm offset t w)) = (0, 0, 0)"
proof -
  let ?w = "Confirm offset t w"
  have ok: "engine_ok e" by (rule reachable_ok [OF assms(1)])
  obtain room where pp: "PumpPoint ?w = (wDelivered w, wEpoch w, room)" and room: "0 < room"
    using assms(3,5) by (auto simp: PumpPoint_def)
  have "RecoverN channel (wDelivered w) (wEpoch w) n e = None" for n
    using assms(6) RecoverN_Some [OF ok, of channel "wDelivered w" "wEpoch w" n] by (fastforce simp: Recover_def)
  then have "pump engine_recover (\<lambda>s. (t, s)) deliver channel ?w (cLostGaps c) (e, x) = Some (Reset ?w, cLostGaps c + 1, (e, x))"
    using pp room assms(4) by (simp add: pump.simps engine_recover_def)
  then show ?thesis
    using assms(2) consumer_window_cases [OF assms(2)]
    by (simp add: Consumer_Confirm_def) (simp add: consumer_window_def PumpPoint_def Reset_def)
qed

theorem lost_gap_rebaselines_witness:
  "\<exists>c'. Consumer_Confirm engine_recover (\<lambda>s. (3, s)) (taped (\<lambda>_. True)) ''news'' 0
      (put_window ''news'' (Baseline 0 99 (NewWindow 2 0 0 0)) (NewConsumer False)\<lparr>cActive := True\<rparr>) (demo_engine, []) = Some (c', (demo_engine, []))
    \<and> cLostGaps c' = 1"
proof -
  let ?w = "Baseline 0 99 (NewWindow 2 0 0 0)"
  let ?c = "put_window ''news'' ?w (NewConsumer False)\<lparr>cActive := True\<rparr>"
  have w: "consumer_window ''news'' ?c = Some ?w" "wBaselined ?w" "wEpoch ?w \<noteq> 0"
    "wMaxCount ?w = 0 \<or> int (length (wInflight (Confirm 0 3 ?w))) < wMaxCount ?w"
    by (simp_all add: consumer_window_def Baseline_def NewWindow_def Confirm_def)
  have "Recover ''news'' (wDelivered ?w) (wEpoch ?w) demo_engine = None"
    using demo_lookup by (auto simp: Recover_def RecoverN_def Baseline_def NewWindow_def)
  from lost_gap_rebaselines [OF demo_reachable w this, of "taped (\<lambda>_. True)" "[]"] show ?thesis
    by (auto simp: NewConsumer_def put_window_def)
qed

end
