(* ===== verification/Protocol.thy ===== *)
theory Protocol
  imports Client Consumer_Engine
begin

text \<open>
  Model of \<^verbatim>\<open>internal/protocol\<close> (\<^verbatim>\<open>ops.go\<close>, \<^verbatim>\<open>errors.go\<close>, \<^verbatim>\<open>types.go\<close>, \<^verbatim>\<open>protocol.go\<close>) and of the message
  dispatch of \<^verbatim>\<open>internal/ws/dispatch.go\<close>: the operations a client can ask for, run against the
  engine, the session's consumer and the session's state.

  A session is a record; what it sends is appended to \<open>psOut\<close>, in order. The token verifier is the
  parameter \<open>verify\<close>. \<open>accept\<close> says whether the send buffer takes a delivery. \<open>'w\<close> is the rest of
  the world: the other sessions, which \<open>deliver\<close> reaches, and the relay, which the hooks reach. A
  hook that the code calls through a nil field panics, so the operations that may do so return a
  \<open>result\<close>.
\<close>

section \<open>Codes, requests and responses\<close>

datatype ErrorCode = CodeUnknownMessage | CodeInvalidPayload | CodeNotAuthenticated | CodeAlreadySubscribed
  | CodeNotSubscribed | CodePermissionDenied | CodeMessageTooLarge | CodeSubscriptionLimit | CodeChannelNotFound
  | CodeInternal

definition SubscribeErrorCode :: "engine_error \<Rightarrow> ErrorCode" where
  "SubscribeErrorCode err =
     (if err = ErrAlreadySubscribed then CodeAlreadySubscribed
      else if err = ErrUnknownNamespace then CodeChannelNotFound
      else if err = ErrChannelFull then CodeSubscriptionLimit
      else if err = ErrWildcardDenied then CodePermissionDenied
      else CodeInternal)"

definition PublishErrorCode :: "engine_error \<Rightarrow> ErrorCode" where
  "PublishErrorCode err =
     (if err = ErrUnknownNamespace then CodeChannelNotFound
      else if err = ErrPublishDenied then CodePermissionDenied
      else CodeInternal)"

fun err_text :: "engine_error \<Rightarrow> string" where
  "err_text ErrAlreadySubscribed = ''engine: already subscribed to channel''"
| "err_text ErrUnknownNamespace = ''engine: unknown channel namespace''"
| "err_text ErrChannelFull = ''engine: channel subscriber limit reached''"
| "err_text ErrPublishDenied = ''engine: publish not allowed in namespace''"
| "err_text ErrWildcardDenied = ''engine: wildcard subscriptions not allowed in namespace''"

fun wsErrorCode :: "ErrorCode \<Rightarrow> string" where
  "wsErrorCode CodeUnknownMessage = ''UNKNOWN_MESSAGE''"
| "wsErrorCode CodeInvalidPayload = ''INVALID_PAYLOAD''"
| "wsErrorCode CodeNotAuthenticated = ''NOT_AUTHENTICATED''"
| "wsErrorCode CodeAlreadySubscribed = ''ALREADY_SUBSCRIBED''"
| "wsErrorCode CodeNotSubscribed = ''NOT_SUBSCRIBED''"
| "wsErrorCode CodePermissionDenied = ''PERMISSION_DENIED''"
| "wsErrorCode CodeMessageTooLarge = ''MESSAGE_TOO_LARGE''"
| "wsErrorCode CodeSubscriptionLimit = ''SUBSCRIPTION_LIMIT''"
| "wsErrorCode CodeChannelNotFound = ''CHANNEL_NOT_FOUND''"
| "wsErrorCode CodeInternal = ''INTERNAL''"

record ConnectRequest =
  cqAuthToken :: string
  cqProtocolVersion :: u32

record RefreshRequest =
  rqAuthToken :: string

record RecoverPoint =
  rpOffset :: u64
  rpEpoch :: u64

record CreditWindow =
  cwCount :: u32
  cwBytes :: u64

record SubscribeRequest =
  sqChannel :: string
  sqPriority :: int
  sqWindow :: CreditWindow
  sqHasWindow :: bool
  sqRecover :: RecoverPoint
  sqHasRecover :: bool

record PublishRequest =
  pqChannel :: string
  pqData :: bytes

datatype response =
    Connected string u32
  | Refreshed string u64
  | Subscribed string string bool bool
  | Unsubscribed string string
  | Published string string PublishResult
  | Pong string
  | ErrorResponse ErrorCode string string
  | ChannelMessage Delivery

definition maxChannelNameLen :: nat where
  "maxChannelNameLen = 256"

definition ServerProtocolVersion :: u32 where
  "ServerProtocolVersion = 2"

section \<open>Sessions\<close>

record Session =
  psID :: SubscriberID
  psState :: State
  psQoS :: Consumer
  psCid :: nat
  psSweeper :: Sweeper
  psMaxSubscriptions :: int
  psMaxMessageSize :: int
  psProtocolVersion :: u32
  psExpiry :: "int option"
  psOut :: "response list"

record 'w Hooks =
  hkOnSubscribed :: "(string \<Rightarrow> 'w \<Rightarrow> 'w) option"
  hkOnUnsubscribed :: "(string \<Rightarrow> 'w \<Rightarrow> 'w) option"
  hkPublishPlan :: "(string \<Rightarrow> 'w \<Rightarrow> (bool \<times> bool) \<times> 'w) option"
  hkForwardPublish :: "(string \<Rightarrow> bytes \<Rightarrow> 'w \<Rightarrow> 'w) option"

definition send :: "response \<Rightarrow> Session \<Rightarrow> Session" where
  "send r s = s\<lparr>psOut := psOut s @ [r]\<rparr>"

abbreviation SendError :: "ErrorCode \<Rightarrow> string \<Rightarrow> string \<Rightarrow> Session \<Rightarrow> Session" where
  "SendError code msg reqID s \<equiv> send (ErrorResponse code msg reqID) s"

text \<open>The session's delivery function: enqueue, or refuse when the send buffer is full.\<close>

definition produce :: "(Delivery \<Rightarrow> bool) \<Rightarrow> response list transport" where
  "produce accept d out = (if accept d then (True, out @ [ChannelMessage d]) else (False, out))"

section \<open>The operations\<close>

definition authed :: "Session \<Rightarrow> string \<Rightarrow> bool \<times> Session" where
  "authed s reqID =
     (if IsAuthenticated (psState s) then (True, s)
      else (False, SendError CodeNotAuthenticated ''not authenticated'' reqID s))"

definition validateChannel :: "string \<Rightarrow> bool" where
  "validateChannel name \<longleftrightarrow> length name > 0 \<and> length name \<le> maxChannelNameLen \<and> \<not> HasReserved name"

definition ScheduleExpiry :: "int option \<Rightarrow> Session \<Rightarrow> Session" where
  "ScheduleExpiry exp s = s\<lparr>psExpiry := exp\<rparr>"

definition Connect :: "(string \<Rightarrow> auth_error + Claims) \<Rightarrow> ConnectRequest \<Rightarrow> string \<Rightarrow> Session \<Rightarrow> Session" where
  "Connect verify req reqID s =
     (case verify (cqAuthToken req) of
        Inl err \<Rightarrow> SendError CodeNotAuthenticated ''authentication failed'' reqID s
      | Inr claims \<Rightarrow>
          if IsAuthenticated (psState s) \<and> Subject claims \<noteq> State_Subject (psState s)
          then SendError CodeNotAuthenticated ''connect subject mismatch'' reqID s
          else
            (let s1 = s\<lparr>psState := State_Authenticate claims (psState s)\<rparr>;
                 s2 = ScheduleExpiry (ExpiresAt claims) s1;
                 v = min (cqProtocolVersion req) ServerProtocolVersion;
                 version = (if v = 0 then 1 else v)
             in send (Connected reqID version) (s2\<lparr>psProtocolVersion := version\<rparr>)))"

definition Refresh :: "(string \<Rightarrow> auth_error + Claims) \<Rightarrow> RefreshRequest \<Rightarrow> string \<Rightarrow> Session \<Rightarrow> Session" where
  "Refresh verify req reqID s0 =
     (case authed s0 reqID of (ok, s) \<Rightarrow>
        if \<not> ok then s
        else
          (case verify (rqAuthToken req) of
             Inl err \<Rightarrow> SendError CodeNotAuthenticated ''authentication failed'' reqID s
           | Inr claims \<Rightarrow>
               if Subject claims \<noteq> State_Subject (psState s)
               then SendError CodeNotAuthenticated ''refresh subject mismatch'' reqID s
               else
                 (let s1 = s\<lparr>psState := State_Authenticate claims (psState s)\<rparr>;
                      s2 = ScheduleExpiry (ExpiresAt claims) s1;
                      exp = (case ExpiresAt claims of None \<Rightarrow> 0 | Some t \<Rightarrow> of_int t)
                  in send (Refreshed reqID exp) s2)))"

definition Ping :: "string \<Rightarrow> Session \<Rightarrow> Session" where
  "Ping reqID s = send (Pong reqID) s"

text \<open>\<open>None\<close> would mean that the pump does not return.\<close>

definition Op_Confirm :: "int \<Rightarrow> (Delivery \<Rightarrow> bool) \<Rightarrow> string \<Rightarrow> u64 \<Rightarrow> string \<Rightarrow> Session \<Rightarrow> Engine \<Rightarrow> Session option" where
  "Op_Confirm now accept channel offset reqID s0 e =
     (case authed s0 reqID of (ok, s) \<Rightarrow>
        if \<not> ok then Some s
        else
          (case Consumer_Confirm engine_recover (\<lambda>w. (now, w))
                  (\<lambda>d w. case produce accept d (snd w) of (b, out) \<Rightarrow> (b, (fst w, out)))
                  channel offset (psQoS s) (e, psOut s) of
             None \<Rightarrow> None
           | Some (c, (_, out)) \<Rightarrow> Some (s\<lparr>psQoS := c, psOut := out\<rparr>)))"

definition Unknown :: "string \<Rightarrow> Session \<Rightarrow> Session" where
  "Unknown reqID s0 =
     (case authed s0 reqID of (ok, s) \<Rightarrow>
        if \<not> ok then s else SendError CodeUnknownMessage ''unknown message type'' reqID s)"

definition on_subscribed :: "'w Hooks option \<Rightarrow> string \<Rightarrow> 'w \<Rightarrow> 'w" where
  "on_subscribed hooks channel w =
     (case hooks of None \<Rightarrow> w | Some h \<Rightarrow> (case hkOnSubscribed h of None \<Rightarrow> w | Some f \<Rightarrow> f channel w))"

definition subscribePattern :: "'w Hooks option \<Rightarrow> SubscribeRequest \<Rightarrow> string \<Rightarrow> Session \<Rightarrow> Engine \<Rightarrow> 'w
    \<Rightarrow> Session \<times> Engine \<times> 'w" where
  "subscribePattern hooks req reqID s e w =
     (if sqHasWindow req \<or> sqHasRecover req
      then (SendError CodeInvalidPayload ''wildcard subscriptions do not support qos or recovery'' reqID s, e, w)
      else
        (case SubscribePattern (psID s) (sqChannel req) e of
           (Some err, e1) \<Rightarrow> (SendError (SubscribeErrorCode err) (err_text err) reqID s, e1, w)
         | (None, e1) \<Rightarrow>
             (let s1 = s\<lparr>psState := snd (AddSubscription (sqChannel req) (psState s))\<rparr>;
                  w1 = on_subscribed hooks (sqChannel req) w
              in (send (Subscribed reqID (sqChannel req) False False) s1, e1, w1))))"

text \<open>The window a request asks for, before it is installed.\<close>

definition request_window :: "SubscribeRequest \<Rightarrow> int \<Rightarrow> int \<Rightarrow> Window" where
  "request_window req timeout maxRedeliveries =
     (let w = NewWindow (uint (cwCount (sqWindow req))) (sint (cwBytes (sqWindow req))) timeout maxRedeliveries
      in if sqHasRecover req then Baseline (rpOffset (sqRecover req)) (rpEpoch (sqRecover req)) w else w)"

text \<open>Handing the replay to the consumer, in order.\<close>

definition replay_all :: "int \<Rightarrow> (Delivery \<Rightarrow> bool) \<Rightarrow> Delivery list \<Rightarrow> Session \<Rightarrow> Session" where
  "replay_all now accept ds s =
     fold (\<lambda>d s. case Consumer_Deliver (\<lambda>w. (now, w)) (produce accept) d (psQoS s) (psOut s) of
             (_, c, out) \<Rightarrow> s\<lparr>psQoS := c, psOut := out\<rparr>) ds s"

text \<open>The exact half of \<^verbatim>\<open>Subscribe\<close>, from the installation of the window on.\<close>

definition subscribe_exact :: "int \<Rightarrow> u64 \<Rightarrow> (Delivery \<Rightarrow> bool) \<Rightarrow> 'w Hooks option \<Rightarrow> SubscribeRequest \<Rightarrow> string
    \<Rightarrow> Session \<Rightarrow> bool \<Rightarrow> Engine \<Rightarrow> 'w \<Rightarrow> Session \<times> Engine \<times> 'w" where
  "subscribe_exact now ep accept hooks req reqID s installed e w =
     (case SubscribePriority now ep (psID s) (sqChannel req) (sqPriority req) e of
        (Some err, e1) \<Rightarrow>
          (let s1 = (if installed
                     then (case Consumer_Unsubscribe (psCid s) (sqChannel req) (psQoS s) (psSweeper s) of
                             (c, sw) \<Rightarrow> s\<lparr>psQoS := c, psSweeper := sw\<rparr>)
                     else s)
           in (SendError (SubscribeErrorCode err) (err_text err) reqID s1, e1, w))
      | (None, e1) \<Rightarrow>
          (let s1 = s\<lparr>psState := snd (AddSubscription (sqChannel req) (psState s))\<rparr>;
               replay = (if sqHasRecover req
                         then Recover (sqChannel req) (rpOffset (sqRecover req)) (rpEpoch (sqRecover req)) e1
                         else None);
               w1 = on_subscribed hooks (sqChannel req) w;
               s2 = send (Subscribed reqID (sqChannel req) (replay \<noteq> None) (sqHasRecover req)) s1
           in (replay_all now accept (case replay of None \<Rightarrow> [] | Some ds \<Rightarrow> ds) s2, e1, w1)))"

definition Op_Subscribe :: "int \<Rightarrow> u64 \<Rightarrow> (Delivery \<Rightarrow> bool) \<Rightarrow> 'w Hooks option \<Rightarrow> SubscribeRequest \<Rightarrow> string
    \<Rightarrow> Session \<Rightarrow> Engine \<Rightarrow> 'w \<Rightarrow> Session \<times> Engine \<times> 'w" where
  "Op_Subscribe now ep accept hooks req reqID s0 e w =
     (case authed s0 reqID of (ok, s) \<Rightarrow>
        if \<not> ok then (s, e, w)
        else if \<not> validateChannel (sqChannel req)
          then (SendError CodeInvalidPayload ''invalid channel name'' reqID s, e, w)
        else if \<not> State_CanSubscribe (sqChannel req) (psState s)
          then (SendError CodePermissionDenied ''subscribe not allowed on channel'' reqID s, e, w)
        else if psMaxSubscriptions s > 0 \<and> SubscriptionCount (psState s) \<ge> psMaxSubscriptions s
          then (SendError CodeSubscriptionLimit ''subscription limit reached'' reqID s, e, w)
        else if IsPattern (sqChannel req) then subscribePattern hooks req reqID s e w
        else if sqHasWindow req then
          (case QoSPolicy (sqChannel req) e of (enabled, timeout, maxRedeliveries) \<Rightarrow>
             if \<not> enabled
             then (SendError CodePermissionDenied ''namespace does not offer at-least-once delivery'' reqID s, e, w)
             else
               (case Consumer_Subscribe (psCid s) (sqChannel req) (request_window req timeout maxRedeliveries)
                       (psQoS s) (psSweeper s) of
                  (installed, c, sw) \<Rightarrow>
                    subscribe_exact now ep accept hooks req reqID (s\<lparr>psQoS := c, psSweeper := sw\<rparr>) installed e w))
        else subscribe_exact now ep accept hooks req reqID s False e w)"

definition Op_Unsubscribe :: "int \<Rightarrow> 'w Hooks option \<Rightarrow> string \<Rightarrow> string \<Rightarrow> Session \<Rightarrow> Engine \<Rightarrow> 'w
    \<Rightarrow> Session \<times> Engine \<times> 'w" where
  "Op_Unsubscribe now hooks channel reqID s0 e w =
     (case authed s0 reqID of (ok, s) \<Rightarrow>
        if \<not> ok then (s, e, w)
        else if \<not> validateChannel channel
          then (SendError CodeInvalidPayload ''invalid channel name'' reqID s, e, w)
        else
          (case (if IsPattern channel then UnsubscribePattern (psID s) channel e else Unsubscribe now (psID s) channel e) of
             (removed, e1) \<Rightarrow>
               if \<not> removed
               then (SendError CodeNotSubscribed ''not subscribed to channel'' reqID s, e1, w)
               else
                 (case Consumer_Unsubscribe (psCid s) channel (psQoS s) (psSweeper s) of
                    (c, sw) \<Rightarrow>
                      (let s1 = s\<lparr>psState := RemoveSubscription channel (psState s), psQoS := c, psSweeper := sw\<rparr>;
                           w1 = (case hooks of None \<Rightarrow> w | Some h \<Rightarrow>
                                   (case hkOnUnsubscribed h of None \<Rightarrow> w | Some f \<Rightarrow> f channel w))
                       in (send (Unsubscribed reqID channel) s1, e1, w1)))))"

definition zero_result :: PublishResult where
  "zero_result = \<lparr>resChannel = [], resOffset = 0, resEpoch = 0, resDelivered = 0, resDropped = 0\<rparr>"

definition Op_Publish :: "int \<Rightarrow> u64 \<Rightarrow> string list \<Rightarrow> nat list \<Rightarrow> 'w DeliveryFunc \<Rightarrow> 'w Hooks option \<Rightarrow> PublishRequest \<Rightarrow> string
    \<Rightarrow> Session \<Rightarrow> Engine \<Rightarrow> 'w \<Rightarrow> (Session \<times> Engine \<times> 'w) result" where
  "Op_Publish now ep order sched deliver hooks req reqID s0 e w =
     (case authed s0 reqID of (ok, s) \<Rightarrow>
        if \<not> ok then Inr (s, e, w)
        else if \<not> validateChannel (pqChannel req) \<or> IsPattern (pqChannel req)
          then Inr (SendError CodeInvalidPayload ''invalid channel name'' reqID s, e, w)
        else if \<not> State_CanPublish (pqChannel req) (psState s)
          then Inr (SendError CodePermissionDenied ''publish not allowed on channel'' reqID s, e, w)
        else if psMaxMessageSize s > 0 \<and> int (length (pqData req)) > psMaxMessageSize s
          then Inr (SendError CodeMessageTooLarge ''message exceeds max size'' reqID s, e, w)
        else
          (case CheckPublish (pqChannel req) e of
             Some err \<Rightarrow> Inr (SendError (PublishErrorCode err) (err_text err) reqID s, e, w)
           | None \<Rightarrow>
               (case (case hooks of None \<Rightarrow> ((True, False), w) | Some h \<Rightarrow>
                        (case hkPublishPlan h of None \<Rightarrow> ((True, False), w) | Some plan \<Rightarrow> plan (pqChannel req) w)) of
                  ((local, forward), w1) \<Rightarrow>
                    (case (if local then Publish now ep order sched (pqChannel req) (pqData req) (psID s) deliver e w1
                           else Inr (zero_result, e, w1)) of
                       Inl p \<Rightarrow> Inl p
                     | Inr (r, e1, w2) \<Rightarrow>
                         (case (if \<not> forward then Inr w2
                                else (case hooks of None \<Rightarrow> Inl NilDereference | Some h \<Rightarrow>
                                        (case hkForwardPublish h of None \<Rightarrow> Inl NilDereference
                                         | Some f \<Rightarrow> Inr (f (pqChannel req) (pqData req) w2)))) of
                            Inl p \<Rightarrow> Inl p
                          | Inr w3 \<Rightarrow>
                              if reqID = [] then Inr (s, e1, w3)
                              else Inr (send (Published reqID (pqChannel req) r) s, e1, w3))))))"

section \<open>Dispatch\<close>

text \<open>The decoded WebSocket message: at most one of the requests is set by a well-behaved client.\<close>

record wsSubscribeRequest =
  wqChannel :: string
  wqRecover :: "RecoverPoint option"
  wqMaxUnconfirmed :: "CreditWindow option"
  wqPriority :: int

record ClientMessage =
  cmID :: string
  cmConnect :: "ConnectRequest option"
  cmSubscribe :: "wsSubscribeRequest option"
  cmUnsubscribe :: "string option"
  cmPublish :: "PublishRequest option"
  cmPing :: "unit option"
  cmRefresh :: "RefreshRequest option"
  cmConfirm :: "(string \<times> u64) option"

definition toSubscribe :: "wsSubscribeRequest \<Rightarrow> SubscribeRequest" where
  "toSubscribe req =
     \<lparr>sqChannel = wqChannel req, sqPriority = wqPriority req,
      sqWindow = (case wqMaxUnconfirmed req of None \<Rightarrow> \<lparr>cwCount = 0, cwBytes = 0\<rparr> | Some win \<Rightarrow> win),
      sqHasWindow = (wqMaxUnconfirmed req \<noteq> None),
      sqRecover = (case wqRecover req of None \<Rightarrow> \<lparr>rpOffset = 0, rpEpoch = 0\<rparr> | Some r \<Rightarrow> r),
      sqHasRecover = (wqRecover req \<noteq> None)\<rparr>"

text \<open>What a dispatch reads of its surroundings: clock, a fresh epoch, iteration orders, send buffer, verifier, peers.\<close>

record 'w env =
  envNow :: int
  envEpoch :: u64
  envOrder :: "string list"
  envSched :: "nat list"
  envAccept :: "Delivery \<Rightarrow> bool"
  envVerify :: "string \<Rightarrow> auth_error + Claims"
  envDeliver :: "'w DeliveryFunc"
  envHooks :: "'w Hooks option"

definition dispatchParsed :: "'w env \<Rightarrow> ClientMessage \<Rightarrow> Session \<Rightarrow> Engine \<Rightarrow> 'w \<Rightarrow> (Session \<times> Engine \<times> 'w) result option" where
  "dispatchParsed v msg s e w =
     (case cmConnect msg of Some req \<Rightarrow> Some (Inr (Connect (envVerify v) req (cmID msg) s, e, w)) | None \<Rightarrow>
     (case cmPing msg of Some _ \<Rightarrow> Some (Inr (Ping (cmID msg) s, e, w)) | None \<Rightarrow>
     (case cmRefresh msg of Some req \<Rightarrow> Some (Inr (Refresh (envVerify v) req (cmID msg) s, e, w)) | None \<Rightarrow>
     (case cmConfirm msg of Some (channel, offset) \<Rightarrow>
        map_option (\<lambda>s'. Inr (s', e, w)) (Op_Confirm (envNow v) (envAccept v) channel offset (cmID msg) s e) | None \<Rightarrow>
     (case cmSubscribe msg of Some req \<Rightarrow>
        Some (Inr (Op_Subscribe (envNow v) (envEpoch v) (envAccept v) (envHooks v) (toSubscribe req) (cmID msg) s e w)) | None \<Rightarrow>
     (case cmUnsubscribe msg of Some channel \<Rightarrow>
        Some (Inr (Op_Unsubscribe (envNow v) (envHooks v) channel (cmID msg) s e w)) | None \<Rightarrow>
     (case cmPublish msg of Some req \<Rightarrow>
        Some (Op_Publish (envNow v) (envEpoch v) (envOrder v) (envSched v) (envDeliver v) (envHooks v) req (cmID msg) s e w) | None \<Rightarrow>
      Some (Inr (Unknown (cmID msg) s, e, w)))))))))"

text \<open>\<open>unmarshal\<close> is the JSON decoder of Go's standard library.\<close>

definition DispatchMessage :: "(bytes \<Rightarrow> ClientMessage option) \<Rightarrow> 'w env \<Rightarrow> bytes \<Rightarrow> int \<Rightarrow> Session \<Rightarrow> Engine \<Rightarrow> 'w
    \<Rightarrow> (Session \<times> Engine \<times> 'w) result option" where
  "DispatchMessage unmarshal v data readLimit s e w =
     (if int (length data) > readLimit
      then Some (Inr (SendError CodeMessageTooLarge ''message too large'' [] s, e, w))
      else
        (case unmarshal data of
           None \<Rightarrow> Some (Inr (SendError CodeInvalidPayload ''invalid JSON'' [] s, e, w))
         | Some msg \<Rightarrow> dispatchParsed v msg s e w))"

section \<open>Authentication gates every operation\<close>

lemma send_fields [simp]:
  "psID (send r s) = psID s" "psState (send r s) = psState s" "psQoS (send r s) = psQoS s" "psCid (send r s) = psCid s"
  "psSweeper (send r s) = psSweeper s" "psMaxSubscriptions (send r s) = psMaxSubscriptions s"
  by (simp_all add: send_def)

lemma authed_False: "\<not> IsAuthenticated (psState s) \<Longrightarrow>
    authed s reqID = (False, SendError CodeNotAuthenticated ''not authenticated'' reqID s)"
  by (simp add: authed_def)

lemma authed_True: "IsAuthenticated (psState s) \<Longrightarrow> authed s reqID = (True, s)"
  by (simp add: authed_def)

text \<open>
  (C21) A client that has not authenticated can do nothing but connect and ping: every other
  message, whatever it asks for, is answered by exactly one authentication error and leaves the
  session, the engine and everything the engine and the relay hooks reach untouched.
\<close>

theorem unauthenticated_inert:
  assumes "\<not> IsAuthenticated (psState s)" and "cmConnect msg = None" and "cmPing msg = None"
  shows "dispatchParsed v msg s e w =
    Some (Inr (SendError CodeNotAuthenticated ''not authenticated'' (cmID msg) s, e, w))"
  using assms
  by (simp add: dispatchParsed_def authed_False Refresh_def Op_Confirm_def Op_Subscribe_def Op_Unsubscribe_def
      Op_Publish_def Unknown_def split: option.splits)

text \<open>A fresh session without a sweeper, and the empty message.\<close>

definition demo_session :: Session where
  "demo_session = \<lparr>psID = 42, psState = NewState 42, psQoS = NewConsumer False, psCid = 0, psSweeper = NewSweeper,
     psMaxSubscriptions = 10, psMaxMessageSize = 0, psProtocolVersion = 1, psExpiry = None, psOut = []\<rparr>"

definition no_message :: ClientMessage where
  "no_message = \<lparr>cmID = ''1'', cmConnect = None, cmSubscribe = None, cmUnsubscribe = None, cmPublish = None,
     cmPing = None, cmRefresh = None, cmConfirm = None\<rparr>"

definition demo_env :: "dlog env" where
  "demo_env = \<lparr>envNow = 1, envEpoch = 5, envOrder = [], envSched = [], envAccept = \<lambda>_. True, envVerify = InsecureVerify,
     envDeliver = recorder (\<lambda>_. True), envHooks = None\<rparr>"

theorem unauthenticated_inert_witness:
  "dispatchParsed demo_env (no_message\<lparr>cmPublish := Some \<lparr>pqChannel = ''news'', pqData = ''x''\<rparr>\<rparr>) demo_session demo_engine []
    = Some (Inr (SendError CodeNotAuthenticated ''not authenticated'' ''1'' demo_session, demo_engine, []))"
  using unauthenticated_inert [of demo_session "no_message\<lparr>cmPublish := Some \<lparr>pqChannel = ''news'', pqData = ''x''\<rparr>\<rparr>" demo_env demo_engine "[]"]
  by (simp add: demo_session_def no_message_def NewState_def IsAuthenticated_def)

end
