(* ===== verification/Session_Store.thy ===== *)
theory Session_Store
  imports Delivery
begin

text \<open>
  Model of \<^verbatim>\<open>internal/transport/transport.go\<close>: the map from subscriber identities to the sessions
  that receive their messages, flat for a dense range of slots and an overflow map for the rest. A
  sender is a value of a type \<open>'s\<close>; delivering is handing the message to the sender found, so
  \<open>Store_Deliver\<close> answers with it. Generations are \<open>u32\<close> counters that wrap, identities \<open>u64\<close>,
  with the same shifts and masks as the code.
\<close>

unbundle bit_operations_syntax

record 's sentry =
  enGen :: u32
  enSender :: 's

record 's SessionStore =
  ssBaseID :: u64
  ssArr :: "'s sentry option list"
  ssGen :: "u32 list"
  ssOverflow :: "(SubscriberID, 's) gomap"

definition genShift :: nat where
  "genShift = 32"

definition idMask :: u64 where
  "idMask = push_bit genShift 1 - 1"

definition NewSessionStore :: "'s SessionStore" where
  "NewSessionStore = \<lparr>ssBaseID = 0, ssArr = [], ssGen = [], ssOverflow = []\<rparr>"

definition NewFlatSessionStore :: "SubscriberID \<Rightarrow> int \<Rightarrow> 's SessionStore" where
  "NewFlatSessionStore baseID capacity =
     (if capacity \<le> 0 then NewSessionStore
      else \<lparr>ssBaseID = baseID, ssArr = replicate (nat capacity) None, ssGen = replicate (nat capacity) 0, ssOverflow = []\<rparr>)"

definition slotFor :: "SubscriberID \<Rightarrow> 's SessionStore \<Rightarrow> nat option" where
  "slotFor sid st =
     (if length (ssArr st) = 0 then None
      else
        (let n = (sid AND idMask) - ssBaseID st
         in if n \<ge> of_nat (length (ssArr st)) then None else Some (unat n)))"

definition genOf :: "SubscriberID \<Rightarrow> u32" where
  "genOf sid = ucast (drop_bit genShift sid)"

definition AllocID :: "SubscriberID \<Rightarrow> 's SessionStore \<Rightarrow> SubscriberID \<times> 's SessionStore" where
  "AllocID slotID st =
     (case slotFor slotID st of
        None \<Rightarrow> (slotID, st)
      | Some idx \<Rightarrow>
          (let g1 = ssGen st ! idx + 1;
               g = (if g1 = 0 then g1 + 1 else g1)
           in (push_bit genShift (ucast g) OR (slotID AND idMask), st\<lparr>ssGen := (ssGen st)[idx := g]\<rparr>)))"

definition Register :: "SubscriberID \<Rightarrow> 's option \<Rightarrow> 's SessionStore \<Rightarrow> 's SessionStore" where
  "Register sid sender st =
     (case sender of
        None \<Rightarrow> st
      | Some x \<Rightarrow>
          (case slotFor sid st of
             Some idx \<Rightarrow> st\<lparr>ssArr := (ssArr st)[idx := Some \<lparr>enGen = genOf sid, enSender = x\<rparr>]\<rparr>
           | None \<Rightarrow> st\<lparr>ssOverflow := gput sid x (ssOverflow st)\<rparr>))"

definition Unregister :: "SubscriberID \<Rightarrow> 's SessionStore \<Rightarrow> 's SessionStore" where
  "Unregister sid st =
     (case slotFor sid st of
        Some idx \<Rightarrow> st\<lparr>ssArr := (ssArr st)[idx := None]\<rparr>
      | None \<Rightarrow> st\<lparr>ssOverflow := gdel sid (ssOverflow st)\<rparr>)"

text \<open>The sender a message for \<open>sid\<close> is handed to; \<open>None\<close> is the answer \<^verbatim>\<open>false\<close>.\<close>

definition Store_Deliver :: "SubscriberID \<Rightarrow> 's SessionStore \<Rightarrow> 's option" where
  "Store_Deliver sid st =
     (case slotFor sid st of
        Some idx \<Rightarrow>
          (case ssArr st ! idx of
             None \<Rightarrow> None
           | Some e \<Rightarrow> if genOf sid \<noteq> 0 \<and> genOf sid \<noteq> enGen e then None else Some (enSender e))
      | None \<Rightarrow> gget (ssOverflow st) sid)"

section \<open>Identities\<close>

lemma idMask_mask: "idMask = mask 32"
  by (simp add: idMask_def genShift_def mask_eq_exp_minus_1)

lemma id_eqI:
  assumes "genOf a = genOf b" "a AND idMask = b AND idMask"
  shows "a = b"
proof (rule bit_word_eqI)
  fix n assume n: "n < LENGTH(64)"
  show "bit a n = bit b n"
  proof (cases "n < 32")
    case True
    have "bit (a AND idMask) n = bit (b AND idMask) n" using assms(2) by simp
    with True show ?thesis by (simp add: idMask_mask bit_and_iff bit_mask_iff)
  next
    case False
    then have "n - 32 < 32" "32 + (n - 32) = n" using n by simp_all
    moreover have "bit (genOf a) (n - 32) = bit (genOf b) (n - 32)" using assms(1) by simp
    ultimately show ?thesis by (simp add: genOf_def genShift_def bit_simps)
  qed
qed

lemma genOf_stamp: "genOf (push_bit genShift (ucast (g :: u32)) OR (sid AND idMask)) = g"
  by (rule bit_word_eqI) (auto simp: genOf_def genShift_def idMask_mask bit_simps)

lemma low_stamp: "(push_bit genShift (ucast (g :: u32)) OR (sid AND idMask)) AND idMask = sid AND idMask"
  by (rule bit_word_eqI) (auto simp: genShift_def idMask_mask bit_simps)

lemma slotFor_cong: "a AND idMask = b AND idMask \<Longrightarrow> slotFor a st = slotFor b st"
  by (simp add: slotFor_def)

lemma slotFor_less: "slotFor sid st = Some i \<Longrightarrow> i < length (ssArr st)"
  by (auto simp: slotFor_def Let_def word_le_nat_alt unat_of_nat not_le split: if_splits)

lemma slotFor_low: "slotFor a st = Some i \<Longrightarrow> slotFor b st = Some i \<Longrightarrow> a AND idMask = b AND idMask"
  by (auto simp: slotFor_def Let_def word_unat_eq_iff [symmetric] split: if_splits)

lemma slotFor_updates [simp]:
  "slotFor sid (st\<lparr>ssArr := (ssArr st)[i := x]\<rparr>) = slotFor sid st"
  "slotFor sid (st\<lparr>ssGen := g\<rparr>) = slotFor sid st" "slotFor sid (st\<lparr>ssOverflow := m\<rparr>) = slotFor sid st"
  by (simp_all add: slotFor_def)

section \<open>Executions\<close>

text \<open>
  The store in use, with two ghosts: the identities handed out and not registered yet, and the
  session each identity was registered for. Sessions register the identity they were given, once;
  an identity outside the flat range is never handed out twice (the transports count them up), and
  a slot's generation counter has not wrapped.
\<close>

type_synonym 's store_state = "'s SessionStore \<times> SubscriberID set \<times> (SubscriberID \<Rightarrow> 's option)"

inductive store_step :: "'s store_state \<Rightarrow> 's store_state \<Rightarrow> bool" where
  alloc: "AllocID slot st = (sid, st') \<Longrightarrow>
    (case slotFor slot st of Some i \<Rightarrow> ssGen st ! i + 1 \<noteq> 0 | None \<Rightarrow> slot \<notin> fresh \<and> owner slot = None) \<Longrightarrow>
    store_step (st, fresh, owner) (st', insert sid fresh, owner)"
| register: "sid \<in> fresh \<Longrightarrow> store_step (st, fresh, owner) (Register sid (Some x) st, fresh - {sid}, owner(sid \<mapsto> x))"
| unregister: "store_step (st, fresh, owner) (Unregister sid st, fresh, owner)"

definition store_ok :: "'s store_state \<Rightarrow> bool" where
  "store_ok = (\<lambda>(st, fresh, owner).
     length (ssGen st) = length (ssArr st) \<and> fresh \<inter> dom owner = {}
     \<and> (\<forall>sid i. sid \<in> fresh \<union> dom owner \<and> slotFor sid st = Some i \<longrightarrow> genOf sid \<noteq> 0 \<and> genOf sid \<le> ssGen st ! i)
     \<and> (\<forall>i < length (ssArr st). \<forall>e. ssArr st ! i = Some e \<longrightarrow>
          (\<exists>sid. slotFor sid st = Some i \<and> genOf sid = enGen e \<and> owner sid = Some (enSender e)))
     \<and> (\<forall>sid x. gget (ssOverflow st) sid = Some x \<longrightarrow> owner sid = Some x))"

lemma store_ok_new: "store_ok (NewFlatSessionStore base capacity, {}, Map.empty)"
  by (simp add: store_ok_def NewFlatSessionStore_def NewSessionStore_def)

lemma store_ok_arr:
  assumes "store_ok (st, fresh, owner)" "i < length (ssArr st)" "ssArr st ! i = Some e"
  shows "\<exists>sid. slotFor sid st = Some i \<and> genOf sid = enGen e \<and> owner sid = Some (enSender e)"
  using assms unfolding store_ok_def by blast

lemma store_ok_gen:
  assumes "store_ok (st, fresh, owner)" "sid \<in> fresh \<union> dom owner" "slotFor sid st = Some i"
  shows "genOf sid \<noteq> 0 \<and> genOf sid \<le> ssGen st ! i"
  using assms unfolding store_ok_def by blast

lemma store_ok_alloc:
  assumes "store_ok (st, fresh, owner)" "AllocID slot st = (sid, st')"
    and "case slotFor slot st of Some i \<Rightarrow> ssGen st ! i + 1 \<noteq> 0 | None \<Rightarrow> slot \<notin> fresh \<and> owner slot = None"
  shows "store_ok (st', insert sid fresh, owner)"
proof (cases "slotFor slot st")
  case None
  then show ?thesis using assms by (auto simp: store_ok_def AllocID_def)
next
  case (Some i)
  let ?g = "ssGen st ! i + 1"
  have g: "?g \<noteq> 0" using assms(3) Some by simp
  have sid: "sid = push_bit genShift (ucast ?g) OR (slot AND idMask)" and st': "st' = st\<lparr>ssGen := (ssGen st)[i := ?g]\<rparr>"
    using assms(2) Some g by (simp_all add: AllocID_def Let_def)
  have slot: "slotFor sid st = Some i" using Some slotFor_cong [OF low_stamp] unfolding sid by metis
  have gen: "genOf sid = ?g" unfolding sid by (rule genOf_stamp)
  have i: "i < length (ssGen st)" using slotFor_less [OF Some] assms(1) by (simp add: store_ok_def)
  have up: "ssGen st ! i < ?g" using g by (simp add: word_less_nat_alt unat_plus_1_wrap)
  have old: "genOf other \<noteq> 0 \<and> genOf other \<le> ssGen st ! j" if "other \<in> fresh \<union> dom owner" "slotFor other st = Some j" for other j
    using assms(1) that by (auto simp: store_ok_def)
  have "owner sid = None"
    using old [OF _ slot] gen up by (metis UnI2 domIff not_le)
  moreover have "genOf other \<noteq> 0 \<and> genOf other \<le> (ssGen st)[i := ?g] ! j"
    if "other \<in> insert sid fresh \<union> dom owner" "slotFor other st = Some j" for other j
  proof (cases "other = sid")
    case True
    then show ?thesis using that gen g slot i by simp
  next
    case False
    then have "genOf other \<noteq> 0 \<and> genOf other \<le> ssGen st ! j" using that by (intro old) auto
    then show ?thesis using up i by (cases "j = i") (auto dest: le_less_trans)
  qed
  ultimately show ?thesis using assms(1) st' by (auto simp: store_ok_def)
qed

lemma store_ok_register:
  assumes "store_ok (st, fresh, owner)" "sid \<in> fresh"
  shows "store_ok (Register sid (Some x) st, fresh - {sid}, owner(sid \<mapsto> x))"
proof -
  have none: "owner sid = None" using assms by (auto simp: store_ok_def)
  show ?thesis
  proof (cases "slotFor sid st")
    case None
    then show ?thesis using assms none by (auto simp: store_ok_def Register_def) (metis domI domIff option.distinct(1))+
  next
    case (Some i)
    let ?st = "st\<lparr>ssArr := (ssArr st)[i := Some \<lparr>enGen = genOf sid, enSender = x\<rparr>]\<rparr>"
    have "\<exists>other. slotFor other st = Some j \<and> genOf other = enGen e \<and> (owner(sid \<mapsto> x)) other = Some (enSender e)"
      if je: "j < length (ssArr st)" "ssArr ?st ! j = Some e" for j e
    proof (cases "j = i")
      case True
      then show ?thesis using je Some by (intro exI [of _ sid]) auto
    next
      case False
      then obtain other where "slotFor other st = Some j" "genOf other = enGen e" "owner other = Some (enSender e)"
        using store_ok_arr [OF assms(1) je(1)] je(2) by auto
      then show ?thesis using none by (intro exI [of _ other]) auto
    qed
    moreover have "genOf other \<noteq> 0 \<and> genOf other \<le> ssGen st ! j"
      if "other \<in> fresh - {sid} \<union> dom (owner(sid \<mapsto> x))" "slotFor other st = Some j" for other j
      using that assms(2) by (intro store_ok_gen [OF assms(1)]) (auto split: if_splits)
    moreover have "(fresh - {sid}) \<inter> dom (owner(sid \<mapsto> x)) = {}" "length (ssGen st) = length (ssArr st)"
      "\<forall>other y. gget (ssOverflow st) other = Some y \<longrightarrow> (owner(sid \<mapsto> x)) other = Some y"
      using assms(1) none by (auto simp: store_ok_def)
    ultimately have "store_ok (?st, fresh - {sid}, owner(sid \<mapsto> x))" unfolding store_ok_def by simp blast
    then show ?thesis using Some by (simp add: Register_def)
  qed
qed

lemma store_ok_step: "store_step a b \<Longrightarrow> store_ok a \<Longrightarrow> store_ok b"
proof (induction rule: store_step.induct)
  case (unregister st fresh owner sid)
  show ?case
  proof (cases "slotFor sid st")
    case (Some j)
    have "\<exists>sid. slotFor sid st = Some i \<and> genOf sid = enGen e \<and> owner sid = Some (enSender e)"
      if "i < length (ssArr st)" "(ssArr st)[j := None] ! i = Some e" for i e
      using store_ok_arr [OF unregister that(1)] that by (cases "i = j") simp_all
    then show ?thesis using unregister Some by (auto simp: store_ok_def Unregister_def)
  qed (use unregister in \<open>auto simp: store_ok_def Unregister_def\<close>)
qed (auto intro: store_ok_alloc store_ok_register)

lemma store_ok_reach: "store_step\<^sup>*\<^sup>* a b \<Longrightarrow> store_ok a \<Longrightarrow> store_ok b"
  by (induction rule: rtranclp_induct) (auto intro: store_ok_step)

lemma Store_Deliver_owner:
  assumes "store_ok (st, fresh, owner)" "owner sid = Some x" "Store_Deliver sid st = Some y"
  shows "y = x"
proof (cases "slotFor sid st")
  case None
  then show ?thesis using assms by (auto simp: Store_Deliver_def store_ok_def)
next
  case (Some i)
  then obtain e where e: "ssArr st ! i = Some e" "enSender e = y" "genOf sid = 0 \<or> genOf sid = enGen e"
    using assms(3) by (auto simp: Store_Deliver_def split: option.splits if_splits)
  have "genOf sid \<noteq> 0" using assms(1,2) Some by (auto simp: store_ok_def)
  moreover obtain other where other: "slotFor other st = Some i" "genOf other = enGen e" "owner other = Some (enSender e)"
    using store_ok_arr [OF assms(1) slotFor_less [OF Some] e(1)] by blast
  ultimately have "genOf sid = genOf other" using e(3) by simp
  then have "sid = other" using slotFor_low [OF Some other(1)] by (rule id_eqI)
  then show ?thesis using other(3) assms(2) e(2) by simp
qed

text \<open>
  (C16) A message never reaches the wrong session: in every execution in which sessions take
  identities from the store, register and unregister in any order, a delivery addressed to an
  identity reaches the session that identity was registered for or nobody, even after its slot has
  been given to other sessions; and from its registration on, the session is the one reached.
\<close>

theorem no_misdelivery:
  assumes "store_step\<^sup>*\<^sup>* (NewFlatSessionStore base capacity, {}, Map.empty) (st, fresh, owner)"
  shows "(\<forall>sid x. owner sid = Some x \<longrightarrow> Store_Deliver sid st = None \<or> Store_Deliver sid st = Some x)
    \<and> (\<forall>sid \<in> fresh. \<forall>x. Store_Deliver sid (Register sid (Some x) st) = Some x)"
proof -
  have ok: "store_ok (st, fresh, owner)" by (rule store_ok_reach [OF assms store_ok_new])
  have "Store_Deliver sid (Register sid (Some x) st) = Some x" for sid x
    using slotFor_less [of sid st] by (auto simp: Store_Deliver_def Register_def split: option.splits)
  then show ?thesis using Store_Deliver_owner [OF ok] by (metis option.exhaust)
qed

text \<open>Two sessions in turn on slot 5 of a flat store; the second identity has generation 2.\<close>

theorem no_misdelivery_witness:
  "\<exists>st fresh owner. store_step\<^sup>*\<^sup>* (NewFlatSessionStore 0 8, {}, Map.empty) (st, fresh, owner)
    \<and> owner 4294967301 = Some ''first'' \<and> owner 8589934597 = Some ''second''
    \<and> Store_Deliver 4294967301 st \<noteq> Some ''second''"
proof -
  let ?s0 = "NewFlatSessionStore 0 8 :: string SessionStore"
  let ?a = "4294967301 :: SubscriberID" and ?b = "8589934597 :: SubscriberID"
  let ?s1 = "snd (AllocID 5 ?s0)" let ?s2 = "Register ?a (Some ''first'') ?s1"
  let ?s3 = "snd (AllocID 5 ?s2)" let ?s4 = "Register ?b (Some ''second'') ?s3"
  have slot: "slotFor 5 ?s0 = Some 5" "slotFor ?a ?s0 = Some 5" "slotFor 5 ?s2 = Some 5"
    by (simp_all add: slotFor_def NewFlatSessionStore_def idMask_def genShift_def AllocID_def Register_def Let_def)
  have st1: "store_step (?s0, {}, Map.empty) (?s1, {?a}, Map.empty)"
    by (rule store_step.alloc [of 5]) (simp_all add: slot slotFor_def AllocID_def Let_def NewFlatSessionStore_def genShift_def idMask_def)
  have st2: "store_step (?s1, {?a}, Map.empty) (?s2, {}, [?a \<mapsto> ''first''])"
    using store_step.register [of ?a "{?a}" ?s1 Map.empty "''first''"] by simp
  have st3: "store_step (?s2, {}, [?a \<mapsto> ''first'']) (?s3, {?b}, [?a \<mapsto> ''first''])"
    by (rule store_step.alloc [of 5]) (simp_all add: slot slotFor_def AllocID_def Let_def NewFlatSessionStore_def genShift_def idMask_def Register_def)
  have st4: "store_step (?s3, {?b}, [?a \<mapsto> ''first'']) (?s4, {}, [?a \<mapsto> ''first'', ?b \<mapsto> ''second''])"
    using store_step.register [of ?b "{?b}" ?s3 "[?a \<mapsto> ''first'']" "''second''"] by simp
  note steps = converse_rtranclp_into_rtranclp
  have r: "store_step\<^sup>*\<^sup>* (?s0, {}, Map.empty) (?s4, {}, [?a \<mapsto> ''first'', ?b \<mapsto> ''second''])"
    by (rule steps [where r = store_step], rule st1, rule steps [where r = store_step], rule st2,
        rule steps [where r = store_step], rule st3, rule r_into_rtranclp, rule st4)
  from no_misdelivery [OF r] have "Store_Deliver ?a ?s4 \<noteq> Some ''second''" by (auto split: if_splits)
  with r show ?thesis by (intro exI conjI) (assumption | simp)+
qed

end
