(* ===== verification/Protocol_Props.thy ===== *)
theory Protocol_Props
  imports Protocol Session_Store
begin

text \<open>
  The session, the engine and the consumer stay in step: what a session records as its
  subscriptions is what the engine delivers to it, and it holds credit windows only for those.
\<close>

section \<open>The invariant of a session\<close>

text \<open>The channels and the patterns the engine has for a subscriber.\<close>

definition chans_of :: "SubscriberID \<Rightarrow> Engine \<Rightarrow> string set" where
  "chans_of i e = {n. (i, n) \<in> live_rel e}"

definition pats_of :: "SubscriberID \<Rightarrow> Engine \<Rightarrow> string set" where
  "pats_of i e = {p. (i, p) \<in> pattern_rel (ePatterns e)}"

definition held :: "Session \<Rightarrow> string set" where
  "held s = fst ` set (windows (psQoS s))"

definition session_ok :: "Session \<Rightarrow> Engine \<Rightarrow> bool" where
  "session_ok s e \<longleftrightarrow> engine_ok e \<and> gomap_ok (stSubscriptions (psState s))
     \<and> recorded (psState s) = chans_of (psID s) e \<union> pats_of (psID s) e
     \<and> (\<forall>n \<in> chans_of (psID s) e. \<not> IsPattern n) \<and> (\<forall>p \<in> pats_of (psID s) e. IsPattern p)
     \<and> windows_ok (psQoS s) \<and> held s \<subseteq> chans_of (psID s) e
     \<and> (0 < psMaxSubscriptions s \<longrightarrow> SubscriptionCount (psState s) \<le> psMaxSubscriptions s)"

text \<open>The parts of a session \<open>session_ok\<close> reads.\<close>

lemma session_ok_cong:
  assumes "session_ok s e" "psID s' = psID s" "psMaxSubscriptions s' = psMaxSubscriptions s"
    and "stSubscriptions (psState s') = stSubscriptions (psState s)" "windows_ok (psQoS s')" "held s' = held s"
    and "engine_ok e'" "chans_of (psID s) e' = chans_of (psID s) e" "pats_of (psID s) e' = pats_of (psID s) e"
  shows "session_ok s' e'"
  using assms by (simp add: session_ok_def recorded_def SubscriptionCount_def)

lemma session_ok_send [simp]: "session_ok (send r s) e = session_ok s e"
  by (simp add: session_ok_def held_def)

lemma held_books: "same_books (psQoS s) c \<Longrightarrow> held (s\<lparr>psQoS := c\<rparr>) = held s"
  by (simp add: held_def same_books_def)

lemma session_ok_books:
  assumes "session_ok s e" "windows_ok c" "same_books (psQoS s) c"
  shows "session_ok (s\<lparr>psQoS := c, psOut := out\<rparr>) e"
  by (rule session_ok_cong [OF assms(1)]) (use assms in \<open>auto simp: session_ok_def held_def same_books_def\<close>)

lemma relations_of:
  "live_rel e' = live_rel e \<Longrightarrow> chans_of i e' = chans_of i e"
  "pattern_rel (ePatterns e') = pattern_rel (ePatterns e) \<Longrightarrow> pats_of i e' = pats_of i e"
  by (simp_all add: chans_of_def pats_of_def)

lemma replay_all_ok:
  assumes "session_ok s e"
  shows "session_ok (replay_all now accept ds s) e"
  using assms
proof (induction ds arbitrary: s)
  case (Cons d ds)
  obtain b c out where r: "Consumer_Deliver (\<lambda>w. (now, w)) (produce accept) d (psQoS s) (psOut s) = (b, c, out)"
    by (metis prod_cases3)
  have "windows_ok (psQoS s)" using Cons.prems by (simp add: session_ok_def)
  from session_ok_books [OF Cons.prems] Consumer_Deliver_ok [OF this r]
  have "session_ok (s\<lparr>psQoS := c, psOut := out\<rparr>) e" by blast
  from Cons.IH [OF this] r show ?case by (simp add: replay_all_def)
qed (simp add: replay_all_def)

section \<open>The consumer's windows\<close>

lemma Consumer_Unsubscribe_windows:
  assumes "windows_ok c" "Consumer_Unsubscribe cid ch c sw = (c', sw')"
  shows "windows_ok c' \<and> windows c' = gdel ch (windows c)"
proof -
  have m: "windows (c\<lparr>cWindows := map_option (gdel ch) (cWindows c)\<rparr>) = gdel ch (windows c)"
    by (cases "cWindows c") (simp_all add: windows_def gdel_def)
  have "gdel ch (windows c) \<noteq> [] \<Longrightarrow> windows c \<noteq> []" by (auto simp: gdel_def)
  then show ?thesis
    using assms m by (auto simp: Consumer_Unsubscribe_def Let_def windows_ok_def split: if_splits)
qed

lemma Consumer_Subscribe_windows:
  assumes "windows_ok c" "window_ok w" "Consumer_Subscribe cid ch w c sw = (b, c', sw')"
  shows "windows_ok c' \<and> (b \<longleftrightarrow> ch \<notin> fst ` set (windows c))
    \<and> fst ` set (windows c') = (if b then insert ch (fst ` set (windows c)) else fst ` set (windows c))"
proof (cases "gget (windows c) ch")
  case None
  have m: "windows (c\<lparr>cWindows := Some (gput ch w (windows c)), cActive := True\<rparr>) = gput ch w (windows c)"
    by (simp add: windows_def)
  show ?thesis
    using assms None m set_gkeys [of ch "windows c"]
    by (auto simp: Consumer_Subscribe_def Let_def windows_ok_def split: if_splits)
next
  case (Some x)
  then show ?thesis using assms set_gkeys [of ch "windows c"] by (auto simp: Consumer_Subscribe_def)
qed

section \<open>Subscribing\<close>

text \<open>A successful subscription is recorded on both sides.\<close>

lemma session_ok_added:
  assumes "session_ok s e" "engine_ok e'" "0 < psMaxSubscriptions s \<longrightarrow> SubscriptionCount (psState s) < psMaxSubscriptions s"
    and "chans_of (psID s) e' = (if IsPattern ch then chans_of (psID s) e else insert ch (chans_of (psID s) e))"
    and "pats_of (psID s) e' = (if IsPattern ch then insert ch (pats_of (psID s) e) else pats_of (psID s) e)"
    and "windows_ok c" "fst ` set (windows c) \<subseteq> chans_of (psID s) e'"
  shows "session_ok (s\<lparr>psQoS := c, psSweeper := sw, psState := snd (AddSubscription ch (psState s))\<rparr>) e'"
proof -
  have "SubscriptionCount (snd (AddSubscription ch (psState s))) \<le> psMaxSubscriptions s" if "0 < psMaxSubscriptions s"
    using assms(3) that AddSubscription_fields(4) [of ch "psState s"] by linarith
  then show ?thesis using assms by (auto simp: session_ok_def held_def split: if_splits)
qed

lemma subscribePattern_ok:
  assumes "session_ok s e" "IsPattern (sqChannel req)"
    and "0 < psMaxSubscriptions s \<longrightarrow> SubscriptionCount (psState s) < psMaxSubscriptions s"
    and "subscribePattern hooks req reqID s e w = (s', e', w')"
  shows "session_ok s' e'"
proof (cases "sqHasWindow req \<or> sqHasRecover req")
  case True
  then show ?thesis using assms by (auto simp: subscribePattern_def)
next
  case False
  obtain err e1 where sub: "SubscribePattern (psID s) (sqChannel req) e = (err, e1)" by (metis prod.collapse)
  have ok: "engine_ok e" using assms(1) by (simp add: session_ok_def)
  note sp = SubscribePattern_spec [OF ok sub]
  show ?thesis
  proof (cases err)
    case (Some x)
    then have "chans_of (psID s) e1 = chans_of (psID s) e" "pats_of (psID s) e1 = pats_of (psID s) e"
      using sp(2,4) by (simp_all add: chans_of_def pats_of_def)
    then have "session_ok s e1"
      using session_ok_cong [OF assms(1), of s e1] assms(1) sp(1) by (simp add: session_ok_def)
    then show ?thesis using assms(4) False sub Some by (auto simp: subscribePattern_def)
  next
    case None
    have "session_ok (s\<lparr>psQoS := psQoS s, psSweeper := psSweeper s, psState := snd (AddSubscription (sqChannel req) (psState s))\<rparr>) e1"
      using assms(1,2) sp(2,4) None
      by (intro session_ok_added [OF assms(1) sp(1) assms(3)]) (auto simp: session_ok_def held_def chans_of_def pats_of_def)
    then show ?thesis using assms(4) False sub None by (auto simp: subscribePattern_def Let_def)
  qed
qed

text \<open>
  The exact half: \<open>s\<close> already holds the window it is about to use, if the request installed one;
  the windows other than that one are windows of subscribed channels.
\<close>

lemma subscribe_exact_ok:
  assumes "session_ok s0 e" "\<not> IsPattern (sqChannel req)"
    and "0 < psMaxSubscriptions s0 \<longrightarrow> SubscriptionCount (psState s0) < psMaxSubscriptions s0"
    and "s = s0\<lparr>psQoS := c, psSweeper := sw\<rparr>" "windows_ok c"
    and "if installed then fst ` set (windows c) = insert (sqChannel req) (held s0) \<and> sqChannel req \<notin> held s0
         else fst ` set (windows c) = held s0"
    and "subscribe_exact now ep accept hooks req reqID s installed e w = (s', e', w')"
  shows "session_ok s' e'"
proof -
  let ?ch = "sqChannel req"
  obtain err e1 where sub: "SubscribePriority now ep (psID s) ?ch (sqPriority req) e = (err, e1)" by (metis prod.collapse)
  have ok: "engine_ok e" using assms(1) by (simp add: session_ok_def)
  have sid: "psID s = psID s0" by (simp add: assms(4))
  note sp = SubscribePriority_spec [OF ok sub]
  have pats: "pats_of (psID s0) e1 = pats_of (psID s0) e" by (simp add: pats_of_def sp(2))
  show ?thesis
  proof (cases err)
    case (Some x)
    have chans: "chans_of (psID s0) e1 = chans_of (psID s0) e" using sp(4) Some by (simp add: chans_of_def)
    obtain c1 sw1 where un: "Consumer_Unsubscribe (psCid s) ?ch (psQoS s) (psSweeper s) = (c1, sw1)" by (metis prod.collapse)
    have w1: "windows_ok c1" "windows c1 = gdel ?ch (windows c)"
      using Consumer_Unsubscribe_windows [OF assms(5)] un by (auto simp: assms(4))
    show ?thesis
    proof (cases installed)
      case True
      then have "held (s\<lparr>psQoS := c1, psSweeper := sw1\<rparr>) = held s0"
        using assms(6) by (auto simp: held_def w1(2))
      then have "session_ok (s\<lparr>psQoS := c1, psSweeper := sw1\<rparr>) e1"
        using w1(1) chans pats sp(1) by (intro session_ok_cong [OF assms(1)]) (simp_all add: assms(4))
      then show ?thesis using assms(7) sub Some True un by (auto simp: subscribe_exact_def Let_def)
    next
      case False
      then have "session_ok s e1"
        using assms(5,6) chans pats sp(1) by (intro session_ok_cong [OF assms(1)]) (simp_all add: assms(4) held_def)
      then show ?thesis using assms(7) sub Some False by (auto simp: subscribe_exact_def Let_def)
    qed
  next
    case None
    have chans: "chans_of (psID s0) e1 = insert ?ch (chans_of (psID s0) e)"
      using sp(4) None sid by (auto simp: chans_of_def)
    have "held s0 \<subseteq> chans_of (psID s0) e" using assms(1) by (simp add: session_ok_def)
    then have sub1: "fst ` set (windows c) \<subseteq> chans_of (psID s0) e1" using assms(6) chans by (auto split: if_splits)
    have "session_ok (s0\<lparr>psQoS := c, psSweeper := sw, psState := snd (AddSubscription ?ch (psState s0))\<rparr>) e1"
      using assms(2,5) chans pats sub1 by (intro session_ok_added [OF assms(1) sp(1) assms(3)]) simp_all
    then have "session_ok (s\<lparr>psState := snd (AddSubscription ?ch (psState s))\<rparr>) e1"
      by (simp add: assms(4))
    then show ?thesis using assms(7) sub None by (auto simp: subscribe_exact_def Let_def intro!: replay_all_ok)
  qed
qed

lemma window_ok_request: "window_ok (request_window req timeout n)"
  by (simp add: request_window_def Let_def window_ok_NewWindow window_ok_Baseline)

lemma Op_Subscribe_ok:
  assumes "session_ok s e" "Op_Subscribe now ep accept hooks req reqID s e w = (s', e', w')"
  shows "session_ok s' e'"
proof (cases "IsAuthenticated (psState s) \<and> validateChannel (sqChannel req) \<and> State_CanSubscribe (sqChannel req) (psState s)
    \<and> \<not> (psMaxSubscriptions s > 0 \<and> SubscriptionCount (psState s) \<ge> psMaxSubscriptions s)")
  case False
  then show ?thesis using assms by (auto simp: Op_Subscribe_def authed_def split: if_splits)
next
  case True
  then have room: "0 < psMaxSubscriptions s \<longrightarrow> SubscriptionCount (psState s) < psMaxSubscriptions s" by auto
  have wok: "windows_ok (psQoS s)" using assms(1) by (simp add: session_ok_def)
  have self: "s = s\<lparr>psQoS := psQoS s, psSweeper := psSweeper s\<rparr>" by simp
  show ?thesis
  proof (cases "IsPattern (sqChannel req)")
    case pat: True
    then show ?thesis using assms True subscribePattern_ok [OF assms(1) pat room] by (simp add: Op_Subscribe_def authed_True)
  next
    case exact: False
    show ?thesis
    proof (cases "sqHasWindow req")
      case False
      then show ?thesis
        using assms(2) True exact subscribe_exact_ok [OF assms(1) exact room self wok, of False]
        by (simp add: Op_Subscribe_def authed_True held_def)
    next
      case win: True
      obtain enabled timeout n where pol: "QoSPolicy (sqChannel req) e = (enabled, timeout, n)" by (metis prod_cases3)
      obtain b c sw where sub: "Consumer_Subscribe (psCid s) (sqChannel req) (request_window req timeout n) (psQoS s) (psSweeper s) = (b, c, sw)"
        by (metis prod_cases3)
      note cs = Consumer_Subscribe_windows [OF wok window_ok_request sub]
      show ?thesis
      proof (cases enabled)
        case en: True
        have keys: "if b then fst ` set (windows c) = insert (sqChannel req) (held s) \<and> sqChannel req \<notin> held s
            else fst ` set (windows c) = held s" using cs by (simp add: held_def)
        have run: "subscribe_exact now ep accept hooks req reqID (s\<lparr>psQoS := c, psSweeper := sw\<rparr>) b e w = (s', e', w')"
          using assms(2) True exact win pol sub en by (simp add: Op_Subscribe_def authed_True)
        show ?thesis by (rule subscribe_exact_ok [OF assms(1) exact room refl conjunct1 [OF cs] keys run])
      next
        case False
        then show ?thesis using assms True exact win pol by (auto simp: Op_Subscribe_def authed_True)
      qed
    qed
  qed
qed

lemma Op_Unsubscribe_ok:
  assumes "session_ok s e" "Op_Unsubscribe now hooks channel reqID s e w = (s', e', w')"
  shows "session_ok s' e'"
proof (cases "IsAuthenticated (psState s) \<and> validateChannel channel")
  case False
  then show ?thesis using assms by (auto simp: Op_Unsubscribe_def authed_def split: if_splits)
next
  case True
  have ok: "engine_ok e" and wok: "windows_ok (psQoS s)" using assms(1) by (simp_all add: session_ok_def)
  obtain removed e1 where un: "(if IsPattern channel then UnsubscribePattern (psID s) channel e else Unsubscribe now (psID s) channel e) = (removed, e1)"
    by (metis prod.collapse)
  have rel: "engine_ok e1" "chans_of (psID s) e1 = (if IsPattern channel then chans_of (psID s) e else chans_of (psID s) e - {channel})"
    "pats_of (psID s) e1 = (if IsPattern channel then pats_of (psID s) e - {channel} else pats_of (psID s) e)"
    "removed \<longleftrightarrow> channel \<in> (if IsPattern channel then pats_of (psID s) e else chans_of (psID s) e)"
    using un UnsubscribePattern_spec [OF ok, of "psID s" channel removed e1] Unsubscribe_spec [OF ok, of now "psID s" channel removed e1]
    by (auto simp: chans_of_def pats_of_def split: if_splits)
  obtain c sw where cu: "Consumer_Unsubscribe (psCid s) channel (psQoS s) (psSweeper s) = (c, sw)" by (metis prod.collapse)
  note cw = Consumer_Unsubscribe_windows [OF wok cu]
  show ?thesis
  proof (cases removed)
    case False
    then have "session_ok s e1"
      using rel assms(1) by (intro session_ok_cong [OF assms(1)]) (auto simp: session_ok_def split: if_splits)
    then show ?thesis using assms(2) True un False by (auto simp: Op_Unsubscribe_def authed_True)
  next
    case rem: True
    let ?s = "s\<lparr>psState := RemoveSubscription channel (psState s), psQoS := c, psSweeper := sw\<rparr>"
    have "SubscriptionCount (RemoveSubscription channel (psState s)) \<le> psMaxSubscriptions s" if "0 < psMaxSubscriptions s"
      using order.trans [OF RemoveSubscription_fields(4) [of channel "psState s"]] assms(1) that by (simp add: session_ok_def)
    moreover have "recorded (RemoveSubscription channel (psState s)) = chans_of (psID s) e1 \<union> pats_of (psID s) e1"
      using assms(1) rel(2,3) by (auto simp: session_ok_def)
    moreover have "held ?s \<subseteq> chans_of (psID s) e1"
      using assms(1) cw rel(2) by (auto simp: session_ok_def held_def)
    ultimately have "session_ok ?s e1"
      using assms(1) cw rel(1-3) by (auto simp: session_ok_def split: if_splits)
    then show ?thesis using assms(2) True un rem cu by (auto simp: Op_Unsubscribe_def authed_True Let_def)
  qed
qed

section \<open>Executions of a session\<close>

text \<open>What other subscribers, publishers and the sweeper may do to the engine meanwhile.\<close>

inductive other_step :: "SubscriberID \<Rightarrow> Engine \<Rightarrow> Engine \<Rightarrow> bool" for sid where
  subscribe: "i \<noteq> sid \<Longrightarrow> SubscribePriority now ep i name prio e = (err, e') \<Longrightarrow> other_step sid e e'"
| unsubscribe: "i \<noteq> sid \<Longrightarrow> Unsubscribe now i name e = (ok, e') \<Longrightarrow> other_step sid e e'"
| unsubscribeAll: "i \<noteq> sid \<Longrightarrow> other_step sid e (UnsubscribeAll now i e)"
| subscribePattern: "i \<noteq> sid \<Longrightarrow> SubscribePattern i pat e = (err, e') \<Longrightarrow> other_step sid e e'"
| unsubscribePattern: "i \<noteq> sid \<Longrightarrow> UnsubscribePattern i pat e = (ok, e') \<Longrightarrow> other_step sid e e'"
| publish: "\<forall>ch. lookup channel e = Some ch \<longrightarrow> offset_room ch \<Longrightarrow>
    Publish now ep order sched channel data exclude deliver e (w :: dlog) = Inr (r, e', w') \<Longrightarrow> other_step sid e e'"
| sweep: "other_step sid e (sweep_tick now e)"

lemma other_step_ok:
  assumes "other_step sid e e'" "engine_ok e"
  shows "engine_ok e' \<and> chans_of sid e' = chans_of sid e \<and> pats_of sid e' = pats_of sid e"
  using assms(1)
proof cases
  case (subscribe i now ep name prio err)
  then show ?thesis using SubscribePriority_spec [OF assms(2) subscribe(2)] by (auto simp: chans_of_def pats_of_def)
next
  case (unsubscribe i now name ok)
  then show ?thesis using Unsubscribe_spec [OF assms(2) unsubscribe(2)] by (auto simp: chans_of_def pats_of_def)
next
  case (unsubscribeAll i now)
  then show ?thesis using UnsubscribeAll_spec [OF assms(2) refl, of now i] by (auto simp: chans_of_def pats_of_def)
next
  case (subscribePattern i pat err)
  then show ?thesis using SubscribePattern_spec [OF assms(2) subscribePattern(2)] by (auto simp: chans_of_def pats_of_def)
next
  case (unsubscribePattern i pat ok)
  then show ?thesis using UnsubscribePattern_spec [OF assms(2) unsubscribePattern(2)] by (auto simp: chans_of_def pats_of_def)
next
  case (publish channel now ep order sched data exclude deliver w r w')
  then show ?thesis using Publish_keeps [OF assms(2) publish] by (auto simp: chans_of_def pats_of_def)
next
  case (sweep now)
  then show ?thesis using sweep_tick_ok [OF assms(2), of now] by (auto simp: chans_of_def pats_of_def)
qed

text \<open>
  The life of a session: it dispatches messages, the engine moves on for others, deliveries arrive
  and the redelivery tick runs.
\<close>

inductive session_step :: "Session \<times> Engine \<Rightarrow> Session \<times> Engine \<Rightarrow> bool" where
  dispatch: "\<forall>req ch. cmPublish msg = Some req \<and> lookup (pqChannel req) e = Some ch \<longrightarrow> offset_room ch \<Longrightarrow>
    dispatchParsed v msg s e (w :: dlog) = Some (Inr (s', e', w')) \<Longrightarrow> session_step (s, e) (s', e')"
| others: "other_step (psID s) e e' \<Longrightarrow> session_step (s, e) (s, e')"
| delivered: "Consumer_Deliver (\<lambda>out. (now, out)) (produce accept) d (psQoS s) (psOut s) = (ok, c, out) \<Longrightarrow>
    session_step (s, e) (s\<lparr>psQoS := c, psOut := out\<rparr>, e)"
| ticked: "Consumer_Tick rec (\<lambda>out. (now, out)) (produce accept) (psQoS s) (psOut s) = Some (c, out) \<Longrightarrow>
    session_step (s, e) (s\<lparr>psQoS := c, psOut := out\<rparr>, e)"

lemma session_ok_claims:
  assumes "session_ok s e"
  shows "session_ok (s\<lparr>psState := State_Authenticate c (psState s)\<rparr>) e"
  by (rule session_ok_cong [OF assms]) (use assms in \<open>auto simp: session_ok_def held_def State_Authenticate_def\<close>)

lemma session_ok_other [simp]:
  "session_ok (s\<lparr>psExpiry := x\<rparr>) e = session_ok s e" "session_ok (s\<lparr>psProtocolVersion := v\<rparr>) e = session_ok s e"
  by (simp_all add: session_ok_def held_def)

lemma Connect_ok: "session_ok s e \<Longrightarrow> session_ok (Connect verify req reqID s) e"
  using session_ok_claims [of s e] by (auto simp: Connect_def Let_def ScheduleExpiry_def split: sum.splits)

lemma Refresh_ok: "session_ok s e \<Longrightarrow> session_ok (Refresh verify req reqID s) e"
  using session_ok_claims [of s e] by (auto simp: Refresh_def authed_def Let_def ScheduleExpiry_def split: sum.splits)

lemma Op_Confirm_ok:
  assumes "session_ok s e" "Op_Confirm now accept channel offset reqID s e = Some s'"
  shows "session_ok s' e"
proof (cases "IsAuthenticated (psState s)")
  case True
  have wok: "windows_ok (psQoS s)" using assms(1) by (simp add: session_ok_def)
  obtain c e1 out where r: "Consumer_Confirm engine_recover (\<lambda>w. (now, w))
      (\<lambda>d w. case produce accept d (snd w) of (b, out) \<Rightarrow> (b, (fst w, out))) channel offset (psQoS s) (e, psOut s) = Some (c, (e1, out))"
    and s': "s' = s\<lparr>psQoS := c, psOut := out\<rparr>"
    using assms(2) True by (auto simp: Op_Confirm_def authed_True split: option.splits)
  from Consumer_Confirm_ok [OF wok r] show ?thesis unfolding s' by (intro session_ok_books [OF assms(1)]) simp_all
qed (use assms in \<open>auto simp: Op_Confirm_def authed_def\<close>)

lemma Op_Publish_ok:
  assumes "session_ok s e" "\<forall>ch. lookup (pqChannel req) e = Some ch \<longrightarrow> offset_room ch"
    and "Op_Publish now ep order sched deliver hooks req reqID s e w = Inr (s', e', w')"
  shows "session_ok s' e'"
proof -
  have ok: "engine_ok e" using assms(1) by (simp add: session_ok_def)
  have "(e' = e \<or> (\<exists>r w1 w2. Publish now ep order sched (pqChannel req) (pqData req) (psID s) deliver e w1 = Inr (r, e', w2)))
      \<and> (s' = s \<or> (\<exists>resp. s' = send resp s))"
    using assms(3)
    by (auto simp: Op_Publish_def authed_def split: if_splits option.splits prod.splits sum.splits)
  then have keep: "engine_ok e' \<and> live_rel e' = live_rel e \<and> pattern_rel (ePatterns e') = pattern_rel (ePatterns e)"
    and s': "s' = s \<or> (\<exists>resp. s' = send resp s)"
    using ok by (auto dest: Publish_keeps [OF ok assms(2)])
  have "session_ok s e'"
    using keep assms(1) by (intro session_ok_cong [OF assms(1)]) (auto simp: session_ok_def held_def chans_of_def pats_of_def)
  with s' show ?thesis by auto
qed

lemma dispatchParsed_ok:
  assumes "session_ok s e" "\<forall>req ch. cmPublish msg = Some req \<and> lookup (pqChannel req) e = Some ch \<longrightarrow> offset_room ch"
    and "dispatchParsed v msg s e w = Some (Inr (s', e', w'))"
  shows "session_ok s' e'"
  using assms(3) Connect_ok [OF assms(1)] Refresh_ok [OF assms(1)] Op_Confirm_ok [OF assms(1)]
    Op_Publish_ok [OF assms(1)] assms(1,2)
  by (auto simp: dispatchParsed_def Ping_def Unknown_def authed_def split: option.splits prod.splits if_splits
      dest: Op_Subscribe_ok [OF assms(1)] Op_Unsubscribe_ok [OF assms(1)])

lemma session_ok_step:
  assumes "session_step a b" "session_ok (fst a) (snd a)"
  shows "session_ok (fst b) (snd b)"
  using assms(1)
proof cases
  case (dispatch msg e v s w s' e' w')
  then show ?thesis using dispatchParsed_ok [OF _ dispatch(3,4)] assms(2) by simp
next
  case (others s e e')
  then have ok: "session_ok s e" "engine_ok e" using assms(2) by (simp_all add: session_ok_def)
  from other_step_ok [OF others(3) ok(2)] session_ok_cong [OF ok(1), of s e'] ok(1) others show ?thesis
    by (simp add: session_ok_def)
next
  case (delivered now accept d s ok c out e)
  then have ok: "session_ok s e" "windows_ok (psQoS s)" using assms(2) by (simp_all add: session_ok_def)
  from Consumer_Deliver_ok [OF ok(2) delivered(3)] session_ok_books [OF ok(1)] delivered show ?thesis by simp
next
  case (ticked rec now accept s c out e)
  then have ok: "session_ok s e" "windows_ok (psQoS s)" using assms(2) by (simp_all add: session_ok_def)
  from Consumer_Tick_ok [OF ok(2) ticked(3)] session_ok_books [OF ok(1)] ticked show ?thesis by simp
qed

lemma session_ok_reach:
  assumes "session_step\<^sup>*\<^sup>* a b" "session_ok (fst a) (snd a)"
  shows "session_ok (fst b) (snd b)"
  using assms by (induction rule: rtranclp_induct) (auto intro: session_ok_step)

text \<open>A new session on a running engine, with an identity nobody has subscribed.\<close>

definition session_start :: "Session \<Rightarrow> Engine \<Rightarrow> bool" where
  "session_start s e \<longleftrightarrow> stSubscriptions (psState s) = [] \<and> cWindows (psQoS s) = None \<and> \<not> cActive (psQoS s)
     \<and> chans_of (psID s) e = {} \<and> pats_of (psID s) e = {}"

lemma session_ok_start: "engine_ok e \<Longrightarrow> session_start s e \<Longrightarrow> session_ok s e"
  by (simp add: session_ok_def session_start_def recorded_def held_def windows_def windows_ok_def SubscriptionCount_def)

text \<open>
  (C22) A session, the engine and the consumer never disagree about what the client is subscribed
  to: in every execution of a session, with other clients, publications, live deliveries and
  redelivery ticks in between, the channels and patterns the session records are exactly the ones
  the engine delivers to it, it holds a credit window only for a channel it is subscribed to (so a
  failed subscribe rolls its window back and never another's), and its subscription limit holds.
\<close>

theorem session_consistent:
  assumes "engine_reachable hash seed cfg e0" and "session_start s0 e0" and "session_step\<^sup>*\<^sup>* (s0, e0) (s, e)"
  shows "recorded (psState s) = {n. (psID s, n) \<in> live_rel e} \<union> {p. (psID s, p) \<in> pattern_rel (ePatterns e)}
    \<and> (\<forall>channel w. consumer_window channel (psQoS s) = Some w \<longrightarrow> (psID s, channel) \<in> live_rel e)
    \<and> (0 < psMaxSubscriptions s \<longrightarrow> SubscriptionCount (psState s) \<le> psMaxSubscriptions s)"
proof -
  have "session_ok s0 e0" using reachable_ok(1) [OF assms(1)] assms(2) by (rule session_ok_start)
  then have ok: "session_ok s e" using session_ok_reach [OF assms(3)] by simp
  have "(psID s, channel) \<in> live_rel e" if "consumer_window channel (psQoS s) = Some w" for channel w
    using consumer_window_cases(2) [OF that] ok set_gkeys [of channel "windows (psQoS s)"]
    by (auto simp: session_ok_def held_def chans_of_def)
  then show ?thesis using ok by (auto simp: session_ok_def chans_of_def pats_of_def)
qed

text \<open>An authenticated session that subscribes to one channel.\<close>

definition demo_peer :: Session where
  "demo_peer = demo_session\<lparr>psID := 77, psState := State_Authenticate zero_claims (NewState 77)\<rparr>"

theorem session_consistent_witness:
  "\<exists>s e. session_step\<^sup>*\<^sup>* (demo_peer, demo_start) (s, e) \<and> recorded (psState s) = {''n*''}
    \<and> {n. (psID s, n) \<in> live_rel e} \<union> {p. (psID s, p) \<in> pattern_rel (ePatterns e)} = {''n*''}"
proof -
  let ?msg = "no_message\<lparr>cmSubscribe := Some \<lparr>wqChannel = ''n*'', wqRecover = None, wqMaxUnconfirmed = None, wqPriority = 0\<rparr>\<rparr>"
  note new = engine_ok_New [OF demo_cfg_ok, of "\<lambda>_. 0" "\<lambda>_. 0", folded demo_start_def]
  have start: "session_start demo_peer demo_start"
    by (simp add: session_start_def demo_peer_def demo_session_def NewState_def NewConsumer_def State_Authenticate_def
        chans_of_def pats_of_def new)
  have reach: "engine_reachable (\<lambda>_. 0) (\<lambda>_. 0) demo_cfg demo_start"
    by (simp add: engine_reachable_def demo_cfg_ok demo_start_def)
  have "cfgNamespaces (eConfig demo_start) = None"
    by (simp add: demo_start_def New_def demo_cfg_def WithHistory_def defaultConfig_def Let_def)
  from first_pattern(1) [OF new(1,3) this, where sid = 77 and pat = "''n*''"]
  obtain e where sub: "SubscribePattern 77 ''n*'' demo_start = (None, e)" by (metis prod.collapse)
  let ?s = "send (Subscribed ''1'' ''n*'' False False) (demo_peer\<lparr>psState := snd (AddSubscription ''n*'' (psState demo_peer))\<rparr>)"
  have "dispatchParsed demo_env ?msg demo_peer demo_start ([] :: dlog) = Some (Inr (?s, e, []))"
    using sub
    by (simp add: dispatchParsed_def no_message_def demo_env_def Op_Subscribe_def authed_True demo_peer_def demo_session_def
        State_Authenticate_def IsAuthenticated_def toSubscribe_def validateChannel_def maxChannelNameLen_def HasReserved_def
        reserved_chars_def State_CanSubscribe_def CanSubscribe_def matchAny_def zero_claims_def NewState_def SubscriptionCount_def
        IsPattern_def star_char_def subscribePattern_def on_subscribed_def authed_def Let_def)
  then have "session_step (demo_peer, demo_start) (?s, e)"
    by (intro session_step.dispatch) (auto simp: no_message_def)
  then have r: "session_step\<^sup>*\<^sup>* (demo_peer, demo_start) (?s, e)" by blast
  have "recorded (psState ?s) = {''n*''}"
    by (simp add: demo_peer_def NewState_def State_Authenticate_def) (simp add: recorded_def)
  with session_consistent [OF reach start r] r show ?thesis by (intro exI [of _ ?s] exI [of _ e]) simp
qed

section \<open>Publishing\<close>

text \<open>Everything a publication is checked for.\<close>

definition may_publish :: "PublishRequest \<Rightarrow> Session \<Rightarrow> Engine \<Rightarrow> bool" where
  "may_publish req s e \<longleftrightarrow> IsAuthenticated (psState s) \<and> validateChannel (pqChannel req) \<and> \<not> IsPattern (pqChannel req)
     \<and> State_CanPublish (pqChannel req) (psState s)
     \<and> (0 < psMaxMessageSize s \<longrightarrow> int (length (pqData req)) \<le> psMaxMessageSize s) \<and> CheckPublish (pqChannel req) e = None"

text \<open>
  A client publishes only what it may: a publish request that fails any check (authentication,
  channel name, grant, message size, namespace policy) is answered by exactly one error and reaches
  neither the engine nor any other session; one that passes them all, on a transport without relay
  hooks, is exactly the engine's publication with the client itself excluded, acknowledged with its
  result exactly when the client gave a request id.
\<close>

theorem publish_op_exact:
  "(\<not> may_publish req s e \<longrightarrow>
      (\<exists>code msg. Op_Publish now ep order sched deliver hooks req reqID s e w = Inr (SendError code msg reqID s, e, w)))
   \<and> (may_publish req s e \<longrightarrow>
      Op_Publish now ep order sched deliver None req reqID s e w =
        (case Publish now ep order sched (pqChannel req) (pqData req) (psID s) deliver e w of
           Inl p \<Rightarrow> Inl p
         | Inr (r, e1, w1) \<Rightarrow> Inr (if reqID = [] then s else send (Published reqID (pqChannel req) r) s, e1, w1)))"
proof (intro conjI impI)
  assume "\<not> may_publish req s e"
  then show "\<exists>code msg. Op_Publish now ep order sched deliver hooks req reqID s e w = Inr (SendError code msg reqID s, e, w)"
  proof -
    from \<open>\<not> may_publish req s e\<close> consider
        (auth) "\<not> IsAuthenticated (psState s)"
      | (name) "IsAuthenticated (psState s)" "\<not> validateChannel (pqChannel req) \<or> IsPattern (pqChannel req)"
      | (grant) "IsAuthenticated (psState s)" "validateChannel (pqChannel req)" "\<not> IsPattern (pqChannel req)"
          "\<not> State_CanPublish (pqChannel req) (psState s)"
      | (sz) "IsAuthenticated (psState s)" "validateChannel (pqChannel req)" "\<not> IsPattern (pqChannel req)"
          "State_CanPublish (pqChannel req) (psState s)" "psMaxMessageSize s > 0" "int (length (pqData req)) > psMaxMessageSize s"
      | (ns) err where "IsAuthenticated (psState s)" "validateChannel (pqChannel req)" "\<not> IsPattern (pqChannel req)"
          "State_CanPublish (pqChannel req) (psState s)" "\<not> (psMaxMessageSize s > 0 \<and> int (length (pqData req)) > psMaxMessageSize s)"
          "CheckPublish (pqChannel req) e = Some err"
      by (metis may_publish_def not_le option.exhaust)
    then show ?thesis
    proof cases
      case auth
      then show ?thesis unfolding Op_Publish_def authed_False [OF auth] by auto
    next
      case name
      then show ?thesis unfolding Op_Publish_def authed_True [OF name(1)] prod.case by simp blast
    next
      case grant
      then show ?thesis unfolding Op_Publish_def authed_True [OF grant(1)] prod.case by simp blast
    next
      case sz
      then show ?thesis unfolding Op_Publish_def authed_True [OF sz(1)] prod.case by simp blast
    next
      case ns
      then show ?thesis unfolding Op_Publish_def authed_True [OF ns(1)] prod.case by simp blast
    qed
  qed
next
  assume ok: "may_publish req s e"
  then have fits: "\<not> (psMaxMessageSize s > 0 \<and> int (length (pqData req)) > psMaxMessageSize s)"
    by (auto simp: may_publish_def)
  from ok show "Op_Publish now ep order sched deliver None req reqID s e w =
        (case Publish now ep order sched (pqChannel req) (pqData req) (psID s) deliver e w of
           Inl p \<Rightarrow> Inl p
         | Inr (r, e1, w1) \<Rightarrow> Inr (if reqID = [] then s else send (Published reqID (pqChannel req) r) s, e1, w1))"
    by (simp add: may_publish_def Op_Publish_def authed_True fits del: not_less split: sum.split)
qed

theorem publish_op_exact_witness:
  "\<exists>code msg. Op_Publish 1 5 [] [] (recorder (\<lambda>_. True)) None \<lparr>pqChannel = ''n*'', pqData = ''x''\<rparr> ''1'' demo_peer demo_engine []
    = Inr (SendError code msg ''1'' demo_peer, demo_engine, [])"
proof -
  have "\<not> may_publish \<lparr>pqChannel = ''n*'', pqData = ''x''\<rparr> demo_peer demo_engine"
    by (simp add: may_publish_def IsPattern_def star_char_def)
  with publish_op_exact [of "\<lparr>pqChannel = ''n*'', pqData = ''x''\<rparr>" demo_peer demo_engine 1 5 "[]" "[]" "recorder (\<lambda>_. True)" None "''1''" "[]"]
  show ?thesis by blast
qed

end
