(* ===== verification/Ring.thy ===== *)
theory Ring
  imports Prelude
begin

text \<open>
  Model of \<^verbatim>\<open>internal/ringbuf/pointerring.go\<close>: the bounded ring each session's sender drains. Every
  operation is taken as atomic here; positions and sequence numbers are \<open>u64\<close> and wrap, slots are
  found by masking, and the comparison \<^verbatim>\<open>int64(seq) - int64(pos)\<close> is the signed reading of the
  wrapped difference.

  The retry of \<^verbatim>\<open>TryProduce\<close> (another producer moved the head) has no effect of its own, so a
  retry that would find the same state again is \<open>None\<close>: the call does not return.
\<close>

unbundle bit_operations_syntax

record 'a pointerSlot =
  rsSeq :: u64
  rsPtr :: "'a option"

record 'a PointerRing =
  rgHead :: u64
  rgTail :: u64
  rgMask :: u64
  rgCap :: u64
  rgSlots :: "'a pointerSlot list"

text \<open>The error \<^verbatim>\<open>ErrCapacity\<close> is \<open>None\<close>.\<close>

definition NewPointer :: "int \<Rightarrow> 'a PointerRing option" where
  "NewPointer capacity =
     (if capacity < 2 \<or> capacity AND (capacity - 1) \<noteq> 0 then None
      else Some \<lparr>rgHead = 0, rgTail = 0, rgMask = of_int (capacity - 1), rgCap = of_int capacity,
        rgSlots = map (\<lambda>i. \<lparr>rsSeq = of_nat i, rsPtr = None\<rparr>) [0..<nat capacity]\<rparr>)"

definition slot_at :: "u64 \<Rightarrow> 'a PointerRing \<Rightarrow> nat" where
  "slot_at pos r = unat (pos AND rgMask r)"

definition TryProduce :: "'a option \<Rightarrow> 'a PointerRing \<Rightarrow> (bool \<times> 'a PointerRing) option" where
  "TryProduce v r =
     (if v = None then Some (False, r)
      else
        (let pos = rgHead r; i = slot_at pos r; diff = sint (rsSeq (rgSlots r ! i) - pos)
         in if diff = 0
            then Some (True, r\<lparr>rgHead := pos + 1, rgSlots := (rgSlots r)[i := \<lparr>rsSeq = pos + 1, rsPtr = v\<rparr>]\<rparr>)
            else if diff < 0 then Some (False, r)
            else None))"

definition TryConsume :: "'a PointerRing \<Rightarrow> ('a option \<times> bool) \<times> 'a PointerRing" where
  "TryConsume r =
     (let pos = rgTail r; i = slot_at pos r; slot = rgSlots r ! i
      in if rsSeq slot \<noteq> pos + 1 then ((None, False), r)
         else ((rsPtr slot, True),
               r\<lparr>rgSlots := (rgSlots r)[i := \<lparr>rsSeq = pos + rgCap r, rsPtr = None\<rparr>], rgTail := pos + 1\<rparr>))"

section \<open>Bounded queues\<close>

text \<open>
  What a sender relies on: a queue that takes an item exactly when it holds fewer than its
  capacity, gives items back in the order they were taken, and always answers.
\<close>

locale bounded_queue =
  fixes enq :: "'a option \<Rightarrow> 'q \<Rightarrow> (bool \<times> 'q) option" and deq :: "'q \<Rightarrow> ('a option \<times> bool) \<times> 'q"
    and ok :: "nat \<Rightarrow> 'a list \<Rightarrow> 'q \<Rightarrow> bool"
  assumes enq_room: "ok cap xs q \<Longrightarrow> length xs < cap \<Longrightarrow> \<exists>q'. enq (Some x) q = Some (True, q') \<and> ok cap (xs @ [x]) q'"
    and enq_full: "ok cap xs q \<Longrightarrow> length xs = cap \<Longrightarrow> enq (Some x) q = Some (False, q)"
    and deq_Nil: "ok cap [] q \<Longrightarrow> deq q = ((None, False), q)"
    and deq_Cons: "ok cap (x # xs) q \<Longrightarrow> \<exists>q'. deq q = ((Some x, True), q') \<and> ok cap xs q'"
    and ok_bound: "ok cap xs q \<Longrightarrow> length xs \<le> cap"
begin

lemma enq_spec:
  assumes "ok cap xs q"
  shows "\<exists>q'. enq (Some x) q = Some (length xs < cap, q') \<and> ok cap (if length xs < cap then xs @ [x] else xs) q'"
proof (cases "length xs < cap")
  case True
  then show ?thesis using enq_room [OF assms] by simp
next
  case False
  then show ?thesis using enq_full [OF assms] assms ok_bound [OF assms] by simp
qed

lemma deq_spec:
  assumes "ok cap xs q"
  shows "\<exists>q'. deq q = ((case xs of [] \<Rightarrow> None | x # _ \<Rightarrow> Some x, xs \<noteq> []), q') \<and> ok cap (tl xs) q'"
proof (cases xs)
  case Nil
  then show ?thesis using assms deq_Nil by simp
next
  case (Cons x ys)
  then show ?thesis using assms deq_Cons by auto
qed

end

section \<open>The ring's invariant\<close>

text \<open>
  Seen from the tail, the slots hold the queued items, numbered one past their position, and then
  free slots, numbered with the position that will fill them.
\<close>

definition slot_for :: "u64 \<Rightarrow> 'a list \<Rightarrow> nat \<Rightarrow> 'a pointerSlot" where
  "slot_for tail xs k =
     (if k < length xs then \<lparr>rsSeq = tail + of_nat k + 1, rsPtr = Some (xs ! k)\<rparr>
      else \<lparr>rsSeq = tail + of_nat k, rsPtr = None\<rparr>)"

definition ring_ok :: "nat \<Rightarrow> 'a list \<Rightarrow> 'a PointerRing \<Rightarrow> bool" where
  "ring_ok cap xs r \<longleftrightarrow> is_pow2 cap \<and> 2 \<le> cap \<and> cap \<le> 2 ^ 62 \<and> length (rgSlots r) = cap
     \<and> rgMask r = of_nat cap - 1 \<and> rgCap r = of_nat cap \<and> length xs \<le> cap
     \<and> rgHead r = rgTail r + of_nat (length xs)
     \<and> (\<forall>k < cap. rgSlots r ! slot_at (rgTail r + of_nat k) r = slot_for (rgTail r) xs k)"

lemma pow2_dvd: "is_pow2 n \<Longrightarrow> n \<le> 2 ^ m \<Longrightarrow> n dvd 2 ^ m"
  by (auto simp: is_pow2_def intro: le_imp_power_dvd)

lemma slot_at_mod:
  assumes "is_pow2 cap" "cap \<le> 2 ^ 62" "rgMask r = of_nat cap - 1"
  shows "slot_at (p + of_nat k) r = (unat p + k) mod cap"
proof -
  have "slot_at (p + of_nat k) r = unat (p + of_nat k) mod cap"
    unfolding slot_at_def assms(3) using assms(2) by (intro and_pow2_minus_1 [OF assms(1)]) simp
  also have "unat (p + of_nat k) = (unat p + k) mod 2 ^ 64"
    by (simp add: unat_word_ariths unat_of_nat mod_simps)
  also have "\<dots> mod cap = (unat p + k) mod cap"
    using pow2_dvd [OF assms(1), of 64] assms(2) by (intro mod_mod_cancel) simp
  finally show ?thesis .
qed

lemma slot_at_simps [simp]:
  "slot_at p (r\<lparr>rgHead := h\<rparr>) = slot_at p r" "slot_at p (r\<lparr>rgTail := t\<rparr>) = slot_at p r"
  "slot_at p (r\<lparr>rgSlots := s\<rparr>) = slot_at p r"
  by (simp_all add: slot_at_def)

lemma slots_nth_update:
  assumes "ring_ok cap xs r" "j < cap" "k < cap"
  shows "(rgSlots r)[slot_at (rgTail r + of_nat j) r := x] ! slot_at (rgTail r + of_nat k) r =
    (if k = j then x else slot_for (rgTail r) xs k)"
proof -
  have m: "slot_at (rgTail r + of_nat i) r = (unat (rgTail r) + i) mod cap" for i
    using assms(1) by (intro slot_at_mod) (simp_all add: ring_ok_def)
  have len: "length (rgSlots r) = cap" "0 < cap" using assms(1) by (simp_all add: ring_ok_def)
  have "slot_at (rgTail r + of_nat j) r = slot_at (rgTail r + of_nat k) r \<longleftrightarrow> j = k"
    unfolding m using mod_eq_window [of "unat (rgTail r)" j cap k] assms(2,3) by auto
  moreover have "rgSlots r ! slot_at (rgTail r + of_nat k) r = slot_for (rgTail r) xs k"
    using assms(1,3) by (simp add: ring_ok_def)
  ultimately show ?thesis using len m by (auto simp: nth_list_update)
qed

lemma sint_small_neg:
  assumes "2 \<le> cap" "cap \<le> 2 ^ 62"
  shows "sint (1 - of_nat cap :: u64) = 1 - int cap"
proof -
  have "sint (word_of_int (1 - int cap) :: u64) = signed_take_bit 63 (1 - int cap)" 
    using sint_sbintrunc' [of "1 - int cap", where ?'a = 64] by simp
  also have "\<dots> = 1 - int cap" using assms by (intro signed_take_bit_int_eq_self) simp_all
  finally show ?thesis by simp
qed

lemma ring_slot:
  "ring_ok cap xs r \<Longrightarrow> k < cap \<Longrightarrow> rgSlots r ! slot_at (rgTail r + of_nat k) r = slot_for (rgTail r) xs k"
  by (simp add: ring_ok_def)

lemma ring_slot_0: "ring_ok cap xs r \<Longrightarrow> rgSlots r ! slot_at (rgTail r) r = slot_for (rgTail r) xs 0"
  using ring_slot [of cap xs r 0] by (simp add: ring_ok_def)

lemma ring_wrap: "ring_ok cap xs r \<Longrightarrow> slot_at (rgTail r + of_nat cap) r = slot_at (rgTail r) r"
  using slot_at_mod [of cap r "rgTail r" cap] slot_at_mod [of cap r "rgTail r" 0] by (simp add: ring_ok_def)

lemma TryProduce_room:
  assumes "ring_ok cap xs r" "length xs < cap"
  shows "\<exists>r'. TryProduce (Some x) r = Some (True, r') \<and> ring_ok cap (xs @ [x]) r'"
proof -
  let ?n = "length xs" and ?t = "rgTail r"
  let ?r = "r\<lparr>rgHead := rgHead r + 1, rgSlots := (rgSlots r)[slot_at (?t + of_nat ?n) r := \<lparr>rsSeq = rgHead r + 1, rsPtr = Some x\<rparr>]\<rparr>"
  have head: "rgHead r = ?t + of_nat ?n" using assms(1) by (simp add: ring_ok_def)
  have slot: "rgSlots r ! slot_at (?t + of_nat ?n) r = slot_for ?t xs ?n" using assms by (simp add: ring_ok_def)
  have prod: "TryProduce (Some x) r = Some (True, ?r)"
    using slot by (simp add: TryProduce_def Let_def head slot_for_def)
  have "rgSlots ?r ! slot_at (rgTail ?r + of_nat k) ?r = slot_for ?t (xs @ [x]) k" if "k < cap" for k
    using slots_nth_update [OF assms(1,2) that] by (auto simp: slot_for_def head nth_append)
  then have "ring_ok cap (xs @ [x]) ?r" using assms by (simp add: ring_ok_def head algebra_simps)
  with prod show ?thesis by blast
qed

lemma TryProduce_full:
  assumes "ring_ok cap xs r" "length xs = cap"
  shows "TryProduce (Some x) r = Some (False, r)"
proof -
  let ?t = "rgTail r"
  have b: "2 \<le> cap" "cap \<le> 2 ^ 62" and head: "rgHead r = ?t + of_nat cap" using assms by (simp_all add: ring_ok_def)
  have "rgSlots r ! slot_at (rgHead r) r = slot_for ?t xs 0"
    unfolding head ring_wrap [OF assms(1)] by (rule ring_slot_0 [OF assms(1)])
  then have "rsSeq (rgSlots r ! slot_at (rgHead r) r) = ?t + 1" using assms(2) b by (simp add: slot_for_def)
  then have diff: "rsSeq (rgSlots r ! slot_at (rgHead r) r) - rgHead r = 1 - of_nat cap" by (simp add: head)
  show ?thesis using sint_small_neg [OF b] b by (simp add: TryProduce_def Let_def diff)
qed

lemma TryConsume_empty: "ring_ok cap [] r \<Longrightarrow> TryConsume r = ((None, False), r)"
proof -
  assume "ring_ok cap [] r"
  from ring_slot_0 [OF this] show ?thesis by (simp add: TryConsume_def Let_def slot_for_def)
qed

lemma TryConsume_take:
  assumes "ring_ok cap (x # xs) r"
  shows "\<exists>r'. TryConsume r = ((Some x, True), r') \<and> ring_ok cap xs r'"
proof -
  let ?t = "rgTail r"
  have b: "2 \<le> cap" "length xs < cap" and cap: "rgCap r = of_nat cap" using assms by (simp_all add: ring_ok_def)
  let ?r = "r\<lparr>rgSlots := (rgSlots r)[slot_at ?t r := \<lparr>rsSeq = ?t + rgCap r, rsPtr = None\<rparr>], rgTail := ?t + 1\<rparr>"
  have cons: "TryConsume r = ((Some x, True), ?r)" using ring_slot_0 [OF assms] by (simp add: TryConsume_def Let_def slot_for_def)
  have "rgSlots ?r ! slot_at (rgTail ?r + of_nat k) ?r = slot_for (?t + 1) xs k" if k: "k < cap" for k
  proof (cases "k = cap - 1")
    case True
    then have "?t + 1 + of_nat k = ?t + of_nat cap" using b by (simp add: of_nat_diff)
    then show ?thesis
      using slots_nth_update [OF assms, of 0 0] ring_wrap [OF assms] b True cap by (simp add: slot_for_def algebra_simps of_nat_diff)
  next
    case False
    then have "Suc k < cap" using k by simp
    then show ?thesis
      using slots_nth_update [OF assms, of 0 "Suc k"] b by (simp add: slot_for_def algebra_simps)
  qed
  then have "ring_ok cap xs ?r" using assms by (simp add: ring_ok_def algebra_simps)
  with cons show ?thesis by blast
qed

interpretation ring: bounded_queue TryProduce TryConsume ring_ok
  by unfold_locales (auto simp: TryProduce_room TryProduce_full TryConsume_empty TryConsume_take, simp add: ring_ok_def)

section \<open>Equivalence with a queue\<close>

text \<open>A ring of any legal capacity starts out as the empty queue.\<close>

lemma NewPointer_ok:
  assumes "is_pow2 cap" "2 \<le> cap" "cap \<le> 2 ^ 62"
  shows "\<exists>r :: 'a PointerRing. NewPointer (int cap) = Some r \<and> ring_ok cap [] r"
proof -
  from assms(1) obtain k where k: "cap = 2 ^ k" by (auto simp: is_pow2_def)
  have "int cap AND (int cap - 1) = int cap mod 2 ^ k"
    by (simp add: k mask_eq_exp_minus_1 [symmetric] take_bit_eq_mask [symmetric] take_bit_eq_mod)
  then have "int cap AND (int cap - 1) = 0" by (simp add: k)
  define r where "r = (\<lparr>rgHead = 0, rgTail = 0, rgMask = of_nat cap - 1, rgCap = of_nat cap,
      rgSlots = map (\<lambda>i. \<lparr>rsSeq = of_nat i, rsPtr = None\<rparr>) [0..<cap]\<rparr> :: 'a PointerRing)"
  have new: "NewPointer (int cap) = Some r"
    using assms(2) \<open>int cap AND (int cap - 1) = 0\<close> by (simp add: NewPointer_def r_def)
  have r: "rgHead r = 0" "rgTail r = 0" "rgMask r = of_nat cap - 1" "rgCap r = of_nat cap"
      "rgSlots r = map (\<lambda>i. \<lparr>rsSeq = of_nat i, rsPtr = None\<rparr>) [0..<cap]"
    by (simp_all add: r_def)
  have "rgSlots r ! slot_at (rgTail r + of_nat j) r = slot_for (rgTail r) [] j" if "j < cap" for j
    using slot_at_mod [OF assms(1,3) r(3), of "rgTail r" j] that r(2,5) by (simp add: slot_for_def)
  then show ?thesis using assms new r by (auto simp: ring_ok_def)
qed

text \<open>The calls on a ring, and their answers.\<close>

datatype 'a ring_op = Produce 'a | Consume

datatype 'a ring_answer = Produced bool | Consumed "'a option \<times> bool"

fun ring_run :: "'a ring_op list \<Rightarrow> 'a PointerRing \<Rightarrow> 'a ring_answer list option" where
  "ring_run [] r = Some []"
| "ring_run (Produce x # ops) r =
     (case TryProduce (Some x) r of None \<Rightarrow> None | Some (b, r') \<Rightarrow> map_option ((#) (Produced b)) (ring_run ops r'))"
| "ring_run (Consume # ops) r = (case TryConsume r of (a, r') \<Rightarrow> map_option ((#) (Consumed a)) (ring_run ops r'))"

text \<open>The specification: a list, at most \<open>cap\<close> long.\<close>

fun queue_run :: "nat \<Rightarrow> 'a ring_op list \<Rightarrow> 'a list \<Rightarrow> 'a ring_answer list" where
  "queue_run cap [] xs = []"
| "queue_run cap (Produce x # ops) xs =
     Produced (length xs < cap) # queue_run cap ops (if length xs < cap then xs @ [x] else xs)"
| "queue_run cap (Consume # ops) xs =
     Consumed (case xs of [] \<Rightarrow> None | x # _ \<Rightarrow> Some x, xs \<noteq> []) # queue_run cap ops (tl xs)"

lemma ring_run_queue: "ring_ok cap xs r \<Longrightarrow> ring_run ops r = Some (queue_run cap ops xs)"
proof (induction ops arbitrary: xs r)
  case (Cons op ops)
  show ?case
  proof (cases op)
    case (Produce x)
    obtain r' where "TryProduce (Some x) r = Some (length xs < cap, r')" "ring_ok cap (if length xs < cap then xs @ [x] else xs) r'"
      using ring.enq_spec [OF Cons.prems] by blast
    with Cons.IH Produce show ?thesis by simp
  next
    case Consume
    obtain r' where "TryConsume r = ((case xs of [] \<Rightarrow> None | x # _ \<Rightarrow> Some x, xs \<noteq> []), r')" "ring_ok cap (tl xs) r'"
      using ring.deq_spec [OF Cons.prems] by blast
    with Cons.IH Consume show ?thesis by simp
  qed
qed simp



end
