(* ===== verification/Dedup.thy ===== *)
theory Dedup
  imports Prelude
begin

text \<open>
  Model of \<^verbatim>\<open>internal/relay/dedup.go\<close>: the filter that drops what an upstream replay repeats. A
  message is known by the hash of its channel, epoch and offset; the seeded hash of the runtime is
  the parameter \<open>hash\<close>. Each shard is a map behind a lock; \<open>Check\<close> looks under the read lock and
  then, if it has to insert, again under the write lock, so its two halves are two operations here
  and anything may happen between them.
\<close>

definition numDedupShards :: nat where
  "numDedupShards = 16"

record dedupShard =
  dsSeen :: "(u64, int) gomap"
  dsPeak :: int

record Deduplicator =
  ddShards :: "dedupShard list"
  ddTTL :: int
  ddHits :: int
  ddMisses :: int

definition maybeRebuild :: "dedupShard \<Rightarrow> dedupShard" where
  "maybeRebuild sh =
     (if dsPeak sh > 64 \<and> int (length (dsSeen sh)) < dsPeak sh div 4
      then (let rebuilt = fold (\<lambda>(k, v) m. gput k v m) (dsSeen sh) []
            in sh\<lparr>dsSeen := rebuilt, dsPeak := int (length rebuilt)\<rparr>)
      else sh)"

definition NewDeduplicator :: "int \<Rightarrow> Deduplicator" where
  "NewDeduplicator ttl =
     \<lparr>ddShards = replicate numDedupShards \<lparr>dsSeen = [], dsPeak = 0\<rparr>, ddTTL = ttl, ddHits = 0, ddMisses = 0\<rparr>"

definition shard_of :: "u64 \<Rightarrow> nat" where
  "shard_of key = unat (key mod of_nat numDedupShards)"

text \<open>The read-locked half: \<open>True\<close> when the message is a duplicate and the check ends there.\<close>

definition Check_fast :: "u64 \<Rightarrow> int \<Rightarrow> Deduplicator \<Rightarrow> bool \<times> Deduplicator" where
  "Check_fast key now d =
     (case gget (dsSeen (ddShards d ! shard_of key)) key of
        Some ts \<Rightarrow> if now - ts < ddTTL d then (True, d\<lparr>ddHits := ddHits d + 1\<rparr>) else (False, d)
      | None \<Rightarrow> (False, d))"

text \<open>The write-locked half: the answer of the whole check.\<close>

definition Check_slow :: "u64 \<Rightarrow> int \<Rightarrow> Deduplicator \<Rightarrow> bool \<times> Deduplicator" where
  "Check_slow key now d =
     (let i = shard_of key; sh = ddShards d ! i
      in case gget (dsSeen sh) key of
           Some ts \<Rightarrow>
             if now - ts < ddTTL d then (False, d\<lparr>ddHits := ddHits d + 1\<rparr>)
             else (True, d\<lparr>ddShards := (ddShards d)[i := sh\<lparr>dsSeen := gput key now (dsSeen sh)\<rparr>], ddMisses := ddMisses d + 1\<rparr>)
         | None \<Rightarrow>
             (let seen = gput key now (dsSeen sh);
                  peak = (if int (length seen) > dsPeak sh then int (length seen) else dsPeak sh)
              in (True, d\<lparr>ddShards := (ddShards d)[i := sh\<lparr>dsSeen := seen, dsPeak := peak\<rparr>], ddMisses := ddMisses d + 1\<rparr>)))"

definition Check :: "(string \<Rightarrow> u64 \<Rightarrow> u64 \<Rightarrow> u64) \<Rightarrow> string \<Rightarrow> u64 \<Rightarrow> u64 \<Rightarrow> int \<Rightarrow> int \<Rightarrow> Deduplicator \<Rightarrow> bool \<times> Deduplicator" where
  "Check hash channel epoch offset now now' d =
     (let key = hash channel epoch offset
      in case Check_fast key now d of (dup, d1) \<Rightarrow> if dup then (False, d1) else Check_slow key now' d1)"

text \<open>One shard of a cleanup pass, and the pass.\<close>

definition cleanup_shard :: "int \<Rightarrow> int \<Rightarrow> dedupShard \<Rightarrow> dedupShard" where
  "cleanup_shard now cutoff sh = maybeRebuild (sh\<lparr>dsSeen := filter (\<lambda>(key, ts). \<not> now - ts > cutoff) (dsSeen sh)\<rparr>)"

definition cleanup_at :: "int \<Rightarrow> nat \<Rightarrow> Deduplicator \<Rightarrow> Deduplicator" where
  "cleanup_at now i d = d\<lparr>ddShards := (ddShards d)[i := cleanup_shard now (ddTTL d * 2) (ddShards d ! i)]\<rparr>"

definition cleanup_pass :: "int \<Rightarrow> Deduplicator \<Rightarrow> Deduplicator" where
  "cleanup_pass now d = fold (cleanup_at now) [0..<length (ddShards d)] d"

section \<open>Shards\<close>

lemma gget_copy: "gomap_ok xs \<Longrightarrow> gget (fold (\<lambda>(k, v) m. gput k v m) xs m) key =
    (case gget xs key of Some v \<Rightarrow> Some v | None \<Rightarrow> gget m key)"
proof (induction xs arbitrary: m)
  case (Cons x xs)
  obtain k v where x: "x = (k, v)" by (cases x)
  have "gomap_ok xs" "gget xs k = None" using Cons.prems set_gkeys [of k xs] by (auto simp: gomap_ok_def x)
  then show ?case using Cons.IH by (auto simp: x gget_Cons split: option.splits)
qed simp

lemma gomap_ok_copy: "gomap_ok m \<Longrightarrow> gomap_ok (fold (\<lambda>(k, v) m. gput k v m) xs m)"
  by (induction xs arbitrary: m) auto

lemma gget_filter: "gomap_ok xs \<Longrightarrow> gget (filter (\<lambda>(k, v). P v) xs) key =
    (case gget xs key of Some v \<Rightarrow> if P v then Some v else None | None \<Rightarrow> None)"
proof (induction xs)
  case (Cons x xs)
  obtain k v where x: "x = (k, v)" by (cases x)
  have "gomap_ok xs" "gget xs k = None" using Cons.prems set_gkeys [of k xs] by (auto simp: gomap_ok_def x)
  then show ?case using Cons.IH by (auto simp: x gget_Cons split: option.splits if_splits)
qed simp

lemma gomap_ok_filter: "gomap_ok xs \<Longrightarrow> gomap_ok (filter P xs)"
  by (simp add: gomap_ok_def distinct_map_filter)

lemma cleanup_shard_seen:
  assumes "gomap_ok (dsSeen sh)"
  shows "gget (dsSeen (cleanup_shard now cutoff sh)) key =
      (case gget (dsSeen sh) key of Some ts \<Rightarrow> if now - ts > cutoff then None else Some ts | None \<Rightarrow> None)"
    "gomap_ok (dsSeen (cleanup_shard now cutoff sh))"
  using assms gget_filter [OF assms, of "\<lambda>ts. \<not> now - ts > cutoff" key] gomap_ok_filter [OF assms]
  by (auto simp: cleanup_shard_def maybeRebuild_def Let_def gget_copy gomap_ok_copy split: option.splits)

section \<open>Executions\<close>

text \<open>
  The atomic events of any number of concurrent checks and of the cleaner, in the order in which
  they take the locks, each with the clock reading it makes.
\<close>

datatype dedup_event = Fast u64 int | Slow u64 int | Clean nat int

fun event_time :: "dedup_event \<Rightarrow> int" where
  "event_time (Fast key now) = now"
| "event_time (Slow key now) = now"
| "event_time (Clean i now) = now"

text \<open>What an event answers: \<open>Some True\<close> accepts the message, \<open>Some False\<close> drops it.\<close>

fun dedup_event_run :: "dedup_event \<Rightarrow> Deduplicator \<Rightarrow> bool option \<times> Deduplicator" where
  "dedup_event_run (Fast key now) d = (case Check_fast key now d of (dup, d') \<Rightarrow> (if dup then Some False else None, d'))"
| "dedup_event_run (Slow key now) d = (case Check_slow key now d of (fresh, d') \<Rightarrow> (Some fresh, d'))"
| "dedup_event_run (Clean i now) d = (None, cleanup_at now i d)"

fun dedup_run :: "dedup_event list \<Rightarrow> Deduplicator \<Rightarrow> bool option list \<times> Deduplicator" where
  "dedup_run [] d = ([], d)"
| "dedup_run (ev # evs) d = (case dedup_event_run ev d of (a, d1) \<Rightarrow> case dedup_run evs d1 of (as, d2) \<Rightarrow> (a # as, d2))"

text \<open>The specification remembers, for each key, when it was last accepted, and forgets nothing.\<close>

fun spec_event :: "int \<Rightarrow> dedup_event \<Rightarrow> (u64 \<Rightarrow> int option) \<Rightarrow> bool option \<times> (u64 \<Rightarrow> int option)" where
  "spec_event ttl (Fast key now) mem =
     (case mem key of Some ts \<Rightarrow> if now - ts < ttl then Some False else None | None \<Rightarrow> None, mem)"
| "spec_event ttl (Slow key now) mem =
     (case mem key of
        Some ts \<Rightarrow> if now - ts < ttl then (Some False, mem) else (Some True, mem(key \<mapsto> now))
      | None \<Rightarrow> (Some True, mem(key \<mapsto> now)))"
| "spec_event ttl (Clean i now) mem = (None, mem)"

fun spec_run :: "int \<Rightarrow> dedup_event list \<Rightarrow> (u64 \<Rightarrow> int option) \<Rightarrow> bool option list" where
  "spec_run ttl [] mem = []"
| "spec_run ttl (ev # evs) mem = (case spec_event ttl ev mem of (a, mem') \<Rightarrow> a # spec_run ttl evs mem')"

fun ordered_from :: "int \<Rightarrow> dedup_event list \<Rightarrow> bool" where
  "ordered_from t [] = True"
| "ordered_from t (ev # evs) \<longleftrightarrow> t \<le> event_time ev \<and> ordered_from (event_time ev) evs"

text \<open>The filter knows a key with the time the specification has, or the specification's entry is long expired.\<close>

definition knows :: "int \<Rightarrow> int option \<Rightarrow> int option \<Rightarrow> bool" where
  "knows horizon stored spec \<longleftrightarrow> (case stored of Some ts \<Rightarrow> spec = Some ts | None \<Rightarrow> (\<forall>ts. spec = Some ts \<longrightarrow> ts < horizon))"

definition seen_at :: "Deduplicator \<Rightarrow> u64 \<Rightarrow> int option" where
  "seen_at d key = gget (dsSeen (ddShards d ! shard_of key)) key"

definition dedup_rel :: "int \<Rightarrow> int \<Rightarrow> Deduplicator \<Rightarrow> (u64 \<Rightarrow> int option) \<Rightarrow> bool" where
  "dedup_rel ttl t d mem \<longleftrightarrow> ddTTL d = ttl \<and> 0 < ttl \<and> length (ddShards d) = numDedupShards
     \<and> (\<forall>i < numDedupShards. gomap_ok (dsSeen (ddShards d ! i)))
     \<and> (\<forall>key. knows (t - 2 * ttl) (seen_at d key) (mem key))"

lemma shard_of_less: "shard_of key < numDedupShards"
proof -
  have "unat (key mod 16) = unat key mod 16" by (simp add: unat_mod)
  then show ?thesis by (simp add: shard_of_def numDedupShards_def)
qed

lemma dedup_rel_start: "0 < ttl \<Longrightarrow> dedup_rel ttl t (NewDeduplicator ttl) Map.empty"
  by (simp add: dedup_rel_def NewDeduplicator_def shard_of_less seen_at_def knows_def)

lemma dedup_knows: "dedup_rel ttl t d mem \<Longrightarrow> knows (t - 2 * ttl) (seen_at d key) (mem key)"
  by (simp add: dedup_rel_def)

lemma dedup_lookup:
  assumes "dedup_rel ttl t d mem" "t \<le> now"
  shows "(case seen_at d key of Some ts \<Rightarrow> now - ts < ttl | None \<Rightarrow> False)
    \<longleftrightarrow> (case mem key of Some ts \<Rightarrow> now - ts < ttl | None \<Rightarrow> False)"
  using dedup_knows [OF assms(1), of key] assms
  by (cases "seen_at d key"; cases "mem key") (auto simp: knows_def dedup_rel_def)

lemma knows_mono: "knows h stored spec \<Longrightarrow> h \<le> h' \<Longrightarrow> knows h' stored spec"
  by (cases stored) (auto simp: knows_def)

lemma dedup_rel_mono: "dedup_rel ttl t d mem \<Longrightarrow> t \<le> t' \<Longrightarrow> dedup_rel ttl t' d mem"
  by (auto simp: dedup_rel_def intro: knows_mono)

lemma dedup_rel_hits [simp]: "dedup_rel ttl t (d\<lparr>ddHits := x\<rparr>) mem = dedup_rel ttl t d mem"
  by (simp add: dedup_rel_def seen_at_def)

lemma dedup_rel_put:
  assumes "dedup_rel ttl t d mem"
    and "dsSeen sh = gput key now (dsSeen (ddShards d ! shard_of key))"
  shows "dedup_rel ttl t (d\<lparr>ddShards := (ddShards d)[shard_of key := sh], ddMisses := x\<rparr>) (mem(key \<mapsto> now))"
proof -
  let ?d = "d\<lparr>ddShards := (ddShards d)[shard_of key := sh], ddMisses := x\<rparr>"
  have len: "length (ddShards d) = numDedupShards" and ok: "\<And>i. i < numDedupShards \<Longrightarrow> gomap_ok (dsSeen (ddShards d ! i))"
    using assms(1) by (simp_all add: dedup_rel_def)
  have "seen_at ?d k = (if k = key then Some now else seen_at d k)" for k
    using assms(2) shard_of_less [of key] len by (cases "shard_of k = shard_of key") (auto simp: seen_at_def)
  then have "knows (t - 2 * ttl) (seen_at ?d k) ((mem(key \<mapsto> now)) k)" for k
    using dedup_knows [OF assms(1), of k] by (simp add: knows_def)
  moreover have "gomap_ok (dsSeen (ddShards ?d ! i))" if "i < numDedupShards" for i
    using that ok [OF that] ok [OF shard_of_less [of key]] assms(2) len by (cases "i = shard_of key") simp_all
  ultimately show ?thesis using assms(1) by (simp add: dedup_rel_def)
qed

lemma dedup_step:
  assumes "dedup_rel ttl t d mem" "t \<le> event_time ev" "dedup_event_run ev d = (a, d')" "spec_event ttl ev mem = (b, mem')"
  shows "a = b \<and> dedup_rel ttl (event_time ev) d' mem'
    \<and> ddHits d' = ddHits d + (if a = Some False then 1 else 0) \<and> ddMisses d' = ddMisses d + (if a = Some True then 1 else 0)"
proof (cases ev)
  case (Fast key now)
  have rel: "dedup_rel ttl now d mem" by (rule dedup_rel_mono [OF assms(1)]) (use assms(2) Fast in simp)
  have ttl: "ddTTL d = ttl" using assms(1) by (simp add: dedup_rel_def)
  show ?thesis
    using assms(2-4) dedup_lookup [OF assms(1), of now key] rel ttl
    by (auto simp: Fast Check_fast_def seen_at_def [symmetric] split: option.splits if_splits)
next
  case (Slow key now)
  have rel: "dedup_rel ttl now d mem" by (rule dedup_rel_mono [OF assms(1)]) (use assms(2) Slow in simp)
  have ttl: "ddTTL d = ttl" and ok: "gomap_ok (dsSeen (ddShards d ! shard_of key))"
    using assms(1) shard_of_less [of key] by (simp_all add: dedup_rel_def)
  note look = dedup_lookup [OF rel order_refl, of key]
  let ?sh = "ddShards d ! shard_of key"
  have put: "dedup_rel ttl now (d\<lparr>ddShards := (ddShards d)[shard_of key := sh], ddMisses := ddMisses d + 1\<rparr>) (mem(key \<mapsto> now))"
    if "dsSeen sh = gput key now (dsSeen ?sh)" for sh by (rule dedup_rel_put [OF rel that])
  show ?thesis
  proof (cases "case seen_at d key of Some ts \<Rightarrow> now - ts < ttl | None \<Rightarrow> False")
    case True
    then show ?thesis using assms(3,4) look rel ttl
      by (auto simp: Slow Check_slow_def Let_def seen_at_def [symmetric] split: option.splits)
  next
    case False
    have "spec_event ttl ev mem = (Some True, mem(key \<mapsto> now))"
      using False look by (auto simp: Slow split: option.splits)
    moreover obtain sh where "Check_slow key now d = (True, d\<lparr>ddShards := (ddShards d)[shard_of key := sh], ddMisses := ddMisses d + 1\<rparr>)"
      "dsSeen sh = gput key now (dsSeen ?sh)"
      using False ttl by (auto simp: Check_slow_def Let_def seen_at_def [symmetric] split: option.splits)
    ultimately show ?thesis using assms(3,4) put by (auto simp: Slow)
  qed
next
  case (Clean i now)
  have rel: "dedup_rel ttl now d mem" by (rule dedup_rel_mono [OF assms(1)]) (use assms(2) Clean in simp)
  let ?d = "cleanup_at now i d"
  have len: "length (ddShards d) = numDedupShards" and ttl: "ddTTL d = ttl" using rel by (simp_all add: dedup_rel_def)
  have "knows (now - 2 * ttl) (seen_at ?d key) (mem key)" for key
  proof (cases "shard_of key = i")
    case True
    then have "i < length (ddShards d)" "gomap_ok (dsSeen (ddShards d ! i))"
      using shard_of_less [of key] rel len by (auto simp: dedup_rel_def)
    then have "seen_at ?d key = (case seen_at d key of Some ts \<Rightarrow> if now - ts > ttl * 2 then None else Some ts | None \<Rightarrow> None)"
      using True ttl cleanup_shard_seen(1) [of "ddShards d ! i" now "ttl * 2" key] by (simp add: cleanup_at_def seen_at_def)
    then show ?thesis using dedup_knows [OF rel, of key] by (auto simp: knows_def split: option.splits)
  next
    case False
    then show ?thesis using dedup_knows [OF rel, of key] by (simp add: cleanup_at_def seen_at_def)
  qed
  moreover have "gomap_ok (dsSeen (ddShards ?d ! j))" if "j < numDedupShards" for j
    using that rel len cleanup_shard_seen(2) by (cases "j = i") (auto simp: cleanup_at_def dedup_rel_def)
  ultimately have "dedup_rel ttl now ?d mem"
    using rel len by (simp add: dedup_rel_def cleanup_at_def)
  then show ?thesis using assms(3,4) by (auto simp: Clean cleanup_at_def)
qed

lemma dedup_run_spec:
  assumes "dedup_rel ttl t d mem" "ordered_from t evs" "dedup_run evs d = (as, d')"
  shows "as = spec_run ttl evs mem \<and> ddHits d' = ddHits d + int (count_list as (Some False))
    \<and> ddMisses d' = ddMisses d + int (count_list as (Some True))"
  using assms
proof (induction evs arbitrary: t d mem as)
  case (Cons ev evs)
  obtain a d1 where e: "dedup_event_run ev d = (a, d1)" by (cases "dedup_event_run ev d")
  obtain b mem' where sp: "spec_event ttl ev mem = (b, mem')" by (cases "spec_event ttl ev mem")
  obtain as' where r: "dedup_run evs d1 = (as', d')" "as = a # as'" using Cons.prems(3) e by (auto split: prod.splits)
  note st = dedup_step [OF Cons.prems(1) _ e sp]
  have t: "t \<le> event_time ev" "ordered_from (event_time ev) evs" using Cons.prems(2) by simp_all
  from Cons.IH [OF _ t(2) r(1), of mem'] st [OF t(1)] show ?case using r(2) sp by auto
qed simp



end
