(* ===== verification/Router.thy ===== *)
theory Router
  imports Pattern
begin

text \<open>
  Model of \<^verbatim>\<open>internal/relay/router.go\<close>: which side of a relay a channel belongs to. A route mode is
  the Go integer, with the three named values; the results are the three shared singletons. The
  order in which a full cache evicts is the parameter \<open>order\<close>, as in \<open>Pattern\<close>.
\<close>

type_synonym RouteMode = int

definition RouteModeRelay :: RouteMode where "RouteModeRelay = 0"
definition RouteModeLocal :: RouteMode where "RouteModeLocal = 1"
definition RouteModeBoth :: RouteMode where "RouteModeBoth = 2"

definition maxCacheSize :: int where
  "maxCacheSize = 10000"

record ChannelPattern =
  cpPattern :: string
  cpMode :: RouteMode

record RouteResult =
  rrMode :: RouteMode

record Router =
  rtPatterns :: "ChannelPattern list"
  rtCache :: "RouteResult cache"

definition NewRouter :: "ChannelPattern list \<Rightarrow> Router" where
  "NewRouter patterns = \<lparr>rtPatterns = patterns, rtCache = NewCache maxCacheSize\<rparr>"

definition singletonResult :: "RouteMode \<Rightarrow> RouteResult" where
  "singletonResult mode =
     (if mode = RouteModeRelay then \<lparr>rrMode = RouteModeRelay\<rparr>
      else if mode = RouteModeLocal then \<lparr>rrMode = RouteModeLocal\<rparr>
      else if mode = RouteModeBoth then \<lparr>rrMode = RouteModeBoth\<rparr>
      else \<lparr>rrMode = RouteModeRelay\<rparr>)"

fun resolve_loop :: "string \<Rightarrow> ChannelPattern list \<Rightarrow> RouteResult" where
  "resolve_loop channel [] = \<lparr>rrMode = RouteModeRelay\<rparr>"
| "resolve_loop channel (p # ps) = (if Match (cpPattern p) channel then singletonResult (cpMode p) else resolve_loop channel ps)"

definition resolve :: "string \<Rightarrow> Router \<Rightarrow> RouteResult" where
  "resolve channel r = resolve_loop channel (rtPatterns r)"

definition Route :: "string list \<Rightarrow> string \<Rightarrow> Router \<Rightarrow> RouteResult \<times> Router" where
  "Route order channel r =
     (case Cache_Get (rtCache r) channel of
        Some cached \<Rightarrow> (cached, r)
      | None \<Rightarrow>
          (let result = resolve channel r
           in (result, r\<lparr>rtCache := Cache_Set order channel result (rtCache r)\<rparr>)))"

section \<open>Routing is the first match\<close>

lemma resolve_loop_find:
  "resolve_loop channel ps =
     (case find (\<lambda>p. glob (cpPattern p) channel) ps of Some p \<Rightarrow> singletonResult (cpMode p) | None \<Rightarrow> \<lparr>rrMode = RouteModeRelay\<rparr>)"
  by (induction ps) (auto simp: Match_glob)

definition router_ok :: "ChannelPattern list \<Rightarrow> Router \<Rightarrow> bool" where
  "router_ok ps r \<longleftrightarrow> rtPatterns r = ps \<and> (\<forall>k. Cache_Get (rtCache r) k \<in> {None, Some (resolve_loop k ps)})"

lemma Route_ok:
  assumes "router_ok ps r"
  shows "fst (Route order channel r) = resolve_loop channel ps \<and> router_ok ps (snd (Route order channel r))"
proof -
  have ps: "rtPatterns r = ps" and hit: "Cache_Get (rtCache r) k \<in> {None, Some (resolve_loop k ps)}" for k
    using assms by (auto simp: router_ok_def)
  have stored: "w = resolve_loop k ps" if "Cache_Get (rtCache r) k = Some w" for k w using hit [of k] that by simp
  let ?c = "Cache_Set order channel (resolve_loop channel ps) (rtCache r)"
  have "Cache_Get ?c k \<in> {None, Some (resolve_loop k ps)}" for k
  proof (cases "Cache_Get ?c k")
    case (Some v)
    have "v = resolve_loop k ps"
      by (rule cache_memo.coherent_store [where P = "\<lambda>k v. v = resolve_loop k ps", OF _ refl Some]) (rule stored)
    with Some show ?thesis by blast
  qed simp
  then show ?thesis
    using hit [of channel] ps assms
    by (cases "Cache_Get (rtCache r) channel") (auto simp: Route_def resolve_def Let_def router_ok_def)
qed

text \<open>
  A channel is routed by the first configured pattern that matches it, and to the relay when
  none does, however many other channels were routed before and whatever the cache kept or
  evicted.
\<close>

theorem route_first_match:
  "fst (Route order channel (fold (\<lambda>(ord, ch) r. snd (Route ord ch r)) calls (NewRouter ps))) =
     (case find (\<lambda>p. glob (cpPattern p) channel) ps of
        Some p \<Rightarrow> singletonResult (cpMode p) | None \<Rightarrow> \<lparr>rrMode = RouteModeRelay\<rparr>)"
proof -
  have "router_ok ps (fold (\<lambda>(ord, ch) r. snd (Route ord ch r)) calls r)" if "router_ok ps r" for r
    using that by (induction calls arbitrary: r) (auto simp: Route_ok)
  moreover have "router_ok ps (NewRouter ps)" by (simp add: router_ok_def NewRouter_def)
  ultimately show ?thesis using Route_ok by (simp add: resolve_loop_find)
qed

end
