(* ===== verification/Arena.thy ===== *)
theory Arena
  imports Prelude
begin

text \<open>
  Model of \<^verbatim>\<open>internal/arena/arena.go\<close>: a slab allocator with a bump counter and a free list, used by
  many goroutines at once. The memory is a list of slots; \<open>z\<close> is the value of cleared memory. The
  system calls are parameters: \<open>mmap\<close> says whether the mapping of a number of bytes succeeds.

  \<^verbatim>\<open>Alloc\<close> and \<^verbatim>\<open>Free\<close> are sequences of atomic pieces (a critical section, an atomic add, the
  clearing of memory that nobody else may touch); \<open>arena_step\<close> interleaves these pieces.
\<close>

datatype arena_error = ErrClosed | ErrFull | ErrSizes | ErrOverflow | ErrMmap

record 'm Arena =
  arMem :: "'m list"
  arSlotSize :: u64
  arMaxSlots :: u32
  arOffset :: u32
  arFree :: "u32 list"
  arInFree :: "bool list"
  arClosed :: bool

definition slotAlign :: u64 where
  "slotAlign = 8"

text \<open>The stride: the slot size rounded up to the alignment.\<close>

definition arena_stride :: "int \<Rightarrow> u64" where
  "arena_stride slotSize =
     (let stride = word_of_int slotSize; r = stride mod slotAlign
      in if r \<noteq> 0 then stride + (slotAlign - r) else stride)"

definition arena_New :: "(u64 \<Rightarrow> bool) \<Rightarrow> 'm \<Rightarrow> int \<Rightarrow> int \<Rightarrow> arena_error + 'm Arena" where
  "arena_New mmap z slotSize maxSlots =
     (if slotSize \<le> 0 \<or> maxSlots \<le> 0 then Inl ErrSizes
      else
        (let stride = arena_stride slotSize
         in if word_of_int maxSlots > (- 1 :: u64) div stride then Inl ErrOverflow
            else if \<not> mmap (stride * word_of_int maxSlots) then Inl ErrMmap
            else Inr \<lparr>arMem = replicate (nat maxSlots) z, arSlotSize = stride, arMaxSlots = word_of_int maxSlots,
                      arOffset = 0, arFree = [], arInFree = replicate (nat maxSlots) False, arClosed = False\<rparr>))"

definition popFree :: "'m Arena \<Rightarrow> u32 option \<times> 'm Arena" where
  "popFree a =
     (if arFree a = [] then (None, a)
      else
        (let idx = last (arFree a)
         in (Some idx, a\<lparr>arFree := butlast (arFree a), arInFree := (arInFree a)[unat idx := False]\<rparr>)))"

text \<open>The atomic add and its rollback.\<close>

definition bump :: "'m Arena \<Rightarrow> u32 \<times> 'm Arena" where
  "bump a = (arOffset a + 1 - 1, a\<lparr>arOffset := arOffset a + 1\<rparr>)"

definition rollback :: "'m Arena \<Rightarrow> 'm Arena" where
  "rollback a = a\<lparr>arOffset := arOffset a + NOT 0\<rparr>"

definition Alloc :: "'m Arena \<Rightarrow> (arena_error + u32) \<times> 'm Arena" where
  "Alloc a =
     (if arClosed a then (Inl ErrClosed, a)
      else
        (case popFree a of
           (Some idx, a1) \<Rightarrow> (Inr idx, a1)
         | (None, a1) \<Rightarrow>
             (case bump a1 of (idx, a2) \<Rightarrow>
                if idx < arMaxSlots a2 then (Inr idx, a2)
                else
                  (case popFree (rollback a2) of
                     (Some idx2, a3) \<Rightarrow> (Inr idx2, a3)
                   | (None, a3) \<Rightarrow> (Inl ErrFull, a3)))))"

text \<open>The first critical section of \<^verbatim>\<open>Free\<close> with the checks before it, the clearing, and the second critical section.\<close>

definition Free_mark :: "u32 \<Rightarrow> 'm Arena \<Rightarrow> bool \<times> 'm Arena" where
  "Free_mark idx a =
     (if arClosed a \<or> idx \<ge> arMaxSlots a then (False, a)
      else if arInFree a ! unat idx \<or> idx \<ge> arOffset a then (False, a)
      else (True, a\<lparr>arInFree := (arInFree a)[unat idx := True]\<rparr>))"

definition Free_clear :: "'m \<Rightarrow> u32 \<Rightarrow> 'm Arena \<Rightarrow> 'm Arena" where
  "Free_clear z idx a = a\<lparr>arMem := (arMem a)[unat idx := z]\<rparr>"

definition Free_append :: "u32 \<Rightarrow> 'm Arena \<Rightarrow> 'm Arena" where
  "Free_append idx a = a\<lparr>arFree := arFree a @ [idx]\<rparr>"

definition Free :: "'m \<Rightarrow> u32 \<Rightarrow> 'm Arena \<Rightarrow> 'm Arena" where
  "Free z idx a =
     (case Free_mark idx a of
        (False, a1) \<Rightarrow> a1
      | (True, a1) \<Rightarrow> Free_append idx (Free_clear z idx a1))"

text \<open>\<open>munmap\<close> is the error the system call answers, if any.\<close>

definition arena_Close :: "arena_error option \<Rightarrow> 'm Arena \<Rightarrow> arena_error option \<times> 'm Arena" where
  "arena_Close munmap a = (if arClosed a then (None, a) else (munmap, a\<lparr>arClosed := True\<rparr>))"

section \<open>Goroutines\<close>

text \<open>Where a goroutine is: in \<^verbatim>\<open>Alloc\<close> (\<open>Missed\<close>, \<open>Over\<close>, \<open>Retry\<close>), holding a slot, or in \<^verbatim>\<open>Free\<close>.\<close>

datatype goroutine = Idle | Missed | Over | Retry | Has u32 | Marked u32 | Cleared u32

text \<open>A goroutine takes one piece of its operation; \<open>store\<close> is an owner using its slot.\<close>

inductive arena_step :: "'m \<Rightarrow> 'm Arena \<times> goroutine list \<Rightarrow> 'm Arena \<times> goroutine list \<Rightarrow> bool" for z where
  hit: "t < length ts \<Longrightarrow> ts ! t = Idle \<or> ts ! t = Retry \<Longrightarrow> popFree a = (Some idx, a') \<Longrightarrow>
    arena_step z (a, ts) (a', ts[t := Has idx])"
| miss: "t < length ts \<Longrightarrow> ts ! t = Idle \<Longrightarrow> popFree a = (None, a') \<Longrightarrow> arena_step z (a, ts) (a', ts[t := Missed])"
| bumped: "t < length ts \<Longrightarrow> ts ! t = Missed \<Longrightarrow> bump a = (idx, a') \<Longrightarrow>
    arena_step z (a, ts) (a', ts[t := (if idx < arMaxSlots a' then Has idx else Over)])"
| rolled: "t < length ts \<Longrightarrow> ts ! t = Over \<Longrightarrow> arena_step z (a, ts) (rollback a, ts[t := Retry])"
| full: "t < length ts \<Longrightarrow> ts ! t = Retry \<Longrightarrow> popFree a = (None, a') \<Longrightarrow> arena_step z (a, ts) (a', ts[t := Idle])"
| store: "Has idx \<in> set ts \<Longrightarrow> arena_step z (a, ts) (a\<lparr>arMem := (arMem a)[unat idx := x]\<rparr>, ts)"
| mark: "t < length ts \<Longrightarrow> ts ! t = Has idx \<or> ts ! t = Idle \<and> Has idx \<notin> set ts \<Longrightarrow> Free_mark idx a = (ok, a') \<Longrightarrow>
    arena_step z (a, ts) (a', ts[t := (if ok then Marked idx else Idle)])"
| clear: "t < length ts \<Longrightarrow> ts ! t = Marked idx \<Longrightarrow> arena_step z (a, ts) (Free_clear z idx a, ts[t := Cleared idx])"
| append: "t < length ts \<Longrightarrow> ts ! t = Cleared idx \<Longrightarrow> arena_step z (a, ts) (Free_append idx a, ts[t := Idle])"

section \<open>Every slot has exactly one place\<close>

fun holds :: "u32 \<Rightarrow> goroutine \<Rightarrow> int" where
  "holds idx (Has i) = (if i = idx then 1 else 0)"
| "holds idx (Marked i) = (if i = idx then 1 else 0)"
| "holds idx (Cleared i) = (if i = idx then 1 else 0)"
| "holds idx _ = 0"

fun freeing :: "u32 \<Rightarrow> goroutine \<Rightarrow> int" where
  "freeing idx (Marked i) = (if i = idx then 1 else 0)"
| "freeing idx (Cleared i) = (if i = idx then 1 else 0)"
| "freeing idx _ = 0"

fun cleared :: "u32 \<Rightarrow> goroutine \<Rightarrow> int" where
  "cleared idx (Cleared i) = (if i = idx then 1 else 0)"
| "cleared idx _ = 0"

fun is_over :: "goroutine \<Rightarrow> int" where
  "is_over Over = 1"
| "is_over _ = 0"

abbreviation total :: "(goroutine \<Rightarrow> int) \<Rightarrow> goroutine list \<Rightarrow> int" where
  "total f ts \<equiv> sum_list (map f ts)"

abbreviation listed :: "u32 \<Rightarrow> 'm Arena \<Rightarrow> int" where
  "listed idx a \<equiv> int (count_list (arFree a) idx)"

text \<open>The slots the bump counter has handed out: it runs past the end only while goroutines are about to roll back.\<close>

definition handed :: "'m Arena \<Rightarrow> nat" where
  "handed a = min (unat (arOffset a)) (unat (arMaxSlots a))"

definition arena_ok :: "'m \<Rightarrow> 'm Arena \<times> goroutine list \<Rightarrow> bool" where
  "arena_ok z = (\<lambda>(a, ts).
     length (arMem a) = unat (arMaxSlots a) \<and> length (arInFree a) = unat (arMaxSlots a)
     \<and> unat (arMaxSlots a) + length ts + 1 < 2 ^ 32
     \<and> int (unat (arOffset a)) = int (handed a) + total is_over ts
     \<and> (\<forall>idx. total (holds idx) ts + listed idx a = (if unat idx < handed a then 1 else 0))
     \<and> (\<forall>idx. unat idx < unat (arMaxSlots a) \<longrightarrow>
          arInFree a ! unat idx = (0 < total (freeing idx) ts + listed idx a))
     \<and> (\<forall>idx. unat idx < unat (arMaxSlots a) \<longrightarrow>
          handed a \<le> unat idx \<or> 0 < total (cleared idx) ts + listed idx a \<longrightarrow> arMem a ! unat idx = z))"


lemma total_update:
  "t < length ts \<Longrightarrow> total f (ts[t := x]) = total f ts - f (ts ! t) + f x"
  by (rule sum_list_list_update)

lemma total_nonneg: "0 \<le> total (holds idx) ts" "0 \<le> total (freeing idx) ts" "0 \<le> total (cleared idx) ts" "0 \<le> total is_over ts"
proof -
  have "0 \<le> holds idx g" "0 \<le> freeing idx g" "0 \<le> cleared idx g" "0 \<le> is_over g" for g
    by (cases g; simp)+
  then show "0 \<le> total (holds idx) ts" "0 \<le> total (freeing idx) ts" "0 \<le> total (cleared idx) ts" "0 \<le> total is_over ts"
    by (auto intro!: sum_list_nonneg)
qed

lemma total_le: "total (cleared idx) ts \<le> total (freeing idx) ts" "total (freeing idx) ts \<le> total (holds idx) ts"
    "total is_over ts \<le> int (length ts)"
proof -
  have "cleared idx g \<le> freeing idx g" "freeing idx g \<le> holds idx g" for g
    by (cases g; simp)+
  then show "total (cleared idx) ts \<le> total (freeing idx) ts" "total (freeing idx) ts \<le> total (holds idx) ts"
    by (auto intro!: sum_list_mono)
  show "total is_over ts \<le> int (length ts)"
  proof (induction ts)
    case (Cons g ts)
    then show ?case by (cases g) auto
  qed simp
qed

lemma total_owner:
  assumes "t < length ts" "ts ! t = Has idx"
  shows "total (freeing idx) ts + 1 \<le> total (holds idx) ts"
  using assms
proof (induction ts arbitrary: t)
  case (Cons g ts)
  have le: "freeing idx h \<le> holds idx h" for h by (cases h) simp_all
  show ?case
  proof (cases t)
    case 0
    then show ?thesis using Cons.prems total_le(2) [of idx ts] by simp
  next
    case (Suc t')
    then show ?thesis using Cons.IH [of t'] Cons.prems le [of g] by simp
  qed
qed simp

lemma total_no_owner: "Has idx \<notin> set ts \<Longrightarrow> total (freeing idx) ts = total (holds idx) ts"
proof (induction ts)
  case (Cons g ts)
  then show ?case by (cases g) auto
qed simp

lemma unat_u32: "unat (x :: u32) < 2 ^ 32"
  using unat_bound [of x] by simp

lemma arena_okD:
  assumes "arena_ok z (a, ts)"
  shows "length (arMem a) = unat (arMaxSlots a)" "length (arInFree a) = unat (arMaxSlots a)"
    "unat (arMaxSlots a) + length ts + 1 < 2 ^ 32"
    "int (unat (arOffset a)) = int (handed a) + total is_over ts"
    "total (holds idx) ts + listed idx a = (if unat idx < handed a then 1 else 0)"
    "unat idx < unat (arMaxSlots a) \<Longrightarrow> arInFree a ! unat idx = (0 < total (freeing idx) ts + listed idx a)"
    "unat idx < unat (arMaxSlots a) \<Longrightarrow> handed a \<le> unat idx \<or> 0 < total (cleared idx) ts + listed idx a \<Longrightarrow> arMem a ! unat idx = z"
  using assms unfolding arena_ok_def by blast+

lemma count_list_butlast: "xs \<noteq> [] \<Longrightarrow> int (count_list (butlast xs) x) = int (count_list xs x) - (if last xs = x then 1 else 0)"
proof -
  assume "xs \<noteq> []"
  then have "count_list xs x = count_list (butlast xs @ [last xs]) x" by simp
  then show ?thesis by simp
qed

text \<open>Taking a slot off the free list.\<close>

lemma popFree_hit:
  assumes "popFree a = (Some idx, a')"
  shows "0 < listed idx a" "a' = a\<lparr>arFree := butlast (arFree a), arInFree := (arInFree a)[unat idx := False]\<rparr>"
    "listed i a' = listed i a - (if idx = i then 1 else 0)"
proof -
  have f: "arFree a \<noteq> []" "idx = last (arFree a)" using assms by (auto simp: popFree_def Let_def split: if_splits)
  then show "a' = a\<lparr>arFree := butlast (arFree a), arInFree := (arInFree a)[unat idx := False]\<rparr>"
    using assms by (simp add: popFree_def Let_def)
  then show "listed i a' = listed i a - (if idx = i then 1 else 0)" using count_list_butlast [OF f(1)] f(2) by simp
  show "0 < listed idx a" using f last_in_set [OF f(1)] count_list_0_iff [of "arFree a" idx] by (auto intro: gr0I)
qed

lemma handed_less: "handed a \<le> unat (arMaxSlots a)"
  by (simp add: handed_def)

lemma arena_ok_hit:
  assumes ok: "arena_ok z (a, ts)" and t: "t < length ts" "ts ! t = Idle \<or> ts ! t = Retry" and pop: "popFree a = (Some idx, a')"
  shows "arena_ok z (a', ts[t := Has idx])" "arMem a' ! unat idx = z" "Has idx \<notin> set ts"
proof -
  note p = popFree_hit [OF pop]
  have one: "listed idx a = 1" "total (holds idx) ts = 0" and h: "unat idx < handed a"
    using arena_okD(5) [OF ok, of idx] p(1) total_nonneg(1) [of idx ts] by (cases "unat idx < handed a"; simp)+
  then have fr: "total (freeing idx) ts = 0" "total (cleared idx) ts = 0"
    using total_le(1) [of idx ts] total_le(2) [of idx ts] total_nonneg(2) [of idx ts] total_nonneg(3) [of idx ts] by linarith+
  have lt: "unat idx < unat (arMaxSlots a)" using h handed_less [of a] by linarith
  show mem: "arMem a' ! unat idx = z" using arena_okD(7) [OF ok lt] p(1,2) fr by simp
  show "Has idx \<notin> set ts"
    using total_owner one(2) total_nonneg(2) [of idx ts] by (fastforce simp: in_set_conv_nth)
  have upd: "total f (ts[t := Has idx]) = total f ts - f (ts ! t) + f (Has idx)" for f by (rule total_update) (rule t)
  have z0: "holds i (ts ! t) = 0" "freeing i (ts ! t) = 0" "cleared i (ts ! t) = 0" "is_over (ts ! t) = 0" for i
    using t(2) by auto
  have same: "arMem a' = arMem a" "arMaxSlots a' = arMaxSlots a" "arOffset a' = arOffset a" "handed a' = handed a"
    "arInFree a' = (arInFree a)[unat idx := False]"
    by (simp_all add: p(2) handed_def)
  have inj: "unat i = unat idx \<longleftrightarrow> i = idx" for i :: u32 by (metis word_unat_eq_iff)
  show "arena_ok z (a', ts[t := Has idx])"
    unfolding arena_ok_def prod.case upd z0 same p(3)
  proof (intro conjI allI impI)
    fix i :: u32 assume i: "unat i < unat (arMaxSlots a)"
    show "(arInFree a)[unat idx := False] ! unat i
        = (0 < total (freeing i) ts - 0 + freeing i (Has idx) + (listed i a - (if idx = i then 1 else 0)))"
      using arena_okD(2) [OF ok] arena_okD(6) [OF ok i] i one fr inj [of i] by (cases "i = idx") (auto simp: nth_list_update)
    assume "handed a \<le> unat i \<or> 0 < total (cleared i) ts - 0 + cleared i (Has idx) + (listed i a - (if idx = i then 1 else 0))"
    then show "arMem a ! unat i = z" using arena_okD(7) [OF ok i] by (auto split: if_splits)
  next
    fix i show "total (holds i) ts - 0 + holds i (Has idx) + (listed i a - (if idx = i then 1 else 0)) = (if unat i < handed a then 1 else 0)"
      using arena_okD(5) [OF ok, of i] by auto
  qed (use arena_okD(1-4) [OF ok] in auto)
qed


lemma arena_ok_quiet:
  assumes ok: "arena_ok z (a, ts)" and t: "t < length ts"
    and "\<And>i. holds i g = holds i (ts ! t)" "\<And>i. freeing i g = freeing i (ts ! t)" "\<And>i. cleared i g = cleared i (ts ! t)"
      "is_over g = is_over (ts ! t)"
  shows "arena_ok z (a, ts[t := g])"
  using ok t assms(3-6) by (simp add: arena_ok_def total_update)

lemma popFree_miss: "popFree a = (None, a') \<Longrightarrow> a' = a"
  by (auto simp: popFree_def Let_def split: if_splits)

lemma unat_offset_Suc:
  assumes "arena_ok z (a, ts)"
  shows "unat (arOffset a + 1) = unat (arOffset a) + 1"
proof (rule unat_plus_1)
  show "unat (arOffset a) + 1 < 2 ^ LENGTH(32)"
    using arena_okD(3,4) [OF assms] handed_less [of a] total_le(3) [of ts]
    by (simp del: of_nat_unat)
qed

text \<open>The bump counter hands out the next slot, or runs past the end.\<close>

lemma arena_ok_bumped:
  assumes ok: "arena_ok z (a, ts)" and t: "t < length ts" "ts ! t = Missed" and b: "bump a = (idx, a')"
  shows "arena_ok z (a', ts[t := (if idx < arMaxSlots a' then Has idx else Over)])"
    "idx < arMaxSlots a' \<Longrightarrow> arMem a' ! unat idx = z \<and> Has idx \<notin> set ts"
proof -
  have a': "a' = a\<lparr>arOffset := arOffset a + 1\<rparr>" and idx: "idx = arOffset a" using b by (auto simp: bump_def)
  note up = unat_offset_Suc [OF ok]
  let ?g = "if idx < arMaxSlots a then Has idx else Over"
  have upd: "total f (ts[t := ?g]) = total f ts - f (ts ! t) + f ?g" for f by (rule total_update) (rule t)
  have z0: "holds i (ts ! t) = 0" "freeing i (ts ! t) = 0" "cleared i (ts ! t) = 0" "is_over (ts ! t) = 0" for i
    using t(2) by auto
  have same: "arMem a' = arMem a" "arMaxSlots a' = arMaxSlots a" "arInFree a' = arInFree a" "arFree a' = arFree a"
    by (simp_all add: a')
  have lt: "idx < arMaxSlots a \<longleftrightarrow> unat (arOffset a) < unat (arMaxSlots a)"
    by (simp add: a' idx word_less_nat_alt)
  have hd: "handed a' = (if idx < arMaxSlots a then Suc (handed a) else handed a)"
    and off: "idx < arMaxSlots a \<Longrightarrow> unat idx = handed a"
    unfolding lt by (auto simp: handed_def up a' idx)
  have out: "total (holds idx) ts = 0" "listed idx a = 0" if "idx < arMaxSlots a"
    using arena_okD(5) [OF ok, of idx] off [OF that] total_nonneg(1) [of idx ts] by simp_all
  have fr: "total (freeing idx) ts = 0" "total (cleared idx) ts = 0" if "idx < arMaxSlots a"
    using out [OF that] total_le(1) [of idx ts] total_le(2) [of idx ts] total_nonneg(2) [of idx ts] total_nonneg(3) [of idx ts] by linarith+
  have inj: "unat i = unat idx \<longleftrightarrow> i = idx" for i :: u32 by (metis word_unat_eq_iff)
  show "idx < arMaxSlots a' \<Longrightarrow> arMem a' ! unat idx = z \<and> Has idx \<notin> set ts"
  proof (intro conjI)
    assume "idx < arMaxSlots a'"
    then have l: "idx < arMaxSlots a" by (simp add: same)
    show "arMem a' ! unat idx = z" using arena_okD(7) [OF ok, of idx] off [OF l] l lt by (simp add: same idx)
    show "Has idx \<notin> set ts"
      using total_owner out(1) [OF l] fr(1) [OF l] by (fastforce simp: in_set_conv_nth)
  qed
  have "arena_ok z (a', ts[t := ?g])"
    unfolding arena_ok_def prod.case upd z0 same length_list_update
  proof (intro conjI allI impI)
    show "int (unat (arOffset a')) = int (handed a') + (total is_over ts - 0 + is_over ?g)"
    proof -
      have "arOffset a' = arOffset a + 1" by (simp add: a')
      then show ?thesis using arena_okD(4) [OF ok] by (simp add: hd up del: of_nat_unat)
    qed
  next
    fix i :: u32
    show "total (holds i) ts - 0 + holds i ?g + listed i a = (if unat i < handed a' then 1 else 0)"
    proof (cases "idx < arMaxSlots a \<and> i = idx")
      case True
      then show ?thesis using out off by (simp add: hd)
    next
      case False
      then show ?thesis using arena_okD(5) [OF ok, of i] off inj [of i] by (auto simp: hd less_Suc_eq)
    qed
    assume i: "unat i < unat (arMaxSlots a)"
    show "arInFree a ! unat i = (0 < total (freeing i) ts - 0 + freeing i ?g + listed i a)"
      using arena_okD(6) [OF ok i] by simp
    assume h: "handed a' \<le> unat i \<or> 0 < total (cleared i) ts - 0 + cleared i ?g + listed i a"
    show "arMem a ! unat i = z"
      using arena_okD(7) [OF ok i] h by (auto simp: hd split: if_splits)
  qed (use arena_okD(1-3) [OF ok] in auto)
  then show "arena_ok z (a', ts[t := (if idx < arMaxSlots a' then Has idx else Over)])" by (simp add: same)
qed

lemma arena_ok_rolled:
  assumes ok: "arena_ok z (a, ts)" and t: "t < length ts" "ts ! t = Over"
  shows "arena_ok z (rollback a, ts[t := Retry])"
proof -
  have upd: "total f (ts[t := Retry]) = total f ts - f (ts ! t) + f Retry" for f by (rule total_update) (rule t)
  have "0 \<le> total is_over (ts[t := Retry])" by (rule total_nonneg)
  then have over: "1 \<le> total is_over ts" using t(2) by (simp add: upd)
  then have off: "handed a < unat (arOffset a)" using arena_okD(4) [OF ok] by linarith
  then have full: "handed a = unat (arMaxSlots a)" by (simp add: handed_def min_def split: if_splits)
  have dec: "unat (arOffset (rollback a)) = unat (arOffset a) - 1"
  proof -
    have "arOffset (rollback a) = arOffset a - 1" by (simp add: rollback_def)
    moreover have "arOffset a \<noteq> 0" using off by auto
    ultimately show ?thesis by (simp add: unat_minus_one)
  qed
  have hd: "handed (rollback a) = handed a"
    using off full dec by (simp add: handed_def rollback_def)
  have same: "arMem (rollback a) = arMem a" "arMaxSlots (rollback a) = arMaxSlots a" "arInFree (rollback a) = arInFree a"
    "arFree (rollback a) = arFree a" by (simp_all add: rollback_def)
  show ?thesis
    using ok off over t dec
    by (simp add: arena_ok_def upd same hd del: of_nat_unat)
qed


lemma arena_ok_store:
  assumes ok: "arena_ok z (a, ts)" and own: "Has idx \<in> set ts"
  shows "arena_ok z (a\<lparr>arMem := (arMem a)[unat idx := x]\<rparr>, ts)"
proof -
  obtain t where t: "t < length ts" "ts ! t = Has idx" using own by (auto simp: in_set_conv_nth)
  have "total (freeing idx) ts + 1 \<le> total (holds idx) ts" by (rule total_owner) (rule t)+
  then have one: "listed idx a = 0" "total (cleared idx) ts = 0" "unat idx < handed a"
    using arena_okD(5) [OF ok, of idx] total_le(1) [of idx ts] total_nonneg(2,3) [of idx ts]
    by (cases "unat idx < handed a"; simp)+
  have inj: "unat i = unat idx \<longleftrightarrow> i = idx" for i :: u32 by (metis word_unat_eq_iff)
  have hd: "handed (a\<lparr>arMem := m\<rparr>) = handed a" for m by (simp add: handed_def)
  have "(arMem a)[unat idx := x] ! unat i = z"
    if "unat i < unat (arMaxSlots a)" "handed a \<le> unat i \<or> 0 < total (cleared i) ts + listed i a" for i :: u32
    using that one inj [of i] arena_okD(7) [OF ok that] by (cases "i = idx") auto
  then show ?thesis using ok by (simp add: arena_ok_def hd)
qed

text \<open>A release is accepted exactly for the owner: a second release and one of a slot never handed out are refused.\<close>

lemma Free_mark_owner:
  assumes ok: "arena_ok z (a, ts)" and mark: "Free_mark idx a = (True, a')"
  shows "a' = a\<lparr>arInFree := (arInFree a)[unat idx := True]\<rparr>" "unat idx < handed a" "Has idx \<in> set ts" "listed idx a = 0"
    "total (freeing idx) ts = 0" "total (holds idx) ts = 1"
proof -
  have c: "idx < arMaxSlots a" "\<not> arInFree a ! unat idx" "idx < arOffset a"
    and a': "a' = a\<lparr>arInFree := (arInFree a)[unat idx := True]\<rparr>"
    using mark by (auto simp: Free_mark_def not_le split: if_splits)
  show "a' = a\<lparr>arInFree := (arInFree a)[unat idx := True]\<rparr>" by (rule a')
  show h: "unat idx < handed a" using c by (simp add: handed_def word_less_nat_alt)
  have "unat idx < unat (arMaxSlots a)" using c by (simp add: word_less_nat_alt)
  then show fl: "listed idx a = 0" "total (freeing idx) ts = 0"
    using arena_okD(6) [OF ok, of idx] c(2) total_nonneg(2) [of idx ts] by simp_all
  show hold: "total (holds idx) ts = 1" using arena_okD(5) [OF ok, of idx] h fl by simp
  show "Has idx \<in> set ts" using total_no_owner [of idx ts] hold fl by auto
qed

lemma arena_ok_mark:
  assumes ok: "arena_ok z (a, ts)" and t: "t < length ts" "ts ! t = Has idx \<or> ts ! t = Idle \<and> Has idx \<notin> set ts"
    and mark: "Free_mark idx a = (ok', a')" and open_: "\<not> arClosed a"
  shows "arena_ok z (a', ts[t := (if ok' then Marked idx else Idle)])"
proof (cases ok')
  case True
  have "Free_mark idx a = (True, a')" using mark True by simp
  note m = Free_mark_owner [OF ok this]
  have own: "ts ! t = Has idx" using t(2) m(3) by blast
  have upd: "total f (ts[t := Marked idx]) = total f ts - f (ts ! t) + f (Marked idx)" for f by (rule total_update) (rule t)
  have inj: "unat i = unat idx \<longleftrightarrow> i = idx" for i :: u32 by (metis word_unat_eq_iff)
  have hd: "handed a' = handed a" by (simp add: m(1) handed_def)
  have "(arInFree a)[unat idx := True] ! unat i = (0 < total (freeing i) (ts[t := Marked idx]) + listed i a)"
    if "unat i < unat (arMaxSlots a)" for i :: u32
    using that inj [of i] arena_okD(6) [OF ok that] arena_okD(2) [OF ok] m(4,5)
    by (cases "i = idx") (auto simp: upd own nth_list_update)
  then show ?thesis using True ok own t(1) m(4,5) by (simp add: arena_ok_def hd upd) (simp add: m(1))
next
  case False
  then have same: "a' = a" using mark by (auto simp: Free_mark_def split: if_splits)
  have "ts ! t = Idle"
  proof (rule ccontr)
    assume "ts ! t \<noteq> Idle"
    then have own: "ts ! t = Has idx" using t(2) by blast
    then have "total (freeing idx) ts + 1 \<le> total (holds idx) ts" using total_owner t(1) by blast
    then have h: "listed idx a = 0" "total (freeing idx) ts = 0" "unat idx < handed a"
      using arena_okD(5) [OF ok, of idx] total_nonneg(2) [of idx ts] by (cases "unat idx < handed a"; simp)+
    then have "idx < arMaxSlots a" "idx < arOffset a" "\<not> arInFree a ! unat idx"
      using arena_okD(6) [OF ok, of idx] by (auto simp: handed_def word_less_nat_alt)
    then show False using mark False open_ by (simp add: Free_mark_def not_le [symmetric])
  qed
  then show ?thesis using ok t(1) False by (simp add: same arena_ok_def total_update)
qed

lemma arena_ok_clear:
  assumes ok: "arena_ok z (a, ts)" and t: "t < length ts" "ts ! t = Marked idx"
  shows "arena_ok z (Free_clear z idx a, ts[t := Cleared idx])"
proof -
  have upd: "total f (ts[t := Cleared idx]) = total f ts - f (ts ! t) + f (Cleared idx)" for f by (rule total_update) (rule t)
  have inj: "unat i = unat idx \<longleftrightarrow> i = idx" for i :: u32 by (metis word_unat_eq_iff)
  have hd: "handed (Free_clear z idx a) = handed a" by (simp add: Free_clear_def handed_def)
  have "(arMem a)[unat idx := z] ! unat i = z"
    if "unat i < unat (arMaxSlots a)" "handed a \<le> unat i \<or> 0 < total (cleared i) (ts[t := Cleared idx]) + listed i a" for i :: u32
    using that inj [of i] arena_okD(7) [OF ok that(1)] arena_okD(1) [OF ok] t by (cases "i = idx") (auto simp: upd)
  then show ?thesis using ok t by (simp add: arena_ok_def hd upd) (simp add: Free_clear_def)
qed

lemma arena_ok_append:
  assumes ok: "arena_ok z (a, ts)" and t: "t < length ts" "ts ! t = Cleared idx"
  shows "arena_ok z (Free_append idx a, ts[t := Idle])"
proof -
  have upd: "total f (ts[t := Idle]) = total f ts - f (ts ! t) + f Idle" for f by (rule total_update) (rule t)
  have hd: "handed (Free_append idx a) = handed a" by (simp add: Free_append_def handed_def)
  have ls: "listed i (Free_append idx a) = listed i a + (if idx = i then 1 else 0)" for i by (simp add: Free_append_def)
  have eqs: "total (holds i) (ts[t := Idle]) + listed i (Free_append idx a) = total (holds i) ts + listed i a"
    "total (freeing i) (ts[t := Idle]) + listed i (Free_append idx a) = total (freeing i) ts + listed i a"
    "total (cleared i) (ts[t := Idle]) + listed i (Free_append idx a) = total (cleared i) ts + listed i a"
    "total is_over (ts[t := Idle]) = total is_over ts" for i
    using t(2) by (simp_all add: upd ls)
  have same: "arMem (Free_append idx a) = arMem a" "arMaxSlots (Free_append idx a) = arMaxSlots a"
    "arInFree (Free_append idx a) = arInFree a" "arOffset (Free_append idx a) = arOffset a" by (simp_all add: Free_append_def)
  show ?thesis using ok t unfolding arena_ok_def prod.case eqs same hd by simp
qed


section \<open>Executions\<close>

lemma arena_step_ok:
  assumes "arena_step z s s'" "arena_ok z s" "\<not> arClosed (fst s)"
  shows "arena_ok z s' \<and> \<not> arClosed (fst s') \<and> length (snd s') = length (snd s)"
  using assms
proof cases
  case (hit t ts a idx a')
  then show ?thesis using arena_ok_hit(1) [of z a ts t idx a'] popFree_hit(2) [of a idx a'] assms(2,3) by simp
next
  case (miss t ts a a')
  then show ?thesis using arena_ok_quiet [of z a ts t Missed] popFree_miss [of a a'] assms(2,3) by simp
next
  case (bumped t ts a idx a')
  then show ?thesis using arena_ok_bumped(1) [of z a ts t idx a'] assms(2,3) by (auto simp: bump_def)
next
  case (rolled t ts a)
  then show ?thesis using arena_ok_rolled [of z a ts t] assms(2,3) by (simp add: rollback_def)
next
  case (full t ts a a')
  then show ?thesis using arena_ok_quiet [of z a ts t Idle] popFree_miss [of a a'] assms(2,3) by simp
next
  case (store idx ts a x)
  then show ?thesis using arena_ok_store [of z a ts idx x] assms(2,3) by simp
next
  case (mark t ts idx a ok a')
  moreover have "\<not> arClosed a'" using mark assms(3) by (auto simp: Free_mark_def split: if_splits)
  ultimately show ?thesis using arena_ok_mark [of z a ts t idx ok a'] assms(2,3) by simp
next
  case (clear t ts idx a)
  then show ?thesis using arena_ok_clear [of z a ts t idx] assms(2,3) by (simp add: Free_clear_def)
next
  case (append t ts idx a)
  then show ?thesis using arena_ok_append [of z a ts t idx] assms(2,3) by (simp add: Free_append_def)
qed

lemma arena_reach_ok:
  assumes "(arena_step z)\<^sup>*\<^sup>* s s'" "arena_ok z s" "\<not> arClosed (fst s)"
  shows "arena_ok z s' \<and> \<not> arClosed (fst s') \<and> length (snd s') = length (snd s)"
  using assms by (induction rule: rtranclp_induct) (auto dest: arena_step_ok)

lemma arena_ok_New:
  assumes "arena_New mmap z slotSize maxSlots = Inr a" "maxSlots + int n + 1 < 2 ^ 32"
  shows "arena_ok z (a, replicate n Idle) \<and> \<not> arClosed a"
proof -
  have pos: "0 < maxSlots" using assms(1) by (auto simp: arena_New_def split: if_splits)
  then have max: "unat (word_of_int maxSlots :: u32) = nat maxSlots"
    using assms(2) by (simp add: unat_eq_nat_uint uint_word_of_int)
  have zero: "sum_list (replicate n (0 :: int)) = 0" by (simp add: sum_list_replicate)
  show ?thesis
    using assms pos
    by (auto simp: arena_New_def Let_def arena_ok_def handed_def max zero split: if_splits)
qed

lemma acquired:
  assumes "arena_step z (a, ts) (a', ts')" "arena_ok z (a, ts)" "t < length ts" "ts ! t \<noteq> Has idx" "ts' ! t = Has idx"
  shows "arMem a' ! unat idx = z \<and> Has idx \<notin> set ts"
  using assms(1)
proof cases
  case (hit t' i)
  then have "t' = t \<and> i = idx" using assms(3-5) by (cases "t' = t") auto
  then show ?thesis using arena_ok_hit(2,3) [OF assms(2), of t idx a'] hit by auto
next
  case (bumped t' i)
  then have "t' = t \<and> i = idx \<and> i < arMaxSlots a'" using assms(3-5) by (cases "t' = t") (auto split: if_splits)
  then show ?thesis using arena_ok_bumped(2) [OF assms(2), of t idx a'] bumped by auto
qed (use assms(3-5) in \<open>auto simp: nth_list_update split: if_splits\<close>)

lemma one_owner:
  assumes "arena_ok z (a, ts)" "i < length ts" "j < length ts" "ts ! i = Has idx" "ts ! j = Has idx"
  shows "i = j"
proof (rule ccontr)
  assume "i \<noteq> j"
  then have "total (freeing idx) (ts[i := Idle]) + 1 \<le> total (holds idx) (ts[i := Idle])"
    using assms by (intro total_owner [of j]) auto
  then have "2 \<le> total (holds idx) ts"
    using total_nonneg(2) [of idx "ts[i := Idle]"] assms(2,4) by (simp add: total_update)
  then show False using arena_okD(5) [OF assms(1), of idx] by (simp split: if_splits)
qed

text \<open>
  (C23) Whatever the interleaving of any number of goroutines that allocate, use and free slots, even
  ones that free a slot nobody holds: no slot ever has two owners, a slot that is handed out is
  cleared and was nobody's, and a release is accepted only while its slot has an owner, so a double
  free and a free of a slot never handed out change nothing.
\<close>

theorem arena_exclusive:
  assumes "arena_New mmap z slotSize maxSlots = Inr a0" and "maxSlots + int n + 1 < 2 ^ 32"
    and "(arena_step z)\<^sup>*\<^sup>* (a0, replicate n Idle) (a, ts)"
  shows "(\<forall>i j idx. i < n \<and> j < n \<and> ts ! i = Has idx \<and> ts ! j = Has idx \<longrightarrow> i = j)
    \<and> (\<forall>a' ts' t idx. arena_step z (a, ts) (a', ts') \<and> t < n \<and> ts ! t \<noteq> Has idx \<and> ts' ! t = Has idx \<longrightarrow>
         arMem a' ! unat idx = z \<and> Has idx \<notin> set ts)
    \<and> (\<forall>idx a'. Free_mark idx a = (True, a') \<longrightarrow> Has idx \<in> set ts)"
proof -
  have "arena_ok z (a, ts) \<and> length ts = n"
    using arena_reach_ok [OF assms(3)] arena_ok_New [OF assms(1,2)] by simp
  then show ?thesis using one_owner acquired Free_mark_owner(3) by metis
qed

theorem arena_exclusive_witness:
  "\<exists>a :: nat Arena. arena_New (\<lambda>_. True) 0 24 1 = Inr a \<and> (\<exists>a' ts'. (arena_step 0)\<^sup>*\<^sup>* (a, [Idle, Idle]) (a', ts') \<and>
     ts' = [Has 0, Missed] \<and> (\<forall>i j. i < 2 \<and> j < 2 \<and> ts' ! i = Has 0 \<and> ts' ! j = Has 0 \<longrightarrow> i = j))"
proof -
  let ?a = "\<lparr>arMem = [0 :: nat], arSlotSize = 24, arMaxSlots = 1, arOffset = 0, arFree = [], arInFree = [False], arClosed = False\<rparr>"
  have new: "arena_New (\<lambda>_. True) 0 24 1 = Inr ?a"
    by (simp add: arena_New_def arena_stride_def slotAlign_def Let_def)
  have s1: "arena_step 0 (?a, [Idle, Idle]) (?a, [Missed, Idle])"
    using arena_step.miss [of 0 "[Idle, Idle]" ?a ?a 0] by (simp add: popFree_def)
  have s2: "arena_step 0 (?a, [Missed, Idle]) (?a, [Missed, Missed])"
    using arena_step.miss [of 1 "[Missed, Idle]" ?a ?a 0] by (simp add: popFree_def)
  have s3: "arena_step 0 (?a, [Missed, Missed]) (?a\<lparr>arOffset := 1\<rparr>, [Has 0, Missed])"
    using arena_step.bumped [of 0 "[Missed, Missed]" ?a 0 "?a\<lparr>arOffset := 1\<rparr>" 0] by (simp add: bump_def)
  have "(arena_step 0)\<^sup>*\<^sup>* (?a, replicate 2 Idle) (?a\<lparr>arOffset := 1\<rparr>, [Has 0, Missed])"
    using s1 s2 s3 by (simp add: numeral_2_eq_2)
  with arena_exclusive [OF new _ this] new show ?thesis by (auto simp: numeral_2_eq_2)
qed

end
