(* ===== verification/Arena_State.thy ===== *)
theory Arena_State
  imports Arena Client
begin

text \<open>
  Model of \<^verbatim>\<open>internal/arena/session.go\<close> and \<^verbatim>\<open>internal/arena/state.go\<close>: the session state that lives in
  a fixed-layout slot of the arena. An \<open>ArenaState\<close> points to its slot by index, so its methods read
  and write the memory of the arena. The session state on the heap (\<^verbatim>\<open>client.State\<close>) is the
  specification it has to meet.
\<close>

definition MaxSubjectLen :: nat where "MaxSubjectLen = 128"
definition MaxSubscriptions :: nat where "MaxSubscriptions = 16"
definition MaxChanNameLen :: nat where "MaxChanNameLen = 256"

record SessionSlot =
  slID :: u64
  slAuthenticated :: u32
  slExpiresAt :: int
  slSubject :: bytes
  slSubjectLen :: u32
  slSubCount :: u32
  slSubscriptions :: "bytes list"
  slSubLens :: "u32 list"

text \<open>Cleared memory, read as a slot.\<close>

definition zero_slot :: SessionSlot where
  "zero_slot = \<lparr>slID = 0, slAuthenticated = 0, slExpiresAt = 0, slSubject = replicate MaxSubjectLen (CHR 0x00), slSubjectLen = 0,
     slSubCount = 0, slSubscriptions = replicate MaxSubscriptions (replicate MaxChanNameLen (CHR 0x00)),
     slSubLens = replicate MaxSubscriptions 0\<rparr>"

text \<open>Go's \<^verbatim>\<open>copy\<close>: the number of bytes copied and the destination after it.\<close>

definition copy :: "bytes \<Rightarrow> bytes \<Rightarrow> nat \<times> bytes" where
  "copy dst src = (let n = min (length dst) (length src) in (n, take n src @ drop n dst))"

definition SetSubject :: "string \<Rightarrow> SessionSlot \<Rightarrow> SessionSlot" where
  "SetSubject subject s =
     (case copy (slSubject s) subject of (n, mem) \<Rightarrow> s\<lparr>slSubject := mem, slSubjectLen := of_nat n\<rparr>)"

definition GetSubject :: "SessionSlot \<Rightarrow> string" where
  "GetSubject s = take (unat (slSubjectLen s)) (slSubject s)"

definition matchSub :: "nat \<Rightarrow> string \<Rightarrow> SessionSlot \<Rightarrow> bool" where
  "matchSub idx channel s =
     (let n = slSubLens s ! idx
      in if of_nat (length channel) \<noteq> n then False else take (unat n) (slSubscriptions s ! idx) = channel)"

text \<open>The scan that the three methods share: the first entry that matches.\<close>

definition findSub :: "string \<Rightarrow> SessionSlot \<Rightarrow> nat option" where
  "findSub channel s = find (\<lambda>i. matchSub i channel s) [0..<unat (slSubCount s)]"

definition Slot_AddSubscription :: "string \<Rightarrow> SessionSlot \<Rightarrow> bool \<times> SessionSlot" where
  "Slot_AddSubscription channel s =
     (if findSub channel s \<noteq> None then (False, s)
      else if slSubCount s \<ge> of_nat MaxSubscriptions then (False, s)
      else
        (let idx = unat (slSubCount s)
         in case copy (slSubscriptions s ! idx) channel of
              (n, mem) \<Rightarrow> (True, s\<lparr>slSubscriptions := (slSubscriptions s)[idx := mem],
                                  slSubLens := (slSubLens s)[idx := of_nat n], slSubCount := slSubCount s + 1\<rparr>)))"

definition Slot_RemoveSubscription :: "string \<Rightarrow> SessionSlot \<Rightarrow> bool \<times> SessionSlot" where
  "Slot_RemoveSubscription channel s =
     (case findSub channel s of
        None \<Rightarrow> (False, s)
      | Some i \<Rightarrow>
          (let last = unat (slSubCount s - 1);
               s1 = (if i \<noteq> last
                     then s\<lparr>slSubscriptions := (slSubscriptions s)[i := slSubscriptions s ! last],
                            slSubLens := (slSubLens s)[i := slSubLens s ! last]\<rparr>
                     else s)
           in (True, s1\<lparr>slSubscriptions := (slSubscriptions s1)[last := replicate MaxChanNameLen (CHR 0x00)],
                        slSubLens := (slSubLens s1)[last := 0], slSubCount := slSubCount s1 - 1\<rparr>)))"

definition IsSubscribed :: "string \<Rightarrow> SessionSlot \<Rightarrow> bool" where
  "IsSubscribed channel s \<longleftrightarrow> findSub channel s \<noteq> None"

section \<open>The state\<close>

record ArenaState =
  asId :: int
  asIdx :: u32
  asFreed :: bool
  asChannels :: "string list option"
  asPub :: "string list option"

type_synonym session_arena = "SessionSlot Arena"

definition slot_of :: "ArenaState \<Rightarrow> session_arena \<Rightarrow> SessionSlot" where
  "slot_of s a = arMem a ! unat (asIdx s)"

definition put_slot :: "ArenaState \<Rightarrow> SessionSlot \<Rightarrow> session_arena \<Rightarrow> session_arena" where
  "put_slot s sl a = a\<lparr>arMem := (arMem a)[unat (asIdx s) := sl]\<rparr>"

definition NewArenaStateAuto :: "session_arena \<Rightarrow> int \<Rightarrow> (arena_error + ArenaState) \<times> session_arena" where
  "NewArenaStateAuto a baseID =
     (case Alloc a of
        (Inl err, a1) \<Rightarrow> (Inl err, a1)
      | (Inr idx, a1) \<Rightarrow>
          (let i = baseID + int (unat idx);
               s = \<lparr>asId = i, asIdx = idx, asFreed = False, asChannels = None, asPub = None\<rparr>
           in (Inr s, put_slot s ((slot_of s a1)\<lparr>slID := word_of_int i\<rparr>) a1)))"

definition Arena_IsAuthenticated :: "ArenaState \<Rightarrow> session_arena \<Rightarrow> bool" where
  "Arena_IsAuthenticated s a \<longleftrightarrow> slAuthenticated (slot_of s a) = 1"

definition Arena_Authenticate :: "Claims \<Rightarrow> ArenaState \<Rightarrow> session_arena \<Rightarrow> ArenaState \<times> session_arena" where
  "Arena_Authenticate c s a =
     (let sl1 = SetSubject (Subject c) (slot_of s a);
          sl2 = sl1\<lparr>slExpiresAt := (case ExpiresAt c of None \<Rightarrow> 0 | Some t \<Rightarrow> t)\<rparr>
      in (s\<lparr>asChannels := Channels c, asPub := Pub c\<rparr>, put_slot s (sl2\<lparr>slAuthenticated := 1\<rparr>) a))"

definition Arena_Subject :: "ArenaState \<Rightarrow> session_arena \<Rightarrow> string" where
  "Arena_Subject s a = GetSubject (slot_of s a)"

definition Arena_ExpiresAt :: "ArenaState \<Rightarrow> session_arena \<Rightarrow> int option" where
  "Arena_ExpiresAt s a = (let t = slExpiresAt (slot_of s a) in if t = 0 then None else Some t)"

definition Arena_CanSubscribe :: "string \<Rightarrow> ArenaState \<Rightarrow> bool" where
  "Arena_CanSubscribe channel s = CanSubscribe (zero_claims\<lparr>Channels := asChannels s\<rparr>) channel"

definition Arena_CanPublish :: "string \<Rightarrow> ArenaState \<Rightarrow> bool" where
  "Arena_CanPublish channel s = CanPublish (zero_claims\<lparr>Pub := asPub s\<rparr>) channel"

definition Arena_AddSubscription :: "string \<Rightarrow> ArenaState \<Rightarrow> session_arena \<Rightarrow> AddSubscriptionResult \<times> session_arena" where
  "Arena_AddSubscription channel s a =
     (case Slot_AddSubscription channel (slot_of s a) of
        (added, sl) \<Rightarrow>
          (if added then SubscriptionAdded
           else if IsSubscribed channel sl then SubscriptionAlreadyPresent
           else SubscriptionCapReached, put_slot s sl a))"

definition Arena_RemoveSubscription :: "string \<Rightarrow> ArenaState \<Rightarrow> session_arena \<Rightarrow> session_arena" where
  "Arena_RemoveSubscription channel s a = put_slot s (snd (Slot_RemoveSubscription channel (slot_of s a))) a"

definition IsSubscribedTo :: "string \<Rightarrow> ArenaState \<Rightarrow> session_arena \<Rightarrow> bool" where
  "IsSubscribedTo channel s a = IsSubscribed channel (slot_of s a)"

definition Arena_SubscriptionCount :: "ArenaState \<Rightarrow> session_arena \<Rightarrow> int" where
  "Arena_SubscriptionCount s a = int (unat (slSubCount (slot_of s a)))"

definition ArenaState_Close :: "ArenaState \<Rightarrow> session_arena \<Rightarrow> ArenaState \<times> session_arena" where
  "ArenaState_Close s a = (if asFreed s then (s, a) else (s\<lparr>asFreed := True\<rparr>, Free zero_slot (asIdx s) a))"

section \<open>The names in a slot\<close>

definition slot_names :: "SessionSlot \<Rightarrow> string list" where
  "slot_names s = map (\<lambda>i. take (unat (slSubLens s ! i)) (slSubscriptions s ! i)) [0..<unat (slSubCount s)]"

text \<open>The layout of a slot, and the distinct names in it.\<close>

definition slot_ok :: "SessionSlot \<Rightarrow> bool" where
  "slot_ok s \<longleftrightarrow> length (slSubject s) = MaxSubjectLen \<and> unat (slSubCount s) \<le> MaxSubscriptions
     \<and> length (slSubscriptions s) = MaxSubscriptions \<and> length (slSubLens s) = MaxSubscriptions
     \<and> (\<forall>m \<in> set (slSubscriptions s). length m = MaxChanNameLen) \<and> (\<forall>n \<in> set (slSubLens s). unat n \<le> MaxChanNameLen)
     \<and> distinct (slot_names s)"

lemmas slot_sizes = MaxSubjectLen_def MaxSubscriptions_def MaxChanNameLen_def

lemma slot_ok_zero [simp]: "slot_ok zero_slot" "slot_names zero_slot = []"
  by (simp_all add: slot_ok_def zero_slot_def slot_names_def slot_sizes)

lemma slot_okD:
  assumes "slot_ok s"
  shows "unat (slSubCount s) \<le> 16" "length (slSubscriptions s) = 16" "length (slSubLens s) = 16" "length (slSubject s) = 128"
    "i < 16 \<Longrightarrow> length (slSubscriptions s ! i) = 256" "i < 16 \<Longrightarrow> unat (slSubLens s ! i) \<le> 256" "distinct (slot_names s)"
  using assms unfolding slot_ok_def slot_sizes by auto

lemma length_slot_names [simp]: "length (slot_names s) = unat (slSubCount s)"
  by (simp add: slot_names_def)

lemma matchSub_names:
  assumes "slot_ok s" "i < unat (slSubCount s)" "length channel \<le> 256"
  shows "matchSub i channel s \<longleftrightarrow> slot_names s ! i = channel"
proof -
  have i: "i < 16" using assms slot_okD(1) [OF assms(1)] by linarith
  let ?n = "slSubLens s ! i"
  have len: "length (take (unat ?n) (slSubscriptions s ! i)) = unat ?n"
    using slot_okD(5,6) [OF assms(1) i] by simp
  have "unat (of_nat (length channel) :: u32) = length channel"
    using assms(3) by (simp add: unat_of_nat)
  then have "of_nat (length channel) = ?n \<longleftrightarrow> length channel = unat ?n"
    by (metis word_unat_eq_iff)
  then show ?thesis
    using assms(2) len by (auto simp: matchSub_def Let_def slot_names_def)
qed

lemma findSub_names:
  assumes "slot_ok s" "length channel \<le> 256"
  shows "findSub channel s = None \<longleftrightarrow> channel \<notin> set (slot_names s)"
    "findSub channel s = Some i \<Longrightarrow> i < unat (slSubCount s) \<and> slot_names s ! i = channel"
proof -
  have "findSub channel s = find (\<lambda>i. slot_names s ! i = channel) [0..<unat (slSubCount s)]"
    unfolding findSub_def using matchSub_names [OF assms(1) _ assms(2)] by (intro find_cong) auto
  note f = this
  show "findSub channel s = None \<longleftrightarrow> channel \<notin> set (slot_names s)"
    by (auto simp: f find_None_iff in_set_conv_nth)
  show "findSub channel s = Some i \<Longrightarrow> i < unat (slSubCount s) \<and> slot_names s ! i = channel"
    by (auto simp: f find_Some_iff)
qed


lemma Slot_Add_names:
  assumes ok: "slot_ok s" and len: "length channel \<le> 256" and new: "channel \<notin> set (slot_names s)" and room: "unat (slSubCount s) < 16"
  obtains s' where "Slot_AddSubscription channel s = (True, s')" "slot_ok s'" "slot_names s' = slot_names s @ [channel]"
    "GetSubject s' = GetSubject s" "slAuthenticated s' = slAuthenticated s"
proof -
  let ?k = "unat (slSubCount s)"
  define mem where "mem = channel @ drop (length channel) (slSubscriptions s ! ?k)"
  let ?s = "s\<lparr>slSubscriptions := (slSubscriptions s)[?k := mem], slSubLens := (slSubLens s)[?k := of_nat (length channel)],
      slSubCount := slSubCount s + 1\<rparr>"
  note d = slot_okD [OF ok]
  have mlen: "length mem = 256" using d(5) [OF room] len by (simp add: mem_def)
  have un: "unat (of_nat (length channel) :: u32) = length channel" using len by (simp add: unat_of_nat)
  have cnt: "unat (slSubCount s + 1) = Suc ?k" using room unat_plus_1 [of "slSubCount s"] by simp
  have find: "findSub channel s = None" using findSub_names(1) [OF ok len] new by simp
  have "slSubCount s < of_nat MaxSubscriptions" using room by (simp add: word_less_nat_alt slot_sizes)
  then have run: "Slot_AddSubscription channel s = (True, ?s)"
    using find d(5) [OF room] len by (simp add: Slot_AddSubscription_def copy_def mem_def Let_def min_absorb2 not_le [symmetric])
  have names: "slot_names ?s = slot_names s @ [channel]"
  proof (rule nth_equalityI)
    fix i assume "i < length (slot_names ?s)"
    then have "i < ?k \<or> i = ?k" using cnt by (simp add: less_Suc_eq)
    then show "slot_names ?s ! i = (slot_names s @ [channel]) ! i"
      using room d(2,3) un by (auto simp: slot_names_def cnt mem_def nth_append nth_list_update less_Suc_eq)
  qed (simp add: cnt)
  have "slot_ok ?s"
    unfolding slot_ok_def
  proof (intro conjI ballI)
    fix m assume "m \<in> set (slSubscriptions ?s)"
    then have "m = mem \<or> m \<in> set (slSubscriptions s)" using set_update_subset_insert [of "slSubscriptions s" ?k mem] by auto
    then show "length m = MaxChanNameLen" using ok mlen by (auto simp: slot_ok_def slot_sizes)
  next
    fix n assume "n \<in> set (slSubLens ?s)"
    then have "n = of_nat (length channel) \<or> n \<in> set (slSubLens s)"
      using set_update_subset_insert [of "slSubLens s" ?k "of_nat (length channel)"] by auto
    then show "unat n \<le> MaxChanNameLen" using ok len un by (auto simp: slot_ok_def slot_sizes)
  next
    show "distinct (slot_names ?s)" unfolding names using d(7) new by simp
  qed (use d room in \<open>simp_all add: slot_sizes cnt\<close>)
  with run names show ?thesis by (intro that [of ?s]) (simp_all add: GetSubject_def)
qed

lemma Slot_Add_same:
  assumes "slot_ok s" "length channel \<le> 256" "channel \<in> set (slot_names s)"
  shows "Slot_AddSubscription channel s = (False, s)" "IsSubscribed channel s"
  using findSub_names(1) [OF assms(1,2)] assms(3) by (simp_all add: Slot_AddSubscription_def IsSubscribed_def)

text \<open>The swap with the last entry drops exactly one element.\<close>

lemma swap_remove_names:
  assumes "distinct xs" "i < length xs"
  shows "set (butlast (xs[i := last xs])) = set xs - {xs ! i}" "distinct (butlast (xs[i := last xs]))"
proof -
  have ne: "xs \<noteq> []" using assms(2) by auto
  then have split: "xs = butlast xs @ [last xs]" by simp
  then have dist: "distinct (butlast xs)" "last xs \<notin> set (butlast xs)" using assms(1) by (metis distinct_append, metis distinct_append disjoint_insert(1) list.simps(15))
  have "set (butlast (xs[i := last xs])) = set xs - {xs ! i} \<and> distinct (butlast (xs[i := last xs]))"
  proof (cases "i = length xs - 1")
    case True
    then have "xs[i := last xs] = xs" "xs ! i = last xs" using ne by (auto simp: last_conv_nth list_update_id)
    moreover have "set xs = insert (last xs) (set (butlast xs))" by (subst split) simp
    ultimately show ?thesis using dist by auto
  next
    case False
    then have i: "i < length (butlast xs)" using assms(2) by simp
    have "butlast (xs[i := last xs]) = (butlast xs)[i := last xs]" using False assms(2) by (simp add: butlast_list_update)
    moreover have "xs ! i = butlast xs ! i" using i by (simp add: nth_butlast)
    moreover have "set xs = insert (last xs) (set (butlast xs))" by (subst split) simp
    ultimately show ?thesis using dist i
      by (auto simp: set_update_distinct distinct_list_update)
  qed
  then show "set (butlast (xs[i := last xs])) = set xs - {xs ! i}" "distinct (butlast (xs[i := last xs]))" by auto
qed

lemma Slot_Remove_names:
  assumes ok: "slot_ok s" and len: "length channel \<le> 256"
  shows "slot_ok (snd (Slot_RemoveSubscription channel s))"
    "set (slot_names (snd (Slot_RemoveSubscription channel s))) = set (slot_names s) - {channel}"
    "GetSubject (snd (Slot_RemoveSubscription channel s)) = GetSubject s"
    "slAuthenticated (snd (Slot_RemoveSubscription channel s)) = slAuthenticated s"
proof -
  let ?s = "snd (Slot_RemoveSubscription channel s)"
  show "GetSubject ?s = GetSubject s" "slAuthenticated ?s = slAuthenticated s"
    by (auto simp: Slot_RemoveSubscription_def Let_def GetSubject_def split: option.splits)
  have "slot_ok ?s \<and> set (slot_names ?s) = set (slot_names s) - {channel}"
  proof (cases "findSub channel s")
    case None
    then show ?thesis using findSub_names(1) [OF ok len] ok by (simp add: Slot_RemoveSubscription_def)
  next
    case (Some i)
    note d = slot_okD [OF ok] and i = findSub_names(2) [OF ok len Some]
    let ?k = "unat (slSubCount s)"
    have cnt: "unat (slSubCount s - 1) = ?k - 1" using i by (intro unat_minus_one) auto
    have k: "?k - 1 < 16" "0 < ?k" using d(1) i by linarith+
    have nn: "slot_names s \<noteq> []" using i by (metis length_greater_0_conv length_slot_names k(2))
    have names: "slot_names ?s = butlast ((slot_names s)[i := last (slot_names s)])"
    proof (rule nth_equalityI)
      show "length (slot_names ?s) = length (butlast ((slot_names s)[i := last (slot_names s)]))"
        using Some cnt by (simp add: Slot_RemoveSubscription_def Let_def)
      fix j assume "j < length (slot_names ?s)"
      then have j: "j < ?k - 1" using Some cnt by (simp add: Slot_RemoveSubscription_def Let_def split: if_splits)
      then have jk: "j < ?k" "j < 16" "?k - 1 < 16" using d(1) by linarith+
      have "last (slot_names s) = slot_names s ! (?k - 1)" using nn by (simp add: last_conv_nth)
      then show "slot_names ?s ! j = butlast ((slot_names s)[i := last (slot_names s)]) ! j"
        using Some j jk cnt d(2,3) i k
        by (cases "j = i") (auto simp: Slot_RemoveSubscription_def Let_def slot_names_def nth_butlast)
    qed
    have "slot_ok ?s"
      unfolding slot_ok_def
    proof (intro conjI ballI)
      fix m assume m: "m \<in> set (slSubscriptions ?s)"
      have "set (slSubscriptions ?s) \<subseteq> set (slSubscriptions s) \<union> {replicate MaxChanNameLen (CHR 0x00)}"
        using Some k(1) d(2) cnt
        by (auto simp: Slot_RemoveSubscription_def Let_def dest!: set_update_subset_insert [THEN subsetD])
      with m show "length m = MaxChanNameLen" using ok by (auto simp: slot_ok_def)
    next
      fix n assume n: "n \<in> set (slSubLens ?s)"
      have "set (slSubLens ?s) \<subseteq> set (slSubLens s) \<union> {0}"
        using Some k(1) d(3) cnt
        by (auto simp: Slot_RemoveSubscription_def Let_def dest!: set_update_subset_insert [THEN subsetD])
      with n show "unat n \<le> MaxChanNameLen" using ok by (auto simp: slot_ok_def)
    next
      show "distinct (slot_names ?s)" unfolding names using d(7) i by (intro swap_remove_names) auto
    qed (use Some d(1-4) cnt k(1) in \<open>auto simp: Slot_RemoveSubscription_def Let_def slot_sizes\<close>)
    then show ?thesis unfolding names using swap_remove_names(1) [OF d(7), of i] i by simp
  qed
  then show "slot_ok ?s" "set (slot_names ?s) = set (slot_names s) - {channel}" by auto
qed


section \<open>The slot refines the heap state\<close>

datatype state_op = Auth Claims | Add string | Drop string

fun arena_op :: "state_op \<Rightarrow> ArenaState \<times> session_arena \<Rightarrow> AddSubscriptionResult option \<times> ArenaState \<times> session_arena" where
  "arena_op (Auth c) (s, a) = (None, Arena_Authenticate c s a)"
| "arena_op (Add ch) (s, a) = (case Arena_AddSubscription ch s a of (r, a') \<Rightarrow> (Some r, s, a'))"
| "arena_op (Drop ch) (s, a) = (None, s, Arena_RemoveSubscription ch s a)"

fun heap_op :: "state_op \<Rightarrow> State \<Rightarrow> AddSubscriptionResult option \<times> State" where
  "heap_op (Auth c) st = (None, State_Authenticate c st)"
| "heap_op (Add ch) st = (case AddSubscription ch st of (r, st') \<Rightarrow> (Some r, st'))"
| "heap_op (Drop ch) st = (None, RemoveSubscription ch st)"

fun arena_ops :: "state_op list \<Rightarrow> ArenaState \<times> session_arena \<Rightarrow> AddSubscriptionResult option list \<times> ArenaState \<times> session_arena" where
  "arena_ops [] x = ([], x)"
| "arena_ops (p # ps) x = (case arena_op p x of (r, x') \<Rightarrow> case arena_ops ps x' of (rs, y) \<Rightarrow> (r # rs, y))"

fun heap_ops :: "state_op list \<Rightarrow> State \<Rightarrow> AddSubscriptionResult option list \<times> State" where
  "heap_ops [] st = ([], st)"
| "heap_ops (p # ps) st = (case heap_op p st of (r, st') \<Rightarrow> case heap_ops ps st' of (rs, y) \<Rightarrow> (r # rs, y))"

text \<open>Operations that fit the fixed layout: what the protocol layer admits, with subjects the slot can hold.\<close>

fun op_fits :: "state_op \<Rightarrow> State \<Rightarrow> bool" where
  "op_fits (Auth c) st \<longleftrightarrow> length (Subject c) \<le> MaxSubjectLen"
| "op_fits (Add ch) st \<longleftrightarrow> length ch \<le> MaxChanNameLen \<and> (ch \<in> recorded st \<or> SubscriptionCount st < int MaxSubscriptions)"
| "op_fits (Drop ch) st \<longleftrightarrow> length ch \<le> MaxChanNameLen"

fun ops_fit :: "state_op list \<Rightarrow> State \<Rightarrow> bool" where
  "ops_fit [] st = True"
| "ops_fit (p # ps) st \<longleftrightarrow> op_fits p st \<and> ops_fit ps (snd (heap_op p st))"

definition state_rel :: "ArenaState \<times> session_arena \<Rightarrow> State \<Rightarrow> bool" where
  "state_rel = (\<lambda>(s, a) st. unat (asIdx s) < length (arMem a) \<and> slot_ok (slot_of s a)
     \<and> set (slot_names (slot_of s a)) = recorded st \<and> gomap_ok (stSubscriptions st)
     \<and> (slAuthenticated (slot_of s a) = 1) = stAuthenticated st \<and> GetSubject (slot_of s a) = Subject (stClaims st)
     \<and> asChannels s = Channels (stClaims st) \<and> asPub s = Pub (stClaims st))"

lemma slot_put [simp]: "unat (asIdx s) < length (arMem a) \<Longrightarrow> slot_of s (put_slot s sl a) = sl"
  "length (arMem (put_slot s sl a)) = length (arMem a)" "slot_of (s\<lparr>asChannels := x, asPub := y\<rparr>) a = slot_of s a"
  by (simp_all add: slot_of_def put_slot_def)

lemma rel_count: "state_rel (s, a) st \<Longrightarrow> SubscriptionCount st = int (unat (slSubCount (slot_of s a)))"
proof -
  assume r: "state_rel (s, a) st"
  then have "length (slot_names (slot_of s a)) = card (recorded st)"
    by (metis (mono_tags, lifting) state_rel_def case_prod_conv distinct_card slot_okD(7))
  moreover have "length (stSubscriptions st) = card (recorded st)"
    using r distinct_card [of "map fst (stSubscriptions st)"] by (simp add: state_rel_def gomap_ok_def recorded_def)
  ultimately show ?thesis by (simp add: SubscriptionCount_def)
qed

lemma state_op_rel:
  assumes rel: "state_rel (s, a) st" and fit: "op_fits p st"
  shows "fst (arena_op p (s, a)) = fst (heap_op p st) \<and> state_rel (snd (arena_op p (s, a))) (snd (heap_op p st))"
proof (cases p)
  case (Auth c)
  let ?sl = "slot_of s a"
  have ok: "slot_ok ?sl" using rel by (simp add: state_rel_def)
  have len: "length (Subject c) \<le> 128" using fit Auth by (simp add: slot_sizes)
  have un: "unat (of_nat (length (Subject c)) :: u32) = length (Subject c)" using len by (simp add: unat_of_nat)
  have set: "SetSubject (Subject c) ?sl
      = ?sl\<lparr>slSubject := Subject c @ drop (length (Subject c)) (slSubject ?sl), slSubjectLen := of_nat (length (Subject c))\<rparr>"
    using len slot_okD(4) [OF ok] by (simp add: SetSubject_def copy_def Let_def min_absorb2)
  have "slot_ok (?sl\<lparr>slSubject := Subject c @ drop (length (Subject c)) (slSubject ?sl), slSubjectLen := n, slExpiresAt := t, slAuthenticated := v\<rparr>)"
    for n t v
    using ok len by (simp add: slot_ok_def slot_names_def slot_sizes)
  then show ?thesis using rel Auth un
    by (simp add: state_rel_def Arena_Authenticate_def State_Authenticate_def Let_def set GetSubject_def slot_names_def recorded_def)
next
  case (Add ch)
  have ok: "slot_ok (slot_of s a)" and idx: "unat (asIdx s) < length (arMem a)" using rel by (simp_all add: state_rel_def)
  have len: "length ch \<le> 256" using fit Add by (simp add: slot_sizes)
  have names: "set (slot_names (slot_of s a)) = recorded st" using rel by (simp add: state_rel_def)
  have mem: "ch \<in> recorded st \<longleftrightarrow> gget (stSubscriptions st) ch \<noteq> None" by (simp add: recorded_def set_gkeys)
  show ?thesis
  proof (cases "ch \<in> recorded st")
    case True
    then have "Slot_AddSubscription ch (slot_of s a) = (False, slot_of s a)" "IsSubscribed ch (slot_of s a)"
      using Slot_Add_same [OF ok len] names by simp_all
    moreover have "put_slot s (slot_of s a) a = a" by (simp add: put_slot_def slot_of_def)
    ultimately show ?thesis using rel Add True mem by (simp add: Arena_AddSubscription_def AddSubscription_def)
  next
    case False
    then have "unat (slSubCount (slot_of s a)) < 16" using fit Add rel_count [OF rel]
      by (simp add: slot_sizes del: of_nat_unat)
    then obtain sl where sl: "Slot_AddSubscription ch (slot_of s a) = (True, sl)" "slot_ok sl"
        "slot_names sl = slot_names (slot_of s a) @ [ch]" "GetSubject sl = GetSubject (slot_of s a)"
        "slAuthenticated sl = slAuthenticated (slot_of s a)"
      using Slot_Add_names [OF ok len, of thesis] False names by blast
    then show ?thesis using rel Add False mem idx
      by (auto simp: Arena_AddSubscription_def AddSubscription_def state_rel_def recorded_def)
  qed
next
  case (Drop ch)
  have ok: "slot_ok (slot_of s a)" and idx: "unat (asIdx s) < length (arMem a)" using rel by (simp_all add: state_rel_def)
  have len: "length ch \<le> 256" using fit Drop by (simp add: slot_sizes)
  show ?thesis using Slot_Remove_names [OF ok len] rel Drop idx
    by (simp add: Arena_RemoveSubscription_def state_rel_def)
qed

lemma state_ops_rel:
  "state_rel x st \<Longrightarrow> ops_fit ps st \<Longrightarrow>
    fst (arena_ops ps x) = fst (heap_ops ps st) \<and> state_rel (snd (arena_ops ps x)) (snd (heap_ops ps st))"
proof (induction ps arbitrary: x st)
  case (Cons p ps)
  obtain s a where x: "x = (s, a)" by (cases x)
  have "fst (arena_op p x) = fst (heap_op p st) \<and> state_rel (snd (arena_op p x)) (snd (heap_op p st))"
    using state_op_rel [of s a st p] Cons.prems x by simp
  then show ?case using Cons.IH [of "snd (arena_op p x)" "snd (heap_op p st)"] Cons.prems by (auto split: prod.splits)
qed simp


text \<open>
  (C24) A session state that \<^verbatim>\<open>NewArenaStateAuto\<close> puts into a cleared slot behaves like the state on
  the heap: after any authentications, subscriptions and removals that fit the fixed layout (the
  subject in 128 bytes, a channel name in 256, at most 16 channels at once), every result, the
  authentication flag, the subject, the grants, the count and the membership of every channel name
  agree with \<^verbatim>\<open>client.State\<close>; the cap is never reported.
\<close>

theorem arena_state_refines:
  assumes "NewArenaStateAuto a base = (Inr s, a1)" and "unat (asIdx s) < length (arMem a)"
    and "arMem a ! unat (asIdx s) = zero_slot" and "ops_fit ps (NewState i)"
  shows "case (arena_ops ps (s, a1), heap_ops ps (NewState i)) of ((rs, s', a'), (rs', st)) \<Rightarrow>
    rs = rs' \<and> asId s = base + int (unat (asIdx s)) \<and> Arena_IsAuthenticated s' a' = IsAuthenticated st
    \<and> Arena_Subject s' a' = State_Subject st \<and> Arena_SubscriptionCount s' a' = SubscriptionCount st
    \<and> (\<forall>ch. Arena_CanSubscribe ch s' = State_CanSubscribe ch st \<and> Arena_CanPublish ch s' = State_CanPublish ch st)
    \<and> (\<forall>ch. length ch \<le> MaxChanNameLen \<longrightarrow> IsSubscribedTo ch s' a' = (ch \<in> recorded st))"
proof -
  obtain idx a2 where al: "Alloc a = (Inr idx, a2)" and s: "s = \<lparr>asId = base + int (unat idx), asIdx = idx, asFreed = False, asChannels = None, asPub = None\<rparr>"
      and a1: "a1 = put_slot s ((slot_of s a2)\<lparr>slID := word_of_int (base + int (unat idx))\<rparr>) a2"
    using assms(1) by (auto simp: NewArenaStateAuto_def Let_def split: prod.splits sum.splits)
  have mem: "arMem a2 = arMem a"
    using al by (auto simp: Alloc_def popFree_def bump_def rollback_def Let_def split: if_splits option.splits)
  have sl: "slot_of s a1 = zero_slot\<lparr>slID := word_of_int (base + int (unat idx))\<rparr>" and len: "unat (asIdx s) < length (arMem a1)"
    using assms(2,3) mem unfolding a1 by (simp_all add: slot_of_def put_slot_def)
  have z: "slot_ok (zero_slot\<lparr>slID := v\<rparr>)" "slot_names (zero_slot\<lparr>slID := v\<rparr>) = []" for v
    using slot_ok_zero by (simp_all add: slot_ok_def slot_names_def)
  have "state_rel (s, a1) (NewState i)"
    using len z by (simp add: state_rel_def sl NewState_def recorded_def zero_claims_def GetSubject_def)
      (simp add: zero_slot_def s)
  from state_ops_rel [OF this assms(4)]
  obtain rs s' a' st where r: "arena_ops ps (s, a1) = (rs, s', a')" "heap_ops ps (NewState i) = (rs, st)" "state_rel (s', a') st"
    by (metis prod.collapse)
  have sub: "IsSubscribedTo ch s' a' = (ch \<in> recorded st)" if "length ch \<le> MaxChanNameLen" for ch
    using findSub_names(1) [of "slot_of s' a'" ch] that r(3) by (simp add: IsSubscribedTo_def IsSubscribed_def state_rel_def slot_sizes)
  have id: "asId s = base + int (unat (asIdx s))" by (simp add: s)
  show ?thesis using r(3) rel_count [OF r(3)] sub id unfolding r(1,2)
    by (simp add: state_rel_def Arena_IsAuthenticated_def IsAuthenticated_def Arena_Subject_def State_Subject_def
        Arena_SubscriptionCount_def Arena_CanSubscribe_def State_CanSubscribe_def CanSubscribe_def Arena_CanPublish_def
        State_CanPublish_def CanPublish_def)
qed

theorem arena_state_refines_witness:
  "\<exists>a s a1. arena_New (\<lambda>_. True) zero_slot 4400 2 = Inr a \<and> NewArenaStateAuto a 1 = (Inr s, a1)
    \<and> fst (arena_ops [Auth (zero_claims\<lparr>Subject := ''amy''\<rparr>), Add ''news'', Add ''news'', Drop ''news''] (s, a1))
      = [None, Some SubscriptionAdded, Some SubscriptionAlreadyPresent, None]"
proof -
  let ?a = "\<lparr>arMem = [zero_slot, zero_slot], arSlotSize = 4400, arMaxSlots = 2, arOffset = 0, arFree = [], arInFree = [False, False], arClosed = False\<rparr>"
  let ?ps = "[Auth (zero_claims\<lparr>Subject := ''amy''\<rparr>), Add ''news'', Add ''news'', Drop ''news'']"
  have two: "replicate 2 zero_slot = [zero_slot, zero_slot]" "replicate 2 False = [False, False]"
    by (simp_all add: numeral_2_eq_2)
  have new: "arena_New (\<lambda>_. True) zero_slot 4400 2 = Inr ?a"
    using two by (simp add: arena_New_def arena_stride_def slotAlign_def Let_def)
  have "Alloc ?a = (Inr 0, ?a\<lparr>arOffset := 1\<rparr>)" by (simp add: Alloc_def popFree_def bump_def)
  then obtain s a1 where s: "NewArenaStateAuto ?a 1 = (Inr s, a1)" "asIdx s = 0"
    by (simp add: NewArenaStateAuto_def Let_def)
  have fit: "ops_fit ?ps (NewState 1)"
    by (simp add: slot_sizes zero_claims_def NewState_def State_Authenticate_def AddSubscription_def recorded_def SubscriptionCount_def gput_def)
  have heap: "fst (heap_ops ?ps (NewState 1)) = [None, Some SubscriptionAdded, Some SubscriptionAlreadyPresent, None]"
    by (simp add: NewState_def State_Authenticate_def AddSubscription_def)
  have "fst (arena_ops ?ps (s, a1)) = fst (heap_ops ?ps (NewState 1))"
    using arena_state_refines [OF s(1) _ _ fit] s(2) by (auto split: prod.splits)
  then show ?thesis using new s(1) heap by (intro exI [of _ ?a] exI [of _ s] exI [of _ a1]) simp
qed

end
