(* ===== verification/Ws_Writer.thy ===== *)
theory Ws_Writer
  imports Protocol
begin

text \<open>
  Model of the writing half of the WebSocket transport: the response messages
  (\<^verbatim>\<open>internal/ws/message.go\<close>, the \<^verbatim>\<open>Send\<close> methods of \<^verbatim>\<open>internal/ws/handler.go\<close>) and the writer that packs
  queued messages into text frames (\<^verbatim>\<open>batchFor\<close>, \<^verbatim>\<open>drainBatch\<close>, \<^verbatim>\<open>messageBytes\<close>, \<^verbatim>\<open>encodeBatch\<close>,
  \<^verbatim>\<open>writeFrame\<close>, \<^verbatim>\<open>drainWrites\<close>).

  \<^item> The send channel is filled by other goroutines while the writer drains it. The writer only
    receives without blocking, so the channel is the list of the answers it gets (\<open>feed\<close>): the next
    message, or \<open>None\<close> when the channel is momentarily empty.
  \<^item> \<^verbatim>\<open>json.Marshal\<close> is the parameter \<open>marshal\<close> (\<open>None\<close> when it fails), and \<open>write\<close> says whether the
    buffered connection takes a frame.
  \<^item> The frame caches that a fan-out shares between its recipients are a store; a message refers to
    its cache by address.
\<close>

section \<open>Messages\<close>

record ChannelMessagePayload =
  cpChannel :: string
  cpData :: bytes
  cpOffset :: u64
  cpEpoch :: u64

record ServerMessage =
  smID :: string
  smConnected :: "(string \<times> u32) option"
  smSubscribed :: "(string \<times> bool option) option"
  smUnsubscribed :: "string option"
  smChannelMessage :: "ChannelMessagePayload option"
  smPong :: "unit option"
  smError :: "(string \<times> string) option"
  smPublished :: "(string \<times> u64 \<times> u64 \<times> u32 \<times> u32) option"
  smRefreshed :: "u64 option"
  smFrame :: "nat option"

definition empty_message :: "string \<Rightarrow> ServerMessage" where
  "empty_message reqID = \<lparr>smID = reqID, smConnected = None, smSubscribed = None, smUnsubscribed = None, smChannelMessage = None,
     smPong = None, smError = None, smPublished = None, smRefreshed = None, smFrame = None\<rparr>"

text \<open>\<^verbatim>\<open>fmt.Sprintf\<close> of \<^verbatim>\<open>%d\<close> is the parameter \<open>decimal\<close>.\<close>

definition ws_SendConnected :: "(int \<Rightarrow> string) \<Rightarrow> int \<Rightarrow> string \<Rightarrow> u32 \<Rightarrow> ServerMessage" where
  "ws_SendConnected decimal sid reqID version = (empty_message reqID)\<lparr>smConnected := Some (''ws-conn-'' @ decimal sid, version)\<rparr>"

definition ws_SendRefreshed :: "string \<Rightarrow> u64 \<Rightarrow> ServerMessage" where
  "ws_SendRefreshed reqID expiresAt = (empty_message reqID)\<lparr>smRefreshed := Some expiresAt\<rparr>"

definition ws_SendSubscribed :: "string \<Rightarrow> string \<Rightarrow> bool \<Rightarrow> bool \<Rightarrow> ServerMessage" where
  "ws_SendSubscribed reqID channel recovered didRecover =
     (empty_message reqID)\<lparr>smSubscribed := Some (channel, if didRecover then Some recovered else None)\<rparr>"

definition ws_SendUnsubscribed :: "string \<Rightarrow> string \<Rightarrow> ServerMessage" where
  "ws_SendUnsubscribed reqID channel = (empty_message reqID)\<lparr>smUnsubscribed := Some channel\<rparr>"

definition ws_SendPublished :: "string \<Rightarrow> string \<Rightarrow> PublishResult \<Rightarrow> ServerMessage" where
  "ws_SendPublished reqID channel r = (empty_message reqID)\<lparr>smPublished :=
     Some (channel, resOffset r, resEpoch r, word_of_int (resDelivered r), word_of_int (resDropped r))\<rparr>"

definition ws_SendPong :: "string \<Rightarrow> ServerMessage" where
  "ws_SendPong reqID = (empty_message reqID)\<lparr>smPong := Some ()\<rparr>"

definition ws_sendError :: "string \<Rightarrow> string \<Rightarrow> string \<Rightarrow> ServerMessage" where
  "ws_sendError code message reqID = (empty_message reqID)\<lparr>smError := Some (code, message)\<rparr>"

text \<open>\<open>addr\<close> is the address of the cache the delivery carries, if it does.\<close>

definition getWSMsg :: "Delivery \<Rightarrow> nat option \<Rightarrow> ServerMessage" where
  "getWSMsg d addr = (empty_message [])\<lparr>smChannelMessage :=
     Some \<lparr>cpChannel = dChannel d, cpData = dData d, cpOffset = dOffset d, cpEpoch = dEpoch d\<rparr>, smFrame := addr\<rparr>"

text \<open>The encoding of everything a session sends.\<close>

fun ws_message :: "(int \<Rightarrow> string) \<Rightarrow> int \<Rightarrow> nat option \<Rightarrow> response \<Rightarrow> ServerMessage" where
  "ws_message decimal sid addr (Connected reqID version) = ws_SendConnected decimal sid reqID version"
| "ws_message decimal sid addr (Refreshed reqID expiresAt) = ws_SendRefreshed reqID expiresAt"
| "ws_message decimal sid addr (Subscribed reqID channel recovered didRecover) = ws_SendSubscribed reqID channel recovered didRecover"
| "ws_message decimal sid addr (Unsubscribed reqID channel) = ws_SendUnsubscribed reqID channel"
| "ws_message decimal sid addr (Published reqID channel r) = ws_SendPublished reqID channel r"
| "ws_message decimal sid addr (Pong reqID) = ws_SendPong reqID"
| "ws_message decimal sid addr (ErrorResponse code msg reqID) = ws_sendError (wsErrorCode code) msg reqID"
| "ws_message decimal sid addr (ChannelMessage d) = getWSMsg d addr"

section \<open>Batches\<close>

definition ws_maxBatchSize :: nat where "ws_maxBatchSize = 64"
definition ws_maxBatchBytes :: int where "ws_maxBatchBytes = 1048576"
definition maxDrainFrames :: nat where "maxDrainFrames = 256"

type_synonym feed = "ServerMessage option list"

definition tryRecv :: "feed \<Rightarrow> ServerMessage option \<times> feed" where
  "tryRecv f = (case f of [] \<Rightarrow> (None, []) | x # f' \<Rightarrow> (x, f'))"

definition is_delivery :: "ServerMessage \<Rightarrow> bool" where
  "is_delivery m \<longleftrightarrow> \<not> (smChannelMessage m = None \<or> smID m \<noteq> [])"

definition data_len :: "ServerMessage \<Rightarrow> int" where
  "data_len m = (case smChannelMessage m of None \<Rightarrow> 0 | Some p \<Rightarrow> int (length (cpData p)))"

fun drain_loop :: "ServerMessage list \<Rightarrow> int \<Rightarrow> feed \<Rightarrow> ServerMessage list \<times> ServerMessage option \<times> feed" where
  "drain_loop batch bytes [] = (batch, None, [])"
| "drain_loop batch bytes (x # f) =
     (if length batch < ws_maxBatchSize \<and> bytes < ws_maxBatchBytes then
        (case x of
           Some m \<Rightarrow>
             if \<not> is_delivery m then (batch, Some m, f)
             else drain_loop (batch @ [m]) (bytes + data_len m) f
         | None \<Rightarrow> (batch, None, f))
      else (batch, None, x # f))"

definition drainBatch :: "ServerMessage \<Rightarrow> feed \<Rightarrow> ServerMessage list \<times> ServerMessage option \<times> feed" where
  "drainBatch first f = drain_loop [first] (data_len first) f"

definition batchFor :: "u32 \<Rightarrow> ServerMessage \<Rightarrow> feed \<Rightarrow> ServerMessage list \<times> ServerMessage option \<times> feed" where
  "batchFor protoVersion msg f =
     (if protoVersion \<ge> 2 \<and> smChannelMessage msg \<noteq> None \<and> smID msg = [] then drainBatch msg f else ([msg], None, f))"

section \<open>Frames\<close>

type_synonym frame_store = "(nat, bytes) gomap"

definition messageBytes :: "(ServerMessage \<Rightarrow> bytes option) \<Rightarrow> ServerMessage \<Rightarrow> frame_store \<Rightarrow> bytes option \<times> frame_store" where
  "messageBytes marshal m st =
     (case smFrame m of
        None \<Rightarrow> (marshal m, st)
      | Some a \<Rightarrow>
          (case gget st a of
             Some b \<Rightarrow> (Some b, st)
           | None \<Rightarrow> (case marshal m of None \<Rightarrow> (None, st) | Some b \<Rightarrow> (Some b, gput a b st))))"

fun encode_parts :: "(ServerMessage \<Rightarrow> bytes option) \<Rightarrow> ServerMessage list \<Rightarrow> frame_store \<Rightarrow> bytes list \<times> frame_store" where
  "encode_parts marshal [] st = ([], st)"
| "encode_parts marshal (m # ms) st =
     (case messageBytes marshal m st of
        (r, st1) \<Rightarrow>
          (case encode_parts marshal ms st1 of
             (parts, st2) \<Rightarrow> ((case r of None \<Rightarrow> parts | Some p \<Rightarrow> p # parts), st2)))"

text \<open>The parts between brackets, with commas.\<close>

fun join_comma :: "bytes list \<Rightarrow> bytes" where
  "join_comma [] = []"
| "join_comma [p] = p"
| "join_comma (p # q # ps) = p @ CHR '','' # join_comma (q # ps)"

definition encodeBatch :: "(ServerMessage \<Rightarrow> bytes option) \<Rightarrow> ServerMessage list \<Rightarrow> frame_store \<Rightarrow> bytes option \<times> frame_store" where
  "encodeBatch marshal batch st =
     (if length batch = 1 then messageBytes marshal (hd batch) st
      else
        (case encode_parts marshal batch st of
           (parts, st1) \<Rightarrow> (if parts = [] then None else Some (CHR ''['' # join_comma parts @ '']''), st1)))"

record writer =
  wrStore :: frame_store
  wrWire :: "bytes list"
  wrCancelled :: bool

definition writeFrame :: "(ServerMessage \<Rightarrow> bytes option) \<Rightarrow> (bytes \<Rightarrow> bool) \<Rightarrow> ServerMessage list \<Rightarrow> writer \<Rightarrow> bool \<times> writer" where
  "writeFrame marshal write batch w =
     (case encodeBatch marshal batch (wrStore w) of
        (None, st) \<Rightarrow> (True, w\<lparr>wrStore := st\<rparr>)
      | (Some data, st) \<Rightarrow>
          if write data then (True, w\<lparr>wrStore := st, wrWire := wrWire w @ [data]\<rparr>)
          else (False, w\<lparr>wrStore := st, wrCancelled := True\<rparr>))"

definition flush_writer :: "bool \<Rightarrow> writer \<Rightarrow> bool \<times> writer" where
  "flush_writer flushed w = (if flushed then (True, w) else (False, w\<lparr>wrCancelled := True\<rparr>))"

lemma drain_loop_shrinks: "length (snd (snd (drain_loop batch bytes f))) \<le> length f"
  by (induction batch bytes f rule: drain_loop.induct) (auto split: option.splits)

lemma batchFor_shrinks: "length (snd (snd (batchFor v msg f))) \<le> length f"
  by (simp add: batchFor_def drainBatch_def drain_loop_shrinks)

lemma feed_shrinks: "(batch, trailing, f1) = batchFor v msg f \<Longrightarrow> (Some m, f2) = tryRecv f1 \<Longrightarrow> length f2 < length f"
  using batchFor_shrinks [of v msg f] by (cases "batchFor v msg f") (auto simp: tryRecv_def split: list.splits)

text \<open>The frame that a control response, which stopped the drain, gets for itself.\<close>

definition write_trailing :: "(ServerMessage \<Rightarrow> bytes option) \<Rightarrow> (bytes \<Rightarrow> bool) \<Rightarrow> ServerMessage option \<Rightarrow> writer \<Rightarrow> nat \<Rightarrow> bool \<times> writer \<times> nat" where
  "write_trailing marshal write trailing w frames =
     (case trailing of
        None \<Rightarrow> (True, w, frames)
      | Some t \<Rightarrow> (case writeFrame marshal write [t] w of (ok, w1) \<Rightarrow> (ok, w1, frames + 1)))"

function drainWrites :: "(ServerMessage \<Rightarrow> bytes option) \<Rightarrow> (bytes \<Rightarrow> bool) \<Rightarrow> bool \<Rightarrow> u32 \<Rightarrow> ServerMessage \<Rightarrow> feed \<Rightarrow> nat \<Rightarrow> writer
    \<Rightarrow> bool \<times> writer \<times> feed" where
  "drainWrites marshal write flushed v msg f frames w =
     (case batchFor v msg f of
        (batch, trailing, f1) \<Rightarrow>
          (case writeFrame marshal write batch w of
             (False, w1) \<Rightarrow> (False, w1, f1)
           | (True, w1) \<Rightarrow>
               (case write_trailing marshal write trailing w1 (frames + 1) of
                  (False, w2, _) \<Rightarrow> (False, w2, f1)
                | (True, w2, frames2) \<Rightarrow>
                    if frames2 \<ge> maxDrainFrames then (case flush_writer flushed w2 of (ok, w3) \<Rightarrow> (ok, w3, f1))
                    else
                      (case tryRecv f1 of
                         (None, f2) \<Rightarrow> (case flush_writer flushed w2 of (ok, w3) \<Rightarrow> (ok, w3, f2))
                       | (Some m, f2) \<Rightarrow> drainWrites marshal write flushed v m f2 frames2 w2))))"
  by pat_completeness auto
termination
  by (relation "measure (\<lambda>(marshal, write, flushed, v, msg, f, frames, w). length f)") (auto dest: feed_shrinks)

declare drainWrites.simps [simp del]


section \<open>The caches are transparent\<close>

text \<open>What a frame encodes to without any cache.\<close>

definition plain_encoding :: "(ServerMessage \<Rightarrow> bytes option) \<Rightarrow> ServerMessage list \<Rightarrow> bytes option" where
  "plain_encoding marshal batch =
     (if length batch = 1 then marshal (hd batch)
      else (let parts = List.map_filter marshal batch
            in if parts = [] then None else Some (CHR ''['' # join_comma parts @ '']'')))"

text \<open>Messages that share a cache are the recipients' copies of one publication: they encode alike.\<close>

definition copies_alike :: "(ServerMessage \<Rightarrow> bytes option) \<Rightarrow> ServerMessage set \<Rightarrow> bool" where
  "copies_alike marshal M \<longleftrightarrow> (\<forall>m \<in> M. \<forall>m' \<in> M. smFrame m \<noteq> None \<and> smFrame m = smFrame m' \<longrightarrow> marshal m = marshal m')"

definition coherent :: "(ServerMessage \<Rightarrow> bytes option) \<Rightarrow> ServerMessage set \<Rightarrow> frame_store \<Rightarrow> bool" where
  "coherent marshal M st \<longleftrightarrow> (\<forall>m \<in> M. \<forall>a b. smFrame m = Some a \<and> gget st a = Some b \<longrightarrow> marshal m = Some b)"

lemma messageBytes_plain:
  assumes "copies_alike marshal M" "coherent marshal M st" "m \<in> M"
  shows "fst (messageBytes marshal m st) = marshal m" "coherent marshal M (snd (messageBytes marshal m st))"
proof -
  have "fst (messageBytes marshal m st) = marshal m \<and> coherent marshal M (snd (messageBytes marshal m st))"
  proof (cases "smFrame m")
    case None
    then show ?thesis using assms(2) by (simp add: messageBytes_def)
  next
    case (Some a)
    show ?thesis
    proof (cases "gget st a")
      case (Some b)
      then have "marshal m = Some b" using assms(2,3) \<open>smFrame m = Some a\<close> unfolding coherent_def by blast
      then show ?thesis using Some \<open>smFrame m = Some a\<close> assms(2) by (simp add: messageBytes_def)
    next
      case None
      have alike: "marshal m' = marshal m" if "m' \<in> M" "smFrame m' = Some a" for m'
        using assms(1,3) that \<open>smFrame m = Some a\<close> unfolding copies_alike_def by (metis option.distinct(1))
      have "coherent marshal M (gput a b st)" if "marshal m = Some b" for b
        unfolding coherent_def
      proof (intro ballI allI impI)
        fix m' a' b' assume m': "m' \<in> M" "smFrame m' = Some a' \<and> gget (gput a b st) a' = Some b'"
        show "marshal m' = Some b'"
        proof (cases "a' = a")
          case True
          then show ?thesis using alike [of m'] m' that by simp
        next
          case False
          then show ?thesis using assms(2) m' unfolding coherent_def by auto
        qed
      qed
      then show ?thesis using None \<open>smFrame m = Some a\<close> assms(2) by (cases "marshal m") (simp_all add: messageBytes_def)
    qed
  qed
  then show "fst (messageBytes marshal m st) = marshal m" "coherent marshal M (snd (messageBytes marshal m st))" by auto
qed

lemma encode_parts_plain:
  assumes "copies_alike marshal M" "coherent marshal M st" "set ms \<subseteq> M"
  shows "fst (encode_parts marshal ms st) = List.map_filter marshal ms \<and> coherent marshal M (snd (encode_parts marshal ms st))"
  using assms(2,3)
proof (induction ms arbitrary: st)
  case (Cons m ms)
  obtain r st1 where r: "messageBytes marshal m st = (r, st1)" by (cases "messageBytes marshal m st")
  then have "r = marshal m" "coherent marshal M st1"
    using messageBytes_plain [OF assms(1) Cons.prems(1), of m] Cons.prems(2) by simp_all
  then show ?case using Cons.IH [of st1] Cons.prems(2) r
    by (auto simp: List.map_filter_simps split: prod.splits option.splits)
qed (simp add: List.map_filter_simps)

lemma encodeBatch_plain:
  assumes "copies_alike marshal M" "coherent marshal M st" "set batch \<subseteq> M"
  shows "fst (encodeBatch marshal batch st) = plain_encoding marshal batch \<and> coherent marshal M (snd (encodeBatch marshal batch st))"
proof (cases "length batch = 1")
  case True
  then obtain m where "batch = [m]" by (cases batch) auto
  then show ?thesis using messageBytes_plain [OF assms(1,2), of m] assms(3) by (simp add: encodeBatch_def plain_encoding_def)
next
  case False
  then show ?thesis using encode_parts_plain [OF assms] by (auto simp: encodeBatch_def plain_encoding_def Let_def split: prod.splits)
qed

lemma writeFrame_plain:
  assumes "copies_alike marshal M" "coherent marshal M (wrStore w)" "set batch \<subseteq> M" "writeFrame marshal write batch w = (ok, w')"
  shows "coherent marshal M (wrStore w')" "ok \<Longrightarrow> wrWire w' = wrWire w @ List.map_filter (plain_encoding marshal) [batch] \<and> wrCancelled w' = wrCancelled w"
    "\<not> ok \<Longrightarrow> wrCancelled w'"
  using encodeBatch_plain [OF assms(1-3)] assms(4)
  by (auto simp: writeFrame_def List.map_filter_simps split: prod.splits option.splits if_splits)

section \<open>The shape of the frames\<close>

definition total_len :: "ServerMessage list \<Rightarrow> int" where
  "total_len b = (\<Sum>m \<leftarrow> b. data_len m)"

definition batch_ok :: "u32 \<Rightarrow> ServerMessage list \<Rightarrow> bool" where
  "batch_ok v b \<longleftrightarrow> b \<noteq> [] \<and> (2 \<le> length b \<longrightarrow>
     2 \<le> v \<and> (\<forall>m \<in> set b. is_delivery m) \<and> length b \<le> ws_maxBatchSize \<and> total_len (butlast b) < ws_maxBatchBytes)"

definition received :: "feed \<Rightarrow> ServerMessage list" where
  "received f = List.map_filter (\<lambda>x. x) f"

lemma received_simps [simp]: "received [] = []" "received (None # f) = received f" "received (Some m # f) = m # received f"
  "received (f @ g) = received f @ received g"
  by (simp_all add: received_def List.map_filter_def)

definition trail :: "ServerMessage option \<Rightarrow> ServerMessage list" where
  "trail t = (case t of None \<Rightarrow> [] | Some m \<Rightarrow> [m])"

lemma drain_loop_spec:
  assumes "\<forall>m \<in> set batch. is_delivery m" "batch \<noteq> []" "bytes = total_len batch" "length batch \<le> ws_maxBatchSize"
    "total_len (butlast batch) < ws_maxBatchBytes" "drain_loop batch bytes f = (b, t, f1)"
  shows "\<exists>pre. f = pre @ f1 \<and> b @ trail t = batch @ received pre \<and> (\<forall>m \<in> set b. is_delivery m) \<and> length b \<le> ws_maxBatchSize
    \<and> total_len (butlast b) < ws_maxBatchBytes \<and> b \<noteq> []"
  using assms
proof (induction batch bytes f rule: drain_loop.induct)
  case (1 batch bytes)
  then show ?case by (auto simp: trail_def)
next
  case (2 batch bytes x f)
  show ?case
  proof (cases "length batch < ws_maxBatchSize \<and> bytes < ws_maxBatchBytes")
    case False
    then show ?thesis using "2.prems" by (auto simp: trail_def)
  next
    case room: True
    show ?thesis
    proof (cases "\<exists>m. x = Some m \<and> is_delivery m")
      case True
      then obtain m where m: "x = Some m" "is_delivery m" by blast
      then have "drain_loop (batch @ [m]) (bytes + data_len m) f = (b, t, f1)" using "2.prems"(6) room by simp
      moreover have "bytes + data_len m = total_len (batch @ [m])" using "2.prems"(3) by (simp add: total_len_def)
      ultimately obtain pre where "f = pre @ f1" "b @ trail t = (batch @ [m]) @ received pre" "\<forall>m \<in> set b. is_delivery m"
          "length b \<le> ws_maxBatchSize" "total_len (butlast b) < ws_maxBatchBytes" "b \<noteq> []"
        using "2.IH" [OF room m(1)] "2.prems"(1,3) m(2) room by auto
      then show ?thesis using m(1) by (intro exI [of _ "Some m # pre"]) simp
    next
      case False
      then show ?thesis using "2.prems" room by (cases x) (auto simp: trail_def intro!: exI [of _ "[x]"])
    qed
  qed
qed

lemma batchFor_spec:
  assumes "batchFor v msg f = (b, t, f1)"
  shows "\<exists>pre. f = pre @ f1 \<and> b @ trail t = msg # received pre \<and> batch_ok v b"
proof (cases "v \<ge> 2 \<and> smChannelMessage msg \<noteq> None \<and> smID msg = []")
  case True
  then have "drain_loop [msg] (data_len msg) f = (b, t, f1)" "is_delivery msg"
    using assms by (simp_all add: batchFor_def drainBatch_def is_delivery_def)
  from drain_loop_spec [OF _ _ _ _ _ this(1)] this(2) show ?thesis using True
    by (auto simp: batch_ok_def total_len_def ws_maxBatchSize_def ws_maxBatchBytes_def)
next
  case False
  then show ?thesis using assms by (auto simp: batchFor_def batch_ok_def trail_def)
qed


lemma write_trailing_plain:
  assumes "copies_alike marshal M" "coherent marshal M (wrStore w)" "set (trail t) \<subseteq> M" "write_trailing marshal write t w frames = (ok, w', frames')"
  shows "coherent marshal M (wrStore w')" "\<not> ok \<Longrightarrow> wrCancelled w'"
    "ok \<Longrightarrow> wrWire w' = wrWire w @ List.map_filter (plain_encoding marshal) (map (\<lambda>m. [m]) (trail t))"
    "frames' = frames + length (trail t)"
proof -
  have "coherent marshal M (wrStore w') \<and> (\<not> ok \<longrightarrow> wrCancelled w')
      \<and> (ok \<longrightarrow> wrWire w' = wrWire w @ List.map_filter (plain_encoding marshal) (map (\<lambda>m. [m]) (trail t)))
      \<and> frames' = frames + length (trail t)"
  proof (cases t)
    case None
    then show ?thesis using assms by (auto simp: write_trailing_def trail_def List.map_filter_simps)
  next
    case (Some m)
    obtain b w1 where "writeFrame marshal write [m] w = (b, w1)" by (cases "writeFrame marshal write [m] w")
    then show ?thesis using Some assms writeFrame_plain [OF assms(1,2), of "[m]" "write" b w1]
      by (auto simp: write_trailing_def trail_def)
  qed
  then show "coherent marshal M (wrStore w')" "\<not> ok \<Longrightarrow> wrCancelled w'"
    "ok \<Longrightarrow> wrWire w' = wrWire w @ List.map_filter (plain_encoding marshal) (map (\<lambda>m. [m]) (trail t))"
    "frames' = frames + length (trail t)" by blast+
qed

lemma map_filter_app: "List.map_filter f (xs @ ys) = List.map_filter f xs @ List.map_filter f ys"
  by (simp add: List.map_filter_def)

text \<open>What one pass wrote: the batches, which cover what it took from the channel, and why it stopped.\<close>

definition pass_ok :: "(ServerMessage \<Rightarrow> bytes option) \<Rightarrow> u32 \<Rightarrow> ServerMessage \<Rightarrow> feed \<Rightarrow> nat \<Rightarrow> writer \<Rightarrow> writer \<Rightarrow> feed \<Rightarrow> bool" where
  "pass_ok marshal v msg f frames w w' f' \<longleftrightarrow>
     (\<exists>batches pre. f = pre @ f' \<and> concat batches = msg # received pre \<and> (\<forall>b \<in> set batches. batch_ok v b)
        \<and> wrWire w' = wrWire w @ List.map_filter (plain_encoding marshal) batches
        \<and> frames + length batches \<le> maxDrainFrames + 1
        \<and> (frames + length batches < maxDrainFrames \<longrightarrow> f' = [] \<or> (\<exists>p. pre = p @ [None])))"

lemma drainWrites_spec:
  assumes "copies_alike marshal M"
  shows "coherent marshal M (wrStore w) \<Longrightarrow> insert msg (set (received f)) \<subseteq> M \<Longrightarrow> frames < maxDrainFrames \<Longrightarrow>
    drainWrites marshal write flushed v msg f frames w = (ok, w', f') \<Longrightarrow>
    (if ok then pass_ok marshal v msg f frames w w' f' else wrCancelled w')"
proof (induction "length f" arbitrary: msg f frames w rule: less_induct)
  case less
  obtain b t f1 where b: "batchFor v msg f = (b, t, f1)" by (metis prod_cases3)
  obtain pre where pre: "f = pre @ f1" "b @ trail t = msg # received pre" "batch_ok v b" using batchFor_spec [OF b] by blast
  have "set (b @ trail t) \<subseteq> M" unfolding pre(2) using less.prems(2) pre(1) by auto
  then have sub: "set b \<subseteq> M" "set (trail t) \<subseteq> M" by simp_all
  obtain ok1 w1 where wf: "writeFrame marshal write b w = (ok1, w1)" by (cases "writeFrame marshal write b w")
  note p1 = writeFrame_plain [OF assms less.prems(1) sub(1) wf]
  show ?case
  proof (cases ok1)
    case False
    then show ?thesis using less.prems(4) b wf p1(3) by (simp add: drainWrites.simps [of _ _ _ _ msg])
  next
    case ok1: True
    obtain ok2 w2 frames2 where wt: "write_trailing marshal write t w1 (frames + 1) = (ok2, w2, frames2)" by (metis prod_cases3)
    note p2 = write_trailing_plain [OF assms p1(1) sub(2) wt]
    show ?thesis
    proof (cases ok2)
      case False
      then show ?thesis using less.prems(4) b wf ok1 wt p2(2) by (simp add: drainWrites.simps [of _ _ _ _ msg])
    next
      case ok2: True
      let ?bs = "b # map (\<lambda>m. [m]) (trail t)"
      have wire: "wrWire w2 = wrWire w @ List.map_filter (plain_encoding marshal) ?bs"
        using p1(2) p2(3) ok1 ok2 map_filter_app [of "plain_encoding marshal" "[b]" "map (\<lambda>m. [m]) (trail t)"] by simp
      have cov: "concat ?bs = msg # received pre" using pre(2) by (simp add: concat_map_singleton)
      have shape: "\<forall>b \<in> set ?bs. batch_ok v b" using pre(3) by (auto simp: batch_ok_def)
      have num: "frames + length ?bs = frames2" "frames2 \<le> maxDrainFrames + 1" using p2(4) less.prems(3) by (auto simp: trail_def split: option.splits)
      have fl: "(if ok then w' = w2 else wrCancelled w') " if "flush_writer flushed w2 = (ok, w')"
        using that by (auto simp: flush_writer_def split: if_splits)
      show ?thesis
      proof (cases "frames2 \<ge> maxDrainFrames")
        case True
        then have "flush_writer flushed w2 = (ok, w')" "f' = f1"
          using less.prems(4) b wf ok1 wt ok2 by (auto simp: drainWrites.simps [of _ _ _ _ msg] split: prod.splits)
        then show ?thesis using fl pre(1) cov shape wire num True
          by (auto simp: pass_ok_def intro!: exI [of _ ?bs] exI [of _ pre])
      next
        case room: False
        show ?thesis
        proof (cases "fst (tryRecv f1)")
          case None
          obtain f2 where f2: "tryRecv f1 = (None, f2)" using None by (metis prod.collapse)
          then have "flush_writer flushed w2 = (ok, w')" "f' = f2"
            using less.prems(4) b wf ok1 wt ok2 room by (auto simp: drainWrites.simps [of _ _ _ _ msg] split: prod.splits)
          moreover have "f1 = [] \<and> f2 = [] \<or> f1 = None # f2" using f2 by (auto simp: tryRecv_def split: list.splits)
          then obtain tl1 where tl1: "f1 = tl1 @ f2" "received tl1 = []" "f2 = [] \<or> tl1 = [None]" by fastforce
          then have "f = (pre @ tl1) @ f2" "concat ?bs = msg # received (pre @ tl1)" "f2 = [] \<or> (\<exists>p. pre @ tl1 = p @ [None])"
            using pre(1) cov by auto
          ultimately show ?thesis using fl shape wire num
            by (cases ok) (auto simp: pass_ok_def simp del: concat.simps intro!: exI [of _ ?bs] exI [of _ "pre @ tl1"])
        next
          case (Some m)
          then obtain f2 where f2: "tryRecv f1 = (Some m, f2)" "f1 = Some m # f2"
            by (auto simp: tryRecv_def split: list.splits)
          have rec: "drainWrites marshal write flushed v m f2 frames2 w2 = (ok, w', f')"
            using less.prems(4) b wf ok1 wt ok2 room f2 by (simp add: drainWrites.simps [of _ _ _ _ msg])
          have "length f2 < length f" using pre(1) f2(2) by simp
          from less.hyps [OF this p2(1) _ _ rec] have IH: "if ok then pass_ok marshal v m f2 frames2 w2 w' f' else wrCancelled w'"
            using less.prems(2) pre(1) f2(2) room by simp
          show ?thesis
          proof (cases ok)
            case False
            then show ?thesis using IH by simp
          next
            case True
            then obtain bs pre2 where r: "f2 = pre2 @ f'" "concat bs = m # received pre2" "\<forall>b \<in> set bs. batch_ok v b"
                "wrWire w' = wrWire w2 @ List.map_filter (plain_encoding marshal) bs" "frames2 + length bs \<le> maxDrainFrames + 1"
                "frames2 + length bs < maxDrainFrames \<longrightarrow> f' = [] \<or> (\<exists>p. pre2 = p @ [None])"
              using IH by (auto simp: pass_ok_def)
            have "f = (pre @ Some m # pre2) @ f'" using pre(1) f2(2) r(1) by simp
            moreover have "concat (?bs @ bs) = msg # received (pre @ Some m # pre2)" using cov r(2) by simp
            moreover have "wrWire w' = wrWire w @ List.map_filter (plain_encoding marshal) (?bs @ bs)"
              unfolding map_filter_app r(4) wire by simp
            moreover have "frames + length (?bs @ bs) = frames2 + length bs" using num(1) by simp
            ultimately have "pass_ok marshal v msg f frames w w' f'"
              unfolding pass_ok_def using shape r(3,5,6) by (intro exI [of _ "?bs @ bs"] exI [of _ "pre @ Some m # pre2"]) auto
            then show ?thesis using True by simp
          qed
        qed
      qed
    qed
  qed
qed


text \<open>
  (C29) A drain pass of the WebSocket writer always returns. When it succeeds, the frames it wrote
  hold exactly the message it was woken with and everything it took from the send channel, in order:
  deliveries of a version 2 session share array frames of at most 64 whose payload, without the
  last one, is below 1 MiB; everything else has a frame of its own. The pass stops only after 256
  frames or when the channel was empty. Each frame carries the plain JSON of its messages, without
  those that do not marshal, whatever the caches shared with other sessions held. When it fails, the
  session is cancelled.
\<close>

theorem ws_drain_exact:
  assumes "copies_alike marshal M" and "coherent marshal M (wrStore w)" and "insert msg (set (received f)) \<subseteq> M"
    and "drainWrites marshal write flushed v msg f 0 w = (ok, w', f')"
  shows "if ok then
      (\<exists>batches pre. f = pre @ f' \<and> concat batches = msg # received pre
        \<and> (\<forall>b \<in> set batches. b \<noteq> [] \<and> (2 \<le> length b \<longrightarrow> 2 \<le> v \<and> (\<forall>m \<in> set b. is_delivery m) \<and> length b \<le> 64
              \<and> (\<Sum>m \<leftarrow> butlast b. data_len m) < 1048576))
        \<and> wrWire w' = wrWire w @ List.map_filter (plain_encoding marshal) batches
        \<and> length batches \<le> 257 \<and> (length batches < 256 \<longrightarrow> f' = [] \<or> (\<exists>p. pre = p @ [None])))
    else wrCancelled w'"
  using drainWrites_spec [OF assms(1,2,3) _ assms(4)]
  by (auto simp: pass_ok_def batch_ok_def total_len_def ws_maxBatchSize_def ws_maxBatchBytes_def maxDrainFrames_def split: if_splits)

text \<open>Two deliveries and a pong, in a version 2 session: an array frame and a frame of its own.\<close>

definition demo_marshal :: "ServerMessage \<Rightarrow> bytes option" where
  "demo_marshal m = (case smChannelMessage m of Some p \<Rightarrow> Some (cpData p) | None \<Rightarrow> Some ''{}'')"

definition demo_delivery :: "bytes \<Rightarrow> ServerMessage" where
  "demo_delivery data = getWSMsg \<lparr>dChannel = ''news'', dData = data, dOffset = 1, dEpoch = 5, dFrame = None\<rparr> None"

theorem ws_drain_exact_witness:
  "\<exists>w'. drainWrites demo_marshal (\<lambda>_. True) True 2 (demo_delivery ''1'') [Some (demo_delivery ''2''), Some (ws_SendPong ''9'')] 0
      \<lparr>wrStore = [], wrWire = [], wrCancelled = False\<rparr> = (True, w', []) \<and> wrWire w' = [''[1,2]'', ''{}'']
    \<and> (\<exists>batches. concat batches = [demo_delivery ''1'', demo_delivery ''2'', ws_SendPong ''9''] \<and> length batches \<le> 257
         \<and> wrWire w' = List.map_filter (plain_encoding demo_marshal) batches)"
proof -
  let ?w = "\<lparr>wrStore = [], wrWire = [], wrCancelled = False\<rparr>" and ?f = "[Some (demo_delivery ''2''), Some (ws_SendPong ''9'')]"
  let ?w' = "\<lparr>wrStore = [], wrWire = [''[1,2]'', ''{}''], wrCancelled = False\<rparr>"
  have run: "drainWrites demo_marshal (\<lambda>_. True) True 2 (demo_delivery ''1'') ?f 0 ?w = (True, ?w', [])"
    by (simp add: drainWrites.simps [of demo_marshal] batchFor_def drainBatch_def ws_maxBatchSize_def ws_maxBatchBytes_def is_delivery_def
        data_len_def demo_delivery_def getWSMsg_def empty_message_def ws_SendPong_def writeFrame_def encodeBatch_def messageBytes_def
        demo_marshal_def write_trailing_def maxDrainFrames_def tryRecv_def flush_writer_def)
  have "copies_alike demo_marshal {m. smFrame m = None}" "coherent demo_marshal {m. smFrame m = None} (wrStore ?w)"
      "insert (demo_delivery ''1'') (set (received ?f)) \<subseteq> {m. smFrame m = None}"
    by (simp_all add: copies_alike_def coherent_def demo_delivery_def getWSMsg_def ws_SendPong_def empty_message_def)
  from ws_drain_exact [OF this run]
  obtain batches pre where "?f = pre @ []" "concat batches = demo_delivery ''1'' # received pre" "length batches \<le> 257"
      "wrWire ?w' = wrWire ?w @ List.map_filter (plain_encoding demo_marshal) batches" by auto
  with run show ?thesis by (intro exI [of _ ?w'] conjI exI [of _ batches]) auto
qed

end
