(* ===== verification/Grpc.thy ===== *)
theory Grpc
  imports Protocol Ring
begin

text \<open>
  Model of the gRPC transport: the translation between the wire messages and the protocol layer
  (\<^verbatim>\<open>internal/protocol/pbcode\<close>, the \<^verbatim>\<open>Send\<close> methods of \<^verbatim>\<open>internal/grpc/session.go\<close>, \<^verbatim>\<open>handleMessage\<close> of
  \<^verbatim>\<open>internal/grpc/handler.go\<close>) and the sender that packs queued deliveries into batch frames
  (\<^verbatim>\<open>runSender\<close> and \<^verbatim>\<open>flushPending\<close>). The types of the wire messages are those the generated code
  declares; \<open>pb_\<close> names them.
\<close>

section \<open>Wire messages\<close>

datatype pbErrorCode = ERROR_CODE_UNKNOWN_MESSAGE | ERROR_CODE_INVALID_PAYLOAD | ERROR_CODE_NOT_AUTHENTICATED
  | ERROR_CODE_ALREADY_SUBSCRIBED | ERROR_CODE_NOT_SUBSCRIBED | ERROR_CODE_PERMISSION_DENIED
  | ERROR_CODE_MESSAGE_TOO_LARGE | ERROR_CODE_SUBSCRIPTION_LIMIT | ERROR_CODE_CHANNEL_NOT_FOUND | ERROR_CODE_INTERNAL

record pbChannelMessage =
  pcChannel :: string
  pcData :: bytes
  pcOffset :: u64
  pcEpoch :: u64

datatype pbBody =
    PbConnected string u32
  | PbRefreshed u64
  | PbSubscribed string bool
  | PbUnsubscribed string
  | PbPublished string u64 u64 u32 u32
  | PbPong
  | PbError pbErrorCode string
  | PbChannelMessage pbChannelMessage
  | PbBatch "pbChannelMessage list"

record pbServerMessage =
  psmId :: string
  psmBody :: pbBody

record pbSubscribeRequest =
  psrChannel :: string
  psrPriority :: int
  psrMaxUnconfirmed :: "CreditWindow option"
  psrRecover :: "RecoverPoint option"

datatype pbClientBody =
    PbConnect string u32
  | PbPing
  | PbRefresh string
  | PbConfirm string u64
  | PbSubscribe pbSubscribeRequest
  | PbUnsubscribe string
  | PbPublish string bytes
  | PbOther

record pbClientMessage =
  pcmId :: string
  pcmBody :: pbClientBody

section \<open>pbcode\<close>

definition ToSubscribe :: "pbSubscribeRequest \<Rightarrow> SubscribeRequest" where
  "ToSubscribe req =
     (let out = \<lparr>sqChannel = psrChannel req, sqPriority = psrPriority req, sqWindow = \<lparr>cwCount = 0, cwBytes = 0\<rparr>, sqHasWindow = False,
                 sqRecover = \<lparr>rpOffset = 0, rpEpoch = 0\<rparr>, sqHasRecover = False\<rparr>;
          out = (case psrMaxUnconfirmed req of None \<Rightarrow> out
                 | Some m \<Rightarrow> out\<lparr>sqHasWindow := True, sqWindow := \<lparr>cwCount = cwCount m, cwBytes = cwBytes m\<rparr>\<rparr>)
      in case psrRecover req of None \<Rightarrow> out
         | Some r \<Rightarrow> out\<lparr>sqHasRecover := True, sqRecover := \<lparr>rpOffset = rpOffset r, rpEpoch = rpEpoch r\<rparr>\<rparr>)"

fun From :: "ErrorCode \<Rightarrow> pbErrorCode" where
  "From CodeUnknownMessage = ERROR_CODE_UNKNOWN_MESSAGE"
| "From CodeInvalidPayload = ERROR_CODE_INVALID_PAYLOAD"
| "From CodeNotAuthenticated = ERROR_CODE_NOT_AUTHENTICATED"
| "From CodeAlreadySubscribed = ERROR_CODE_ALREADY_SUBSCRIBED"
| "From CodeNotSubscribed = ERROR_CODE_NOT_SUBSCRIBED"
| "From CodePermissionDenied = ERROR_CODE_PERMISSION_DENIED"
| "From CodeMessageTooLarge = ERROR_CODE_MESSAGE_TOO_LARGE"
| "From CodeSubscriptionLimit = ERROR_CODE_SUBSCRIPTION_LIMIT"
| "From CodeChannelNotFound = ERROR_CODE_CHANNEL_NOT_FOUND"
| "From CodeInternal = ERROR_CODE_INTERNAL"

section \<open>Responses\<close>

text \<open>\<^verbatim>\<open>fmt.Sprintf\<close> of \<^verbatim>\<open>%d\<close>.\<close>

fun show_nat :: "nat \<Rightarrow> string" where
  "show_nat n = (if n < 10 then [char_of (48 + n)] else show_nat (n div 10) @ [char_of (48 + n mod 10)])"

declare show_nat.simps [simp del]

definition show_int :: "int \<Rightarrow> string" where
  "show_int i = (if i < 0 then CHR ''-'' # show_nat (nat (- i)) else show_nat (nat i))"

text \<open>What the \<^verbatim>\<open>Send\<close> methods of a session with this id put on the wire, and \<^verbatim>\<open>getServerMsg\<close> for a delivery.\<close>

definition SendConnected :: "int \<Rightarrow> string \<Rightarrow> u32 \<Rightarrow> pbServerMessage" where
  "SendConnected sid reqID version = \<lparr>psmId = reqID, psmBody = PbConnected (''conn-'' @ show_int sid) version\<rparr>"

definition SendRefreshed :: "string \<Rightarrow> u64 \<Rightarrow> pbServerMessage" where
  "SendRefreshed reqID expiresAt = \<lparr>psmId = reqID, psmBody = PbRefreshed expiresAt\<rparr>"

definition SendSubscribed :: "string \<Rightarrow> string \<Rightarrow> bool \<Rightarrow> bool \<Rightarrow> pbServerMessage" where
  "SendSubscribed reqID channel recovered didRecover =
     \<lparr>psmId = reqID, psmBody = PbSubscribed channel (if didRecover then recovered else False)\<rparr>"

definition SendUnsubscribed :: "string \<Rightarrow> string \<Rightarrow> pbServerMessage" where
  "SendUnsubscribed reqID channel = \<lparr>psmId = reqID, psmBody = PbUnsubscribed channel\<rparr>"

definition SendPublished :: "string \<Rightarrow> string \<Rightarrow> PublishResult \<Rightarrow> pbServerMessage" where
  "SendPublished reqID channel r =
     \<lparr>psmId = reqID, psmBody = PbPublished channel (resOffset r) (resEpoch r) (word_of_int (resDelivered r)) (word_of_int (resDropped r))\<rparr>"

definition SendPong :: "string \<Rightarrow> pbServerMessage" where
  "SendPong reqID = \<lparr>psmId = reqID, psmBody = PbPong\<rparr>"

definition sendError :: "pbErrorCode \<Rightarrow> string \<Rightarrow> string \<Rightarrow> pbServerMessage" where
  "sendError code message reqID = \<lparr>psmId = reqID, psmBody = PbError code message\<rparr>"

definition getServerMsg :: "Delivery \<Rightarrow> pbServerMessage" where
  "getServerMsg d =
     \<lparr>psmId = [], psmBody = PbChannelMessage \<lparr>pcChannel = dChannel d, pcData = dData d, pcOffset = dOffset d, pcEpoch = dEpoch d\<rparr>\<rparr>"

text \<open>The encoding of everything a session sends.\<close>

fun grpc_encode :: "int \<Rightarrow> response \<Rightarrow> pbServerMessage" where
  "grpc_encode sid (Connected reqID version) = SendConnected sid reqID version"
| "grpc_encode sid (Refreshed reqID expiresAt) = SendRefreshed reqID expiresAt"
| "grpc_encode sid (Subscribed reqID channel recovered didRecover) = SendSubscribed reqID channel recovered didRecover"
| "grpc_encode sid (Unsubscribed reqID channel) = SendUnsubscribed reqID channel"
| "grpc_encode sid (Published reqID channel r) = SendPublished reqID channel r"
| "grpc_encode sid (Pong reqID) = SendPong reqID"
| "grpc_encode sid (ErrorResponse code msg reqID) = sendError (From code) msg reqID"
| "grpc_encode sid (ChannelMessage d) = getServerMsg d"

section \<open>Dispatch\<close>

definition handleMessage :: "'w env \<Rightarrow> pbClientMessage \<Rightarrow> Session \<Rightarrow> Engine \<Rightarrow> 'w \<Rightarrow> (Session \<times> Engine \<times> 'w) result option" where
  "handleMessage v msg s e w =
     (case pcmBody msg of
        PbConnect token version \<Rightarrow>
          Some (Inr (Connect (envVerify v) \<lparr>cqAuthToken = token, cqProtocolVersion = version\<rparr> (pcmId msg) s, e, w))
      | PbPing \<Rightarrow> Some (Inr (Ping (pcmId msg) s, e, w))
      | PbRefresh token \<Rightarrow> Some (Inr (Refresh (envVerify v) \<lparr>rqAuthToken = token\<rparr> (pcmId msg) s, e, w))
      | PbConfirm channel offset \<Rightarrow>
          map_option (\<lambda>s'. Inr (s', e, w)) (Op_Confirm (envNow v) (envAccept v) channel offset (pcmId msg) s e)
      | PbSubscribe req \<Rightarrow>
          Some (Inr (Op_Subscribe (envNow v) (envEpoch v) (envAccept v) (envHooks v) (ToSubscribe req) (pcmId msg) s e w))
      | PbUnsubscribe channel \<Rightarrow> Some (Inr (Op_Unsubscribe (envNow v) (envHooks v) channel (pcmId msg) s e w))
      | PbPublish channel data \<Rightarrow>
          Some (Op_Publish (envNow v) (envEpoch v) (envOrder v) (envSched v) (envDeliver v) (envHooks v)
            \<lparr>pqChannel = channel, pqData = data\<rparr> (pcmId msg) s e w)
      | PbOther \<Rightarrow> Some (Inr (Unknown (pcmId msg) s, e, w)))"

text \<open>The same request as a WebSocket client writes it.\<close>

definition as_ws :: "pbClientMessage \<Rightarrow> ClientMessage" where
  "as_ws msg =
     (let m = \<lparr>cmID = pcmId msg, cmConnect = None, cmSubscribe = None, cmUnsubscribe = None, cmPublish = None, cmPing = None,
               cmRefresh = None, cmConfirm = None\<rparr>
      in case pcmBody msg of
           PbConnect token version \<Rightarrow> m\<lparr>cmConnect := Some \<lparr>cqAuthToken = token, cqProtocolVersion = version\<rparr>\<rparr>
         | PbPing \<Rightarrow> m\<lparr>cmPing := Some ()\<rparr>
         | PbRefresh token \<Rightarrow> m\<lparr>cmRefresh := Some \<lparr>rqAuthToken = token\<rparr>\<rparr>
         | PbConfirm channel offset \<Rightarrow> m\<lparr>cmConfirm := Some (channel, offset)\<rparr>
         | PbSubscribe req \<Rightarrow> m\<lparr>cmSubscribe := Some \<lparr>wqChannel = psrChannel req, wqRecover = psrRecover req,
                                wqMaxUnconfirmed = psrMaxUnconfirmed req, wqPriority = psrPriority req\<rparr>\<rparr>
         | PbUnsubscribe channel \<Rightarrow> m\<lparr>cmUnsubscribe := Some channel\<rparr>
         | PbPublish channel data \<Rightarrow> m\<lparr>cmPublish := Some \<lparr>pqChannel = channel, pqData = data\<rparr>\<rparr>
         | PbOther \<Rightarrow> m)"

lemma ToSubscribe_ws:
  "ToSubscribe req = toSubscribe \<lparr>wqChannel = psrChannel req, wqRecover = psrRecover req,
     wqMaxUnconfirmed = psrMaxUnconfirmed req, wqPriority = psrPriority req\<rparr>"
  by (simp add: ToSubscribe_def toSubscribe_def Let_def split: option.splits)

lemma handleMessage_ws: "handleMessage v msg s e w = dispatchParsed v (as_ws msg) s e w"
  by (cases "pcmBody msg") (simp_all add: handleMessage_def as_ws_def dispatchParsed_def ToSubscribe_ws Let_def)

text \<open>
  (C25) The two transports are one protocol: whatever a client asks for over gRPC has exactly the
  effect, on the session, the engine and everything they reach, that the same request has over a
  WebSocket.
\<close>

theorem transports_agree: "handleMessage v msg s e w = dispatchParsed v (as_ws msg) s e w"
  by (rule handleMessage_ws)

section \<open>The sender\<close>

definition maxBatchSize :: nat where "maxBatchSize = 64"
definition maxBatchBytes :: int where "maxBatchBytes = 1048576"

text \<open>
  The sender goroutine: whether it batches in this pass, what it has taken from the ring and not
  sent yet, the frames the stream took, and whether it is in its inner loop (\<open>Draining\<close>), waiting
  to be woken, or has returned. \<open>sends\<close> is the stream: it takes a frame or fails.
\<close>

datatype phase = Draining | Waiting | Exited

record sender =
  snBatching :: bool
  snPending :: "pbServerMessage list"
  snPendingBytes :: int
  snFrames :: "pbServerMessage list"
  snPhase :: phase

definition stream_Send :: "(pbServerMessage \<Rightarrow> bool) \<Rightarrow> pbServerMessage \<Rightarrow> sender \<Rightarrow> bool \<times> sender" where
  "stream_Send sends frame n = (if sends frame then (True, n\<lparr>snFrames := snFrames n @ [frame]\<rparr>) else (False, n))"

text \<open>\<^verbatim>\<open>GetChannelMessage\<close>: \<open>None\<close> for every other kind of message.\<close>

definition GetChannelMessage :: "pbServerMessage \<Rightarrow> pbChannelMessage option" where
  "GetChannelMessage m = (case psmBody m of PbChannelMessage cm \<Rightarrow> Some cm | _ \<Rightarrow> None)"

definition flushPending :: "(pbServerMessage \<Rightarrow> bool) \<Rightarrow> sender \<Rightarrow> bool \<times> sender" where
  "flushPending sends n =
     (case snPending n of
        [] \<Rightarrow> (True, n)
      | [m] \<Rightarrow> (case stream_Send sends m n of (ok, n1) \<Rightarrow> (ok, n1\<lparr>snPending := []\<rparr>))
      | msgs \<Rightarrow>
          (case stream_Send sends \<lparr>psmId = [], psmBody = PbBatch (map (the \<circ> GetChannelMessage) msgs)\<rparr> n of
             (ok, n1) \<Rightarrow> (ok, n1\<lparr>snPending := []\<rparr>)))"

definition exit_sender :: "sender \<Rightarrow> sender" where
  "exit_sender n = n\<lparr>snPhase := Exited\<rparr>"

text \<open>Adding a delivery to the batch, which is flushed when that fills it.\<close>

definition sender_append :: "(pbServerMessage \<Rightarrow> bool) \<Rightarrow> pbServerMessage \<Rightarrow> int \<Rightarrow> sender \<Rightarrow> sender" where
  "sender_append sends msg sz n =
     (let n2 = n\<lparr>snPending := snPending n @ [msg], snPendingBytes := snPendingBytes n + sz\<rparr>
      in if length (snPending n2) \<ge> maxBatchSize \<or> snPendingBytes n2 \<ge> maxBatchBytes
         then (case flushPending sends n2 of (ok, n3) \<Rightarrow> if \<not> ok then exit_sender n3 else n3\<lparr>snPendingBytes := 0\<rparr>)
         else n2)"

text \<open>One turn of the inner loop, with the message it consumed.\<close>

definition sender_take :: "(pbServerMessage \<Rightarrow> bool) \<Rightarrow> pbServerMessage \<Rightarrow> sender \<Rightarrow> sender" where
  "sender_take sends msg n =
     (if snBatching n \<and> GetChannelMessage msg \<noteq> None \<and> psmId msg = [] then
        (let size = int (length (pcData (the (GetChannelMessage msg))))
         in case (if snPending n \<noteq> [] \<and> snPendingBytes n + size > maxBatchBytes
                  then (case flushPending sends n of (ok, n') \<Rightarrow> (ok, n'\<lparr>snPendingBytes := 0\<rparr>))
                  else (True, n)) of
              (ok, n1) \<Rightarrow> if \<not> ok then exit_sender n1 else sender_append sends msg size n1)
      else
        (case flushPending sends n of (ok, n1) \<Rightarrow>
           if \<not> ok then exit_sender n1
           else (case stream_Send sends msg (n1\<lparr>snPendingBytes := 0\<rparr>) of (ok, n2) \<Rightarrow> if \<not> ok then exit_sender n2 else n2)))"

text \<open>The end of a pass, when the ring is empty.\<close>

definition sender_pause :: "(pbServerMessage \<Rightarrow> bool) \<Rightarrow> sender \<Rightarrow> sender" where
  "sender_pause sends n =
     (case flushPending sends n of (ok, n1) \<Rightarrow>
        if \<not> ok then exit_sender n1 else n1\<lparr>snPendingBytes := 0, snPhase := Waiting\<rparr>)"

text \<open>The start of a pass: the negotiated version is read anew.\<close>

definition sender_wake :: "u32 \<Rightarrow> sender \<Rightarrow> sender" where
  "sender_wake protoVersion n = n\<lparr>snBatching := (protoVersion \<ge> 2), snPhase := Draining\<rparr>"

definition sender_start :: "u32 \<Rightarrow> sender" where
  "sender_start protoVersion = \<lparr>snBatching = (protoVersion \<ge> 2), snPending = [], snPendingBytes = 0, snFrames = [], snPhase = Draining\<rparr>"


section \<open>Producers and the sender\<close>

text \<open>
  Any number of producers put messages into the ring while the sender runs; a produce is what
  \<^verbatim>\<open>Session.produce\<close> and every turn of the retry loop of \<^verbatim>\<open>Session.send\<close> do. The last component lists the
  messages the ring took. The stream may take or refuse each frame.
\<close>

type_synonym sender_state = "pbServerMessage PointerRing \<times> sender \<times> pbServerMessage list"

inductive sender_step :: "sender_state \<Rightarrow> sender_state \<Rightarrow> bool" where
  produce: "TryProduce (Some m) r = Some (taken, r') \<Longrightarrow> (\<forall>cms. psmBody m \<noteq> PbBatch cms) \<Longrightarrow>
    sender_step (r, n, acc) (r', n, if taken then acc @ [m] else acc)"
| take: "snPhase n = Draining \<Longrightarrow> TryConsume r = ((Some m, True), r') \<Longrightarrow> sender_step (r, n, acc) (r', sender_take sends m n, acc)"
| pause: "snPhase n = Draining \<Longrightarrow> TryConsume r = ((x, False), r') \<Longrightarrow> sender_step (r, n, acc) (r', sender_pause sends n, acc)"
| wake: "snPhase n = Waiting \<Longrightarrow> sender_step (r, n, acc) (r, sender_wake v n, acc)"
| closed: "snPhase n = Waiting \<Longrightarrow> sender_step (r, n, acc) (r, exit_sender n, acc)"
| drain: "snPhase n = Exited \<Longrightarrow> TryConsume r = ((x, True), r') \<Longrightarrow> sender_step (r, n, acc) (r', n, acc)"

text \<open>The messages in a frame.\<close>

definition messages_of :: "pbServerMessage \<Rightarrow> pbServerMessage list" where
  "messages_of f = (case psmBody f of PbBatch cms \<Rightarrow> map (\<lambda>cm. \<lparr>psmId = [], psmBody = PbChannelMessage cm\<rparr>) cms | _ \<Rightarrow> [f])"

abbreviation sent :: "sender \<Rightarrow> pbServerMessage list" where
  "sent n \<equiv> concat (map messages_of (snFrames n))"

definition payload :: "pbServerMessage \<Rightarrow> int" where
  "payload m = (case GetChannelMessage m of None \<Rightarrow> 0 | Some cm \<Rightarrow> int (length (pcData cm)))"

definition frame_ok :: "pbServerMessage \<Rightarrow> bool" where
  "frame_ok f = (case psmBody f of
     PbBatch cms \<Rightarrow> 2 \<le> length cms \<and> length cms \<le> maxBatchSize \<and> (\<Sum>cm \<leftarrow> cms. int (length (pcData cm))) \<le> maxBatchBytes
   | _ \<Rightarrow> True)"

text \<open>Messages that may wait for a batch: deliveries, which carry no request id.\<close>

definition batchable :: "pbServerMessage \<Rightarrow> bool" where
  "batchable m \<longleftrightarrow> GetChannelMessage m \<noteq> None \<and> psmId m = []"

definition pending_ok :: "sender \<Rightarrow> bool" where
  "pending_ok n \<longleftrightarrow> (\<forall>m \<in> set (snPending n). batchable m) \<and> snPendingBytes n = (\<Sum>m \<leftarrow> snPending n. payload m)"

lemma batchable_eq: "batchable m \<Longrightarrow> \<lparr>psmId = [], psmBody = PbChannelMessage (the (GetChannelMessage m))\<rparr> = m"
  by (cases m; cases "psmBody m") (simp_all add: batchable_def GetChannelMessage_def)

lemma payload_batchable: "batchable m \<Longrightarrow> int (length (pcData (the (GetChannelMessage m)))) = payload m"
  by (auto simp: batchable_def payload_def)

lemma messages_of_single: "(\<forall>cms. psmBody m \<noteq> PbBatch cms) \<Longrightarrow> messages_of m = [m]"
  by (simp add: messages_of_def split: pbBody.splits)

lemma batchable_single: "batchable m \<Longrightarrow> messages_of m = [m] \<and> frame_ok m"
  by (cases "psmBody m") (simp_all add: batchable_def GetChannelMessage_def messages_of_def frame_ok_def)

lemma payload_nonneg [simp]: "0 \<le> payload m"
  by (simp add: payload_def split: option.splits)

text \<open>A flush sends what is pending, in one frame, or fails and sends nothing.\<close>

lemma flushPending_cases:
  assumes "pending_ok n" "length (snPending n) \<le> maxBatchSize" "snPendingBytes n \<le> maxBatchBytes \<or> length (snPending n) = 1"
    and "flushPending sends n = (ok, n')"
  shows "snPending n' = []" "snPhase n' = snPhase n" "snBatching n' = snBatching n" "snPendingBytes n' = snPendingBytes n"
    "ok \<Longrightarrow> sent n' = sent n @ snPending n" "\<not> ok \<Longrightarrow> sent n' = sent n"
    "(\<forall>f \<in> set (snFrames n). frame_ok f) \<Longrightarrow> \<forall>f \<in> set (snFrames n'). frame_ok f"
proof -
  have "snPending n' = [] \<and> snPhase n' = snPhase n \<and> snBatching n' = snBatching n \<and> snPendingBytes n' = snPendingBytes n
      \<and> (ok \<longrightarrow> sent n' = sent n @ snPending n) \<and> (\<not> ok \<longrightarrow> sent n' = sent n)
      \<and> ((\<forall>f \<in> set (snFrames n). frame_ok f) \<longrightarrow> (\<forall>f \<in> set (snFrames n'). frame_ok f))"
  proof (cases "snPending n")
    case Nil
    then show ?thesis using assms(4) by (auto simp: flushPending_def)
  next
    case (Cons m ms)
    show ?thesis
    proof (cases ms)
      case Nil
      have "batchable m" using assms(1) Cons by (simp add: pending_ok_def)
      then show ?thesis using assms(4) Cons Nil batchable_single [of m]
        by (auto simp: flushPending_def stream_Send_def split: if_splits)
    next
      case (Cons m2 ms2)
      let ?f = "\<lparr>psmId = [], psmBody = PbBatch (map (the \<circ> GetChannelMessage) (snPending n))\<rparr>"
      have all: "\<forall>x \<in> set (snPending n). batchable x" using assms(1) by (simp add: pending_ok_def)
      have msgs: "messages_of ?f = snPending n"
        using all by (auto simp: messages_of_def intro!: map_idI batchable_eq)
      have "map (\<lambda>cm. int (length (pcData cm))) (map (the \<circ> GetChannelMessage) (snPending n)) = map payload (snPending n)"
        using all payload_batchable by auto
      then have "frame_ok ?f"
        using assms(1-3) \<open>snPending n = m # ms\<close> Cons by (simp add: frame_ok_def pending_ok_def del: map_map)
      then show ?thesis using assms(4) \<open>snPending n = m # ms\<close> Cons msgs
        by (auto simp: flushPending_def stream_Send_def split: if_splits)
    qed
  qed
  then show "snPending n' = []" "snPhase n' = snPhase n" "snBatching n' = snBatching n" "snPendingBytes n' = snPendingBytes n"
    "ok \<Longrightarrow> sent n' = sent n @ snPending n" "\<not> ok \<Longrightarrow> sent n' = sent n"
    "(\<forall>f \<in> set (snFrames n). frame_ok f) \<Longrightarrow> \<forall>f \<in> set (snFrames n'). frame_ok f" by blast+
qed


text \<open>Between two turns less than a full batch is pending; nothing is while the sender waits.\<close>

definition sender_ok :: "sender \<Rightarrow> bool" where
  "sender_ok n \<longleftrightarrow> pending_ok n \<and> length (snPending n) < maxBatchSize \<and> snPendingBytes n < maxBatchBytes
     \<and> (snPhase n = Waiting \<longrightarrow> snPending n = [])"

lemmas batch_limits = maxBatchSize_def maxBatchBytes_def

lemma sender_append_ok:
  assumes n: "pending_ok n" "snPhase n = Draining" and m: "batchable m"
    and room: "length (snPending n) < maxBatchSize" "snPending n \<noteq> [] \<longrightarrow> snPendingBytes n + payload m \<le> maxBatchBytes"
    and frames: "\<forall>f \<in> set (snFrames n). frame_ok f"
  shows "(\<forall>f \<in> set (snFrames (sender_append sends m (payload m) n)). frame_ok f) \<and> snPhase (sender_append sends m (payload m) n) \<noteq> Waiting
    \<and> (snPhase (sender_append sends m (payload m) n) = Draining \<longrightarrow> sender_ok (sender_append sends m (payload m) n)
        \<and> sent (sender_append sends m (payload m) n) @ snPending (sender_append sends m (payload m) n) = sent n @ snPending n @ [m])
    \<and> (snPhase (sender_append sends m (payload m) n) = Exited \<longrightarrow> sent (sender_append sends m (payload m) n) = sent n)"
proof -
  define n2 where "n2 = n\<lparr>snPending := snPending n @ [m], snPendingBytes := snPendingBytes n + payload m\<rparr>"
  show ?thesis
  proof (cases "length (snPending n2) \<ge> maxBatchSize \<or> snPendingBytes n2 \<ge> maxBatchBytes")
    case False
    then have "sender_append sends m (payload m) n = n2" by (simp add: sender_append_def Let_def n2_def)
    then show ?thesis using n m frames False by (auto simp: n2_def sender_ok_def pending_ok_def)
  next
    case True
    obtain ok n3 where f: "flushPending sends n2 = (ok, n3)" by (cases "flushPending sends n2")
    have p: "pending_ok n2" using n m by (simp add: n2_def pending_ok_def)
    have l: "length (snPending n2) \<le> maxBatchSize" "snPendingBytes n2 \<le> maxBatchBytes \<or> length (snPending n2) = 1"
      using room by (auto simp: n2_def)
    have run: "sender_append sends m (payload m) n = (if \<not> ok then exit_sender n3 else n3\<lparr>snPendingBytes := 0\<rparr>)"
      using True f by (simp add: sender_append_def Let_def n2_def)
    have old: "snFrames n2 = snFrames n" "snPhase n2 = Draining" "snPending n2 = snPending n @ [m]" using n by (simp_all add: n2_def)
    show ?thesis using flushPending_cases [OF p l f] frames unfolding run old
      by (auto simp: exit_sender_def sender_ok_def pending_ok_def batch_limits)
  qed
qed

lemma sender_take_ok:
  fixes sends :: "pbServerMessage \<Rightarrow> bool"
  assumes n: "sender_ok n" "snPhase n = Draining" and m: "\<forall>cms. psmBody m \<noteq> PbBatch cms"
    and frames: "\<forall>f \<in> set (snFrames n). frame_ok f"
  defines "n' \<equiv> sender_take sends m n"
  shows "(\<forall>f \<in> set (snFrames n'). frame_ok f) \<and> snPhase n' \<noteq> Waiting
    \<and> (snPhase n' = Draining \<longrightarrow> sender_ok n' \<and> sent n' @ snPending n' = sent n @ snPending n @ [m])
    \<and> (snPhase n' = Exited \<longrightarrow> sent n' = sent n \<or> sent n' = sent n @ snPending n)"
proof -
  obtain ok n1 where f: "flushPending sends n = (ok, n1)" by (cases "flushPending sends n")
  have p: "pending_ok n" "length (snPending n) \<le> maxBatchSize" "snPendingBytes n \<le> maxBatchBytes \<or> length (snPending n) = 1"
    using n(1) by (simp_all add: sender_ok_def)
  note c = flushPending_cases [OF p f]
  show ?thesis
  proof (cases "snBatching n \<and> batchable m")
    case True
    then have b: "snBatching n \<and> GetChannelMessage m \<noteq> None \<and> psmId m = []" and bm: "batchable m" by (simp_all add: batchable_def)
    have size: "int (length (pcData (the (GetChannelMessage m)))) = payload m" using bm by (rule payload_batchable)
    show ?thesis
    proof (cases "snPending n \<noteq> [] \<and> snPendingBytes n + payload m > maxBatchBytes")
      case False
      then have "n' = sender_append sends m (payload m) n"
        using b unfolding n'_def sender_take_def Let_def size by auto
      moreover have "length (snPending n) < maxBatchSize" "snPending n \<noteq> [] \<longrightarrow> snPendingBytes n + payload m \<le> maxBatchBytes"
        using n(1) False by (auto simp: sender_ok_def)
      ultimately show ?thesis using sender_append_ok [OF p(1) n(2) bm _ _ frames, of sends] by simp
    next
      case over: True
      then have run: "n' = (if \<not> ok then exit_sender (n1\<lparr>snPendingBytes := 0\<rparr>) else sender_append sends m (payload m) (n1\<lparr>snPendingBytes := 0\<rparr>))"
        using b f by (simp add: n'_def sender_take_def Let_def size)
      show ?thesis
      proof (cases ok)
        case False
        then show ?thesis using run c frames by (simp add: exit_sender_def)
      next
        case True
        let ?n = "n1\<lparr>snPendingBytes := 0\<rparr>"
        have q: "pending_ok ?n" "snPhase ?n = Draining" "length (snPending ?n) < maxBatchSize"
            "snPending ?n \<noteq> [] \<longrightarrow> snPendingBytes ?n + payload m \<le> maxBatchBytes"
            "\<forall>f \<in> set (snFrames ?n). frame_ok f" "sent ?n = sent n @ snPending n" "snPending ?n = []"
          using c True frames n by (simp_all add: pending_ok_def batch_limits)
        have "n' = sender_append sends m (payload m) ?n" using run True by simp
        then show ?thesis using sender_append_ok [OF q(1,2) bm q(3,4,5), of sends] q(6,7) by simp
      qed
    qed
  next
    case False
    then have "n' = (if \<not> ok then exit_sender n1
        else (case stream_Send sends m (n1\<lparr>snPendingBytes := 0\<rparr>) of (ok, n2) \<Rightarrow> if \<not> ok then exit_sender n2 else n2))"
      using f by (auto simp: n'_def sender_take_def batchable_def)
    moreover have "frame_ok m" using m by (simp add: frame_ok_def split: pbBody.splits)
    ultimately show ?thesis using c n frames messages_of_single [OF m]
      by (auto simp: stream_Send_def exit_sender_def sender_ok_def pending_ok_def batch_limits split: if_splits)
  qed
qed


section \<open>Executions\<close>

definition exec_ok :: "nat \<Rightarrow> sender_state \<Rightarrow> bool" where
  "exec_ok cap = (\<lambda>(r, n, acc). (\<forall>m \<in> set acc. \<forall>cms. psmBody m \<noteq> PbBatch cms) \<and> (\<forall>f \<in> set (snFrames n). frame_ok f)
     \<and> (\<exists>q. ring_ok cap q r \<and> set q \<subseteq> set acc
          \<and> (if snPhase n = Exited then prefix (sent n) acc else sender_ok n \<and> acc = sent n @ snPending n @ q)))"

lemma exec_ok_step:
  assumes "sender_step x y" "exec_ok cap x"
  shows "exec_ok cap y"
  using assms(1)
proof cases
  case (produce m r taken r' n acc)
  obtain q where q: "ring_ok cap q r" "set q \<subseteq> set acc"
      "if snPhase n = Exited then prefix (sent n) acc else sender_ok n \<and> acc = sent n @ snPending n @ q"
    using assms(2) produce(1) by (auto simp: exec_ok_def)
  obtain r2 where "TryProduce (Some m) r = Some (length q < cap, r2)" "ring_ok cap (if length q < cap then q @ [m] else q) r2"
    using ring.enq_spec [OF q(1)] by blast
  then have r': "taken = (length q < cap)" "ring_ok cap (if taken then q @ [m] else q) r'" using produce(3) by auto
  show ?thesis
    using assms(2) produce(1,2,4) q r'(2)
    by (auto simp: exec_ok_def split: if_splits intro!: exI [of _ "if taken then q @ [m] else q"] intro: prefix_append)
next
  case (take n r m r' acc sends)
  obtain q where q: "ring_ok cap q r" "set q \<subseteq> set acc" "sender_ok n" "acc = sent n @ snPending n @ q"
    using assms(2) take(1,3) by (auto simp: exec_ok_def)
  then obtain q' where q': "q = m # q'" "ring_ok cap q' r'"
    using ring.deq_spec [OF q(1)] take(4) by (cases q) auto
  have m: "\<forall>cms. psmBody m \<noteq> PbBatch cms" and frames: "\<forall>f \<in> set (snFrames n). frame_ok f"
    using assms(2) take(1) q(2) q'(1) by (auto simp: exec_ok_def)
  note t = sender_take_ok [OF q(3) take(3) m frames, of sends]
  have ph: "snPhase (sender_take sends m n) = Exited \<or> snPhase (sender_take sends m n) = Draining"
    using t by (cases "snPhase (sender_take sends m n)") auto
  then show ?thesis
  proof
    assume ex: "snPhase (sender_take sends m n) = Exited"
    then have "prefix (sent (sender_take sends m n)) acc" using t q(4) by auto
    then show ?thesis using assms(2) take(1,2) t q(2) q' ex by (auto simp: exec_ok_def intro!: exI [of _ q'])
  next
    assume dr: "snPhase (sender_take sends m n) = Draining"
    then have "sender_ok (sender_take sends m n)" "sent (sender_take sends m n) @ snPending (sender_take sends m n) = sent n @ snPending n @ [m]"
      using t by auto
    then show ?thesis using assms(2) take(1,2) t q(2,4) q' dr by (auto simp: exec_ok_def intro!: exI [of _ q'])
  qed
next
  case (pause n r x r' acc sends)
  obtain q where q: "ring_ok cap q r" "set q \<subseteq> set acc" "sender_ok n" "acc = sent n @ snPending n @ q"
    using assms(2) pause(1,3) by (auto simp: exec_ok_def)
  then have e: "q = []" "ring_ok cap [] r'" using ring.deq_spec [OF q(1)] pause(4) by (cases q; auto)+
  obtain ok n1 where f: "flushPending sends n = (ok, n1)" by (cases "flushPending sends n")
  have frames: "\<forall>f \<in> set (snFrames n). frame_ok f" using assms(2) pause(1) by (auto simp: exec_ok_def)
  have p: "pending_ok n" "length (snPending n) \<le> maxBatchSize" "snPendingBytes n \<le> maxBatchBytes \<or> length (snPending n) = 1"
    using q(3) by (simp_all add: sender_ok_def)
  note c = flushPending_cases [OF p f]
  have "if snPhase (sender_pause sends n) = Exited then prefix (sent (sender_pause sends n)) acc
        else sender_ok (sender_pause sends n) \<and> acc = sent (sender_pause sends n) @ snPending (sender_pause sends n) @ []"
    using c q e f by (auto simp: sender_pause_def exit_sender_def sender_ok_def pending_ok_def batch_limits)
  moreover have "\<forall>f \<in> set (snFrames (sender_pause sends n)). frame_ok f"
    using c(7) frames f by (auto simp: sender_pause_def exit_sender_def)
  ultimately show ?thesis using assms(2) pause(1,2) e by (auto simp: exec_ok_def)
next
  case (wake n r acc v)
  then show ?thesis using assms(2) by (auto simp: exec_ok_def sender_wake_def sender_ok_def pending_ok_def)
next
  case (closed n r acc)
  then show ?thesis using assms(2) by (auto simp: exec_ok_def exit_sender_def)
next
  case (drain n r x r' acc)
  obtain q where q: "ring_ok cap q r" "set q \<subseteq> set acc" using assms(2) drain(1) by (auto simp: exec_ok_def)
  then obtain q' where q': "ring_ok cap q' r'" "set q' \<subseteq> set acc"
    using ring.deq_spec [OF q(1)] drain(4) by (cases q) auto
  show ?thesis using assms(2) drain(1-3) q' by (auto simp: exec_ok_def intro!: exI [of _ q'])
qed

lemma exec_ok_reach: "sender_step\<^sup>*\<^sup>* x y \<Longrightarrow> exec_ok cap x \<Longrightarrow> exec_ok cap y"
  by (induction rule: rtranclp_induct) (auto intro: exec_ok_step)

text \<open>
  (C26) The gRPC sender neither loses, duplicates nor reorders: in every interleaving of producers
  with the sender, across changes of the negotiated version and failures of the stream, the messages
  in the frames the stream took are a prefix of the messages the ring took, in order; while the
  sender lives everything the ring took is sent, pending or still queued, and nothing is pending
  when it goes to sleep. A batch frame holds 2 to 64 deliveries of at most 1 MiB together.
\<close>

theorem sender_in_order:
  assumes "NewPointer (int cap) = Some r0" and "is_pow2 cap" and "2 \<le> cap" and "cap \<le> 2 ^ 62"
    and "sender_step\<^sup>*\<^sup>* (r0, sender_start v, []) (r, n, acc)"
  shows "prefix (concat (map messages_of (snFrames n))) acc
    \<and> (snPhase n \<noteq> Exited \<longrightarrow> (\<exists>q. ring_ok cap q r \<and> acc = concat (map messages_of (snFrames n)) @ snPending n @ q))
    \<and> (snPhase n = Waiting \<longrightarrow> snPending n = [])
    \<and> (\<forall>f cms. f \<in> set (snFrames n) \<and> psmBody f = PbBatch cms \<longrightarrow>
         2 \<le> length cms \<and> length cms \<le> 64 \<and> (\<Sum>cm \<leftarrow> cms. int (length (pcData cm))) \<le> 1048576)"
proof -
  have "exec_ok cap (r0, sender_start v, [])"
    using NewPointer_ok [OF assms(2-4), where ?'a = pbServerMessage] assms(1)
    by (auto simp: exec_ok_def sender_start_def sender_ok_def pending_ok_def batch_limits)
  then have ok: "exec_ok cap (r, n, acc)" using exec_ok_reach [OF assms(5)] by blast
  have "2 \<le> length cms \<and> length cms \<le> 64 \<and> (\<Sum>cm \<leftarrow> cms. int (length (pcData cm))) \<le> 1048576"
    if "f \<in> set (snFrames n)" "psmBody f = PbBatch cms" for f cms
    using ok that by (auto simp: exec_ok_def frame_ok_def batch_limits)
  then show ?thesis using ok by (auto simp: exec_ok_def sender_ok_def split: if_splits)
qed


theorem sender_in_order_witness:
  "\<exists>r0 r n m. NewPointer 2 = Some r0 \<and> sender_step\<^sup>*\<^sup>* (r0, sender_start 2, []) (r, n, [m]) \<and> snPhase n = Waiting
    \<and> concat (map messages_of (snFrames n)) = [m]"
proof -
  have pow: "is_pow2 2" unfolding is_pow2_def by (rule exI [of _ 1]) simp
  let ?m = "getServerMsg \<lparr>dChannel = ''news'', dData = ''x'', dOffset = 1, dEpoch = 5, dFrame = None\<rparr>"
  obtain r0 where r0: "NewPointer (int 2) = Some r0" "ring_ok 2 [] (r0 :: pbServerMessage PointerRing)"
    using NewPointer_ok [OF pow] by auto
  obtain r1 where r1: "TryProduce (Some ?m) r0 = Some (True, r1)" "ring_ok 2 [?m] r1" using ring.enq_spec [OF r0(2), of ?m] by auto
  obtain r2 where r2: "TryConsume r1 = ((Some ?m, True), r2)" "ring_ok 2 [] r2" using ring.deq_spec [OF r1(2)] by auto
  have r3: "TryConsume r2 = ((None, False), r2)" by (rule ring.deq_Nil) (rule r2(2))
  let ?n1 = "sender_take (\<lambda>_. True) ?m (sender_start 2)" and ?n2 = "sender_pause (\<lambda>_. True) (sender_take (\<lambda>_. True) ?m (sender_start 2))"
  have n: "snPhase (sender_start 2) = Draining" "snPhase ?n1 = Draining" "snPhase ?n2 = Waiting"
    by (simp_all add: sender_start_def sender_take_def sender_append_def sender_pause_def flushPending_def stream_Send_def
        GetChannelMessage_def getServerMsg_def Let_def batch_limits)
  have "sender_step (r0, sender_start 2, []) (r1, sender_start 2, [?m])"
    using sender_step.produce [OF r1(1), of "sender_start 2" "[]"] by (simp add: getServerMsg_def)
  moreover have "sender_step (r1, sender_start 2, [?m]) (r2, ?n1, [?m])" by (rule sender_step.take) (rule n r2(1))+
  moreover have "sender_step (r2, ?n1, [?m]) (r2, ?n2, [?m])" by (rule sender_step.pause) (rule n r3)+
  ultimately have run: "sender_step\<^sup>*\<^sup>* (r0, sender_start 2, []) (r2, ?n2, [?m])"
    by (meson converse_rtranclp_into_rtranclp rtranclp.rtrancl_refl)
  obtain q where "ring_ok 2 q r2" "[?m] = concat (map messages_of (snFrames ?n2)) @ snPending ?n2 @ q" "snPending ?n2 = []"
    using sender_in_order [OF r0(1) pow _ _ run] n(3) by auto
  moreover have "q = []" using ring.deq_spec [OF \<open>ring_ok 2 q r2\<close>] r3 by auto
  ultimately show ?thesis using r0(1) run n(3) by (intro exI [of _ r0] exI [of _ r2] exI [of _ ?n2] exI [of _ ?m]) simp
qed

end
