(* ===== verification/Upstream.thy ===== *)
theory Upstream
  imports Protocol
begin

text \<open>
  Model of \<^verbatim>\<open>internal/relay/upstream.go\<close>: the relay's client connection to its upstream server, with
  its reference-counted subscriptions, the recover points, and the goroutines that receive, send and
  reconnect.

  \<^item> A stream is a number; \<open>None\<close> is the nil stream.
  \<^item> The send channel is the list of the messages in it. A goroutine that finds it full waits for
    the send loop; the order of the messages is that of the list.
  \<^item> \<^verbatim>\<open>handleDisconnect\<close> is three atomic pieces: the comparison under \<^verbatim>\<open>streamMu\<close>, the store of the
    connected flag, and the compare-and-swap that starts a reconnect.
  \<^item> The product of a delay and the floating-point multiplier is the parameter \<open>scale\<close>.
\<close>

datatype upstream_msg =
    UpConnect string
  | UpSubscribe string "RecoverPoint option"
  | UpUnsubscribe string
  | UpPublish string bytes

record ReconnectPolicy =
  rpInitialDelay :: int
  rpMaxDelay :: int
  rpMaxRetries :: int

record Upstream =
  upToken :: string
  upPolicy :: ReconnectPolicy
  upStream :: "nat option"
  upSubscriptions :: "(string, int) gomap"
  upLastSeen :: "(string, RecoverPoint) gomap"
  upSendCh :: "upstream_msg list"
  upConnected :: bool
  upReconnecting :: bool
  upLastEstablished :: int
  upLastDelay :: int
  upPendingRecovers :: "(string, unit) gomap"

definition NewUpstream :: "string \<Rightarrow> ReconnectPolicy \<Rightarrow> Upstream" where
  "NewUpstream token policy = \<lparr>upToken = token, upPolicy = policy, upStream = None, upSubscriptions = [], upLastSeen = [],
     upSendCh = [], upConnected = False, upReconnecting = False, upLastEstablished = 0, upLastDelay = 0, upPendingRecovers = []\<rparr>"

definition enqueue :: "upstream_msg \<Rightarrow> Upstream \<Rightarrow> Upstream" where
  "enqueue msg u = u\<lparr>upSendCh := upSendCh u @ [msg]\<rparr>"

definition Up_Subscribe :: "string \<Rightarrow> Upstream \<Rightarrow> Upstream" where
  "Up_Subscribe channel u =
     (case gget (upSubscriptions u) channel of
        Some n \<Rightarrow> u\<lparr>upSubscriptions := gput channel (n + 1) (upSubscriptions u)\<rparr>
      | None \<Rightarrow>
          (let u1 = u\<lparr>upSubscriptions := gput channel 1 (upSubscriptions u)\<rparr>
           in if upConnected u1 then enqueue (UpSubscribe channel None) u1 else u1))"

definition Up_Unsubscribe :: "string \<Rightarrow> Upstream \<Rightarrow> Upstream" where
  "Up_Unsubscribe channel u =
     (case gget (upSubscriptions u) channel of
        None \<Rightarrow> u
      | Some c \<Rightarrow>
          (let n = c - 1
           in if n \<le> 0
              then
                (let u1 = u\<lparr>upSubscriptions := gdel channel (upSubscriptions u), upLastSeen := gdel channel (upLastSeen u)\<rparr>
                 in if upConnected u1 then enqueue (UpUnsubscribe channel) u1 else u1)
              else u\<lparr>upSubscriptions := gput channel n (upSubscriptions u)\<rparr>))"

text \<open>\<open>False\<close> is the error that the upstream is not connected.\<close>

definition Up_Publish :: "string \<Rightarrow> bytes \<Rightarrow> Upstream \<Rightarrow> bool \<times> Upstream" where
  "Up_Publish channel data u =
     (if \<not> upConnected u then (False, u) else (True, enqueue (UpPublish channel data) u))"

text \<open>The sweep over the subscriptions: each is asked for again, from its recover point when it has one.\<close>

fun resubscribe :: "string list \<Rightarrow> Upstream \<Rightarrow> Upstream" where
  "resubscribe [] u = u"
| "resubscribe (channel # cs) u =
     resubscribe cs
       (case gget (upLastSeen u) channel of
          None \<Rightarrow> enqueue (UpSubscribe channel None) u
        | Some rp \<Rightarrow> enqueue (UpSubscribe channel (Some rp)) (u\<lparr>upPendingRecovers := gput channel () (upPendingRecovers u)\<rparr>))"

text \<open>\<open>opened\<close> is the new stream, or \<open>None\<close> when the client could not open one.\<close>

definition establishStream :: "nat option \<Rightarrow> Upstream \<Rightarrow> bool \<times> Upstream" where
  "establishStream opened u =
     (case opened of
        None \<Rightarrow> (False, u)
      | Some stream \<Rightarrow>
          (let u1 = u\<lparr>upStream := Some stream\<rparr>;
               u2 = (if upToken u1 \<noteq> [] then enqueue (UpConnect (upToken u1)) u1 else u1);
               u3 = resubscribe (gkeys (upSubscriptions u2)) u2
           in (True, u3\<lparr>upConnected := True\<rparr>)))"

datatype server_msg = SrvChannelMessage Delivery | SrvSubscribed string bool | SrvOther

text \<open>The message handler's calls are the second component.\<close>

definition Up_handleMessage :: "server_msg \<Rightarrow> Upstream \<Rightarrow> Upstream \<times> Delivery list" where
  "Up_handleMessage msg u =
     (case msg of
        SrvChannelMessage cm \<Rightarrow>
          (if dOffset cm \<noteq> 0 \<and> gget (upSubscriptions u) (dChannel cm) \<noteq> None
           then u\<lparr>upLastSeen := gput (dChannel cm) \<lparr>rpOffset = dOffset cm, rpEpoch = dEpoch cm\<rparr> (upLastSeen u)\<rparr> else u,
           [cm])
      | SrvSubscribed channel recovered \<Rightarrow> (u\<lparr>upPendingRecovers := gdel channel (upPendingRecovers u)\<rparr>, [])
      | SrvOther \<Rightarrow> (u, []))"

text \<open>The three pieces of \<^verbatim>\<open>handleDisconnect\<close>, and the whole.\<close>

definition drop_stream :: "nat \<Rightarrow> Upstream \<Rightarrow> bool \<times> Upstream" where
  "drop_stream failed u = (if upStream u \<noteq> Some failed then (False, u) else (True, u\<lparr>upStream := None\<rparr>))"

definition drop_flag :: "Upstream \<Rightarrow> Upstream" where
  "drop_flag u = u\<lparr>upConnected := False\<rparr>"

definition try_reconnecting :: "Upstream \<Rightarrow> bool \<times> Upstream" where
  "try_reconnecting u = (if upReconnecting u then (False, u) else (True, u\<lparr>upReconnecting := True\<rparr>))"

definition handleDisconnect :: "nat \<Rightarrow> Upstream \<Rightarrow> bool \<times> Upstream" where
  "handleDisconnect failed u =
     (case drop_stream failed u of
        (False, u1) \<Rightarrow> (False, u1)
      | (True, u1) \<Rightarrow> try_reconnecting (drop_flag u1))"

section \<open>Reconnecting\<close>

definition first_delay :: "int \<Rightarrow> Upstream \<Rightarrow> int" where
  "first_delay now u =
     (let delay = rpInitialDelay (upPolicy u)
      in if upLastEstablished u \<noteq> 0 \<and> now - upLastEstablished u < rpMaxDelay (upPolicy u) \<and> upLastDelay u > delay
         then upLastDelay u else delay)"

definition next_delay :: "(int \<Rightarrow> int) \<Rightarrow> int \<Rightarrow> Upstream \<Rightarrow> int" where
  "next_delay scale delay u = min (scale delay) (rpMaxDelay (upPolicy u))"

text \<open>
  One turn of the loop of \<^verbatim>\<open>reconnect\<close>, after the wait: \<open>Inl\<close> when it returns (given up, or connected),
  \<open>Inr\<close> with the attempts and the next delay when it goes on.
\<close>

datatype reconnected = GaveUp | Established

definition reconnect_turn :: "(int \<Rightarrow> int) \<Rightarrow> int \<Rightarrow> nat option \<Rightarrow> int \<Rightarrow> int \<Rightarrow> Upstream \<Rightarrow> (reconnected + int \<times> int) \<times> Upstream" where
  "reconnect_turn scale now opened attempts0 delay u =
     (let attempts = attempts0 + 1
      in if rpMaxRetries (upPolicy u) > 0 \<and> attempts > rpMaxRetries (upPolicy u) then (Inl GaveUp, u)
         else
           (case establishStream opened u of
              (False, u1) \<Rightarrow>
                (let d = next_delay scale delay u1 in (Inr (attempts, d), u1\<lparr>upLastDelay := d\<rparr>))
            | (True, u1) \<Rightarrow>
                (Inl Established, u1\<lparr>upLastEstablished := now, upLastDelay := next_delay scale delay u1\<rparr>)))"

text \<open>The deferred store.\<close>

definition reconnect_done :: "Upstream \<Rightarrow> Upstream" where
  "reconnect_done u = u\<lparr>upReconnecting := False\<rparr>"

section \<open>The goroutines\<close>

text \<open>
  The send loop: idle, with a message taken from the channel, sending it on the stream it read, or
  with a failed send; \<open>Down1\<close> and \<open>Down2\<close> are inside \<^verbatim>\<open>handleDisconnect\<close>. The receive loop has the
  same shape without messages.
\<close>

datatype send_pc = SIdle | STaken upstream_msg | SSending upstream_msg nat | SFailed upstream_msg nat | SDown1 | SDown2
datatype recv_pc = RIdle | RReading nat | RFailed nat | RDown1 | RDown2
datatype reconnect_pc = NoReconnect | Trying int int | Returning

record ustate =
  usU :: Upstream
  usSend :: send_pc
  usRecv :: recv_pc
  usReconnect :: reconnect_pc
  usNext :: nat
  usLog :: "nat \<Rightarrow> upstream_msg list"

text \<open>The client operations, the loops and the reconnect goroutine, one atomic piece at a time. \<open>usLog\<close> lists what each stream took.\<close>

inductive up_step :: "ustate \<Rightarrow> ustate \<Rightarrow> bool" where
  sub: "up_step s (s\<lparr>usU := Up_Subscribe c (usU s)\<rparr>)"
| unsub: "up_step s (s\<lparr>usU := Up_Unsubscribe c (usU s)\<rparr>)"
| pub: "up_step s (s\<lparr>usU := snd (Up_Publish c d (usU s))\<rparr>)"
| send_take: "usSend s = SIdle \<Longrightarrow> upSendCh (usU s) = m # ms \<Longrightarrow>
    up_step s (s\<lparr>usU := (usU s)\<lparr>upSendCh := ms\<rparr>, usSend := STaken m\<rparr>)"
| send_read: "usSend s = STaken m \<Longrightarrow>
    up_step s (s\<lparr>usSend := (case upStream (usU s) of None \<Rightarrow> SIdle | Some i \<Rightarrow> SSending m i)\<rparr>)"
| send_sent: "usSend s = SSending m i \<Longrightarrow>
    up_step s (s\<lparr>usSend := SIdle, usLog := (usLog s)(i := usLog s i @ [m])\<rparr>)"
| send_fail: "usSend s = SSending m i \<Longrightarrow> up_step s (s\<lparr>usSend := SFailed m i\<rparr>)"
| send_drop: "usSend s = SFailed m i \<Longrightarrow> drop_stream i (usU s) = (b, u) \<Longrightarrow>
    up_step s (s\<lparr>usU := u, usSend := (if b then SDown1 else SIdle)\<rparr>)"
| send_flag: "usSend s = SDown1 \<Longrightarrow> up_step s (s\<lparr>usU := drop_flag (usU s), usSend := SDown2\<rparr>)"
| send_cas: "usSend s = SDown2 \<Longrightarrow> try_reconnecting (usU s) = (b, u) \<Longrightarrow>
    up_step s (s\<lparr>usU := u, usSend := SIdle, usReconnect := (if b then Trying 0 (first_delay now u) else usReconnect s)\<rparr>)"
| recv_read: "usRecv s = RIdle \<Longrightarrow> upStream (usU s) = Some i \<Longrightarrow> up_step s (s\<lparr>usRecv := RReading i\<rparr>)"
| recv_msg: "usRecv s = RReading i \<Longrightarrow> up_step s (s\<lparr>usU := fst (Up_handleMessage msg (usU s)), usRecv := RIdle\<rparr>)"
| recv_fail: "usRecv s = RReading i \<Longrightarrow> up_step s (s\<lparr>usRecv := RFailed i\<rparr>)"
| recv_drop: "usRecv s = RFailed i \<Longrightarrow> drop_stream i (usU s) = (b, u) \<Longrightarrow>
    up_step s (s\<lparr>usU := u, usRecv := (if b then RDown1 else RIdle)\<rparr>)"
| recv_flag: "usRecv s = RDown1 \<Longrightarrow> up_step s (s\<lparr>usU := drop_flag (usU s), usRecv := RDown2\<rparr>)"
| recv_cas: "usRecv s = RDown2 \<Longrightarrow> try_reconnecting (usU s) = (b, u) \<Longrightarrow>
    up_step s (s\<lparr>usU := u, usRecv := RIdle, usReconnect := (if b then Trying 0 (first_delay now u) else usReconnect s)\<rparr>)"
| reconnect: "usReconnect s = Trying n d \<Longrightarrow> opened = None \<or> opened = Some (usNext s) \<Longrightarrow>
    reconnect_turn scale now opened n d (usU s) = (r, u) \<Longrightarrow>
    up_step s (s\<lparr>usU := u, usReconnect := (case r of Inl _ \<Rightarrow> Returning | Inr (n', d') \<Rightarrow> Trying n' d'), usNext := usNext s + 1\<rparr>)"
| finish: "usReconnect s = Returning \<Longrightarrow> up_step s (s\<lparr>usU := reconnect_done (usU s), usReconnect := NoReconnect\<rparr>)"

text \<open>The state in which \<^verbatim>\<open>Start\<close> leaves a new upstream, once \<^verbatim>\<open>connect\<close> has opened its first stream.\<close>

definition up_start :: "string \<Rightarrow> ReconnectPolicy \<Rightarrow> ustate" where
  "up_start token policy = \<lparr>usU = snd (establishStream (Some 0) (NewUpstream token policy)), usSend = SIdle, usRecv = RIdle,
     usReconnect = NoReconnect, usNext = 1, usLog = \<lambda>_. []\<rparr>"

section \<open>A reconnect can be lost\<close>

text \<open>No stream, and nobody who would open one.\<close>

definition wedged :: "ustate \<Rightarrow> bool" where
  "wedged s \<longleftrightarrow> upStream (usU s) = None \<and> \<not> upConnected (usU s) \<and> usReconnect s = NoReconnect
     \<and> usSend s \<noteq> SDown1 \<and> usSend s \<noteq> SDown2 \<and> usRecv s \<noteq> RDown1 \<and> usRecv s \<noteq> RDown2"

lemma Up_ops_stream [simp]:
  "upStream (Up_Subscribe c u) = upStream u" "upConnected (Up_Subscribe c u) = upConnected u" "upReconnecting (Up_Subscribe c u) = upReconnecting u"
  "upStream (Up_Unsubscribe c u) = upStream u" "upConnected (Up_Unsubscribe c u) = upConnected u" "upReconnecting (Up_Unsubscribe c u) = upReconnecting u"
  "upStream (snd (Up_Publish c d u)) = upStream u" "upConnected (snd (Up_Publish c d u)) = upConnected u"
  "upReconnecting (snd (Up_Publish c d u)) = upReconnecting u"
  "upStream (fst (Up_handleMessage msg u)) = upStream u" "upConnected (fst (Up_handleMessage msg u)) = upConnected u"
  "upReconnecting (fst (Up_handleMessage msg u)) = upReconnecting u"
  by (simp_all add: Up_Subscribe_def Up_Unsubscribe_def Up_Publish_def Up_handleMessage_def enqueue_def Let_def
      split: option.split server_msg.split)

lemma wedged_step: "up_step s s' \<Longrightarrow> wedged s \<Longrightarrow> wedged s'"
  by (induction rule: up_step.induct) (auto simp: wedged_def drop_stream_def split: if_splits)

lemma wedged_forever: "up_step\<^sup>*\<^sup>* s s' \<Longrightarrow> wedged s \<Longrightarrow> wedged s'"
  by (induction rule: rtranclp_induct) (auto intro: wedged_step)


text \<open>The receive loop, from an open stream to just before the compare-and-swap.\<close>

lemma disconnect_run:
  assumes "usRecv s = RIdle" "upStream (usU s) = Some i"
  shows "up_step\<^sup>*\<^sup>* s (s\<lparr>usU := drop_flag ((usU s)\<lparr>upStream := None\<rparr>), usRecv := RDown2\<rparr>)"
proof -
  let ?s1 = "s\<lparr>usRecv := RReading i\<rparr>" and ?s2 = "s\<lparr>usRecv := RFailed i\<rparr>"
    and ?s3 = "s\<lparr>usU := (usU s)\<lparr>upStream := None\<rparr>, usRecv := RDown1\<rparr>"
    and ?s4 = "s\<lparr>usU := drop_flag ((usU s)\<lparr>upStream := None\<rparr>), usRecv := RDown2\<rparr>"
  have "up_step s ?s1" using assms by (rule up_step.recv_read)
  moreover have "up_step ?s1 ?s2" using up_step.recv_fail [of ?s1 i] by simp
  moreover have "up_step ?s2 ?s3"
    using up_step.recv_drop [of ?s2 i True "(usU s)\<lparr>upStream := None\<rparr>"] assms(2) by (simp add: drop_stream_def)
  moreover have "up_step ?s3 ?s4" using up_step.recv_flag [of ?s3] by simp
  ultimately show ?thesis by (meson converse_rtranclp_into_rtranclp rtranclp.rtrancl_refl)
qed

lemma resubscribe_fields [simp]:
  "upStream (resubscribe cs u) = upStream u" "upConnected (resubscribe cs u) = upConnected u"
  "upReconnecting (resubscribe cs u) = upReconnecting u" "upPolicy (resubscribe cs u) = upPolicy u"
  "upSubscriptions (resubscribe cs u) = upSubscriptions u" "upLastSeen (resubscribe cs u) = upLastSeen u"
  by (induction cs arbitrary: u) (simp_all add: enqueue_def split: option.split)

lemma resubscribe_msgs:
  "upSendCh (resubscribe cs u) = upSendCh u @ map (\<lambda>c. UpSubscribe c (gget (upLastSeen u) c)) cs"
  by (induction cs arbitrary: u) (simp_all add: enqueue_def split: option.split)

lemma establish_Some:
  obtains u' where "establishStream (Some i) u = (True, u')" "upStream u' = Some i" "upConnected u'" "upReconnecting u' = upReconnecting u"
    "upPolicy u' = upPolicy u" "upSubscriptions u' = upSubscriptions u"
    "\<exists>ms. upSendCh u' = upSendCh u @ ms @ map (\<lambda>c. UpSubscribe c (gget (upLastSeen u) c)) (gkeys (upSubscriptions u))
       \<and> set ms \<subseteq> {UpConnect (upToken u)}"
  by (auto simp: establishStream_def Let_def resubscribe_msgs enqueue_def split: if_splits)

lemma wedge_reachable: "\<exists>s. up_step\<^sup>*\<^sup>* (up_start token policy) s \<and> wedged s"
proof -
  let ?s0 = "up_start token policy"
  obtain u0 where est: "establishStream (Some 0) (NewUpstream token policy) = (True, u0)" "upStream u0 = Some 0" "upConnected u0"
      "upReconnecting u0 = upReconnecting (NewUpstream token policy)"
    by (rule establish_Some)
  then have u0: "usU ?s0 = u0" "upStream u0 = Some 0" "upConnected u0" "\<not> upReconnecting u0"
    by (simp_all add: up_start_def NewUpstream_def)
  let ?s1 = "?s0\<lparr>usU := drop_flag (u0\<lparr>upStream := None\<rparr>), usRecv := RDown2\<rparr>"
  have r1: "up_step\<^sup>*\<^sup>* ?s0 ?s1" using disconnect_run [of ?s0 0] u0 by (simp add: up_start_def)
  let ?u2 = "(drop_flag (u0\<lparr>upStream := None\<rparr>))\<lparr>upReconnecting := True\<rparr>"
  let ?s2 = "?s1\<lparr>usU := ?u2, usRecv := RIdle, usReconnect := Trying 0 (first_delay 0 ?u2)\<rparr>"
  have r2: "up_step ?s1 ?s2"
    using up_step.recv_cas [of ?s1 True ?u2 0] u0(4) by (simp add: try_reconnecting_def drop_flag_def)
  obtain u3 where u3: "establishStream (Some 1) ?u2 = (True, u3)" "upStream u3 = Some 1" "upConnected u3" "upReconnecting u3"
    by (rule establish_Some [of 1 ?u2]) simp
  define d where "d = first_delay 0 ?u2"
  let ?u4 = "u3\<lparr>upLastEstablished := 1, upLastDelay := next_delay (\<lambda>x. x) d u3\<rparr>"
  let ?s3 = "?s2\<lparr>usU := ?u4, usReconnect := Returning, usNext := 2\<rparr>"
  have turn: "reconnect_turn (\<lambda>x. x) 1 (Some 1) 0 d ?u2 = (Inl Established, ?u4)"
    using u3(1) by (simp add: reconnect_turn_def Let_def)
  have r3: "up_step ?s2 ?s3"
    using up_step.reconnect [of ?s2 0 d "Some 1" "\<lambda>x. x" 1 "Inl Established" ?u4] turn
    by (simp add: d_def up_start_def numeral_2_eq_2)
  let ?u5 = "drop_flag (?u4\<lparr>upStream := None\<rparr>)"
  let ?s4 = "?s3\<lparr>usU := ?u5, usRecv := RDown2\<rparr>"
  have r4: "up_step\<^sup>*\<^sup>* ?s3 ?s4" using disconnect_run [of ?s3 1] u3(2) by simp
  let ?s5 = "?s4\<lparr>usU := ?u5, usRecv := RIdle, usReconnect := Returning\<rparr>"
  have r5: "up_step ?s4 ?s5"
    using up_step.recv_cas [of ?s4 False ?u5 0] u3(4) by (simp add: try_reconnecting_def drop_flag_def)
  let ?s6 = "?s5\<lparr>usU := reconnect_done ?u5, usReconnect := NoReconnect\<rparr>"
  have r6: "up_step ?s5 ?s6" using up_step.finish [of ?s5] by simp
  have a2: "up_step\<^sup>*\<^sup>* ?s0 ?s2" by (rule rtranclp.rtrancl_into_rtrancl [of up_step ?s0 ?s1 ?s2, OF r1 r2])
  have a3: "up_step\<^sup>*\<^sup>* ?s0 ?s3" by (rule rtranclp.rtrancl_into_rtrancl [of up_step ?s0 ?s2 ?s3, OF a2 r3])
  have a4: "up_step\<^sup>*\<^sup>* ?s0 ?s4" by (rule rtranclp_trans [of up_step ?s0 ?s3 ?s4, OF a3 r4])
  have a5: "up_step\<^sup>*\<^sup>* ?s0 ?s5" by (rule rtranclp.rtrancl_into_rtrancl [of up_step ?s0 ?s4 ?s5, OF a4 r5])
  have a6: "up_step\<^sup>*\<^sup>* ?s0 ?s6" by (rule rtranclp.rtrancl_into_rtrancl [of up_step ?s0 ?s5 ?s6, OF a5 r6])
  have "wedged ?s6" by (simp add: wedged_def reconnect_done_def drop_flag_def up_start_def)
  show ?thesis by (rule exI [of _ ?s6], rule conjI, rule a6, rule \<open>wedged ?s6\<close>)
qed

text \<open>
  (C31) The relay can lose its upstream for good. Whatever the reconnect policy, an execution exists
  in which the stream that a reconnect has just opened fails before the reconnect goroutine has
  cleared its flag: the disconnect then starts no other reconnect, and from that state on no
  execution ever has a stream again; every publication to the upstream is refused.
\<close>

theorem upstream_can_wedge:
  "\<exists>s. up_step\<^sup>*\<^sup>* (up_start token policy) s \<and>
     (\<forall>s'. up_step\<^sup>*\<^sup>* s s' \<longrightarrow> upStream (usU s') = None \<and> (\<forall>c d. \<not> fst (Up_Publish c d (usU s'))))"
  using wedge_reachable [of token policy] wedged_forever by (fastforce simp: wedged_def Up_Publish_def)

theorem upstream_can_wedge_witness:
  "\<exists>s. up_step\<^sup>*\<^sup>* (up_start ''token'' \<lparr>rpInitialDelay = 1000, rpMaxDelay = 30000, rpMaxRetries = 10\<rparr>) s
    \<and> up_step\<^sup>*\<^sup>* s (s\<lparr>usU := Up_Subscribe ''news'' (usU s)\<rparr>)
    \<and> upStream (usU (s\<lparr>usU := Up_Subscribe ''news'' (usU s)\<rparr>)) = None"
proof -
  obtain s where s: "up_step\<^sup>*\<^sup>* (up_start ''token'' \<lparr>rpInitialDelay = 1000, rpMaxDelay = 30000, rpMaxRetries = 10\<rparr>) s"
    "\<forall>s'. up_step\<^sup>*\<^sup>* s s' \<longrightarrow> upStream (usU s') = None" using upstream_can_wedge by blast
  moreover have "up_step\<^sup>*\<^sup>* s (s\<lparr>usU := Up_Subscribe ''news'' (usU s)\<rparr>)" using up_step.sub by blast
  ultimately show ?thesis by blast
qed

section \<open>No subscription is lost while a stream is up\<close>

text \<open>What a server that takes these messages in order ends up with for a channel.\<close>

fun about :: "string \<Rightarrow> upstream_msg \<Rightarrow> bool" where
  "about c (UpSubscribe c' r) = (c' = c)"
| "about c (UpUnsubscribe c') = (c' = c)"
| "about c _ = False"

fun server_view :: "string \<Rightarrow> upstream_msg list \<Rightarrow> bool \<Rightarrow> bool" where
  "server_view c [] b = b"
| "server_view c (UpSubscribe c' r # ms) b = server_view c ms (if c' = c then True else b)"
| "server_view c (UpUnsubscribe c' # ms) b = server_view c ms (if c' = c then False else b)"
| "server_view c (_ # ms) b = server_view c ms b"

lemma server_view_append: "server_view c (ms @ ms') b = server_view c ms' (server_view c ms b)"
  by (induction c ms b rule: server_view.induct) simp_all

lemma server_view_other: "\<not> about c m \<Longrightarrow> server_view c [m] b = b"
  by (cases m) auto

lemma server_view_sweep: "c \<in> set cs \<Longrightarrow> server_view c (map (\<lambda>c. UpSubscribe c (f c)) cs) b"
proof -
  have "server_view c (map (\<lambda>c. UpSubscribe c (f c)) cs) b = (c \<in> set cs \<or> b)" for b
    by (induction cs arbitrary: b) auto
  then show "c \<in> set cs \<Longrightarrow> server_view c (map (\<lambda>c. UpSubscribe c (f c)) cs) b" by simp
qed

fun in_flight :: "send_pc \<Rightarrow> nat \<Rightarrow> upstream_msg list" where
  "in_flight (STaken m) i = [m]"
| "in_flight (SSending m j) i = (if j = i then [m] else [])"
| "in_flight (SFailed m j) i = (if j = i then [m] else [])"
| "in_flight _ i = []"

text \<open>Everything a stream has taken, is being handed, and will be handed.\<close>

definition pipeline :: "ustate \<Rightarrow> nat \<Rightarrow> upstream_msg list" where
  "pipeline s i = usLog s i @ in_flight (usSend s) i @ upSendCh (usU s)"

definition covered :: "ustate \<Rightarrow> bool" where
  "covered s = (case upStream (usU s) of None \<Rightarrow> True
     | Some i \<Rightarrow> upConnected (usU s) \<and> (\<forall>c. gget (upSubscriptions (usU s)) c \<noteq> None \<longrightarrow> server_view c (pipeline s i) False))"

abbreviation going_down :: "ustate \<Rightarrow> bool" where
  "going_down s \<equiv> usSend s \<in> {SDown1, SDown2} \<or> usRecv s \<in> {RDown1, RDown2}"

definition up_ok :: "ustate \<Rightarrow> bool" where
  "up_ok s \<longleftrightarrow> covered s \<and> (going_down s \<longrightarrow> upStream (usU s) = None \<and> (\<forall>n d. usReconnect s \<noteq> Trying n d))
     \<and> \<not> (usSend s \<in> {SDown1, SDown2} \<and> usRecv s \<in> {RDown1, RDown2})
     \<and> (\<forall>n d. usReconnect s = Trying n d \<longrightarrow> upStream (usU s) = None)"


lemma covered_cong:
  "usLog s' = usLog s \<Longrightarrow> usSend s' = usSend s \<Longrightarrow> upStream (usU s') = upStream (usU s) \<Longrightarrow> upConnected (usU s') = upConnected (usU s) \<Longrightarrow>
    upSubscriptions (usU s') = upSubscriptions (usU s) \<Longrightarrow> upSendCh (usU s') = upSendCh (usU s) \<Longrightarrow> covered s' = covered s"
  by (simp add: covered_def pipeline_def split: option.split)

lemma covered_sub: "covered s \<Longrightarrow> covered (s\<lparr>usU := Up_Subscribe c (usU s)\<rparr>)"
  by (auto simp: covered_def pipeline_def Up_Subscribe_def enqueue_def Let_def server_view_append split: option.splits if_splits)

lemma covered_unsub: "covered s \<Longrightarrow> covered (s\<lparr>usU := Up_Unsubscribe c (usU s)\<rparr>)"
  by (auto simp: covered_def pipeline_def Up_Unsubscribe_def enqueue_def Let_def server_view_append split: option.splits if_splits)

lemma covered_pub: "covered s \<Longrightarrow> covered (s\<lparr>usU := snd (Up_Publish c d (usU s))\<rparr>)"
  by (auto simp: covered_def pipeline_def Up_Publish_def enqueue_def server_view_append split: option.splits)

lemma covered_established:
  assumes "establishStream (Some i) (usU s) = (True, u)" "upStream u' = upStream u" "upConnected u' = upConnected u"
    "upSubscriptions u' = upSubscriptions u" "upSendCh u' = upSendCh u"
  shows "covered (s\<lparr>usU := u', usReconnect := x, usNext := n\<rparr>)"
proof -
  obtain ms where u: "upStream u = Some i" "upConnected u" "upSubscriptions u = upSubscriptions (usU s)"
      "upSendCh u = upSendCh (usU s) @ ms @ map (\<lambda>c. UpSubscribe c (gget (upLastSeen (usU s)) c)) (gkeys (upSubscriptions (usU s)))"
    using establish_Some [of i "usU s"] assms(1) by (metis prod.inject)
  have "server_view c (xs @ ys @ upSendCh u) False" if "gget (upSubscriptions (usU s)) c \<noteq> None" for c xs ys
    using that set_gkeys [of c "upSubscriptions (usU s)"] unfolding u(4) server_view_append
    by (intro server_view_sweep) simp
  then show ?thesis using assms u by (auto simp: covered_def pipeline_def)
qed

lemma covered_reconnect:
  assumes "reconnect_turn scale now opened n d (usU s) = (r, u)" "covered s"
  shows "covered (s\<lparr>usU := u, usReconnect := x, usNext := k\<rparr>)"
    "\<And>y. r = Inr y \<Longrightarrow> upStream u = upStream (usU s)"
proof -
  have "covered (s\<lparr>usU := u, usReconnect := x, usNext := k\<rparr>) \<and> (\<forall>y. r = Inr y \<longrightarrow> upStream u = upStream (usU s))"
  proof (cases opened)
    case None
    then have "upStream u = upStream (usU s)" "upConnected u = upConnected (usU s)" "upSubscriptions u = upSubscriptions (usU s)" "upSendCh u = upSendCh (usU s)"
      using assms(1) by (auto simp: reconnect_turn_def establishStream_def Let_def split: if_splits)
    then show ?thesis using covered_cong [of "s\<lparr>usU := u, usReconnect := x, usNext := k\<rparr>" s] assms(2) by simp
  next
    case (Some i)
    obtain u1 where u1: "establishStream (Some i) (usU s) = (True, u1)" using establish_Some by blast
    show ?thesis
    proof (cases "r = Inl GaveUp")
      case True
      then have "u = usU s" using assms(1) Some u1 by (auto simp: reconnect_turn_def Let_def split: if_splits)
      then show ?thesis using covered_cong [of "s\<lparr>usU := u, usReconnect := x, usNext := k\<rparr>" s] assms(2) by simp
    next
      case False
      then have r: "r = Inl Established" "u = u1\<lparr>upLastEstablished := now, upLastDelay := next_delay scale d u1\<rparr>"
        using assms(1) Some u1 by (auto simp: reconnect_turn_def Let_def split: if_splits)
      then show ?thesis using covered_established [OF u1, where u' = u and x = x and n = k] by simp
    qed
  qed
  then show "covered (s\<lparr>usU := u, usReconnect := x, usNext := k\<rparr>)" "\<And>y. r = Inr y \<Longrightarrow> upStream u = upStream (usU s)" by blast+
qed

lemma covered_drop:
  assumes "drop_stream i (usU s) = (b, u)" "covered s" "\<And>j. upStream u = Some j \<Longrightarrow> in_flight (usSend s) j = in_flight p j"
  shows "covered (s\<lparr>usU := u, usSend := p\<rparr>)"
proof (cases b)
  case True
  then have "upStream u = None" using assms(1) by (auto simp: drop_stream_def split: if_splits)
  then show ?thesis by (simp add: covered_def)
next
  case False
  then have "u = usU s" using assms(1) by (auto simp: drop_stream_def split: if_splits)
  then show ?thesis using assms(2,3) by (auto simp: covered_def pipeline_def split: option.splits)
qed

lemma covered_step:
  assumes "up_step s s'" "up_ok s"
  shows "covered s'"
proof -
  have cov: "covered s" and down: "going_down s \<Longrightarrow> upStream (usU s) = None" using assms(2) by (auto simp: up_ok_def)
  show ?thesis
    using assms(1)
  proof cases
    case (sub c)
    then show ?thesis using covered_sub cov by simp
  next
    case (unsub c)
    then show ?thesis using covered_unsub cov by simp
  next
    case (pub c d)
    then show ?thesis using covered_pub cov by simp
  next
    case (send_take m ms)
    then show ?thesis using cov by (auto simp: covered_def pipeline_def split: option.splits)
  next
    case (send_read m)
    then show ?thesis using cov by (auto simp: covered_def pipeline_def split: option.splits)
  next
    case (send_sent m i)
    have "pipeline s' j = pipeline s j" for j using send_sent by (simp add: pipeline_def)
    then show ?thesis using cov send_sent(1) by (simp add: covered_def split: option.splits)
  next
    case (send_fail m i)
    have "pipeline s' j = pipeline s j" for j using send_fail by (simp add: pipeline_def)
    then show ?thesis using cov send_fail(1) by (simp add: covered_def split: option.splits)
  next
    case (send_drop m i b u)
    show ?thesis
    proof (rule ssubst [OF send_drop(1)], rule covered_drop [OF send_drop(3) cov])
      fix j assume "upStream u = Some j"
      then show "in_flight (usSend s) j = in_flight (if b then SDown1 else SIdle) j"
        using send_drop(2,3) by (auto simp: drop_stream_def split: if_splits)
    qed
  next
    case send_flag
    then show ?thesis using down by (simp add: covered_def drop_flag_def)
  next
    case (send_cas b u now)
    then show ?thesis using down by (auto simp: covered_def try_reconnecting_def split: if_splits)
  next
    case (recv_msg i msg)
    have "upSubscriptions (fst (Up_handleMessage msg (usU s))) = upSubscriptions (usU s)"
        "upSendCh (fst (Up_handleMessage msg (usU s))) = upSendCh (usU s)"
      by (simp_all add: Up_handleMessage_def split: server_msg.split)
    then show ?thesis using covered_cong [of s' s] cov recv_msg(1) by simp
  next
    case (recv_drop i b u)
    have "covered (s\<lparr>usU := u, usSend := usSend s\<rparr>)" using recv_drop(3) cov by (rule covered_drop) simp
    then show ?thesis using covered_cong [of s' "s\<lparr>usU := u\<rparr>"] recv_drop(1) by simp
  next
    case recv_flag
    then show ?thesis using down by (simp add: covered_def drop_flag_def)
  next
    case (recv_cas b u now)
    then show ?thesis using down by (auto simp: covered_def try_reconnecting_def split: if_splits)
  next
    case (reconnect n d opened scale now r u)
    then show ?thesis using covered_reconnect(1) [OF reconnect(4) cov] by simp
  next
    case finish
    then show ?thesis using covered_cong [of s' s] cov by (simp add: reconnect_done_def)
  qed (use covered_cong [of s' s] cov in simp)+
qed


lemma up_ok_step:
  assumes "up_step s s'" "up_ok s"
  shows "up_ok s'"
proof -
  have "covered s'" by (rule covered_step) (rule assms)+
  moreover have "(going_down s' \<longrightarrow> upStream (usU s') = None \<and> (\<forall>n d. usReconnect s' \<noteq> Trying n d))
     \<and> \<not> (usSend s' \<in> {SDown1, SDown2} \<and> usRecv s' \<in> {RDown1, RDown2})
     \<and> (\<forall>n d. usReconnect s' = Trying n d \<longrightarrow> upStream (usU s') = None)"
    using assms(1)
  proof cases
    case (reconnect n d opened scale now r u)
    have "covered s" using assms(2) by (simp add: up_ok_def)
    note c = covered_reconnect(2) [OF reconnect(4) this]
    show ?thesis using reconnect c assms(2) by (auto simp: up_ok_def split: sum.splits prod.splits)
  qed (use assms(2) in \<open>auto simp: up_ok_def drop_stream_def drop_flag_def try_reconnecting_def reconnect_done_def
      split: if_splits option.splits\<close>)
  ultimately show ?thesis by (simp add: up_ok_def)
qed

lemma up_ok_start: "up_ok (up_start token policy)"
proof -
  have "covered (up_start token policy)"
    by (simp add: up_start_def covered_def establishStream_def Let_def NewUpstream_def enqueue_def split: option.split)
  then show ?thesis by (simp add: up_ok_def up_start_def)
qed

lemma up_ok_reach: "up_step\<^sup>*\<^sup>* s s' \<Longrightarrow> up_ok s \<Longrightarrow> up_ok s'"
  by (induction rule: rtranclp_induct) (auto intro: up_ok_step)

text \<open>
  (C33) While a stream is up no subscription is lost: in every interleaving of clients that
  subscribe, unsubscribe and publish with the send loop, the receive loop and the reconnects, the
  upstream counts as connected, and a server that has taken everything this stream took and takes
  what is in flight and queued for it holds a subscription for every channel the relay wants, also
  across reconnects; and the first thing a new stream carries for a channel after a reconnect asks
  for the publications since the last one seen there.
\<close>

theorem upstream_covers:
  assumes "up_step\<^sup>*\<^sup>* (up_start token policy) s" and "upStream (usU s) = Some i"
  shows "upConnected (usU s) \<and> (\<forall>c. gget (upSubscriptions (usU s)) c \<noteq> None \<longrightarrow> server_view c (pipeline s i) False)
    \<and> (\<forall>j. \<exists>ms. upSendCh (snd (establishStream (Some j) (usU s))) =
         upSendCh (usU s) @ ms @ map (\<lambda>c. UpSubscribe c (gget (upLastSeen (usU s)) c)) (gkeys (upSubscriptions (usU s)))
         \<and> set ms \<subseteq> {UpConnect (upToken (usU s))})"
proof -
  have "covered s" using up_ok_reach [OF assms(1) up_ok_start] by (simp add: up_ok_def)
  moreover have "\<exists>ms. upSendCh (snd (establishStream (Some j) (usU s))) =
         upSendCh (usU s) @ ms @ map (\<lambda>c. UpSubscribe c (gget (upLastSeen (usU s)) c)) (gkeys (upSubscriptions (usU s)))
         \<and> set ms \<subseteq> {UpConnect (upToken (usU s))}" for j
    using establish_Some [of j "usU s"] by (metis snd_conv)
  ultimately show ?thesis using assms(2) by (simp add: covered_def)
qed

theorem upstream_covers_witness:
  "\<exists>s. up_step\<^sup>*\<^sup>* (up_start [] \<lparr>rpInitialDelay = 1000, rpMaxDelay = 30000, rpMaxRetries = 10\<rparr>) s \<and> upStream (usU s) = Some 0
    \<and> gget (upSubscriptions (usU s)) ''news'' = Some 1 \<and> server_view ''news'' (pipeline s 0) False"
proof -
  define s0 where "s0 = up_start [] \<lparr>rpInitialDelay = 1000, rpMaxDelay = 30000, rpMaxRetries = 10\<rparr>"
  define s where "s = s0\<lparr>usU := Up_Subscribe ''news'' (usU s0)\<rparr>"
  have run: "up_step\<^sup>*\<^sup>* (up_start [] \<lparr>rpInitialDelay = 1000, rpMaxDelay = 30000, rpMaxRetries = 10\<rparr>) s"
    unfolding s_def s0_def [symmetric] by (intro r_into_rtranclp up_step.sub)
  have st: "upStream (usU s) = Some 0" and g: "gget (upSubscriptions (usU s)) ''news'' = Some 1"
    by (simp_all add: s_def s0_def up_start_def establishStream_def NewUpstream_def Let_def)
      (simp add: Up_Subscribe_def enqueue_def Let_def)
  have "gget (upSubscriptions (usU s)) ''news'' \<noteq> None" using g by simp
  with upstream_covers [OF run st] have "server_view ''news'' (pipeline s 0) False" by blast
  with run st g show ?thesis by blast
qed

end
