(* ===== verification/Relay.thy ===== *)
theory Relay
  imports Protocol_Props Grpc Upstream Router Dedup
begin

text \<open>
  Model of \<^verbatim>\<open>internal/relay/relay.go\<close>: the relay's sessions are protocol sessions whose hooks keep the
  reference-counted upstream subscriptions in step, and what arrives from upstream is deduplicated
  and published locally. A session's set of channels lives in the relay's record, by session id;
  \<open>order\<close> is the eviction order of the router's cache.
\<close>

section \<open>The send ring\<close>

text \<open>\<^verbatim>\<open>for c < bufferSize { c <<= 1 }\<close>, on 64-bit integers; it need not return.\<close>

partial_function (option) ring_cap_loop :: "int \<Rightarrow> u64 \<Rightarrow> u64 option" where
  "ring_cap_loop bufferSize c = (if sint c < bufferSize then ring_cap_loop bufferSize (push_bit 1 c) else Some c)"

definition sendRingCap :: "int \<Rightarrow> u64 option" where
  "sendRingCap bufferSize = (if bufferSize < 2 then Some 2 else ring_cap_loop bufferSize 1)"

lemma sint_pow2: "k \<le> 62 \<Longrightarrow> sint (push_bit k 1 :: u64) = 2 ^ k"
proof -
  assume k: "k \<le> 62"
  have "push_bit k 1 = (word_of_int (2 ^ k) :: u64)" by (simp add: push_bit_eq_mult)
  moreover have "sint (word_of_int (2 ^ k) :: u64) = signed_take_bit 63 (2 ^ k)"
    using sint_sbintrunc' [of "2 ^ k", where ?'a = 64] by simp
  moreover have "signed_take_bit 63 (2 ^ k :: int) = 2 ^ k"
  proof (rule signed_take_bit_int_eq_self)
    show "(2 :: int) ^ k < 2 ^ 63" using k by (intro power_strict_increasing) simp_all
  qed (simp add: order.trans [of _ 0])
  ultimately show ?thesis by simp
qed

lemma ring_cap_loop_returns:
  assumes "j \<le> 62" "bufferSize \<le> 2 ^ 62" "j = 0 \<or> 2 ^ (j - 1) < bufferSize"
  shows "\<exists>k. j \<le> k \<and> k \<le> 62 \<and> ring_cap_loop bufferSize (push_bit j 1) = Some (push_bit k 1) \<and> bufferSize \<le> 2 ^ k
    \<and> (k = 0 \<or> 2 ^ (k - 1) < bufferSize)"
  using assms
proof (induction "62 - j" arbitrary: j)
  case 0
  then have "j = 62" by simp
  then show ?case using 0 sint_pow2 [of 62] by (subst ring_cap_loop.simps) auto
next
  case (Suc n)
  show ?case
  proof (cases "2 ^ j < bufferSize")
    case False
    then show ?thesis using Suc.prems sint_pow2 [of j] by (subst ring_cap_loop.simps) auto
  next
    case True
    have step: "push_bit 1 (push_bit j 1) = (push_bit (Suc j) 1 :: u64)" by simp
    have "\<exists>k. Suc j \<le> k \<and> k \<le> 62 \<and> ring_cap_loop bufferSize (push_bit (Suc j) 1) = Some (push_bit k 1) \<and> bufferSize \<le> 2 ^ k
        \<and> (k = 0 \<or> 2 ^ (k - 1) < bufferSize)"
      using Suc.hyps(2) Suc.prems True by (intro Suc.hyps(1)) auto
    then show ?thesis using True sint_pow2 [OF Suc.prems(1)] step
      by (subst ring_cap_loop.simps) (auto simp: mult.commute [of 2] intro: Suc_leD)
  qed
qed

text \<open>
  For every configured buffer size up to \<open>2^62\<close>, negative ones included, the rounding loop returns, and
  its result is a capacity that the ring accepts, at least the size asked for and less than twice that
  (or 2).
\<close>

lemma send_ring_fits:
  assumes "bufferSize \<le> 2 ^ 62"
  shows "\<exists>cap. sendRingCap bufferSize = Some (of_nat cap) \<and> is_pow2 cap \<and> 2 \<le> cap \<and> cap \<le> 2 ^ 62
    \<and> (\<exists>r :: pbServerMessage PointerRing. NewPointer (int cap) = Some r \<and> ring_ok cap [] r)
    \<and> bufferSize \<le> int cap \<and> (int cap < 2 * bufferSize \<or> cap = 2)"
proof -
  have two: "is_pow2 2" unfolding is_pow2_def by (rule exI [of _ 1]) simp
  show ?thesis
  proof (cases "bufferSize < 2")
    case True
    then show ?thesis using NewPointer_ok [OF two, where ?'a = pbServerMessage] two
      by (intro exI [of _ 2]) (auto simp: sendRingCap_def)
  next
    case False
    obtain k where k: "k \<le> 62" "ring_cap_loop bufferSize (push_bit 0 1) = Some (push_bit k 1)" "bufferSize \<le> 2 ^ k"
        "k = 0 \<or> 2 ^ (k - 1) < bufferSize"
      using ring_cap_loop_returns [of 0 bufferSize] assms by auto
    have k0: "k \<noteq> 0" using k(3) False by (auto intro: ccontr)
    then have lt: "2 ^ k < 2 * bufferSize" using k(4) by (cases k) auto
    have pow: "is_pow2 (2 ^ k)" by (auto simp: is_pow2_def)
    have ge: "(2 :: nat) \<le> 2 ^ k" using k0 self_le_power [of 2 k] by simp
    have le: "(2 :: nat) ^ k \<le> 2 ^ 62" using k(1) by (intro power_increasing) simp_all
    have "(push_bit k 1 :: u64) = of_nat (2 ^ k)" by (simp add: push_bit_eq_mult)
    then show ?thesis
      using NewPointer_ok [OF pow ge le, where ?'a = pbServerMessage] pow ge le lt k False
      by (intro exI [of _ "2 ^ k"]) (auto simp: sendRingCap_def)
  qed
qed

section \<open>The relay's world\<close>

record RelayWorld =
  rwUpstream :: Upstream
  rwRouter :: Router
  rwDedup :: Deduplicator
  rwChannels :: "(SubscriberID, (string, unit) gomap) gomap"
  rwLog :: dlog

definition sess_channels :: "SubscriberID \<Rightarrow> RelayWorld \<Rightarrow> (string, unit) gomap" where
  "sess_channels i w = (case gget (rwChannels w) i of None \<Rightarrow> [] | Some m \<Rightarrow> m)"

definition relay_Route :: "string list \<Rightarrow> string \<Rightarrow> RelayWorld \<Rightarrow> RouteMode \<times> RelayWorld" where
  "relay_Route order channel w = (case Route order channel (rwRouter w) of (r, rt) \<Rightarrow> (rrMode r, w\<lparr>rwRouter := rt\<rparr>))"

definition OnSubscribed :: "string list \<Rightarrow> SubscriberID \<Rightarrow> string \<Rightarrow> RelayWorld \<Rightarrow> RelayWorld" where
  "OnSubscribed order i channel w =
     (let w1 = w\<lparr>rwChannels := gput i (gput channel () (sess_channels i w)) (rwChannels w)\<rparr>
      in case relay_Route order channel w1 of (m, w2) \<Rightarrow>
           if m = RouteModeRelay \<or> m = RouteModeBoth then w2\<lparr>rwUpstream := Up_Subscribe channel (rwUpstream w2)\<rparr> else w2)"

definition OnUnsubscribed :: "string list \<Rightarrow> SubscriberID \<Rightarrow> string \<Rightarrow> RelayWorld \<Rightarrow> RelayWorld" where
  "OnUnsubscribed order i channel w =
     (let w1 = w\<lparr>rwChannels := gput i (gdel channel (sess_channels i w)) (rwChannels w)\<rparr>
      in case relay_Route order channel w1 of (m, w2) \<Rightarrow>
           if m = RouteModeRelay \<or> m = RouteModeBoth then w2\<lparr>rwUpstream := Up_Unsubscribe channel (rwUpstream w2)\<rparr> else w2)"

definition PublishPlan :: "string list \<Rightarrow> string \<Rightarrow> RelayWorld \<Rightarrow> (bool \<times> bool) \<times> RelayWorld" where
  "PublishPlan order channel w =
     (case relay_Route order channel w of (m, w1) \<Rightarrow>
        ((m = RouteModeLocal \<or> m = RouteModeBoth, m = RouteModeRelay \<or> m = RouteModeBoth), w1))"

definition ForwardPublish :: "string \<Rightarrow> bytes \<Rightarrow> RelayWorld \<Rightarrow> RelayWorld" where
  "ForwardPublish channel data w = w\<lparr>rwUpstream := snd (Up_Publish channel data (rwUpstream w))\<rparr>"

definition relay_hooks :: "string list \<Rightarrow> SubscriberID \<Rightarrow> RelayWorld Hooks" where
  "relay_hooks order i = \<lparr>hkOnSubscribed = Some (OnSubscribed order i), hkOnUnsubscribed = Some (OnUnsubscribed order i),
     hkPublishPlan = Some (PublishPlan order), hkForwardPublish = Some ForwardPublish\<rparr>"

text \<open>The end of a session: the consumer stops, the engine forgets it, and its channels are released upstream.\<close>

definition relay_cleanupSession :: "int \<Rightarrow> Session \<Rightarrow> Engine \<Rightarrow> RelayWorld \<Rightarrow> Session \<times> Engine \<times> RelayWorld" where
  "relay_cleanupSession now s e w =
     (case Consumer_Stop (psCid s) (psQoS s) (psSweeper s) of
        (c, sw) \<Rightarrow>
          (let e1 = UnsubscribeAll now (psID s) e;
               channels = gkeys (sess_channels (psID s) w)
           in (s\<lparr>psQoS := c, psSweeper := sw\<rparr>, e1,
               w\<lparr>rwUpstream := fold Up_Unsubscribe channels (rwUpstream w), rwChannels := gdel (psID s) (rwChannels w)\<rparr>)))"

text \<open>A message from upstream: dropped when it is a duplicate, published locally otherwise; \<open>out\<close> is what the sessions get.\<close>

definition onUpstreamMessage :: "(string \<Rightarrow> u64 \<Rightarrow> u64 \<Rightarrow> u64) \<Rightarrow> int \<Rightarrow> int \<Rightarrow> u64 \<Rightarrow> string list \<Rightarrow> nat list
    \<Rightarrow> 'o DeliveryFunc \<Rightarrow> Delivery \<Rightarrow> Deduplicator \<Rightarrow> Engine \<Rightarrow> 'o \<Rightarrow> (Deduplicator \<times> Engine \<times> 'o) result" where
  "onUpstreamMessage hash now now' ep order sched deliver msg d e out =
     (case (if dOffset msg \<noteq> 0 then Check hash (dChannel msg) (dEpoch msg) (dOffset msg) now now' d else (True, d)) of
        (fresh, d1) \<Rightarrow>
          if \<not> fresh then Inr (d1, e, out)
          else
            (case Publish now' ep order sched (dChannel msg) (dData msg) 0 deliver e out of
               Inl p \<Rightarrow> Inl p
             | Inr (_, e1, out1) \<Rightarrow> Inr (d1, e1, out1)))"

text \<open>What the sessions get: the transport records it and answers whether the session took it.\<close>

definition relay_deliver :: "(SubscriberID \<Rightarrow> bool) \<Rightarrow> RelayWorld DeliveryFunc" where
  "relay_deliver accept i d w = (accept i, w\<lparr>rwLog := rwLog w @ [(i, d)]\<rparr>)"

section \<open>What a dispatch does to the hooks\<close>

lemma replay_all_state [simp]: "psState (replay_all now accept ds s) = psState s"
  by (induction ds arbitrary: s) (auto simp: replay_all_def split: prod.splits)

lemma SubscribePattern_fresh:
  assumes "engine_ok e" "SubscribePattern sid pat e = (None, e')"
  shows "(sid, pat) \<notin> pattern_rel (ePatterns e)"
proof -
  obtain ok p where add: "patterns_add sid pat (ePatterns e) = (ok, p)" by (cases "patterns_add sid pat (ePatterns e)")
  have "patterns_ok (ePatterns e)" using assms(1) by (simp add: engine_ok_def pats_ok_def patterns_ok_def)
  from patterns_add_spec(2) [OF this add] show ?thesis
    using assms(2) add by (auto simp: SubscribePattern_def Let_def split: option.splits prod.splits if_splits bool.splits)
qed

text \<open>A subscribe either leaves the record and the hooks alone, or adds a channel that was not recorded and calls the hook for it.\<close>

definition subscribed_effect :: "'w Hooks option \<Rightarrow> Session \<Rightarrow> 'w \<Rightarrow> Session \<Rightarrow> 'w \<Rightarrow> bool" where
  "subscribed_effect hooks s w s' w' \<longleftrightarrow>
     (recorded (psState s') = recorded (psState s) \<and> w' = w)
     \<or> (\<exists>c. c \<notin> recorded (psState s) \<and> recorded (psState s') = insert c (recorded (psState s)) \<and> w' = on_subscribed hooks c w)"

lemma subscribe_exact_effect:
  assumes "session_ok s0 e" "\<not> IsPattern (sqChannel req)" "s = s0\<lparr>psQoS := c, psSweeper := sw\<rparr>"
    and "subscribe_exact now ep accept hooks req reqID s installed e w = (s', e', w')"
  shows "subscribed_effect hooks s0 w s' w'"
proof -
  obtain err e1 where sub: "SubscribePriority now ep (psID s) (sqChannel req) (sqPriority req) e = (err, e1)" by (metis prod.collapse)
  have ok: "engine_ok e" using assms(1) by (simp add: session_ok_def)
  show ?thesis
  proof (cases err)
    case (Some x)
    then have "psState s' = psState s \<and> w' = w"
      using assms(4) sub by (auto simp: subscribe_exact_def Let_def split: prod.splits if_splits)
    then show ?thesis by (simp add: subscribed_effect_def assms(3))
  next
    case None
    then have "(psID s, sqChannel req) \<notin> live_rel e" using SubscribePriority_spec(6) [OF ok sub] by simp
    then have "sqChannel req \<notin> recorded (psState s0)"
      using assms(1-3) by (auto simp: session_ok_def chans_of_def pats_of_def)
    then show ?thesis using assms(3,4) sub None
      by (auto simp: subscribe_exact_def Let_def subscribed_effect_def)
  qed
qed

lemma subscribePattern_effect:
  assumes "session_ok s e" "IsPattern (sqChannel req)" "subscribePattern hooks req reqID s e w = (s', e', w')"
  shows "subscribed_effect hooks s w s' w'"
proof -
  obtain err e1 where sub: "SubscribePattern (psID s) (sqChannel req) e = (err, e1)" by (metis prod.collapse)
  have ok: "engine_ok e" using assms(1) by (simp add: session_ok_def)
  show ?thesis
  proof (cases "err = None \<and> \<not> (sqHasWindow req \<or> sqHasRecover req)")
    case False
    then have "psState s' = psState s \<and> w' = w"
      using assms(3) sub by (auto simp: subscribePattern_def Let_def split: option.splits if_splits)
    then show ?thesis by (simp add: subscribed_effect_def)
  next
    case True
    then have "(psID s, sqChannel req) \<notin> pattern_rel (ePatterns e)" using SubscribePattern_fresh [OF ok] sub by simp
    then have "sqChannel req \<notin> recorded (psState s)"
      using assms(1,2) by (auto simp: session_ok_def chans_of_def pats_of_def)
    then show ?thesis using assms(3) sub True by (auto simp: subscribePattern_def Let_def subscribed_effect_def)
  qed
qed


lemma Op_Subscribe_effect:
  assumes "session_ok s e" "Op_Subscribe now ep accept hooks req reqID s e w = (s', e', w')"
  shows "subscribed_effect hooks s w s' w'"
proof (cases "IsAuthenticated (psState s) \<and> validateChannel (sqChannel req) \<and> State_CanSubscribe (sqChannel req) (psState s)
    \<and> \<not> (psMaxSubscriptions s > 0 \<and> SubscriptionCount (psState s) \<ge> psMaxSubscriptions s)")
  case False
  then have "psState s' = psState s \<and> w' = w" using assms(2) by (auto simp: Op_Subscribe_def authed_def split: if_splits)
  then show ?thesis by (simp add: subscribed_effect_def)
next
  case True
  have self: "s = s\<lparr>psQoS := psQoS s, psSweeper := psSweeper s\<rparr>" by simp
  show ?thesis
  proof (cases "IsPattern (sqChannel req)")
    case pat: True
    then show ?thesis using assms(2) True subscribePattern_effect [OF assms(1) pat] by (simp add: Op_Subscribe_def authed_True)
  next
    case exact: False
    show ?thesis
    proof (cases "sqHasWindow req")
      case False
      then show ?thesis using assms(2) True exact subscribe_exact_effect [OF assms(1) exact self]
        by (simp add: Op_Subscribe_def authed_True)
    next
      case win: True
      obtain enabled timeout n where pol: "QoSPolicy (sqChannel req) e = (enabled, timeout, n)" by (metis prod_cases3)
      obtain b c sw where sub: "Consumer_Subscribe (psCid s) (sqChannel req) (request_window req timeout n) (psQoS s) (psSweeper s) = (b, c, sw)"
        by (metis prod_cases3)
      show ?thesis
      proof (cases enabled)
        case en: True
        have "subscribe_exact now ep accept hooks req reqID (s\<lparr>psQoS := c, psSweeper := sw\<rparr>) b e w = (s', e', w')"
          using assms(2) True exact win pol sub en by (simp add: Op_Subscribe_def authed_True)
        then show ?thesis by (rule subscribe_exact_effect [OF assms(1) exact refl])
      next
        case False
        then have "psState s' = psState s \<and> w' = w" using assms(2) True exact win pol by (auto simp: Op_Subscribe_def authed_True)
        then show ?thesis by (simp add: subscribed_effect_def)
      qed
    qed
  qed
qed

lemma Op_Unsubscribe_effect:
  assumes "session_ok s e" "Op_Unsubscribe now hooks channel reqID s e w = (s', e', w')"
  shows "(recorded (psState s') = recorded (psState s) \<and> w' = w)
    \<or> (\<exists>c. c \<in> recorded (psState s) \<and> recorded (psState s') = recorded (psState s) - {c}
         \<and> w' = (case hooks of None \<Rightarrow> w | Some h \<Rightarrow> (case hkOnUnsubscribed h of None \<Rightarrow> w | Some f \<Rightarrow> f c w)))"
proof (cases "IsAuthenticated (psState s) \<and> validateChannel channel")
  case False
  then show ?thesis using assms(2) by (auto simp: Op_Unsubscribe_def authed_def split: if_splits)
next
  case True
  have ok: "engine_ok e" using assms(1) by (simp add: session_ok_def)
  obtain removed e1 where un: "(if IsPattern channel then UnsubscribePattern (psID s) channel e else Unsubscribe now (psID s) channel e) = (removed, e1)"
    by (metis prod.collapse)
  have "removed \<Longrightarrow> channel \<in> recorded (psState s)"
    using un UnsubscribePattern_spec(5) [OF ok, of "psID s" channel removed e1] Unsubscribe_spec(2) [OF ok, of now "psID s" channel removed e1] assms(1)
    by (auto simp: chans_of_def pats_of_def session_ok_def split: if_splits)
  then show ?thesis using assms(2) True un
    by (auto simp: Op_Unsubscribe_def authed_True Let_def split: prod.splits if_splits)
qed

lemma Op_Publish_relay:
  assumes "Op_Publish now ep ev sched (relay_deliver accept) (Some (relay_hooks order i)) req reqID s e w = Inr (s', e', w')"
    and "router_ok [] (rwRouter w)"
  shows "e' = e \<and> psState s' = psState s \<and> rwChannels w' = rwChannels w \<and> router_ok [] (rwRouter w')
    \<and> upSubscriptions (rwUpstream w') = upSubscriptions (rwUpstream w)"
proof -
  obtain r rt where rt: "Route order (pqChannel req) (rwRouter w) = (r, rt)" by (cases "Route order (pqChannel req) (rwRouter w)")
  then have "rrMode r = RouteModeRelay" "router_ok [] rt"
    using Route_ok [OF assms(2), of order "pqChannel req"] by simp_all
  then show ?thesis
    using assms rt
    by (auto simp: Op_Publish_def authed_def relay_hooks_def PublishPlan_def relay_Route_def ForwardPublish_def Up_Publish_def enqueue_def
        RouteModeRelay_def RouteModeLocal_def RouteModeBoth_def split: if_splits option.splits)
qed

lemma Connect_state: "recorded (psState (Connect verify req reqID s)) = recorded (psState s)"
  by (auto simp: Connect_def Let_def ScheduleExpiry_def State_Authenticate_def recorded_def split: sum.splits)

lemma Refresh_state: "recorded (psState (Refresh verify req reqID s)) = recorded (psState s)"
  by (auto simp: Refresh_def authed_def Let_def ScheduleExpiry_def State_Authenticate_def recorded_def split: sum.splits)

lemma Op_Confirm_state: "Op_Confirm now accept channel offset reqID s e = Some s' \<Longrightarrow> psState s' = psState s"
  by (auto simp: Op_Confirm_def authed_def split: option.splits if_splits)

text \<open>The surroundings of a relay session's dispatch.\<close>

definition relay_env :: "string list \<Rightarrow> SubscriberID \<Rightarrow> (SubscriberID \<Rightarrow> bool) \<Rightarrow> RelayWorld env \<Rightarrow> RelayWorld env" where
  "relay_env order i accept v = v\<lparr>envHooks := Some (relay_hooks order i), envDeliver := relay_deliver accept\<rparr>"

text \<open>The three things a dispatch can do to the books the hooks keep.\<close>

definition books_same :: "RelayWorld \<Rightarrow> RelayWorld \<Rightarrow> bool" where
  "books_same w w' \<longleftrightarrow> rwChannels w' = rwChannels w \<and> router_ok [] (rwRouter w')
     \<and> upSubscriptions (rwUpstream w') = upSubscriptions (rwUpstream w)"

lemma handleMessage_effect:
  assumes "session_ok s e" "router_ok [] (rwRouter w)"
    and "handleMessage (relay_env order i accept v) msg s e w = Some (Inr (s', e', w'))"
  shows "(recorded (psState s') = recorded (psState s) \<and> books_same w w')
    \<or> (\<exists>c. c \<notin> recorded (psState s) \<and> recorded (psState s') = insert c (recorded (psState s)) \<and> w' = OnSubscribed order i c w)
    \<or> (\<exists>c. c \<in> recorded (psState s) \<and> recorded (psState s') = recorded (psState s) - {c} \<and> w' = OnUnsubscribed order i c w)"
proof (cases "pcmBody msg")
  case (PbConfirm channel offset)
  then show ?thesis using assms by (auto simp: handleMessage_def relay_env_def books_same_def dest: Op_Confirm_state)
next
  case (PbSubscribe req)
  then show ?thesis
    using assms Op_Subscribe_effect [OF assms(1), of "envNow v" "envEpoch v" "envAccept v" "Some (relay_hooks order i)" "ToSubscribe req" "pcmId msg" w s' e' w']
    by (auto simp: handleMessage_def relay_env_def books_same_def subscribed_effect_def on_subscribed_def relay_hooks_def)
next
  case (PbUnsubscribe channel)
  then show ?thesis
    using assms Op_Unsubscribe_effect [OF assms(1), of "envNow v" "Some (relay_hooks order i)" channel "pcmId msg" w s' e' w']
    by (auto simp: handleMessage_def relay_env_def books_same_def relay_hooks_def)
next
  case (PbPublish channel data)
  then show ?thesis
    using assms by (auto simp: handleMessage_def relay_env_def books_same_def dest: Op_Publish_relay)
qed (use assms in \<open>auto simp: handleMessage_def relay_env_def books_same_def Connect_state Refresh_state Ping_def Unknown_def authed_def
      split: if_splits\<close>)


section \<open>Reference counts\<close>

text \<open>The count of a channel after one more or one less reference.\<close>

definition inc :: "int option \<Rightarrow> int option" where
  "inc n = Some (case n of None \<Rightarrow> 1 | Some k \<Rightarrow> k + 1)"

definition dec :: "int option \<Rightarrow> int option" where
  "dec n = (case n of None \<Rightarrow> None | Some k \<Rightarrow> if k - 1 \<le> 0 then None else Some (k - 1))"

lemma Up_Subscribe_count:
  "gget (upSubscriptions (Up_Subscribe c u)) c' = (if c' = c then inc (gget (upSubscriptions u) c) else gget (upSubscriptions u) c')"
  by (simp add: Up_Subscribe_def enqueue_def Let_def inc_def split: option.split)

lemma Up_Unsubscribe_count:
  "gget (upSubscriptions (Up_Unsubscribe c u)) c' = (if c' = c then dec (gget (upSubscriptions u) c) else gget (upSubscriptions u) c')"
  by (simp add: Up_Unsubscribe_def enqueue_def Let_def dec_def split: option.split)

lemma Up_Unsubscribes_count:
  "distinct cs \<Longrightarrow> gget (upSubscriptions (fold Up_Unsubscribe cs u)) c
     = (if c \<in> set cs then dec (gget (upSubscriptions u) c) else gget (upSubscriptions u) c)"
  by (induction cs arbitrary: u) (auto simp: Up_Unsubscribe_count)

type_synonym relay_sessions = "SubscriberID \<Rightarrow> Session option"

definition holders :: "relay_sessions \<Rightarrow> string \<Rightarrow> SubscriberID set" where
  "holders ss c = {i. \<exists>s. ss i = Some s \<and> c \<in> recorded (psState s)}"

definition refs :: "relay_sessions \<Rightarrow> string \<Rightarrow> int option" where
  "refs ss c = (if holders ss c = {} then None else Some (int (card (holders ss c))))"

lemma holders_upd:
  "holders (ss(i \<mapsto> s)) c = (if c \<in> recorded (psState s) then insert i (holders ss c) else holders ss c - {i})"
  by (auto simp: holders_def)

lemma holders_None: "holders (ss(i := None)) c = holders ss c - {i}"
  by (auto simp: holders_def)

lemma finite_holders: "finite (dom ss) \<Longrightarrow> finite (holders ss c)"
  by (rule finite_subset [of _ "dom ss"]) (auto simp: holders_def)

lemma refs_insert:
  assumes "finite (dom ss)" "i \<notin> holders ss c" "holders ss' c = insert i (holders ss c)"
  shows "refs ss' c = inc (refs ss c)"
  using assms finite_holders [OF assms(1), of c] by (auto simp: refs_def inc_def)

lemma refs_remove:
  assumes "finite (dom ss)" "i \<in> holders ss c" "holders ss' c = holders ss c - {i}"
  shows "refs ss' c = dec (refs ss c)"
proof -
  have f: "finite (holders ss c)" by (rule finite_holders [OF assms(1)])
  have card: "card (holders ss c - {i}) = card (holders ss c) - 1" using f assms(2) by simp
  have pos: "0 < card (holders ss c)" using f assms(2) by (auto simp: card_gt_0_iff)
  have "holders ss c - {i} = {} \<longleftrightarrow> card (holders ss c) = 1"
    using card f pos by (metis One_nat_def Suc_pred card_0_eq diff_Suc_1 finite_Diff)
  then show ?thesis using assms pos card by (auto simp: refs_def dec_def)
qed

lemma refs_same: "holders ss' c = holders ss c \<Longrightarrow> refs ss' c = refs ss c"
  by (simp add: refs_def)

lemma OnSubscribed_fields:
  assumes "router_ok [] (rwRouter w)"
  shows "router_ok [] (rwRouter (OnSubscribed order i c w))"
    "rwChannels (OnSubscribed order i c w) = gput i (gput c () (sess_channels i w)) (rwChannels w)"
    "rwUpstream (OnSubscribed order i c w) = Up_Subscribe c (rwUpstream w)"
proof -
  obtain r rt where rt: "Route order c (rwRouter w) = (r, rt)" by (cases "Route order c (rwRouter w)")
  then have "rrMode r = RouteModeRelay" "router_ok [] rt" using Route_ok [OF assms, of order c] by simp_all
  then show "router_ok [] (rwRouter (OnSubscribed order i c w))"
    "rwChannels (OnSubscribed order i c w) = gput i (gput c () (sess_channels i w)) (rwChannels w)"
    "rwUpstream (OnSubscribed order i c w) = Up_Subscribe c (rwUpstream w)"
    using rt by (simp_all add: OnSubscribed_def relay_Route_def Let_def)
qed

lemma OnUnsubscribed_fields:
  assumes "router_ok [] (rwRouter w)"
  shows "router_ok [] (rwRouter (OnUnsubscribed order i c w))"
    "rwChannels (OnUnsubscribed order i c w) = gput i (gdel c (sess_channels i w)) (rwChannels w)"
    "rwUpstream (OnUnsubscribed order i c w) = Up_Unsubscribe c (rwUpstream w)"
proof -
  obtain r rt where rt: "Route order c (rwRouter w) = (r, rt)" by (cases "Route order c (rwRouter w)")
  then have "rrMode r = RouteModeRelay" "router_ok [] rt" using Route_ok [OF assms, of order c] by simp_all
  then show "router_ok [] (rwRouter (OnUnsubscribed order i c w))"
    "rwChannels (OnUnsubscribed order i c w) = gput i (gdel c (sess_channels i w)) (rwChannels w)"
    "rwUpstream (OnUnsubscribed order i c w) = Up_Unsubscribe c (rwUpstream w)"
    using rt by (simp_all add: OnUnsubscribed_def relay_Route_def Let_def)
qed

section \<open>The relay in operation\<close>

type_synonym relay_state = "relay_sessions \<times> Engine \<times> RelayWorld"

text \<open>
  Sessions connect, dispatch messages, receive deliveries and end; messages arrive from upstream;
  the history sweeper runs; and the goroutines of the upstream connection, which never touch the
  reference counts, take their steps.
\<close>

inductive relay_step :: "relay_state \<Rightarrow> relay_state \<Rightarrow> bool" where
  connect: "ss i = None \<Longrightarrow> psID s = i \<Longrightarrow> session_start s e \<Longrightarrow>
    relay_step (ss, e, w) (ss(i \<mapsto> s), e, w\<lparr>rwChannels := gput i [] (rwChannels w)\<rparr>)"
| dispatch: "ss i = Some s \<Longrightarrow>
    \<forall>channel data ch. pcmBody msg = PbPublish channel data \<and> lookup channel e = Some ch \<longrightarrow> offset_room ch \<Longrightarrow>
    handleMessage (relay_env order i accept v) msg s e w = Some (Inr (s', e', w')) \<Longrightarrow>
    relay_step (ss, e, w) (ss(i \<mapsto> s'), e', w')"
| delivered: "ss i = Some s \<Longrightarrow> Consumer_Deliver (\<lambda>out. (now, out)) (produce taken) d (psQoS s) (psOut s) = (ok, c, out) \<Longrightarrow>
    relay_step (ss, e, w) (ss(i \<mapsto> s\<lparr>psQoS := c, psOut := out\<rparr>), e, w)"
| ticked: "ss i = Some s \<Longrightarrow> Consumer_Tick rec (\<lambda>out. (now, out)) (produce taken) (psQoS s) (psOut s) = Some (c, out) \<Longrightarrow>
    relay_step (ss, e, w) (ss(i \<mapsto> s\<lparr>psQoS := c, psOut := out\<rparr>), e, w)"
| ended: "ss i = Some s \<Longrightarrow> relay_cleanupSession now s e w = (s', e', w') \<Longrightarrow> relay_step (ss, e, w) (ss(i := None), e', w')"
| upstream: "\<forall>ch. lookup (dChannel msg) e = Some ch \<longrightarrow> offset_room ch \<Longrightarrow>
    onUpstreamMessage hash now now' ep evs sched (recorder accept) msg (rwDedup w) e (rwLog w) = Inr (d', e', log') \<Longrightarrow>
    relay_step (ss, e, w) (ss, e', w\<lparr>rwDedup := d', rwLog := log'\<rparr>)"
| sweep: "relay_step (ss, e, w) (ss, sweep_tick now e, w)"
| loops: "up_step a b \<Longrightarrow> usU a = rwUpstream w \<Longrightarrow> \<forall>c. usU b \<noteq> Up_Subscribe c (usU a) \<and> usU b \<noteq> Up_Unsubscribe c (usU a) \<Longrightarrow>
    relay_step (ss, e, w) (ss, e, w\<lparr>rwUpstream := usU b\<rparr>)"

definition relay_ok :: "relay_state \<Rightarrow> bool" where
  "relay_ok = (\<lambda>(ss, e, w). engine_ok e \<and> finite (dom ss) \<and> router_ok [] (rwRouter w)
     \<and> (\<forall>i s. ss i = Some s \<longrightarrow> psID s = i \<and> session_ok s e \<and> gomap_ok (sess_channels i w)
          \<and> fst ` set (sess_channels i w) = recorded (psState s))
     \<and> (\<forall>c. gget (upSubscriptions (rwUpstream w)) c = refs ss c))"

text \<open>A dispatch moves the engine's relations of its own session only.\<close>

lemma session_ok_others:
  assumes "session_ok s e" "engine_ok e'" "chans_of (psID s) e' = chans_of (psID s) e" "pats_of (psID s) e' = pats_of (psID s) e"
  shows "session_ok s e'"
  by (rule session_ok_cong [OF assms(1)]) (use assms in \<open>auto simp: session_ok_def\<close>)

definition own_only :: "SubscriberID \<Rightarrow> Engine \<Rightarrow> Engine \<Rightarrow> bool" where
  "own_only i e e' \<longleftrightarrow> (\<forall>j. j \<noteq> i \<longrightarrow> chans_of j e' = chans_of j e \<and> pats_of j e' = pats_of j e)"

lemma own_only_refl [simp]: "own_only i e e"
  by (simp add: own_only_def)

lemma subscribe_exact_own:
  assumes "engine_ok e" "psID s = i" "subscribe_exact now ep accept hooks req reqID s installed e w = (s', e', w')"
  shows "own_only i e e'"
proof -
  obtain err e1 where sub: "SubscribePriority now ep (psID s) (sqChannel req) (sqPriority req) e = (err, e1)" by (metis prod.collapse)
  have "e' = e1" using assms(3) sub by (auto simp: subscribe_exact_def Let_def split: option.splits prod.splits if_splits)
  then show ?thesis using SubscribePriority_spec(2,4) [OF assms(1) sub] assms(2) by (auto simp: own_only_def chans_of_def pats_of_def)
qed

lemma subscribePattern_own:
  assumes "engine_ok e" "psID s = i" "subscribePattern hooks req reqID s e w = (s', e', w')"
  shows "own_only i e e'"
proof -
  obtain err e1 where sub: "SubscribePattern (psID s) (sqChannel req) e = (err, e1)" by (metis prod.collapse)
  have "e' = e1 \<or> e' = e" using assms(3) sub by (auto simp: subscribePattern_def Let_def split: option.splits if_splits)
  then show ?thesis using SubscribePattern_spec(2,4) [OF assms(1) sub] assms(2)
    by (auto simp: own_only_def chans_of_def pats_of_def split: if_splits)
qed

lemma Op_Subscribe_own:
  assumes "engine_ok e" "Op_Subscribe now ep accept hooks req reqID s e w = (s', e', w')"
  shows "own_only (psID s) e e'"
  using assms(2) own_only_refl [of "psID s" e] subscribe_exact_own [OF assms(1) refl] subscribePattern_own [OF assms(1) refl]
    subscribe_exact_own [OF assms(1), of "s\<lparr>psQoS := c, psSweeper := sw\<rparr>" "psID s" for c sw]
  by (auto simp: Op_Subscribe_def authed_def split: if_splits prod.splits)

lemma Op_Unsubscribe_own:
  assumes "engine_ok e" "Op_Unsubscribe now hooks channel reqID s e w = (s', e', w')"
  shows "own_only (psID s) e e'"
proof -
  obtain removed e1 where un: "(if IsPattern channel then UnsubscribePattern (psID s) channel e else Unsubscribe now (psID s) channel e) = (removed, e1)"
    by (metis prod.collapse)
  have "e' = e1 \<or> e' = e" using assms(2) un by (auto simp: Op_Unsubscribe_def authed_def Let_def split: prod.splits if_splits)
  moreover have "own_only (psID s) e e1"
    using un UnsubscribePattern_spec(2,4) [OF assms(1), of "psID s" channel removed e1] Unsubscribe_spec(3,4) [OF assms(1), of now "psID s" channel removed e1]
    by (auto simp: own_only_def chans_of_def pats_of_def split: if_splits)
  ultimately show ?thesis by auto
qed


lemma handleMessage_own:
  assumes "engine_ok e" "router_ok [] (rwRouter w)"
    and "handleMessage (relay_env order i accept v) msg s e w = Some (Inr (s', e', w'))"
  shows "own_only (psID s) e e'"
proof (cases "pcmBody msg")
  case (PbSubscribe req)
  then show ?thesis using assms(3) by (auto simp: handleMessage_def intro: Op_Subscribe_own [OF assms(1)])
next
  case (PbUnsubscribe channel)
  then show ?thesis using assms(3) by (auto simp: handleMessage_def intro: Op_Unsubscribe_own [OF assms(1)])
next
  case (PbPublish channel data)
  then have "e' = e" using assms by (auto simp: handleMessage_def relay_env_def dest: Op_Publish_relay)
  then show ?thesis by simp
qed (use assms(3) in \<open>auto simp: handleMessage_def\<close>)

lemma handleMessage_ok:
  assumes "session_ok s e" "handleMessage v msg s e w = Some (Inr (s', e', w'))"
    and "\<forall>channel data ch. pcmBody msg = PbPublish channel data \<and> lookup channel e = Some ch \<longrightarrow> offset_room ch"
  shows "session_ok s' e'"
proof (rule dispatchParsed_ok [OF assms(1)])
  show "dispatchParsed v (as_ws msg) s e w = Some (Inr (s', e', w'))" using assms(2) by (simp add: handleMessage_ws)
  show "\<forall>req ch. cmPublish (as_ws msg) = Some req \<and> lookup (pqChannel req) e = Some ch \<longrightarrow> offset_room ch"
    using assms(3) by (auto simp: as_ws_def Let_def split: pbClientBody.splits)
qed

lemma psID_dispatch:
  assumes "handleMessage v msg s e w = Some (Inr (s', e', w'))"
  shows "psID s' = psID s"
proof -
  have replay: "psID (replay_all now accept ds s) = psID s" for now accept ds and s :: Session
    by (induction ds arbitrary: s) (auto simp: replay_all_def split: prod.splits)
  have exact: "psID s' = psID s" if "subscribe_exact now ep accept hooks req reqID s installed e w = (s', e', w')"
    for now ep accept hooks req reqID installed e and w w' :: 'a and s s' e'
    using that by (auto simp: subscribe_exact_def Let_def replay split: prod.splits option.splits if_splits)
  have pat: "psID s' = psID s" if "subscribePattern hooks req reqID s e w = (s', e', w')" for hooks req reqID e and w w' :: 'a and s s' e'
    using that by (auto simp: subscribePattern_def Let_def split: prod.splits option.splits if_splits)
  have sub: "psID s' = psID s" if "Op_Subscribe now ep accept hooks req reqID s e w = (s', e', w')"
    for now ep accept hooks req reqID e and w w' :: 'a and s s' e'
    using that by (auto simp: Op_Subscribe_def authed_def split: prod.splits if_splits dest: exact pat)
  have unsub: "psID s' = psID s" if "Op_Unsubscribe now hooks channel reqID s e w = (s', e', w')"
    for now hooks channel reqID e and w w' :: 'a and s s' e'
    using that by (auto simp: Op_Unsubscribe_def authed_def Let_def split: prod.splits if_splits)
  have pub: "psID s' = psID s" if "Op_Publish now ep evs sched deliver hooks req reqID s e w = Inr (s', e', w')"
    for now ep evs sched deliver hooks req reqID e and w w' :: 'a and s s' e'
    using that by (auto simp: Op_Publish_def authed_def split: prod.splits if_splits option.splits sum.splits)
  have conf: "psID s' = psID s" if "Op_Confirm now accept channel offset reqID s e = Some s'" for now accept channel offset reqID e and s s'
    using that by (auto simp: Op_Confirm_def authed_def split: option.splits if_splits)
  have con: "psID (Connect verify req reqID s) = psID s" for verify req reqID s
    by (auto simp: Connect_def ScheduleExpiry_def Let_def split: sum.split)
  have ref: "psID (Refresh verify req reqID s) = psID s" for verify req reqID s
    by (auto simp: Refresh_def authed_def ScheduleExpiry_def Let_def split: sum.split)
  show ?thesis
  proof (cases "pcmBody msg")
    case (PbConnect token version)
    then show ?thesis using assms con by (auto simp: handleMessage_def)
  next
    case (PbRefresh token)
    then show ?thesis using assms ref by (auto simp: handleMessage_def)
  next
    case (PbConfirm channel offset)
    then show ?thesis using assms by (auto simp: handleMessage_def dest: conf)
  next
    case (PbSubscribe req)
    then show ?thesis using assms by (auto simp: handleMessage_def dest: sub)
  next
    case (PbUnsubscribe channel)
    then show ?thesis using assms by (auto simp: handleMessage_def dest: unsub)
  next
    case (PbPublish channel data)
    then show ?thesis using assms by (auto simp: handleMessage_def dest: pub)
  qed (use assms in \<open>auto simp: handleMessage_def Ping_def Unknown_def authed_def split: if_splits\<close>)
qed

lemma sess_channels_gput: "rwChannels w' = gput i m (rwChannels w) \<Longrightarrow> sess_channels j w' = (if j = i then m else sess_channels j w)"
  by (simp add: sess_channels_def)

lemma relay_ok_session:
  assumes "relay_ok (ss, e, w)" "ss i = Some s"
  shows "psID s = i" "session_ok s e" "gomap_ok (sess_channels i w)" "fst ` set (sess_channels i w) = recorded (psState s)"
  using assms by (auto simp: relay_ok_def)

text \<open>A step of session \<open>i\<close> that keeps its own books keeps the relay's.\<close>

lemma relay_ok_upd:
  assumes ok: "relay_ok (ss, e, w)" and e': "engine_ok e'" "own_only i e e'"
    and s': "psID s' = i" "session_ok s' e'" "gomap_ok (sess_channels i w')" "fst ` set (sess_channels i w') = recorded (psState s')"
    and w': "router_ok [] (rwRouter w')" "\<And>j. j \<noteq> i \<Longrightarrow> sess_channels j w' = sess_channels j w"
    and refs: "\<And>c. gget (upSubscriptions (rwUpstream w')) c = refs (ss(i \<mapsto> s')) c"
  shows "relay_ok (ss(i \<mapsto> s'), e', w')"
proof -
  have "psID s = j \<and> session_ok s e' \<and> gomap_ok (sess_channels j w') \<and> fst ` set (sess_channels j w') = recorded (psState s)"
    if "(ss(i \<mapsto> s')) j = Some s" for j s
  proof (cases "j = i")
    case True
    then show ?thesis using that s' by auto
  next
    case False
    then have j: "ss j = Some s" using that by simp
    note old = relay_ok_session [OF ok j]
    have "session_ok s e'" using e' False old(1) by (intro session_ok_others [OF old(2)]) (auto simp: own_only_def)
    then show ?thesis using old w'(2) [OF False] by simp
  qed
  note sessions = this
  have "finite (dom (ss(i \<mapsto> s')))" using ok by (simp add: relay_ok_def)
  then show ?thesis unfolding relay_ok_def prod.case using e'(1) w'(1) refs sessions by blast
qed


lemma relay_ok_same:
  assumes ok: "relay_ok (ss, e, w)" and e': "engine_ok e'" "\<And>j. chans_of j e' = chans_of j e \<and> pats_of j e' = pats_of j e"
    and w': "router_ok [] (rwRouter w')" "rwChannels w' = rwChannels w" "upSubscriptions (rwUpstream w') = upSubscriptions (rwUpstream w)"
  shows "relay_ok (ss, e', w')"
proof -
  have "session_ok s e'" if "ss i = Some s" for i s
    using e' by (intro session_ok_others [OF relay_ok_session(2) [OF ok that]]) auto
  then show ?thesis using relay_ok_session [OF ok] ok e'(1) w' by (simp add: relay_ok_def sess_channels_def)
qed

lemma relay_ok_dispatch:
  assumes ok: "relay_ok (ss, e, w)" and s: "ss i = Some s"
    and room: "\<forall>channel data ch. pcmBody msg = PbPublish channel data \<and> lookup channel e = Some ch \<longrightarrow> offset_room ch"
    and run: "handleMessage (relay_env order i accept v) msg s e w = Some (Inr (s', e', w'))"
  shows "relay_ok (ss(i \<mapsto> s'), e', w')"
proof -
  note old = relay_ok_session [OF ok s]
  have eok: "engine_ok e" and fin: "finite (dom ss)" and rt: "router_ok [] (rwRouter w)"
    and cnt: "\<And>c. gget (upSubscriptions (rwUpstream w)) c = refs ss c" using ok by (simp_all add: relay_ok_def)
  have s': "psID s' = i" "session_ok s' e'" using psID_dispatch [OF run] old(1) handleMessage_ok [OF old(2) run room] by simp_all
  have e': "engine_ok e'" "own_only i e e'" using s'(2) handleMessage_own [OF eok rt run] old(1) by (simp_all add: session_ok_def)
  have mem: "i \<in> holders ss c \<longleftrightarrow> c \<in> recorded (psState s)" for c using s by (simp add: holders_def)
  from handleMessage_effect [OF old(2) rt run] consider
      (same) "recorded (psState s') = recorded (psState s)" "books_same w w'"
    | (add) c where "c \<notin> recorded (psState s)" "recorded (psState s') = insert c (recorded (psState s))" "w' = OnSubscribed order i c w"
    | (del) c where "c \<in> recorded (psState s)" "recorded (psState s') = recorded (psState s) - {c}" "w' = OnUnsubscribed order i c w"
    by blast
  then show ?thesis
  proof cases
    case same
    have "holders (ss(i \<mapsto> s')) c = holders ss c" for c using same(1) mem [of c] by (auto simp: holders_upd)
    then have "refs (ss(i \<mapsto> s')) c = refs ss c" for c by (rule refs_same)
    then show ?thesis using same old(3,4) cnt
      by (intro relay_ok_upd [OF ok e' s']) (simp_all add: books_same_def sess_channels_def)
  next
    case add
    note f = OnSubscribed_fields [OF rt, of order i c, folded add(3)]
    have hold: "holders (ss(i \<mapsto> s')) c' = (if c' = c then insert i (holders ss c) else holders ss c')" for c'
      using add(2) mem by (auto simp: holders_upd)
    have "refs (ss(i \<mapsto> s')) c' = (if c' = c then inc (refs ss c) else refs ss c')" for c'
      using hold [of c'] refs_insert [OF fin, of i c "ss(i \<mapsto> s')"] refs_same [of "ss(i \<mapsto> s')" c' ss] mem add(1)
      by (cases "c' = c") simp_all
    then show ?thesis using add f old(3,4) cnt sess_channels_gput [OF f(2)]
      by (intro relay_ok_upd [OF ok e' s']) (simp_all add: Up_Subscribe_count)
  next
    case del
    note f = OnUnsubscribed_fields [OF rt, of order i c, folded del(3)]
    have hold: "holders (ss(i \<mapsto> s')) c' = (if c' = c then holders ss c - {i} else holders ss c')" for c'
      using del(2) mem by (auto simp: holders_upd)
    have "refs (ss(i \<mapsto> s')) c' = (if c' = c then dec (refs ss c) else refs ss c')" for c'
      using hold [of c'] refs_remove [OF fin, of i c "ss(i \<mapsto> s')"] refs_same [of "ss(i \<mapsto> s')" c' ss] mem del(1)
      by (cases "c' = c") simp_all
    then show ?thesis using del f old(3,4) cnt sess_channels_gput [OF f(2)]
      by (intro relay_ok_upd [OF ok e' s']) (simp_all add: Up_Unsubscribe_count)
  qed
qed

lemma relay_ok_ended:
  assumes ok: "relay_ok (ss, e, w)" and s: "ss i = Some s" and run: "relay_cleanupSession now s e w = (s', e', w')"
  shows "relay_ok (ss(i := None), e', w')"
proof -
  note old = relay_ok_session [OF ok s]
  have eok: "engine_ok e" and fin: "finite (dom ss)" and rt: "router_ok [] (rwRouter w)"
    and cnt: "\<And>c. gget (upSubscriptions (rwUpstream w)) c = refs ss c" using ok by (simp_all add: relay_ok_def)
  have e': "e' = UnsubscribeAll now i e" and ww: "rwRouter w' = rwRouter w" "rwChannels w' = gdel i (rwChannels w)"
      "rwUpstream w' = fold Up_Unsubscribe (gkeys (sess_channels i w)) (rwUpstream w)"
    using run old(1) by (auto simp: relay_cleanupSession_def Let_def split: prod.splits)
  note ua = UnsubscribeAll_spec [OF eok e']
  have "refs (ss(i := None)) c = (if c \<in> set (gkeys (sess_channels i w)) then dec (refs ss c) else refs ss c)" for c
  proof -
    have mem: "i \<in> holders ss c \<longleftrightarrow> c \<in> set (gkeys (sess_channels i w))" using s old(4) by (simp add: holders_def)
    show ?thesis using refs_remove [OF fin, of i c "ss(i := None)"] refs_same [of "ss(i := None)" c ss] mem holders_None [of ss i c]
      by (cases "i \<in> holders ss c") simp_all
  qed
  then have "gget (upSubscriptions (rwUpstream w')) c = refs (ss(i := None)) c" for c
    using old(3) unfolding ww(3) by (subst Up_Unsubscribes_count) (simp_all add: gomap_ok_def cnt)
  moreover have "psID t = j \<and> session_ok t e' \<and> gomap_ok (sess_channels j w') \<and> fst ` set (sess_channels j w') = recorded (psState t)"
    if "(ss(i := None)) j = Some t" for j t
  proof -
    have j: "ss j = Some t" "j \<noteq> i" using that by (auto split: if_splits)
    note o = relay_ok_session [OF ok j(1)]
    have "session_ok t e'" using ua j(2) o(1) by (intro session_ok_others [OF o(2)]) (auto simp: chans_of_def pats_of_def)
    then show ?thesis using o j(2) by (simp add: sess_channels_def ww)
  qed
  ultimately show ?thesis using ua(1) fin rt by (simp add: relay_ok_def ww(1))
qed


lemma relay_ok_consumer:
  assumes ok: "relay_ok (ss, e, w)" and s: "ss i = Some s" and c: "windows_ok c" "same_books (psQoS s) c"
  shows "relay_ok (ss(i \<mapsto> s\<lparr>psQoS := c, psOut := out\<rparr>), e, w)"
proof -
  note old = relay_ok_session [OF ok s]
  have "holders (ss(i \<mapsto> s\<lparr>psQoS := c, psOut := out\<rparr>)) x = holders ss x" for x using s by (auto simp: holders_def)
  then have "refs (ss(i \<mapsto> s\<lparr>psQoS := c, psOut := out\<rparr>)) x = refs ss x" for x by (rule refs_same)
  then show ?thesis
    using ok old session_ok_books [OF old(2) c, of out]
    by (intro relay_ok_upd [OF ok]) (simp_all add: relay_ok_def)
qed

lemma relay_ok_connect:
  assumes ok: "relay_ok (ss, e, w)" and s: "ss i = None" "psID s = i" "session_start s e"
  shows "relay_ok (ss(i \<mapsto> s), e, w\<lparr>rwChannels := gput i [] (rwChannels w)\<rparr>)"
proof -
  have eok: "engine_ok e" using ok by (simp add: relay_ok_def)
  have new: "session_ok s e" "recorded (psState s) = {}" using session_ok_start [OF eok s(3)] s(3) by (simp_all add: session_start_def recorded_def)
  have "i \<notin> holders ss x" for x using s(1) by (simp add: holders_def)
  then have "holders (ss(i \<mapsto> s)) x = holders ss x" for x using new(2) by (simp add: holders_upd)
  then have "refs (ss(i \<mapsto> s)) x = refs ss x" for x by (rule refs_same)
  then show ?thesis using ok new s(2) eok
    by (intro relay_ok_upd [OF ok]) (simp_all add: relay_ok_def sess_channels_def)
qed

text \<open>The goroutines of the upstream connection never touch the reference counts.\<close>

lemma up_step_subscriptions:
  "up_step a b \<Longrightarrow> (\<exists>c. usU b = Up_Subscribe c (usU a) \<or> usU b = Up_Unsubscribe c (usU a))
    \<or> upSubscriptions (usU b) = upSubscriptions (usU a)"
  by (induction rule: up_step.induct)
    (auto simp: Up_Publish_def enqueue_def drop_stream_def drop_flag_def try_reconnecting_def reconnect_done_def
      Up_handleMessage_def reconnect_turn_def establishStream_def Let_def
      split: if_splits option.splits prod.splits server_msg.splits)

lemma relay_ok_step:
  assumes "relay_step x y" "relay_ok x"
  shows "relay_ok y"
  using assms(1)
proof cases
  case (connect ss i s e w)
  then show ?thesis using relay_ok_connect [of ss e w i s] assms(2) by simp
next
  case (dispatch ss i s msg e order accept v w s' e' w')
  then show ?thesis using relay_ok_dispatch [of ss e w i s msg order accept v s' e' w'] assms(2) by simp
next
  case (delivered ss i s now taken d ok c out e w)
  then have r: "relay_ok (ss, e, w)" using assms(2) by simp
  then have "windows_ok (psQoS s)" using relay_ok_session(2) [OF r delivered(3)] by (simp add: session_ok_def)
  from Consumer_Deliver_ok [OF this delivered(4)] show ?thesis using relay_ok_consumer [OF r delivered(3)] delivered(2) by simp
next
  case (ticked ss i s rec now taken c out e w)
  then have r: "relay_ok (ss, e, w)" using assms(2) by simp
  then have "windows_ok (psQoS s)" using relay_ok_session(2) [OF r ticked(3)] by (simp add: session_ok_def)
  from Consumer_Tick_ok [OF this ticked(4)] show ?thesis using relay_ok_consumer [OF r ticked(3)] ticked(2) by simp
next
  case (ended ss i s now e w s' e' w')
  then show ?thesis using relay_ok_ended [of ss e w i s now s' e' w'] assms(2) by simp
next
  case (upstream msg e hash now now' ep evs sched accept w d' e' log' ss)
  then have r: "relay_ok (ss, e, w)" and ok: "engine_ok e" using assms(2) by (simp_all add: relay_ok_def)
  have "e' = e \<or> (\<exists>res out. Publish now' ep evs sched (dChannel msg) (dData msg) 0 (recorder accept) e (rwLog w) = Inr (res, e', out))"
    using upstream(4) by (auto simp: onUpstreamMessage_def split: prod.splits if_splits sum.splits)
  then have "engine_ok e' \<and> (\<forall>j. chans_of j e' = chans_of j e \<and> pats_of j e' = pats_of j e)"
  proof
    assume "\<exists>res out. Publish now' ep evs sched (dChannel msg) (dData msg) 0 (recorder accept) e (rwLog w) = Inr (res, e', out)"
    then obtain res out where p: "Publish now' ep evs sched (dChannel msg) (dData msg) 0 (recorder accept) e (rwLog w) = Inr (res, e', out)" by blast
    show ?thesis using Publish_keeps [OF ok upstream(3) p] by (simp add: chans_of_def pats_of_def)
  qed (simp add: ok)
  then show ?thesis using relay_ok_same [OF r, of e' "w\<lparr>rwDedup := d', rwLog := log'\<rparr>"] r upstream(2) by (simp add: relay_ok_def)
next
  case (sweep ss e w now)
  then have r: "relay_ok (ss, e, w)" and ok: "engine_ok e" using assms(2) by (simp_all add: relay_ok_def)
  have "engine_ok (sweep_tick now e) \<and> (\<forall>j. chans_of j (sweep_tick now e) = chans_of j e \<and> pats_of j (sweep_tick now e) = pats_of j e)"
    using sweep_tick_ok [OF ok, of now] by (auto simp: chans_of_def pats_of_def)
  then show ?thesis using relay_ok_same [OF r, of "sweep_tick now e" w] r sweep(2) by (simp add: relay_ok_def)
next
  case (loops a b w ss e)
  then have "upSubscriptions (usU b) = upSubscriptions (rwUpstream w)" using up_step_subscriptions [of a b] by auto
  with loops show ?thesis using assms(2) by (simp add: relay_ok_def sess_channels_def)
qed

lemma relay_ok_reach: "relay_step\<^sup>*\<^sup>* x y \<Longrightarrow> relay_ok x \<Longrightarrow> relay_ok y"
  by (induction rule: rtranclp_induct) (auto intro: relay_ok_step)

text \<open>A relay that has just been built: it routes every channel to the upstream, and nothing is subscribed there.\<close>

definition relay_new :: "Upstream \<Rightarrow> int \<Rightarrow> RelayWorld" where
  "relay_new u ttl = \<lparr>rwUpstream = u, rwRouter = NewRouter [], rwDedup = NewDeduplicator ttl, rwChannels = [], rwLog = []\<rparr>"

text \<open>
  (C34) The relay's upstream subscriptions are counted exactly: in every execution of a relay over
  its engine, with sessions that connect, dispatch any messages and end, local and upstream
  publications, and the upstream connection going up and down, a channel is held upstream exactly
  while some live session is subscribed to it, and its reference count is the number of those
  sessions; and each session's own list of channels is what the engine has for it.
\<close>

theorem relay_refcounts:
  assumes "engine_reachable hash seed cfg e0" and "upSubscriptions u = []"
    and "relay_step\<^sup>*\<^sup>* (Map.empty, e0, relay_new u ttl) (ss, e, w)"
  shows "gget (upSubscriptions (rwUpstream w)) c =
      (let n = card {i. \<exists>s. ss i = Some s \<and> c \<in> recorded (psState s)} in if n = 0 then None else Some (int n))
    \<and> (\<forall>i s. ss i = Some s \<longrightarrow> fst ` set (sess_channels i w) = {n. (i, n) \<in> live_rel e} \<union> {p. (i, p) \<in> pattern_rel (ePatterns e)})"
proof -
  have "engine_ok e0" using reachable_ok(1) [OF assms(1)] .
  then have "relay_ok (Map.empty, e0, relay_new u ttl)"
    using assms(2) by (simp add: relay_ok_def relay_new_def router_ok_def NewRouter_def refs_def holders_def)
  then have ok: "relay_ok (ss, e, w)" by (rule relay_ok_reach [OF assms(3)])
  have "finite (holders ss c)" using ok by (intro finite_holders) (simp add: relay_ok_def)
  then have "gget (upSubscriptions (rwUpstream w)) c = (let n = card (holders ss c) in if n = 0 then None else Some (int n))"
    using ok by (auto simp: relay_ok_def refs_def Let_def)
  moreover have "fst ` set (sess_channels i w) = {n. (i, n) \<in> live_rel e} \<union> {p. (i, p) \<in> pattern_rel (ePatterns e)}" if "ss i = Some s" for i s
    using relay_ok_session [OF ok that] by (simp add: session_ok_def chans_of_def pats_of_def)
  ultimately show ?thesis by (simp add: holders_def)
qed

text \<open>A client connects to the relay and subscribes to a wildcard channel, which is then held upstream once.\<close>

definition demo_world :: RelayWorld where
  "demo_world = relay_new (NewUpstream ''tok'' \<lparr>rpInitialDelay = 100, rpMaxDelay = 30000, rpMaxRetries = 0\<rparr>) 5"

theorem relay_refcounts_witness:
  "\<exists>ss e w. relay_step\<^sup>*\<^sup>* (Map.empty, demo_start, demo_world) (ss, e, w)
     \<and> gget (upSubscriptions (rwUpstream w)) ''n*'' = Some 1 \<and> sess_channels 77 w = [(''n*'', ())]"
proof -
  let ?w = "demo_world\<lparr>rwChannels := gput 77 [] (rwChannels demo_world)\<rparr>"
  let ?msg = "\<lparr>pcmId = ''1'', pcmBody = PbSubscribe \<lparr>psrChannel = ''n*'', psrPriority = 0, psrMaxUnconfirmed = None, psrRecover = None\<rparr>\<rparr>"
  let ?v = "\<lparr>envNow = 1, envEpoch = 5, envOrder = [], envSched = [], envAccept = \<lambda>_. True, envVerify = InsecureVerify,
     envDeliver = relay_deliver (\<lambda>_. True), envHooks = None\<rparr>"
  note new = engine_ok_New [OF demo_cfg_ok, of "\<lambda>_. 0" "\<lambda>_. 0", folded demo_start_def]
  have start: "session_start demo_peer demo_start"
    by (simp add: session_start_def demo_peer_def demo_session_def NewState_def NewConsumer_def State_Authenticate_def
        chans_of_def pats_of_def new)
  have reach: "engine_reachable (\<lambda>_. 0) (\<lambda>_. 0) demo_cfg demo_start"
    by (simp add: engine_reachable_def demo_cfg_ok demo_start_def)
  have c: "relay_step (Map.empty, demo_start, demo_world) (Map.empty(77 \<mapsto> demo_peer), demo_start, ?w)"
    by (rule relay_step.connect [OF _ _ start]) (simp_all add: demo_peer_def)
  have "cfgNamespaces (eConfig demo_start) = None"
    by (simp add: demo_start_def New_def demo_cfg_def WithHistory_def defaultConfig_def Let_def)
  from first_pattern(1) [OF new(1,3) this, where sid = 77 and pat = "''n*''"]
  obtain e where sub: "SubscribePattern 77 ''n*'' demo_start = (None, e)" by (metis prod.collapse)
  let ?s = "send (Subscribed ''1'' ''n*'' False False) (demo_peer\<lparr>psState := snd (AddSubscription ''n*'' (psState demo_peer))\<rparr>)"
  let ?w' = "OnSubscribed [] 77 ''n*'' ?w"
  have "handleMessage (relay_env [] 77 (\<lambda>_. True) ?v) ?msg demo_peer demo_start ?w = Some (Inr (?s, e, ?w'))"
    using sub
    by (simp add: handleMessage_def relay_env_def relay_hooks_def ToSubscribe_def Op_Subscribe_def authed_True demo_peer_def demo_session_def
        State_Authenticate_def IsAuthenticated_def validateChannel_def maxChannelNameLen_def HasReserved_def
        reserved_chars_def State_CanSubscribe_def CanSubscribe_def matchAny_def zero_claims_def NewState_def SubscriptionCount_def
        IsPattern_def star_char_def subscribePattern_def on_subscribed_def authed_def Let_def)
  then have "relay_step (Map.empty(77 \<mapsto> demo_peer), demo_start, ?w) ((Map.empty(77 \<mapsto> demo_peer))(77 \<mapsto> ?s), e, ?w')"
    by (intro relay_step.dispatch) auto
  with c have r: "relay_step\<^sup>*\<^sup>* (Map.empty, demo_start, demo_world) ((Map.empty(77 \<mapsto> demo_peer))(77 \<mapsto> ?s), e, ?w')" by simp
  have "{i. \<exists>s. ((Map.empty(77 \<mapsto> demo_peer))(77 \<mapsto> ?s)) i = Some s \<and> ''n*'' \<in> recorded (psState s)} = {77}"
    by (simp add: demo_peer_def NewState_def State_Authenticate_def AddSubscription_def) (auto simp: recorded_def)
  then have "gget (upSubscriptions (rwUpstream ?w')) ''n*'' = Some 1"
    using relay_refcounts [OF reach _ r [unfolded demo_world_def], of "''n*''"] by (simp add: NewUpstream_def demo_world_def)
  moreover have "router_ok [] (rwRouter ?w)" by (simp add: demo_world_def relay_new_def router_ok_def NewRouter_def)
  then have "sess_channels 77 ?w' = [(''n*'', ())]" by (simp add: sess_channels_def OnSubscribed_fields) (simp add: gput_def)
  ultimately show ?thesis using r by blast
qed

end
