(* ===== verification/Upstream_Locks.thy ===== *)
theory Upstream_Locks
  imports Upstream
begin

text \<open>
  The reconnect of \<^verbatim>\<open>internal/relay/upstream.go\<close> with its locks and the bounded send channel: where the
  theory Upstream takes \<^verbatim>\<open>establishStream\<close> as one step and the channel as unbounded, here it holds
  \<^verbatim>\<open>streamMu\<close> from its first statement on and \<^verbatim>\<open>subsMu\<close> during the sweep, a message is put into the
  channel only when there is room, and the other goroutines wait for the locks.

  \<^item> The critical sections of the send and receive loops do not block, so they are single steps that
    need the lock to be free; only \<^verbatim>\<open>establishStream\<close> and a client of \<^verbatim>\<open>Subscribe\<close> or \<^verbatim>\<open>Unsubscribe\<close>
    keep a lock between steps.
  \<^item> \<open>lsClient\<close> is the message a client inside \<^verbatim>\<open>subsMu\<close> waits to send, \<open>lsPubs\<close> are the messages of the
    publishers that have passed the check of the connected flag, and \<open>lsCancelled\<close> is the context.
\<close>

datatype est_pc = EWait | EOpened | ESubs | ESweep "string list" | EDone bool

record lstate = ustate +
  lsCap :: nat
  lsEst :: est_pc
  lsClient :: "upstream_msg option"
  lsPubs :: "upstream_msg list"
  lsCancelled :: bool

definition sendCh_cap :: nat where
  "sendCh_cap = 256"

definition streamMu_free :: "lstate \<Rightarrow> bool" where
  "streamMu_free s \<longleftrightarrow> (case lsEst s of EWait \<Rightarrow> True | EDone _ \<Rightarrow> True | _ \<Rightarrow> False)"

definition subsMu_free :: "lstate \<Rightarrow> bool" where
  "subsMu_free s \<longleftrightarrow> lsClient s = None \<and> (case lsEst s of ESweep _ \<Rightarrow> False | _ \<Rightarrow> True)"

definition room :: "lstate \<Rightarrow> bool" where
  "room s \<longleftrightarrow> length (upSendCh (usU s)) < lsCap s"

inductive lock_step :: "lstate \<Rightarrow> lstate \<Rightarrow> bool" where
  est_fail: "lsEst s = EWait \<Longrightarrow> lock_step s (s\<lparr>lsEst := EDone False\<rparr>)"
| est_open: "lsEst s = EWait \<Longrightarrow>
    lock_step s (s\<lparr>usU := (usU s)\<lparr>upStream := Some (usNext s)\<rparr>, usNext := usNext s + 1, lsEst := EOpened\<rparr>)"
| est_connect: "lsEst s = EOpened \<Longrightarrow> upToken (usU s) = [] \<or> room s \<Longrightarrow>
    lock_step s (s\<lparr>usU := (if upToken (usU s) = [] then usU s else enqueue (UpConnect (upToken (usU s))) (usU s)), lsEst := ESubs\<rparr>)"
| est_subs: "lsEst s = ESubs \<Longrightarrow> lsClient s = None \<Longrightarrow> lock_step s (s\<lparr>lsEst := ESweep (gkeys (upSubscriptions (usU s)))\<rparr>)"
| est_sweep: "lsEst s = ESweep (c # cs) \<Longrightarrow> room s \<Longrightarrow> lock_step s (s\<lparr>usU := resubscribe [c] (usU s), lsEst := ESweep cs\<rparr>)"
| est_skip: "lsEst s = ESweep (c # cs) \<Longrightarrow> lsCancelled s \<Longrightarrow>
    lock_step s (s\<lparr>usU := (resubscribe [c] (usU s))\<lparr>upSendCh := upSendCh (usU s)\<rparr>, lsEst := ESweep cs\<rparr>)"
| est_done: "lsEst s = ESweep [] \<Longrightarrow> lock_step s (s\<lparr>usU := (usU s)\<lparr>upConnected := True\<rparr>, lsEst := EDone True\<rparr>)"
| client: "subsMu_free s \<Longrightarrow> op = Up_Subscribe c \<or> op = Up_Unsubscribe c \<Longrightarrow>
    upSendCh (op (usU s)) = upSendCh (usU s) @ ms \<Longrightarrow>
    lock_step s (s\<lparr>usU := (op (usU s))\<lparr>upSendCh := upSendCh (usU s)\<rparr>, lsClient := (case ms of [] \<Rightarrow> None | m # _ \<Rightarrow> Some m)\<rparr>)"
| client_send: "lsClient s = Some m \<Longrightarrow> room s \<Longrightarrow> lock_step s (s\<lparr>usU := enqueue m (usU s), lsClient := None\<rparr>)"
| client_skip: "lsClient s = Some m \<Longrightarrow> lsCancelled s \<Longrightarrow> lock_step s (s\<lparr>lsClient := None\<rparr>)"
| pub_check: "upConnected (usU s) \<Longrightarrow> lock_step s (s\<lparr>lsPubs := lsPubs s @ [UpPublish c d]\<rparr>)"
| pub_send: "m \<in> set (lsPubs s) \<Longrightarrow> room s \<Longrightarrow> lock_step s (s\<lparr>usU := enqueue m (usU s), lsPubs := remove1 m (lsPubs s)\<rparr>)"
| pub_skip: "m \<in> set (lsPubs s) \<Longrightarrow> lsCancelled s \<Longrightarrow> lock_step s (s\<lparr>lsPubs := remove1 m (lsPubs s)\<rparr>)"
| cancel: "lock_step s (s\<lparr>lsCancelled := True\<rparr>)"
| send_take: "usSend s = SIdle \<Longrightarrow> upSendCh (usU s) = m # ms \<Longrightarrow>
    lock_step s (s\<lparr>usU := (usU s)\<lparr>upSendCh := ms\<rparr>, usSend := STaken m\<rparr>)"
| send_read: "usSend s = STaken m \<Longrightarrow> streamMu_free s \<Longrightarrow>
    lock_step s (s\<lparr>usSend := (case upStream (usU s) of None \<Rightarrow> SIdle | Some i \<Rightarrow> SSending m i)\<rparr>)"
| send_sent: "usSend s = SSending m i \<Longrightarrow> lock_step s (s\<lparr>usSend := SIdle, usLog := (usLog s)(i := usLog s i @ [m])\<rparr>)"
| send_fail: "usSend s = SSending m i \<Longrightarrow> lock_step s (s\<lparr>usSend := SFailed m i\<rparr>)"
| send_drop: "usSend s = SFailed m i \<Longrightarrow> streamMu_free s \<Longrightarrow> drop_stream i (usU s) = (b, u) \<Longrightarrow>
    lock_step s (s\<lparr>usU := u, usSend := (if b then SDown1 else SIdle)\<rparr>)"
| send_flag: "usSend s = SDown1 \<Longrightarrow> lock_step s (s\<lparr>usU := drop_flag (usU s), usSend := SDown2\<rparr>)"
| send_cas: "usSend s = SDown2 \<Longrightarrow> try_reconnecting (usU s) = (False, u) \<Longrightarrow> lock_step s (s\<lparr>usU := u, usSend := SIdle\<rparr>)"
| recv_read: "usRecv s = RIdle \<Longrightarrow> streamMu_free s \<Longrightarrow> upStream (usU s) = Some i \<Longrightarrow> lock_step s (s\<lparr>usRecv := RReading i\<rparr>)"
| recv_msg: "usRecv s = RReading i \<Longrightarrow> lock_step s (s\<lparr>usU := fst (Up_handleMessage msg (usU s)), usRecv := RIdle\<rparr>)"
| recv_fail: "usRecv s = RReading i \<Longrightarrow> lock_step s (s\<lparr>usRecv := RFailed i\<rparr>)"
| recv_drop: "usRecv s = RFailed i \<Longrightarrow> streamMu_free s \<Longrightarrow> drop_stream i (usU s) = (b, u) \<Longrightarrow>
    lock_step s (s\<lparr>usU := u, usRecv := (if b then RDown1 else RIdle)\<rparr>)"
| recv_flag: "usRecv s = RDown1 \<Longrightarrow> lock_step s (s\<lparr>usU := drop_flag (usU s), usRecv := RDown2\<rparr>)"
| recv_cas: "usRecv s = RDown2 \<Longrightarrow> try_reconnecting (usU s) = (False, u) \<Longrightarrow> lock_step s (s\<lparr>usU := u, usRecv := RIdle\<rparr>)"

text \<open>
  The one message the send loop can still take out of the channel while \<^verbatim>\<open>streamMu\<close> is held: none when it
  has one and waits for the lock.
\<close>

definition sender_room :: "lstate \<Rightarrow> nat" where
  "sender_room s = (case usSend s of STaken _ \<Rightarrow> 0 | SFailed _ _ \<Rightarrow> 0 | _ \<Rightarrow> 1)"

text \<open>The sweep in progress, before the connection is marked up; and one that cannot end.\<close>

definition sweeping :: "string list \<Rightarrow> lstate \<Rightarrow> bool" where
  "sweeping cs s \<longleftrightarrow> lsEst s = ESweep cs \<and> lsClient s = None \<and> \<not> upConnected (usU s) \<and> \<not> lsCancelled s"

definition stuck :: "lstate \<Rightarrow> bool" where
  "stuck s \<longleftrightarrow> (\<exists>cs. sweeping cs s \<and> lsCap s + sender_room s < length (upSendCh (usU s)) + length cs
     \<and> length (upSendCh (usU s)) \<le> lsCap s)"

lemma resubscribe_length: "length (upSendCh (resubscribe cs u)) = length (upSendCh u) + length cs"
  by (simp add: resubscribe_msgs)

lemma handleMessage_sendCh [simp]: "upSendCh (fst (Up_handleMessage msg u)) = upSendCh u"
  by (simp add: Up_handleMessage_def split: server_msg.split)

lemma stuck_step: "lock_step s s' \<Longrightarrow> stuck s \<Longrightarrow> \<not> lsCancelled s' \<Longrightarrow> stuck s'"
  by (induction rule: lock_step.induct)
    (auto simp: stuck_def sweeping_def sender_room_def room_def streamMu_free_def subsMu_free_def resubscribe_length enqueue_def
      drop_flag_def try_reconnecting_def simp del: resubscribe.simps split: if_splits send_pc.splits)

lemma cancelled_step: "lock_step s s' \<Longrightarrow> lsCancelled s \<Longrightarrow> lsCancelled s'"
  by (induction rule: lock_step.induct) auto

lemma stuck_forever: "lock_step\<^sup>*\<^sup>* s s' \<Longrightarrow> stuck s \<Longrightarrow> lsCancelled s' \<or> stuck s'"
  by (induction rule: rtranclp_induct) (auto intro: stuck_step cancelled_step)

text \<open>While a sweep holds the locks, the send loop puts nothing on the stream that the sweep is for.\<close>

definition unserved :: "nat \<Rightarrow> lstate \<Rightarrow> bool" where
  "unserved i s \<longleftrightarrow> (\<forall>m. usSend s \<noteq> SSending m i)"

lemma stuck_unserved: "lock_step s s' \<Longrightarrow> stuck s \<Longrightarrow> unserved i s \<Longrightarrow> unserved i s' \<and> usLog s' i = usLog s i"
  by (induction rule: lock_step.induct) (auto simp: stuck_def sweeping_def unserved_def streamMu_free_def)

lemma stuck_unserved_forever:
  assumes "lock_step\<^sup>*\<^sup>* s s'" "stuck s" "unserved i s" "\<not> lsCancelled s'"
  shows "unserved i s' \<and> usLog s' i = usLog s i"
  using assms
proof (induction rule: rtranclp_induct)
  case (step t u)
  then have "\<not> lsCancelled t" using cancelled_step by blast
  then show ?case using step stuck_forever stuck_unserved by fastforce
qed simp

section \<open>When it does end\<close>

lemma step_then: "lock_step s t \<Longrightarrow> \<exists>s'. lock_step\<^sup>*\<^sup>* t s' \<and> P s' \<Longrightarrow> \<exists>s'. lock_step\<^sup>*\<^sup>* s s' \<and> P s'"
  by (blast intro: converse_rtranclp_into_rtranclp)

lemma run_then: "lock_step\<^sup>*\<^sup>* s t \<Longrightarrow> \<exists>s'. lock_step\<^sup>*\<^sup>* t s' \<and> P s' \<Longrightarrow> \<exists>s'. lock_step\<^sup>*\<^sup>* s s' \<and> P s'"
  by (blast intro: rtranclp_trans)

lemma sweep_one:
  assumes "sweeping (c # cs) s" "room s"
  shows "lock_step s (s\<lparr>usU := resubscribe [c] (usU s), lsEst := ESweep cs\<rparr>)"
    "sweeping cs (s\<lparr>usU := resubscribe [c] (usU s), lsEst := ESweep cs\<rparr>)"
  using assms by (auto simp: sweeping_def intro: lock_step.est_sweep simp del: resubscribe.simps)

text \<open>The send loop comes to take one message, whatever it was at.\<close>

lemma drain_one:
  assumes "sweeping cs s" "sender_room s = 1" "upSendCh (usU s) = m # ms" "upReconnecting (usU s)"
  shows "\<exists>s'. lock_step\<^sup>*\<^sup>* s s' \<and> sweeping cs s' \<and> upSendCh (usU s') = ms \<and> lsCap s' = lsCap s"
proof -
  have take: "\<exists>s'. lock_step\<^sup>*\<^sup>* t s' \<and> sweeping cs s' \<and> upSendCh (usU s') = ms \<and> lsCap s' = lsCap s"
    if "usSend t = SIdle" "sweeping cs t" "upSendCh (usU t) = m # ms" "lsCap t = lsCap s" for t
    using lock_step.send_take [OF that(1,3)] that by (intro exI [of _ "t\<lparr>usU := (usU t)\<lparr>upSendCh := ms\<rparr>, usSend := STaken m\<rparr>"])
      (auto simp: sweeping_def)
  have down2: "\<exists>s'. lock_step\<^sup>*\<^sup>* t s' \<and> sweeping cs s' \<and> upSendCh (usU s') = ms \<and> lsCap s' = lsCap s"
    if t: "usSend t = SDown2" "sweeping cs t" "upSendCh (usU t) = m # ms" "lsCap t = lsCap s" "upReconnecting (usU t)" for t
  proof -
    have "lock_step t (t\<lparr>usU := usU t, usSend := SIdle\<rparr>)"
      by (rule lock_step.send_cas [OF t(1)]) (simp add: try_reconnecting_def t(5))
    moreover have "\<exists>s'. lock_step\<^sup>*\<^sup>* (t\<lparr>usU := usU t, usSend := SIdle\<rparr>) s' \<and> sweeping cs s' \<and> upSendCh (usU s') = ms \<and> lsCap s' = lsCap s"
      by (rule take) (use t in \<open>simp_all add: sweeping_def\<close>)
    ultimately show ?thesis by (rule step_then)
  qed
  show ?thesis
  proof (cases "usSend s")
    case SIdle
    then show ?thesis using take assms(1,3) by blast
  next
    case (SSending m' i)
    let ?t = "s\<lparr>usSend := SIdle, usLog := (usLog s)(i := usLog s i @ [m'])\<rparr>"
    have "lock_step s ?t" by (rule lock_step.send_sent [OF SSending])
    moreover have "\<exists>s'. lock_step\<^sup>*\<^sup>* ?t s' \<and> sweeping cs s' \<and> upSendCh (usU s') = ms \<and> lsCap s' = lsCap s"
      by (rule take) (use assms in \<open>simp_all add: sweeping_def\<close>)
    ultimately show ?thesis by (rule step_then)
  next
    case SDown1
    let ?t = "s\<lparr>usU := drop_flag (usU s), usSend := SDown2\<rparr>"
    have "lock_step s ?t" by (rule lock_step.send_flag [OF SDown1])
    moreover have "\<exists>s'. lock_step\<^sup>*\<^sup>* ?t s' \<and> sweeping cs s' \<and> upSendCh (usU s') = ms \<and> lsCap s' = lsCap s"
      by (rule down2) (use assms in \<open>simp_all add: sweeping_def drop_flag_def\<close>)
    ultimately show ?thesis by (rule step_then)
  next
    case SDown2
    then show ?thesis using down2 assms by blast
  qed (use assms in \<open>simp_all add: sender_room_def\<close>)
qed

lemma sweep_room:
  assumes "sweeping cs s" "length (upSendCh (usU s)) + length cs \<le> lsCap s"
  shows "\<exists>s'. lock_step\<^sup>*\<^sup>* s s' \<and> lsEst s' = EDone True \<and> \<not> lsCancelled s'"
  using assms
proof (induction cs arbitrary: s)
  case Nil
  then show ?case using lock_step.est_done [of s] by (intro exI [of _ "s\<lparr>usU := (usU s)\<lparr>upConnected := True\<rparr>, lsEst := EDone True\<rparr>"])
    (auto simp: sweeping_def)
next
  case (Cons c cs)
  let ?t = "s\<lparr>usU := resubscribe [c] (usU s), lsEst := ESweep cs\<rparr>"
  have "room s" using Cons.prems(2) by (simp add: room_def)
  note one = sweep_one [OF Cons.prems(1) this]
  have "\<exists>s'. lock_step\<^sup>*\<^sup>* ?t s' \<and> lsEst s' = EDone True \<and> \<not> lsCancelled s'"
    by (rule Cons.IH [OF one(2)]) (use Cons.prems(2) in \<open>simp add: resubscribe_length del: resubscribe.simps\<close>)
  then show ?case by (rule step_then [OF one(1)])
qed

lemma sweep_fits:
  assumes "sweeping cs s" "length (upSendCh (usU s)) + length cs \<le> lsCap s + sender_room s" "upReconnecting (usU s)" "0 < lsCap s"
    and "length (upSendCh (usU s)) \<le> lsCap s"
  shows "\<exists>s'. lock_step\<^sup>*\<^sup>* s s' \<and> lsEst s' = EDone True \<and> \<not> lsCancelled s'"
proof (cases "length (upSendCh (usU s)) + length cs \<le> lsCap s")
  case True
  then show ?thesis by (rule sweep_room [OF assms(1)])
next
  case over: False
  have idle: "sender_room s = 1" using over assms(2) by (auto simp: sender_room_def split: send_pc.splits)
  show ?thesis
  proof (cases "upSendCh (usU s)")
    case (Cons m ms)
    from drain_one [OF assms(1) idle Cons assms(3)] obtain t
      where t: "lock_step\<^sup>*\<^sup>* s t" "sweeping cs t" "upSendCh (usU t) = ms" "lsCap t = lsCap s" by blast
    have "\<exists>s'. lock_step\<^sup>*\<^sup>* t s' \<and> lsEst s' = EDone True \<and> \<not> lsCancelled s'"
      by (rule sweep_room [OF t(2)]) (use t Cons assms(2) idle in simp)
    then show ?thesis by (rule run_then [OF t(1)])
  next
    case Nil
    then obtain c cs' where cs: "cs = c # cs'" using over by (cases cs) auto
    let ?t = "s\<lparr>usU := resubscribe [c] (usU s), lsEst := ESweep cs'\<rparr>"
    have "room s" using Nil assms(4) by (simp add: room_def)
    note one = sweep_one [OF assms(1) [unfolded cs] this]
    have ch: "upSendCh (usU ?t) = [UpSubscribe c (gget (upLastSeen (usU s)) c)]"
      using Nil by (simp add: resubscribe_msgs del: resubscribe.simps)
    have "sender_room ?t = 1" "upReconnecting (usU ?t)" using idle assms(3) by (simp_all add: sender_room_def del: resubscribe.simps)
    from drain_one [OF one(2) this(1) ch this(2)] obtain t
      where t: "lock_step\<^sup>*\<^sup>* ?t t" "sweeping cs' t" "upSendCh (usU t) = []" "lsCap t = lsCap s" by auto
    have "\<exists>s'. lock_step\<^sup>*\<^sup>* t s' \<and> lsEst s' = EDone True \<and> \<not> lsCancelled s'"
      by (rule sweep_room [OF t(2)]) (use t cs Nil assms(2) idle in simp)
    then show ?thesis by (intro step_then [OF one(1)] run_then [OF t(1)])
  qed
qed

section \<open>The deadlock\<close>

text \<open>
  (C32) A relay with many channels hangs when it reconnects: the resubscribing sweep holds the lock that
  the send loop needs to drain the channel the sweep fills. From a state in which the sweep has the
  channels \<open>cs\<close> still to ask for, an execution without \<^verbatim>\<open>Stop\<close> completes it if and only if they
  fit into the channel next to what is in it, with one more when the send loop can still take one.
  Otherwise, in every execution, until \<^verbatim>\<open>Stop\<close> cancels the context, both locks stay held (so that no
  \<^verbatim>\<open>Subscribe\<close>, \<^verbatim>\<open>Unsubscribe\<close>, send or receive gets on), the connection is not marked up, and
  nothing is sent on the stream just opened.
\<close>

theorem reconnect_deadlock:
  assumes "sweeping cs s" "upReconnecting (usU s)" "0 < lsCap s" "length (upSendCh (usU s)) \<le> lsCap s"
  shows "((\<exists>s'. lock_step\<^sup>*\<^sup>* s s' \<and> lsEst s' = EDone True \<and> \<not> lsCancelled s')
      \<longleftrightarrow> length (upSendCh (usU s)) + length cs \<le> lsCap s + sender_room s)
    \<and> (lsCap s + sender_room s < length (upSendCh (usU s)) + length cs \<longrightarrow>
        (\<forall>s'. lock_step\<^sup>*\<^sup>* s s' \<longrightarrow> lsCancelled s' \<or>
          (\<not> streamMu_free s' \<and> \<not> subsMu_free s' \<and> \<not> upConnected (usU s') \<and> (\<forall>i. unserved i s \<longrightarrow> usLog s' i = usLog s i))))"
proof (cases "length (upSendCh (usU s)) + length cs \<le> lsCap s + sender_room s")
  case True
  then show ?thesis using sweep_fits [OF assms(1) True assms(2-4)] by auto
next
  case False
  then have st: "stuck s" using assms(1,4) unfolding stuck_def by (intro exI [of _ cs]) auto
  have held: "\<not> streamMu_free s' \<and> \<not> subsMu_free s' \<and> \<not> upConnected (usU s') \<and> lsEst s' \<noteq> EDone True
      \<and> (\<forall>i. unserved i s \<longrightarrow> usLog s' i = usLog s i)" if run: "lock_step\<^sup>*\<^sup>* s s'" "\<not> lsCancelled s'" for s'
  proof -
    have "stuck s'" using stuck_forever [OF run(1) st] run(2) by blast
    then show ?thesis using stuck_unserved_forever [OF run(1) st _ run(2)]
      by (auto simp: stuck_def sweeping_def streamMu_free_def subsMu_free_def)
  qed
  with False show ?thesis by blast
qed

text \<open>A relay with 258 channels loses its upstream: a reconnect opens the stream 1 and hangs.\<close>

definition many_channels :: lstate where
  "many_channels = \<lparr>usU = (NewUpstream [] \<lparr>rpInitialDelay = 1, rpMaxDelay = 1, rpMaxRetries = 0\<rparr>)
       \<lparr>upSubscriptions := map (\<lambda>i. (replicate i CHR ''a'', 1)) [0..<258], upReconnecting := True\<rparr>,
     usSend = SIdle, usRecv = RIdle, usReconnect = Trying 0 1, usNext = 1, usLog = (\<lambda>_. []),
     lsCap = sendCh_cap, lsEst = EWait, lsClient = None, lsPubs = [], lsCancelled = False\<rparr>"

theorem reconnect_deadlock_witness:
  "\<exists>s. lock_step\<^sup>*\<^sup>* many_channels s \<and> upStream (usU s) = Some 1
     \<and> (\<forall>s'. lock_step\<^sup>*\<^sup>* s s' \<longrightarrow> lsCancelled s' \<or> \<not> streamMu_free s' \<and> usLog s' 1 = [])"
proof -
  let ?cs = "map (\<lambda>i. replicate i CHR ''a'') [0..<258]"
  let ?s1 = "many_channels\<lparr>usU := (usU many_channels)\<lparr>upStream := Some 1\<rparr>, usNext := Suc 1, lsEst := EOpened\<rparr>"
  let ?s2 = "?s1\<lparr>lsEst := ESubs\<rparr>" and ?s3 = "?s1\<lparr>lsEst := ESweep ?cs\<rparr>"
  have "lock_step many_channels ?s1" using lock_step.est_open [of many_channels] by (simp add: many_channels_def)
  moreover have "lock_step ?s1 ?s2" using lock_step.est_connect [of ?s1] by (simp add: many_channels_def NewUpstream_def)
  moreover have "lock_step ?s2 ?s3" using lock_step.est_subs [of ?s2] by (simp add: many_channels_def comp_def)
  ultimately have run: "lock_step\<^sup>*\<^sup>* many_channels ?s3" by (meson converse_rtranclp_into_rtranclp rtranclp.rtrancl_refl)
  have s3: "sweeping ?cs ?s3" "upReconnecting (usU ?s3)" "0 < lsCap ?s3" "length (upSendCh (usU ?s3)) \<le> lsCap ?s3" "unserved 1 ?s3"
      "\<not> length (upSendCh (usU ?s3)) + length ?cs \<le> lsCap ?s3 + sender_room ?s3"
    by (simp_all add: sweeping_def many_channels_def NewUpstream_def sendCh_cap_def sender_room_def unserved_def)
  have "upStream (usU ?s3) = Some 1" "usLog ?s3 1 = []" by (simp_all add: many_channels_def)
  moreover have "lsCancelled s' \<or> \<not> streamMu_free s' \<and> usLog s' 1 = usLog ?s3 1" if "lock_step\<^sup>*\<^sup>* ?s3 s'" for s'
    using reconnect_deadlock [OF s3(1-4)] s3(5,6) that by (meson not_le)
  ultimately show ?thesis using run by (intro exI [of _ ?s3]) auto
qed

end
