(* ===== verification/Configuration.thy ===== *)
theory Configuration
  imports Complex_Main Namespace
begin

text \<open>
  Model of \<^verbatim>\<open>internal/config\<close> and \<^verbatim>\<open>internal/logs/parse.go\<close>: the settings document, its overlay on the
  defaults and its validation. The YAML decoder is a parameter that answers the decoded document and
  its error; \<open>getenv\<close> is the environment and \<open>readFile\<close> the file system. An absent key is \<open>None\<close>,
  durations are nanoseconds, and a \<^verbatim>\<open>float64\<close> is its value.
\<close>

section \<open>Log levels and formats\<close>

datatype Level = LevelDebug | LevelInfo | LevelWarn | LevelError
datatype Format = FormatText | FormatJSON

text \<open>
  \<^verbatim>\<open>strings.ToLower\<close> on UTF-8 bytes, as far as its ASCII result goes: besides the Latin capitals, only
  U+0130 and U+212A have a lower case in ASCII. Every other non-ASCII byte is left as it is.
\<close>

definition lower_byte :: "char \<Rightarrow> char" where
  "lower_byte c = (let n = (of_char c :: nat) in if 65 \<le> n \<and> n \<le> 90 then char_of (n + 32) else c)"

fun ToLower :: "string \<Rightarrow> string" where
  "ToLower [] = []"
| "ToLower (c # s) =
     (if c = CHR 0xC4 \<and> take 1 s = [CHR 0xB0] then CHR ''i'' # ToLower (drop 1 s)
      else if c = CHR 0xE2 \<and> take 2 s = [CHR 0x84, CHR 0xAA] then CHR ''k'' # ToLower (drop 2 s)
      else lower_byte c # ToLower s)"

definition ParseLevel :: "string \<Rightarrow> string + Level" where
  "ParseLevel s =
     (let l = ToLower s
      in if l = ''debug'' then Inr LevelDebug
         else if l = ''info'' then Inr LevelInfo
         else if l = ''warn'' \<or> l = ''warning'' then Inr LevelWarn
         else if l = ''error'' then Inr LevelError
         else Inl s)"

definition ParseFormat :: "string \<Rightarrow> string + Format" where
  "ParseFormat s =
     (let l = ToLower s
      in if l = ''text'' then Inr FormatText else if l = ''json'' then Inr FormatJSON else Inl s)"

section \<open>The settings\<close>

datatype float64 = Finite rat | PosInf | NegInf | NaN

text \<open>The Go comparison with zero: false for \<^verbatim>\<open>NaN\<close>.\<close>

fun float_le_zero :: "float64 \<Rightarrow> bool" where
  "float_le_zero (Finite r) = (r \<le> 0)"
| "float_le_zero PosInf = False"
| "float_le_zero NegInf = True"
| "float_le_zero NaN = False"

record LogConfig =
  lcLevel :: Level
  lcFormat :: Format

record EngineConfig =
  ecShards :: int
  ecFanoutThreshold :: int
  ecFanoutWorkers :: int
  ecHistorySize :: int
  ecHistoryTTL :: int

record GCConfig =
  gcPacer :: bool
  gcMemLimit :: int
  gcSpikeGOGC :: int
  gcNormalGOGC :: int

record AuthConfig =
  acSecret :: string
  acDisabled :: bool

record WebSocketConfig =
  wcAddr :: string
  wcReadLimit :: int
  wcWriteTimeout :: int
  wcSendBuffer :: int

record TLSConfig =
  tlsCert :: string
  tlsKey :: string

record ServerConfig =
  svAddr :: string
  svMetricsAddr :: string
  svDebugAddr :: string
  svArena :: bool
  svMaxSessions :: int
  svPingInterval :: int
  svAuthDeadline :: int
  svTLS :: TLSConfig
  svMaxMessageSize :: int
  svMaxSubscriptions :: int

record UpstreamSettings =
  ucAddr :: string
  ucAuthToken :: string
  ucTLS :: bool
  ucCA :: string

record Reconnect =
  rcInitial :: int
  rcMax :: int
  rcMultiplier :: float64
  rcMaxRetries :: int

record RelayConfig =
  rlAddr :: string
  rlUpstream :: UpstreamSettings
  rlMetricsAddr :: string
  rlReconnect :: Reconnect
  rlBufferSize :: int
  rlIncomingBuffer :: int
  rlFanoutWorkers :: int
  rlArena :: bool
  rlMaxSessions :: int
  rlPingInterval :: int
  rlAuthDeadline :: int
  rlTLS :: TLSConfig
  rlMaxMessageSize :: int
  rlMaxSubscriptions :: int

text \<open>The document \<^verbatim>\<open>config.Config\<close>; \<^verbatim>\<open>Metrics\<close> has one field.\<close>

record Gentis =
  gLog :: LogConfig
  gMetricsEnabled :: bool
  gEngine :: EngineConfig
  gGC :: GCConfig
  gAuth :: AuthConfig
  gWebSocket :: WebSocketConfig
  gServer :: ServerConfig
  gRelay :: RelayConfig
  gNamespaces :: "Registry option"

definition time_millisecond :: int where
  "time_millisecond = 1000000"

definition Defaults :: Gentis where
  "Defaults = \<lparr>
     gLog = \<lparr>lcLevel = LevelInfo, lcFormat = FormatText\<rparr>,
     gMetricsEnabled = True,
     gEngine = \<lparr>ecShards = 0, ecFanoutThreshold = 100000, ecFanoutWorkers = 4, ecHistorySize = 0, ecHistoryTTL = 0\<rparr>,
     gGC = \<lparr>gcPacer = False, gcMemLimit = 0, gcSpikeGOGC = 400, gcNormalGOGC = 100\<rparr>,
     gAuth = \<lparr>acSecret = [], acDisabled = False\<rparr>,
     gWebSocket = \<lparr>wcAddr = [], wcReadLimit = 65536, wcWriteTimeout = 10 * time_second, wcSendBuffer = 256\<rparr>,
     gServer = \<lparr>svAddr = ''0.0.0.0:9000'', svMetricsAddr = '':8080'', svDebugAddr = [], svArena = False, svMaxSessions = 16384,
       svPingInterval = 25 * time_second, svAuthDeadline = 30 * time_second, svTLS = \<lparr>tlsCert = [], tlsKey = []\<rparr>,
       svMaxMessageSize = 65536, svMaxSubscriptions = 16\<rparr>,
     gRelay = \<lparr>rlAddr = ''127.0.0.1:9001'', rlUpstream = \<lparr>ucAddr = [], ucAuthToken = [], ucTLS = False, ucCA = []\<rparr>,
       rlMetricsAddr = '':8081'',
       rlReconnect = \<lparr>rcInitial = 100 * time_millisecond, rcMax = 30 * time_second, rcMultiplier = Finite 2, rcMaxRetries = 0\<rparr>,
       rlBufferSize = 256, rlIncomingBuffer = 4096, rlFanoutWorkers = 4, rlArena = False, rlMaxSessions = 16384,
       rlPingInterval = 25 * time_second, rlAuthDeadline = 30 * time_second, rlTLS = \<lparr>tlsCert = [], tlsKey = []\<rparr>,
       rlMaxMessageSize = 65536, rlMaxSubscriptions = 16\<rparr>,
     gNamespaces = None\<rparr>"

section \<open>Validation\<close>

text \<open>An error names the setting it is about.\<close>

datatype config_error =
    ErrInvalid string
  | ErrAuthConflict
  | ErrAuthNotConfigured
  | ErrTLSIncomplete string
  | ErrUpstreamRequired
  | ErrNamespaces ns_error
  | ErrRead
  | ErrParse

definition validate_Engine :: "EngineConfig \<Rightarrow> config_error option" where
  "validate_Engine e =
     (if ecShards e < 0 then Some (ErrInvalid ''engine.shards'')
      else if ecFanoutThreshold e < 0 then Some (ErrInvalid ''engine.fanout_threshold'')
      else if ecFanoutWorkers e \<le> 0 then Some (ErrInvalid ''engine.fanout_workers'')
      else if ecHistorySize e < 0 then Some (ErrInvalid ''engine.history_size'')
      else if ecHistoryTTL e < 0 then Some (ErrInvalid ''engine.history_ttl'')
      else if ecHistoryTTL e > 0 \<and> ecHistorySize e \<le> 0 then Some (ErrInvalid ''engine.history_ttl'')
      else None)"

definition validate_GC :: "GCConfig \<Rightarrow> config_error option" where
  "validate_GC g =
     (if gcMemLimit g < 0 then Some (ErrInvalid ''gc.mem_limit'')
      else if gcSpikeGOGC g \<le> 0 then Some (ErrInvalid ''gc.spike_gogc'')
      else if gcNormalGOGC g \<le> 0 then Some (ErrInvalid ''gc.normal_gogc'')
      else None)"

definition validate_Auth :: "AuthConfig \<Rightarrow> config_error option" where
  "validate_Auth a =
     (if acDisabled a \<and> acSecret a \<noteq> [] then Some ErrAuthConflict
      else if \<not> acDisabled a \<and> acSecret a = [] then Some ErrAuthNotConfigured
      else None)"

definition validate_WebSocket :: "WebSocketConfig \<Rightarrow> config_error option" where
  "validate_WebSocket w =
     (if wcReadLimit w < 0 then Some (ErrInvalid ''websocket.read_limit'')
      else if wcWriteTimeout w < 0 then Some (ErrInvalid ''websocket.write_timeout'')
      else if wcSendBuffer w < 0 then Some (ErrInvalid ''websocket.send_buffer'')
      else None)"

definition validate_TLS :: "string \<Rightarrow> TLSConfig \<Rightarrow> config_error option" where
  "validate_TLS section t = (if (tlsCert t = []) \<noteq> (tlsKey t = []) then Some (ErrTLSIncomplete section) else None)"

definition validate_Server :: "ServerConfig \<Rightarrow> config_error option" where
  "validate_Server s =
     (if svMaxSessions s < 0 then Some (ErrInvalid ''server.max_sessions'')
      else if svPingInterval s < 0 then Some (ErrInvalid ''server.ping_interval'')
      else if svAuthDeadline s < 0 then Some (ErrInvalid ''server.auth_deadline'')
      else if svMaxMessageSize s < 0 then Some (ErrInvalid ''server.max_message_size'')
      else if svMaxSubscriptions s < 0 then Some (ErrInvalid ''server.max_subscriptions'')
      else validate_TLS ''server'' (svTLS s))"

definition validate_Reconnect :: "Reconnect \<Rightarrow> config_error option" where
  "validate_Reconnect rc =
     (if rcInitial rc < 0 then Some (ErrInvalid ''relay.reconnect.initial'')
      else if rcMax rc < 0 then Some (ErrInvalid ''relay.reconnect.max'')
      else if float_le_zero (rcMultiplier rc) then Some (ErrInvalid ''relay.reconnect.multiplier'')
      else if rcMaxRetries rc < 0 then Some (ErrInvalid ''relay.reconnect.max_retries'')
      else None)"

definition validateTransport :: "RelayConfig \<Rightarrow> config_error option" where
  "validateTransport r =
     (if rlPingInterval r < 0 then Some (ErrInvalid ''relay.ping_interval'')
      else if rlAuthDeadline r < 0 then Some (ErrInvalid ''relay.auth_deadline'')
      else if rlMaxMessageSize r < 0 then Some (ErrInvalid ''relay.max_message_size'')
      else if rlMaxSubscriptions r < 0 then Some (ErrInvalid ''relay.max_subscriptions'')
      else None)"

text \<open>The first of several checks that fails.\<close>

fun first_error :: "config_error option list \<Rightarrow> config_error option" where
  "first_error [] = None"
| "first_error (x # xs) = (case x of Some e \<Rightarrow> Some e | None \<Rightarrow> first_error xs)"

definition validate_Relay :: "RelayConfig \<Rightarrow> config_error option" where
  "validate_Relay r =
     (if rlBufferSize r \<le> 0 then Some (ErrInvalid ''relay.buffer_size'')
      else if rlIncomingBuffer r \<le> 0 then Some (ErrInvalid ''relay.incoming_buffer'')
      else if rlFanoutWorkers r \<le> 0 then Some (ErrInvalid ''relay.fanout_workers'')
      else if rlMaxSessions r < 0 then Some (ErrInvalid ''relay.max_sessions'')
      else first_error [validateTransport r, validate_Reconnect (rlReconnect r), validate_TLS ''relay'' (rlTLS r)])"

definition validate_Gentis :: "Gentis \<Rightarrow> config_error option" where
  "validate_Gentis c = first_error [validate_Engine (gEngine c), validate_GC (gGC c), validate_Auth (gAuth c),
     validate_WebSocket (gWebSocket c), validate_Server (gServer c), validate_Relay (gRelay c)]"

definition RelayReady :: "Gentis \<Rightarrow> config_error option" where
  "RelayReady c = (if ucAddr (rlUpstream (gRelay c)) = [] then Some ErrUpstreamRequired else None)"

section \<open>The overlay\<close>

record logYAML =
  lyLevel :: "string option"
  lyFormat :: "string option"

record engineYAML =
  eyShards :: "int option"
  eyFanoutThreshold :: "int option"
  eyFanoutWorkers :: "int option"
  eyHistorySize :: "int option"
  eyHistoryTTL :: "int option"

record gcYAML =
  gyPacer :: "bool option"
  gyMemLimit :: "int option"
  gySpikeGOGC :: "int option"
  gyNormalGOGC :: "int option"

record authYAML =
  ayHMACSecret :: "string option"
  ayHMACSecretEnv :: "string option"
  ayDisabled :: "bool option"

record tlsYAML =
  tyCert :: "string option"
  tyKey :: "string option"

record wsYAML =
  wyAddr :: "string option"
  wyReadLimit :: "int option"
  wyWriteTimeout :: "int option"
  wySendBuffer :: "int option"

record serverYAML =
  syAddr :: "string option"
  syMetricsAddr :: "string option"
  syDebugAddr :: "string option"
  syArena :: "bool option"
  syMaxSessions :: "int option"
  syPingInterval :: "int option"
  syAuthDeadline :: "int option"
  syTLS :: "tlsYAML option"
  syMaxMessageSize :: "int option"
  syMaxSubscriptions :: "int option"

record upstreamYAML =
  uyAddr :: "string option"
  uyAuthToken :: "string option"
  uyTLS :: "bool option"
  uyCA :: "string option"

record reconnectYAML =
  ryInitial :: "int option"
  ryMax :: "int option"
  ryMultiplier :: "float64 option"
  ryMaxRetries :: "int option"

record relayYAML =
  ryAddr :: "string option"
  ryUpstream :: "upstreamYAML option"
  ryMetricsAddr :: "string option"
  ryReconnect :: "reconnectYAML option"
  ryBufferSize :: "int option"
  ryIncomingBuffer :: "int option"
  ryFanoutWorkers :: "int option"
  ryArena :: "bool option"
  ryMaxSessions :: "int option"
  ryPingInterval :: "int option"
  ryAuthDeadline :: "int option"
  ryTLS :: "tlsYAML option"
  ryMaxMessageSize :: "int option"
  ryMaxSubscriptions :: "int option"

text \<open>The document; the metrics section has one key.\<close>

record fileYAML =
  fyLog :: "logYAML option"
  fyMetrics :: "bool option option"
  fyEngine :: "engineYAML option"
  fyGC :: "gcYAML option"
  fyAuth :: "authYAML option"
  fyWebSocket :: "wsYAML option"
  fyServer :: "serverYAML option"
  fyRelay :: "relayYAML option"
  fyNamespaces :: ConfigYAML

text \<open>\<^verbatim>\<open>setString\<close>, \<^verbatim>\<open>setInt\<close>, \<^verbatim>\<open>setInt64\<close>, \<^verbatim>\<open>setBool\<close>, \<^verbatim>\<open>setFloat64\<close> and \<^verbatim>\<open>setDuration\<close>: the new value of the target.\<close>

definition set_value :: "'a option \<Rightarrow> 'a \<Rightarrow> 'a" where
  "set_value src dst = (case src of None \<Rightarrow> dst | Some v \<Rightarrow> v)"

definition applyLog :: "logYAML option \<Rightarrow> LogConfig \<Rightarrow> config_error + LogConfig" where
  "applyLog y l =
     (case y of
        None \<Rightarrow> Inr l
      | Some y \<Rightarrow>
          (case (case lyLevel y of None \<Rightarrow> Inr l | Some v \<Rightarrow>
                   (case ParseLevel v of Inl _ \<Rightarrow> Inl (ErrInvalid ''log.level'') | Inr level \<Rightarrow> Inr (l\<lparr>lcLevel := level\<rparr>))) of
             Inl e \<Rightarrow> Inl e
           | Inr l1 \<Rightarrow>
               (case lyFormat y of None \<Rightarrow> Inr l1 | Some v \<Rightarrow>
                  (case ParseFormat v of Inl _ \<Rightarrow> Inl (ErrInvalid ''log.format'') | Inr format \<Rightarrow> Inr (l1\<lparr>lcFormat := format\<rparr>)))))"

definition applyMetrics :: "bool option option \<Rightarrow> bool \<Rightarrow> bool" where
  "applyMetrics y m = (case y of None \<Rightarrow> m | Some enabled \<Rightarrow> set_value enabled m)"

definition applyEngine :: "engineYAML option \<Rightarrow> EngineConfig \<Rightarrow> EngineConfig" where
  "applyEngine y e =
     (case y of None \<Rightarrow> e | Some y \<Rightarrow>
        e\<lparr>ecShards := set_value (eyShards y) (ecShards e),
          ecFanoutThreshold := set_value (eyFanoutThreshold y) (ecFanoutThreshold e),
          ecFanoutWorkers := set_value (eyFanoutWorkers y) (ecFanoutWorkers e),
          ecHistorySize := set_value (eyHistorySize y) (ecHistorySize e),
          ecHistoryTTL := set_value (eyHistoryTTL y) (ecHistoryTTL e)\<rparr>)"

definition applyGC :: "gcYAML option \<Rightarrow> GCConfig \<Rightarrow> GCConfig" where
  "applyGC y g =
     (case y of None \<Rightarrow> g | Some y \<Rightarrow>
        g\<lparr>gcPacer := set_value (gyPacer y) (gcPacer g),
          gcMemLimit := set_value (gyMemLimit y) (gcMemLimit g),
          gcSpikeGOGC := set_value (gySpikeGOGC y) (gcSpikeGOGC g),
          gcNormalGOGC := set_value (gyNormalGOGC y) (gcNormalGOGC g)\<rparr>)"

definition defaultHMACSecretEnv :: string where
  "defaultHMACSecretEnv = ''GENTIS_AUTH_HMAC_SECRET''"

definition applyAuth :: "(string \<Rightarrow> string) \<Rightarrow> authYAML option \<Rightarrow> AuthConfig \<Rightarrow> AuthConfig" where
  "applyAuth getenv y a0 =
     (let (secretEnv, a) =
        (case y of
           None \<Rightarrow> (defaultHMACSecretEnv, a0)
         | Some y \<Rightarrow>
             (set_value (ayHMACSecretEnv y) defaultHMACSecretEnv,
              a0\<lparr>acDisabled := set_value (ayDisabled y) (acDisabled a0), acSecret := set_value (ayHMACSecret y) (acSecret a0)\<rparr>))
      in if acSecret a = [] \<and> secretEnv \<noteq> [] then a\<lparr>acSecret := getenv secretEnv\<rparr> else a)"

definition applyWebSocket :: "wsYAML option \<Rightarrow> WebSocketConfig \<Rightarrow> WebSocketConfig" where
  "applyWebSocket y w =
     (case y of None \<Rightarrow> w | Some y \<Rightarrow>
        w\<lparr>wcAddr := set_value (wyAddr y) (wcAddr w),
          wcReadLimit := set_value (wyReadLimit y) (wcReadLimit w),
          wcWriteTimeout := set_value (wyWriteTimeout y) (wcWriteTimeout w),
          wcSendBuffer := set_value (wySendBuffer y) (wcSendBuffer w)\<rparr>)"

definition applyTLS :: "tlsYAML option \<Rightarrow> TLSConfig \<Rightarrow> TLSConfig" where
  "applyTLS y t =
     (case y of None \<Rightarrow> t | Some y \<Rightarrow>
        t\<lparr>tlsCert := set_value (tyCert y) (tlsCert t), tlsKey := set_value (tyKey y) (tlsKey t)\<rparr>)"

definition applyServer :: "serverYAML option \<Rightarrow> ServerConfig \<Rightarrow> ServerConfig" where
  "applyServer y s =
     (case y of None \<Rightarrow> s | Some y \<Rightarrow>
        s\<lparr>svAddr := set_value (syAddr y) (svAddr s),
          svMetricsAddr := set_value (syMetricsAddr y) (svMetricsAddr s),
          svDebugAddr := set_value (syDebugAddr y) (svDebugAddr s),
          svArena := set_value (syArena y) (svArena s),
          svMaxSessions := set_value (syMaxSessions y) (svMaxSessions s),
          svPingInterval := set_value (syPingInterval y) (svPingInterval s),
          svAuthDeadline := set_value (syAuthDeadline y) (svAuthDeadline s),
          svMaxMessageSize := set_value (syMaxMessageSize y) (svMaxMessageSize s),
          svMaxSubscriptions := set_value (syMaxSubscriptions y) (svMaxSubscriptions s),
          svTLS := applyTLS (syTLS y) (svTLS s)\<rparr>)"

definition applyUpstream :: "upstreamYAML option \<Rightarrow> UpstreamSettings \<Rightarrow> UpstreamSettings" where
  "applyUpstream y u =
     (case y of None \<Rightarrow> u | Some y \<Rightarrow>
        u\<lparr>ucAddr := set_value (uyAddr y) (ucAddr u),
          ucAuthToken := set_value (uyAuthToken y) (ucAuthToken u),
          ucTLS := set_value (uyTLS y) (ucTLS u),
          ucCA := set_value (uyCA y) (ucCA u)\<rparr>)"

definition applyReconnect :: "reconnectYAML option \<Rightarrow> Reconnect \<Rightarrow> Reconnect" where
  "applyReconnect y rc =
     (case y of None \<Rightarrow> rc | Some y \<Rightarrow>
        rc\<lparr>rcInitial := set_value (ryInitial y) (rcInitial rc),
           rcMax := set_value (ryMax y) (rcMax rc),
           rcMultiplier := set_value (ryMultiplier y) (rcMultiplier rc),
           rcMaxRetries := set_value (ryMaxRetries y) (rcMaxRetries rc)\<rparr>)"

definition applyRelay :: "relayYAML option \<Rightarrow> RelayConfig \<Rightarrow> RelayConfig" where
  "applyRelay y r =
     (case y of None \<Rightarrow> r | Some y \<Rightarrow>
        r\<lparr>rlAddr := set_value (ryAddr y) (rlAddr r),
          rlMetricsAddr := set_value (ryMetricsAddr y) (rlMetricsAddr r),
          rlBufferSize := set_value (ryBufferSize y) (rlBufferSize r),
          rlIncomingBuffer := set_value (ryIncomingBuffer y) (rlIncomingBuffer r),
          rlFanoutWorkers := set_value (ryFanoutWorkers y) (rlFanoutWorkers r),
          rlArena := set_value (ryArena y) (rlArena r),
          rlMaxSessions := set_value (ryMaxSessions y) (rlMaxSessions r),
          rlPingInterval := set_value (ryPingInterval y) (rlPingInterval r),
          rlAuthDeadline := set_value (ryAuthDeadline y) (rlAuthDeadline r),
          rlMaxMessageSize := set_value (ryMaxMessageSize y) (rlMaxMessageSize r),
          rlMaxSubscriptions := set_value (ryMaxSubscriptions y) (rlMaxSubscriptions r),
          rlTLS := applyTLS (ryTLS y) (rlTLS r),
          rlUpstream := applyUpstream (ryUpstream y) (rlUpstream r),
          rlReconnect := applyReconnect (ryReconnect y) (rlReconnect r)\<rparr>)"

definition apply_file :: "(string \<Rightarrow> string) \<Rightarrow> fileYAML \<Rightarrow> Gentis \<Rightarrow> config_error + Gentis" where
  "apply_file getenv f c =
     (case applyLog (fyLog f) (gLog c) of
        Inl e \<Rightarrow> Inl e
      | Inr l \<Rightarrow>
          Inr (c\<lparr>gLog := l,
                 gMetricsEnabled := applyMetrics (fyMetrics f) (gMetricsEnabled c),
                 gEngine := applyEngine (fyEngine f) (gEngine c),
                 gGC := applyGC (fyGC f) (gGC c),
                 gWebSocket := applyWebSocket (fyWebSocket f) (gWebSocket c),
                 gServer := applyServer (fyServer f) (gServer c),
                 gRelay := applyRelay (fyRelay f) (gRelay c),
                 gAuth := applyAuth getenv (fyAuth f) (gAuth c)\<rparr>))"

section \<open>Loading\<close>

definition defaultSettingsSet :: "SettingsYAML \<Rightarrow> bool" where
  "defaultSettingsSet d \<longleftrightarrow>
     yHistorySize d \<noteq> None \<or> yHistoryTTL d \<noteq> None \<or> yAllowPublish d \<noteq> None \<or> yMaxSubscribers d \<noteq> None \<or> yQoS d \<noteq> None
     \<or> yFanout d \<noteq> None \<or> yAllowWildcard d \<noteq> None \<or> yRedeliveryTimeout d \<noteq> None \<or> yMaxRedeliveries d \<noteq> None \<or> yIdleReap d \<noteq> None"

definition namespaceSectionPresent :: "ConfigYAML \<Rightarrow> bool" where
  "namespaceSectionPresent c = (if yStrict c \<or> length (yNamespaces c) > 0 then True else defaultSettingsSet (yDefault c))"

definition validated :: "Gentis \<Rightarrow> config_error + Gentis" where
  "validated c = (case validate_Gentis c of Some e \<Rightarrow> Inl e | None \<Rightarrow> Inr c)"

definition DefaultConfig :: "(string \<Rightarrow> string) \<Rightarrow> config_error + Gentis" where
  "DefaultConfig getenv = validated (Defaults\<lparr>gAuth := applyAuth getenv None (gAuth Defaults)\<rparr>)"

datatype decode_error = EOF | SyntaxError

definition Load :: "(string \<Rightarrow> string) \<Rightarrow> (string \<Rightarrow> bytes option) \<Rightarrow> (bytes \<Rightarrow> fileYAML \<times> decode_error option) \<Rightarrow> string
    \<Rightarrow> config_error + Gentis" where
  "Load getenv readFile decode path =
     (case readFile path of
        None \<Rightarrow> Inl ErrRead
      | Some raw \<Rightarrow>
          (case decode raw of
             (fy, err) \<Rightarrow>
               if err \<noteq> None \<and> err \<noteq> Some EOF then Inl ErrParse
               else
                 (case apply_file getenv fy Defaults of
                    Inl e \<Rightarrow> Inl e
                  | Inr cfg \<Rightarrow>
                      if namespaceSectionPresent (fyNamespaces fy) then
                        (case Build (fyNamespaces fy) of
                           Inl e \<Rightarrow> Inl (ErrNamespaces e)
                         | Inr reg \<Rightarrow> validated (cfg\<lparr>gNamespaces := Some reg\<rparr>))
                      else validated cfg)))"

text \<open>The command line: the file named by \<^verbatim>\<open>--config\<close>, or the defaults.\<close>

definition loadConfig :: "(string \<Rightarrow> string) \<Rightarrow> (string \<Rightarrow> bytes option) \<Rightarrow> (bytes \<Rightarrow> fileYAML \<times> decode_error option) \<Rightarrow> string
    \<Rightarrow> config_error + Gentis" where
  "loadConfig getenv readFile decode path = (if path = [] then DefaultConfig getenv else Load getenv readFile decode path)"

section \<open>Every loaded document is well formed\<close>

definition auth_wf :: "AuthConfig \<Rightarrow> bool" where
  "auth_wf a \<longleftrightarrow> (acDisabled a \<longleftrightarrow> acSecret a = [])"

definition tls_wf :: "TLSConfig \<Rightarrow> bool" where
  "tls_wf t \<longleftrightarrow> (tlsCert t = [] \<longleftrightarrow> tlsKey t = [])"

definition engine_wf :: "EngineConfig \<Rightarrow> bool" where
  "engine_wf e \<longleftrightarrow> 0 \<le> ecShards e \<and> 0 \<le> ecFanoutThreshold e \<and> 0 < ecFanoutWorkers e \<and> 0 \<le> ecHistorySize e \<and> 0 \<le> ecHistoryTTL e
     \<and> (0 < ecHistoryTTL e \<longrightarrow> 0 < ecHistorySize e)"

definition server_wf :: "ServerConfig \<Rightarrow> bool" where
  "server_wf s \<longleftrightarrow> 0 \<le> svMaxSessions s \<and> 0 \<le> svPingInterval s \<and> 0 \<le> svAuthDeadline s \<and> 0 \<le> svMaxMessageSize s
     \<and> 0 \<le> svMaxSubscriptions s \<and> tls_wf (svTLS s)"

definition relay_wf :: "RelayConfig \<Rightarrow> bool" where
  "relay_wf r \<longleftrightarrow> 0 < rlBufferSize r \<and> 0 < rlIncomingBuffer r \<and> 0 < rlFanoutWorkers r \<and> 0 \<le> rlMaxSessions r
     \<and> 0 \<le> rlPingInterval r \<and> 0 \<le> rlAuthDeadline r \<and> 0 \<le> rlMaxMessageSize r \<and> 0 \<le> rlMaxSubscriptions r
     \<and> 0 \<le> rcInitial (rlReconnect r) \<and> 0 \<le> rcMax (rlReconnect r) \<and> \<not> float_le_zero (rcMultiplier (rlReconnect r))
     \<and> 0 \<le> rcMaxRetries (rlReconnect r) \<and> tls_wf (rlTLS r)"

definition settings_wf :: "Gentis \<Rightarrow> bool" where
  "settings_wf c \<longleftrightarrow> engine_wf (gEngine c)
     \<and> 0 \<le> gcMemLimit (gGC c) \<and> 0 < gcSpikeGOGC (gGC c) \<and> 0 < gcNormalGOGC (gGC c)
     \<and> auth_wf (gAuth c)
     \<and> 0 \<le> wcReadLimit (gWebSocket c) \<and> 0 \<le> wcWriteTimeout (gWebSocket c) \<and> 0 \<le> wcSendBuffer (gWebSocket c)
     \<and> server_wf (gServer c) \<and> relay_wf (gRelay c)"

lemma first_error_None: "first_error xs = None \<longleftrightarrow> (\<forall>x \<in> set xs. x = None)"
  by (induction xs) (auto split: option.splits)

lemma validate_None:
  "validate_Engine e = None \<longleftrightarrow> engine_wf e"
  "validate_Auth a = None \<longleftrightarrow> auth_wf a"
  "validate_TLS n t = None \<longleftrightarrow> tls_wf t"
  "validate_Server s = None \<longleftrightarrow> server_wf s"
  "validate_Relay r = None \<longleftrightarrow> relay_wf r"
proof -
  show tls: "validate_TLS n t = None \<longleftrightarrow> tls_wf t" for n t by (auto simp: validate_TLS_def tls_wf_def)
  show "validate_Engine e = None \<longleftrightarrow> engine_wf e" by (auto simp: validate_Engine_def engine_wf_def)
  show "validate_Auth a = None \<longleftrightarrow> auth_wf a" by (auto simp: validate_Auth_def auth_wf_def)
  show "validate_Server s = None \<longleftrightarrow> server_wf s" by (auto simp: validate_Server_def server_wf_def tls)
  have "validateTransport r = None \<longleftrightarrow> 0 \<le> rlPingInterval r \<and> 0 \<le> rlAuthDeadline r \<and> 0 \<le> rlMaxMessageSize r \<and> 0 \<le> rlMaxSubscriptions r"
    by (auto simp: validateTransport_def)
  moreover have "validate_Reconnect rc = None \<longleftrightarrow> 0 \<le> rcInitial rc \<and> 0 \<le> rcMax rc \<and> \<not> float_le_zero (rcMultiplier rc) \<and> 0 \<le> rcMaxRetries rc" for rc
    by (auto simp: validate_Reconnect_def)
  ultimately show "validate_Relay r = None \<longleftrightarrow> relay_wf r"
    by (simp add: validate_Relay_def first_error_None relay_wf_def tls not_le not_less del: first_error.simps)
qed

lemma validate_Gentis_iff: "validate_Gentis c = None \<longleftrightarrow> settings_wf c"
proof -
  have "validate_GC g = None \<longleftrightarrow> 0 \<le> gcMemLimit g \<and> 0 < gcSpikeGOGC g \<and> 0 < gcNormalGOGC g" for g by (auto simp: validate_GC_def)
  moreover have "validate_WebSocket w = None \<longleftrightarrow> 0 \<le> wcReadLimit w \<and> 0 \<le> wcWriteTimeout w \<and> 0 \<le> wcSendBuffer w" for w
    by (auto simp: validate_WebSocket_def)
  ultimately show ?thesis by (simp add: validate_Gentis_def first_error_None validate_None settings_wf_def del: first_error.simps)
qed

lemma validated_Inr: "validated c = Inr c' \<longleftrightarrow> c' = c \<and> settings_wf c"
  by (auto simp: validated_def validate_Gentis_iff [symmetric] split: option.splits)

lemma apply_file_namespaces: "apply_file getenv f c = Inr c' \<Longrightarrow> gNamespaces c' = gNamespaces c"
  by (auto simp: apply_file_def split: sum.splits)

definition namespaces_wf :: "Gentis \<Rightarrow> bool" where
  "namespaces_wf c \<longleftrightarrow> (\<forall>reg. gNamespaces c = Some reg \<longrightarrow> registry_ok reg)"

lemma loadConfig_ok:
  assumes "loadConfig getenv readFile decode path = Inr cfg"
  shows "settings_wf cfg \<and> namespaces_wf cfg"
proof (cases "path = []")
  case True
  then show ?thesis using assms by (auto simp: loadConfig_def DefaultConfig_def validated_Inr namespaces_wf_def Defaults_def)
next
  case False
  then show ?thesis using assms
    by (auto simp: loadConfig_def Load_def validated_Inr namespaces_wf_def Defaults_def dest: apply_file_namespaces Build_ok
        split: option.splits prod.splits sum.splits if_splits)
qed

section \<open>A document that spells everything out\<close>

fun level_name :: "Level \<Rightarrow> string" where
  "level_name LevelDebug = ''debug''"
| "level_name LevelInfo = ''info''"
| "level_name LevelWarn = ''warn''"
| "level_name LevelError = ''error''"

fun format_name :: "Format \<Rightarrow> string" where
  "format_name FormatText = ''text''"
| "format_name FormatJSON = ''json''"

definition tls_file :: "TLSConfig \<Rightarrow> tlsYAML" where
  "tls_file t = \<lparr>tyCert = Some (tlsCert t), tyKey = Some (tlsKey t)\<rparr>"

definition server_file :: "ServerConfig \<Rightarrow> serverYAML" where
  "server_file s = \<lparr>syAddr = Some (svAddr s), syMetricsAddr = Some (svMetricsAddr s), syDebugAddr = Some (svDebugAddr s),
     syArena = Some (svArena s), syMaxSessions = Some (svMaxSessions s), syPingInterval = Some (svPingInterval s),
     syAuthDeadline = Some (svAuthDeadline s), syTLS = Some (tls_file (svTLS s)), syMaxMessageSize = Some (svMaxMessageSize s),
     syMaxSubscriptions = Some (svMaxSubscriptions s)\<rparr>"

definition relay_file :: "RelayConfig \<Rightarrow> relayYAML" where
  "relay_file r = \<lparr>ryAddr = Some (rlAddr r),
     ryUpstream = Some \<lparr>uyAddr = Some (ucAddr (rlUpstream r)), uyAuthToken = Some (ucAuthToken (rlUpstream r)),
       uyTLS = Some (ucTLS (rlUpstream r)), uyCA = Some (ucCA (rlUpstream r))\<rparr>,
     ryMetricsAddr = Some (rlMetricsAddr r),
     ryReconnect = Some \<lparr>ryInitial = Some (rcInitial (rlReconnect r)), ryMax = Some (rcMax (rlReconnect r)),
       ryMultiplier = Some (rcMultiplier (rlReconnect r)), ryMaxRetries = Some (rcMaxRetries (rlReconnect r))\<rparr>,
     ryBufferSize = Some (rlBufferSize r), ryIncomingBuffer = Some (rlIncomingBuffer r), ryFanoutWorkers = Some (rlFanoutWorkers r),
     ryArena = Some (rlArena r), ryMaxSessions = Some (rlMaxSessions r), ryPingInterval = Some (rlPingInterval r),
     ryAuthDeadline = Some (rlAuthDeadline r), ryTLS = Some (tls_file (rlTLS r)), ryMaxMessageSize = Some (rlMaxMessageSize r),
     ryMaxSubscriptions = Some (rlMaxSubscriptions r)\<rparr>"

definition to_file :: "ConfigYAML \<Rightarrow> Gentis \<Rightarrow> fileYAML" where
  "to_file ns c = \<lparr>
     fyLog = Some \<lparr>lyLevel = Some (level_name (lcLevel (gLog c))), lyFormat = Some (format_name (lcFormat (gLog c)))\<rparr>,
     fyMetrics = Some (Some (gMetricsEnabled c)),
     fyEngine = Some \<lparr>eyShards = Some (ecShards (gEngine c)), eyFanoutThreshold = Some (ecFanoutThreshold (gEngine c)),
       eyFanoutWorkers = Some (ecFanoutWorkers (gEngine c)), eyHistorySize = Some (ecHistorySize (gEngine c)),
       eyHistoryTTL = Some (ecHistoryTTL (gEngine c))\<rparr>,
     fyGC = Some \<lparr>gyPacer = Some (gcPacer (gGC c)), gyMemLimit = Some (gcMemLimit (gGC c)), gySpikeGOGC = Some (gcSpikeGOGC (gGC c)),
       gyNormalGOGC = Some (gcNormalGOGC (gGC c))\<rparr>,
     fyAuth = Some \<lparr>ayHMACSecret = Some (acSecret (gAuth c)), ayHMACSecretEnv = Some [], ayDisabled = Some (acDisabled (gAuth c))\<rparr>,
     fyWebSocket = Some \<lparr>wyAddr = Some (wcAddr (gWebSocket c)), wyReadLimit = Some (wcReadLimit (gWebSocket c)),
       wyWriteTimeout = Some (wcWriteTimeout (gWebSocket c)), wySendBuffer = Some (wcSendBuffer (gWebSocket c))\<rparr>,
     fyServer = Some (server_file (gServer c)),
     fyRelay = Some (relay_file (gRelay c)),
     fyNamespaces = ns\<rparr>"

lemma Parse_names [simp]:
  "ParseLevel (level_name l) = Inr l"
  "ParseFormat (format_name f) = Inr f"
  by (cases l; simp add: ParseLevel_def lower_byte_def Let_def) (cases f; simp add: ParseFormat_def lower_byte_def Let_def)

lemma apply_server_file: "applyServer (Some (server_file s)) d = s"
  by (cases s; cases "svTLS s") (simp add: applyServer_def server_file_def applyTLS_def tls_file_def set_value_def)

lemma apply_relay_file: "applyRelay (Some (relay_file r)) d = r"
  by (cases r; cases "rlTLS r"; cases "rlUpstream r"; cases "rlReconnect r")
    (simp add: applyRelay_def relay_file_def applyTLS_def tls_file_def applyUpstream_def applyReconnect_def set_value_def)

lemma apply_to_file: "apply_file getenv (to_file ns c) d = Inr (c\<lparr>gNamespaces := gNamespaces d\<rparr>)"
proof -
  have l: "applyLog (fyLog (to_file ns c)) (gLog d) = Inr (gLog c)"
    by (cases "gLog c"; cases "gLog d") (simp add: to_file_def applyLog_def)
  have e: "applyEngine (fyEngine (to_file ns c)) (gEngine d) = gEngine c"
    by (cases "gEngine c") (simp add: to_file_def applyEngine_def set_value_def)
  have g: "applyGC (fyGC (to_file ns c)) (gGC d) = gGC c"
    by (cases "gGC c") (simp add: to_file_def applyGC_def set_value_def)
  have a: "applyAuth getenv (fyAuth (to_file ns c)) (gAuth d) = gAuth c"
    by (cases "gAuth c") (simp add: to_file_def applyAuth_def set_value_def)
  have w: "applyWebSocket (fyWebSocket (to_file ns c)) (gWebSocket d) = gWebSocket c"
    by (cases "gWebSocket c") (simp add: to_file_def applyWebSocket_def set_value_def)
  have rest: "applyMetrics (fyMetrics (to_file ns c)) (gMetricsEnabled d) = gMetricsEnabled c"
      "applyServer (fyServer (to_file ns c)) (gServer d) = gServer c" "applyRelay (fyRelay (to_file ns c)) (gRelay d) = gRelay c"
    by (simp_all add: to_file_def applyMetrics_def set_value_def apply_server_file apply_relay_file)
  show ?thesis unfolding apply_file_def l e g a w rest by simp
qed

text \<open>
  (C40) Writing a document out and loading it gives it back: for every environment and every defaults,
  a file that spells out the settings of a well-formed document loads to exactly those settings, with
  the registry its namespace section describes, and none when that section is empty.
\<close>

theorem config_roundtrip:
  assumes "readFile path = Some raw" and "decode raw = (to_file ns c, None)" and "settings_wf c"
    and "if namespaceSectionPresent ns then \<exists>reg. Build ns = Inr reg \<and> gNamespaces c = Some reg else gNamespaces c = None"
  shows "Load getenv readFile decode path = Inr c"
proof -
  have "fyNamespaces (to_file ns c) = ns" by (simp add: to_file_def)
  moreover have "gNamespaces Defaults = None" by (simp add: Defaults_def)
  ultimately show ?thesis using assms
    by (cases c) (auto simp: Load_def apply_to_file validated_Inr split: if_splits)
qed

text \<open>A document with every section, and one namespace.\<close>

definition demo_doc :: Gentis where
  "demo_doc = Defaults\<lparr>gLog := \<lparr>lcLevel = LevelWarn, lcFormat = FormatJSON\<rparr>, gAuth := \<lparr>acSecret = [], acDisabled = True\<rparr>,
     gEngine := (gEngine Defaults)\<lparr>ecHistorySize := 8, ecHistoryTTL := time_second\<rparr>\<rparr>"

lemma demo_doc_wf: "settings_wf demo_doc"
  by (simp add: demo_doc_def settings_wf_def engine_wf_def auth_wf_def server_wf_def relay_wf_def tls_wf_def Defaults_def
      time_second_def time_millisecond_def)

theorem config_roundtrip_witness:
  "\<exists>reg. Build demo_config = Inr reg \<and> Load (\<lambda>_. ''env'') (\<lambda>_. Some []) (\<lambda>_. (to_file demo_config (demo_doc\<lparr>gNamespaces := Some reg\<rparr>), None)) ''x''
     = Inr (demo_doc\<lparr>gNamespaces := Some reg\<rparr>)"
proof -
  obtain reg where reg: "Build demo_config = Inr reg" using demo_Build by blast
  have wf: "settings_wf (demo_doc\<lparr>gNamespaces := Some reg\<rparr>)" using demo_doc_wf by (simp add: settings_wf_def)
  have "namespaceSectionPresent demo_config" by (simp add: namespaceSectionPresent_def demo_config_def)
  then show ?thesis using reg by (intro exI [of _ reg] conjI config_roundtrip [OF refl refl wf]) simp_all
qed

end
