(* ===== verification/Commands.thy ===== *)
theory Commands
  imports Configuration Auth Engine_Delivery Session_Store Arena_State
begin

text \<open>
  Model of the commands in \<^verbatim>\<open>internal/cli\<close>: how a loaded document becomes the options of the engine, of
  the transports and of the relay, and how the constructors read them. An option is a function on the
  configuration record. The handles the options pass on (engine, store, logger, observer) are not
  settings and are left out; durations are nanoseconds.
\<close>

section \<open>The options of the transports\<close>

text \<open>The verifier handed to a transport, or the panic of \<^verbatim>\<open>NewHMACVerifier\<close> on an empty secret.\<close>

datatype Verifier = Insecure | HMAC HMACVerifier

definition buildVerifier :: "int \<Rightarrow> AuthConfig \<Rightarrow> Verifier option" where
  "buildVerifier now a =
     (if acDisabled a then Some Insecure
      else (case NewHMACVerifier (acSecret a) now of None \<Rightarrow> None | Some v \<Rightarrow> Some (HMAC v)))"

text \<open>The common part of the three configuration records.\<close>

record TransportConfig =
  tcAddress :: string
  tcVerifier :: Verifier
  tcTLSCertFile :: string
  tcTLSKeyFile :: string
  tcMaxMessageSize :: int
  tcMaxSubscriptions :: int
  tcPingInterval :: int
  tcAuthDeadline :: int

record GrpcConfig = TransportConfig +
  tcMetricsAddr :: string
  tcMetricsEnabled :: bool
  tcUseArena :: bool
  tcMaxSessions :: int

record WsConfig = TransportConfig +
  wsReadLimit :: int
  wsWriteTimeout :: int
  wsSendBufferSize :: int

text \<open>The relay's record adds its upstream and its own sizes.\<close>

record RelayServerConfig = GrpcConfig +
  rsUpstreamAddress :: string
  rsUpstreamToken :: string
  rsUpstreamTLS :: bool
  rsUpstreamCA :: string
  rsBufferSize :: int
  rsIncomingBuffer :: int
  rsFanoutWorkers :: int
  rsReconnect :: Reconnect

definition grpc_defaultConfig :: "string \<Rightarrow> GrpcConfig" where
  "grpc_defaultConfig address = \<lparr>tcAddress = address, tcVerifier = Insecure, tcTLSCertFile = [], tcTLSKeyFile = [],
     tcMaxMessageSize = 65536, tcMaxSubscriptions = 16, tcPingInterval = 25 * time_second, tcAuthDeadline = 30 * time_second,
     tcMetricsAddr = [], tcMetricsEnabled = False, tcUseArena = False, tcMaxSessions = 0\<rparr>"

definition ws_defaultConfig :: "string \<Rightarrow> WsConfig" where
  "ws_defaultConfig address = \<lparr>tcAddress = address, tcVerifier = Insecure, tcTLSCertFile = [], tcTLSKeyFile = [],
     tcMaxMessageSize = 65536, tcMaxSubscriptions = 16, tcPingInterval = 25 * time_second, tcAuthDeadline = 30 * time_second,
     wsReadLimit = 65536, wsWriteTimeout = 10 * time_second, wsSendBufferSize = 256\<rparr>"

definition relay_defaultConfig :: RelayServerConfig where
  "relay_defaultConfig = \<lparr>tcAddress = ''127.0.0.1:9001'', tcVerifier = Insecure, tcTLSCertFile = [], tcTLSKeyFile = [],
     tcMaxMessageSize = 65536, tcMaxSubscriptions = 0, tcPingInterval = 25 * time_second, tcAuthDeadline = 30 * time_second,
     tcMetricsAddr = [], tcMetricsEnabled = False, tcUseArena = False, tcMaxSessions = 0,
     rsUpstreamAddress = [], rsUpstreamToken = [], rsUpstreamTLS = False, rsUpstreamCA = [],
     rsBufferSize = 256, rsIncomingBuffer = 4096, rsFanoutWorkers = 4,
     rsReconnect = \<lparr>rcInitial = 100 * time_millisecond, rcMax = 30 * time_second, rcMultiplier = Finite 2, rcMaxRetries = 0\<rparr>\<rparr>"

definition WithVerifier :: "Verifier \<Rightarrow> 'z TransportConfig_scheme \<Rightarrow> 'z TransportConfig_scheme" where
  "WithVerifier v c = c\<lparr>tcVerifier := v\<rparr>"

definition WithTLS :: "string \<Rightarrow> string \<Rightarrow> 'z TransportConfig_scheme \<Rightarrow> 'z TransportConfig_scheme" where
  "WithTLS certFile keyFile c = c\<lparr>tcTLSCertFile := certFile, tcTLSKeyFile := keyFile\<rparr>"

definition WithMaxMessageSize :: "int \<Rightarrow> 'z TransportConfig_scheme \<Rightarrow> 'z TransportConfig_scheme" where
  "WithMaxMessageSize n c = c\<lparr>tcMaxMessageSize := n\<rparr>"

definition WithMaxSubscriptions :: "int \<Rightarrow> 'z TransportConfig_scheme \<Rightarrow> 'z TransportConfig_scheme" where
  "WithMaxSubscriptions n c = c\<lparr>tcMaxSubscriptions := n\<rparr>"

definition WithPingInterval :: "int \<Rightarrow> 'z TransportConfig_scheme \<Rightarrow> 'z TransportConfig_scheme" where
  "WithPingInterval d c = c\<lparr>tcPingInterval := d\<rparr>"

definition WithAuthDeadline :: "int \<Rightarrow> 'z TransportConfig_scheme \<Rightarrow> 'z TransportConfig_scheme" where
  "WithAuthDeadline d c = c\<lparr>tcAuthDeadline := d\<rparr>"

definition WithMetrics :: "string \<Rightarrow> 'z GrpcConfig_scheme \<Rightarrow> 'z GrpcConfig_scheme" where
  "WithMetrics addr c = c\<lparr>tcMetricsAddr := addr, tcMetricsEnabled := True\<rparr>"

definition WithArena :: "'z GrpcConfig_scheme \<Rightarrow> 'z GrpcConfig_scheme" where
  "WithArena c = c\<lparr>tcUseArena := True\<rparr>"

definition WithMaxSessions :: "int \<Rightarrow> 'z GrpcConfig_scheme \<Rightarrow> 'z GrpcConfig_scheme" where
  "WithMaxSessions n c = c\<lparr>tcMaxSessions := n\<rparr>"

definition WithReadLimit :: "int \<Rightarrow> WsConfig \<Rightarrow> WsConfig" where
  "WithReadLimit n c = c\<lparr>wsReadLimit := n\<rparr>"

definition WithWriteTimeout :: "int \<Rightarrow> WsConfig \<Rightarrow> WsConfig" where
  "WithWriteTimeout d c = c\<lparr>wsWriteTimeout := d\<rparr>"

definition WithSendBufferSize :: "int \<Rightarrow> WsConfig \<Rightarrow> WsConfig" where
  "WithSendBufferSize n c = c\<lparr>wsSendBufferSize := n\<rparr>"

definition WithListenAddr :: "string \<Rightarrow> RelayServerConfig \<Rightarrow> RelayServerConfig" where
  "WithListenAddr addr c = c\<lparr>tcAddress := addr\<rparr>"

definition WithUpstream :: "string \<Rightarrow> string \<Rightarrow> RelayServerConfig \<Rightarrow> RelayServerConfig" where
  "WithUpstream addr token c = c\<lparr>rsUpstreamAddress := addr, rsUpstreamToken := token\<rparr>"

definition WithUpstreamTLS :: "string \<Rightarrow> RelayServerConfig \<Rightarrow> RelayServerConfig" where
  "WithUpstreamTLS caFile c = c\<lparr>rsUpstreamTLS := True, rsUpstreamCA := caFile\<rparr>"

text \<open>The composite literal resets the retries.\<close>

definition WithReconnectPolicy :: "int \<Rightarrow> int \<Rightarrow> float64 \<Rightarrow> RelayServerConfig \<Rightarrow> RelayServerConfig" where
  "WithReconnectPolicy initial maxd multiplier c =
     c\<lparr>rsReconnect := \<lparr>rcInitial = initial, rcMax = maxd, rcMultiplier = multiplier, rcMaxRetries = 0\<rparr>\<rparr>"

definition WithMaxRetries :: "int \<Rightarrow> RelayServerConfig \<Rightarrow> RelayServerConfig" where
  "WithMaxRetries n c = c\<lparr>rsReconnect := (rsReconnect c)\<lparr>rcMaxRetries := n\<rparr>\<rparr>"

definition WithBufferSize :: "int \<Rightarrow> RelayServerConfig \<Rightarrow> RelayServerConfig" where
  "WithBufferSize n c = c\<lparr>rsBufferSize := n\<rparr>"

definition WithIncomingBuffer :: "int \<Rightarrow> RelayServerConfig \<Rightarrow> RelayServerConfig" where
  "WithIncomingBuffer n c = c\<lparr>rsIncomingBuffer := n\<rparr>"

definition WithRelayWorkers :: "int \<Rightarrow> RelayServerConfig \<Rightarrow> RelayServerConfig" where
  "WithRelayWorkers n c = c\<lparr>rsFanoutWorkers := n\<rparr>"

section \<open>From the document to the options\<close>

definition buildEngineOpts :: "Gentis \<Rightarrow> (econfig \<Rightarrow> econfig) list" where
  "buildEngineOpts cfg =
     (case gNamespaces cfg of None \<Rightarrow> [] | Some r \<Rightarrow> [WithNamespaces (Some r)])
     @ (if ecShards (gEngine cfg) > 0 then [WithShards (ecShards (gEngine cfg))] else [])
     @ [WithFanoutThreshold (ecFanoutThreshold (gEngine cfg)), WithFanoutWorkers (ecFanoutWorkers (gEngine cfg))]
     @ (if ecHistorySize (gEngine cfg) > 0 then [WithHistory (ecHistorySize (gEngine cfg)) (ecHistoryTTL (gEngine cfg))] else [])"

text \<open>The configuration \<^verbatim>\<open>engine.New\<close> runs with: the options, in order, on the defaults.\<close>

definition engine_config :: "int \<Rightarrow> (econfig \<Rightarrow> econfig) list \<Rightarrow> econfig" where
  "engine_config gomaxprocs opts = fold (\<lambda>opt c. opt c) opts (defaultConfig gomaxprocs)"

definition newSessionStore :: "bool \<Rightarrow> int \<Rightarrow> 's SessionStore" where
  "newSessionStore arena maxSessions = (if arena then NewFlatSessionStore 1 maxSessions else NewSessionStore)"

record wsTransport =
  wtPingInterval :: int
  wtAuthDeadline :: int
  wtMaxMessageSize :: int
  wtMaxSubscriptions :: int
  wtTLS :: TLSConfig

definition serverWSTransport :: "ServerConfig \<Rightarrow> wsTransport" where
  "serverWSTransport s = \<lparr>wtPingInterval = svPingInterval s, wtAuthDeadline = svAuthDeadline s,
     wtMaxMessageSize = svMaxMessageSize s, wtMaxSubscriptions = svMaxSubscriptions s, wtTLS = svTLS s\<rparr>"

definition relayWSTransport :: "RelayConfig \<Rightarrow> wsTransport" where
  "relayWSTransport r = \<lparr>wtPingInterval = rlPingInterval r, wtAuthDeadline = rlAuthDeadline r,
     wtMaxMessageSize = rlMaxMessageSize r, wtMaxSubscriptions = rlMaxSubscriptions r, wtTLS = rlTLS r\<rparr>"

text \<open>The configuration of the WebSocket server, when there is one.\<close>

definition buildWSServer :: "WebSocketConfig \<Rightarrow> wsTransport \<Rightarrow> Verifier \<Rightarrow> WsConfig option" where
  "buildWSServer w tr verifier =
     (if wcAddr w = [] then None
      else
        Some (fold (\<lambda>opt c. opt c)
          ([WithVerifier verifier, WithPingInterval (wtPingInterval tr), WithAuthDeadline (wtAuthDeadline tr),
            WithReadLimit (wcReadLimit w), WithWriteTimeout (wcWriteTimeout w), WithSendBufferSize (wcSendBuffer w)]
           @ (if wtMaxMessageSize tr > 0 then [WithMaxMessageSize (wtMaxMessageSize tr)] else [])
           @ [WithMaxSubscriptions (wtMaxSubscriptions tr)]
           @ (if tlsCert (wtTLS tr) \<noteq> [] \<and> tlsKey (wtTLS tr) \<noteq> [] then [WithTLS (tlsCert (wtTLS tr)) (tlsKey (wtTLS tr))] else []))
          (ws_defaultConfig (wcAddr w))))"

definition buildGRPCOpts :: "Gentis \<Rightarrow> Verifier \<Rightarrow> (GrpcConfig \<Rightarrow> GrpcConfig) list" where
  "buildGRPCOpts cfg verifier =
     (let s = gServer cfg
      in [WithVerifier verifier, WithPingInterval (svPingInterval s), WithAuthDeadline (svAuthDeadline s),
          WithMaxMessageSize (svMaxMessageSize s), WithMaxSubscriptions (svMaxSubscriptions s)]
         @ (if tlsCert (svTLS s) \<noteq> [] then [WithTLS (tlsCert (svTLS s)) (tlsKey (svTLS s))] else [])
         @ (if svArena s then [WithArena, WithMaxSessions (svMaxSessions s)] else [])
         @ (if gMetricsEnabled cfg then [WithMetrics (svMetricsAddr s)] else []))"

definition buildRelayOpts :: "Gentis \<Rightarrow> Verifier \<Rightarrow> (RelayServerConfig \<Rightarrow> RelayServerConfig) list" where
  "buildRelayOpts cfg verifier =
     (let r = gRelay cfg
      in [WithListenAddr (rlAddr r), WithUpstream (ucAddr (rlUpstream r)) (ucAuthToken (rlUpstream r)),
          WithReconnectPolicy (rcInitial (rlReconnect r)) (rcMax (rlReconnect r)) (rcMultiplier (rlReconnect r)),
          WithMaxRetries (rcMaxRetries (rlReconnect r)), WithBufferSize (rlBufferSize r), WithIncomingBuffer (rlIncomingBuffer r),
          WithRelayWorkers (rlFanoutWorkers r), WithVerifier verifier, WithPingInterval (rlPingInterval r),
          WithAuthDeadline (rlAuthDeadline r), WithMaxMessageSize (rlMaxMessageSize r), WithMaxSubscriptions (rlMaxSubscriptions r)]
         @ (if tlsCert (rlTLS r) \<noteq> [] then [WithTLS (tlsCert (rlTLS r)) (tlsKey (rlTLS r))] else [])
         @ (if ucTLS (rlUpstream r) then [WithUpstreamTLS (ucCA (rlUpstream r))] else [])
         @ (if rlArena r then [WithArena, WithMaxSessions (rlMaxSessions r)] else [])
         @ (if gMetricsEnabled cfg then [WithMetrics (rlMetricsAddr r)] else []))"

text \<open>
  The constructors \<^verbatim>\<open>grpc.New\<close> and \<^verbatim>\<open>relay.New\<close>: the options on the defaults, the subscription limit
  clamped to what an arena slot holds, and the counter of the fallback ids above the arena's range.
\<close>

definition clamp_subscriptions :: "'z GrpcConfig_scheme \<Rightarrow> 'z GrpcConfig_scheme" where
  "clamp_subscriptions c =
     (if tcUseArena c \<and> (tcMaxSubscriptions c \<le> 0 \<or> tcMaxSubscriptions c > int MaxSubscriptions)
      then c\<lparr>tcMaxSubscriptions := int MaxSubscriptions\<rparr> else c)"

definition arena_sessions :: "'z GrpcConfig_scheme \<Rightarrow> int" where
  "arena_sessions c = (if tcMaxSessions c \<le> 0 then 16384 else tcMaxSessions c)"

definition first_id :: "'z GrpcConfig_scheme \<Rightarrow> u32" where
  "first_id c = (if tcUseArena c then word_of_int (arena_sessions c) else 0)"

definition grpc_New :: "string \<Rightarrow> (GrpcConfig \<Rightarrow> GrpcConfig) list \<Rightarrow> GrpcConfig \<times> u32" where
  "grpc_New address opts =
     (let cfg = clamp_subscriptions (fold (\<lambda>opt c. opt c) opts (grpc_defaultConfig address)) in (cfg, first_id cfg))"

definition relay_New :: "(RelayServerConfig \<Rightarrow> RelayServerConfig) list \<Rightarrow> RelayServerConfig \<times> u32" where
  "relay_New opts =
     (let cfg = clamp_subscriptions (fold (\<lambda>opt c. opt c) opts relay_defaultConfig) in (cfg, first_id cfg))"

section \<open>A loaded document starts\<close>

lemma buildVerifier_ok:
  "auth_wf a \<Longrightarrow> \<exists>v. buildVerifier now a = Some v \<and> (v = Insecure \<longleftrightarrow> acDisabled a)
     \<and> (\<not> acDisabled a \<longrightarrow> v = HMAC \<lparr>vsecret = acSecret a, vnow = now\<rparr> \<and> acSecret a \<noteq> [])"
  by (auto simp: auth_wf_def buildVerifier_def NewHMACVerifier_def)

lemma engine_config_fields:
  fixes cfg :: Gentis and gomaxprocs :: int
  assumes "engine_wf (gEngine cfg)"
  defines "c \<equiv> engine_config gomaxprocs (buildEngineOpts cfg)"
  shows "cfgNumShards c = (if ecShards (gEngine cfg) > 0 then nextPowerOf2 (ecShards (gEngine cfg)) else cfgNumShards (defaultConfig gomaxprocs))"
    "cfgFanoutThreshold c = ecFanoutThreshold (gEngine cfg)" "cfgFanoutWorkers c = ecFanoutWorkers (gEngine cfg)"
    "cfgHistSize c = ecHistorySize (gEngine cfg)" "cfgHistTTL c = ecHistoryTTL (gEngine cfg)" "cfgNamespaces c = gNamespaces cfg"
  using assms(1)
  by (auto simp: c_def engine_config_def buildEngineOpts_def WithNamespaces_def WithShards_def WithFanoutThreshold_def WithFanoutWorkers_def
      WithHistory_def engine_wf_def defaultConfig_def Let_def split: option.splits)

lemma engine_config_ok:
  assumes "engine_wf (gEngine cfg)" "ecShards (gEngine cfg) \<le> 2 ^ 62" "gomaxprocs * 4 \<le> 2 ^ 62"
  shows "config_ok (engine_config gomaxprocs (buildEngineOpts cfg))"
  using config_ok_default [OF assms(3)] config_ok_WithShards [OF config_ok_default [OF assms(3)] assms(2)] assms(1)
  by (auto simp: config_ok_def engine_config_fields WithShards_def split: if_splits)

lemma loaded_channelSettings:
  assumes "settings_wf cfg" "namespaces_wf cfg" "eConfig e = engine_config gomaxprocs (buildEngineOpts cfg)"
  shows "settings_ok (fst (channelSettings channel e))"
proof (cases "gNamespaces cfg")
  case None
  then show ?thesis using assms by (auto simp: channelSettings_def engine_config_fields settings_wf_def engine_wf_def settings_ok_def zero_settings_def)
next
  case (Some r)
  then show ?thesis using assms Resolve_ok [of r channel]
    by (simp add: channelSettings_def engine_config_fields settings_wf_def namespaces_wf_def)
qed


text \<open>No file, and a secret in the environment.\<close>

definition demo_getenv :: "string \<Rightarrow> string" where
  "demo_getenv name = (if name = defaultHMACSecretEnv then ''hush'' else [])"

lemma demo_load:
  "loadConfig demo_getenv readFile decode [] = Inr (Defaults\<lparr>gAuth := \<lparr>acSecret = ''hush'', acDisabled = False\<rparr>\<rparr>)"
  by (simp add: loadConfig_def DefaultConfig_def validated_Inr settings_wf_def engine_wf_def auth_wf_def server_wf_def relay_wf_def tls_wf_def
      Defaults_def applyAuth_def demo_getenv_def defaultHMACSecretEnv_def time_second_def time_millisecond_def)


section \<open>What the transports inherit\<close>

text \<open>
  The two transports of a server run with the settings of its section: for every document with a
  WebSocket address, verifier, ping interval, authentication deadline, TLS pair and subscription
  limit are the section's on both, except that an arena clamps the gRPC limit to the 16 channels a
  slot holds, so that no limit is ever above what the session state can record; a payload limit is
  inherited exactly when it is positive. A limit of zero lifts it for gRPC and leaves the WebSocket
  transport at its own 64 KiB.
\<close>

theorem transports_inherit:
  assumes "settings_wf cfg" and "buildWSServer (gWebSocket cfg) (serverWSTransport (gServer cfg)) v = Some w"
    and "grpc_New (svAddr (gServer cfg)) (buildGRPCOpts cfg v) = (g, nextID)"
  shows "tcVerifier g = v \<and> tcVerifier w = v
    \<and> tcPingInterval g = svPingInterval (gServer cfg) \<and> tcPingInterval w = svPingInterval (gServer cfg)
    \<and> tcAuthDeadline g = svAuthDeadline (gServer cfg) \<and> tcAuthDeadline w = svAuthDeadline (gServer cfg)
    \<and> tcTLSCertFile g = tcTLSCertFile w \<and> tcTLSKeyFile g = tcTLSKeyFile w
    \<and> (tcTLSCertFile g, tcTLSKeyFile g) = (tlsCert (svTLS (gServer cfg)), tlsKey (svTLS (gServer cfg)))
    \<and> tcMaxSubscriptions w = svMaxSubscriptions (gServer cfg)
    \<and> (\<not> tcUseArena g \<longrightarrow> tcMaxSubscriptions g = svMaxSubscriptions (gServer cfg))
    \<and> (tcUseArena g \<longrightarrow> 0 < tcMaxSubscriptions g \<and> tcMaxSubscriptions g \<le> int MaxSubscriptions
         \<and> (0 < svMaxSubscriptions (gServer cfg) \<longrightarrow> tcMaxSubscriptions g = min (int MaxSubscriptions) (svMaxSubscriptions (gServer cfg))))
    \<and> tcMaxMessageSize g = svMaxMessageSize (gServer cfg)
    \<and> tcMaxMessageSize w = (if svMaxMessageSize (gServer cfg) = 0 then 65536 else svMaxMessageSize (gServer cfg))"
proof -
  have wf: "0 \<le> svMaxMessageSize (gServer cfg)" "0 \<le> svMaxSubscriptions (gServer cfg)" "tls_wf (svTLS (gServer cfg))"
    using assms(1) by (simp_all add: settings_wf_def server_wf_def)
  note opts = WithVerifier_def WithTLS_def WithMaxMessageSize_def WithMaxSubscriptions_def WithPingInterval_def WithAuthDeadline_def
    WithMetrics_def WithArena_def WithMaxSessions_def WithReadLimit_def WithWriteTimeout_def WithSendBufferSize_def
  have ws: "tcVerifier w = v" "tcPingInterval w = svPingInterval (gServer cfg)" "tcAuthDeadline w = svAuthDeadline (gServer cfg)"
      "tcTLSCertFile w = tlsCert (svTLS (gServer cfg))" "tcTLSKeyFile w = tlsKey (svTLS (gServer cfg))"
      "tcMaxSubscriptions w = svMaxSubscriptions (gServer cfg)"
      "tcMaxMessageSize w = (if svMaxMessageSize (gServer cfg) = 0 then 65536 else svMaxMessageSize (gServer cfg))"
    using assms(2) wf
    by (auto simp: buildWSServer_def serverWSTransport_def opts ws_defaultConfig_def tls_wf_def split: if_splits)
  have gr: "tcVerifier g = v" "tcPingInterval g = svPingInterval (gServer cfg)" "tcAuthDeadline g = svAuthDeadline (gServer cfg)"
      "tcTLSCertFile g = tlsCert (svTLS (gServer cfg))" "tcTLSKeyFile g = tlsKey (svTLS (gServer cfg))"
      "tcMaxMessageSize g = svMaxMessageSize (gServer cfg)" "tcUseArena g = svArena (gServer cfg)"
      "tcMaxSubscriptions g = (if svArena (gServer cfg) \<and> (svMaxSubscriptions (gServer cfg) \<le> 0 \<or> svMaxSubscriptions (gServer cfg) > int MaxSubscriptions)
         then int MaxSubscriptions else svMaxSubscriptions (gServer cfg))"
    using assms(3) wf(3)
    by (auto simp: grpc_New_def buildGRPCOpts_def opts grpc_defaultConfig_def clamp_subscriptions_def tls_wf_def Let_def split: if_splits)
  show ?thesis using ws gr wf(1,2) by (auto simp: MaxSubscriptions_def)
qed

theorem transports_inherit_witness:
  "\<exists>cfg w g n. buildWSServer (gWebSocket cfg) (serverWSTransport (gServer cfg)) Insecure = Some w
     \<and> grpc_New (svAddr (gServer cfg)) (buildGRPCOpts cfg Insecure) = (g, n)
     \<and> tcMaxMessageSize g = 0 \<and> tcMaxMessageSize w = 65536"
proof -
  let ?cfg = "Defaults\<lparr>gAuth := \<lparr>acSecret = [], acDisabled = True\<rparr>, gWebSocket := (gWebSocket Defaults)\<lparr>wcAddr := '':9002''\<rparr>,
    gServer := (gServer Defaults)\<lparr>svMaxMessageSize := 0\<rparr>\<rparr>"
  have wf: "settings_wf ?cfg"
    by (simp add: settings_wf_def engine_wf_def auth_wf_def server_wf_def relay_wf_def tls_wf_def Defaults_def time_second_def time_millisecond_def)
  obtain w where w: "buildWSServer (gWebSocket ?cfg) (serverWSTransport (gServer ?cfg)) Insecure = Some w"
    by (simp add: buildWSServer_def)
  obtain g n where g: "grpc_New (svAddr (gServer ?cfg)) (buildGRPCOpts ?cfg Insecure) = (g, n)" by (metis prod.collapse)
  have "tcMaxMessageSize g = 0 \<and> tcMaxMessageSize w = 65536" using transports_inherit [OF wf w g] by simp
  then show ?thesis using w g by blast
qed

end
