(* ===== verification/Sessions.thy ===== *)
theory Sessions
  imports Commands Protocol Grpc
begin

text \<open>
  Model of the life of a session in \<^verbatim>\<open>internal/grpc/session.go\<close> and \<^verbatim>\<open>internal/ws/session.go\<close>: creation with
  an identity from the arena or the counters, registration in the store both transports share, and
  the cleanup. A session object is known to the store by its address \<open>p\<close>, a number that is never
  used twice; \<open>srvNextID\<close> is the code's \<^verbatim>\<open>atomic.Int32\<close>, \<open>wsvNextID\<close> its \<^verbatim>\<open>atomic.Int64\<close>.
\<close>

section \<open>gRPC sessions\<close>

datatype session_state = HeapState State | SlotState ArenaState

record GrpcSession =
  gsId :: int
  gsSubID :: SubscriberID
  gsState :: session_state
  gsRing :: "pbServerMessage PointerRing"
  gsConsumer :: Consumer
  gsAuthTimer :: bool
  gsExpiryTimer :: bool
  gsCancelled :: bool

record GrpcServer =
  srvConfig :: GrpcConfig
  srvArena :: "session_arena option"
  srvSessions :: "(int, nat) gomap"
  srvNextID :: u32
  srvSweeper :: Sweeper
  srvConnectionCount :: int
  srvConnectionsTotal :: int
  srvDisconnectionsTotal :: int

definition sendRingCapacity :: int where
  "sendRingCapacity = 256"

text \<open>Where a session state lives: its slot, if it has one.\<close>

fun slot_index :: "session_state \<Rightarrow> u32 option" where
  "slot_index (HeapState _) = None"
| "slot_index (SlotState st) = (if asFreed st then None else Some (asIdx st))"

text \<open>The state and the id of a new session.\<close>

definition counter_state :: "GrpcServer \<Rightarrow> session_state \<times> int \<times> GrpcServer" where
  "counter_state srv =
     (let n = srvNextID srv + 1 in (HeapState (NewState (sint n)), sint n, srv\<lparr>srvNextID := n\<rparr>))"

definition session_identity :: "GrpcServer \<Rightarrow> session_state \<times> int \<times> GrpcServer" where
  "session_identity srv =
     (case srvArena srv of
        None \<Rightarrow> counter_state srv
      | Some a \<Rightarrow>
          (case NewArenaStateAuto a 1 of
             (Inr s, a1) \<Rightarrow> (SlotState s, asId s, srv\<lparr>srvArena := Some a1\<rparr>)
           | (Inl _, a1) \<Rightarrow> counter_state (srv\<lparr>srvArena := Some a1\<rparr>)))"

text \<open>The slot goes back to the arena, when there is one; the session state is not used any more.\<close>

definition close_state :: "session_state \<Rightarrow> GrpcServer \<Rightarrow> GrpcServer" where
  "close_state s srv =
     (case s of
        HeapState _ \<Rightarrow> srv
      | SlotState st \<Rightarrow>
          (case srvArena srv of None \<Rightarrow> srv | Some a \<Rightarrow> srv\<lparr>srvArena := Some (snd (ArenaState_Close st a))\<rparr>))"

definition grpc_createSession :: "nat \<Rightarrow> GrpcServer \<Rightarrow> nat SessionStore option
    \<Rightarrow> GrpcSession option \<times> GrpcServer \<times> nat SessionStore option" where
  "grpc_createSession p srv ss =
     (case session_identity srv of
        (state, i, srv1) \<Rightarrow>
          (case NewPointer sendRingCapacity of
             None \<Rightarrow> (None, close_state state srv1, ss)
           | Some ring \<Rightarrow>
               (let (subID, store1) =
                  (case ss of
                     None \<Rightarrow> (word_of_int i, None)
                   | Some st \<Rightarrow> (case AllocID (word_of_int i) st of (sid, st1) \<Rightarrow> (sid, Some st1)));
                    sess = \<lparr>gsId = i, gsSubID = subID, gsState = state, gsRing = ring, gsConsumer = NewConsumer True,
                            gsAuthTimer = (tcAuthDeadline (srvConfig srv1) > 0), gsExpiryTimer = False, gsCancelled = False\<rparr>
                in (Some sess,
                    srv1\<lparr>srvSessions := gput i p (srvSessions srv1), srvConnectionCount := srvConnectionCount srv1 + 1,
                         srvConnectionsTotal := srvConnectionsTotal srv1 + 1\<rparr>,
                    (case store1 of None \<Rightarrow> None | Some st \<Rightarrow> Some (Register subID (Some p) st))))))"

definition grpc_cleanupSession :: "nat \<Rightarrow> int \<Rightarrow> GrpcSession \<Rightarrow> GrpcServer \<Rightarrow> nat SessionStore option \<Rightarrow> Engine
    \<Rightarrow> GrpcSession \<times> GrpcServer \<times> nat SessionStore option \<times> Engine" where
  "grpc_cleanupSession p now sess srv ss e =
     (case Consumer_Stop p (gsConsumer sess) (srvSweeper srv) of
        (c, sw) \<Rightarrow>
          (let sess1 = sess\<lparr>gsConsumer := c, gsExpiryTimer := False, gsAuthTimer := False, gsCancelled := True\<rparr>;
               srv1 = srv\<lparr>srvSweeper := sw, srvSessions := gdel (gsId sess) (srvSessions srv),
                          srvConnectionCount := srvConnectionCount srv - 1,
                          srvDisconnectionsTotal := srvDisconnectionsTotal srv + 1\<rparr>;
               store1 = (case ss of None \<Rightarrow> None | Some st \<Rightarrow> Some (Unregister (gsSubID sess) st));
               e1 = UnsubscribeAll now (gsSubID sess) e
           in (sess1, close_state (gsState sess) srv1, store1, e1)))"

definition getSession :: "int \<Rightarrow> GrpcServer \<Rightarrow> nat option" where
  "getSession i srv = gget (srvSessions srv) i"

text \<open>\<^verbatim>\<open>deliverFn\<close>: the session a delivery is handed to.\<close>

definition grpc_deliverFn :: "GrpcServer \<Rightarrow> nat SessionStore option \<Rightarrow> SubscriberID \<Rightarrow> nat option" where
  "grpc_deliverFn srv ss sid =
     (case ss of Some st \<Rightarrow> Store_Deliver sid st | None \<Rightarrow> getSession (sint sid) srv)"

section \<open>WebSocket sessions\<close>

definition wsIDOffset :: u64 where
  "wsIDOffset = push_bit 31 1"

record WsSession =
  wssId :: int
  wssState :: State
  wssConsumer :: Consumer
  wssLastRecv :: int
  wssAuthTimer :: bool
  wssExpiryTimer :: bool
  wssCancelled :: bool

record WsServer =
  wsvConfig :: WsConfig
  wsvSessions :: "(int, nat) gomap"
  wsvNextID :: u64
  wsvSweeper :: Sweeper
  wsvConnectionCount :: int

definition ws_New :: "WsConfig \<Rightarrow> WsServer" where
  "ws_New cfg = \<lparr>wsvConfig = cfg, wsvSessions = [], wsvNextID = wsIDOffset, wsvSweeper = NewSweeper, wsvConnectionCount = 0\<rparr>"

definition ws_createSession :: "nat \<Rightarrow> int \<Rightarrow> WsServer \<Rightarrow> nat SessionStore \<Rightarrow> WsSession \<times> WsServer \<times> nat SessionStore" where
  "ws_createSession p now srv st =
     (let n = wsvNextID srv + 1;
          i = sint n;
          sess = \<lparr>wssId = i, wssState = NewState i, wssConsumer = NewConsumer True, wssLastRecv = now,
                  wssAuthTimer = (tcAuthDeadline (wsvConfig srv) > 0), wssExpiryTimer = False, wssCancelled = False\<rparr>
      in (sess,
          srv\<lparr>wsvNextID := n, wsvSessions := gput i p (wsvSessions srv), wsvConnectionCount := wsvConnectionCount srv + 1\<rparr>,
          Register (word_of_int i) (Some p) st))"

definition ws_cleanupSession :: "nat \<Rightarrow> int \<Rightarrow> WsSession \<Rightarrow> WsServer \<Rightarrow> nat SessionStore \<Rightarrow> Engine
    \<Rightarrow> WsSession \<times> WsServer \<times> nat SessionStore \<times> Engine" where
  "ws_cleanupSession p now sess srv st e =
     (case Consumer_Stop p (wssConsumer sess) (wsvSweeper srv) of
        (c, sw) \<Rightarrow>
          (sess\<lparr>wssConsumer := c, wssExpiryTimer := False, wssAuthTimer := False, wssCancelled := True\<rparr>,
           srv\<lparr>wsvSweeper := sw, wsvSessions := gdel (wssId sess) (wsvSessions srv), wsvConnectionCount := wsvConnectionCount srv - 1\<rparr>,
           Unregister (word_of_int (wssId sess)) st,
           UnsubscribeAll now (word_of_int (wssId sess)) e))"

section \<open>A server with both transports\<close>

text \<open>
  \<^verbatim>\<open>grpc.New\<close> and the part of \<^verbatim>\<open>Start\<close> that maps the arena; \<open>mmap\<close> says whether the mapping succeeds
  and \<open>slotSize\<close> is the size of a slot. Without an arena the server falls back to the heap.
\<close>

definition grpc_start :: "(u64 \<Rightarrow> bool) \<Rightarrow> int \<Rightarrow> GrpcConfig \<times> u32 \<Rightarrow> GrpcServer" where
  "grpc_start mmap slotSize = (\<lambda>(cfg, next).
     \<lparr>srvConfig = cfg,
      srvArena = (if tcUseArena cfg
                  then (case arena_New mmap zero_slot slotSize (arena_sessions cfg) of Inl _ \<Rightarrow> None | Inr a \<Rightarrow> Some a)
                  else None),
      srvSessions = [], srvNextID = next, srvSweeper = NewSweeper,
      srvConnectionCount = 0, srvConnectionsTotal = 0, srvDisconnectionsTotal = 0\<rparr>)"

text \<open>The shared world; \<open>wGrpc\<close> and \<open>wWs\<close> are the live sessions by address, \<open>wNext\<close> the next address.\<close>

record world =
  wSrv :: GrpcServer
  wWsv :: WsServer
  wStore :: "nat SessionStore"
  wEngine :: Engine
  wGrpc :: "nat \<Rightarrow> GrpcSession option"
  wWs :: "nat \<Rightarrow> WsSession option"
  wNext :: nat
  wOwner :: "SubscriberID \<Rightarrow> nat option"

text \<open>
  Sessions come and go; the counters are not used up: fewer than \<open>2^31\<close> ids of each transport, and no
  generation counter has wrapped. In between, a session works on its state, which may live in the
  memory of the arena, and on the engine. Creation and cleanup are one step each: the interleavings
  of their parts are those of the theories Arena and Session Store. \<open>wOwner\<close> remembers, as a ghost, the session of every identity.
\<close>

definition counters_fresh :: "world \<Rightarrow> bool" where
  "counters_fresh w \<longleftrightarrow> uint (srvNextID (wSrv w)) < 2 ^ 31 - 1 \<and> uint (wsvNextID (wWsv w)) < 2 ^ 32 - 1
     \<and> (\<forall>i < length (ssGen (wStore w)). ssGen (wStore w) ! i + 1 \<noteq> 0)"

inductive world_step :: "world \<Rightarrow> world \<Rightarrow> bool" where
  grpc_open: "counters_fresh w \<Longrightarrow> grpc_createSession (wNext w) (wSrv w) (Some (wStore w)) = (Some s, srv, Some st) \<Longrightarrow>
    world_step w (w\<lparr>wSrv := srv, wStore := st, wGrpc := (wGrpc w)(wNext w \<mapsto> s), wNext := Suc (wNext w),
                    wOwner := (wOwner w)(gsSubID s \<mapsto> wNext w)\<rparr>)"
| grpc_close: "wGrpc w p = Some s \<Longrightarrow>
    grpc_cleanupSession p now s (wSrv w) (Some (wStore w)) (wEngine w) = (s', srv, Some st, e) \<Longrightarrow>
    world_step w (w\<lparr>wSrv := srv, wStore := st, wEngine := e, wGrpc := (wGrpc w)(p := None)\<rparr>)"
| ws_open: "counters_fresh w \<Longrightarrow> ws_createSession (wNext w) now (wWsv w) (wStore w) = (s, wsv, st) \<Longrightarrow>
    world_step w (w\<lparr>wWsv := wsv, wStore := st, wWs := (wWs w)(wNext w \<mapsto> s), wNext := Suc (wNext w),
                    wOwner := (wOwner w)(word_of_int (wssId s) \<mapsto> wNext w)\<rparr>)"
| ws_close: "wWs w p = Some s \<Longrightarrow> ws_cleanupSession p now s (wWsv w) (wStore w) (wEngine w) = (s', wsv, st, e) \<Longrightarrow>
    world_step w (w\<lparr>wWsv := wsv, wStore := st, wEngine := e, wWs := (wWs w)(p := None)\<rparr>)"
| other: "wGrpc w p = Some s \<Longrightarrow> gsId s' = gsId s \<Longrightarrow> gsSubID s' = gsSubID s \<Longrightarrow> slot_index (gsState s') = slot_index (gsState s) \<Longrightarrow>
    world_step w (w\<lparr>wSrv := (wSrv w)\<lparr>srvArena := map_option (arMem_update (\<lambda>_. m)) (srvArena (wSrv w))\<rparr>,
                    wEngine := e, wGrpc := (wGrpc w)(p \<mapsto> s')\<rparr>)"
| ws_other: "wWs w p = Some s \<Longrightarrow> wssId s' = wssId s \<Longrightarrow> world_step w (w\<lparr>wEngine := e, wWs := (wWs w)(p \<mapsto> s')\<rparr>)"

definition serve_start :: "Engine \<Rightarrow> (u64 \<Rightarrow> bool) \<Rightarrow> int \<Rightarrow> Gentis \<Rightarrow> Verifier \<Rightarrow> WsConfig \<Rightarrow> world" where
  "serve_start e mmap slotSize cfg v wcfg =
     \<lparr>wSrv = grpc_start mmap slotSize (grpc_New (svAddr (gServer cfg)) (buildGRPCOpts cfg v)),
      wWsv = ws_New wcfg,
      wStore = newSessionStore (svArena (gServer cfg)) (svMaxSessions (gServer cfg)),
      wEngine = e, wGrpc = Map.empty, wWs = Map.empty, wNext = 0, wOwner = Map.empty\<rparr>"

section \<open>The arena, one session at a time\<close>

definition slots_ok :: "session_arena \<Rightarrow> u32 set \<Rightarrow> bool" where
  "slots_ok a H \<longleftrightarrow> \<not> arClosed a \<and> arOffset a \<le> arMaxSlots a \<and> unat (arMaxSlots a) < 2 ^ 31
     \<and> length (arInFree a) = unat (arMaxSlots a) \<and> distinct (arFree a) \<and> set (arFree a) \<inter> H = {}
     \<and> set (arFree a) \<union> H = {i. i < arOffset a}
     \<and> (\<forall>i < arMaxSlots a. arInFree a ! unat i \<longleftrightarrow> i \<in> set (arFree a))"

lemma slots_ok_New:
  assumes "arena_New mmap zero_slot sz n = Inr a" "n < 2 ^ 31"
  shows "slots_ok a {}" "int (unat (arMaxSlots a)) = n" "0 < n"
proof -
  from assms(1) have a: "a = \<lparr>arMem = replicate (nat n) zero_slot, arSlotSize = arena_stride sz, arMaxSlots = word_of_int n,
      arOffset = 0, arFree = [], arInFree = replicate (nat n) False, arClosed = False\<rparr>" and n: "0 < n"
    by (auto simp: arena_New_def Let_def split: if_splits)
  have u: "unat (word_of_int n :: u32) = nat n" using assms(2) n by (simp add: unat_eq_nat_uint uint_word_of_int)
  show "slots_ok a {}" using u assms(2) n by (auto simp: a slots_ok_def word_less_nat_alt word_le_nat_alt)
  show "int (unat (arMaxSlots a)) = n" "0 < n" using u n by (simp_all add: a)
qed

lemma slots_ok_hit:
  assumes "slots_ok a H" "arFree a \<noteq> []"
  shows "popFree a = (Some (last (arFree a)), a\<lparr>arFree := butlast (arFree a), arInFree := (arInFree a)[unat (last (arFree a)) := False]\<rparr>)"
    "last (arFree a) \<notin> H" "last (arFree a) < arMaxSlots a"
    "slots_ok (a\<lparr>arFree := butlast (arFree a), arInFree := (arInFree a)[unat (last (arFree a)) := False]\<rparr>) (insert (last (arFree a)) H)"
proof -
  define x xs where "x = last (arFree a)" and "xs = butlast (arFree a)"
  have split: "arFree a = xs @ [x]" using assms(2) by (simp add: x_def xs_def)
  show "popFree a = (Some (last (arFree a)), a\<lparr>arFree := butlast (arFree a), arInFree := (arInFree a)[unat (last (arFree a)) := False]\<rparr>)"
    using assms(2) by (simp add: popFree_def Let_def)
  have x: "x \<in> set (arFree a)" "x \<notin> set xs" using split assms(1) by (auto simp: slots_ok_def)
  have "x \<in> {i. i < arOffset a}" using x(1) assms(1) unfolding slots_ok_def by blast
  moreover have "x \<notin> H" using x(1) assms(1) unfolding slots_ok_def by blast
  moreover have "arOffset a \<le> arMaxSlots a" using assms(1) by (simp add: slots_ok_def)
  ultimately show "last (arFree a) \<notin> H" "last (arFree a) < arMaxSlots a" by (auto simp: x_def intro: order.strict_trans2)
  have "(arInFree a)[unat x := False] ! unat i \<longleftrightarrow> i \<in> set xs" if "i < arMaxSlots a" for i
    using that assms(1) x split by (cases "i = x") (auto simp: slots_ok_def word_less_nat_alt nth_list_update word_unat_eq_iff [symmetric])
  then show "slots_ok (a\<lparr>arFree := butlast (arFree a), arInFree := (arInFree a)[unat (last (arFree a)) := False]\<rparr>) (insert (last (arFree a)) H)"
    using assms(1) split x unfolding slots_ok_def by (auto simp: x_def [symmetric] xs_def [symmetric])
qed

lemma slots_ok_Alloc:
  assumes "slots_ok a H" "Alloc a = (r, a')"
  shows "(case r of Inl _ \<Rightarrow> a' = a | Inr idx \<Rightarrow> idx \<notin> H \<and> idx < arMaxSlots a \<and> slots_ok a' (insert idx H)) \<and> arMaxSlots a' = arMaxSlots a"
proof (cases "arFree a = []")
  case False
  then show ?thesis using slots_ok_hit [OF assms(1) False] assms by (auto simp: Alloc_def slots_ok_def)
next
  case True
  have open_: "\<not> arClosed a" and pop: "popFree a = (None, a)" using assms(1) True by (simp_all add: slots_ok_def popFree_def)
  show ?thesis
  proof (cases "arOffset a < arMaxSlots a")
    case room: True
    have step: "unat (arOffset a + 1) = Suc (unat (arOffset a))"
      using unat_plus_1_less [OF room] by simp
    have "H = {i. i < arOffset a}" using assms(1) True by (simp add: slots_ok_def)
    then have "slots_ok (a\<lparr>arOffset := arOffset a + 1\<rparr>) (insert (arOffset a) H)"
      using assms(1) True room step by (auto simp: slots_ok_def word_less_nat_alt word_le_nat_alt word_unat_eq_iff less_Suc_eq)
    then show ?thesis using assms room True open_ pop by (auto simp: Alloc_def bump_def slots_ok_def)
  next
    case False
    have "a\<lparr>arOffset := arOffset a + 1 + NOT 0\<rparr> = a" by simp
    then have "rollback (a\<lparr>arOffset := arOffset a + 1\<rparr>) = a" by (simp add: rollback_def)
    then show ?thesis using assms False open_ pop by (auto simp: Alloc_def bump_def)
  qed
qed

lemma slots_ok_Free:
  assumes "slots_ok a H" "idx \<in> H"
  shows "slots_ok (Free zero_slot idx a) (H - {idx})" "arMaxSlots (Free zero_slot idx a) = arMaxSlots a"
proof -
  have lt: "idx \<in> {i. i < arOffset a}" and out: "idx \<notin> set (arFree a)" using assms unfolding slots_ok_def by blast+
  moreover have "arOffset a \<le> arMaxSlots a" using assms(1) by (simp add: slots_ok_def)
  ultimately have lim: "idx < arMaxSlots a" by (auto intro: order.strict_trans2)
  then have idx: "idx < arOffset a" "idx < arMaxSlots a" "idx \<notin> set (arFree a)" "\<not> arInFree a ! unat idx"
    using lt out assms(1) by (simp_all add: slots_ok_def)
  then have free: "Free zero_slot idx a = a\<lparr>arInFree := (arInFree a)[unat idx := True], arMem := (arMem a)[unat idx := zero_slot],
      arFree := arFree a @ [idx]\<rparr>"
    using assms(1) by (simp add: Free_def Free_mark_def Free_clear_def Free_append_def slots_ok_def not_le)
  have "(arInFree a)[unat idx := True] ! unat i \<longleftrightarrow> i \<in> insert idx (set (arFree a))" if "i < arMaxSlots a" for i
    using that assms(1) idx by (cases "i = idx") (auto simp: slots_ok_def word_less_nat_alt nth_list_update word_unat_eq_iff [symmetric])
  then show "slots_ok (Free zero_slot idx a) (H - {idx})" "arMaxSlots (Free zero_slot idx a) = arMaxSlots a"
    using assms idx unfolding free slots_ok_def by auto
qed

lemma slots_ok_mem: "slots_ok (a\<lparr>arMem := m\<rparr>) H = slots_ok a H"
  by (simp add: slots_ok_def)

section \<open>Registrations\<close>

text \<open>The live sessions by address, with their id and identity.\<close>

type_synonym roster = "nat \<Rightarrow> (int \<times> SubscriberID) option"

definition registered :: "nat SessionStore \<Rightarrow> SubscriberID \<Rightarrow> nat \<Rightarrow> bool" where
  "registered st sid p \<longleftrightarrow>
     (case slotFor sid st of
        Some i \<Rightarrow> ssArr st ! i = Some \<lparr>enGen = genOf sid, enSender = p\<rparr>
      | None \<Rightarrow> gget (ssOverflow st) sid = Some p)"

definition roster_ok :: "nat SessionStore \<Rightarrow> roster \<Rightarrow> bool" where
  "roster_ok st L \<longleftrightarrow>
     (\<forall>p i sid. L p = Some (i, sid) \<longrightarrow> 0 < i \<and> i < 2 ^ 32 \<and> sid AND idMask = word_of_int i \<and> registered st sid p)
     \<and> (\<forall>p q i sid sid'. L p = Some (i, sid) \<and> L q = Some (i, sid') \<longrightarrow> p = q)"

lemma registered_delivers: "registered st sid p \<Longrightarrow> Store_Deliver sid st = Some p"
  by (cases "slotFor sid st") (simp_all add: registered_def Store_Deliver_def)

lemma small_ids:
  assumes "0 < i" "i < 2 ^ 32"
  shows "word_of_int i AND idMask = (word_of_int i :: u64)" "unat (word_of_int i :: u64) = nat i"
    "sint (word_of_int i :: u64) = i"
proof -
  have u: "uint (word_of_int i :: u64) = i" using assms by (simp add: uint_word_of_int)
  show n: "unat (word_of_int i :: u64) = nat i" by (simp add: unat_eq_nat_uint u)
  have "take_bit 32 (word_of_int i :: u64) = word_of_int i"
    using assms by (simp add: word_unat_eq_iff unsigned_take_bit_eq n take_bit_nat_eq_self nat_less_iff)
  then show "word_of_int i AND idMask = (word_of_int i :: u64)" by (simp add: idMask_mask take_bit_eq_mask)
  show "sint (word_of_int i :: u64) = i" using assms by (simp add: sint_uint u signed_take_bit_int_eq_self)
qed

lemma small_ids_inj:
  "0 < i \<Longrightarrow> i < 2 ^ 32 \<Longrightarrow> 0 < j \<Longrightarrow> j < 2 ^ 32 \<Longrightarrow> (word_of_int i :: u64) = word_of_int j \<Longrightarrow> i = j"
  by (metis small_ids(3))

lemma AllocID_facts:
  assumes "AllocID slot st = (sid, st')"
  shows "sid AND idMask = slot AND idMask" "slotFor sid st = slotFor slot st" "slotFor x st' = slotFor x st"
    "ssArr st' = ssArr st" "ssOverflow st' = ssOverflow st" "slotFor slot st = None \<Longrightarrow> sid = slot \<and> st' = st"
proof -
  have "sid = slot \<or> (\<exists>g :: u32. sid = push_bit genShift (ucast g) OR (slot AND idMask))"
    using assms unfolding AllocID_def Let_def by (cases "slotFor slot st") auto
  then show low: "sid AND idMask = slot AND idMask" using low_stamp by blast
  show "slotFor sid st = slotFor slot st" by (rule slotFor_cong [OF low])
  show "slotFor x st' = slotFor x st" "ssArr st' = ssArr st" "ssOverflow st' = ssOverflow st"
      "slotFor slot st = None \<Longrightarrow> sid = slot \<and> st' = st"
    using assms unfolding AllocID_def Let_def by (cases "slotFor slot st"; auto)+
qed

lemma Register_slotFor [simp]: "slotFor x (Register sid p st) = slotFor x st"
  by (auto simp: Register_def split: option.splits)

lemma Unregister_slotFor [simp]: "slotFor x (Unregister sid st) = slotFor x st"
  by (auto simp: Unregister_def split: option.splits)

text \<open>Registering or unregistering one identity leaves identities with other low bits alone.\<close>

lemma registered_other:
  assumes "x AND idMask \<noteq> sid AND idMask"
  shows "registered (Register sid q st) x p = registered st x p" "registered (Unregister sid st) x p = registered st x p"
proof -
  have "slotFor x st \<noteq> Some i" if "slotFor sid st = Some i" for i using assms slotFor_low [OF _ that, of x] by auto
  moreover have "x \<noteq> sid" using assms by auto
  ultimately show "registered (Register sid q st) x p = registered st x p" "registered (Unregister sid st) x p = registered st x p"
    by (auto simp: registered_def Register_def Unregister_def split: option.splits)
qed

lemma registered_Register: "registered (Register sid (Some p) st) sid p"
  using slotFor_less [of sid st] by (auto simp: registered_def Register_def split: option.splits)

lemma roster_ok_open:
  assumes "roster_ok st L" "AllocID (word_of_int i) st = (sid, st')" "0 < i" "i < 2 ^ 32"
    and "\<And>q j x. L q = Some (j, x) \<Longrightarrow> j \<noteq> i"
  shows "roster_ok (Register sid (Some p) st') (L(p \<mapsto> (i, sid)))"
proof -
  note a = AllocID_facts [OF assms(2)]
  have low: "sid AND idMask = word_of_int i" using a(1) small_ids(1) [OF assms(3,4)] by simp
  have "registered (Register sid (Some p) st') x q \<and> 0 < j \<and> j < 2 ^ 32 \<and> x AND idMask = word_of_int j" if "L q = Some (j, x)" for q j x
  proof -
    have j: "0 < j" "j < 2 ^ 32" "x AND idMask = word_of_int j" "registered st x q" "j \<noteq> i"
      using assms(1) assms(5) [OF that] that by (auto simp: roster_ok_def)
    then have "x AND idMask \<noteq> sid AND idMask" using low small_ids_inj [of j i] assms(3,4) by auto
    then have "registered (Register sid (Some p) st') x q = registered st' x q" by (rule registered_other(1))
    also have "\<dots> = registered st x q" unfolding registered_def a(3) a(4) a(5) by (rule refl)
    finally show ?thesis using j by simp
  qed
  moreover have "registered (Register sid (Some p) st') sid p" by (rule registered_Register)
  ultimately show ?thesis using assms(1,3,4) low unfolding roster_ok_def by (auto dest: assms(5) split: if_splits)
qed

lemma roster_ok_close:
  assumes "roster_ok st L" "L p = Some (i, sid)"
  shows "roster_ok (Unregister sid st) (L(p := None))"
proof -
  have i: "0 < i" "i < 2 ^ 32" "sid AND idMask = word_of_int i" using assms by (auto simp: roster_ok_def)
  have "registered (Unregister sid st) x q" if "L q = Some (j, x)" "q \<noteq> p" for q j x
  proof -
    have j: "0 < j" "j < 2 ^ 32" "x AND idMask = word_of_int j" "registered st x q" using assms(1) that by (auto simp: roster_ok_def)
    have "j \<noteq> i" using assms that by (auto simp: roster_ok_def)
    then have "x AND idMask \<noteq> sid AND idMask" using small_ids_inj [of j i] i j by auto
    from registered_other(2) [OF this] j show ?thesis by simp
  qed
  then show ?thesis using assms unfolding roster_ok_def by (auto split: if_splits)
qed

section \<open>The world in operation\<close>

definition roster_of :: "world \<Rightarrow> roster" where
  "roster_of w p =
     (case wGrpc w p of
        Some s \<Rightarrow> Some (gsId s, gsSubID s)
      | None \<Rightarrow> (case wWs w p of Some s \<Rightarrow> Some (wssId s, word_of_int (wssId s)) | None \<Rightarrow> None))"

definition held :: "(nat \<Rightarrow> GrpcSession option) \<Rightarrow> u32 set" where
  "held G = {idx. \<exists>p s. G p = Some s \<and> slot_index (gsState s) = Some idx}"

text \<open>Where the ids of the two counters are; \<open>N\<close> is the number of slots.\<close>

definition counted :: "nat \<Rightarrow> world \<Rightarrow> int \<Rightarrow> bool" where
  "counted N w i \<longleftrightarrow> (int N < i \<and> i \<le> uint (srvNextID (wSrv w))) \<or> (2 ^ 31 < i \<and> i \<le> uint (wsvNextID (wWsv w)))"

definition placed :: "nat \<Rightarrow> GrpcServer \<Rightarrow> GrpcSession \<Rightarrow> bool" where
  "placed N srv s \<longleftrightarrow>
     (case slot_index (gsState s) of
        Some idx \<Rightarrow> gsId s = 1 + uint idx \<and> srvArena srv \<noteq> None
      | None \<Rightarrow> int N < gsId s \<and> gsId s \<le> uint (srvNextID srv))"

definition grpc_ids :: "nat \<Rightarrow> world \<Rightarrow> bool" where
  "grpc_ids N w \<longleftrightarrow> (\<forall>p s. wGrpc w p = Some s \<longrightarrow> wWs w p = None \<and> p < wNext w \<and> placed N (wSrv w) s)"

definition ws_ids :: "world \<Rightarrow> bool" where
  "ws_ids w \<longleftrightarrow> (\<forall>p s. wWs w p = Some s \<longrightarrow> p < wNext w \<and> 2 ^ 31 < wssId s \<and> wssId s \<le> uint (wsvNextID (wWsv w)))"

definition arena_fits :: "nat \<Rightarrow> world \<Rightarrow> bool" where
  "arena_fits N w \<longleftrightarrow> (\<forall>a. srvArena (wSrv w) = Some a \<longrightarrow> slots_ok a (held (wGrpc w)) \<and> unat (arMaxSlots a) = N \<and> ssArr (wStore w) \<noteq> [])"

definition store_fits :: "nat \<Rightarrow> 's SessionStore \<Rightarrow> bool" where
  "store_fits N st \<longleftrightarrow> ssArr st = [] \<or> ssBaseID st = 1 \<and> length (ssArr st) = N"

definition counters_ok :: "nat \<Rightarrow> world \<Rightarrow> bool" where
  "counters_ok N w \<longleftrightarrow> int N \<le> uint (srvNextID (wSrv w)) \<and> uint (srvNextID (wSrv w)) < 2 ^ 31
     \<and> 2 ^ 31 \<le> uint (wsvNextID (wWsv w)) \<and> uint (wsvNextID (wWsv w)) < 2 ^ 32"

definition owners_counted :: "nat \<Rightarrow> world \<Rightarrow> bool" where
  "owners_counted N w \<longleftrightarrow> (\<forall>sid. wOwner w sid \<noteq> None \<and> slotFor sid (wStore w) = None \<longrightarrow> (\<exists>i. sid = word_of_int i \<and> counted N w i))"

definition world_ok :: "nat \<Rightarrow> world \<Rightarrow> bool" where
  "world_ok N w \<longleftrightarrow> roster_ok (wStore w) (roster_of w) \<and> store_ok (wStore w, {}, wOwner w) \<and> grpc_ids N w \<and> ws_ids w
     \<and> arena_fits N w \<and> store_fits N (wStore w) \<and> counters_ok N w \<and> owners_counted N w"

lemma slotFor_id:
  assumes "0 < i" "i < 2 ^ 32" "store_fits N st"
  shows "int N < i \<Longrightarrow> slotFor (word_of_int i) st = None"
    "i \<le> int N \<Longrightarrow> ssArr st \<noteq> [] \<Longrightarrow> N < 2 ^ 32 \<Longrightarrow> slotFor (word_of_int i) st \<noteq> None"
proof -
  have u: "uint (word_of_int i - 1 :: u64) = i - 1" using assms by (simp add: uint_word_ariths uint_word_of_int)
  have slot: "slotFor (word_of_int i) st = (if (word_of_int i - 1 :: u64) \<ge> of_nat N then None else Some (unat (word_of_int i - 1 :: u64)))"
    if "ssArr st \<noteq> []"
    using that assms small_ids(1) [OF assms(1,2)] by (simp add: slotFor_def store_fits_def Let_def)
  show "slotFor (word_of_int i) st = None" if "int N < i"
  proof (cases "ssArr st = []")
    case False
    have "uint (of_nat N :: u64) = int N" using that assms(2) by (simp add: uint_nat unat_of_nat)
    then show ?thesis using slot [OF False] u that by (simp add: word_le_def)
  qed (simp add: slotFor_def)
  show "slotFor (word_of_int i) st \<noteq> None" if "i \<le> int N" "ssArr st \<noteq> []" "N < 2 ^ 32"
  proof -
    have "uint (of_nat N :: u64) = int N" using that(3) by (simp add: uint_nat unat_of_nat)
    then show ?thesis using slot [OF that(2)] u that(1) by (simp add: word_le_def)
  qed
qed

lemma sint_succ:
  assumes "uint (n :: u32) < 2 ^ 31 - 1"
  shows "sint (n + 1) = uint n + 1 \<and> uint (n + 1) = uint n + 1"
proof -
  have u: "uint (n + 1) = uint n + 1" using assms by (simp add: uint_word_ariths)
  have "signed_take_bit 31 (uint (n + 1)) = uint (n + 1)" using assms u by (intro signed_take_bit_int_eq_self) auto
  then show "sint (n + 1) = uint n + 1 \<and> uint (n + 1) = uint n + 1" using u sint_uint [of "n + 1"] by simp
qed

lemma sint_succ_long:
  assumes "uint (k :: u64) < 2 ^ 32 - 1"
  shows "sint (k + 1) = uint k + 1 \<and> uint (k + 1) = uint k + 1"
proof -
  have k: "0 \<le> uint k" "uint k + 1 < 2 ^ 32" using assms by auto
  have w: "word_of_int (uint k + 1) = k + 1" by simp
  have "sint (k + 1) = uint k + 1" using small_ids(3) [of "uint k + 1"] k unfolding w by linarith
  moreover have "uint (k + 1) = uint k + 1" using k by (simp add: uint_word_ariths)
  ultimately show ?thesis by (rule conjI)
qed

lemma session_identity_cases:
  assumes "session_identity srv = (state, i, srv1)" "uint (srvNextID srv) < 2 ^ 31 - 1"
    and "\<forall>a. srvArena srv = Some a \<longrightarrow> slots_ok a H"
  obtains (slot) a idx a' where "srvArena srv = Some a" "slot_index state = Some idx" "idx \<notin> H" "idx < arMaxSlots a"
      "i = 1 + uint idx" "srv1 = srv\<lparr>srvArena := Some a'\<rparr>" "slots_ok a' (insert idx H)" "arMaxSlots a' = arMaxSlots a"
    | (counter) "slot_index state = None" "i = uint (srvNextID srv) + 1" "uint (srvNextID srv1) = uint (srvNextID srv) + 1"
      "srv1 = srv\<lparr>srvNextID := srvNextID srv + 1\<rparr>"
proof -
  note succ = sint_succ [OF assms(2)]
  have count: thesis if "counter_state srv = (state, i, srv1)"
  proof (rule counter)
    show "srv1 = srv\<lparr>srvNextID := srvNextID srv + 1\<rparr>" "slot_index state = None"
      using that by (auto simp: counter_state_def Let_def)
    then show "uint (srvNextID srv1) = uint (srvNextID srv) + 1" using succ by (cases srv) (simp del: uint_plus_simple_iff)
    have "i = sint (srvNextID srv + 1)" using that by (auto simp: counter_state_def Let_def)
    then show "i = uint (srvNextID srv) + 1" using succ by (rule trans [OF _ conjunct1])
  qed
  show thesis
  proof (cases "srvArena srv")
    case None
    then show thesis using assms(1) by (intro count) (simp add: session_identity_def)
  next
    case (Some a)
    obtain r a1 where al: "Alloc a = (r, a1)" by (cases "Alloc a")
    note ok = slots_ok_Alloc [OF assms(3) [rule_format, OF Some] al]
    show thesis
    proof (cases r)
      case (Inl err)
      then have "a1 = a" using ok by simp
      then have "srv\<lparr>srvArena := Some a1\<rparr> = srv" using Some by (cases srv) simp
      then show thesis using assms(1) Some al Inl by (intro count) (simp add: session_identity_def NewArenaStateAuto_def)
    next
      case (Inr idx)
      show thesis
      proof (rule slot)
        let ?st = "\<lparr>asId = 1 + uint idx, asIdx = idx, asFreed = False, asChannels = None, asPub = None\<rparr>"
        let ?a = "put_slot ?st ((slot_of ?st a1)\<lparr>slID := word_of_int (1 + uint idx)\<rparr>) a1"
        have run: "state = SlotState ?st" "i = 1 + uint idx" "srv1 = srv\<lparr>srvArena := Some ?a\<rparr>"
          using assms(1) Some al Inr by (auto simp: session_identity_def NewArenaStateAuto_def Let_def)
        show "srvArena srv = Some a" by (rule Some)
        show "slot_index state = Some idx" "i = 1 + uint idx" "srv1 = srv\<lparr>srvArena := Some ?a\<rparr>" using run by simp_all
        show "idx \<notin> H" "idx < arMaxSlots a" "slots_ok ?a (insert idx H)" "arMaxSlots ?a = arMaxSlots a"
          using ok Inr by (simp_all add: put_slot_def slots_ok_mem)
      qed
    qed
  qed
qed

section \<open>Every step keeps the world in order\<close>

lemma grpc_create_runs:
  assumes "grpc_createSession p srv (Some st) = (Some s, srv', Some st2)"
  obtains state i srv1 sid st1 where "session_identity srv = (state, i, srv1)" "AllocID (word_of_int i) st = (sid, st1)"
    "st2 = Register sid (Some p) st1" "gsId s = i" "gsSubID s = sid" "gsState s = state"
    "srvArena srv' = srvArena srv1" "srvNextID srv' = srvNextID srv1" "srvSessions srv' = gput i p (srvSessions srv1)"
proof -
  obtain state i srv1 where r: "session_identity srv = (state, i, srv1)" by (cases "session_identity srv") auto
  obtain sid st1 where a: "AllocID (word_of_int i) st = (sid, st1)" by (cases "AllocID (word_of_int i) st") auto
  show thesis using assms r a by (intro that [of state i srv1 sid st1])
    (auto simp: grpc_createSession_def Let_def split: option.splits)
qed

lemma slotFor_None_flat: "slotFor sid st = Some k \<Longrightarrow> store_ok (st, F, ow) \<Longrightarrow> k < length (ssGen st)"
  using slotFor_less [of sid st k] by (auto simp: store_ok_def)

lemma store_fits_updates [simp]:
  "store_fits N (Register sid p st) = store_fits N st" "store_fits N (Unregister sid st) = store_fits N st"
  by (auto simp: store_fits_def Register_def Unregister_def split: option.splits)

lemma store_fits_AllocID: "AllocID slot st = (sid, st') \<Longrightarrow> store_fits N st' = store_fits N st"
  by (auto simp: store_fits_def AllocID_def Let_def split: option.splits)

lemma flat_updates [simp]:
  "ssArr (Register sid p st) = [] \<longleftrightarrow> ssArr st = []" "ssArr (Unregister sid st) = [] \<longleftrightarrow> ssArr st = []"
  by (auto simp: Register_def Unregister_def split: option.splits)

text \<open>The ids in use, and the id a new session is given.\<close>

lemma roster_cases:
  assumes "roster_of w p = Some (i, sid)"
  obtains (grpc) s where "wGrpc w p = Some s" "i = gsId s" "sid = gsSubID s"
    | (ws) s where "wGrpc w p = None" "wWs w p = Some s" "i = wssId s" "sid = word_of_int (wssId s)"
  using assms by (auto simp: roster_of_def split: option.splits)

lemma grpc_id_cases:
  assumes "grpc_ids N w" "arena_fits N w" "wGrpc w p = Some s"
  obtains (slot) idx where "slot_index (gsState s) = Some idx" "gsId s = 1 + uint idx" "idx \<in> held (wGrpc w)" "gsId s \<le> int N"
    | (counter) "slot_index (gsState s) = None" "int N < gsId s" "gsId s \<le> uint (srvNextID (wSrv w))"
proof (cases "slot_index (gsState s)")
  case None
  moreover have "placed N (wSrv w) s" using assms(1,3) unfolding grpc_ids_def by blast
  ultimately show thesis using counter by (simp add: placed_def)
next
  case (Some idx)
  moreover have "placed N (wSrv w) s" using assms(1,3) unfolding grpc_ids_def by blast
  ultimately have i: "gsId s = 1 + uint idx" and "srvArena (wSrv w) \<noteq> None" by (simp_all add: placed_def)
  moreover have h: "idx \<in> held (wGrpc w)" using Some assms(3) by (auto simp: held_def)
  ultimately obtain a where a: "slots_ok a (held (wGrpc w))" "unat (arMaxSlots a) = N" using assms(2) by (auto simp: arena_fits_def)
  then have "idx \<in> {i. i < arOffset a}" "arOffset a \<le> arMaxSlots a" using h unfolding slots_ok_def by blast+
  then have "idx < arMaxSlots a" by (auto intro: order.strict_trans2)
  then have "uint idx < uint (arMaxSlots a)" by (simp add: word_less_def)
  moreover have "uint (arMaxSlots a) = int N" unfolding a(2) [symmetric] by (rule uint_nat)
  ultimately have "uint idx < int N" by linarith
  then have "gsId s \<le> int N" unfolding i by linarith
  then show thesis by (rule slot [OF Some i h])
qed

lemma old_id_other:
  assumes "grpc_ids N w" "ws_ids w" "arena_fits N w" "counters_ok N w" "roster_of w p = Some (j, x)"
  shows "idx \<notin> held (wGrpc w) \<Longrightarrow> uint idx < int N \<Longrightarrow> j \<noteq> 1 + uint idx"
    "j \<noteq> uint (srvNextID (wSrv w)) + 1" "j \<noteq> uint (wsvNextID (wWsv w)) + 1"
proof -
  from assms(5) have "(idx \<notin> held (wGrpc w) \<longrightarrow> uint idx < int N \<longrightarrow> j \<noteq> 1 + uint idx)
    \<and> j \<noteq> uint (srvNextID (wSrv w)) + 1 \<and> j \<noteq> uint (wsvNextID (wWsv w)) + 1"
  proof (cases rule: roster_cases)
    case (grpc s)
    from assms(1,3) grpc(1) show ?thesis
    proof (cases rule: grpc_id_cases)
      case (slot idx')
      then show ?thesis using grpc assms(4) by (auto simp: counters_ok_def word_uint_eq_iff [symmetric])
    next
      case counter
      then show ?thesis using grpc assms(4) by (auto simp: counters_ok_def)
    qed
  next
    case (ws s)
    then show ?thesis using assms(2,4) by (fastforce simp: ws_ids_def counters_ok_def)
  qed
  then show "idx \<notin> held (wGrpc w) \<Longrightarrow> uint idx < int N \<Longrightarrow> j \<noteq> 1 + uint idx"
    "j \<noteq> uint (srvNextID (wSrv w)) + 1" "j \<noteq> uint (wsvNextID (wWsv w)) + 1" by blast+
qed

text \<open>The store and its owners, when a session opens or closes.\<close>

lemma store_open:
  assumes "store_ok (st, {}, ow)" "AllocID slot st = (sid, st1)"
    and "case slotFor slot st of Some k \<Rightarrow> ssGen st ! k + 1 \<noteq> 0 | None \<Rightarrow> ow slot = None"
  shows "store_ok (Register sid (Some p) st1, {}, ow(sid \<mapsto> p))"
proof -
  have "store_ok (st1, insert sid {}, ow)" using assms(3) by (intro store_ok_alloc [OF assms(1,2)]) (auto split: option.splits)
  from store_ok_register [OF this, of sid p] show ?thesis by simp
qed

lemma store_close: "store_ok (st, {}, ow) \<Longrightarrow> store_ok (Unregister sid st, {}, ow)"
  by (rule store_ok_step [OF store_step.unregister])

lemma counter_unowned:
  assumes "owners_counted N w" "0 < i" "i < 2 ^ 32" "\<not> counted N w i" "counters_ok N w"
    and "slotFor (word_of_int i) (wStore w) = None"
  shows "wOwner w (word_of_int i) = None"
proof (rule ccontr)
  assume "wOwner w (word_of_int i) \<noteq> None"
  then obtain j where j: "(word_of_int i :: u64) = word_of_int j" "counted N w j"
    using assms(1,6) unfolding owners_counted_def by blast
  then have "0 < j" "j < 2 ^ 32" using assms(5) by (auto simp: counted_def counters_ok_def)
  then have "i = j" using small_ids_inj assms(2,3) j(1) by blast
  with j(2) assms(4) show False by simp
qed

lemma generations_fresh:
  assumes "counters_fresh w" "store_ok (wStore w, F, ow)" "slotFor slot (wStore w) = Some k"
  shows "ssGen (wStore w) ! k + 1 \<noteq> 0"
  using assms slotFor_None_flat [OF assms(3,2)] by (simp add: counters_fresh_def)

lemma roster_of_fun: "(\<And>q. q \<noteq> p \<Longrightarrow> roster_of w' q = roster_of w q) \<Longrightarrow> roster_of w' p = x \<Longrightarrow> roster_of w' = (roster_of w)(p := x)"
  by (rule ext) simp

lemma no_future_sessions:
  assumes "grpc_ids N w" "ws_ids w" "wNext w \<le> p"
  shows "wGrpc w p = None" "wWs w p = None"
proof -
  have "p < wNext w" if "wGrpc w p = Some s" for s using assms(1) that unfolding grpc_ids_def by blast
  then show "wGrpc w p = None" using assms(3) by (cases "wGrpc w p") auto
  have "p < wNext w" if "wWs w p = Some s" for s using assms(2) that unfolding ws_ids_def by blast
  then show "wWs w p = None" using assms(3) by (cases "wWs w p") auto
qed

lemma owners_counted_open:
  assumes "owners_counted N w" "\<And>j. counted N w j \<Longrightarrow> counted N w' j" "\<And>x. slotFor x (wStore w') = slotFor x (wStore w)"
    and "wOwner w' = (wOwner w)(sid \<mapsto> p)" "slotFor sid (wStore w) = None \<Longrightarrow> \<exists>i. sid = word_of_int i \<and> counted N w' i"
  shows "owners_counted N w'"
  using assms unfolding owners_counted_def by (metis fun_upd_apply)

lemma world_ok_ws_open:
  assumes "world_ok N w" "counters_fresh w" "ws_createSession (wNext w) now (wWsv w) (wStore w) = (s, wsv, st)"
  shows "world_ok N (w\<lparr>wWsv := wsv, wStore := st, wWs := (wWs w)(wNext w \<mapsto> s), wNext := Suc (wNext w),
                    wOwner := (wOwner w)(word_of_int (wssId s) \<mapsto> wNext w)\<rparr>)" (is "world_ok N ?w")
proof -
  let ?i = "uint (wsvNextID (wWsv w)) + 1" and ?p = "wNext w"
  have ok: "roster_ok (wStore w) (roster_of w)" "store_ok (wStore w, {}, wOwner w)" "grpc_ids N w" "ws_ids w"
      "arena_fits N w" "store_fits N (wStore w)" "counters_ok N w" "owners_counted N w"
    using assms(1) by (auto simp: world_ok_def)
  have succ: "sint (wsvNextID (wWsv w) + 1) = ?i" "uint (wsvNextID (wWsv w) + 1) = ?i"
    using sint_succ_long [of "wsvNextID (wWsv w)"] assms(2) by (auto simp only: counters_fresh_def)
  have s: "wssId s = ?i" and st: "st = Register (word_of_int ?i) (Some ?p) (wStore w)" and next': "uint (wsvNextID wsv) = ?i"
    using assms(3) succ by (auto simp: ws_createSession_def Let_def)
  have i: "2 ^ 31 < ?i" "?i < 2 ^ 32" "int N < ?i" "0 < ?i" "uint (srvNextID (wSrv w)) < ?i" using ok(7) assms(2)
    by (auto simp: counters_ok_def counters_fresh_def)
  have slot: "slotFor (word_of_int ?i) (wStore w) = None" by (rule slotFor_id(1) [OF i(4,2) ok(6) i(3)])
  then have al: "AllocID (word_of_int ?i) (wStore w) = (word_of_int ?i, wStore w)" by (simp add: AllocID_def)
  have none: "wGrpc w ?p = None" "wWs w ?p = None" using no_future_sessions [OF ok(3,4)] by simp_all
  have roster: "roster_of ?w = (roster_of w)(?p \<mapsto> (?i, word_of_int ?i))"
  proof (rule roster_of_fun)
    show "roster_of ?w q = roster_of w q" if "q \<noteq> ?p" for q using that unfolding roster_of_def by (cases "wGrpc w q") simp_all
    show "roster_of ?w ?p = Some (?i, word_of_int ?i)" unfolding roster_of_def using none s by simp
  qed
  have "j \<noteq> ?i" if "roster_of w q = Some (j, x)" for q j x by (rule old_id_other(3) [OF ok(3,4,5,7) that])
  then have 1: "roster_ok (wStore ?w) (roster_of ?w)" unfolding roster using roster_ok_open [OF ok(1) al i(4,2)] st by simp
  have "wOwner w (word_of_int ?i) = None"
    by (rule counter_unowned [OF ok(8) i(4,2) _ ok(7) slot]) (use i in \<open>auto simp: counted_def\<close>)
  then have 2: "store_ok (wStore ?w, {}, wOwner ?w)" using store_open [OF ok(2) al, of ?p] slot st s by simp
  have 3: "grpc_ids N ?w" using ok(3) unfolding grpc_ids_def by (auto simp: none less_Suc_eq)
  have 4: "ws_ids ?w" unfolding ws_ids_def
  proof (intro allI impI)
    fix q x assume "wWs ?w q = Some x"
    then have "q = ?p \<and> x = s \<or> wWs w q = Some x" by (auto split: if_splits)
    then show "q < wNext ?w \<and> 2 ^ 31 < wssId x \<and> wssId x \<le> uint (wsvNextID (wWsv ?w))"
    proof
      assume "wWs w q = Some x"
      then have "q < ?p \<and> 2 ^ 31 < wssId x \<and> wssId x \<le> uint (wsvNextID (wWsv w))" using ok(4) unfolding ws_ids_def by blast
      then show ?thesis using next' by simp
    qed (use i s next' in simp)
  qed
  have 7: "counters_ok N ?w" using ok(7) i next' by (simp add: counters_ok_def)
  have "counted N ?w j" if "counted N w j" for j using that next' by (auto simp: counted_def)
  moreover have "counted N ?w ?i" using i next' by (simp add: counted_def)
  then have "\<exists>j. (word_of_int ?i :: u64) = word_of_int j \<and> counted N ?w j" by blast
  ultimately have 8: "owners_counted N ?w"
    by (intro owners_counted_open [OF ok(8), where sid = "word_of_int ?i" and p = ?p]) (simp_all add: s st)
  show ?thesis using 1 2 3 4 ok(5,6) 7 8 st by (simp add: world_ok_def arena_fits_def)
qed

lemma held_upd:
  "held (G(p := x)) = {idx. \<exists>q s. q \<noteq> p \<and> G q = Some s \<and> slot_index (gsState s) = Some idx}
     \<union> (case x of None \<Rightarrow> {} | Some s \<Rightarrow> set_option (slot_index (gsState s)))"
  by (auto simp: held_def split: option.splits if_splits)

lemma held_new: "G p = None \<Longrightarrow> held (G(p \<mapsto> s)) = set_option (slot_index (gsState s)) \<union> held G"
  unfolding held_upd by (auto simp: held_def) (metis option.distinct(1))

lemma held_same: "G p = Some s \<Longrightarrow> slot_index (gsState s') = slot_index (gsState s) \<Longrightarrow> held (G(p \<mapsto> s')) = held G"
  using held_upd [of G p "Some s"] held_upd [of G p "Some s'"] by (simp add: fun_upd_idem)

lemma grpc_ids_mono:
  assumes "grpc_ids N w" "wWs w' = wWs w" "wNext w' = wNext w" "srvNextID (wSrv w') = srvNextID (wSrv w)"
    and "(srvArena (wSrv w') = None) = (srvArena (wSrv w) = None)"
    and "\<And>q x. wGrpc w' q = Some x \<Longrightarrow> \<exists>y. wGrpc w q = Some y \<and> gsId x = gsId y \<and> slot_index (gsState x) = slot_index (gsState y)"
  shows "grpc_ids N w'"
  unfolding grpc_ids_def
proof (intro allI impI)
  fix q x assume "wGrpc w' q = Some x"
  then obtain y where y: "wGrpc w q = Some y" "gsId x = gsId y" "slot_index (gsState x) = slot_index (gsState y)"
    using assms(6) by blast
  have "wWs w q = None \<and> q < wNext w \<and> placed N (wSrv w) y" using assms(1) y(1) unfolding grpc_ids_def by blast
  then show "wWs w' q = None \<and> q < wNext w' \<and> placed N (wSrv w') x"
    using assms(2-5) y(2,3) by (cases "slot_index (gsState y)") (simp_all add: placed_def)
qed

lemma world_ok_grpc_open:
  assumes "world_ok N w" "counters_fresh w" "grpc_createSession (wNext w) (wSrv w) (Some (wStore w)) = (Some s, srv, Some st)"
  shows "world_ok N (w\<lparr>wSrv := srv, wStore := st, wGrpc := (wGrpc w)(wNext w \<mapsto> s), wNext := Suc (wNext w),
                    wOwner := (wOwner w)(gsSubID s \<mapsto> wNext w)\<rparr>)" (is "world_ok N ?w")
proof -
  let ?p = "wNext w"
  have ok: "roster_ok (wStore w) (roster_of w)" "store_ok (wStore w, {}, wOwner w)" "grpc_ids N w" "ws_ids w"
      "arena_fits N w" "store_fits N (wStore w)" "counters_ok N w" "owners_counted N w"
    using assms(1) by (auto simp: world_ok_def)
  from assms(3) obtain state i srv1 sid st1 where run: "session_identity (wSrv w) = (state, i, srv1)"
      "AllocID (word_of_int i) (wStore w) = (sid, st1)" "st = Register sid (Some ?p) st1" "gsId s = i" "gsSubID s = sid"
      "gsState s = state" "srvArena srv = srvArena srv1" "srvNextID srv = srvNextID srv1"
    by (rule grpc_create_runs)
  have none: "wGrpc w ?p = None" "wWs w ?p = None" using no_future_sessions [OF ok(3,4)] by simp_all
  note al = AllocID_facts [OF run(2)]
  have N: "int N < 2 ^ 31" using ok(7) by (simp add: counters_ok_def)
  have roster: "roster_of ?w = (roster_of w)(?p \<mapsto> (i, sid))"
  proof (rule roster_of_fun)
    show "roster_of ?w q = roster_of w q" if "q \<noteq> ?p" for q using that unfolding roster_of_def by (cases "wGrpc w q") simp_all
    show "roster_of ?w ?p = Some (i, sid)" unfolding roster_of_def using run(4,5) by simp
  qed
  have room: "uint (srvNextID (wSrv w)) < 2 ^ 31 - 1" using assms(2) by (simp add: counters_fresh_def)
  have slots: "\<forall>a. srvArena (wSrv w) = Some a \<longrightarrow> slots_ok a (held (wGrpc w))" using ok(5) by (simp add: arena_fits_def)
  have "0 < i \<and> i < 2 ^ 31 \<and> (\<forall>q j x. roster_of w q = Some (j, x) \<longrightarrow> j \<noteq> i) \<and> placed N srv s
      \<and> (slotFor (word_of_int i) (wStore w) = None \<longrightarrow> wOwner w (word_of_int i) = None \<and> counted N ?w i)
      \<and> arena_fits N ?w \<and> uint (srvNextID (wSrv w)) \<le> uint (srvNextID srv) \<and> uint (srvNextID srv) < 2 ^ 31
      \<and> (srvArena (wSrv w) \<noteq> None \<longrightarrow> srvArena srv \<noteq> None)"
  proof (cases rule: session_identity_cases [OF run(1) room slots, consumes 0, case_names slot counter])
    case (slot a idx a')
    have lim: "unat (arMaxSlots a) = N" "ssArr (wStore w) \<noteq> []" using ok(5) slot(1) by (auto simp: arena_fits_def)
    have idx: "uint idx < int N" using slot(4) unfolding lim(1) [symmetric] word_less_def uint_nat .
    have i: "0 < i" "i < 2 ^ 31" "i \<le> int N" using slot(5) idx N uint_ge_0 [of idx] by linarith+
    have "slotFor (word_of_int i) (wStore w) \<noteq> None" using i N by (intro slotFor_id(2) [OF _ _ ok(6) i(3) lim(2)]) auto
    moreover have "j \<noteq> i" if "roster_of w q = Some (j, x)" for q j x
      unfolding slot(5) by (rule old_id_other(1) [OF ok(3,4,5,7) that slot(3) idx])
    moreover have "placed N srv s" using run slot by (simp add: placed_def)
    moreover have "held (wGrpc ?w) = insert idx (held (wGrpc w))"
      using run(6) slot(2) none by (simp add: held_new)
    then have "arena_fits N ?w" using run slot lim by (simp add: arena_fits_def al)
    ultimately show ?thesis using i slot(6) run(7,8) ok(7) by (auto simp: counters_ok_def)
  next
    case counter
    have i: "0 < i" "i < 2 ^ 31" "int N < i" using counter(2) ok(7) assms(2) by (auto simp: counters_ok_def counters_fresh_def)
    have "slotFor (word_of_int i) (wStore w) = None" using i by (intro slotFor_id(1) [OF _ _ ok(6)]) auto
    moreover have "wOwner w (word_of_int i) = None"
      by (rule counter_unowned [OF ok(8) _ _ _ ok(7) calculation]) (use i counter(2) in \<open>auto simp: counted_def\<close>)
    moreover have "j \<noteq> i" if "roster_of w q = Some (j, x)" for q j x
      unfolding counter(2) by (rule old_id_other(2) [OF ok(3,4,5,7) that])
    moreover have "placed N srv s" using run counter i by (simp add: placed_def)
    moreover have "held (wGrpc ?w) = held (wGrpc w)" using run(6) counter(1) none by (simp add: held_new)
    then have "arena_fits N ?w" using run counter ok(5) by (simp add: arena_fits_def al)
    moreover have "counted N ?w i" using i counter run(8) by (simp add: counted_def)
    ultimately show ?thesis using i counter run(7,8) by simp
  qed
  then have i: "0 < i" "i < 2 ^ 31" "\<And>q j x. roster_of w q = Some (j, x) \<Longrightarrow> j \<noteq> i" "placed N srv s"
      "slotFor (word_of_int i) (wStore w) = None \<Longrightarrow> wOwner w (word_of_int i) = None \<and> counted N ?w i" "arena_fits N ?w"
      "uint (srvNextID (wSrv w)) \<le> uint (srvNextID srv)" "uint (srvNextID srv) < 2 ^ 31"
      "srvArena (wSrv w) \<noteq> None \<Longrightarrow> srvArena srv \<noteq> None" by blast+
  have 1: "roster_ok (wStore ?w) (roster_of ?w)" unfolding roster using roster_ok_open [OF ok(1) run(2), of ?p] i(1,2,3) run(3) by simp
  have "store_ok (Register sid (Some ?p) st1, {}, (wOwner w)(sid \<mapsto> ?p))"
    by (rule store_open [OF ok(2) run(2)]) (use i(5) generations_fresh [OF assms(2) ok(2)] in \<open>auto split: option.splits\<close>)
  then have 2: "store_ok (wStore ?w, {}, wOwner ?w)" using run(3,5) by simp
  have 3: "grpc_ids N ?w" unfolding grpc_ids_def
  proof (intro allI impI)
    fix q x assume q: "wGrpc ?w q = Some x"
    show "wWs ?w q = None \<and> q < wNext ?w \<and> placed N (wSrv ?w) x"
    proof (cases "q = ?p")
      case False
      then have "wWs w q = None \<and> q < ?p \<and> placed N (wSrv w) x" using q ok(3) unfolding grpc_ids_def by simp
      then show ?thesis using i(7,9) by (auto simp: placed_def split: option.splits)
    qed (use q none i(4) in simp)
  qed
  have 4: "ws_ids ?w" using ok(4) by (auto simp: ws_ids_def less_Suc_eq)
  have 6: "store_fits N (wStore ?w)" using ok(6) store_fits_AllocID [OF run(2)] run(3) by simp
  have 7: "counters_ok N ?w" using ok(7) i(7,8) by (simp add: counters_ok_def)
  have "counted N ?w j" if "counted N w j" for j using that i(7) by (auto simp: counted_def)
  then have 8: "owners_counted N ?w"
    by (rule owners_counted_open [OF ok(8)]) (use run(3,5) al i(5) in auto)
  show ?thesis using 1 2 3 4 i(6) 6 7 8 by (simp add: world_ok_def)
qed

lemma world_ok_ws_close:
  assumes "world_ok N w" "wWs w p = Some s" "ws_cleanupSession p now s (wWsv w) (wStore w) (wEngine w) = (s', wsv, st, e)"
  shows "world_ok N (w\<lparr>wWsv := wsv, wStore := st, wEngine := e, wWs := (wWs w)(p := None)\<rparr>)" (is "world_ok N ?w")
proof -
  have ok: "roster_ok (wStore w) (roster_of w)" "store_ok (wStore w, {}, wOwner w)" "grpc_ids N w" "ws_ids w"
      "arena_fits N w" "store_fits N (wStore w)" "counters_ok N w" "owners_counted N w"
    using assms(1) by (auto simp: world_ok_def)
  have st: "st = Unregister (word_of_int (wssId s)) (wStore w)" and next': "wsvNextID wsv = wsvNextID (wWsv w)"
    using assms(3) by (auto simp: ws_cleanupSession_def split: prod.splits)
  have none: "wGrpc w p = None" using ok(3) assms(2) by (cases "wGrpc w p") (auto simp: grpc_ids_def)
  have roster: "roster_of ?w = (roster_of w)(p := None)"
  proof (rule roster_of_fun)
    show "roster_of ?w q = roster_of w q" if "q \<noteq> p" for q using that unfolding roster_of_def by (cases "wGrpc w q") simp_all
  qed (simp add: roster_of_def none)
  have "roster_of w p = Some (wssId s, word_of_int (wssId s))" using none assms(2) by (simp add: roster_of_def)
  from roster_ok_close [OF ok(1) this] have 1: "roster_ok (wStore ?w) (roster_of ?w)" unfolding roster by (simp add: st)
  have 2: "store_ok (wStore ?w, {}, wOwner ?w)" using store_close [OF ok(2)] st by simp
  have 3: "grpc_ids N ?w" using ok(3) by (auto simp: grpc_ids_def)
  have 4: "ws_ids ?w" using ok(4) next' by (auto simp: ws_ids_def)
  have 7: "counters_ok N ?w" using ok(7) next' by (simp add: counters_ok_def)
  have 8: "owners_counted N ?w" using ok(8) next' st by (simp add: owners_counted_def counted_def)
  show ?thesis using 1 2 3 4 ok(5,6) 7 8 st by (simp add: world_ok_def arena_fits_def)
qed

lemma grpc_cleanup_runs:
  assumes "grpc_cleanupSession p now s srv (Some st) e = (s', srv', Some st', e')"
  obtains srv1 where "st' = Unregister (gsSubID s) st" "srv' = close_state (gsState s) srv1"
    "srvArena srv1 = srvArena srv" "srvNextID srv1 = srvNextID srv"
    "srvSessions srv1 = gdel (gsId s) (srvSessions srv)" "e' = UnsubscribeAll now (gsSubID s) e"
  using assms by (auto simp: grpc_cleanupSession_def Let_def split: prod.splits)

text \<open>Closing a session gives its slot back and no other one.\<close>

lemma held_close:
  assumes "roster_ok st (roster_of w)" "grpc_ids N w" "wGrpc w p = Some s"
  shows "held ((wGrpc w)(p := None)) = (case slot_index (gsState s) of None \<Rightarrow> held (wGrpc w) | Some idx \<Rightarrow> held (wGrpc w) - {idx})"
proof -
  have "q = p" if "wGrpc w q = Some t" "slot_index (gsState t) = Some idx" "slot_index (gsState s) = Some idx" for q t idx
  proof -
    have "placed N (wSrv w) t" "placed N (wSrv w) s" using assms(2,3) that(1) unfolding grpc_ids_def by blast+
    then have "gsId t = gsId s" using that(2,3) by (simp add: placed_def)
    moreover have "roster_of w q = Some (gsId t, gsSubID t)" "roster_of w p = Some (gsId s, gsSubID s)"
      using that(1) assms(3) by (simp_all add: roster_of_def)
    ultimately show ?thesis using assms(1) unfolding roster_ok_def by metis
  qed
  then have "held ((wGrpc w)(p := None)) = held (wGrpc w) - set_option (slot_index (gsState s))"
    using assms(3) unfolding held_upd by (auto simp: held_def) (metis option.inject)+
  then show ?thesis by (cases "slot_index (gsState s)") simp_all
qed

lemma close_state_facts:
  assumes "\<forall>a. srvArena srv = Some a \<longrightarrow> slots_ok a H" "\<forall>idx. slot_index s = Some idx \<longrightarrow> idx \<in> H"
  shows "srvNextID (close_state s srv) = srvNextID srv" "(srvArena (close_state s srv) = None) = (srvArena srv = None)"
    "\<forall>a'. srvArena (close_state s srv) = Some a' \<longrightarrow> (\<exists>a. srvArena srv = Some a \<and> arMaxSlots a' = arMaxSlots a
       \<and> slots_ok a' (case slot_index s of None \<Rightarrow> H | Some idx \<Rightarrow> H - {idx}))"
  using assms slots_ok_Free
  by (auto simp: close_state_def ArenaState_Close_def split: session_state.splits option.splits if_splits)

lemma world_ok_grpc_close:
  assumes "world_ok N w" "wGrpc w p = Some s"
    and "grpc_cleanupSession p now s (wSrv w) (Some (wStore w)) (wEngine w) = (s', srv, Some st, e)"
  shows "world_ok N (w\<lparr>wSrv := srv, wStore := st, wEngine := e, wGrpc := (wGrpc w)(p := None)\<rparr>)" (is "world_ok N ?w")
proof -
  have ok: "roster_ok (wStore w) (roster_of w)" "store_ok (wStore w, {}, wOwner w)" "grpc_ids N w" "ws_ids w"
      "arena_fits N w" "store_fits N (wStore w)" "counters_ok N w" "owners_counted N w"
    using assms(1) by (auto simp: world_ok_def)
  from assms(3) obtain srv1 where st: "st = Unregister (gsSubID s) (wStore w)" and srv: "srv = close_state (gsState s) srv1"
      "srvArena srv1 = srvArena (wSrv w)" "srvNextID srv1 = srvNextID (wSrv w)"
    by (rule grpc_cleanup_runs)
  have slots: "\<forall>a. srvArena srv1 = Some a \<longrightarrow> slots_ok a (held (wGrpc w))" using ok(5) srv(2) by (simp add: arena_fits_def)
  have mine: "\<forall>idx. slot_index (gsState s) = Some idx \<longrightarrow> idx \<in> held (wGrpc w)" using assms(2) by (auto simp: held_def)
  note close = close_state_facts [OF slots mine, folded srv(1), unfolded srv(2,3)]
  have none: "wWs w p = None" using ok(3) assms(2) unfolding grpc_ids_def by blast
  have roster: "roster_of ?w = (roster_of w)(p := None)"
  proof (rule roster_of_fun)
    show "roster_of ?w q = roster_of w q" if "q \<noteq> p" for q using that unfolding roster_of_def by (cases "wGrpc w q") simp_all
  qed (simp add: roster_of_def none)
  have "roster_of w p = Some (gsId s, gsSubID s)" using assms(2) by (simp add: roster_of_def)
  from roster_ok_close [OF ok(1) this] have 1: "roster_ok (wStore ?w) (roster_of ?w)" unfolding roster by (simp add: st)
  have 2: "store_ok (wStore ?w, {}, wOwner ?w)" using store_close [OF ok(2)] st by simp
  have 3: "grpc_ids N ?w" by (rule grpc_ids_mono [OF ok(3)]) (use close(1,2) in \<open>auto split: if_splits\<close>)
  have 4: "ws_ids ?w" using ok(4) by (auto simp: ws_ids_def)
  have "held (wGrpc ?w) = (case slot_index (gsState s) of None \<Rightarrow> held (wGrpc w) | Some idx \<Rightarrow> held (wGrpc w) - {idx})"
    using held_close [OF ok(1,3) assms(2)] by simp
  then have 5: "arena_fits N ?w" using close(3) ok(5) st by (fastforce simp: arena_fits_def)
  have 7: "counters_ok N ?w" using ok(7) close(1) by (simp add: counters_ok_def)
  have 8: "owners_counted N ?w" using ok(8) close(1) st by (simp add: owners_counted_def counted_def)
  show ?thesis using 1 2 3 4 5 ok(6) 7 8 st by (simp add: world_ok_def)
qed

lemma world_ok_other:
  assumes "world_ok N w" "wGrpc w p = Some s" "gsId s' = gsId s" "gsSubID s' = gsSubID s" "slot_index (gsState s') = slot_index (gsState s)"
  shows "world_ok N (w\<lparr>wSrv := (wSrv w)\<lparr>srvArena := map_option (arMem_update (\<lambda>_. m)) (srvArena (wSrv w))\<rparr>,
                    wEngine := e, wGrpc := (wGrpc w)(p \<mapsto> s')\<rparr>)" (is "world_ok N ?w")
proof -
  have ok: "roster_ok (wStore w) (roster_of w)" "store_ok (wStore w, {}, wOwner w)" "grpc_ids N w" "ws_ids w"
      "arena_fits N w" "store_fits N (wStore w)" "counters_ok N w" "owners_counted N w"
    using assms(1) by (auto simp: world_ok_def)
  have "roster_of ?w q = roster_of w q" for q using assms(2-4) unfolding roster_of_def by (cases "wGrpc w q"; cases "q = p") simp_all
  then have roster: "roster_of ?w = roster_of w" by (rule ext)
  have "held ((wGrpc w)(p \<mapsto> s')) = held (wGrpc w)" using assms(2,5) by (rule held_same)
  then have 5: "arena_fits N ?w" using ok(5) by (fastforce simp: arena_fits_def slots_ok_mem)
  have 3: "grpc_ids N ?w" by (rule grpc_ids_mono [OF ok(3)]) (use assms(2,3,5) in \<open>auto split: if_splits\<close>)
  show ?thesis using ok 3 5 unfolding world_ok_def roster
    by (simp add: ws_ids_def counters_ok_def owners_counted_def counted_def)
qed

lemma world_ok_ws_other:
  assumes "world_ok N w" "wWs w p = Some s" "wssId s' = wssId s"
  shows "world_ok N (w\<lparr>wEngine := e, wWs := (wWs w)(p \<mapsto> s')\<rparr>)" (is "world_ok N ?w")
proof -
  have ok: "grpc_ids N w" "ws_ids w" using assms(1) by (simp_all add: world_ok_def)
  have none: "wGrpc w p = None" using ok(1) assms(2) unfolding grpc_ids_def by (metis option.distinct(1) option.exhaust)
  have "roster_of ?w q = roster_of w q" for q using assms(2,3) none unfolding roster_of_def by (cases "wGrpc w q"; cases "q = p") simp_all
  then have roster: "roster_of ?w = roster_of w" by (rule ext)
  have "grpc_ids N ?w" using ok(1) none unfolding grpc_ids_def by auto
  moreover have "ws_ids ?w" using ok(2) assms(2,3) by (auto simp: ws_ids_def)
  ultimately show ?thesis using assms(1) unfolding world_ok_def roster
    by (simp add: arena_fits_def counters_ok_def owners_counted_def counted_def)
qed

lemma world_ok_step: "world_step w w' \<Longrightarrow> world_ok N w \<Longrightarrow> world_ok N w'"
  by (induction rule: world_step.induct)
    (blast intro: world_ok_grpc_open world_ok_grpc_close world_ok_ws_open world_ok_ws_close world_ok_other world_ok_ws_other)+

lemma world_ok_reach: "world_step\<^sup>*\<^sup>* w w' \<Longrightarrow> world_ok N w \<Longrightarrow> world_ok N w'"
  by (induction rule: rtranclp_induct) (auto intro: world_ok_step)

section \<open>The start\<close>

definition arena_sized :: "Gentis \<Rightarrow> bool" where
  "arena_sized cfg \<longleftrightarrow> svArena (gServer cfg) \<longrightarrow> 0 < svMaxSessions (gServer cfg) \<and> svMaxSessions (gServer cfg) < 2 ^ 31"

lemma grpc_New_config:
  "tcUseArena (fst (grpc_New addr (buildGRPCOpts cfg v))) = svArena (gServer cfg)"
  "svArena (gServer cfg) \<Longrightarrow> tcMaxSessions (fst (grpc_New addr (buildGRPCOpts cfg v))) = svMaxSessions (gServer cfg)"
  "snd (grpc_New addr (buildGRPCOpts cfg v)) = first_id (fst (grpc_New addr (buildGRPCOpts cfg v)))"
  by (auto simp: grpc_New_def buildGRPCOpts_def grpc_defaultConfig_def clamp_subscriptions_def first_id_def arena_sessions_def Let_def
      WithVerifier_def WithPingInterval_def WithAuthDeadline_def WithMaxMessageSize_def WithMaxSubscriptions_def WithTLS_def
      WithArena_def WithMaxSessions_def WithMetrics_def)

lemma world_ok_start:
  assumes "arena_sized cfg"
  shows "world_ok (if svArena (gServer cfg) then nat (svMaxSessions (gServer cfg)) else 0) (serve_start e mmap slotSize cfg v wcfg)"
proof -
  let ?w = "serve_start e mmap slotSize cfg v wcfg" and ?s = "gServer cfg"
  let ?N = "if svArena ?s then nat (svMaxSessions ?s) else 0" and ?g = "grpc_New (svAddr ?s) (buildGRPCOpts cfg v)"
  have empty: "wGrpc ?w = Map.empty" "wWs ?w = Map.empty" "wOwner ?w = Map.empty" by (simp_all add: serve_start_def)
  have store: "wStore ?w = newSessionStore (svArena ?s) (svMaxSessions ?s)" by (simp add: serve_start_def)
  have next': "uint (srvNextID (wSrv ?w)) = int ?N" "uint (wsvNextID (wWsv ?w)) = 2 ^ 31"
    using assms grpc_New_config [where cfg = cfg and addr = "svAddr ?s" and v = v]
    by (auto simp: serve_start_def grpc_start_def ws_New_def wsIDOffset_def first_id_def arena_sessions_def arena_sized_def uint_word_of_int split: prod.splits)
  have arena: "slots_ok a {} \<and> unat (arMaxSlots a) = ?N \<and> ssArr (wStore ?w) \<noteq> []" if a: "srvArena (wSrv ?w) = Some a" for a
  proof -
    have on: "svArena ?s" and new: "arena_New mmap zero_slot slotSize (arena_sessions (fst ?g)) = Inr a"
      using a grpc_New_config [where cfg = cfg and addr = "svAddr ?s" and v = v]
      by (auto simp: serve_start_def grpc_start_def split: prod.splits sum.splits if_splits)
    have n: "arena_sessions (fst ?g) = svMaxSessions ?s" "0 < svMaxSessions ?s" "svMaxSessions ?s < 2 ^ 31"
      using assms on grpc_New_config(2) [OF on, where addr = "svAddr ?s" and v = v] by (simp_all add: arena_sized_def arena_sessions_def)
    note ok = slots_ok_New [OF new [unfolded n(1)] n(3)]
    have "unat (arMaxSlots a) = nat (svMaxSessions ?s)" using ok(2) by linarith
    then show ?thesis using ok(1) on n(2) by (auto simp: store newSessionStore_def NewFlatSessionStore_def)
  qed
  have 1: "roster_of ?w = Map.empty" using empty by (simp add: roster_of_def fun_eq_iff)
  have 2: "store_ok (wStore ?w, {}, Map.empty)" unfolding store newSessionStore_def
    using store_ok_new [of 1 "svMaxSessions ?s"] store_ok_new [of 0 0] by (auto simp: NewFlatSessionStore_def split: if_splits)
  have 6: "store_fits ?N (wStore ?w)" using assms
    by (auto simp: store newSessionStore_def NewFlatSessionStore_def NewSessionStore_def store_fits_def arena_sized_def)
  have 7: "counters_ok ?N ?w" using assms by (auto simp: counters_ok_def next' arena_sized_def)
  show ?thesis using 1 2 6 7 arena empty
    by (simp add: world_ok_def roster_ok_def grpc_ids_def ws_ids_def arena_fits_def owners_counted_def held_def)
qed

section \<open>Messages and sessions\<close>

text \<open>
  (C17) A server with both transports, its session arena sized by \<^verbatim>\<open>server.max_sessions\<close> when it has one: after
  any sessions of either transport have come and gone, with the arena handing slots out again and
  falling back to the counters when it is full, no two live sessions have the same id, a message for
  the identity of a live session is handed to that session, and a message for any identity ever given
  out is handed to the session that it was given to or to nobody, never to a later session in the slot.
\<close>

theorem sessions_reachable:
  assumes "arena_sized cfg" and "world_step\<^sup>*\<^sup>* (serve_start e mmap slotSize cfg v wcfg) w"
  shows "(\<forall>p i sid. roster_of w p = Some (i, sid) \<longrightarrow>
           sid AND idMask = word_of_int i \<and> grpc_deliverFn (wSrv w) (Some (wStore w)) sid = Some p)
    \<and> (\<forall>p q i sid sid'. roster_of w p = Some (i, sid) \<and> roster_of w q = Some (i, sid') \<longrightarrow> p = q)
    \<and> (\<forall>sid p. wOwner w sid = Some p \<longrightarrow> grpc_deliverFn (wSrv w) (Some (wStore w)) sid \<in> {None, Some p})"
proof -
  obtain N where "world_ok N w" using world_ok_reach [OF assms(2) world_ok_start [OF assms(1)]] by blast
  then have ok: "roster_ok (wStore w) (roster_of w)" "store_ok (wStore w, {}, wOwner w)" by (simp_all add: world_ok_def)
  have owner: "Store_Deliver sid (wStore w) \<in> {None, Some p}" if "wOwner w sid = Some p" for sid p
    using Store_Deliver_owner [OF ok(2) that] by (cases "Store_Deliver sid (wStore w)") auto
  show ?thesis using ok(1) owner registered_delivers unfolding roster_ok_def grpc_deliverFn_def by fastforce
qed

text \<open>How the first sessions of a server get their slots and identities.\<close>

lemma Alloc_bump: "arFree a = [] \<Longrightarrow> \<not> arClosed a \<Longrightarrow> arOffset a < arMaxSlots a \<Longrightarrow> Alloc a = (Inr (arOffset a), a\<lparr>arOffset := arOffset a + 1\<rparr>)"
  by (simp add: Alloc_def popFree_def bump_def)

lemma Alloc_reuse: "arFree a = [idx] \<Longrightarrow> \<not> arClosed a \<Longrightarrow>
    Alloc a = (Inr idx, a\<lparr>arFree := [], arInFree := (arInFree a)[unat idx := False]\<rparr>)"
  by (simp add: Alloc_def popFree_def)

lemma session_identity_slot:
  assumes "srvArena srv = Some a" "Alloc a = (Inr idx, a1)"
  obtains st m where "session_identity srv = (SlotState st, 1 + uint idx, srv\<lparr>srvArena := Some (a1\<lparr>arMem := m\<rparr>)\<rparr>)"
    "asIdx st = idx" "\<not> asFreed st"
proof -
  define st where "st = \<lparr>asId = 1 + uint idx, asIdx = idx, asFreed = False, asChannels = None, asPub = None\<rparr>"
  have "session_identity srv = (SlotState st, 1 + uint idx,
      srv\<lparr>srvArena := Some (a1\<lparr>arMem := (arMem a1)[unat idx := (slot_of st a1)\<lparr>slID := word_of_int (1 + uint idx)\<rparr>]\<rparr>)\<rparr>)"
    using assms by (simp add: session_identity_def NewArenaStateAuto_def put_slot_def Let_def st_def)
  then show thesis by (rule that) (simp_all add: st_def)
qed

lemma sendRing: obtains r :: "'a PointerRing" where "NewPointer sendRingCapacity = Some r"
proof -
  have "is_pow2 256" unfolding is_pow2_def by (rule exI [of _ 8]) simp
  then show thesis using NewPointer_ok [of 256, where 'a = 'a] that by (auto simp: sendRingCapacity_def)
qed

lemma grpc_create_total:
  assumes "session_identity srv = (state, i, srv1)" "AllocID (word_of_int i) st = (sid, st1)"
  obtains s srv' where "grpc_createSession p srv (Some st) = (Some s, srv', Some (Register sid (Some p) st1))"
    "gsId s = i" "gsSubID s = sid" "gsState s = state" "srvArena srv' = srvArena srv1" "srvNextID srv' = srvNextID srv1"
proof -
  obtain r :: "pbServerMessage PointerRing" where "NewPointer sendRingCapacity = Some r" by (rule sendRing)
  then show thesis using assms by (intro that [of "\<lparr>gsId = i, gsSubID = sid, gsState = state, gsRing = r,
      gsConsumer = NewConsumer True, gsAuthTimer = (tcAuthDeadline (srvConfig srv1) > 0), gsExpiryTimer = False, gsCancelled = False\<rparr>"
      "srv1\<lparr>srvSessions := gput i p (srvSessions srv1), srvConnectionCount := srvConnectionCount srv1 + 1,
        srvConnectionsTotal := srvConnectionsTotal srv1 + 1\<rparr>"])
    (simp_all add: grpc_createSession_def)
qed

lemma grpc_open_map:
  assumes "session_identity (wSrv w) = (state, i, srv1)" "ssArr (wStore w) = []" "ssGen (wStore w) = []"
    and "uint (srvNextID (wSrv w)) < 2 ^ 31 - 1" "uint (wsvNextID (wWsv w)) < 2 ^ 32 - 1"
  obtains w' s where "world_step w w'" "wGrpc w' = (wGrpc w)(wNext w \<mapsto> s)" "gsId s = i" "gsSubID s = word_of_int i" "gsState s = state"
    "srvArena (wSrv w') = srvArena srv1" "srvNextID (wSrv w') = srvNextID srv1" "wWsv w' = wWsv w" "wNext w' = Suc (wNext w)"
    "wStore w' = Register (word_of_int i) (Some (wNext w)) (wStore w)" "wOwner w' = (wOwner w)(word_of_int i \<mapsto> wNext w)"
proof -
  have "AllocID (word_of_int i) (wStore w) = (word_of_int i, wStore w)" using assms(2) by (simp add: AllocID_def slotFor_def)
  with assms(1) obtain s srv' where c: "grpc_createSession (wNext w) (wSrv w) (Some (wStore w)) =
        (Some s, srv', Some (Register (word_of_int i) (Some (wNext w)) (wStore w)))"
      "gsId s = i" "gsSubID s = word_of_int i" "gsState s = state" "srvArena srv' = srvArena srv1" "srvNextID srv' = srvNextID srv1"
    by (rule grpc_create_total)
  have "counters_fresh w" using assms(3-5) by (simp add: counters_fresh_def)
  from world_step.grpc_open [OF this c(1)] show thesis by (rule that [where s = s]) (simp_all add: c)
qed

text \<open>
  (C18) With \<^verbatim>\<open>server.arena\<close> on and \<^verbatim>\<open>server.max_sessions\<close> zero, which the validation accepts, the store has no
  slots and stamps no generations, while the arena has its default 16384 slots and gives the first
  one out again: a session is opened and closed, the next session gets its slot and with it its
  identity, and a message for the identity of the ended session reaches the new one.
\<close>

theorem arena_without_capacity_misdelivers:
  assumes "svArena (gServer cfg)" "svMaxSessions (gServer cfg) = 0" "arena_New mmap zero_slot slotSize 16384 = Inr a"
  shows "\<exists>w1 s w2. world_step\<^sup>*\<^sup>* (serve_start e mmap slotSize cfg v wcfg) w1 \<and> wGrpc w1 0 = Some s \<and> wOwner w1 (gsSubID s) = Some 0
    \<and> world_step\<^sup>*\<^sup>* w1 w2 \<and> wGrpc w2 0 = None \<and> grpc_deliverFn (wSrv w2) (Some (wStore w2)) (gsSubID s) = Some 1"
proof -
  let ?w0 = "serve_start e mmap slotSize cfg v wcfg" and ?s = "gServer cfg"
  note g = grpc_New_config [where cfg = cfg and addr = "svAddr ?s" and v = v]
  have n: "arena_sessions (fst (grpc_New (svAddr ?s) (buildGRPCOpts cfg v))) = 16384"
    using g(2) [OF assms(1)] assms(2) by (simp add: arena_sessions_def)
  have a0: "srvArena (wSrv ?w0) = Some a" "uint (srvNextID (wSrv ?w0)) = 16384"
    using n g(1,3) assms by (auto simp: serve_start_def grpc_start_def first_id_def split: prod.splits)
  have w0: "uint (wsvNextID (wWsv ?w0)) = 2 ^ 31" "wStore ?w0 = NewSessionStore" "wGrpc ?w0 = Map.empty" "wNext ?w0 = 0"
    using assms by (simp_all add: serve_start_def ws_New_def wsIDOffset_def newSessionStore_def NewFlatSessionStore_def)
  have fresh: "arFree a = []" "\<not> arClosed a" "arOffset a = 0" "arMaxSlots a = 16384" "arInFree a = replicate 16384 False"
    using assms(3) by (auto simp: arena_New_def Let_def split: if_splits)
  obtain st m where id1: "session_identity (wSrv ?w0) = (SlotState st, 1 + uint (0 :: u32), (wSrv ?w0)\<lparr>srvArena := Some (a\<lparr>arOffset := 1, arMem := m\<rparr>)\<rparr>)"
      and st: "asIdx st = 0" "\<not> asFreed st"
    using Alloc_bump [OF fresh(1,2)] fresh by (auto intro: session_identity_slot [OF a0(1)])
  obtain w1 s where w1: "world_step ?w0 w1" "wGrpc w1 = [0 \<mapsto> s]" "gsId s = 1" "gsSubID s = 1" "gsState s = SlotState st"
      "srvArena (wSrv w1) = Some (a\<lparr>arOffset := 1, arMem := m\<rparr>)" "srvNextID (wSrv w1) = srvNextID (wSrv ?w0)" "wWsv w1 = wWsv ?w0"
      "wNext w1 = 1" "wStore w1 = Register 1 (Some 0) NewSessionStore" "wOwner w1 1 = Some 0"
    by (rule grpc_open_map [OF id1]) (simp_all add: w0 a0 NewSessionStore_def)
  obtain s' srv st2 e2 where c: "grpc_cleanupSession 0 0 s (wSrv w1) (Some (wStore w1)) (wEngine w1) = (s', srv, Some st2, e2)"
    by (cases "Consumer_Stop 0 (gsConsumer s) (srvSweeper (wSrv w1))") (simp add: grpc_cleanupSession_def Let_def)
  let ?w2 = "w1\<lparr>wSrv := srv, wStore := st2, wEngine := e2, wGrpc := (wGrpc w1)(0 := None)\<rparr>"
  have "wGrpc w1 0 = Some s" by (simp add: w1)
  note close = world_step.grpc_close [OF this c]
  from c obtain srv1 where srv: "st2 = Unregister 1 (wStore w1)" "srv = close_state (SlotState st) srv1"
      "srvArena srv1 = srvArena (wSrv w1)" "srvNextID srv1 = srvNextID (wSrv w1)"
    by (rule grpc_cleanup_runs) (simp add: w1)
  obtain m2 f where free: "srvArena srv = Some (a\<lparr>arOffset := 1, arInFree := f, arMem := m2, arFree := [0]\<rparr>)" "srvNextID srv = srvNextID (wSrv w1)"
    using srv(3,4) fresh st unfolding srv(2)
    by (auto simp: close_state_def ArenaState_Close_def w1 Free_def Free_mark_def Free_clear_def Free_append_def)
  obtain st' m3 where id2: "session_identity srv = (SlotState st', 1 + uint (0 :: u32), srv\<lparr>srvArena := Some m3\<rparr>)"
    using Alloc_reuse [of "a\<lparr>arOffset := 1, arInFree := f, arMem := m2, arFree := [0]\<rparr>" 0] fresh
    by (auto intro: session_identity_slot [OF free(1)])
  have empty: "ssArr st2 = []" "ssGen st2 = []" and count: "uint (srvNextID srv) = 16384"
    using free(2) w1(7) a0(2) by (simp_all add: srv(1) w1(10) Unregister_def Register_def slotFor_def NewSessionStore_def)
  obtain w3 where w3: "world_step ?w2 w3" "wGrpc w3 0 = None" "wStore w3 = Register 1 (Some 1) st2"
    by (rule grpc_open_map [of ?w2, simplified, OF id2]) (simp_all add: empty count w1 w0)
  have "grpc_deliverFn (wSrv w3) (Some (wStore w3)) (gsSubID s) = Some 1"
    using srv by (simp add: w3 w1 grpc_deliverFn_def Store_Deliver_def Register_def Unregister_def slotFor_def NewSessionStore_def)
  then show ?thesis using w1(1,2,4,11) close w3(1,2)
    by (intro exI [of _ w1] exI [of _ s] exI [of _ w3]) (auto intro: converse_rtranclp_into_rtranclp)
qed

definition demo_server :: "bool \<Rightarrow> int \<Rightarrow> Gentis" where
  "demo_server arena n = Defaults\<lparr>gAuth := \<lparr>acSecret = ''hush'', acDisabled = False\<rparr>,
     gServer := (gServer Defaults)\<lparr>svArena := arena, svMaxSessions := n\<rparr>\<rparr>"

lemma demo_server_valid: "0 \<le> n \<Longrightarrow> validate_Gentis (demo_server arena n) = None"
  by (simp add: validate_Gentis_iff settings_wf_def engine_wf_def auth_wf_def server_wf_def relay_wf_def tls_wf_def
      demo_server_def Defaults_def time_second_def time_millisecond_def)

lemma demo_arena:
  obtains a where "arena_New (\<lambda>_. True) zero_slot 4400 16384 = Inr a"
  by (simp add: arena_New_def arena_stride_def slotAlign_def Let_def)

theorem arena_without_capacity_misdelivers_witness:
  "validate_Gentis (demo_server True 0) = None
   \<and> (\<forall>e v wcfg. \<exists>w1 s w2. world_step\<^sup>*\<^sup>* (serve_start e (\<lambda>_. True) 4400 (demo_server True 0) v wcfg) w1 \<and> wGrpc w1 0 = Some s
        \<and> world_step\<^sup>*\<^sup>* w1 w2 \<and> grpc_deliverFn (wSrv w2) (Some (wStore w2)) (gsSubID s) = Some 1)"
proof -
  obtain a where a: "arena_New (\<lambda>_. True) zero_slot 4400 16384 = Inr a" by (rule demo_arena)
  have "svArena (gServer (demo_server True 0))" "svMaxSessions (gServer (demo_server True 0)) = 0" by (simp_all add: demo_server_def)
  from arena_without_capacity_misdelivers [OF this a] show ?thesis using demo_server_valid [of 0 True] by blast
qed

text \<open>The first session of an arena of 16384 slots has id 1 and, with its generation, identity \<open>2^32 + 1\<close>.\<close>

theorem sessions_reachable_witness:
  "\<forall>e v wcfg. \<exists>w. world_step\<^sup>*\<^sup>* (serve_start e (\<lambda>_. True) 4400 (demo_server True 16384) v wcfg) w
     \<and> grpc_deliverFn (wSrv w) (Some (wStore w)) 4294967297 = Some 0"
proof (intro allI)
  fix e v wcfg
  let ?cfg = "demo_server True 16384" and ?w0 = "serve_start e (\<lambda>_. True) 4400 (demo_server True 16384) v wcfg"
  have cfg: "svArena (gServer ?cfg)" "svMaxSessions (gServer ?cfg) = 16384" "arena_sized ?cfg"
    by (simp_all add: demo_server_def arena_sized_def)
  note g = grpc_New_config [where cfg = ?cfg and addr = "svAddr (gServer ?cfg)" and v = v]
  obtain a where a: "arena_New (\<lambda>_. True) zero_slot 4400 16384 = Inr a" by (rule demo_arena)
  have n: "arena_sessions (fst (grpc_New (svAddr (gServer ?cfg)) (buildGRPCOpts ?cfg v))) = 16384"
    using g(2) [OF cfg(1)] cfg(2) by (simp add: arena_sessions_def)
  have a0: "srvArena (wSrv ?w0) = Some a" "uint (srvNextID (wSrv ?w0)) = 16384"
    using n g(1,3) cfg a by (auto simp: serve_start_def grpc_start_def first_id_def split: prod.splits)
  have w0: "uint (wsvNextID (wWsv ?w0)) = 2 ^ 31" "wGrpc ?w0 = Map.empty" "wNext ?w0 = 0"
      "wStore ?w0 = \<lparr>ssBaseID = 1, ssArr = replicate 16384 None, ssGen = replicate 16384 0, ssOverflow = []\<rparr>"
    using cfg by (simp_all add: serve_start_def ws_New_def wsIDOffset_def newSessionStore_def NewFlatSessionStore_def)
  have fresh: "arFree a = []" "\<not> arClosed a" "arOffset a = 0" "arMaxSlots a = 16384"
    using a by (auto simp: arena_New_def Let_def split: if_splits)
  obtain st srv1 where "session_identity (wSrv ?w0) = (SlotState st, 1 + uint (0 :: u32), srv1)"
    using Alloc_bump [OF fresh(1,2)] fresh by (auto intro: session_identity_slot [OF a0(1)])
  then have id: "session_identity (wSrv ?w0) = (SlotState st, 1, srv1)" by simp
  have "slotFor (word_of_int 1) (wStore ?w0) = Some 0" by (simp add: w0 slotFor_def idMask_def genShift_def Let_def)
  then obtain st1 where al: "AllocID (word_of_int 1) (wStore ?w0) = (4294967297, st1)"
    by (simp add: AllocID_def w0 genShift_def idMask_def Let_def)
  obtain s srv' where c: "grpc_createSession 0 (wSrv ?w0) (Some (wStore ?w0)) = (Some s, srv', Some (Register 4294967297 (Some 0) st1))"
      "gsId s = 1" "gsSubID s = 4294967297"
    by (rule grpc_create_total [OF id al, of 0]) blast
  have "counters_fresh ?w0" by (simp add: counters_fresh_def w0 a0)
  from world_step.grpc_open [OF this, unfolded w0(3), OF c(1)] obtain w where w: "world_step ?w0 w" "wGrpc w 0 = Some s" by fastforce
  then have "roster_of w 0 = Some (1, 4294967297)" by (simp add: roster_of_def c)
  then show "\<exists>w. world_step\<^sup>*\<^sup>* ?w0 w \<and> grpc_deliverFn (wSrv w) (Some (wStore w)) 4294967297 = Some 0"
    using sessions_reachable [OF cfg(3) r_into_rtranclp [of world_step, OF w(1)]] w(1) by blast
qed

end
