(* ===== verification/GC_Pacer.thy ===== *)
theory GC_Pacer
  imports Complex_Main Engine
begin

text \<open>
  Model of \<^verbatim>\<open>internal/engine/gcpacer.go\<close> with its options in \<^verbatim>\<open>options.go\<close>: the goroutine that samples the
  engine's counters and tunes the garbage collector of the whole process.

  \<^item> \<open>Runtime\<close> is the state of the process that \<^verbatim>\<open>runtime/debug\<close> sets, with \<^verbatim>\<open>gcPacerActive\<close>;
    \<open>rtCollections\<close> lists the times of the collections the pacer forced, the last one first.
  \<^item> A \<^verbatim>\<open>float64\<close> is a rational number, and \<open>rnd\<close> rounds the result of an operation and a constant.
    No operation of the pacer overflows or divides by zero.
  \<^item> A tick of the ticker is a step; \<open>now\<close> is the clock, and the zero time is \<open>None\<close>.
\<close>

section \<open>The runtime\<close>

record Runtime =
  rtGOGC :: int
  rtMemoryLimit :: int
  rtPacerActive :: bool
  rtCollections :: "int list"

definition SetGCPercent :: "int \<Rightarrow> Runtime \<Rightarrow> int \<times> Runtime" where
  "SetGCPercent percent r = (rtGOGC r, r\<lparr>rtGOGC := (if percent < 0 then - 1 else percent)\<rparr>)"

definition SetMemoryLimit :: "int \<Rightarrow> Runtime \<Rightarrow> int \<times> Runtime" where
  "SetMemoryLimit bound r = (rtMemoryLimit r, if bound < 0 then r else r\<lparr>rtMemoryLimit := bound\<rparr>)"

definition currentGCPercent :: "Runtime \<Rightarrow> int \<times> Runtime" where
  "currentGCPercent r =
     (case SetGCPercent (- 1) r of (prev, r1) \<Rightarrow> (prev, snd (SetGCPercent prev r1)))"

section \<open>The pacer\<close>

record gcPacerConfig =
  gcEnabled :: bool
  gcSpikeMultiple :: rat
  gcIdleRatio :: rat
  gcIdleDuration :: int
  gcSpikePercent :: int
  gcNormalPercent :: int
  gcMemoryLimit :: int

definition defaultGCPacerConfig :: gcPacerConfig where
  "defaultGCPacerConfig = \<lparr>gcEnabled = False, gcSpikeMultiple = 2, gcIdleRatio = 1 / 2, gcIdleDuration = 5 * 1000000000,
     gcSpikePercent = 400, gcNormalPercent = 100, gcMemoryLimit = 0\<rparr>"

definition WithGCPacer :: "int \<Rightarrow> gcPacerConfig \<Rightarrow> gcPacerConfig" where
  "WithGCPacer memoryLimit c = c\<lparr>gcEnabled := True, gcMemoryLimit := memoryLimit\<rparr>"

definition WithGCPacerSpikeGOGC :: "int \<Rightarrow> gcPacerConfig \<Rightarrow> gcPacerConfig" where
  "WithGCPacerSpikeGOGC gogc c = (if gogc > 0 then c\<lparr>gcSpikePercent := gogc\<rparr> else c)"

definition WithGCPacerNormalGOGC :: "int \<Rightarrow> gcPacerConfig \<Rightarrow> gcPacerConfig" where
  "WithGCPacerNormalGOGC gogc c = (if gogc > 0 then c\<lparr>gcNormalPercent := gogc\<rparr> else c)"

text \<open>\<open>gpEngine\<close> says whether the pointer to the engine is set: it is nil in a pacer that does nothing.\<close>

record gcPacer =
  gpEngine :: bool
  gpSpikeMultiple :: rat
  gpSpikeExitRatio :: rat
  gpIdleRatio :: rat
  gpIdleDuration :: int
  gpSpikeGOGC :: int
  gpNormalGOGC :: int
  gpMemoryLimit :: int
  gpPrevGOGC :: int
  gpPrevMemoryLimit :: int
  gpMemoryLimitSet :: bool
  gpInSpike :: bool
  gpLastGCTime :: int

definition noop_pacer :: gcPacer where
  "noop_pacer = \<lparr>gpEngine = False, gpSpikeMultiple = 0, gpSpikeExitRatio = 0, gpIdleRatio = 0, gpIdleDuration = 0, gpSpikeGOGC = 0,
     gpNormalGOGC = 0, gpMemoryLimit = 0, gpPrevGOGC = 0, gpPrevMemoryLimit = 0, gpMemoryLimitSet = False, gpInSpike = False, gpLastGCTime = 0\<rparr>"

definition newGCPacer :: "(rat \<Rightarrow> rat) \<Rightarrow> gcPacerConfig \<Rightarrow> Runtime \<Rightarrow> gcPacer \<times> Runtime" where
  "newGCPacer rnd cfg r0 =
     (if rtPacerActive r0 then (noop_pacer, r0)
      else
        (case currentGCPercent (r0\<lparr>rtPacerActive := True\<rparr>) of
           (prev, r) \<Rightarrow>
             (let p = \<lparr>gpEngine = True, gpSpikeMultiple = gcSpikeMultiple cfg,
                       gpSpikeExitRatio = rnd (gcSpikeMultiple cfg * rnd (7 / 10)), gpIdleRatio = gcIdleRatio cfg,
                       gpIdleDuration = gcIdleDuration cfg, gpSpikeGOGC = gcSpikePercent cfg, gpNormalGOGC = gcNormalPercent cfg,
                       gpMemoryLimit = gcMemoryLimit cfg, gpPrevGOGC = prev, gpPrevMemoryLimit = 0, gpMemoryLimitSet = False,
                       gpInSpike = False, gpLastGCTime = 0\<rparr>
              in if gcMemoryLimit cfg > 0
                 then (case SetMemoryLimit (gcMemoryLimit cfg) r of
                         (old, r1) \<Rightarrow> (p\<lparr>gpPrevMemoryLimit := old, gpMemoryLimitSet := True\<rparr>, r1))
                 else (p, r))))"

text \<open>\<^verbatim>\<open>Stop\<close>, once the goroutine has returned.\<close>

definition Pacer_Stop :: "gcPacer \<Rightarrow> Runtime \<Rightarrow> Runtime" where
  "Pacer_Stop p r =
     (if \<not> gpEngine p then r
      else
        (let r1 = snd (SetGCPercent (gpPrevGOGC p) r);
             r2 = (if gpMemoryLimitSet p then snd (SetMemoryLimit (gpPrevMemoryLimit p) r1) else r1)
         in r2\<lparr>rtPacerActive := False\<rparr>))"

section \<open>Sampling\<close>

record pacerState =
  smBaseline :: rat
  smPrevOps :: int
  smIdleSince :: "int option"
  smInitialized :: bool

definition fresh_sampling :: pacerState where
  "fresh_sampling = \<lparr>smBaseline = 0, smPrevOps = 0, smIdleSince = None, smInitialized = False\<rparr>"

definition emaAlpha :: rat where
  "emaAlpha = 1 / 10"

definition currentOps :: "Engine \<Rightarrow> int" where
  "currentOps e = eSubscribeOps e + sum_list (map shPublish (eShards e))"

definition next_baseline :: "(rat \<Rightarrow> rat) \<Rightarrow> rat \<Rightarrow> rat \<Rightarrow> rat" where
  "next_baseline rnd delta baseline =
     (let b = (if baseline = 0 then delta else rnd (rnd (rnd emaAlpha * delta) + rnd (rnd (1 - emaAlpha) * baseline)))
      in if b < 10 then 10 else b)"

text \<open>The switch over the ratio; the first component is what \<^verbatim>\<open>sample\<close> returns.\<close>

definition adjust :: "rat \<Rightarrow> int \<Rightarrow> gcPacer \<Rightarrow> pacerState \<Rightarrow> Runtime \<Rightarrow> bool \<times> gcPacer \<times> pacerState \<times> Runtime" where
  "adjust ratio now p st r =
     (if ratio \<ge> gpSpikeMultiple p \<and> \<not> gpInSpike p
      then (False, p\<lparr>gpInSpike := True\<rparr>, st\<lparr>smIdleSince := None\<rparr>, snd (SetGCPercent (gpSpikeGOGC p) r))
      else if ratio < gpSpikeExitRatio p \<and> gpInSpike p
      then (False, p\<lparr>gpInSpike := False\<rparr>, st\<lparr>smIdleSince := None\<rparr>, snd (SetGCPercent (gpNormalGOGC p) r))
      else if ratio < gpIdleRatio p
      then
        (case smIdleSince st of
           None \<Rightarrow> (False, p, st\<lparr>smIdleSince := Some now\<rparr>, r)
         | Some t \<Rightarrow>
             if now - t \<ge> gpIdleDuration p
             then
               (if now - gpLastGCTime p > gpIdleDuration p
                then (True, p\<lparr>gpLastGCTime := now\<rparr>, st\<lparr>smIdleSince := None\<rparr>, r\<lparr>rtCollections := now # rtCollections r\<rparr>)
                else (True, p, st\<lparr>smIdleSince := None\<rparr>, r))
             else (False, p, st, r))
      else (False, p, st\<lparr>smIdleSince := None\<rparr>, r))"

definition sample :: "(rat \<Rightarrow> rat) \<Rightarrow> int \<Rightarrow> Engine \<Rightarrow> gcPacer \<Rightarrow> pacerState \<Rightarrow> Runtime \<Rightarrow> bool \<times> gcPacer \<times> pacerState \<times> Runtime" where
  "sample rnd now e p st r =
     (let ops = currentOps e
      in if \<not> smInitialized st then (False, p, st\<lparr>smPrevOps := ops, smInitialized := True\<rparr>, r)
         else
           (let delta = rnd (of_int (ops - smPrevOps st));
                b = next_baseline rnd delta (smBaseline st)
            in adjust (rnd (delta / b)) now p (st\<lparr>smPrevOps := ops, smBaseline := b\<rparr>) r))"

section \<open>The process\<close>

text \<open>
  The pacers of a process that run and were not stopped yet, each with its samples; engines are
  created, with the options the commands pass, and stopped in any order, and their operations go on
  in between.
\<close>

record process =
  prRuntime :: Runtime
  prPacers :: "nat \<Rightarrow> (gcPacer \<times> pacerState) option"
  prClock :: int

definition pacer_config :: "int \<Rightarrow> int \<Rightarrow> int \<Rightarrow> gcPacerConfig" where
  "pacer_config memLimit spike normal =
     WithGCPacerNormalGOGC normal (WithGCPacerSpikeGOGC spike (WithGCPacer memLimit defaultGCPacerConfig))"

inductive pacer_step :: "(rat \<Rightarrow> rat) \<Rightarrow> process \<Rightarrow> process \<Rightarrow> bool" for rnd where
  start: "prPacers w k = None \<Longrightarrow> newGCPacer rnd (pacer_config memLimit spike normal) (prRuntime w) = (p, r) \<Longrightarrow>
    pacer_step rnd w (w\<lparr>prRuntime := r, prPacers := (prPacers w)(k \<mapsto> (p, fresh_sampling))\<rparr>)"
| tick: "prPacers w k = Some (p, st) \<Longrightarrow> gpEngine p \<Longrightarrow> prClock w < now \<Longrightarrow>
    sample rnd now e p st (prRuntime w) = (b, p', st', r) \<Longrightarrow>
    pacer_step rnd w (w\<lparr>prRuntime := r, prPacers := (prPacers w)(k \<mapsto> (p', st')), prClock := now\<rparr>)"
| stop: "prPacers w k = Some (p, st) \<Longrightarrow>
    pacer_step rnd w (w\<lparr>prRuntime := Pacer_Stop p (prRuntime w), prPacers := (prPacers w)(k := None)\<rparr>)"

section \<open>The settings of the process\<close>

fun spaced :: "int \<Rightarrow> int list \<Rightarrow> bool" where
  "spaced d (x # y # xs) \<longleftrightarrow> x - y > d \<and> spaced d (y # xs)"
| "spaced d _ \<longleftrightarrow> True"

text \<open>A pacer at work in a process whose own settings are \<open>g\<close> and \<open>m\<close>.\<close>

definition pacer_ok :: "int \<Rightarrow> int \<Rightarrow> Runtime \<Rightarrow> gcPacer \<Rightarrow> bool" where
  "pacer_ok g m r p \<longleftrightarrow> gpPrevGOGC p = g \<and> 0 < gpSpikeGOGC p \<and> 0 < gpNormalGOGC p
     \<and> (if gpInSpike p then rtGOGC r = gpSpikeGOGC p else rtGOGC r \<in> {g, gpNormalGOGC p})
     \<and> (if gpMemoryLimitSet p then gpPrevMemoryLimit p = m \<and> rtMemoryLimit r = gpMemoryLimit p else rtMemoryLimit r = m)"

definition idle_ok :: "int \<Rightarrow> Runtime \<Rightarrow> gcPacer \<Rightarrow> pacerState \<Rightarrow> bool" where
  "idle_ok clock r p st \<longleftrightarrow> gpIdleDuration p = gcIdleDuration defaultGCPacerConfig
     \<and> (\<forall>t. smIdleSince st = Some t \<longrightarrow> 0 < t \<and> t \<le> clock \<and> gpLastGCTime p < t \<and> (\<forall>c \<in> set (rtCollections r). c < t))
     \<and> gpLastGCTime p \<le> clock"

definition process_ok :: "int \<Rightarrow> int \<Rightarrow> process \<Rightarrow> bool" where
  "process_ok g m w \<longleftrightarrow> 0 \<le> prClock w \<and> (\<forall>c \<in> set (rtCollections (prRuntime w)). c \<le> prClock w)
     \<and> spaced (gcIdleDuration defaultGCPacerConfig) (rtCollections (prRuntime w))
     \<and> (\<forall>k p st. prPacers w k = Some (p, st) \<and> gpEngine p \<longrightarrow>
          rtPacerActive (prRuntime w) \<and> pacer_ok g m (prRuntime w) p \<and> idle_ok (prClock w) (prRuntime w) p st
          \<and> (\<forall>j q st'. prPacers w j = Some (q, st') \<and> gpEngine q \<longrightarrow> j = k))
     \<and> (rtPacerActive (prRuntime w) \<longrightarrow> (\<exists>k p st. prPacers w k = Some (p, st) \<and> gpEngine p))
     \<and> (\<not> rtPacerActive (prRuntime w) \<longrightarrow> rtGOGC (prRuntime w) = g \<and> rtMemoryLimit (prRuntime w) = m)"

lemma currentGCPercent_id: "- 1 \<le> rtGOGC r \<Longrightarrow> currentGCPercent r = (rtGOGC r, r)"
  by (cases r) (auto simp: currentGCPercent_def SetGCPercent_def)

lemma newGCPacer_active: "rtPacerActive r \<Longrightarrow> newGCPacer rnd cfg r = (noop_pacer, r)"
  by (simp add: newGCPacer_def)

lemma newGCPacer_ok:
  assumes "newGCPacer rnd (pacer_config memLimit spike normal) r = (p, r')" "\<not> rtPacerActive r" "- 1 \<le> rtGOGC r" "0 \<le> rtMemoryLimit r"
  shows "gpEngine p" "rtPacerActive r'" "pacer_ok (rtGOGC r) (rtMemoryLimit r) r' p" "rtCollections r' = rtCollections r"
    "gpIdleDuration p = gcIdleDuration defaultGCPacerConfig" "gpLastGCTime p = 0"
  using assms currentGCPercent_id [of "r\<lparr>rtPacerActive := True\<rparr>"]
  by (auto simp: newGCPacer_def Let_def SetMemoryLimit_def pacer_ok_def pacer_config_def WithGCPacer_def WithGCPacerSpikeGOGC_def
      WithGCPacerNormalGOGC_def defaultGCPacerConfig_def split: if_splits)

lemma Pacer_Stop_ok:
  assumes "pacer_ok g m r p" "gpEngine p" "- 1 \<le> g" "0 \<le> m"
  shows "rtGOGC (Pacer_Stop p r) = g" "rtMemoryLimit (Pacer_Stop p r) = m" "\<not> rtPacerActive (Pacer_Stop p r)"
    "rtCollections (Pacer_Stop p r) = rtCollections r"
  using assms by (auto simp: Pacer_Stop_def pacer_ok_def SetGCPercent_def SetMemoryLimit_def Let_def split: if_splits)

lemma spaced_Cons: "spaced d (x # xs) \<longleftrightarrow> spaced d xs \<and> (\<forall>y ys. xs = y # ys \<longrightarrow> x - y > d)"
  by (cases xs) auto

text \<open>One sample: the settings follow the mode, and a forced collection comes late enough.\<close>

lemma adjust_ok:
  assumes "adjust ratio now p st r = (b, p', st', r')" "pacer_ok g m r p" "idle_ok clock r p st" "clock < now" "0 \<le> clock"
    and "\<forall>c \<in> set (rtCollections r). c \<le> clock" "spaced (gcIdleDuration defaultGCPacerConfig) (rtCollections r)"
  shows "pacer_ok g m r' p' \<and> idle_ok now r' p' st' \<and> gpEngine p' = gpEngine p \<and> rtPacerActive r' = rtPacerActive r
    \<and> (\<forall>c \<in> set (rtCollections r'). c \<le> now) \<and> spaced (gcIdleDuration defaultGCPacerConfig) (rtCollections r')
    \<and> (b \<longleftrightarrow> rtCollections r' = now # rtCollections r)"
proof -
  have d: "gpIdleDuration p = gcIdleDuration defaultGCPacerConfig" "gpLastGCTime p \<le> clock" using assms(3) by (simp_all add: idle_ok_def)
  have dpos: "0 < gcIdleDuration defaultGCPacerConfig" by (simp add: defaultGCPacerConfig_def)
  show ?thesis
  proof (cases "b")
    case True
    then obtain t where t: "smIdleSince st = Some t" "now - t \<ge> gpIdleDuration p" "\<not> (ratio < gpSpikeExitRatio p \<and> gpInSpike p)"
        "\<not> (ratio \<ge> gpSpikeMultiple p \<and> \<not> gpInSpike p)" "ratio < gpIdleRatio p"
      using assms(1) by (auto simp: adjust_def split: if_splits option.splits)
    then have before: "gpLastGCTime p < t" "\<forall>c \<in> set (rtCollections r). c < t" "t \<le> clock" using assms(3) by (auto simp: idle_ok_def)
    then have "now - gpLastGCTime p > gpIdleDuration p" using t(2) by simp
    then have run: "p' = p\<lparr>gpLastGCTime := now\<rparr>" "st' = st\<lparr>smIdleSince := None\<rparr>" "r' = r\<lparr>rtCollections := now # rtCollections r\<rparr>"
      using assms(1) t by (auto simp: adjust_def)
    have "now - y > gcIdleDuration defaultGCPacerConfig" if "rtCollections r = y # ys" for y ys
      using before(2) that t(2) d(1) by simp
    then show ?thesis using assms(2,4,6,7) True d before run by (auto simp: pacer_ok_def idle_ok_def spaced_Cons)
  next
    case False
    then have same: "rtCollections r' = rtCollections r" "gpLastGCTime p' = gpLastGCTime p"
      using assms(1) by (auto simp: adjust_def SetGCPercent_def split: if_splits option.splits)
    have "pacer_ok g m r' p' \<and> gpEngine p' = gpEngine p \<and> rtPacerActive r' = rtPacerActive r"
      using assms(1,2) False by (auto simp: adjust_def SetGCPercent_def pacer_ok_def split: if_splits option.splits)
    moreover have "idle_ok now r' p' st'" using assms(1,3-6) False d
      by (fastforce simp: adjust_def SetGCPercent_def idle_ok_def split: if_splits option.splits)
    ultimately show ?thesis using assms(4,6,7) False same by auto
  qed
qed

lemma sample_ok:
  assumes "sample rnd now e p st r = (b, p', st', r')" "pacer_ok g m r p" "idle_ok clock r p st" "clock < now" "0 \<le> clock"
    and "\<forall>c \<in> set (rtCollections r). c \<le> clock" "spaced (gcIdleDuration defaultGCPacerConfig) (rtCollections r)"
  shows "pacer_ok g m r' p' \<and> idle_ok now r' p' st' \<and> gpEngine p' = gpEngine p \<and> rtPacerActive r' = rtPacerActive r
    \<and> (\<forall>c \<in> set (rtCollections r'). c \<le> now) \<and> spaced (gcIdleDuration defaultGCPacerConfig) (rtCollections r')
    \<and> (b \<longleftrightarrow> rtCollections r' = now # rtCollections r)"
proof (cases "smInitialized st")
  case True
  then obtain ratio baseline ops where run: "adjust ratio now p (st\<lparr>smPrevOps := ops, smBaseline := baseline\<rparr>) r = (b, p', st', r')"
    using assms(1) by (auto simp: sample_def Let_def)
  have "idle_ok clock r p (st\<lparr>smPrevOps := ops, smBaseline := baseline\<rparr>)" using assms(3) by (simp add: idle_ok_def)
  from adjust_ok [OF run assms(2) this assms(4-7)] show ?thesis .
next
  case False
  then have run: "b = False" "p' = p" "r' = r" "smIdleSince st' = smIdleSince st" using assms(1) by (auto simp: sample_def Let_def)
  have "idle_ok now r p st'" using assms(3,4) run(4) unfolding idle_ok_def by auto
  moreover have "rtCollections r \<noteq> now # rtCollections r" by simp
  ultimately show ?thesis using assms(2,4,6,7) run by (auto dest: bspec)
qed

lemma process_ok_cong:
  assumes "process_ok g m w" "prRuntime w' = prRuntime w" "prClock w' = prClock w"
    and "\<And>j q st. gpEngine q \<Longrightarrow> (prPacers w' j = Some (q, st)) = (prPacers w j = Some (q, st))"
  shows "process_ok g m w'"
proof -
  have "(prPacers w' j = Some (q, st) \<and> gpEngine q) = (prPacers w j = Some (q, st) \<and> gpEngine q)" for j q st
    using assms(4) by blast
  note same = this
  from assms(1) show ?thesis unfolding process_ok_def assms(2,3) same .
qed

lemma process_ok_start:
  assumes "process_ok g m w" "- 1 \<le> g" "0 \<le> m" "prPacers w k = None"
    and "newGCPacer rnd (pacer_config memLimit spike normal) (prRuntime w) = (p, r)"
  shows "process_ok g m (w\<lparr>prRuntime := r, prPacers := (prPacers w)(k \<mapsto> (p, fresh_sampling))\<rparr>)"
proof (cases "rtPacerActive (prRuntime w)")
  case True
  then have run: "p = noop_pacer" "r = prRuntime w" using assms(5) newGCPacer_active by auto
  show ?thesis by (rule process_ok_cong [OF assms(1)]) (use run assms(4) in \<open>auto simp: noop_pacer_def split: if_splits\<close>)
next
  case False
  then have own: "rtGOGC (prRuntime w) = g" "rtMemoryLimit (prRuntime w) = m" and none: "\<And>j q st. prPacers w j = Some (q, st) \<Longrightarrow> \<not> gpEngine q"
    using assms(1) unfolding process_ok_def by blast+
  note new = newGCPacer_ok [OF assms(5) False, unfolded own, OF assms(2,3)]
  show ?thesis using assms(1) new none unfolding process_ok_def
    by (auto simp: idle_ok_def fresh_sampling_def)
qed

lemma process_ok_tick:
  assumes "process_ok g m w" "prPacers w k = Some (p, st)" "gpEngine p" "prClock w < now"
    and "sample rnd now e p st (prRuntime w) = (b, p', st', r)"
  shows "process_ok g m (w\<lparr>prRuntime := r, prPacers := (prPacers w)(k \<mapsto> (p', st')), prClock := now\<rparr>)"
    "b \<longleftrightarrow> rtCollections r = now # rtCollections (prRuntime w)"
proof -
  have this_one: "rtPacerActive (prRuntime w)" "pacer_ok g m (prRuntime w) p" "idle_ok (prClock w) (prRuntime w) p st"
      "\<And>j q st'. prPacers w j = Some (q, st') \<Longrightarrow> gpEngine q \<Longrightarrow> j = k"
    and clock: "0 \<le> prClock w" "\<forall>c \<in> set (rtCollections (prRuntime w)). c \<le> prClock w"
      "spaced (gcIdleDuration defaultGCPacerConfig) (rtCollections (prRuntime w))"
    using assms(1-3) unfolding process_ok_def by blast+
  note ok = sample_ok [OF assms(5) this_one(2,3) assms(4) clock]
  then show "b \<longleftrightarrow> rtCollections r = now # rtCollections (prRuntime w)" by simp
  show "process_ok g m (w\<lparr>prRuntime := r, prPacers := (prPacers w)(k \<mapsto> (p', st')), prClock := now\<rparr>)"
    using ok this_one(1,4) clock(1) assms(3,4) unfolding process_ok_def by (auto split: if_splits)
qed

lemma process_ok_stop:
  assumes "process_ok g m w" "- 1 \<le> g" "0 \<le> m" "prPacers w k = Some (p, st)"
  shows "process_ok g m (w\<lparr>prRuntime := Pacer_Stop p (prRuntime w), prPacers := (prPacers w)(k := None)\<rparr>)"
proof (cases "gpEngine p")
  case False
  show ?thesis by (rule process_ok_cong [OF assms(1)]) (use False assms(4) in \<open>auto simp: Pacer_Stop_def split: if_splits\<close>)
next
  case True
  then have "pacer_ok g m (prRuntime w) p" and alone: "\<And>j q st'. prPacers w j = Some (q, st') \<Longrightarrow> gpEngine q \<Longrightarrow> j = k"
    using assms(1,4) unfolding process_ok_def by blast+
  then have "rtGOGC (Pacer_Stop p (prRuntime w)) = g" "rtMemoryLimit (Pacer_Stop p (prRuntime w)) = m"
      "\<not> rtPacerActive (Pacer_Stop p (prRuntime w))" "rtCollections (Pacer_Stop p (prRuntime w)) = rtCollections (prRuntime w)"
    using Pacer_Stop_ok True assms(2,3) by blast+
  then show ?thesis using assms(1) alone unfolding process_ok_def by (auto split: if_splits)
qed

lemma process_ok_reach:
  assumes "(pacer_step rnd)\<^sup>*\<^sup>* w w'" "process_ok g m w" "- 1 \<le> g" "0 \<le> m"
  shows "process_ok g m w'"
  using assms
proof (induction rule: rtranclp_induct)
  case (step v w')
  from step.hyps(2) step.IH [OF step.prems] step.prems(2,3) show ?case
    by (induction rule: pacer_step.induct) (blast intro: process_ok_start process_ok_tick(1) process_ok_stop)+
qed

definition quiet_process :: "Runtime \<Rightarrow> int \<Rightarrow> process" where
  "quiet_process r now = \<lparr>prRuntime = r\<lparr>rtPacerActive := False, rtCollections := []\<rparr>, prPacers = Map.empty, prClock = now\<rparr>"

lemma process_ok_quiet: "0 \<le> now \<Longrightarrow> process_ok (rtGOGC r) (rtMemoryLimit r) (quiet_process r now)"
  by (simp add: process_ok_def quiet_process_def)

text \<open>
  (C13) The pacer leaves the process as it found it: whatever engines with a pacer are started, sampled
  under whatever load and stopped, in whatever order and however the floating-point operations round,
  at most one of the pacers is in charge; while it is, the collector runs at the spike setting exactly
  in spike mode and else at the process's own or the normal one; and when none is, the collector's
  percentage and memory limit are those from before the first. Two collections that pacers force are
  always more than the idle duration apart, and a sample reports one exactly when it forced one.
\<close>

theorem pacer_restores:
  assumes "(pacer_step rnd)\<^sup>*\<^sup>* (quiet_process r0 now0) w" "- 1 \<le> rtGOGC r0" "0 \<le> rtMemoryLimit r0" "0 \<le> now0"
  shows "(\<forall>k j p st q st'. prPacers w k = Some (p, st) \<and> gpEngine p \<and> prPacers w j = Some (q, st') \<and> gpEngine q \<longrightarrow> j = k)
    \<and> (\<forall>k p st. prPacers w k = Some (p, st) \<and> gpEngine p \<longrightarrow>
         (if gpInSpike p then rtGOGC (prRuntime w) = gpSpikeGOGC p else rtGOGC (prRuntime w) \<in> {rtGOGC r0, gpNormalGOGC p}))
    \<and> ((\<forall>k p st. prPacers w k = Some (p, st) \<longrightarrow> \<not> gpEngine p) \<longrightarrow>
         rtGOGC (prRuntime w) = rtGOGC r0 \<and> rtMemoryLimit (prRuntime w) = rtMemoryLimit r0)
    \<and> spaced (gcIdleDuration defaultGCPacerConfig) (rtCollections (prRuntime w))
    \<and> (\<forall>k p st now e b p' st' r. prPacers w k = Some (p, st) \<and> gpEngine p \<and> prClock w < now
         \<and> sample rnd now e p st (prRuntime w) = (b, p', st', r) \<longrightarrow> (b \<longleftrightarrow> rtCollections r = now # rtCollections (prRuntime w)))"
proof -
  have ok: "process_ok (rtGOGC r0) (rtMemoryLimit r0) w"
    by (rule process_ok_reach [OF assms(1) process_ok_quiet [OF assms(4)] assms(2,3)])
  have "pacer_ok (rtGOGC r0) (rtMemoryLimit r0) (prRuntime w) p" if "prPacers w k = Some (p, st)" "gpEngine p" for k p st
    using ok that unfolding process_ok_def by blast
  then have "\<forall>k p st. prPacers w k = Some (p, st) \<and> gpEngine p \<longrightarrow>
      (if gpInSpike p then rtGOGC (prRuntime w) = gpSpikeGOGC p else rtGOGC (prRuntime w) \<in> {rtGOGC r0, gpNormalGOGC p})"
    unfolding pacer_ok_def by blast
  moreover have "\<forall>k j p st q st'. prPacers w k = Some (p, st) \<and> gpEngine p \<and> prPacers w j = Some (q, st') \<and> gpEngine q \<longrightarrow> j = k"
    using ok unfolding process_ok_def by blast
  moreover have "(\<forall>k p st. prPacers w k = Some (p, st) \<longrightarrow> \<not> gpEngine p) \<longrightarrow>
      rtGOGC (prRuntime w) = rtGOGC r0 \<and> rtMemoryLimit (prRuntime w) = rtMemoryLimit r0"
    using ok unfolding process_ok_def by blast
  moreover have "spaced (gcIdleDuration defaultGCPacerConfig) (rtCollections (prRuntime w))" using ok unfolding process_ok_def by blast
  ultimately show ?thesis using process_ok_tick(2) [OF ok] by blast
qed

text \<open>
  A process with a percentage of 77: a pacer with a memory limit of a gigabyte is started and stopped.
\<close>

definition demo_runtime :: Runtime where
  "demo_runtime = \<lparr>rtGOGC = 77, rtMemoryLimit = 2 ^ 40, rtPacerActive = False, rtCollections = []\<rparr>"

theorem pacer_restores_witness:
  "\<exists>v w. (pacer_step (\<lambda>x. x))\<^sup>*\<^sup>* (quiet_process demo_runtime 0) v \<and> rtMemoryLimit (prRuntime v) = 2 ^ 30
     \<and> (pacer_step (\<lambda>x. x))\<^sup>*\<^sup>* v w \<and> rtGOGC (prRuntime w) = 77 \<and> rtMemoryLimit (prRuntime w) = 2 ^ 40"
proof -
  let ?w0 = "quiet_process demo_runtime 0"
  obtain p r where new: "newGCPacer (\<lambda>x. x) (pacer_config (2 ^ 30) 400 100) (prRuntime ?w0) = (p, r)" by fastforce
  define v where "v = ?w0\<lparr>prRuntime := r, prPacers := (prPacers ?w0)(0 \<mapsto> (p, fresh_sampling))\<rparr>"
  define w where "w = v\<lparr>prRuntime := Pacer_Stop p (prRuntime v), prPacers := (prPacers v)(0 := None)\<rparr>"
  have v: "pacer_step (\<lambda>x. x) ?w0 v" unfolding v_def by (rule pacer_step.start [OF _ new]) (simp add: quiet_process_def)
  have "rtMemoryLimit r = 2 ^ 30" using new
    by (auto simp: quiet_process_def demo_runtime_def newGCPacer_def pacer_config_def WithGCPacer_def WithGCPacerSpikeGOGC_def
        WithGCPacerNormalGOGC_def defaultGCPacerConfig_def currentGCPercent_def SetGCPercent_def SetMemoryLimit_def Let_def)
  then have lim: "rtMemoryLimit (prRuntime v) = 2 ^ 30" by (simp add: v_def)
  have "prPacers v 0 = Some (p, fresh_sampling)" by (simp add: v_def)
  then have w: "pacer_step (\<lambda>x. x) v w" unfolding w_def by (rule pacer_step.stop)
  have run: "(pacer_step (\<lambda>x. x))\<^sup>*\<^sup>* ?w0 w"
    by (rule converse_rtranclp_into_rtranclp [of "pacer_step (\<lambda>x. x)", OF v r_into_rtranclp [of "pacer_step (\<lambda>x. x)", OF w]])
  have none: "\<forall>k p st. prPacers w k = Some (p, st) \<longrightarrow> \<not> gpEngine p" by (simp add: w_def v_def quiet_process_def)
  have "- 1 \<le> rtGOGC demo_runtime" "0 \<le> rtMemoryLimit demo_runtime" by (simp_all add: demo_runtime_def)
  from pacer_restores [OF run this order.refl] none
  have "rtGOGC (prRuntime w) = rtGOGC demo_runtime \<and> rtMemoryLimit (prRuntime w) = rtMemoryLimit demo_runtime" by blast
  then have "rtGOGC (prRuntime w) = 77 \<and> rtMemoryLimit (prRuntime w) = 2 ^ 40" by (simp only: demo_runtime_def Runtime.select_convs)
  then show ?thesis
    using r_into_rtranclp [of "pacer_step (\<lambda>x. x)", OF v] r_into_rtranclp [of "pacer_step (\<lambda>x. x)", OF w] lim by blast
qed

end
