(* ===== verification/Session_Flow.thy ===== *)
theory Session_Flow
  imports Prelude
begin

text \<open>
  How the goroutines of a session wait for one another: \<^verbatim>\<open>send\<close>, \<^verbatim>\<open>produce\<close>, \<^verbatim>\<open>wake\<close>, \<^verbatim>\<open>signalDrain\<close>, the
  loop of \<^verbatim>\<open>runSender\<close> and \<^verbatim>\<open>Stream\<close>, which \<^verbatim>\<open>internal/relay/relay.go\<close> and \<^verbatim>\<open>internal/grpc\<close> have
  with the same code but for the batches, of which a relay's are of one message.

  \<^item> The ring is a bounded queue, which it refines (theory Ring); \<^verbatim>\<open>wakeCh\<close> and \<^verbatim>\<open>drainCh\<close> are
    channels of capacity one that are only sent to when empty: a flag each.
  \<^item> The dispatch loop is the only goroutine that calls \<^verbatim>\<open>send\<close>, the blocking one; deliveries of any
    number of publications call \<^verbatim>\<open>produce\<close>. Of those, \<open>flWaking\<close> counts the ones that have put their
    message into the ring and not called \<^verbatim>\<open>wake\<close> yet.
  \<^item> What the sender has taken and not sent is \<open>SDrain\<close>'s list, of at most \<open>flBatch\<close> messages.
\<close>

datatype 'm sender_pc = SDrain "'m list" | SWait | SExit | SDone
datatype 'm dispatch_pc = DIdle | DTry 'm | DWait 'm | DWake

record 'm flow =
  flCap :: nat
  flBatch :: nat
  flRing :: "'m list"
  flWakeCh :: bool
  flDrainCh :: bool
  flSender :: "'m sender_pc"
  flSenderDone :: bool
  flDispatch :: "'m dispatch_pc"
  flWaking :: nat
  flCancelled :: bool
  flAccepted :: "'m list"
  flSent :: "'m list"

definition put_ring :: "'m \<Rightarrow> 'm flow \<Rightarrow> 'm flow" where
  "put_ring m s = s\<lparr>flRing := flRing s @ [m], flAccepted := flAccepted s @ [m]\<rparr>"

definition wake :: "'m flow \<Rightarrow> 'm flow" where
  "wake s = s\<lparr>flWakeCh := True\<rparr>"

definition signalDrain :: "'m flow \<Rightarrow> 'm flow" where
  "signalDrain s = s\<lparr>flDrainCh := True\<rparr>"

text \<open>The steps of the sender and of the deliveries on one side, those of the dispatch loop on the other.\<close>

inductive sender_side :: "'m flow \<Rightarrow> 'm flow \<Rightarrow> bool" where
  take: "flSender s = SDrain h \<Longrightarrow> length h < flBatch s \<Longrightarrow> flRing s = m # ms \<Longrightarrow>
    sender_side s (s\<lparr>flRing := ms, flSender := SDrain (h @ [m])\<rparr>)"
| flush: "flSender s = SDrain h \<Longrightarrow> h \<noteq> [] \<Longrightarrow> sender_side s (signalDrain (s\<lparr>flSent := flSent s @ h, flSender := SDrain []\<rparr>))"
| park: "flSender s = SDrain [] \<Longrightarrow> flRing s = [] \<Longrightarrow> sender_side s (s\<lparr>flSender := SWait\<rparr>)"
| woken: "flSender s = SWait \<Longrightarrow> flWakeCh s \<Longrightarrow> sender_side s (s\<lparr>flWakeCh := False, flSender := SDrain []\<rparr>)"
| failed: "flSender s = SDrain h \<Longrightarrow> h \<noteq> [] \<Longrightarrow> sender_side s (s\<lparr>flSender := SExit\<rparr>)"
| closed: "flSender s = SWait \<Longrightarrow> flCancelled s \<Longrightarrow> sender_side s (s\<lparr>flSender := SExit\<rparr>)"
| drainSendRing: "flSender s = SExit \<Longrightarrow> flRing s = m # ms \<Longrightarrow> sender_side s (s\<lparr>flRing := ms\<rparr>)"
| exit: "flSender s = SExit \<Longrightarrow> flRing s = [] \<Longrightarrow> sender_side s (s\<lparr>flSender := SDone, flSenderDone := True\<rparr>)"

inductive deliver_side :: "'m flow \<Rightarrow> 'm flow \<Rightarrow> bool" where
  produce: "length (flRing s) < flCap s \<Longrightarrow> deliver_side s ((put_ring m s)\<lparr>flWaking := flWaking s + 1\<rparr>)"
| produce_wake: "flWaking s > 0 \<Longrightarrow> deliver_side s (wake (s\<lparr>flWaking := flWaking s - 1\<rparr>))"
| cancel: "deliver_side s (s\<lparr>flCancelled := True\<rparr>)"

inductive dispatch_side :: "'m flow \<Rightarrow> 'm flow \<Rightarrow> bool" where
  send: "flDispatch s = DIdle \<Longrightarrow> dispatch_side s (s\<lparr>flDispatch := DTry m\<rparr>)"
| produced: "flDispatch s = DTry m \<Longrightarrow> length (flRing s) < flCap s \<Longrightarrow> dispatch_side s ((put_ring m s)\<lparr>flDispatch := DWake\<rparr>)"
| full: "flDispatch s = DTry m \<Longrightarrow> length (flRing s) = flCap s \<Longrightarrow> dispatch_side s (s\<lparr>flDispatch := DWait m\<rparr>)"
| retry: "flDispatch s = DWait m \<Longrightarrow> flDrainCh s \<Longrightarrow> dispatch_side s (s\<lparr>flDrainCh := False, flDispatch := DTry m\<rparr>)"
| abort: "flDispatch s = DWait m \<Longrightarrow> flCancelled s \<or> flSenderDone s \<Longrightarrow> dispatch_side s (s\<lparr>flDispatch := DIdle\<rparr>)"
| sent: "flDispatch s = DWake \<Longrightarrow> dispatch_side s (wake (s\<lparr>flDispatch := DIdle\<rparr>))"

definition flow_step :: "'m flow \<Rightarrow> 'm flow \<Rightarrow> bool" where
  "flow_step s s' \<longleftrightarrow> sender_side s s' \<or> deliver_side s s' \<or> dispatch_side s s'"

definition flow_start :: "nat \<Rightarrow> nat \<Rightarrow> 'm flow" where
  "flow_start cap batch = \<lparr>flCap = cap, flBatch = batch, flRing = [], flWakeCh = False, flDrainCh = False, flSender = SDrain [],
     flSenderDone = False, flDispatch = DIdle, flWaking = 0, flCancelled = False, flAccepted = [], flSent = []\<rparr>"

section \<open>No signal is lost\<close>

fun held :: "'m sender_pc \<Rightarrow> 'm list" where
  "held (SDrain h) = h"
| "held _ = []"

definition running :: "'m flow \<Rightarrow> bool" where
  "running s \<longleftrightarrow> (case flSender s of SDrain _ \<Rightarrow> True | SWait \<Rightarrow> True | _ \<Rightarrow> False)"

definition flow_ok :: "'m flow \<Rightarrow> bool" where
  "flow_ok s \<longleftrightarrow> 0 < flCap s \<and> 0 < flBatch s \<and> length (flRing s) \<le> flCap s \<and> length (held (flSender s)) \<le> flBatch s
     \<and> (flSenderDone s \<longleftrightarrow> flSender s = SDone)
     \<and> (running s \<longrightarrow> flSent s @ held (flSender s) @ flRing s = flAccepted s)
     \<and> (flSender s = SWait \<and> flRing s \<noteq> [] \<longrightarrow> flWakeCh s \<or> 0 < flWaking s \<or> flDispatch s = DWake)
     \<and> (running s \<and> (\<exists>m. flDispatch s = DWait m) \<and> \<not> flDrainCh s \<longrightarrow> flCap s \<le> length (held (flSender s)) + length (flRing s))"

lemma flow_ok_start: "0 < cap \<Longrightarrow> 0 < batch \<Longrightarrow> flow_ok (flow_start cap batch)"
  by (simp add: flow_ok_def flow_start_def)

lemma flow_ok_sender: "sender_side s s' \<Longrightarrow> flow_ok s \<Longrightarrow> flow_ok s'"
  by (induction rule: sender_side.induct) (auto simp: flow_ok_def running_def signalDrain_def)

lemma flow_ok_deliver: "deliver_side s s' \<Longrightarrow> flow_ok s \<Longrightarrow> flow_ok s'"
  by (induction rule: deliver_side.induct) (auto simp: flow_ok_def running_def put_ring_def wake_def)

lemma flow_ok_dispatch: "dispatch_side s s' \<Longrightarrow> flow_ok s \<Longrightarrow> flow_ok s'"
  by (induction rule: dispatch_side.induct) (auto simp: flow_ok_def running_def put_ring_def wake_def)

lemma flow_ok_reach: "flow_step\<^sup>*\<^sup>* s s' \<Longrightarrow> flow_ok s \<Longrightarrow> flow_ok s'"
  by (induction rule: rtranclp_induct) (auto simp: flow_step_def intro: flow_ok_sender flow_ok_deliver flow_ok_dispatch)

section \<open>A blocked send is released\<close>

text \<open>A stretch of an execution in which the dispatch loop does not move, with the number of the sender's steps.\<close>

inductive wait_run :: "nat \<Rightarrow> 'm flow \<Rightarrow> 'm flow \<Rightarrow> bool" where
  here: "wait_run 0 s s"
| sender: "wait_run n s s' \<Longrightarrow> sender_side s' t \<Longrightarrow> wait_run (Suc n) s t"
| deliver: "wait_run n s s' \<Longrightarrow> deliver_side s' t \<Longrightarrow> wait_run n s t"

definition lag :: "'m flow \<Rightarrow> nat" where
  "lag s = (case flSender s of SWait \<Rightarrow> flBatch s + 1 | SDrain h \<Rightarrow> flBatch s - length h | _ \<Rightarrow> 0)"

lemma side_constants:
  "sender_side s t \<Longrightarrow> flDispatch t = flDispatch s \<and> flBatch t = flBatch s \<and> (flDrainCh s \<longrightarrow> flDrainCh t) \<and> (running t \<longrightarrow> running s)"
  "deliver_side s t \<Longrightarrow> flDispatch t = flDispatch s \<and> flBatch t = flBatch s \<and> flDrainCh t = flDrainCh s \<and> flSender t = flSender s"
  by (auto simp: signalDrain_def put_ring_def wake_def running_def elim!: sender_side.cases deliver_side.cases)

lemma lag_sender:
  assumes "sender_side s t" "flow_ok s" "flDispatch s = DWait m" "running t" "\<not> flDrainCh t"
  shows "lag t < lag s"
  using assms by cases (auto simp: lag_def flow_ok_def running_def signalDrain_def)

lemma lag_deliver: "deliver_side s t \<Longrightarrow> lag t = lag s"
  unfolding lag_def by (drule side_constants(2), cases "flSender s") simp_all

lemma wait_run_ok:
  assumes "wait_run n s s'" "flow_ok s"
  shows "flow_ok s' \<and> flDispatch s' = flDispatch s \<and> flBatch s' = flBatch s"
  using assms by (induction rule: wait_run.induct) (auto dest: side_constants flow_ok_sender flow_ok_deliver)

lemma wait_run_lag:
  assumes "wait_run n s s'" "flow_ok s" "flDispatch s = DWait m" "running s'" "\<not> flDrainCh s'"
  shows "n + lag s' \<le> lag s"
  using assms
proof (induction rule: wait_run.induct)
  case (sender n s s' t)
  have mid: "flow_ok s'" "flDispatch s' = DWait m" using wait_run_ok [OF sender.hyps(1)] sender.prems(1,2) by auto
  have "running s'" "\<not> flDrainCh s'" using side_constants(1) [OF sender.hyps(2)] sender.prems(3,4) by auto
  then have "n + lag s' \<le> lag s" using sender.IH sender.prems(1,2) by blast
  then show ?case using lag_sender [OF sender.hyps(2) mid sender.prems(3,4)] by simp
next
  case (deliver n s s' t)
  then have "running s'" "\<not> flDrainCh s'" using side_constants(2) [OF deliver.hyps(2)] by (auto simp: running_def)
  then show ?case using deliver lag_deliver [OF deliver.hyps(2)] by simp
qed simp

lemma lag_bound: "flow_ok s \<Longrightarrow> lag s \<le> flBatch s + 1"
  by (auto simp: lag_def split: sender_pc.splits)

text \<open>Who can move while the dispatch loop waits.\<close>

lemma wait_progress:
  assumes "flow_ok s" "flDispatch s = DWait m"
  shows "(\<exists>t. dispatch_side s t) \<or> (\<exists>t. sender_side s t) \<or> 0 < flWaking s"
proof (cases "flDrainCh s \<or> flSenderDone s")
  case True
  then show ?thesis using dispatch_side.retry [OF assms(2)] dispatch_side.abort [OF assms(2)] by blast
next
  case False
  then have quiet: "\<not> flDrainCh s" "flSender s \<noteq> SDone" using assms(1) by (auto simp: flow_ok_def)
  show ?thesis
  proof (cases "flSender s")
    case (SDrain h)
    have total: "0 < length h + length (flRing s)" using assms quiet SDrain by (auto simp: flow_ok_def running_def)
    show ?thesis
    proof (cases h)
      case Nil
      then obtain x xs where "flRing s = x # xs" using total by (cases "flRing s") auto
      moreover have "length h < flBatch s" using Nil assms(1) by (simp add: flow_ok_def)
      ultimately show ?thesis using sender_side.take [OF SDrain] by blast
    next
      case (Cons x xs)
      then have "h \<noteq> []" by simp
      from sender_side.flush [OF SDrain this] show ?thesis by blast
    qed
  next
    case SWait
    have "flRing s \<noteq> []" using assms quiet SWait by (auto simp: flow_ok_def running_def)
    then have "flWakeCh s \<or> 0 < flWaking s" using assms SWait by (auto simp: flow_ok_def)
    then show ?thesis
    proof
      assume "flWakeCh s"
      from sender_side.woken [OF SWait this] show ?thesis by (intro disjI2 disjI1 exI)
    qed simp
  next
    case SExit
    then show ?thesis using sender_side.drainSendRing [OF SExit] sender_side.exit [OF SExit] by (cases "flRing s") blast+
  qed (use quiet in simp)
qed

text \<open>
  (C27) A session never stalls and loses nothing while its stream works: in every interleaving of the
  sender, the deliveries and the dispatch loop, what the stream has taken, followed by what the sender
  holds and what is in the ring, is what the session accepted, in order; a sender that waits while the
  ring has messages has a wake-up in its channel or on the way; and a \<^verbatim>\<open>send\<close> that waits for room is
  never stuck: somebody can always move, and as long as the sender runs it gives the signal after at
  most one step more than a batch has messages, whatever the deliveries do in between.
\<close>

theorem session_never_stalls:
  assumes "flow_step\<^sup>*\<^sup>* (flow_start cap batch) s" "0 < cap" "0 < batch"
  shows "(running s \<longrightarrow> flSent s @ held (flSender s) @ flRing s = flAccepted s)
    \<and> (flSender s = SWait \<and> flRing s \<noteq> [] \<longrightarrow> flWakeCh s \<or> 0 < flWaking s \<or> flDispatch s = DWake)
    \<and> (\<forall>m. flDispatch s = DWait m \<longrightarrow>
        ((\<exists>t. dispatch_side s t) \<or> (\<exists>t. sender_side s t) \<or> 0 < flWaking s)
        \<and> (\<forall>n s'. wait_run n s s' \<and> running s' \<and> \<not> flDrainCh s' \<longrightarrow> n \<le> batch + 1))"
proof -
  have ok: "flow_ok s" by (rule flow_ok_reach [OF assms(1) flow_ok_start [OF assms(2,3)]])
  have "flBatch t = batch" if "flow_step\<^sup>*\<^sup>* (flow_start cap batch) t" for t
    using that
  proof (induction rule: rtranclp_induct)
    case (step t u)
    then have "flBatch u = flBatch t"
      using side_constants by (auto simp: flow_step_def wake_def put_ring_def elim!: dispatch_side.cases)
    then show ?case using step.IH by simp
  qed (simp add: flow_start_def)
  then have batch: "flBatch s = batch" using assms(1) .
  have "\<forall>m. flDispatch s = DWait m \<longrightarrow>
      ((\<exists>t. dispatch_side s t) \<or> (\<exists>t. sender_side s t) \<or> 0 < flWaking s)
      \<and> (\<forall>n s'. wait_run n s s' \<and> running s' \<and> \<not> flDrainCh s' \<longrightarrow> n \<le> batch + 1)"
  proof (intro allI impI conjI)
    fix m assume m: "flDispatch s = DWait m"
    show "(\<exists>t. dispatch_side s t) \<or> (\<exists>t. sender_side s t) \<or> 0 < flWaking s" by (rule wait_progress [OF ok m])
    fix n s' assume "wait_run n s s' \<and> running s' \<and> \<not> flDrainCh s'"
    then show "n \<le> batch + 1" using wait_run_lag [OF _ ok m] lag_bound [OF ok] batch by fastforce
  qed
  with ok show ?thesis unfolding flow_ok_def by (elim conjE) (intro conjI)
qed

text \<open>A ring of two, filled by deliveries, and a response that waits for room.\<close>

theorem session_never_stalls_witness:
  "\<exists>s :: nat flow. flow_step\<^sup>*\<^sup>* (flow_start 2 1) s \<and> flDispatch s = DWait 7 \<and> flRing s = [5, 6]
     \<and> ((\<exists>t. dispatch_side s t) \<or> (\<exists>t. sender_side s t) \<or> 0 < flWaking s)"
proof -
  let ?s0 = "flow_start 2 1 :: nat flow"
  let ?s1 = "(put_ring 5 ?s0)\<lparr>flWaking := 1\<rparr>"
  let ?s2 = "(put_ring 6 ?s1)\<lparr>flWaking := 2\<rparr>"
  let ?s3 = "?s2\<lparr>flDispatch := DTry 7\<rparr>" and ?s4 = "?s2\<lparr>flDispatch := DWait 7\<rparr>"
  have "flow_step ?s0 ?s1" using deliver_side.produce [of ?s0 5] by (simp add: flow_step_def flow_start_def put_ring_def)
  moreover have "flow_step ?s1 ?s2" using deliver_side.produce [of ?s1 6] by (simp add: flow_step_def flow_start_def put_ring_def numeral_2_eq_2)
  moreover have "flow_step ?s2 ?s3" using dispatch_side.send [of ?s2 7] by (simp add: flow_step_def flow_start_def put_ring_def)
  moreover have "flow_step ?s3 ?s4" using dispatch_side.full [of ?s3 7] by (simp add: flow_step_def flow_start_def put_ring_def)
  ultimately have run: "flow_step\<^sup>*\<^sup>* ?s0 ?s4" by (meson converse_rtranclp_into_rtranclp rtranclp.rtrancl_refl)
  have "flDispatch ?s4 = DWait 7 \<and> flRing ?s4 = [5, 6]" by (simp add: flow_start_def put_ring_def)
  then show ?thesis using session_never_stalls [OF run] run by (intro exI [of _ ?s4]) auto
qed

section \<open>The dispatch loop\<close>

text \<open>
  \<^verbatim>\<open>Stream\<close>: a goroutine receives from the client and hands each message over on the unbuffered \<^verbatim>\<open>recvCh\<close>,
  or gives up when the session is cancelled; the loop handles messages until the client ends the stream,
  and empties the channel once more when the session is cancelled. \<open>siSent\<close> lists what the client
  sent and \<open>siLost\<close> the message given up, if any.
\<close>

datatype 'c receiver = RecvIdle | RecvHolds 'c | RecvDone
datatype loop_pc = Looping | Emptying | Returned

record 'c inbound =
  siSent :: "'c list"
  siInbox :: "'c list"
  siEnded :: bool
  siRecv :: "'c receiver"
  siRecvErr :: bool
  siLoop :: loop_pc
  siHandled :: "'c list"
  siCancelled :: bool
  siLost :: "'c list"

inductive stream_step :: "'c inbound \<Rightarrow> 'c inbound \<Rightarrow> bool" where
  client_sends: "\<not> siEnded s \<Longrightarrow> stream_step s (s\<lparr>siSent := siSent s @ [m], siInbox := siInbox s @ [m]\<rparr>)"
| client_ends: "stream_step s (s\<lparr>siEnded := True\<rparr>)"
| cancelled: "stream_step s (s\<lparr>siCancelled := True\<rparr>)"
| receive: "siRecv s = RecvIdle \<Longrightarrow> siInbox s = m # ms \<Longrightarrow> stream_step s (s\<lparr>siInbox := ms, siRecv := RecvHolds m\<rparr>)"
| receive_end: "siRecv s = RecvIdle \<Longrightarrow> siInbox s = [] \<Longrightarrow> siEnded s \<Longrightarrow> stream_step s (s\<lparr>siRecv := RecvDone, siRecvErr := True\<rparr>)"
| hand_over: "siRecv s = RecvHolds m \<Longrightarrow> siLoop s \<noteq> Returned \<Longrightarrow>
    stream_step s (s\<lparr>siRecv := RecvIdle, siHandled := siHandled s @ [m]\<rparr>)"
| give_up: "siRecv s = RecvHolds m \<Longrightarrow> siCancelled s \<Longrightarrow> stream_step s (s\<lparr>siRecv := RecvDone, siLost := [m]\<rparr>)"
| see_cancel: "siLoop s = Looping \<Longrightarrow> siCancelled s \<Longrightarrow> stream_step s (s\<lparr>siLoop := Emptying\<rparr>)"
| see_end: "siLoop s = Looping \<Longrightarrow> siRecvErr s \<Longrightarrow> stream_step s (s\<lparr>siLoop := Returned\<rparr>)"
| emptied: "siLoop s = Emptying \<Longrightarrow> stream_step s (s\<lparr>siLoop := Returned\<rparr>)"

definition stream_start :: "'c inbound" where
  "stream_start = \<lparr>siSent = [], siInbox = [], siEnded = False, siRecv = RecvIdle, siRecvErr = False, siLoop = Looping,
     siHandled = [], siCancelled = False, siLost = []\<rparr>"

fun in_hand :: "'c receiver \<Rightarrow> 'c list" where
  "in_hand (RecvHolds m) = [m]"
| "in_hand _ = []"

definition stream_ok :: "'c inbound \<Rightarrow> bool" where
  "stream_ok s \<longleftrightarrow> siHandled s @ in_hand (siRecv s) @ siLost s @ siInbox s = siSent s \<and> (siLost s \<noteq> [] \<longrightarrow> siRecv s = RecvDone \<and> siCancelled s)
     \<and> (siRecv s = RecvDone \<and> \<not> siCancelled s \<longrightarrow> siRecvErr s)
     \<and> (siRecvErr s \<longrightarrow> siRecv s = RecvDone \<and> siInbox s = [] \<and> siEnded s)
     \<and> (siLoop s = Emptying \<longrightarrow> siCancelled s) \<and> (siLoop s = Returned \<longrightarrow> siCancelled s \<or> siRecvErr s)"

lemma stream_ok_step: "stream_step s s' \<Longrightarrow> stream_ok s \<Longrightarrow> stream_ok s'"
  by (induction rule: stream_step.induct) (auto simp: stream_ok_def)

lemma stream_ok_reach: "stream_step\<^sup>*\<^sup>* stream_start s \<Longrightarrow> stream_ok s"
  by (induction rule: rtranclp_induct) (auto intro: stream_ok_step, simp add: stream_ok_def stream_start_def)

text \<open>
  A handler handles what the client sent, in order, and all of it before it returns unless the session
  was cancelled; and it can always go on to return once the client has ended or the session is cancelled.
\<close>

lemma stream_handles_all:
  assumes "stream_step\<^sup>*\<^sup>* stream_start s"
  shows "(\<exists>rest. siSent s = siHandled s @ rest) \<and> (siLoop s = Returned \<and> \<not> siCancelled s \<longrightarrow> siHandled s = siSent s)
    \<and> (siEnded s \<or> siCancelled s \<longrightarrow> siLoop s = Returned \<or> (\<exists>t. stream_step s t \<and> t \<noteq> s))"
proof -
  have ok: "stream_ok s" by (rule stream_ok_reach [OF assms])
  then have "siSent s = siHandled s @ in_hand (siRecv s) @ siLost s @ siInbox s" by (simp add: stream_ok_def)
  then have "\<exists>rest. siSent s = siHandled s @ rest" by blast
  moreover have "siLoop s = Returned \<and> \<not> siCancelled s \<longrightarrow> siHandled s = siSent s" using ok by (auto simp: stream_ok_def)
  moreover have "\<exists>t. stream_step s t \<and> t \<noteq> s" if go: "siEnded s \<or> siCancelled s" "siLoop s \<noteq> Returned"
  proof (cases "siCancelled s")
    case True
    then show ?thesis using go(2)
    proof (cases "siLoop s")
      case Looping
      have "s\<lparr>siLoop := Emptying\<rparr> \<noteq> s" using Looping by (cases s) simp
      then show ?thesis using stream_step.see_cancel [OF Looping True] by blast
    next
      case Emptying
      have "s\<lparr>siLoop := Returned\<rparr> \<noteq> s" using Emptying by (cases s) simp
      then show ?thesis using stream_step.emptied [OF Emptying] by blast
    qed simp
  next
    case False
    then have loop: "siLoop s = Looping" and ended: "siEnded s" using go ok by (cases "siLoop s"; simp add: stream_ok_def)+
    show ?thesis
    proof (cases "siRecv s")
      case RecvIdle
      show ?thesis
      proof (cases "siInbox s")
        case Nil
        have "s\<lparr>siRecv := RecvDone, siRecvErr := True\<rparr> \<noteq> s" using RecvIdle by (cases s) simp
        then show ?thesis using stream_step.receive_end [OF RecvIdle Nil ended] by blast
      next
        case (Cons m ms)
        have "s\<lparr>siInbox := ms, siRecv := RecvHolds m\<rparr> \<noteq> s" using RecvIdle by (cases s) simp
        then show ?thesis using stream_step.receive [OF RecvIdle Cons] by blast
      qed
    next
      case (RecvHolds m)
      have "s\<lparr>siRecv := RecvIdle, siHandled := siHandled s @ [m]\<rparr> \<noteq> s" using RecvHolds by (cases s) simp
      then show ?thesis using stream_step.hand_over [OF RecvHolds go(2)] by blast
    next
      case RecvDone
      then have "siRecvErr s" using ok False by (simp add: stream_ok_def)
      moreover have "s\<lparr>siLoop := Returned\<rparr> \<noteq> s" using loop by (cases s) simp
      ultimately show ?thesis using stream_step.see_end [OF loop] by blast
    qed
  qed
  ultimately show ?thesis by blast
qed

end
