(* ===== verification/Ws_Keepalive.thy ===== *)
theory Ws_Keepalive
  imports Prelude
begin

text \<open>
  Model of the loop of \<^verbatim>\<open>runWriter\<close> in \<^verbatim>\<open>internal/ws/handler.go\<close>: the writer goroutine of a WebSocket
  session waits for a tick of the ping ticker, the end of the context, or a message for the drain pass
  (theory Ws_Writer), and the reader stamps \<^verbatim>\<open>lastRecv\<close> on whatever arrives. \<open>kwPings\<close> lists the times at
  which pings were written. The ticker is on time: tick \<open>n\<close> comes at \<open>base + n * interval\<close>.
\<close>

record ws_loop =
  kwLastRecv :: int
  kwCancelled :: bool
  kwExited :: bool
  kwPings :: "int list"

definition liveConn_Read :: "int \<Rightarrow> nat \<Rightarrow> ws_loop \<Rightarrow> ws_loop" where
  "liveConn_Read now n w = (if n > 0 then w\<lparr>kwLastRecv := now\<rparr> else w)"

text \<open>\<open>ok\<close> says whether the ping could be written.\<close>

definition runWriter_tick :: "int \<Rightarrow> int \<Rightarrow> bool \<Rightarrow> ws_loop \<Rightarrow> ws_loop" where
  "runWriter_tick interval now ok w =
     (let idle = now - kwLastRecv w
      in if idle \<ge> 3 * interval then w\<lparr>kwCancelled := True\<rparr>
         else if idle < interval then w
         else if ok then w\<lparr>kwPings := kwPings w @ [now]\<rparr>
         else w\<lparr>kwCancelled := True\<rparr>)"

text \<open>A close frame, and the end; and a drain pass, which cancels the session when it fails.\<close>

definition runWriter_done :: "ws_loop \<Rightarrow> ws_loop" where
  "runWriter_done w = w\<lparr>kwExited := True\<rparr>"

definition runWriter_msg :: "bool \<Rightarrow> ws_loop \<Rightarrow> ws_loop" where
  "runWriter_msg drained w = (if drained then w else w\<lparr>kwCancelled := True, kwExited := True\<rparr>)"

datatype ws_event = Tick int bool | CtxDone | Message bool | Read int nat

text \<open>One turn of the select, for the events that can happen; a tick is never due without an interval.\<close>

definition ws_event :: "int \<Rightarrow> ws_event \<Rightarrow> ws_loop \<Rightarrow> ws_loop" where
  "ws_event interval ev w =
     (case ev of
        Tick now ok \<Rightarrow> if kwExited w \<or> interval \<le> 0 then w else runWriter_tick interval now ok w
      | CtxDone \<Rightarrow> if kwExited w \<or> \<not> kwCancelled w then w else runWriter_done w
      | Message drained \<Rightarrow> if kwExited w then w else runWriter_msg drained w
      | Read now n \<Rightarrow> liveConn_Read now n w)"

definition ws_run :: "int \<Rightarrow> ws_event list \<Rightarrow> ws_loop \<Rightarrow> ws_loop" where
  "ws_run interval evs w = fold (ws_event interval) evs w"

lemma ws_run_simps [simp]:
  "ws_run interval [] w = w" "ws_run interval (ev # evs) w = ws_run interval evs (ws_event interval ev w)"
  "ws_run interval (xs @ ys) w = ws_run interval ys (ws_run interval xs w)"
  by (simp_all add: ws_run_def)

section \<open>A peer that falls silent\<close>

text \<open>The ticks \<open>a\<close> to \<open>b - 1\<close>, at each of which a ping can be written.\<close>

definition ticks :: "int \<Rightarrow> int \<Rightarrow> nat \<Rightarrow> nat \<Rightarrow> ws_event list" where
  "ticks interval base a b = map (\<lambda>n. Tick (base + int n * interval) True) [a..<b]"

lemma ticks_Suc: "a \<le> b \<Longrightarrow> ticks interval base a (Suc b) = ticks interval base a b @ [Tick (base + int b * interval) True]"
  by (simp add: ticks_def)

lemma ticks_quiet:
  assumes "0 < interval" "\<not> kwExited w" "a \<le> b" "base + int b * interval < kwLastRecv w + 2 * interval"
  shows "ws_run interval (ticks interval base a b) w = w"
  using assms(3,4)
proof (induction b rule: dec_induct)
  case base
  then show ?case by (simp add: ticks_def)
next
  case (step b)
  have "base + int b * interval < kwLastRecv w + interval" using step.prems by (simp add: algebra_simps)
  then have "ws_event interval (Tick (base + int b * interval) True) w = w"
    using assms(1,2) by (simp add: ws_event_def runWriter_tick_def Let_def)
  moreover have "ws_run interval (ticks interval base a b) w = w"
    using step.IH step.prems assms(1) by (simp add: algebra_simps)
  ultimately show ?case using step.hyps by (simp add: ticks_Suc)
qed

lemma tick_ping:
  "0 < interval \<Longrightarrow> \<not> kwExited w \<Longrightarrow> kwLastRecv w + interval \<le> now \<Longrightarrow> now < kwLastRecv w + 3 * interval \<Longrightarrow>
    ws_event interval (Tick now True) w = w\<lparr>kwPings := kwPings w @ [now]\<rparr>"
  by (simp add: ws_event_def runWriter_tick_def Let_def)

lemma tick_reap:
  "0 < interval \<Longrightarrow> \<not> kwExited w \<Longrightarrow> kwLastRecv w + 3 * interval \<le> now \<Longrightarrow>
    ws_event interval (Tick now ok) w = w\<lparr>kwCancelled := True\<rparr>"
  by (simp add: ws_event_def runWriter_tick_def Let_def)

text \<open>
  (C30) The keepalive reaps after exactly two unanswered pings: for a session that was last heard of
  less than two intervals before tick \<open>q\<close>, the first that is an interval later, and that stays silent
  while its pings can be written, the ticks from \<open>a\<close> on send nothing before \<open>q\<close>, then two pings and no
  more, and the next tick cancels the session, which is at least three and less than four intervals
  after the last sign of life; until then the session is not cancelled.
\<close>

theorem keepalive_two_pings:
  assumes "0 < interval" "\<not> kwExited w"
    and "a \<le> q" "kwLastRecv w + interval \<le> base + int q * interval" "base + int q * interval < kwLastRecv w + 2 * interval"
  shows "ws_run interval (ticks interval base a q) w = w
    \<and> ws_run interval (ticks interval base a (q + 2)) w =
        w\<lparr>kwPings := kwPings w @ [base + int q * interval, base + int (q + 1) * interval]\<rparr>
    \<and> ws_run interval (ticks interval base a (q + 3)) w =
        w\<lparr>kwPings := kwPings w @ [base + int q * interval, base + int (q + 1) * interval], kwCancelled := True\<rparr>
    \<and> kwLastRecv w + 3 * interval \<le> base + int (q + 2) * interval
    \<and> base + int (q + 2) * interval < kwLastRecv w + 4 * interval"
proof -
  have quiet: "ws_run interval (ticks interval base a q) w = w" by (rule ticks_quiet [OF assms(1,2,3,5)])
  have "ticks interval base a (q + 2) = ticks interval base a q @ [Tick (base + int q * interval) True, Tick (base + int (q + 1) * interval) True]"
    using ticks_Suc [of a q] ticks_Suc [of a "Suc q"] assms(3) by (simp add: numeral_2_eq_2)
  moreover have "ws_event interval (Tick (base + int q * interval) True) w = w\<lparr>kwPings := kwPings w @ [base + int q * interval]\<rparr>"
    using assms by (intro tick_ping) auto
  moreover have "ws_event interval (Tick (base + int (q + 1) * interval) True) (w\<lparr>kwPings := kwPings w @ [base + int q * interval]\<rparr>) =
      w\<lparr>kwPings := kwPings w @ [base + int q * interval, base + int (q + 1) * interval]\<rparr>"
    using assms by (subst tick_ping) (auto simp: algebra_simps)
  ultimately have two: "ws_run interval (ticks interval base a (q + 2)) w =
      w\<lparr>kwPings := kwPings w @ [base + int q * interval, base + int (q + 1) * interval]\<rparr>" using quiet by simp
  have late: "kwLastRecv w + 3 * interval \<le> base + int (q + 2) * interval" "base + int (q + 2) * interval < kwLastRecv w + 4 * interval"
    using assms(4,5) by (simp_all add: algebra_simps)
  have "ticks interval base a (q + 3) = ticks interval base a (q + 2) @ [Tick (base + int (q + 2) * interval) True]"
    using ticks_Suc [of a "q + 2"] assms(3) by (simp add: numeral_3_eq_3 numeral_2_eq_2)
  moreover have "ws_event interval (Tick (base + int (q + 2) * interval) True)
      (w\<lparr>kwPings := kwPings w @ [base + int q * interval, base + int (q + 1) * interval]\<rparr>) =
      w\<lparr>kwPings := kwPings w @ [base + int q * interval, base + int (q + 1) * interval], kwCancelled := True\<rparr>"
    using assms(1,2) late(1) by (subst tick_reap) auto
  ultimately have "ws_run interval (ticks interval base a (q + 3)) w =
      w\<lparr>kwPings := kwPings w @ [base + int q * interval, base + int (q + 1) * interval], kwCancelled := True\<rparr>" using two by simp
  with quiet two late show ?thesis by blast
qed

text \<open>An interval of 25 seconds, ticks from 1000 on, and a peer last heard of at 1010.\<close>

theorem keepalive_two_pings_witness:
  "kwCancelled (ws_run 25 (ticks 25 1000 1 5) \<lparr>kwLastRecv = 1010, kwCancelled = False, kwExited = False, kwPings = []\<rparr>)
   \<and> kwPings (ws_run 25 (ticks 25 1000 1 5) \<lparr>kwLastRecv = 1010, kwCancelled = False, kwExited = False, kwPings = []\<rparr>) = [1050, 1075]"
  using keepalive_two_pings [of 25 "\<lparr>kwLastRecv = 1010, kwCancelled = False, kwExited = False, kwPings = []\<rparr>" 1 2 1000] by simp

text \<open>A peer of whom something is read within three intervals before every tick is never reaped.\<close>

lemma keepalive_spares:
  "0 < interval \<Longrightarrow> \<not> kwCancelled w \<Longrightarrow> now < kwLastRecv w + 3 * interval \<Longrightarrow> \<not> kwCancelled (ws_event interval (Tick now True) w)"
  by (simp add: ws_event_def runWriter_tick_def Let_def)

end
