(* ===== verification/Relay_Sessions.thy ===== *)
theory Relay_Sessions
  imports Relay Sessions
begin

text \<open>
  The sessions of a relay's own listener in \<^verbatim>\<open>internal/relay/relay.go\<close>: their creation and end, their
  dispatch and the messages they send. They are gRPC sessions with hooks, a send ring of a configured
  size, and a greeting without a protocol version; the lemmas say that nothing else differs.
\<close>

section \<open>Messages\<close>

definition relay_SendConnected :: "int \<Rightarrow> string \<Rightarrow> u32 \<Rightarrow> pbServerMessage" where
  "relay_SendConnected sid reqID version = \<lparr>psmId = reqID, psmBody = PbConnected (''relay-conn-'' @ show_int sid) 0\<rparr>"

definition relay_SendRefreshed :: "string \<Rightarrow> u64 \<Rightarrow> pbServerMessage" where
  "relay_SendRefreshed reqID expiresAt = \<lparr>psmId = reqID, psmBody = PbRefreshed expiresAt\<rparr>"

definition relay_SendSubscribed :: "string \<Rightarrow> string \<Rightarrow> bool \<Rightarrow> bool \<Rightarrow> pbServerMessage" where
  "relay_SendSubscribed reqID channel recovered didRecover =
     \<lparr>psmId = reqID, psmBody = PbSubscribed channel (if didRecover then recovered else False)\<rparr>"

definition relay_SendUnsubscribed :: "string \<Rightarrow> string \<Rightarrow> pbServerMessage" where
  "relay_SendUnsubscribed reqID channel = \<lparr>psmId = reqID, psmBody = PbUnsubscribed channel\<rparr>"

definition relay_SendPublished :: "string \<Rightarrow> string \<Rightarrow> PublishResult \<Rightarrow> pbServerMessage" where
  "relay_SendPublished reqID channel r =
     \<lparr>psmId = reqID, psmBody = PbPublished channel (resOffset r) (resEpoch r) (word_of_int (resDelivered r)) (word_of_int (resDropped r))\<rparr>"

definition relay_SendPong :: "string \<Rightarrow> pbServerMessage" where
  "relay_SendPong reqID = \<lparr>psmId = reqID, psmBody = PbPong\<rparr>"

definition relay_sendError :: "pbErrorCode \<Rightarrow> string \<Rightarrow> string \<Rightarrow> pbServerMessage" where
  "relay_sendError code message reqID = \<lparr>psmId = reqID, psmBody = PbError code message\<rparr>"

definition relay_getServerMsg :: "Delivery \<Rightarrow> pbServerMessage" where
  "relay_getServerMsg d =
     \<lparr>psmId = [], psmBody = PbChannelMessage \<lparr>pcChannel = dChannel d, pcData = dData d, pcOffset = dOffset d, pcEpoch = dEpoch d\<rparr>\<rparr>"

fun relay_encode :: "int \<Rightarrow> response \<Rightarrow> pbServerMessage" where
  "relay_encode sid (Connected reqID version) = relay_SendConnected sid reqID version"
| "relay_encode sid (Refreshed reqID expiresAt) = relay_SendRefreshed reqID expiresAt"
| "relay_encode sid (Subscribed reqID channel recovered didRecover) = relay_SendSubscribed reqID channel recovered didRecover"
| "relay_encode sid (Unsubscribed reqID channel) = relay_SendUnsubscribed reqID channel"
| "relay_encode sid (Published reqID channel r) = relay_SendPublished reqID channel r"
| "relay_encode sid (Pong reqID) = relay_SendPong reqID"
| "relay_encode sid (ErrorResponse code msg reqID) = relay_sendError (From code) msg reqID"
| "relay_encode sid (ChannelMessage d) = relay_getServerMsg d"

lemma relay_encode_same: "(\<forall>reqID version. r \<noteq> Connected reqID version) \<Longrightarrow> relay_encode sid r = grpc_encode sid r"
  by (cases r) (simp_all add: relay_SendRefreshed_def relay_SendSubscribed_def relay_SendUnsubscribed_def relay_SendPublished_def
      relay_SendPong_def relay_sendError_def relay_getServerMsg_def SendRefreshed_def SendSubscribed_def SendUnsubscribed_def
      SendPublished_def SendPong_def sendError_def getServerMsg_def)

section \<open>Dispatch\<close>

definition relay_handleMessage :: "RelayWorld env \<Rightarrow> pbClientMessage \<Rightarrow> Session \<Rightarrow> Engine \<Rightarrow> RelayWorld
    \<Rightarrow> (Session \<times> Engine \<times> RelayWorld) result option" where
  "relay_handleMessage v msg s e w =
     (case pcmBody msg of
        PbConnect token version \<Rightarrow>
          Some (Inr (Connect (envVerify v) \<lparr>cqAuthToken = token, cqProtocolVersion = version\<rparr> (pcmId msg) s, e, w))
      | PbPing \<Rightarrow> Some (Inr (Ping (pcmId msg) s, e, w))
      | PbRefresh token \<Rightarrow> Some (Inr (Refresh (envVerify v) \<lparr>rqAuthToken = token\<rparr> (pcmId msg) s, e, w))
      | PbConfirm channel offset \<Rightarrow>
          map_option (\<lambda>s'. Inr (s', e, w)) (Op_Confirm (envNow v) (envAccept v) channel offset (pcmId msg) s e)
      | PbSubscribe req \<Rightarrow>
          Some (Inr (Op_Subscribe (envNow v) (envEpoch v) (envAccept v) (envHooks v) (ToSubscribe req) (pcmId msg) s e w))
      | PbUnsubscribe channel \<Rightarrow> Some (Inr (Op_Unsubscribe (envNow v) (envHooks v) channel (pcmId msg) s e w))
      | PbPublish channel data \<Rightarrow>
          Some (Op_Publish (envNow v) (envEpoch v) (envOrder v) (envSched v) (envDeliver v) (envHooks v)
            \<lparr>pqChannel = channel, pqData = data\<rparr> (pcmId msg) s e w)
      | PbOther \<Rightarrow> Some (Inr (Unknown (pcmId msg) s, e, w)))"

lemma relay_dispatch_same: "relay_handleMessage v msg s e w = dispatchParsed v (as_ws msg) s e w"
  unfolding handleMessage_ws [symmetric] by (simp add: relay_handleMessage_def handleMessage_def)

section \<open>Creation\<close>

text \<open>\<open>None\<close> says that the rounding loop does not return; a session that could not be created is \<open>Some (None, \<dots>)\<close>.\<close>

definition relay_createSession :: "int \<Rightarrow> nat \<Rightarrow> GrpcServer \<Rightarrow> nat SessionStore option
    \<Rightarrow> (GrpcSession option \<times> GrpcServer \<times> nat SessionStore option) option" where
  "relay_createSession bufferSize p srv ss =
     (case session_identity srv of
        (state, i, srv1) \<Rightarrow>
          (case sendRingCap bufferSize of
             None \<Rightarrow> None
           | Some cap \<Rightarrow>
               (case NewPointer (sint cap) of
                  None \<Rightarrow> Some (None, close_state state srv1, ss)
                | Some ring \<Rightarrow>
                    (let (subID, store1) =
                       (case ss of
                          None \<Rightarrow> (word_of_int i, None)
                        | Some st \<Rightarrow> (case AllocID (word_of_int i) st of (sid, st1) \<Rightarrow> (sid, Some st1)));
                         sess = \<lparr>gsId = i, gsSubID = subID, gsState = state, gsRing = ring, gsConsumer = NewConsumer True,
                                 gsAuthTimer = (tcAuthDeadline (srvConfig srv1) > 0), gsExpiryTimer = False, gsCancelled = False\<rparr>
                     in Some (Some sess,
                         srv1\<lparr>srvSessions := gput i p (srvSessions srv1), srvConnectionCount := srvConnectionCount srv1 + 1,
                              srvConnectionsTotal := srvConnectionsTotal srv1 + 1\<rparr>,
                         (case store1 of None \<Rightarrow> None | Some st \<Rightarrow> Some (Register subID (Some p) st)))))))"

lemma sint_cap: "cap \<le> 2 ^ 62 \<Longrightarrow> sint (of_nat cap :: u64) = int cap"
proof -
  assume cap: "cap \<le> 2 ^ 62"
  then have "int cap \<le> int (2 ^ 62)" by (rule of_nat_mono)
  then have lt: "int cap < 2 ^ 63" by simp
  then have "signed_take_bit 63 (int cap) = int cap" by (intro signed_take_bit_int_eq_self) simp_all
  moreover have "sint (word_of_int (int cap) :: u64) = signed_take_bit 63 (int cap)"
    using sint_sbintrunc' [of "int cap", where ?'a = 64] by simp
  ultimately show ?thesis by simp
qed

text \<open>
  A relay session can always be opened, whatever buffer size up to \<open>2^62\<close> is configured, negative
  ones included: the rounding loop returns a capacity that the ring accepts, at least the size asked
  for and less than twice that (or 2), and apart from that ring the session, its identity, the server
  and the store are what a gRPC server in the same state would make.
\<close>

theorem relay_session_opens:
  assumes "bufferSize \<le> 2 ^ 62"
  shows "\<exists>cap ring s srv' ss'. sendRingCap bufferSize = Some (of_nat cap) \<and> bufferSize \<le> int cap \<and> (int cap < 2 * bufferSize \<or> cap = 2)
    \<and> NewPointer (int cap) = Some ring \<and> ring_ok cap [] ring
    \<and> grpc_createSession p srv ss = (Some s, srv', ss')
    \<and> relay_createSession bufferSize p srv ss = Some (Some (s\<lparr>gsRing := ring\<rparr>), srv', ss')"
proof -
  obtain cap and ring :: "pbServerMessage PointerRing" where cap: "sendRingCap bufferSize = Some (of_nat cap)" "cap \<le> 2 ^ 62"
      "NewPointer (int cap) = Some ring" "ring_ok cap [] ring" "bufferSize \<le> int cap" "int cap < 2 * bufferSize \<or> cap = 2"
    using send_ring_fits [OF assms] by blast
  obtain state i srv1 where id: "session_identity srv = (state, i, srv1)" by (cases "session_identity srv") auto
  obtain old :: "pbServerMessage PointerRing" where old: "NewPointer sendRingCapacity = Some old" by (rule sendRing)
  have "\<exists>s srv' ss'. grpc_createSession p srv ss = (Some s, srv', ss')
      \<and> relay_createSession bufferSize p srv ss = Some (Some (s\<lparr>gsRing := ring\<rparr>), srv', ss')"
    using id old cap(1,3) sint_cap [OF cap(2)]
    by (cases ss; cases "AllocID (word_of_int i) (the ss)") (simp_all add: grpc_createSession_def relay_createSession_def Let_def)
  with cap show ?thesis by blast
qed

theorem relay_session_opens_witness:
  "\<exists>cap s srv' ss'. sendRingCap 100 = Some (of_nat cap) \<and> 100 \<le> int cap
     \<and> relay_createSession 100 0 (grpc_start (\<lambda>_. True) 4400 (grpc_New ''relay'' [])) (Some NewSessionStore) = Some (Some s, srv', ss')"
  using relay_session_opens [of 100 0 "grpc_start (\<lambda>_. True) 4400 (grpc_New ''relay'' [])" "Some NewSessionStore"] by auto

end
