(* ===== verification/Relay_Workers.thy ===== *)
theory Relay_Workers
  imports Relay
begin

text \<open>
  The path of an upstream message through \<^verbatim>\<open>internal/relay/relay.go\<close>: the receive loop of the upstream
  connection calls \<^verbatim>\<open>enqueueUpstreamMessage\<close>, which puts it into the bounded \<^verbatim>\<open>incomingCh\<close>, and
  \<^verbatim>\<open>FanoutWorkers\<close> goroutines run \<^verbatim>\<open>fanoutWorker\<close>; \<^verbatim>\<open>Stop\<close> cancels, stops the upstream, closes the
  channel and waits.

  \<^item> A step is what is atomic: taking from or putting into the channel, either half of a check of the
    deduplicator (theory Dedup), a publication (which holds the lock of its channel). In between, the
    cleaner of the deduplicator and other users of the engine take steps.
  \<^item> \<open>rwHandled\<close> lists the messages whose handling is over, with whether they were published;
    \<open>rwReceived\<close>, \<open>rwAccepted\<close> and \<open>rwLost\<close> what the receive loop got, put into the channel and gave up.
\<close>

datatype recv_pc = RTop | RRecving | RHas Delivery | RDone
datatype fanout_worker = WIdle | WTook Delivery | WMissed Delivery | WFresh Delivery | WExit
datatype relay_stop = Serving | Cancelled | StoppingUpstream | ChClosed | Stopped

record 'o incoming =
  rwCap :: nat
  rwIncomingCh :: "Delivery list"
  rwRecv :: recv_pc
  rwWorkers :: "fanout_worker list"
  rwStop :: relay_stop
  rwPanicked :: bool
  rwDeduplicator :: Deduplicator
  rwEngine :: Engine
  rwOut :: 'o
  rwReceived :: "Delivery list"
  rwAccepted :: "Delivery list"
  rwLost :: "Delivery list"
  rwHandled :: "(Delivery \<times> bool) list"

definition relay_cancelled :: "'o incoming \<Rightarrow> bool" where
  "relay_cancelled s \<longleftrightarrow> rwStop s \<noteq> Serving"

definition upstream_cancelled :: "'o incoming \<Rightarrow> bool" where
  "upstream_cancelled s \<longleftrightarrow> rwStop s \<in> {StoppingUpstream, ChClosed, Stopped}"

definition incoming_closed :: "'o incoming \<Rightarrow> bool" where
  "incoming_closed s \<longleftrightarrow> rwStop s \<in> {ChClosed, Stopped}"

text \<open>The receive loop: its check of the context, a receive that yields nothing for the relay, a message.\<close>

inductive receive_side :: "'o incoming \<Rightarrow> 'o incoming \<Rightarrow> bool" where
  check: "rwRecv s = RTop \<Longrightarrow> receive_side s (s\<lparr>rwRecv := (if upstream_cancelled s then RDone else RRecving)\<rparr>)"
| nothing: "rwRecv s = RRecving \<Longrightarrow> receive_side s (s\<lparr>rwRecv := RTop\<rparr>)"
| torn_down: "rwRecv s = RRecving \<Longrightarrow> upstream_cancelled s \<Longrightarrow> receive_side s (s\<lparr>rwRecv := RDone\<rparr>)"
| message: "rwRecv s = RRecving \<Longrightarrow> receive_side s (s\<lparr>rwRecv := RHas m, rwReceived := rwReceived s @ [m]\<rparr>)"
| enqueue: "rwRecv s = RHas m \<Longrightarrow> \<not> incoming_closed s \<Longrightarrow> length (rwIncomingCh s) < rwCap s \<Longrightarrow>
    receive_side s (s\<lparr>rwRecv := RTop, rwIncomingCh := rwIncomingCh s @ [m], rwAccepted := rwAccepted s @ [m]\<rparr>)"
| closed_send: "rwRecv s = RHas m \<Longrightarrow> incoming_closed s \<Longrightarrow> receive_side s (s\<lparr>rwPanicked := True\<rparr>)"
| give_up: "rwRecv s = RHas m \<Longrightarrow> relay_cancelled s \<Longrightarrow> receive_side s (s\<lparr>rwRecv := RTop, rwLost := rwLost s @ [m]\<rparr>)"

text \<open>A worker: \<open>onUpstreamMessage\<close> in its atomic parts. A publication that panics ends the process.\<close>

definition worker_key :: "(string \<Rightarrow> u64 \<Rightarrow> u64 \<Rightarrow> u64) \<Rightarrow> Delivery \<Rightarrow> u64" where
  "worker_key hash m = hash (dChannel m) (dEpoch m) (dOffset m)"

definition worker_at :: "nat \<Rightarrow> fanout_worker \<Rightarrow> 'o incoming \<Rightarrow> bool" where
  "worker_at i w s \<longleftrightarrow> i < length (rwWorkers s) \<and> rwWorkers s ! i = w"

definition set_worker :: "nat \<Rightarrow> fanout_worker \<Rightarrow> 'o incoming \<Rightarrow> 'o incoming" where
  "set_worker i w s = s\<lparr>rwWorkers := (rwWorkers s)[i := w]\<rparr>"

inductive worker_side :: "(string \<Rightarrow> u64 \<Rightarrow> u64 \<Rightarrow> u64) \<Rightarrow> 'o DeliveryFunc \<Rightarrow> 'o incoming \<Rightarrow> 'o incoming \<Rightarrow> bool"
  for hash deliver where
  take: "worker_at i WIdle s \<Longrightarrow> rwIncomingCh s = m # ms \<Longrightarrow>
    worker_side hash deliver s (set_worker i (WTook m) (s\<lparr>rwIncomingCh := ms\<rparr>))"
| no_offset: "worker_at i (WTook m) s \<Longrightarrow> dOffset m = 0 \<Longrightarrow> worker_side hash deliver s (set_worker i (WFresh m) s)"
| fast: "worker_at i (WTook m) s \<Longrightarrow> dOffset m \<noteq> 0 \<Longrightarrow> Check_fast (worker_key hash m) now (rwDeduplicator s) = (False, d) \<Longrightarrow>
    worker_side hash deliver s (set_worker i (WMissed m) (s\<lparr>rwDeduplicator := d\<rparr>))"
| fast_dup: "worker_at i (WTook m) s \<Longrightarrow> dOffset m \<noteq> 0 \<Longrightarrow> Check_fast (worker_key hash m) now (rwDeduplicator s) = (True, d) \<Longrightarrow>
    worker_side hash deliver s (set_worker i WIdle (s\<lparr>rwDeduplicator := d, rwHandled := rwHandled s @ [(m, False)]\<rparr>))"
| slow: "worker_at i (WMissed m) s \<Longrightarrow> Check_slow (worker_key hash m) now (rwDeduplicator s) = (True, d) \<Longrightarrow>
    worker_side hash deliver s (set_worker i (WFresh m) (s\<lparr>rwDeduplicator := d\<rparr>))"
| slow_dup: "worker_at i (WMissed m) s \<Longrightarrow> Check_slow (worker_key hash m) now (rwDeduplicator s) = (False, d) \<Longrightarrow>
    worker_side hash deliver s (set_worker i WIdle (s\<lparr>rwDeduplicator := d, rwHandled := rwHandled s @ [(m, False)]\<rparr>))"
| publish: "worker_at i (WFresh m) s \<Longrightarrow>
    Publish now ep order sched (dChannel m) (dData m) 0 deliver (rwEngine s) (rwOut s) = Inr (r, e, out) \<Longrightarrow>
    worker_side hash deliver s (set_worker i WIdle (s\<lparr>rwEngine := e, rwOut := out, rwHandled := rwHandled s @ [(m, True)]\<rparr>))"
| exit: "worker_at i WIdle s \<Longrightarrow> rwIncomingCh s = [] \<Longrightarrow> incoming_closed s \<Longrightarrow> worker_side hash deliver s (set_worker i WExit s)"

text \<open>\<^verbatim>\<open>Server.Stop\<close>, in its order.\<close>

inductive stop_side :: "'o incoming \<Rightarrow> 'o incoming \<Rightarrow> bool" where
  cancel: "rwStop s = Serving \<Longrightarrow> stop_side s (s\<lparr>rwStop := Cancelled\<rparr>)"
| upstream: "rwStop s = Cancelled \<Longrightarrow> stop_side s (s\<lparr>rwStop := StoppingUpstream\<rparr>)"
| close: "rwStop s = StoppingUpstream \<Longrightarrow> rwRecv s = RDone \<Longrightarrow> stop_side s (s\<lparr>rwStop := ChClosed\<rparr>)"
| wait: "rwStop s = ChClosed \<Longrightarrow> set (rwWorkers s) \<subseteq> {WExit} \<Longrightarrow> stop_side s (s\<lparr>rwStop := Stopped\<rparr>)"

text \<open>The cleaner of the deduplicator, and sessions and the sweeper on the engine.\<close>

inductive others_side :: "'o incoming \<Rightarrow> 'o incoming \<Rightarrow> bool" where
  cleaner: "others_side s (s\<lparr>rwDeduplicator := cleanup_at now i (rwDeduplicator s)\<rparr>)"
| clients: "engine_step (rwEngine s) e \<Longrightarrow> others_side s (s\<lparr>rwEngine := e\<rparr>)"

definition relay_core :: "(string \<Rightarrow> u64 \<Rightarrow> u64 \<Rightarrow> u64) \<Rightarrow> 'o DeliveryFunc \<Rightarrow> 'o incoming \<Rightarrow> 'o incoming \<Rightarrow> bool" where
  "relay_core hash deliver s s' \<longleftrightarrow> receive_side s s' \<or> worker_side hash deliver s s' \<or> stop_side s s'"

definition incoming_step :: "(string \<Rightarrow> u64 \<Rightarrow> u64 \<Rightarrow> u64) \<Rightarrow> 'o DeliveryFunc \<Rightarrow> 'o incoming \<Rightarrow> 'o incoming \<Rightarrow> bool" where
  "incoming_step hash deliver s s' \<longleftrightarrow> relay_core hash deliver s s' \<or> others_side s s'"

definition incoming_start :: "nat \<Rightarrow> nat \<Rightarrow> Deduplicator \<Rightarrow> Engine \<Rightarrow> 'o \<Rightarrow> 'o incoming" where
  "incoming_start cap workers d e out = \<lparr>rwCap = cap, rwIncomingCh = [], rwRecv = RTop, rwWorkers = replicate workers WIdle,
     rwStop = Serving, rwPanicked = False, rwDeduplicator = d, rwEngine = e, rwOut = out, rwReceived = [], rwAccepted = [],
     rwLost = [], rwHandled = []\<rparr>"

section \<open>Nothing is lost\<close>

fun worker_msg :: "fanout_worker \<Rightarrow> Delivery list" where
  "worker_msg (WTook m) = [m]"
| "worker_msg (WMissed m) = [m]"
| "worker_msg (WFresh m) = [m]"
| "worker_msg _ = []"

fun recv_msg :: "recv_pc \<Rightarrow> Delivery list" where
  "recv_msg (RHas m) = [m]"
| "recv_msg _ = []"

definition in_hands :: "fanout_worker list \<Rightarrow> Delivery list" where
  "in_hands ws = concat (map worker_msg ws)"

lemma in_hands_update:
  "i < length ws \<Longrightarrow> mset (in_hands (ws[i := w])) + mset (worker_msg (ws ! i)) = mset (in_hands ws) + mset (worker_msg w)"
  unfolding in_hands_def by (rule mset_concat_update)

lemma in_hands_idle: "set ws \<subseteq> {WExit} \<Longrightarrow> in_hands ws = []"
  by (auto simp: in_hands_def)

definition incoming_ok :: "nat \<Rightarrow> 'o incoming \<Rightarrow> bool" where
  "incoming_ok n s \<longleftrightarrow> \<not> rwPanicked s \<and> length (rwWorkers s) = n
     \<and> mset (rwReceived s) = mset (rwAccepted s) + mset (recv_msg (rwRecv s)) + mset (rwLost s)
     \<and> mset (rwAccepted s) = mset (map fst (rwHandled s)) + mset (in_hands (rwWorkers s)) + mset (rwIncomingCh s)
     \<and> (n = 1 \<longrightarrow> rwAccepted s = map fst (rwHandled s) @ in_hands (rwWorkers s) @ rwIncomingCh s)
     \<and> (\<forall>m. (m, False) \<in> set (rwHandled s) \<longrightarrow> dOffset m \<noteq> 0) \<and> (\<forall>m. WMissed m \<in> set (rwWorkers s) \<longrightarrow> dOffset m \<noteq> 0)
     \<and> (rwLost s \<noteq> [] \<longrightarrow> relay_cancelled s) \<and> (incoming_closed s \<longrightarrow> rwRecv s = RDone)
     \<and> (WExit \<in> set (rwWorkers s) \<longrightarrow> incoming_closed s \<and> rwIncomingCh s = [])
     \<and> (rwStop s = Stopped \<longrightarrow> set (rwWorkers s) \<subseteq> {WExit})"

lemma incoming_ok_start: "incoming_ok n (incoming_start cap n d e out)"
  by (auto simp: incoming_ok_def incoming_start_def in_hands_def incoming_closed_def)

text \<open>A worker's step moves its message on; what else a step does is in the conclusion.\<close>

lemma set_worker_sel [simp]:
  "rwCap (set_worker i w s) = rwCap s" "rwIncomingCh (set_worker i w s) = rwIncomingCh s" "rwRecv (set_worker i w s) = rwRecv s"
  "rwWorkers (set_worker i w s) = (rwWorkers s)[i := w]" "rwStop (set_worker i w s) = rwStop s"
  "rwPanicked (set_worker i w s) = rwPanicked s" "rwReceived (set_worker i w s) = rwReceived s"
  "rwAccepted (set_worker i w s) = rwAccepted s" "rwLost (set_worker i w s) = rwLost s" "rwHandled (set_worker i w s) = rwHandled s"
  "rwDeduplicator (set_worker i w s) = rwDeduplicator s" "rwEngine (set_worker i w s) = rwEngine s" "rwOut (set_worker i w s) = rwOut s"
  by (simp_all add: set_worker_def)

lemmas flag_defs = relay_cancelled_def upstream_cancelled_def incoming_closed_def

lemma in_hands_one: "length ws = 1 \<Longrightarrow> i < length ws \<Longrightarrow> in_hands (ws[i := w]) = worker_msg w \<and> in_hands ws = worker_msg (ws ! i)"
  by (cases ws) (auto simp: in_hands_def)

lemma worker_moves:
  assumes "worker_side hash deliver s t"
  obtains i w w' hs where "i < length (rwWorkers s)" "rwWorkers s ! i = w" "rwWorkers t = (rwWorkers s)[i := w']"
    "rwHandled t = rwHandled s @ hs" "map fst hs @ worker_msg w' @ rwIncomingCh t = worker_msg w @ rwIncomingCh s"
    "\<forall>m. (m, False) \<in> set hs \<or> w' = WMissed m \<longrightarrow> w = WTook m \<and> dOffset m \<noteq> 0 \<or> w = WMissed m"
    "w \<noteq> WExit" "w' = WExit \<longrightarrow> rwIncomingCh s = [] \<and> incoming_closed s" "rwStop t = rwStop s" "rwRecv t = rwRecv s"
    "rwPanicked t = rwPanicked s" "rwReceived t = rwReceived s" "rwAccepted t = rwAccepted s" "rwLost t = rwLost s" "rwCap t = rwCap s"
    "rwIncomingCh s = [] \<longrightarrow> rwIncomingCh t = []"
  using assms by cases (auto simp: worker_at_def)

lemma incoming_ok_worker:
  assumes "worker_side hash deliver s t" "incoming_ok n s"
  shows "incoming_ok n t"
  using assms(1)
proof (rule worker_moves)
  fix i w w' hs
  assume i: "i < length (rwWorkers s)" "rwWorkers s ! i = w" and ws: "rwWorkers t = (rwWorkers s)[i := w']"
    and hs: "rwHandled t = rwHandled s @ hs" and ms: "map fst hs @ worker_msg w' @ rwIncomingCh t = worker_msg w @ rwIncomingCh s"
    and off: "\<forall>m. (m, False) \<in> set hs \<or> w' = WMissed m \<longrightarrow> w = WTook m \<and> dOffset m \<noteq> 0 \<or> w = WMissed m"
    and ex: "w \<noteq> WExit" "w' = WExit \<longrightarrow> rwIncomingCh s = [] \<and> incoming_closed s"
    and same: "rwStop t = rwStop s" "rwRecv t = rwRecv s" "rwPanicked t = rwPanicked s" "rwReceived t = rwReceived s"
      "rwAccepted t = rwAccepted s" "rwLost t = rwLost s" and drained: "rwIncomingCh s = [] \<longrightarrow> rwIncomingCh t = []"
  note ok = assms(2) [unfolded incoming_ok_def]
  have mem: "w \<in> set (rwWorkers s)" using i by auto
  have new: "x \<in> set (rwWorkers t) \<Longrightarrow> x = w' \<or> x \<in> set (rwWorkers s)" for x
    unfolding ws using set_update_subset_insert [of "rwWorkers s" i w'] by auto
  have alive: "rwStop s \<noteq> Stopped" using ok mem ex(1) by auto
  have "mset (worker_msg w) + mset (rwIncomingCh s) = mset (map fst hs) + mset (worker_msg w') + mset (rwIncomingCh t)"
    using arg_cong [OF ms, of mset] by (simp add: ac_simps)
  moreover have "mset (in_hands (rwWorkers t)) + mset (worker_msg w) = mset (in_hands (rwWorkers s)) + mset (worker_msg w')"
    using in_hands_update [OF i(1), of w'] i(2) ws by simp
  ultimately have "mset (in_hands (rwWorkers s)) + mset (rwIncomingCh s) = mset (map fst hs) + mset (in_hands (rwWorkers t)) + mset (rwIncomingCh t)"
    by (smt (verit) add.assoc add.commute add_left_cancel)
  then have bag: "mset (rwAccepted t) = mset (map fst (rwHandled t)) + mset (in_hands (rwWorkers t)) + mset (rwIncomingCh t)"
    using ok by (simp add: hs same add.assoc)
  have fifo: "n = 1 \<longrightarrow> rwAccepted t = map fst (rwHandled t) @ in_hands (rwWorkers t) @ rwIncomingCh t"
    using ok in_hands_one [of "rwWorkers s" i w'] i ws ms by (auto simp: hs same)
  show ?thesis unfolding incoming_ok_def
  proof (intro conjI)
    show "\<forall>m. (m, False) \<in> set (rwHandled t) \<longrightarrow> dOffset m \<noteq> 0" using ok off mem by (auto simp: hs)
    show "\<forall>m. WMissed m \<in> set (rwWorkers t) \<longrightarrow> dOffset m \<noteq> 0" using ok off mem new by blast
    show "WExit \<in> set (rwWorkers t) \<longrightarrow> incoming_closed t \<and> rwIncomingCh t = []"
      using ok new ex(2) drained by (fastforce simp: incoming_closed_def same)
    show "rwStop t = Stopped \<longrightarrow> set (rwWorkers t) \<subseteq> {WExit}" using alive by (simp add: same)
  qed (use ok bag fifo ws in \<open>auto simp: same flag_defs\<close>)
qed

lemma incoming_ok_receive: "receive_side s t \<Longrightarrow> incoming_ok n s \<Longrightarrow> incoming_ok n t"
  by (induction rule: receive_side.induct) (auto simp: incoming_ok_def flag_defs)

lemma incoming_ok_stop: "stop_side s t \<Longrightarrow> incoming_ok n s \<Longrightarrow> incoming_ok n t"
  by (induction rule: stop_side.induct) (auto simp: incoming_ok_def flag_defs)

lemma incoming_ok_others: "others_side s t \<Longrightarrow> incoming_ok n s \<Longrightarrow> incoming_ok n t"
  by (induction rule: others_side.induct) (simp_all add: incoming_ok_def flag_defs)

lemma incoming_ok_step: "incoming_step hash deliver s t \<Longrightarrow> incoming_ok n s \<Longrightarrow> incoming_ok n t"
  unfolding incoming_step_def relay_core_def
  by (elim disjE) (rule incoming_ok_receive incoming_ok_worker incoming_ok_stop incoming_ok_others; assumption)+

lemma incoming_ok_reach: "(incoming_step hash deliver)\<^sup>*\<^sup>* s t \<Longrightarrow> incoming_ok n s \<Longrightarrow> incoming_ok n t"
  by (induction rule: rtranclp_induct) (auto intro: incoming_ok_step)

section \<open>Stopping\<close>

text \<open>A stretch of an execution, with the number of steps in it that are not those of others.\<close>

inductive relay_run :: "(string \<Rightarrow> u64 \<Rightarrow> u64 \<Rightarrow> u64) \<Rightarrow> 'o DeliveryFunc \<Rightarrow> nat \<Rightarrow> 'o incoming \<Rightarrow> 'o incoming \<Rightarrow> bool"
  for hash deliver where
  here: "relay_run hash deliver 0 s s"
| core: "relay_run hash deliver k s t \<Longrightarrow> relay_core hash deliver t u \<Longrightarrow> relay_run hash deliver (Suc k) s u"
| others: "relay_run hash deliver k s t \<Longrightarrow> others_side t u \<Longrightarrow> relay_run hash deliver k s u"

fun recv_work :: "recv_pc \<Rightarrow> nat" where
  "recv_work RDone = 0"
| "recv_work RTop = 1"
| "recv_work (RHas m) = 7"
| "recv_work RRecving = 8"

fun worker_work :: "fanout_worker \<Rightarrow> nat" where
  "worker_work WExit = 0"
| "worker_work WIdle = 1"
| "worker_work (WFresh m) = 2"
| "worker_work (WMissed m) = 3"
| "worker_work (WTook m) = 5"

fun stop_work :: "relay_stop \<Rightarrow> nat" where
  "stop_work Stopped = 0"
| "stop_work ChClosed = 1"
| "stop_work _ = 2"

definition work_left :: "'o incoming \<Rightarrow> nat" where
  "work_left s = recv_work (rwRecv s) + 5 * length (rwIncomingCh s) + sum_list (map worker_work (rwWorkers s)) + stop_work (rwStop s)"

lemma worker_work_update:
  "i < length ws \<Longrightarrow> sum_list (map worker_work (ws[i := w])) + worker_work (ws ! i) = sum_list (map worker_work ws) + worker_work w"
proof (induction ws arbitrary: i)
  case (Cons x xs)
  then show ?case by (cases i) auto
qed simp

lemma worker_less:
  assumes "worker_at i w s" "worker_work w' + 5 * length (rwIncomingCh t) < worker_work w + 5 * length (rwIncomingCh s)"
    and "rwWorkers t = (rwWorkers s)[i := w']" "rwRecv t = rwRecv s" "rwStop t = rwStop s"
  shows "work_left t < work_left s"
  using worker_work_update [of i "rwWorkers s" w'] assms by (simp add: work_left_def worker_at_def)

lemma core_less:
  assumes "relay_core hash deliver s t" "upstream_cancelled s" "\<not> rwPanicked t"
  shows "work_left t < work_left s" "upstream_cancelled t"
proof -
  have "work_left t < work_left s \<and> upstream_cancelled t" if "worker_side hash deliver s t"
    using that assms(2) by cases (auto intro!: worker_less simp: upstream_cancelled_def)
  moreover have "work_left t < work_left s \<and> upstream_cancelled t" if "receive_side s t"
    using that assms(2,3) by cases (auto simp: work_left_def upstream_cancelled_def)
  moreover have "work_left t < work_left s \<and> upstream_cancelled t" if "stop_side s t"
    using that assms(2) by cases (auto simp: work_left_def upstream_cancelled_def)
  ultimately show "work_left t < work_left s" "upstream_cancelled t" using assms(1) by (auto simp: relay_core_def)
qed

lemma others_same: "others_side s t \<Longrightarrow> work_left t = work_left s \<and> upstream_cancelled t = upstream_cancelled s"
  by (induction rule: others_side.induct) (simp_all add: work_left_def upstream_cancelled_def)

lemma relay_run_less:
  assumes "relay_run hash deliver k s t" "upstream_cancelled s" "incoming_ok n s"
  shows "k + work_left t \<le> work_left s \<and> upstream_cancelled t \<and> incoming_ok n t"
  using assms
proof (induction rule: relay_run.induct)
  case (core k s t u)
  then have "incoming_ok n u" using incoming_ok_step unfolding incoming_step_def by blast
  moreover from this have "\<not> rwPanicked u" by (simp add: incoming_ok_def)
  ultimately show ?case using core core_less [OF core.hyps(2)] by fastforce
next
  case (others k s t u)
  then show ?case using others_same [OF others.hyps(2)] incoming_ok_others by fastforce
qed simp

lemma worker_total: "sum_list (map worker_work ws) \<le> 5 * length ws"
proof (induction ws)
  case (Cons w ws)
  then show ?case by (cases w) auto
qed simp

lemma work_left_bound: "work_left s \<le> 5 * (length (rwIncomingCh s) + length (rwWorkers s)) + 10"
proof -
  have "recv_work (rwRecv s) \<le> 8" by (cases "rwRecv s") auto
  moreover have "stop_work (rwStop s) \<le> 2" by (cases "rwStop s") auto
  ultimately show ?thesis using worker_total [of "rwWorkers s"] by (simp add: work_left_def)
qed

text \<open>While the relay stops, somebody can move, unless a worker is inside a publication.\<close>

lemma worker_progress:
  assumes "worker_at i w s" "incoming_closed s" "w \<noteq> WExit"
  shows "(\<exists>t. worker_side hash deliver s t) \<or> (\<exists>m. w = WFresh m)"
proof (cases w)
  case WIdle
  then show ?thesis using assms(1,2) worker_side.take [of i s] worker_side.exit [of i s] by (cases "rwIncomingCh s") blast+
next
  case (WTook m)
  then have at: "worker_at i (WTook m) s" using assms(1) by simp
  show ?thesis
  proof (cases "dOffset m = 0")
    case True
    from worker_side.no_offset [OF at True] show ?thesis by blast
  next
    case False
    obtain b d where "Check_fast (worker_key hash m) 0 (rwDeduplicator s) = (b, d)" by fastforce
    then show ?thesis using worker_side.fast [OF at False] worker_side.fast_dup [OF at False] by (cases b) metis+
  qed
next
  case (WMissed m)
  then have at: "worker_at i (WMissed m) s" using assms(1) by simp
  obtain b d where "Check_slow (worker_key hash m) 0 (rwDeduplicator s) = (b, d)" by fastforce
  then show ?thesis using worker_side.slow [OF at] worker_side.slow_dup [OF at] by (cases b) metis+
qed (use assms(3) in auto)

lemma stop_progress:
  assumes "incoming_ok n s" "upstream_cancelled s" "rwStop s \<noteq> Stopped"
  shows "(\<exists>t. relay_core hash deliver s t) \<or> (\<exists>m. WFresh m \<in> set (rwWorkers s))"
proof (cases "rwStop s = StoppingUpstream")
  case True
  then have c: "relay_cancelled s" by (simp add: relay_cancelled_def)
  show ?thesis
  proof (cases "rwRecv s")
    case RTop
    from receive_side.check [OF this] show ?thesis unfolding relay_core_def by blast
  next
    case RRecving
    from receive_side.nothing [OF this] show ?thesis unfolding relay_core_def by blast
  next
    case (RHas m)
    from receive_side.give_up [OF this c] show ?thesis unfolding relay_core_def by blast
  next
    case RDone
    from stop_side.close [OF True this] show ?thesis unfolding relay_core_def by blast
  qed
next
  case False
  then have closed: "rwStop s = ChClosed" "incoming_closed s" using assms(2,3) by (auto simp: flag_defs)
  show ?thesis
  proof (cases "set (rwWorkers s) \<subseteq> {WExit}")
    case True
    from stop_side.wait [OF closed(1) this] show ?thesis unfolding relay_core_def by blast
  next
    case False
    then obtain w where "w \<in> set (rwWorkers s)" "w \<noteq> WExit" by auto
    then obtain i where "i < length (rwWorkers s)" "rwWorkers s ! i \<noteq> WExit" by (auto simp: in_set_conv_nth)
    then have "worker_at i (rwWorkers s ! i) s" "rwWorkers s ! i \<noteq> WExit" "rwWorkers s ! i \<in> set (rwWorkers s)"
      by (simp_all add: worker_at_def)
    then show ?thesis using worker_progress [of i _ s hash deliver] closed(2) unfolding relay_core_def by metis
  qed
qed

text \<open>
  (C36) Every upstream message is handled exactly once, and a relay always finishes stopping: in every
  interleaving of the receive loop, any number of workers, \<^verbatim>\<open>Stop\<close> and other users of the deduplicator and the
  engine, nothing is ever sent on the closed channel; what the receive loop got is what was handled, is
  in a worker's hands, in the channel or in its own hands, or was given up, which happens only once the
  relay is cancelled; only messages with an offset are dropped as duplicates; a single worker handles
  the messages in their order; when \<^verbatim>\<open>Stop\<close> has returned every accepted message was handled; and from
  the moment the upstream is stopped there are at most 10 more steps and five for each worker and each
  queued message, one of which is possible until \<^verbatim>\<open>Stop\<close> returns unless a worker is inside a publication.
\<close>

theorem relay_workers_exact:
  assumes "(incoming_step hash deliver)\<^sup>*\<^sup>* (incoming_start cap n d e out) s"
  shows "\<not> rwPanicked s
    \<and> mset (rwReceived s) = mset (map fst (rwHandled s)) + mset (in_hands (rwWorkers s)) + mset (rwIncomingCh s)
        + mset (recv_msg (rwRecv s)) + mset (rwLost s)
    \<and> (rwLost s \<noteq> [] \<longrightarrow> relay_cancelled s) \<and> (\<forall>m. (m, False) \<in> set (rwHandled s) \<longrightarrow> dOffset m \<noteq> 0)
    \<and> (n = 1 \<longrightarrow> rwAccepted s = map fst (rwHandled s) @ in_hands (rwWorkers s) @ rwIncomingCh s)
    \<and> (rwStop s = Stopped \<and> 0 < n \<longrightarrow> mset (map fst (rwHandled s)) = mset (rwAccepted s))
    \<and> (upstream_cancelled s \<longrightarrow>
        (\<forall>k t. relay_run hash deliver k s t \<longrightarrow> k \<le> 5 * (length (rwIncomingCh s) + n) + 10)
        \<and> (rwStop s \<noteq> Stopped \<longrightarrow> (\<exists>t. relay_core hash deliver s t) \<or> (\<exists>m. WFresh m \<in> set (rwWorkers s))))"
proof -
  have ok: "incoming_ok n s" by (rule incoming_ok_reach [OF assms incoming_ok_start])
  note facts = ok [unfolded incoming_ok_def]
  have "mset (map fst (rwHandled s)) = mset (rwAccepted s)" if st: "rwStop s = Stopped" "0 < n"
  proof -
    have exits: "set (rwWorkers s) \<subseteq> {WExit}" using facts st(1) by simp
    moreover have "rwWorkers s \<noteq> []" using facts st(2) by auto
    ultimately have "WExit \<in> set (rwWorkers s)" by (cases "rwWorkers s") auto
    then have "rwIncomingCh s = []" using facts by simp
    then show ?thesis using facts in_hands_idle [OF exits] by simp
  qed
  moreover have "k \<le> 5 * (length (rwIncomingCh s) + n) + 10" if "upstream_cancelled s" "relay_run hash deliver k s t" for k t
    using relay_run_less [OF that(2,1) ok] work_left_bound [of s] facts by simp
  moreover have "mset (rwReceived s) = mset (map fst (rwHandled s)) + mset (in_hands (rwWorkers s)) + mset (rwIncomingCh s)
      + mset (recv_msg (rwRecv s)) + mset (rwLost s)" using facts by (simp add: ac_simps)
  ultimately show ?thesis using facts stop_progress [OF ok] by blast
qed

section \<open>The order of messages\<close>

lemma incoming_worker: "worker_side hash deliver s t \<Longrightarrow> incoming_step hash deliver s t"
  by (simp add: incoming_step_def relay_core_def)

lemma incoming_receive: "receive_side s t \<Longrightarrow> incoming_step hash deliver s t"
  by (simp add: incoming_step_def relay_core_def)

text \<open>A fresh message is published; the engine and the output are those of the caller.\<close>

lemma worker_publishes:
  assumes "i < length (rwWorkers s)"
    and "(case Publish now ep order sched (dChannel m) (dData m) 0 deliver (rwEngine s) (rwOut s) of
        Inl p \<Rightarrow> Inl p | Inr (_, e1, out1) \<Rightarrow> Inr (d1, e1, out1)) = Inr (d', e', out')"
  shows "d1 = d'" "incoming_step hash deliver (set_worker i (WFresh m) (s\<lparr>rwDeduplicator := d'\<rparr>))
    (set_worker i WIdle (s\<lparr>rwDeduplicator := d', rwEngine := e', rwOut := out', rwHandled := rwHandled s @ [(m, True)]\<rparr>))"
proof -
  let ?s = "set_worker i (WFresh m) (s\<lparr>rwDeduplicator := d'\<rparr>)"
  obtain r where r: "Publish now ep order sched (dChannel m) (dData m) 0 deliver (rwEngine s) (rwOut s) = Inr (r, e', out')" "d1 = d'"
    using assms(2) by (auto split: sum.splits prod.splits)
  show "d1 = d'" by (rule r(2))
  have "worker_at i (WFresh m) ?s" using assms(1) by (simp add: worker_at_def)
  from worker_side.publish [OF this, of now ep order sched deliver r e' out' hash] r(1)
  have "worker_side hash deliver ?s (set_worker i WIdle (?s\<lparr>rwEngine := e', rwOut := out', rwHandled := rwHandled ?s @ [(m, True)]\<rparr>))" by simp
  from incoming_worker [OF this] show "incoming_step hash deliver ?s (set_worker i WIdle (s\<lparr>rwDeduplicator := d', rwEngine := e',
      rwOut := out', rwHandled := rwHandled s @ [(m, True)]\<rparr>))" by (simp add: set_worker_def)
qed

text \<open>A worker that nobody interrupts does what \<open>onUpstreamMessage\<close> of theory Relay does.\<close>

lemma worker_handles:
  assumes "worker_at i (WTook m) s"
    and "onUpstreamMessage hash now now' ep order sched deliver m (rwDeduplicator s) (rwEngine s) (rwOut s) = Inr (d', e', out')"
  shows "\<exists>b. (incoming_step hash deliver)\<^sup>*\<^sup>* s (set_worker i WIdle (s\<lparr>rwDeduplicator := d', rwEngine := e', rwOut := out',
    rwHandled := rwHandled s @ [(m, b)]\<rparr>))"
proof -
  let ?step = "incoming_step hash deliver"
  have i: "i < length (rwWorkers s)" using assms(1) by (simp add: worker_at_def)
  note publishes = worker_publishes [OF i, where now = now' and ep = ep and order = order and sched = sched and m = m and deliver = deliver]
  show ?thesis
  proof (cases "dOffset m = 0")
    case True
    then have run: "(case Publish now' ep order sched (dChannel m) (dData m) 0 deliver (rwEngine s) (rwOut s) of
        Inl p \<Rightarrow> Inl p | Inr (_, e1, out1) \<Rightarrow> Inr (rwDeduplicator s, e1, out1)) = Inr (d', e', out')"
      using assms(2) by (simp add: onUpstreamMessage_def)
    have "s\<lparr>rwDeduplicator := d'\<rparr> = s" using publishes(1) [OF run] by (cases s) simp
    then have "?step s (set_worker i (WFresh m) (s\<lparr>rwDeduplicator := d'\<rparr>))"
      using incoming_worker [OF worker_side.no_offset [OF assms(1) True]] by simp
    with publishes(2) [OF run] show ?thesis by (meson converse_rtranclp_into_rtranclp rtranclp.rtrancl_refl)
  next
    case False
    obtain dup d1 where fast: "Check_fast (worker_key hash m) now (rwDeduplicator s) = (dup, d1)" by fastforce
    show ?thesis
    proof (cases dup)
      case True
      then have "d' = d1" "e' = rwEngine s" "out' = rwOut s"
        using assms(2) fast False by (simp_all add: onUpstreamMessage_def Check_def worker_key_def Let_def)
      with worker_side.fast_dup [OF assms(1) False, of hash now d1 deliver] fast True show ?thesis
        by (intro exI [of _ False] r_into_rtranclp [of ?step] incoming_worker) (simp add: set_worker_def)
    next
      case miss: False
      let ?s1 = "set_worker i (WMissed m) (s\<lparr>rwDeduplicator := d1\<rparr>)"
      have one: "?step s ?s1" using incoming_worker worker_side.fast [OF assms(1) False, of hash now d1 deliver] fast miss by simp
      have at1: "worker_at i (WMissed m) ?s1" using i by (simp add: worker_at_def)
      obtain fresh d2 where slow: "Check_slow (worker_key hash m) now' d1 = (fresh, d2)" by fastforce
      have check: "Check hash (dChannel m) (dEpoch m) (dOffset m) now now' (rwDeduplicator s) = (fresh, d2)"
        using fast slow miss by (simp add: Check_def worker_key_def Let_def)
      show ?thesis
      proof (cases fresh)
        case True
        then have run: "(case Publish now' ep order sched (dChannel m) (dData m) 0 deliver (rwEngine s) (rwOut s) of
            Inl p \<Rightarrow> Inl p | Inr (_, e1, out1) \<Rightarrow> Inr (d2, e1, out1)) = Inr (d', e', out')"
          using assms(2) check False by (simp add: onUpstreamMessage_def)
        have "?step ?s1 (set_worker i (WFresh m) (s\<lparr>rwDeduplicator := d'\<rparr>))"
          using incoming_worker [OF worker_side.slow [OF at1, of hash now' d2 deliver]] slow True publishes(1) [OF run]
          by (simp add: set_worker_def)
        with publishes(2) [OF run] one show ?thesis by (meson converse_rtranclp_into_rtranclp rtranclp.rtrancl_refl)
      next
        case dup: False
        then have "d' = d2" "e' = rwEngine s" "out' = rwOut s" using assms(2) check False by (simp_all add: onUpstreamMessage_def)
        then have "?step ?s1 (set_worker i WIdle (s\<lparr>rwDeduplicator := d', rwEngine := e', rwOut := out', rwHandled := rwHandled s @ [(m, False)]\<rparr>))"
          using incoming_worker [OF worker_side.slow_dup [OF at1, of hash now' d2 deliver]] slow dup by (simp add: set_worker_def)
        with one show ?thesis by (meson converse_rtranclp_into_rtranclp rtranclp.rtrancl_refl)
      qed
    qed
  qed
qed

text \<open>A message arrives and is taken by an idle worker.\<close>

definition taken :: "nat \<Rightarrow> Delivery \<Rightarrow> 'o incoming \<Rightarrow> 'o incoming" where
  "taken i m s = set_worker i (WTook m) (s\<lparr>rwReceived := rwReceived s @ [m], rwAccepted := rwAccepted s @ [m]\<rparr>)"

lemma message_taken:
  assumes "rwRecv s = RTop" "rwStop s = Serving" "rwIncomingCh s = []" "0 < rwCap s" "worker_at i WIdle s"
  shows "(incoming_step hash deliver)\<^sup>*\<^sup>* s (taken i m s)"
proof -
  let ?step = "incoming_step hash deliver"
  let ?s1 = "s\<lparr>rwRecv := RRecving\<rparr>"
  let ?s2 = "?s1\<lparr>rwRecv := RHas m, rwReceived := rwReceived s @ [m]\<rparr>"
  let ?s3 = "?s2\<lparr>rwRecv := RTop, rwIncomingCh := [m], rwAccepted := rwAccepted s @ [m]\<rparr>"
  have "?step s ?s1" using incoming_receive [OF receive_side.check [OF assms(1)]] assms(2) by (simp add: upstream_cancelled_def)
  moreover have "?step ?s1 ?s2" using incoming_receive [OF receive_side.message [of ?s1 m]] by simp
  moreover have "?step ?s2 ?s3" using incoming_receive [OF receive_side.enqueue [of ?s2 m]] assms(2-4) by (simp add: incoming_closed_def)
  moreover have "?step ?s3 (taken i m s)"
    using incoming_worker [OF worker_side.take [of i ?s3 m "[]"]] assms(1,3,5) by (cases s) (simp add: worker_at_def taken_def set_worker_def)
  ultimately show ?thesis by (meson converse_rtranclp_into_rtranclp rtranclp.rtrancl_refl)
qed

text \<open>
  (C35) With two or more workers, four being the default, a relay does not keep the order of a channel:
  whatever two messages the upstream sends one after the other, if handling the second and then the
  first succeeds, there is an execution that accepts them in their order and handles them in the other,
  and leaves the deduplicator, the engine and the sessions as if the upstream had sent them in the other
  order, so that the offsets its own clients see are swapped too.
\<close>

theorem relay_reorders:
  assumes "2 \<le> n" "0 < cap"
    and "onUpstreamMessage hash now now' ep order sched deliver m2 d e out = Inr (d1, e1, out1)"
    and "onUpstreamMessage hash now'' now3 ep' order' sched' deliver m1 d1 e1 out1 = Inr (d2, e2, out2)"
  shows "\<exists>s. (incoming_step hash deliver)\<^sup>*\<^sup>* (incoming_start cap n d e out) s
    \<and> rwAccepted s = [m1, m2] \<and> map fst (rwHandled s) = [m2, m1]
    \<and> rwDeduplicator s = d2 \<and> rwEngine s = e2 \<and> rwOut s = out2"
proof -
  let ?step = "incoming_step hash deliver"
  let ?s0 = "incoming_start cap n d e out"
  let ?s1 = "taken 0 m1 ?s0" and ?s2 = "taken 1 m2 (taken 0 m1 ?s0)"
  have idle: "worker_at 0 WIdle ?s0" "worker_at 1 WIdle ?s1"
    using assms(1) by (auto simp: worker_at_def incoming_start_def taken_def)
  have "?step\<^sup>*\<^sup>* ?s0 ?s1" by (rule message_taken [OF _ _ _ _ idle(1)]) (simp_all add: incoming_start_def assms(2))
  moreover have "?step\<^sup>*\<^sup>* ?s1 ?s2" by (rule message_taken [OF _ _ _ _ idle(2)]) (simp_all add: incoming_start_def taken_def assms(2))
  ultimately have run: "?step\<^sup>*\<^sup>* ?s0 ?s2" by simp
  have "worker_at 1 (WTook m2) ?s2" using assms(1) by (simp add: worker_at_def taken_def incoming_start_def)
  from worker_handles [OF this, of hash now now' ep order sched deliver d1 e1 out1] assms(3)
  obtain b where two: "?step\<^sup>*\<^sup>* ?s2 (set_worker 1 WIdle (?s2\<lparr>rwDeduplicator := d1, rwEngine := e1, rwOut := out1, rwHandled := [(m2, b)]\<rparr>))"
    by (auto simp: taken_def incoming_start_def)
  let ?s3 = "set_worker 1 WIdle (?s2\<lparr>rwDeduplicator := d1, rwEngine := e1, rwOut := out1, rwHandled := [(m2, b)]\<rparr>)"
  have "worker_at 0 (WTook m1) ?s3" using assms(1) by (simp add: worker_at_def taken_def incoming_start_def)
  from worker_handles [OF this, of hash now'' now3 ep' order' sched' deliver d2 e2 out2] assms(4)
  obtain c where "?step\<^sup>*\<^sup>* ?s3 (set_worker 0 WIdle (?s3\<lparr>rwDeduplicator := d2, rwEngine := e2, rwOut := out2, rwHandled := [(m2, b), (m1, c)]\<rparr>))"
    by auto
  with run two show ?thesis
    by (intro exI [of _ "set_worker 0 WIdle (?s3\<lparr>rwDeduplicator := d2, rwEngine := e2, rwOut := out2, rwHandled := [(m2, b), (m1, c)]\<rparr>)"])
      (auto simp: taken_def incoming_start_def)
qed


text \<open>A wildcard subscriber gets the second message first, under the first offset.\<close>

definition demo_msg :: "bytes \<Rightarrow> u64 \<Rightarrow> Delivery" where
  "demo_msg data offset = \<lparr>dChannel = ''next'', dData = data, dOffset = offset, dEpoch = 5, dFrame = None\<rparr>"

definition demo_handle :: "Delivery \<Rightarrow> Deduplicator \<times> Engine \<times> dlog \<Rightarrow> (Deduplicator \<times> Engine \<times> dlog) result" where
  "demo_handle m = (\<lambda>(d, e, out). onUpstreamMessage (\<lambda>_ _ i. i) 1 1 5 [] [] (recorder (\<lambda>_. True)) m d e out)"

lemma demo_swapped:
  "case demo_handle (demo_msg ''b'' 2) (NewDeduplicator 5, demo_engine, []) of
     Inl _ \<Rightarrow> False
   | Inr x \<Rightarrow> (case demo_handle (demo_msg ''a'' 1) x of
        Inl _ \<Rightarrow> False
      | Inr (_, _, out) \<Rightarrow> map (\<lambda>(i, d). (i, dData d, dOffset d)) out = [(9, ''b'', 1), (9, ''a'', 2)])"
  by code_simp

theorem relay_reorders_witness:
  "\<exists>s. (incoming_step (\<lambda>_ _ i. i) (recorder (\<lambda>_. True)))\<^sup>*\<^sup>* (incoming_start 4096 4 (NewDeduplicator 5) demo_engine []) s
    \<and> rwAccepted s = [demo_msg ''a'' 1, demo_msg ''b'' 2]
    \<and> map (\<lambda>(i, d). (i, dData d, dOffset d)) (rwOut s) = [(9, ''b'', 1), (9, ''a'', 2)]"
proof -
  obtain d1 e1 o1 where one: "demo_handle (demo_msg ''b'' 2) (NewDeduplicator 5, demo_engine, []) = Inr (d1, e1, o1)"
    using demo_swapped by (auto split: sum.splits)
  obtain d2 e2 o2 where two: "demo_handle (demo_msg ''a'' 1) (d1, e1, o1) = Inr (d2, e2, o2)"
    "map (\<lambda>(i, d). (i, dData d, dOffset d)) o2 = [(9, ''b'', 1), (9, ''a'', 2)]"
    using demo_swapped one by (auto split: sum.splits)
  have "2 \<le> (4::nat)" "0 < (4096::nat)" by simp_all
  from relay_reorders [OF this one [unfolded demo_handle_def prod.case] two(1) [unfolded demo_handle_def prod.case]]
  obtain s where "(incoming_step (\<lambda>_ _ i. i) (recorder (\<lambda>_. True)))\<^sup>*\<^sup>* (incoming_start 4096 4 (NewDeduplicator 5) demo_engine []) s"
    "rwAccepted s = [demo_msg ''a'' 1, demo_msg ''b'' 2]" "rwOut s = o2" by (elim exE conjE)
  with two(2) show ?thesis by (intro exI [of _ s] conjI) simp_all
qed

text \<open>A message in the hands of the only worker when the upstream is stopped.\<close>

theorem relay_workers_exact_witness:
  "\<exists>s. (incoming_step (\<lambda>_ _ i. i) (recorder (\<lambda>_. True)))\<^sup>*\<^sup>* (incoming_start 4096 1 (NewDeduplicator 5) demo_engine []) s
    \<and> rwAccepted s = [demo_msg ''a'' 1] \<and> rwAccepted s = map fst (rwHandled s) @ in_hands (rwWorkers s) @ rwIncomingCh s
    \<and> upstream_cancelled s \<and> (\<forall>k t. relay_run (\<lambda>_ _ i. i) (recorder (\<lambda>_. True)) k s t \<longrightarrow> k \<le> 15)"
proof -
  let ?step = "incoming_step (\<lambda>_ _ i. i) (recorder (\<lambda>_. True))"
  let ?s0 = "incoming_start 4096 1 (NewDeduplicator 5) demo_engine ([] :: dlog)"
  let ?s1 = "taken 0 (demo_msg ''a'' 1) ?s0"
  let ?s2 = "?s1\<lparr>rwStop := Cancelled\<rparr>" and ?s3 = "?s1\<lparr>rwStop := StoppingUpstream\<rparr>"
  have stop: "stop_side x y \<Longrightarrow> ?step x y" for x y by (simp add: incoming_step_def relay_core_def)
  have "?step\<^sup>*\<^sup>* ?s0 ?s1" by (rule message_taken) (simp_all add: incoming_start_def worker_at_def)
  moreover have "rwStop ?s1 = Serving" by (simp add: taken_def incoming_start_def)
  then have "?step ?s1 ?s2" by (intro stop stop_side.cancel)
  moreover have "?step ?s2 ?s3" using stop [OF stop_side.upstream [of ?s2]] by simp
  ultimately have run: "?step\<^sup>*\<^sup>* ?s0 ?s3" by (meson rtranclp.rtrancl_into_rtrancl)
  define s where "s = ?s3"
  have st: "upstream_cancelled s" "rwIncomingCh s = []" "rwAccepted s = [demo_msg ''a'' 1]"
    by (simp_all add: s_def upstream_cancelled_def taken_def incoming_start_def)
  note exact = relay_workers_exact [OF run [folded s_def]]
  have "1 = (1::nat)" by simp
  with exact have "rwAccepted s = map fst (rwHandled s) @ in_hands (rwWorkers s) @ rwIncomingCh s" by (elim conjE) (erule mp)
  moreover have "\<forall>k t. relay_run (\<lambda>_ _ i. i) (recorder (\<lambda>_. True)) k s t \<longrightarrow> k \<le> 5 * (length (rwIncomingCh s) + 1) + 10"
    using exact st(1) by blast
  then have "\<forall>k t. relay_run (\<lambda>_ _ i. i) (recorder (\<lambda>_. True)) k s t \<longrightarrow> k \<le> 15" unfolding st(2) by simp
  ultimately show ?thesis using run [folded s_def] st(1,3) by (intro exI [of _ s] conjI)
qed

end
