(* ===== verification/Fanout_Pool.thy ===== *)
theory Fanout_Pool
  imports Fanout
begin

text \<open>
  The worker pool of \<^verbatim>\<open>internal/engine/fanout.go\<close> as goroutines: any number of publications submit their
  chunks to the bounded channel of the pool while its workers run them and the engine may stop it. Theory
  Fanout takes the loops of the jobs of one publication; here are the channel, the lock, the
  \<^verbatim>\<open>WaitGroup\<close> of each publication and the shutdown.

  \<^item> A job is the pair of its publication and the index of its chunk. \<open>pbPending\<close> is the counter of the
    publication's \<^verbatim>\<open>WaitGroup\<close>.
  \<^item> \<open>PSend\<close> is a submitter that holds the read lock and waits for room in the channel, \<open>StopLocking\<close> is
    \<^verbatim>\<open>stop\<close> asking for the write lock, which keeps new readers out.
  \<^item> One call of the transport is a step. \<open>pbSubs\<close> and \<open>pbCalls\<close> record what a publication was for and
    the calls made for it, with their answers.
\<close>

datatype publisher_pc = PSubmit nat | PSend nat | PInline nat | PChunk0 | PWait | PReturned "nat \<times> nat"
datatype pool_worker = PwIdle | PwRunning "nat \<times> nat" | PwExit
datatype pool_stop = PoolUp | StopLocking | StopFlagged | StopClosed | StopReturned

record publisher =
  pbDelivery :: Delivery
  pbExclude :: SubscriberID
  pbJobs :: "fanoutJob list"
  pbPending :: nat
  pbPc :: publisher_pc
  pbSubs :: "SubscriberID list"
  pbCalls :: "(SubscriberID \<times> bool) list"

record 'w fanoutPool =
  fpCap :: nat
  fpJobs :: "(nat \<times> nat) list"
  fpStopped :: bool
  fpStop :: pool_stop
  fpWorkers :: "pool_worker list"
  fpPubs :: "publisher list"
  fpWorld :: 'w
  fpPanicked :: bool

definition newFanoutPool :: "nat \<Rightarrow> 'w \<Rightarrow> 'w fanoutPool" where
  "newFanoutPool workers w = \<lparr>fpCap = workers * 2, fpJobs = [], fpStopped = False, fpStop = PoolUp,
     fpWorkers = replicate workers PwIdle, fpPubs = [], fpWorld = w, fpPanicked = False\<rparr>"

definition pool_closed :: "'w fanoutPool \<Rightarrow> bool" where
  "pool_closed s \<longleftrightarrow> fpStop s \<in> {StopClosed, StopReturned}"

text \<open>A publication arrives: its chunks, and the first to be submitted.\<close>

definition next_pc :: "nat \<Rightarrow> nat \<Rightarrow> publisher_pc" where
  "next_pc n i = (if i < n then PSubmit i else PChunk0)"

definition chunk_jobs :: "nat \<Rightarrow> SubscriberID list \<Rightarrow> fanoutJob list" where
  "chunk_jobs workers subs =
     (let chunkSize = (length subs + workers - 1) div workers; numChunks = (length subs + chunkSize - 1) div chunkSize
      in map (new_job \<circ> chunk_of subs chunkSize) [0..<numChunks])"

definition new_publisher :: "nat \<Rightarrow> SubscriberID list \<Rightarrow> Delivery \<Rightarrow> SubscriberID \<Rightarrow> publisher" where
  "new_publisher workers subs d exclude =
     (let jobs = chunk_jobs workers subs
      in \<lparr>pbDelivery = d, pbExclude = exclude, pbJobs = jobs, pbPending = 0, pbPc = next_pc (length jobs) 1, pbSubs = subs, pbCalls = []\<rparr>)"

definition pub_at :: "nat \<Rightarrow> publisher \<Rightarrow> 'w fanoutPool \<Rightarrow> bool" where
  "pub_at p b s \<longleftrightarrow> p < length (fpPubs s) \<and> fpPubs s ! p = b"

definition set_pub :: "nat \<Rightarrow> publisher \<Rightarrow> 'w fanoutPool \<Rightarrow> 'w fanoutPool" where
  "set_pub p b s = s\<lparr>fpPubs := (fpPubs s)[p := b]\<rparr>"

definition pool_worker_at :: "nat \<Rightarrow> pool_worker \<Rightarrow> 'w fanoutPool \<Rightarrow> bool" where
  "pool_worker_at k x s \<longleftrightarrow> k < length (fpWorkers s) \<and> fpWorkers s ! k = x"

definition set_pool_worker :: "nat \<Rightarrow> pool_worker \<Rightarrow> 'w fanoutPool \<Rightarrow> 'w fanoutPool" where
  "set_pool_worker k x s = s\<lparr>fpWorkers := (fpWorkers s)[k := x]\<rparr>"

text \<open>One turn of the delivery loop of chunk \<open>i\<close>, and the call it makes.\<close>

definition turn_calls :: "'w DeliveryFunc \<Rightarrow> publisher \<Rightarrow> nat \<Rightarrow> 'w \<Rightarrow> (SubscriberID \<times> bool) list" where
  "turn_calls deliver b i w =
     (case fjChunk (pbJobs b ! i) of
        [] \<Rightarrow> []
      | sid # _ \<Rightarrow> if sid = pbExclude b then [] else [(sid, fst (deliver sid (pbDelivery b) w))])"

definition turn :: "'w DeliveryFunc \<Rightarrow> publisher \<Rightarrow> nat \<Rightarrow> 'w \<Rightarrow> publisher \<times> 'w" where
  "turn deliver b i w =
     (case job_step deliver (pbDelivery b) (pbExclude b) (pbJobs b ! i) w of
        (job, w') \<Rightarrow> (b\<lparr>pbJobs := (pbJobs b)[i := job], pbCalls := pbCalls b @ turn_calls deliver b i w\<rparr>, w'))"

definition unfinished :: "publisher \<Rightarrow> nat \<Rightarrow> bool" where
  "unfinished b i \<longleftrightarrow> fjChunk (pbJobs b ! i) \<noteq> []"

inductive publisher_side :: "'w DeliveryFunc \<Rightarrow> 'w fanoutPool \<Rightarrow> 'w fanoutPool \<Rightarrow> bool" for deliver where
  submit: "pub_at p b s \<Longrightarrow> pbPc b = PSubmit i \<Longrightarrow> fpStop s \<noteq> StopLocking \<Longrightarrow>
    publisher_side deliver s (set_pub p (b\<lparr>pbPending := pbPending b + 1, pbPc := (if fpStopped s then PInline i else PSend i)\<rparr>) s)"
| send: "pub_at p b s \<Longrightarrow> pbPc b = PSend i \<Longrightarrow> \<not> pool_closed s \<Longrightarrow> length (fpJobs s) < fpCap s \<Longrightarrow>
    publisher_side deliver s (set_pub p (b\<lparr>pbPc := next_pc (length (pbJobs b)) (i + 1)\<rparr>) (s\<lparr>fpJobs := fpJobs s @ [(p, i)]\<rparr>))"
| closed_send: "pub_at p b s \<Longrightarrow> pbPc b = PSend i \<Longrightarrow> pool_closed s \<Longrightarrow> publisher_side deliver s (s\<lparr>fpPanicked := True\<rparr>)"
| inline: "pub_at p b s \<Longrightarrow> pbPc b = PInline i \<Longrightarrow> unfinished b i \<Longrightarrow> turn deliver b i (fpWorld s) = (b', w) \<Longrightarrow>
    publisher_side deliver s (set_pub p b' (s\<lparr>fpWorld := w\<rparr>))"
| inline_done: "pub_at p b s \<Longrightarrow> pbPc b = PInline i \<Longrightarrow> \<not> unfinished b i \<Longrightarrow>
    publisher_side deliver s (set_pub p (b\<lparr>pbPending := pbPending b - 1, pbPc := next_pc (length (pbJobs b)) (i + 1)\<rparr>) s)"
| chunk0: "pub_at p b s \<Longrightarrow> pbPc b = PChunk0 \<Longrightarrow> unfinished b 0 \<Longrightarrow> turn deliver b 0 (fpWorld s) = (b', w) \<Longrightarrow>
    publisher_side deliver s (set_pub p b' (s\<lparr>fpWorld := w\<rparr>))"
| chunk0_done: "pub_at p b s \<Longrightarrow> pbPc b = PChunk0 \<Longrightarrow> \<not> unfinished b 0 \<Longrightarrow> publisher_side deliver s (set_pub p (b\<lparr>pbPc := PWait\<rparr>) s)"
| waited: "pub_at p b s \<Longrightarrow> pbPc b = PWait \<Longrightarrow> pbPending b = 0 \<Longrightarrow>
    publisher_side deliver s (set_pub p (b\<lparr>pbPc := PReturned (counted (pbJobs b))\<rparr>) s)"

inductive pool_worker_side :: "'w DeliveryFunc \<Rightarrow> 'w fanoutPool \<Rightarrow> 'w fanoutPool \<Rightarrow> bool" for deliver where
  take: "pool_worker_at k PwIdle s \<Longrightarrow> fpJobs s = j # js \<Longrightarrow>
    pool_worker_side deliver s (set_pool_worker k (PwRunning j) (s\<lparr>fpJobs := js\<rparr>))"
| run: "pool_worker_at k (PwRunning (p, i)) s \<Longrightarrow> pub_at p b s \<Longrightarrow> unfinished b i \<Longrightarrow> turn deliver b i (fpWorld s) = (b', w) \<Longrightarrow>
    pool_worker_side deliver s (set_pub p b' (s\<lparr>fpWorld := w\<rparr>))"
| finish: "pool_worker_at k (PwRunning (p, i)) s \<Longrightarrow> pub_at p b s \<Longrightarrow> \<not> unfinished b i \<Longrightarrow>
    pool_worker_side deliver s (set_pool_worker k PwIdle (set_pub p (b\<lparr>pbPending := pbPending b - 1\<rparr>) s))"
| exit: "pool_worker_at k PwIdle s \<Longrightarrow> fpJobs s = [] \<Longrightarrow> pool_closed s \<Longrightarrow> pool_worker_side deliver s (set_pool_worker k PwExit s)"

text \<open>\<^verbatim>\<open>stop\<close>; a second call returns at once. The write lock is granted when no submitter holds a read lock.\<close>

definition no_readers :: "'w fanoutPool \<Rightarrow> bool" where
  "no_readers s \<longleftrightarrow> (\<forall>b \<in> set (fpPubs s). case pbPc b of PSend _ \<Rightarrow> False | _ \<Rightarrow> True)"

inductive pool_stop_side :: "'w fanoutPool \<Rightarrow> 'w fanoutPool \<Rightarrow> bool" where
  lock: "fpStop s = PoolUp \<Longrightarrow> pool_stop_side s (s\<lparr>fpStop := StopLocking\<rparr>)"
| flag: "fpStop s = StopLocking \<Longrightarrow> no_readers s \<Longrightarrow> pool_stop_side s (s\<lparr>fpStopped := True, fpStop := StopFlagged\<rparr>)"
| close: "fpStop s = StopFlagged \<Longrightarrow> pool_stop_side s (s\<lparr>fpStop := StopClosed\<rparr>)"
| wait: "fpStop s = StopClosed \<Longrightarrow> set (fpWorkers s) \<subseteq> {PwExit} \<Longrightarrow> pool_stop_side s (s\<lparr>fpStop := StopReturned\<rparr>)"

inductive arrival :: "'w fanoutPool \<Rightarrow> 'w fanoutPool \<Rightarrow> bool" where
  publish: "subs \<noteq> [] \<Longrightarrow> arrival s (s\<lparr>fpPubs := fpPubs s @ [new_publisher (length (fpWorkers s)) subs d exclude]\<rparr>)"

definition pool_core :: "'w DeliveryFunc \<Rightarrow> 'w fanoutPool \<Rightarrow> 'w fanoutPool \<Rightarrow> bool" where
  "pool_core deliver s s' \<longleftrightarrow> publisher_side deliver s s' \<or> pool_worker_side deliver s s' \<or> pool_stop_side s s'"

definition pool_step :: "'w DeliveryFunc \<Rightarrow> 'w fanoutPool \<Rightarrow> 'w fanoutPool \<Rightarrow> bool" where
  "pool_step deliver s s' \<longleftrightarrow> pool_core deliver s s' \<or> arrival s s'"

section \<open>The account of a publication\<close>

definition pub_account :: "publisher \<Rightarrow> bool" where
  "pub_account b \<longleftrightarrow> mset (map fst (pbCalls b)) + todo (pbExclude b) (pbJobs b) = mset (receivers (pbExclude b) (pbSubs b))
     \<and> counted (pbJobs b) = (length (filter snd (pbCalls b)), length (filter (Not \<circ> snd) (pbCalls b)))"

lemma split_update:
  assumes "k < length jobs"
  shows "todo x (jobs[k := job]) + mset (receivers x (fjChunk (jobs ! k))) = todo x jobs + mset (receivers x (fjChunk job))"
    "fst (counted (jobs[k := job])) + fjDelivered (jobs ! k) = fst (counted jobs) + fjDelivered job"
    "snd (counted (jobs[k := job])) + fjDropped (jobs ! k) = snd (counted jobs) + fjDropped job"
  using assms
proof (induction jobs arbitrary: k)
  case (Cons j jobs)
  { case 1 then show ?case using Cons(1) by (cases k) (auto simp: todo_Cons ac_simps) }
  { case 2 then show ?case using Cons(2) by (cases k) (auto simp: counted_def) }
  { case 3 then show ?case using Cons(3) by (cases k) (auto simp: counted_def) }
qed simp_all

lemma turn_keeps [simp]:
  assumes "turn deliver b i w = (b', w')"
  shows "pbDelivery b' = pbDelivery b" "pbExclude b' = pbExclude b" "pbPending b' = pbPending b" "pbPc b' = pbPc b"
    "pbSubs b' = pbSubs b" "length (pbJobs b') = length (pbJobs b)"
  using assms by (auto simp: turn_def split: prod.splits)

lemma turn_account:
  assumes "turn deliver b i w = (b', w')" "i < length (pbJobs b)" "pub_account b"
  shows "pub_account b'"
proof -
  obtain job w1 where j: "job_step deliver (pbDelivery b) (pbExclude b) (pbJobs b ! i) w = (job, w1)"
    by (cases "job_step deliver (pbDelivery b) (pbExclude b) (pbJobs b ! i) w")
  let ?calls = "turn_calls deliver b i w" and ?old = "pbJobs b ! i"
  have b': "b' = b\<lparr>pbJobs := (pbJobs b)[i := job], pbCalls := pbCalls b @ ?calls\<rparr>" using assms(1) unfolding turn_def j prod.case by (elim Pair_inject) (rule sym)
  have part: "mset (receivers (pbExclude b) (fjChunk ?old)) = mset (map fst ?calls) + mset (receivers (pbExclude b) (fjChunk job))"
    "fjDelivered job = fjDelivered ?old + length (filter snd ?calls)"
    "fjDropped job = fjDropped ?old + length (filter (Not \<circ> snd) ?calls)"
    using j by (auto simp: job_step_def turn_calls_def receivers_def split: list.splits if_splits bool.splits prod.splits)
  note upd = split_update(1) [OF assms(2), of "pbExclude b" job] split_update(2,3) [OF assms(2), of job]
  have "todo (pbExclude b) (pbJobs b) = mset (map fst ?calls) + todo (pbExclude b) ((pbJobs b)[i := job])"
    using upd(1) unfolding part(1) by (simp add: add.assoc [symmetric]) (metis add.commute)
  moreover have "counted ((pbJobs b)[i := job]) = (fst (counted (pbJobs b)) + length (filter snd ?calls),
      snd (counted (pbJobs b)) + length (filter (Not \<circ> snd) ?calls))"
    using upd(2,3) unfolding part(2,3) by (simp add: prod_eq_iff)
  ultimately show ?thesis using assms(3) by (simp add: b' pub_account_def add.assoc)
qed

section \<open>Where the jobs are\<close>

fun held_jobs :: "pool_worker \<Rightarrow> (nat \<times> nat) list" where
  "held_jobs (PwRunning j) = [j]"
| "held_jobs _ = []"

definition outstanding :: "'w fanoutPool \<Rightarrow> (nat \<times> nat) multiset" where
  "outstanding s = mset (fpJobs s) + mset (concat (map held_jobs (fpWorkers s)))"

definition jobs_of :: "nat \<Rightarrow> (nat \<times> nat) multiset \<Rightarrow> nat" where
  "jobs_of p js = size (filter_mset (\<lambda>j. fst j = p) js)"

definition submitted :: "publisher \<Rightarrow> nat" where
  "submitted b = (case pbPc b of PSubmit i \<Rightarrow> i | PSend i \<Rightarrow> i | PInline i \<Rightarrow> i | _ \<Rightarrow> length (pbJobs b))"

definition in_hand :: "publisher \<Rightarrow> nat" where
  "in_hand b = (case pbPc b of PSend _ \<Rightarrow> 1 | PInline _ \<Rightarrow> 1 | _ \<Rightarrow> 0)"

definition pub_ok :: "(nat \<times> nat) multiset \<Rightarrow> nat \<Rightarrow> publisher \<Rightarrow> bool" where
  "pub_ok js p b \<longleftrightarrow> pub_account b \<and> pbJobs b \<noteq> [] \<and> pbPending b = jobs_of p js + in_hand b
     \<and> 1 \<le> submitted b \<and> (submitted b < length (pbJobs b) \<or> submitted b = length (pbJobs b) \<and> in_hand b = 0 \<and> (\<forall>i. pbPc b \<noteq> PSubmit i))
     \<and> (\<forall>i. 1 \<le> i \<and> i < submitted b \<longrightarrow> \<not> unfinished b i \<or> (p, i) \<in># js)
     \<and> (pbPc b = PWait \<longrightarrow> \<not> unfinished b 0)
     \<and> (\<forall>c. pbPc b = PReturned c \<longrightarrow> c = counted (pbJobs b) \<and> pbPending b = 0 \<and> (\<forall>i < length (pbJobs b). \<not> unfinished b i))"

definition pool_ok :: "'w fanoutPool \<Rightarrow> bool" where
  "pool_ok s \<longleftrightarrow> \<not> fpPanicked s \<and> fpWorkers s \<noteq> [] \<and> 0 < fpCap s
     \<and> (fpStopped s \<longleftrightarrow> fpStop s \<notin> {PoolUp, StopLocking}) \<and> (fpStopped s \<longrightarrow> no_readers s)
     \<and> (\<forall>(p, i) \<in># outstanding s. p < length (fpPubs s) \<and> 1 \<le> i \<and> i < length (pbJobs (fpPubs s ! p)))
     \<and> (\<forall>p < length (fpPubs s). pub_ok (outstanding s) p (fpPubs s ! p))
     \<and> (PwExit \<in> set (fpWorkers s) \<longrightarrow> pool_closed s \<and> fpJobs s = [])
     \<and> (fpStop s = StopReturned \<longrightarrow> set (fpWorkers s) \<subseteq> {PwExit})"

lemma jobs_of_simps [simp]:
  "jobs_of p (add_mset j js) = (if fst j = p then 1 else 0) + jobs_of p js" "jobs_of p {#} = 0"
  by (simp_all add: jobs_of_def)

lemma jobs_of_mem: "(p, i) \<in># js \<Longrightarrow> 0 < jobs_of p js"
  by (auto simp: jobs_of_def dest!: multi_member_split)

lemma job_step_chunk: "fjChunk (fst (job_step deliver d exclude job w)) = tl (fjChunk job)"
  by (simp add: job_step_def split: list.splits bool.splits prod.splits)

lemma turn_jobs:
  assumes "turn deliver b i w = (b', w')"
  obtains job where "pbJobs b' = (pbJobs b)[i := job]" "fjChunk job = tl (fjChunk (pbJobs b ! i))"
proof -
  obtain job w1 where j: "job_step deliver (pbDelivery b) (pbExclude b) (pbJobs b ! i) w = (job, w1)"
    by (cases "job_step deliver (pbDelivery b) (pbExclude b) (pbJobs b ! i) w")
  have "b\<lparr>pbJobs := (pbJobs b)[i := job], pbCalls := pbCalls b @ turn_calls deliver b i w\<rparr> = b'"
    using assms unfolding turn_def j prod.case by (rule Pair_inject)
  from arg_cong [OF this, of pbJobs] have "pbJobs b' = (pbJobs b)[i := job]" by simp
  moreover have "fjChunk job = tl (fjChunk (pbJobs b ! i))" using job_step_chunk [of deliver] j by (metis fst_conv)
  ultimately show ?thesis using that by blast
qed

lemma turn_unfinished:
  assumes "turn deliver b i w = (b', w')" "unfinished b' k" "i < length (pbJobs b)"
  shows "unfinished b k"
proof -
  obtain job where "pbJobs b' = (pbJobs b)[i := job]" "fjChunk job = tl (fjChunk (pbJobs b ! i))" by (rule turn_jobs [OF assms(1)])
  then show ?thesis using assms(2,3) by (cases "k = i") (auto simp: unfinished_def)
qed

text \<open>A turn changes nothing that \<open>pub_ok\<close> says about where the jobs are.\<close>

lemma pub_ok_turn:
  assumes "turn deliver b i w = (b', w')" "i < length (pbJobs b)" "unfinished b i" "pub_ok js p b"
  shows "pub_ok js p b'"
proof -
  note same = turn_keeps [OF assms(1)] and mono = turn_unfinished [OF assms(1) _ assms(2)]
  have "\<forall>c. pbPc b \<noteq> PReturned c" using assms(2-4) by (auto simp: pub_ok_def)
  moreover have "pub_account b'" using turn_account [OF assms(1,2)] assms(4) by (simp add: pub_ok_def)
  moreover have "submitted b' = submitted b" "in_hand b' = in_hand b" using same
    by (simp_all add: submitted_def in_hand_def split: publisher_pc.split)
  moreover have "pbJobs b' \<noteq> []" using same(6) assms(2) by (cases "pbJobs b'") auto
  ultimately show ?thesis using assms(4) same mono unfolding pub_ok_def by metis
qed

lemma pub_ok_other:
  "jobs_of p js' = jobs_of p js \<Longrightarrow> (\<forall>i. (p, i) \<in># js \<longrightarrow> (p, i) \<in># js') \<Longrightarrow> pub_ok js p b \<Longrightarrow> pub_ok js' p b"
  unfolding pub_ok_def by auto

lemma set_pub_sel [simp]:
  "fpCap (set_pub p b s) = fpCap s" "fpJobs (set_pub p b s) = fpJobs s" "fpStopped (set_pub p b s) = fpStopped s"
  "fpStop (set_pub p b s) = fpStop s" "fpWorkers (set_pub p b s) = fpWorkers s" "fpPubs (set_pub p b s) = (fpPubs s)[p := b]"
  "fpPanicked (set_pub p b s) = fpPanicked s" "outstanding (set_pub p b s) = outstanding s"
  by (simp_all add: set_pub_def outstanding_def)

lemma set_pool_worker_sel [simp]:
  "fpCap (set_pool_worker k x s) = fpCap s" "fpJobs (set_pool_worker k x s) = fpJobs s"
  "fpStopped (set_pool_worker k x s) = fpStopped s" "fpStop (set_pool_worker k x s) = fpStop s"
  "fpWorkers (set_pool_worker k x s) = (fpWorkers s)[k := x]" "fpPubs (set_pool_worker k x s) = fpPubs s"
  "fpPanicked (set_pool_worker k x s) = fpPanicked s"
  by (simp_all add: set_pool_worker_def)

text \<open>The frame of a step that touches one publication.\<close>

lemma pool_ok_pub:
  assumes "pool_ok s" "pub_at p b s" "pub_ok (outstanding t) p b'"
    and "fpPubs t = (fpPubs s)[p := b']" "length (pbJobs b') = length (pbJobs b)"
    and "fpStop t = fpStop s" "fpStopped t = fpStopped s" "fpCap t = fpCap s" "fpPanicked t = fpPanicked s"
    and "\<forall>x \<in># outstanding t. x \<in># outstanding s \<or> fst x = p \<and> 1 \<le> snd x \<and> snd x < length (pbJobs b)"
    and "\<forall>q. q \<noteq> p \<longrightarrow> jobs_of q (outstanding t) = jobs_of q (outstanding s) \<and> (\<forall>i. (q, i) \<in># outstanding s \<longrightarrow> (q, i) \<in># outstanding t)"
    and "fpStopped s \<longrightarrow> (\<forall>i. pbPc b' \<noteq> PSend i)"
    and "fpWorkers t \<noteq> []" "PwExit \<in> set (fpWorkers t) \<longrightarrow> pool_closed s \<and> fpJobs t = []"
    and "fpStop s = StopReturned \<longrightarrow> set (fpWorkers t) \<subseteq> {PwExit}"
  shows "pool_ok t"
proof -
  note ok = assms(1) [unfolded pool_ok_def]
  have p: "p < length (fpPubs s)" "fpPubs s ! p = b" using assms(2) by (simp_all add: pub_at_def)
  have pubs: "pub_ok (outstanding t) q (fpPubs t ! q)" if "q < length (fpPubs t)" for q
  proof (cases "q = p")
    case True
    then show ?thesis using assms(3,4) p by simp
  next
    case False
    then have "pub_ok (outstanding s) q (fpPubs t ! q)" using ok that assms(4) by simp
    then show ?thesis using assms(11) False pub_ok_other by metis
  qed
  have range: "q < length (fpPubs t) \<and> 1 \<le> i \<and> i < length (pbJobs (fpPubs t ! q))" if "(q, i) \<in># outstanding t" for q i
  proof -
    have "(q, i) \<in># outstanding s \<or> q = p \<and> 1 \<le> i \<and> i < length (pbJobs b)" using assms(10) that by fastforce
    then show ?thesis using ok p assms(4,5) by (cases "q = p") auto
  qed
  have "no_readers t" if "fpStopped s"
  proof -
    have "x = b' \<or> x \<in> set (fpPubs s)" if "x \<in> set (fpPubs t)" for x
      using that assms(4) set_update_subset_insert [of "fpPubs s" p b'] by auto
    then show ?thesis using ok that assms(12) unfolding no_readers_def by (auto split: publisher_pc.splits)
  qed
  then show ?thesis unfolding pool_ok_def using ok assms(6-9,13-15) pubs range by (auto simp: pool_closed_def)
qed

lemma held_update:
  "k < length (fpWorkers s) \<Longrightarrow> outstanding (set_pool_worker k x s) + mset (held_jobs (fpWorkers s ! k)) = outstanding s + mset (held_jobs x)"
  using mset_concat_update [of k "fpWorkers s" held_jobs x] by (simp add: outstanding_def add.assoc)

lemma pub_at_ok:
  assumes "pool_ok s" "pub_at p b s"
  shows "pub_ok (outstanding s) p b" "p < length (fpPubs s)" "b \<in> set (fpPubs s)"
  using assms by (auto simp: pool_ok_def pub_at_def)

lemma send_open:
  assumes "pool_ok s" "pub_at p b s" "pbPc b = PSend i"
  shows "\<not> fpStopped s" "fpStop s \<in> {PoolUp, StopLocking}"
proof -
  show "\<not> fpStopped s" using assms pub_at_ok(3) [OF assms(1,2)] by (auto simp: pool_ok_def no_readers_def)
  then show "fpStop s \<in> {PoolUp, StopLocking}" using assms(1) by (auto simp: pool_ok_def)
qed

text \<open>A step of a publication that leaves the jobs where they are.\<close>

lemma pool_ok_local:
  assumes "pool_ok s" "pub_at p b s" "pub_ok (outstanding s) p b'" "length (pbJobs b') = length (pbJobs b)"
    and "fpStopped s \<longrightarrow> (\<forall>i. pbPc b' \<noteq> PSend i)" "outstanding s' = outstanding s" "fpPubs s' = fpPubs s" "fpWorkers s' = fpWorkers s"
    and "fpJobs s' = fpJobs s" "fpStop s' = fpStop s" "fpStopped s' = fpStopped s" "fpCap s' = fpCap s" "fpPanicked s' = fpPanicked s"
  shows "pool_ok (set_pub p b' s')"
  by (rule pool_ok_pub [OF assms(1,2)]) (use assms in \<open>auto simp: pool_ok_def\<close>)

lemma turn_not_send:
  assumes "pool_ok s" "pub_at p b s" "turn deliver b i w = (b', w')"
  shows "fpStopped s \<longrightarrow> (\<forall>i. pbPc b' \<noteq> PSend i)"
  using send_open(1) [OF assms(1,2)] turn_keeps(4) [OF assms(3)] by auto

lemma pool_ok_turn:
  assumes "pool_ok s" "pub_at p b s" "turn deliver b i (fpWorld s) = (b', w)" "unfinished b i" "i < length (pbJobs b)"
  shows "pool_ok (set_pub p b' (s\<lparr>fpWorld := w\<rparr>))"
  by (rule pool_ok_local [OF assms(1,2) pub_ok_turn [OF assms(3,5,4) pub_at_ok(1) [OF assms(1,2)]]])
    (use turn_keeps(6) [OF assms(3)] turn_not_send [OF assms(1-3)] in \<open>auto simp: outstanding_def\<close>)

lemma pub_ok_next:
  assumes "pub_ok js p b" "pbPc b = PInline i \<or> pbPc b = PSend i" "pbPending b' = jobs_of p js'" "pbPc b' = next_pc (length (pbJobs b)) (i + 1)"
    and "pbJobs b' = pbJobs b" "pub_account b'" "\<forall>k. (p, k) \<in># js \<longrightarrow> (p, k) \<in># js'" "\<not> unfinished b i \<or> (p, i) \<in># js'"
  shows "pub_ok js' p b'"
proof -
  have i: "submitted b = i" "1 \<le> i" "i < length (pbJobs b)" using assms(1,2) by (auto simp: pub_ok_def submitted_def in_hand_def)
  have b': "submitted b' = i + 1" "in_hand b' = 0" using i assms(4,5) by (auto simp: submitted_def in_hand_def next_pc_def)
  have un: "unfinished b' k = unfinished b k" for k using assms(5) by (simp add: unfinished_def)
  have "\<not> unfinished b k \<or> (p, k) \<in># js'" if "1 \<le> k" "k < i + 1" for k
    using that assms(1,7,8) i(1) by (cases "k = i") (auto simp: pub_ok_def)
  then show ?thesis using assms(1,3-6) i b' un by (auto simp: pub_ok_def next_pc_def)
qed

lemma pool_ok_publisher:
  assumes "publisher_side deliver s t" "pool_ok s"
  shows "pool_ok t"
  using assms(1)
proof cases
  case (submit p b i)
  note ok = pub_at_ok [OF assms(2) submit(2)]
  show ?thesis unfolding submit(1)
    by (rule pool_ok_local [OF assms(2) submit(2)])
      (use ok submit in \<open>auto simp: pub_ok_def pub_account_def submitted_def in_hand_def unfinished_def\<close>)
next
  case (send p b i)
  note ok = pub_at_ok [OF assms(2) send(2)]
  let ?b = "b\<lparr>pbPc := next_pc (length (pbJobs b)) (i + 1)\<rparr>"
  have out1: "outstanding (s\<lparr>fpJobs := fpJobs s @ [(p, i)]\<rparr>) = add_mset (p, i) (outstanding s)" by (simp add: outstanding_def)
  then have out: "outstanding t = add_mset (p, i) (outstanding s)" by (simp add: send(1))
  have "pub_ok (outstanding t) p ?b"
    by (rule pub_ok_next [OF ok(1)]) (use ok send(3) in \<open>auto simp: out pub_ok_def pub_account_def in_hand_def\<close>)
  moreover have "1 \<le> i \<and> i < length (pbJobs b)" using ok send(3) by (auto simp: pub_ok_def submitted_def in_hand_def)
  moreover have "\<not> pool_closed s" by (rule send(4))
  ultimately show ?thesis using assms(2)
    by (intro pool_ok_pub [OF assms(2) send(2), of t ?b]) (auto simp: send(1) out1 pool_ok_def pool_closed_def next_pc_def)
next
  case (closed_send p b i)
  then show ?thesis using send_open [OF assms(2) closed_send(2,3)] by (auto simp: pool_closed_def)
next
  case (inline p b i b' w)
  then show ?thesis using pool_ok_turn [OF assms(2) inline(2,5,4)] pub_at_ok(1) [OF assms(2) inline(2)]
    by (auto simp: pub_ok_def submitted_def in_hand_def)
next
  case (inline_done p b i)
  note ok = pub_at_ok [OF assms(2) inline_done(2)]
  have "pub_ok (outstanding s) p (b\<lparr>pbPending := pbPending b - 1, pbPc := next_pc (length (pbJobs b)) (i + 1)\<rparr>)"
    by (rule pub_ok_next [OF ok(1)]) (use ok inline_done in \<open>auto simp: pub_ok_def pub_account_def in_hand_def\<close>)
  then show ?thesis unfolding inline_done(1)
    by (rule pool_ok_local [OF assms(2) inline_done(2)]) (simp_all add: next_pc_def)
next
  case (chunk0 p b b' w)
  then show ?thesis using pool_ok_turn [OF assms(2) chunk0(2,5,4)] pub_at_ok(1) [OF assms(2) chunk0(2)] by (auto simp: pub_ok_def)
next
  case (chunk0_done p b)
  note ok = pub_at_ok [OF assms(2) chunk0_done(2)]
  show ?thesis unfolding chunk0_done(1)
    by (rule pool_ok_local [OF assms(2) chunk0_done(2)])
      (use ok chunk0_done in \<open>auto simp: pub_ok_def pub_account_def submitted_def in_hand_def unfinished_def\<close>)
next
  case (waited p b)
  note ok = pub_at_ok [OF assms(2) waited(2)]
  have none: "(p, i) \<notin># outstanding s" for i using ok(1) waited(4) jobs_of_mem [of p i "outstanding s"] by (auto simp: pub_ok_def)
  have "\<not> unfinished b i" if "i < length (pbJobs b)" for i
    using ok(1) waited(3) none [of i] that by (cases "i = 0") (auto simp: pub_ok_def submitted_def)
  then have "pub_ok (outstanding s) p (b\<lparr>pbPc := PReturned (counted (pbJobs b))\<rparr>)"
    using ok(1) waited(3,4) by (auto simp: pub_ok_def pub_account_def submitted_def in_hand_def unfinished_def)
  then show ?thesis unfolding waited(1) by (rule pool_ok_local [OF assms(2) waited(2)]) simp_all
qed

lemma running_job:
  assumes "pool_ok s" "pool_worker_at k (PwRunning (p, i)) s" "pub_at p b s"
  shows "(p, i) \<in># outstanding s" "1 \<le> i" "i < length (pbJobs b)"
proof -
  have "PwRunning (p, i) \<in> set (fpWorkers s)" using assms(2) by (metis nth_mem pool_worker_at_def)
  then have "(p, i) \<in> set (concat (map held_jobs (fpWorkers s)))" by force
  then show j: "(p, i) \<in># outstanding s" by (simp only: outstanding_def union_iff set_mset_mset) simp
  then show "1 \<le> i" "i < length (pbJobs b)" using assms(1,3) by (auto simp: pool_ok_def pub_at_def)
qed

lemma pool_ok_jobs_same:
  assumes "pool_ok s" "outstanding t = outstanding s" "fpPubs t = fpPubs s" "fpStop t = fpStop s" "fpStopped t = fpStopped s"
    and "fpCap t = fpCap s" "fpPanicked t = fpPanicked s" "fpWorkers t \<noteq> []"
    and "PwExit \<in> set (fpWorkers t) \<longrightarrow> pool_closed s \<and> fpJobs t = []" "fpStop s = StopReturned \<longrightarrow> set (fpWorkers t) \<subseteq> {PwExit}"
  shows "pool_ok t"
  using assms by (auto simp: pool_ok_def no_readers_def pool_closed_def)

lemma idle_exits:
  assumes "pool_ok s" "pool_worker_at k w s" "w \<noteq> PwExit"
  shows "fpStop s \<noteq> StopReturned"
  using assms nth_mem [of k "fpWorkers s"] by (auto simp: pool_ok_def pool_worker_at_def)

lemma pub_ok_finish:
  assumes "pub_ok (add_mset (p, i) js) p b" "\<not> unfinished b i"
  shows "pub_ok js p (b\<lparr>pbPending := pbPending b - 1\<rparr>)"
proof -
  let ?b = "b\<lparr>pbPending := pbPending b - 1\<rparr>"
  have same: "submitted ?b = submitted b" "in_hand ?b = in_hand b" "unfinished ?b = unfinished b" "pub_account ?b = pub_account b"
    by (simp_all add: submitted_def in_hand_def unfinished_def pub_account_def fun_eq_iff split: publisher_pc.split)
  have "pbPending b = Suc (jobs_of p js + in_hand b)" using assms(1) by (simp add: pub_ok_def)
  moreover from this have "pbPc b \<noteq> PReturned c" for c using assms(1) unfolding pub_ok_def by (metis nat.distinct(1))
  moreover have "\<not> unfinished b k \<or> (p, k) \<in># js" if "1 \<le> k" "k < submitted b" for k
    using assms that by (cases "k = i") (auto simp: pub_ok_def)
  ultimately show ?thesis using assms(1) unfolding pub_ok_def same by simp
qed

lemma pool_ok_worker:
  assumes "pool_worker_side deliver s t" "pool_ok s"
  shows "pool_ok t"
  using assms(1)
proof cases
  case (take k j js)
  have k: "k < length (fpWorkers s)" "fpWorkers s ! k = PwIdle" using take(2) by (simp_all add: pool_worker_at_def)
  have "outstanding t = outstanding s"
    using held_update [of k "s\<lparr>fpJobs := js\<rparr>" "PwRunning j"] k by (simp add: take(1,3) outstanding_def)
  moreover have "PwExit \<notin> set (fpWorkers s)" using assms(2) take(3) by (auto simp: pool_ok_def)
  then have "PwExit \<notin> set (fpWorkers t)" using set_update_subset_insert [of "fpWorkers s" k "PwRunning j"] by (auto simp: take(1))
  ultimately show ?thesis using assms(2) idle_exits [OF assms(2) take(2)]
    by (intro pool_ok_jobs_same [OF assms(2)]) (auto simp: take(1) pool_ok_def)
next
  case (run k p i b b' w)
  then show ?thesis using pool_ok_turn [OF assms(2) run(3,5,4)] running_job [OF assms(2) run(2,3)] by simp
next
  case (finish k p i b)
  note ok = pub_at_ok [OF assms(2) finish(3)] and job = running_job [OF assms(2) finish(2,3)]
  have k: "k < length (fpWorkers s)" "fpWorkers s ! k = PwRunning (p, i)" using finish(2) by (simp_all add: pool_worker_at_def)
  let ?b = "b\<lparr>pbPending := pbPending b - 1\<rparr>"
  have out: "outstanding s = add_mset (p, i) (outstanding t)"
    using held_update [of k "set_pub p ?b s" PwIdle] k by (simp add: finish(1))
  have fields: "fpPubs t = (fpPubs s)[p := ?b]" "fpStop t = fpStop s" "fpStopped t = fpStopped s" "fpCap t = fpCap s"
    "fpPanicked t = fpPanicked s" "fpWorkers t = (fpWorkers s)[k := PwIdle]" "fpJobs t = fpJobs s" by (simp_all add: finish(1))
  have "pub_ok (outstanding t) p ?b"
    using pub_ok_finish [OF _ finish(4)] ok(1) by (simp add: out)
  moreover have "PwExit \<in> set (fpWorkers t) \<longrightarrow> PwExit \<in> set (fpWorkers s)"
    using set_update_subset_insert [of "fpWorkers s" k PwIdle] by (auto simp: finish(1))
  moreover have "fpStopped s \<longrightarrow> (\<forall>i. pbPc ?b \<noteq> PSend i)" using send_open(1) [OF assms(2) finish(3)] by auto
  moreover have "fpWorkers s \<noteq> []" "fpStop s \<noteq> StopReturned" using k assms(2) idle_exits [OF assms(2) finish(2)] by auto
  ultimately show ?thesis using assms(2) job(2,3)
    by (intro pool_ok_pub [OF assms(2) finish(3), of t ?b]) (auto simp: fields out pool_ok_def)
next
  case (exit k)
  have k: "k < length (fpWorkers s)" "fpWorkers s ! k = PwIdle" using exit(2) by (simp_all add: pool_worker_at_def)
  have "outstanding t = outstanding s" using held_update [of k s PwExit] k by (simp add: exit(1))
  then show ?thesis using assms(2) exit(3,4) idle_exits [OF assms(2) exit(2)]
    by (intro pool_ok_jobs_same [OF assms(2)]) (auto simp: exit(1) pool_ok_def)
qed

lemma pool_ok_stop: "pool_stop_side s t \<Longrightarrow> pool_ok s \<Longrightarrow> pool_ok t"
  by (induction rule: pool_stop_side.induct) (auto simp: pool_ok_def no_readers_def pool_closed_def outstanding_def)

text \<open>A publication that arrives is well-formed: its chunks partition its subscribers.\<close>

lemma new_publisher_ok:
  assumes "subs \<noteq> []" "0 < workers"
  shows "pub_account (new_publisher workers subs d exclude)" "pbJobs (new_publisher workers subs d exclude) \<noteq> []"
    "pbPending (new_publisher workers subs d exclude) = 0"
    "pbPc (new_publisher workers subs d exclude) = next_pc (length (pbJobs (new_publisher workers subs d exclude))) 1"
proof -
  let ?b = "new_publisher workers subs d exclude"
  have n: "0 < length subs" using assms(1) by simp
  have "concat (map fjChunk (pbJobs ?b)) = subs"
    using concat_chunks [OF n assms(2)] by (simp add: new_publisher_def chunk_jobs_def Let_def new_job_def comp_def)
  moreover have "counted (pbJobs ?b) = (0, 0)"
    by (simp add: counted_def new_publisher_def chunk_jobs_def Let_def new_job_def comp_def)
  ultimately show "pub_account ?b" by (simp add: pub_account_def todo_def new_publisher_def Let_def)
  show "pbJobs ?b \<noteq> []" using \<open>concat (map fjChunk (pbJobs ?b)) = subs\<close> assms(1) by auto
qed (simp_all add: new_publisher_def Let_def)

lemma pool_ok_arrival:
  assumes "arrival s t" "pool_ok s"
  shows "pool_ok t"
  using assms(1)
proof cases
  case (publish subs d exclude)
  let ?b = "new_publisher (length (fpWorkers s)) subs d exclude"
  have "0 < length (fpWorkers s)" using assms(2) by (simp add: pool_ok_def)
  note new = new_publisher_ok [OF publish(2) this, of d exclude]
  have "jobs_of (length (fpPubs s)) (outstanding s) = 0"
    using assms(2) by (auto simp: pool_ok_def jobs_of_def)
  then have "pub_ok (outstanding s) (length (fpPubs s)) ?b"
    using new by (cases "pbJobs ?b") (auto simp: pub_ok_def submitted_def in_hand_def next_pc_def)
  moreover have "outstanding t = outstanding s" by (simp add: publish(1) outstanding_def)
  moreover have "\<forall>i. pbPc ?b \<noteq> PSend i" using new(4) by (simp add: next_pc_def)
  ultimately show ?thesis using assms(2)
    by (auto simp: pool_ok_def publish(1) nth_append no_readers_def pool_closed_def less_Suc_eq split: publisher_pc.split)
qed

lemma pool_ok_step: "pool_step deliver s t \<Longrightarrow> pool_ok s \<Longrightarrow> pool_ok t"
  unfolding pool_step_def pool_core_def
  by (elim disjE) (rule pool_ok_publisher pool_ok_worker pool_ok_stop pool_ok_arrival; assumption)+

lemma pool_ok_new: "0 < workers \<Longrightarrow> pool_ok (newFanoutPool workers w)"
  by (auto simp: pool_ok_def newFanoutPool_def outstanding_def pool_closed_def)

lemma pool_ok_reach: "(pool_step deliver)\<^sup>*\<^sup>* s t \<Longrightarrow> pool_ok s \<Longrightarrow> pool_ok t"
  by (induction rule: rtranclp_induct) (auto intro: pool_ok_step)

section \<open>Somebody can always move\<close>

lemma no_readers_iff: "no_readers s \<longleftrightarrow> (\<forall>b \<in> set (fpPubs s). \<forall>i. pbPc b \<noteq> PSend i)"
proof -
  have "(case pc of PSend _ \<Rightarrow> False | _ \<Rightarrow> True) \<longleftrightarrow> (\<forall>i. pc \<noteq> PSend i)" for pc by (cases pc) auto
  then show ?thesis by (simp add: no_readers_def)
qed

lemma publisher_progress:
  assumes "pool_ok s" "pub_at p b s" "fpJobs s = []" "jobs_of p (outstanding s) = 0" "\<forall>c. pbPc b \<noteq> PReturned c"
    "fpStop s \<noteq> StopLocking \<or> (\<forall>i. pbPc b \<noteq> PSubmit i)"
  shows "\<exists>t. publisher_side deliver s t"
proof (cases "pbPc b")
  case (PSubmit i)
  from publisher_side.submit [OF assms(2) this] assms(6) PSubmit show ?thesis by blast
next
  case (PSend i)
  have "\<not> pool_closed s" using send_open(2) [OF assms(1,2) PSend] by (auto simp: pool_closed_def)
  moreover have "length (fpJobs s) < fpCap s" using assms(1,3) by (simp add: pool_ok_def)
  ultimately show ?thesis using publisher_side.send [OF assms(2) PSend] by blast
next
  case (PInline i)
  obtain b' w where "turn deliver b i (fpWorld s) = (b', w)" by fastforce
  then show ?thesis using publisher_side.inline [OF assms(2) PInline] publisher_side.inline_done [OF assms(2) PInline] by blast
next
  case PChunk0
  obtain b' w where "turn deliver b 0 (fpWorld s) = (b', w)" by fastforce
  then show ?thesis using publisher_side.chunk0 [OF assms(2) PChunk0] publisher_side.chunk0_done [OF assms(2) PChunk0] by blast
next
  case PWait
  have "pbPending b = 0" using pub_at_ok(1) [OF assms(1,2)] assms(4) PWait by (simp add: pub_ok_def in_hand_def)
  from publisher_side.waited [OF assms(2) PWait this] show ?thesis by blast
qed (use assms(5) in blast)

lemma worker_progress_running:
  assumes "pool_ok s" "PwRunning j \<in> set (fpWorkers s)"
  shows "\<exists>t. pool_worker_side deliver s t"
proof -
  obtain p i where j: "j = (p, i)" by (cases j)
  obtain k where k: "pool_worker_at k (PwRunning (p, i)) s" using assms(2) j by (auto simp: in_set_conv_nth pool_worker_at_def)
  have "(p, i) \<in> set (concat (map held_jobs (fpWorkers s)))" using assms(2) j by force
  then have "(p, i) \<in># outstanding s" by (simp only: outstanding_def union_iff set_mset_mset) simp
  then have "pub_at p (fpPubs s ! p) s" using assms(1) by (auto simp: pool_ok_def pub_at_def)
  moreover obtain b' w where "turn deliver (fpPubs s ! p) i (fpWorld s) = (b', w)" by fastforce
  ultimately show ?thesis using pool_worker_side.run [OF k] pool_worker_side.finish [OF k] by blast
qed

lemma worker_idle_or_exit:
  assumes "pool_ok s" "\<not> set (fpWorkers s) \<subseteq> {PwExit}" "\<forall>j. PwRunning j \<notin> set (fpWorkers s)"
  obtains k where "pool_worker_at k PwIdle s"
proof -
  obtain x where x: "x \<in> set (fpWorkers s)" "x \<noteq> PwExit" using assms(2) by auto
  have "x = PwIdle" by (cases x) (use x assms(3) in blast)+
  with x(1) have "PwIdle \<in> set (fpWorkers s)" by simp
  then show ?thesis using that by (auto simp: in_set_conv_nth pool_worker_at_def)
qed

lemma quiet_outstanding:
  assumes "\<forall>j. PwRunning j \<notin> set (fpWorkers s)" "fpJobs s = []"
  shows "outstanding s = {#}"
proof -
  have "held_jobs x = []" if "x \<in> set (fpWorkers s)" for x using assms(1) that by (cases x) auto
  then show ?thesis using assms(2) by (simp add: outstanding_def)
qed

lemma pool_progress:
  assumes "pool_ok s" "(\<exists>b \<in> set (fpPubs s). \<forall>c. pbPc b \<noteq> PReturned c) \<or> fpStop s \<in> {StopLocking, StopFlagged, StopClosed}"
  shows "\<exists>t. pool_core deliver s t"
proof (cases "\<exists>j. PwRunning j \<in> set (fpWorkers s)")
  case True
  then obtain j where "PwRunning j \<in> set (fpWorkers s)" by blast
  from worker_progress_running [OF assms(1) this, of deliver] show ?thesis unfolding pool_core_def by blast
next
  case False
  then have quiet: "\<forall>j. PwRunning j \<notin> set (fpWorkers s)" by blast
  show ?thesis
  proof (cases "fpJobs s")
    case (Cons j js)
    then have "PwExit \<notin> set (fpWorkers s)" "fpWorkers s \<noteq> []" using assms(1) by (auto simp: pool_ok_def)
    then have "\<not> set (fpWorkers s) \<subseteq> {PwExit}" by (cases "fpWorkers s") auto
    from worker_idle_or_exit [OF assms(1) this quiet] obtain k where "pool_worker_at k PwIdle s" .
    from pool_worker_side.take [OF this Cons] show ?thesis by (auto simp: pool_core_def)
  next
    case Nil
    note none = quiet_outstanding [OF quiet Nil]
    have publisher: "\<exists>t. pool_core deliver s t" if "b \<in> set (fpPubs s)" "\<forall>c. pbPc b \<noteq> PReturned c"
      "fpStop s \<noteq> StopLocking \<or> (\<forall>i. pbPc b \<noteq> PSubmit i)" for b
    proof -
      obtain p where "pub_at p b s" using \<open>b \<in> set (fpPubs s)\<close> by (auto simp: in_set_conv_nth pub_at_def)
      from publisher_progress [OF assms(1) this Nil _ that(2,3)] show ?thesis by (auto simp: none pool_core_def)
    qed
    show ?thesis
    proof (cases "fpStop s")
      case StopLocking
      show ?thesis
      proof (cases "no_readers s")
        case True
        from pool_stop_side.flag [OF StopLocking this] show ?thesis by (auto simp: pool_core_def)
      next
        case False
        then obtain b i where "b \<in> set (fpPubs s)" "pbPc b = PSend i" by (auto simp: no_readers_iff)
        then show ?thesis using publisher [of b] by simp
      qed
    next
      case StopFlagged
      from pool_stop_side.close [OF this] show ?thesis by (auto simp: pool_core_def)
    next
      case StopClosed
      then have closed: "pool_closed s" by (simp add: pool_closed_def)
      show ?thesis
      proof (cases "set (fpWorkers s) \<subseteq> {PwExit}")
        case True
        from pool_stop_side.wait [OF StopClosed this] show ?thesis by (auto simp: pool_core_def)
      next
        case False
        from worker_idle_or_exit [OF assms(1) this quiet] obtain k where "pool_worker_at k PwIdle s" .
        from pool_worker_side.exit [OF this Nil closed] show ?thesis by (auto simp: pool_core_def)
      qed
    qed (use assms(2) publisher in auto)
  qed
qed

section \<open>The work left\<close>

fun pc_work :: "nat \<Rightarrow> publisher_pc \<Rightarrow> nat" where
  "pc_work n (PReturned c) = 0"
| "pc_work n PWait = 1"
| "pc_work n PChunk0 = 2"
| "pc_work n (PSubmit i) = 3 + 6 * (n - i)"
| "pc_work n (PSend i) = 2 + 6 * (n - i)"
| "pc_work n (PInline i) = 2 + 6 * (n - i)"

fun slot_work :: "pool_worker \<Rightarrow> nat" where
  "slot_work PwExit = 0"
| "slot_work PwIdle = 1"
| "slot_work (PwRunning j) = 3"

fun shutdown_work :: "pool_stop \<Rightarrow> nat" where
  "shutdown_work PoolUp = 4"
| "shutdown_work StopLocking = 3"
| "shutdown_work StopFlagged = 2"
| "shutdown_work StopClosed = 1"
| "shutdown_work StopReturned = 0"

definition chunk_work :: "publisher \<Rightarrow> nat" where
  "chunk_work b = sum_list (map (\<lambda>job. length (fjChunk job)) (pbJobs b))"

definition pub_work :: "publisher \<Rightarrow> nat" where
  "pub_work b = chunk_work b + pc_work (length (pbJobs b)) (pbPc b)"

definition pool_work :: "'w fanoutPool \<Rightarrow> nat" where
  "pool_work s = sum_list (map pub_work (fpPubs s)) + 3 * length (fpJobs s) + sum_list (map slot_work (fpWorkers s)) + shutdown_work (fpStop s)"

lemma nat_list_update:
  fixes f :: "'a \<Rightarrow> nat"
  shows "i < length xs \<Longrightarrow> sum_list (map f (xs[i := x])) + f (xs ! i) = sum_list (map f xs) + f x"
proof (induction xs arbitrary: i)
  case (Cons y ys)
  then show ?case by (cases i) auto
qed simp

lemma turn_work:
  assumes "turn deliver b i w = (b', w')" "unfinished b i" "i < length (pbJobs b)"
  shows "pub_work b' < pub_work b"
proof -
  obtain job where job: "pbJobs b' = (pbJobs b)[i := job]" "fjChunk job = tl (fjChunk (pbJobs b ! i))" by (rule turn_jobs [OF assms(1)])
  have "length (fjChunk job) < length (fjChunk (pbJobs b ! i))" using assms(2) job(2) by (simp add: unfinished_def)
  then have "chunk_work b' < chunk_work b"
    using nat_list_update [OF assms(3), of "\<lambda>job. length (fjChunk job)" job] by (simp add: chunk_work_def job(1))
  then show ?thesis using turn_keeps(4,6) [OF assms(1)] by (simp add: pub_work_def)
qed

lemma pool_less:
  assumes "p < length (fpPubs s)" "fpPubs t = (fpPubs s)[p := b']" "fpStop t = fpStop s"
    and "pub_work b' + 3 * length (fpJobs t) + sum_list (map slot_work (fpWorkers t))
      < pub_work (fpPubs s ! p) + 3 * length (fpJobs s) + sum_list (map slot_work (fpWorkers s))"
  shows "pool_work t < pool_work s"
  using nat_list_update [OF assms(1), of pub_work b'] assms(2-4) by (simp add: pool_work_def)

lemma publisher_less:
  assumes "publisher_side deliver s t" "pool_ok s" "\<not> fpPanicked t"
  shows "pool_work t < pool_work s"
  using assms(1)
proof cases
  case (submit p b i)
  have "submitted b < length (pbJobs b)" using pub_at_ok(1) [OF assms(2) submit(2)] submit(3) by (auto simp: pub_ok_def)
  then show ?thesis using submit by (intro pool_less [of p]) (auto simp: pub_at_def pub_work_def chunk_work_def)
next
  case (send p b i)
  have "i < length (pbJobs b)" using pub_at_ok(1) [OF assms(2) send(2)] send(3) by (auto simp: pub_ok_def submitted_def in_hand_def)
  then show ?thesis using send by (intro pool_less [of p]) (auto simp: pub_at_def pub_work_def chunk_work_def next_pc_def)
next
  case (inline p b i b' w)
  have "i < length (pbJobs b)" using pub_at_ok(1) [OF assms(2) inline(2)] inline(3) by (auto simp: pub_ok_def submitted_def in_hand_def)
  from turn_work [OF inline(5,4) this] show ?thesis using inline by (intro pool_less [of p]) (auto simp: pub_at_def)
next
  case (inline_done p b i)
  have "i < length (pbJobs b)" using pub_at_ok(1) [OF assms(2) inline_done(2)] inline_done(3) by (auto simp: pub_ok_def submitted_def in_hand_def)
  then show ?thesis using inline_done by (intro pool_less [of p]) (auto simp: pub_at_def pub_work_def chunk_work_def next_pc_def)
next
  case (chunk0 p b b' w)
  have "0 < length (pbJobs b)" using pub_at_ok(1) [OF assms(2) chunk0(2)] by (simp add: pub_ok_def)
  from turn_work [OF chunk0(5,4) this] show ?thesis using chunk0 by (intro pool_less [of p]) (auto simp: pub_at_def)
next
  case (chunk0_done p b)
  then show ?thesis by (intro pool_less [of p]) (auto simp: pub_at_def pub_work_def chunk_work_def)
next
  case (waited p b)
  then show ?thesis by (intro pool_less [of p]) (auto simp: pub_at_def pub_work_def chunk_work_def)
qed (use assms(3) in simp)

lemma pool_worker_less:
  assumes "pool_worker_side deliver s t" "pool_ok s"
  shows "pool_work t < pool_work s"
  using assms(1)
proof cases
  case (take k j js)
  then show ?thesis using nat_list_update [of k "fpWorkers s" slot_work "PwRunning j"] by (simp add: pool_work_def pool_worker_at_def)
next
  case (run k p i b b' w)
  from turn_work [OF run(5,4)] running_job(3) [OF assms(2) run(2,3)] show ?thesis
    using run by (intro pool_less [of p]) (auto simp: pub_at_def)
next
  case (finish k p i b)
  then show ?thesis using nat_list_update [of k "fpWorkers s" slot_work PwIdle]
    by (intro pool_less [of p]) (auto simp: pub_at_def pool_worker_at_def pub_work_def chunk_work_def)
next
  case (exit k)
  then show ?thesis using nat_list_update [of k "fpWorkers s" slot_work PwExit] by (simp add: pool_work_def pool_worker_at_def)
qed

lemma pool_core_less: "pool_core deliver s t \<Longrightarrow> pool_ok s \<Longrightarrow> pool_work t < pool_work s"
proof -
  assume step: "pool_core deliver s t" and ok: "pool_ok s"
  then have "pool_ok t" using pool_ok_step by (auto simp: pool_step_def)
  moreover have "pool_stop_side s t \<Longrightarrow> pool_work t < pool_work s"
    by (induction rule: pool_stop_side.induct) (simp_all add: pool_work_def)
  ultimately show ?thesis using step publisher_less [OF _ ok] pool_worker_less [OF _ ok] by (auto simp: pool_core_def pool_ok_def)
qed

lemma pool_core_bound: "(pool_core deliver ^^ k) s t \<Longrightarrow> pool_ok s \<Longrightarrow> k + pool_work t \<le> pool_work s \<and> pool_ok t"
proof (induction k arbitrary: t)
  case (Suc k)
  then obtain u where u: "(pool_core deliver ^^ k) s u" "pool_core deliver u t" by auto
  from Suc.IH [OF u(1) Suc.prems(2)] have "k + pool_work u \<le> pool_work s" "pool_ok u" by simp_all
  then show ?case using pool_core_less [OF u(2)] pool_ok_step [of deliver u t] u(2) by (fastforce simp: pool_step_def)
qed simp

lemma returned_exact:
  assumes "pub_ok js p b" "pbPc b = PReturned (x, y)"
  shows "mset (map fst (pbCalls b)) = mset (receivers (pbExclude b) (pbSubs b))
    \<and> x = length (filter snd (pbCalls b)) \<and> y = length (filter (Not \<circ> snd) (pbCalls b))"
proof -
  have "\<forall>i < length (pbJobs b). fjChunk (pbJobs b ! i) = []" and c: "(x, y) = counted (pbJobs b)" and acc: "pub_account b"
    using assms by (auto simp: pub_ok_def unfinished_def)
  then have "\<forall>job \<in> set (pbJobs b). fjChunk job = []" by (auto simp: in_set_conv_nth)
  from todo_done [OF this, of "pbExclude b"] acc c show ?thesis by (simp add: pub_account_def)
qed

text \<open>
  (C3) The worker pool loses no job, also when the engine stops under a publication: in every interleaving
  of any number of publications with the workers of the pool and with \<^verbatim>\<open>stop\<close>, nothing is ever sent on the
  closed channel; a publication that has returned has called the transport exactly once for each of its
  subscribers but the excluded one, and its two results are the accepted and the refused calls;
  as long as a publication has not returned, or \<^verbatim>\<open>stop\<close> has been called and has not returned, somebody
  can move; and without new publications there are at most \<open>pool_work\<close> more steps, so that all return.
\<close>

theorem fanout_pool_exact:
  assumes "(pool_step deliver)\<^sup>*\<^sup>* (newFanoutPool workers w) s" "0 < workers"
  shows "\<not> fpPanicked s
    \<and> (\<forall>b \<in> set (fpPubs s). \<forall>x y. pbPc b = PReturned (x, y) \<longrightarrow>
        mset (map fst (pbCalls b)) = mset (receivers (pbExclude b) (pbSubs b))
        \<and> x = length (filter snd (pbCalls b)) \<and> y = length (filter (Not \<circ> snd) (pbCalls b)))
    \<and> ((\<exists>b \<in> set (fpPubs s). \<forall>c. pbPc b \<noteq> PReturned c) \<or> fpStop s \<in> {StopLocking, StopFlagged, StopClosed}
        \<longrightarrow> (\<exists>t. pool_core deliver s t))
    \<and> (\<forall>k t. (pool_core deliver ^^ k) s t \<longrightarrow> k \<le> pool_work s)"
proof -
  have ok: "pool_ok s" by (rule pool_ok_reach [OF assms(1) pool_ok_new [OF assms(2)]])
  have "mset (map fst (pbCalls b)) = mset (receivers (pbExclude b) (pbSubs b))
      \<and> x = length (filter snd (pbCalls b)) \<and> y = length (filter (Not \<circ> snd) (pbCalls b))"
    if b: "b \<in> set (fpPubs s)" "pbPc b = PReturned (x, y)" for b x y
  proof -
    obtain p where "p < length (fpPubs s)" "fpPubs s ! p = b" using b(1) by (auto simp: in_set_conv_nth)
    then have "pub_ok (outstanding s) p b" using ok by (auto simp: pool_ok_def)
    from returned_exact [OF this b(2)] show ?thesis .
  qed
  moreover have "k \<le> pool_work s" if "(pool_core deliver ^^ k) s t" for k t using pool_core_bound [OF that ok] by simp
  moreover have "\<not> fpPanicked s" using ok by (simp add: pool_ok_def)
  ultimately show ?thesis using pool_progress [OF ok, of deliver] by (intro conjI ballI allI impI) blast+
qed

text \<open>Two workers, and a publication to three subscribers while the engine stops.\<close>

theorem fanout_pool_exact_witness:
  "\<exists>s. (pool_step (recorder (\<lambda>i. i = 10)))\<^sup>*\<^sup>* (newFanoutPool 2 []) s
    \<and> fpStop s = StopLocking \<and> map pbPc (fpPubs s) = [PSubmit 1] \<and> (\<exists>t. pool_core (recorder (\<lambda>i. i = 10)) s t)
    \<and> (\<forall>k t. (pool_core (recorder (\<lambda>i. i = 10)) ^^ k) s t \<longrightarrow> k \<le> 17)"
proof -
  let ?step = "pool_step (recorder (\<lambda>i. i = 10))"
  let ?d = "\<lparr>dChannel = ''c'', dData = [], dOffset = 1, dEpoch = 1, dFrame = None\<rparr>"
  let ?s0 = "newFanoutPool 2 [] :: dlog fanoutPool"
  define s1 where "s1 = ?s0\<lparr>fpPubs := fpPubs ?s0 @ [new_publisher (length (fpWorkers ?s0)) [10, 11, 12] ?d 11]\<rparr>"
  have "arrival ?s0 s1" unfolding s1_def by (rule arrival.publish) simp
  then have "?step ?s0 s1" by (simp add: pool_step_def)
  moreover have "fpStop s1 = PoolUp" by (simp add: s1_def newFanoutPool_def)
  from pool_stop_side.lock [OF this] have "?step s1 (s1\<lparr>fpStop := StopLocking\<rparr>)" by (simp add: pool_step_def pool_core_def)
  ultimately have run: "?step\<^sup>*\<^sup>* ?s0 (s1\<lparr>fpStop := StopLocking\<rparr>)" by simp
  define s where "s = s1\<lparr>fpStop := StopLocking\<rparr>"
  have s: "fpStop s = StopLocking" "map pbPc (fpPubs s) = [PSubmit 1]" "pool_work s = 17" unfolding s_def s1_def by code_simp+
  have "0 < (2::nat)" by simp
  note exact = fanout_pool_exact [OF run [folded s_def] this]
  have "\<exists>t. pool_core (recorder (\<lambda>i. i = 10)) s t" using exact s(1) by blast
  moreover have "\<forall>k t. (pool_core (recorder (\<lambda>i. i = 10)) ^^ k) s t \<longrightarrow> k \<le> 17" using exact unfolding s(3) by blast
  ultimately have "?step\<^sup>*\<^sup>* ?s0 s \<and> fpStop s = StopLocking \<and> map pbPc (fpPubs s) = [PSubmit 1]
      \<and> (\<exists>t. pool_core (recorder (\<lambda>i. i = 10)) s t) \<and> (\<forall>k t. (pool_core (recorder (\<lambda>i. i = 10)) ^^ k) s t \<longrightarrow> k \<le> 17)"
    using run [folded s_def] s(1,2) by (intro conjI)
  then show ?thesis by (rule exI [of _ s])
qed

end
