(* ===== verification/Metrics.thy ===== *)
theory Metrics
  imports Relay Sessions
begin

text \<open>
  Model of \<^verbatim>\<open>internal/metrics/metrics.go\<close>, with the connection counters of \<^verbatim>\<open>internal/grpc/server.go\<close>.

  \<^item> The Prometheus library is outside: \<open>fq\<close> is \<^verbatim>\<open>BuildFQName\<close> on the names of this program, \<open>float64\<close> the
    conversion of a counter; a histogram keeps the observations passed to it. What the library asks for
    is that the descriptors of a collector differ, that a scrape yields only metrics that were described,
    and that the buckets of a histogram increase.
  \<^item> The collector holds interfaces to running components. An interface is the function that reads the
    state \<open>'s\<close> of the process, a nil interface is \<open>None\<close>.
\<close>

type_synonym fqname = "string \<Rightarrow> string"

record metric_desc =
  mdName :: string
  mdHelp :: string
  mdMode :: string

record histogram =
  hiDesc :: metric_desc
  hiBuckets :: "rat list"
  hiObserved :: "rat list"

record Observer =
  obPublishDuration :: histogram
  obPublishFanout :: histogram
  obDeliveryLatency :: histogram

definition new_desc :: "fqname \<Rightarrow> string \<Rightarrow> string \<Rightarrow> string \<Rightarrow> metric_desc" where
  "new_desc fq mode name help = \<lparr>mdName = fq name, mdHelp = help, mdMode = mode\<rparr>"

definition NewObserver :: "fqname \<Rightarrow> string \<Rightarrow> Observer" where
  "NewObserver fq mode =
     \<lparr>obPublishDuration =
        \<lparr>hiDesc = new_desc fq mode ''publish_duration_seconds'' ''Time spent in the publish fan-out loop'',
         hiBuckets = [1 / 100000, 5 / 100000, 1 / 10000, 5 / 10000, 1 / 1000, 5 / 1000, 1 / 100, 5 / 100, 1 / 10], hiObserved = []\<rparr>,
      obPublishFanout =
        \<lparr>hiDesc = new_desc fq mode ''publish_fanout'' ''Number of subscribers reached per publish operation'',
         hiBuckets = [0, 1, 5, 10, 25, 50, 100, 250, 500, 1000], hiObserved = []\<rparr>,
      obDeliveryLatency =
        \<lparr>hiDesc = new_desc fq mode ''delivery_latency_seconds''
           ''Server-side latency from message enqueue to socket write (within-engine diagnostic)'',
         hiBuckets = [5 / 100000, 1 / 10000, 5 / 10000, 1 / 1000, 5 / 1000, 1 / 100, 5 / 100, 1 / 10, 25 / 100, 5 / 10, 1, 25 / 10],
         hiObserved = []\<rparr>\<rparr>"

definition observe :: "rat \<Rightarrow> histogram \<Rightarrow> histogram" where
  "observe x h = h\<lparr>hiObserved := hiObserved h @ [x]\<rparr>"

definition ObservePublishDuration :: "rat \<Rightarrow> Observer \<Rightarrow> Observer" where
  "ObservePublishDuration seconds o1 = o1\<lparr>obPublishDuration := observe seconds (obPublishDuration o1)\<rparr>"

definition ObservePublishFanout :: "rat \<Rightarrow> Observer \<Rightarrow> Observer" where
  "ObservePublishFanout reached o1 = o1\<lparr>obPublishFanout := observe reached (obPublishFanout o1)\<rparr>"

definition ObserveDeliveryLatency :: "rat \<Rightarrow> Observer \<Rightarrow> Observer" where
  "ObserveDeliveryLatency seconds o1 = o1\<lparr>obDeliveryLatency := observe seconds (obDeliveryLatency o1)\<rparr>"

section \<open>The collector\<close>

record 's ConnectionCounter =
  ccCount :: "'s \<Rightarrow> int"
  ccTotal :: "'s \<Rightarrow> int"
  ccDisconnections :: "'s \<Rightarrow> int"

record 's Collector =
  coStats :: "'s \<Rightarrow> EngineStats"
  coConn :: "'s ConnectionCounter option"
  coDedup :: "('s \<Rightarrow> int \<times> int) option"
  coUpstream :: "('s \<Rightarrow> bool) option"
  coObserver :: "('s \<Rightarrow> Observer) option"
  coMode :: string
  coChannels :: metric_desc
  coSubscribers :: metric_desc
  coPublished :: metric_desc
  coDelivered :: metric_desc
  coDropped :: metric_desc
  coConnections :: metric_desc
  coSubscribeOps :: metric_desc
  coUnsubscribeOps :: metric_desc
  coMessageBytes :: metric_desc
  coConnectionsTotal :: metric_desc
  coDisconnectionsTotal :: metric_desc
  coDedupHits :: metric_desc
  coDedupMisses :: metric_desc
  coUpstreamConnected :: metric_desc

definition NewCollector :: "fqname \<Rightarrow> ('s \<Rightarrow> EngineStats) \<Rightarrow> 's ConnectionCounter option \<Rightarrow> string \<Rightarrow> 's Collector" where
  "NewCollector fq provider connCounter mode =
     \<lparr>coStats = provider, coConn = connCounter, coDedup = None, coUpstream = None, coObserver = None, coMode = mode,
      coChannels = new_desc fq mode ''channels_active'' ''Number of active channels'',
      coSubscribers = new_desc fq mode ''subscriptions_total'' ''Total number of active subscriptions'',
      coPublished = new_desc fq mode ''messages_published_total'' ''Total number of messages published'',
      coDelivered = new_desc fq mode ''messages_delivered_total'' ''Total number of messages successfully delivered'',
      coDropped = new_desc fq mode ''messages_dropped_total'' ''Total number of messages dropped due to buffer overflow'',
      coConnections = new_desc fq mode ''connections_active'' ''Number of active client connections'',
      coSubscribeOps = new_desc fq mode ''subscribe_ops_total'' ''Total number of subscribe operations'',
      coUnsubscribeOps = new_desc fq mode ''unsubscribe_ops_total'' ''Total number of unsubscribe operations'',
      coMessageBytes = new_desc fq mode ''message_bytes_total'' ''Total bytes of published message payloads'',
      coConnectionsTotal = new_desc fq mode ''connections_total'' ''Total number of connections established'',
      coDisconnectionsTotal = new_desc fq mode ''disconnections_total'' ''Total number of disconnections'',
      coDedupHits = new_desc fq mode ''relay_dedup_hits_total'' ''Total deduplicated (dropped) messages in relay'',
      coDedupMisses = new_desc fq mode ''relay_dedup_passes_total'' ''Total messages that passed deduplication in relay'',
      coUpstreamConnected = new_desc fq mode ''relay_upstream_connected'' ''Whether the relay is connected to upstream (1=yes, 0=no)''\<rparr>"

definition SetObserver :: "('s \<Rightarrow> Observer) \<Rightarrow> 's Collector \<Rightarrow> 's Collector" where
  "SetObserver obs c = c\<lparr>coObserver := Some obs\<rparr>"

definition SetDedupStats :: "('s \<Rightarrow> int \<times> int) \<Rightarrow> 's Collector \<Rightarrow> 's Collector" where
  "SetDedupStats d c = c\<lparr>coDedup := Some d\<rparr>"

definition SetUpstreamStatus :: "('s \<Rightarrow> bool) \<Rightarrow> 's Collector \<Rightarrow> 's Collector" where
  "SetUpstreamStatus u c = c\<lparr>coUpstream := Some u\<rparr>"

definition Describe :: "'s Collector \<Rightarrow> 's \<Rightarrow> metric_desc list" where
  "Describe c s =
     [coChannels c, coSubscribers c, coPublished c, coDelivered c, coDropped c, coConnections c,
      coSubscribeOps c, coUnsubscribeOps c, coMessageBytes c, coConnectionsTotal c, coDisconnectionsTotal c]
     @ (case coDedup c of None \<Rightarrow> [] | Some _ \<Rightarrow> [coDedupHits c, coDedupMisses c])
     @ (case coUpstream c of None \<Rightarrow> [] | Some _ \<Rightarrow> [coUpstreamConnected c])
     @ (case coObserver c of
          None \<Rightarrow> []
        | Some obs \<Rightarrow> [hiDesc (obPublishDuration (obs s)), hiDesc (obPublishFanout (obs s)), hiDesc (obDeliveryLatency (obs s))])"

datatype metric = GaugeValue metric_desc rat | CounterValue metric_desc rat | HistogramValue histogram

fun metric_of :: "metric \<Rightarrow> metric_desc" where
  "metric_of (GaugeValue d x) = d"
| "metric_of (CounterValue d x) = d"
| "metric_of (HistogramValue h) = hiDesc h"

definition Collect :: "(int \<Rightarrow> rat) \<Rightarrow> 's Collector \<Rightarrow> 's \<Rightarrow> metric list" where
  "Collect float64 c s =
     (let stats = coStats c s
      in [GaugeValue (coChannels c) (float64 (stChannels stats)),
          GaugeValue (coSubscribers c) (float64 (stTotalSubscribers stats)),
          CounterValue (coPublished c) (float64 (stPublished stats)),
          CounterValue (coDelivered c) (float64 (stDelivered stats)),
          CounterValue (coDropped c) (float64 (stDropped stats)),
          CounterValue (coSubscribeOps c) (float64 (stSubscribeOps stats)),
          CounterValue (coUnsubscribeOps c) (float64 (stUnsubscribeOps stats)),
          CounterValue (coMessageBytes c) (float64 (stMessageBytes stats))]
         @ (case coConn c of
              None \<Rightarrow> []
            | Some cc \<Rightarrow>
                [GaugeValue (coConnections c) (float64 (ccCount cc s)),
                 CounterValue (coConnectionsTotal c) (float64 (ccTotal cc s)),
                 CounterValue (coDisconnectionsTotal c) (float64 (ccDisconnections cc s))])
         @ (case coDedup c of
              None \<Rightarrow> []
            | Some d \<Rightarrow> [CounterValue (coDedupHits c) (float64 (fst (d s))), CounterValue (coDedupMisses c) (float64 (snd (d s)))])
         @ (case coUpstream c of
              None \<Rightarrow> []
            | Some u \<Rightarrow> [GaugeValue (coUpstreamConnected c) (if u s then float64 1 else float64 0)])
         @ (case coObserver c of
              None \<Rightarrow> []
            | Some obs \<Rightarrow>
                [HistogramValue (obPublishDuration (obs s)), HistogramValue (obPublishFanout (obs s)),
                 HistogramValue (obDeliveryLatency (obs s))]))"

section \<open>The HTTP server\<close>

record MetricsServer =
  msAddr :: string
  msRunning :: bool

definition metrics_NewServer :: "string \<Rightarrow> MetricsServer" where
  "metrics_NewServer addr = \<lparr>msAddr = addr, msRunning = False\<rparr>"

text \<open>\<open>listens\<close> says whether the address can be bound; \<open>finished\<close> whether the shutdown ends in its five seconds.\<close>

definition metrics_Start :: "bool \<Rightarrow> MetricsServer \<Rightarrow> bool \<times> MetricsServer" where
  "metrics_Start listens m = (if listens then (True, m\<lparr>msRunning := True\<rparr>) else (False, m))"

definition metrics_Stop :: "bool \<Rightarrow> MetricsServer \<Rightarrow> bool \<times> MetricsServer" where
  "metrics_Stop finished m = (if msRunning m then (finished, m\<lparr>msRunning := False\<rparr>) else (True, m))"

section \<open>The counters of the transports\<close>

definition sumConnCounter :: "'s ConnectionCounter \<Rightarrow> ('s \<Rightarrow> int) option list \<Rightarrow> 's ConnectionCounter" where
  "sumConnCounter primary extras =
     primary\<lparr>ccCount := (\<lambda>s. fold (\<lambda>e n. case e of None \<Rightarrow> n | Some f \<Rightarrow> n + f s) extras (ccCount primary s))\<rparr>"

definition grpc_counter :: "('s \<Rightarrow> GrpcServer) \<Rightarrow> 's ConnectionCounter" where
  "grpc_counter srv = \<lparr>ccCount = srvConnectionCount \<circ> srv, ccTotal = srvConnectionsTotal \<circ> srv, ccDisconnections = srvDisconnectionsTotal \<circ> srv\<rparr>"

text \<open>The collector that \<^verbatim>\<open>grpc.Server.Start\<close> makes, and the one of \<^verbatim>\<open>relay.Server.Start\<close>.\<close>

definition grpc_collector :: "fqname \<Rightarrow> ('s \<Rightarrow> EngineStats) \<Rightarrow> ('s \<Rightarrow> GrpcServer) \<Rightarrow> ('s \<Rightarrow> int) option list \<Rightarrow> ('s \<Rightarrow> Observer) option
    \<Rightarrow> 's Collector" where
  "grpc_collector fq stats srv extras obs =
     (let conn = (if extras \<noteq> [] then sumConnCounter (grpc_counter srv) extras else grpc_counter srv);
          c = NewCollector fq stats (Some conn) ''server''
      in case obs of None \<Rightarrow> c | Some f \<Rightarrow> SetObserver f c)"

definition relay_collector :: "fqname \<Rightarrow> ('s \<Rightarrow> EngineStats) \<Rightarrow> ('s \<Rightarrow> GrpcServer) \<Rightarrow> ('s \<Rightarrow> RelayWorld) \<Rightarrow> ('s \<Rightarrow> Observer) option
    \<Rightarrow> 's Collector" where
  "relay_collector fq stats srv relay obs =
     (let c = SetUpstreamStatus (\<lambda>s. upConnected (rwUpstream (relay s)))
                (SetDedupStats (\<lambda>s. (ddHits (rwDedup (relay s)), ddMisses (rwDedup (relay s))))
                  (NewCollector fq stats (Some (grpc_counter srv)) ''relay''))
      in case obs of None \<Rightarrow> c | Some f \<Rightarrow> SetObserver f c)"

section \<open>A scrape\<close>

text \<open>What a collector promises the library, and the metrics that a scrape shows under a name.\<close>

definition well_described :: "'s Collector \<Rightarrow> 's \<Rightarrow> (int \<Rightarrow> rat) \<Rightarrow> bool" where
  "well_described c s float64 \<longleftrightarrow> distinct (map mdName (Describe c s))
     \<and> distinct (map metric_of (Collect float64 c s)) \<and> set (map metric_of (Collect float64 c s)) \<subseteq> set (Describe c s)"

definition observer_fits :: "fqname \<Rightarrow> string \<Rightarrow> Observer \<Rightarrow> bool" where
  "observer_fits fq mode obs \<longleftrightarrow> hiDesc (obPublishDuration obs) = hiDesc (obPublishDuration (NewObserver fq mode))
     \<and> hiDesc (obPublishFanout obs) = hiDesc (obPublishFanout (NewObserver fq mode))
     \<and> hiDesc (obDeliveryLatency obs) = hiDesc (obDeliveryLatency (NewObserver fq mode))"

lemma observer_fits_New: "observer_fits fq mode (NewObserver fq mode)"
  by (simp add: observer_fits_def)

lemma observer_fits_observe [simp]:
  "observer_fits fq mode (ObservePublishDuration x obs) = observer_fits fq mode obs"
  "observer_fits fq mode (ObservePublishFanout x obs) = observer_fits fq mode obs"
  "observer_fits fq mode (ObserveDeliveryLatency x obs) = observer_fits fq mode obs"
  by (simp_all add: observer_fits_def ObservePublishDuration_def ObservePublishFanout_def ObserveDeliveryLatency_def observe_def)

text \<open>Every collector of the program is \<open>NewCollector\<close> with some of its sources set.\<close>

definition with_sources :: "('s \<Rightarrow> int \<times> int) option \<Rightarrow> ('s \<Rightarrow> bool) option \<Rightarrow> ('s \<Rightarrow> Observer) option \<Rightarrow> 's Collector \<Rightarrow> 's Collector" where
  "with_sources dd up obs c = c\<lparr>coDedup := dd, coUpstream := up, coObserver := obs\<rparr>"

lemma server_collectors:
  "grpc_collector fq stats srv extras obs = with_sources None None obs
     (NewCollector fq stats (Some (if extras \<noteq> [] then sumConnCounter (grpc_counter srv) extras else grpc_counter srv)) ''server'')"
  "relay_collector fq stats srv relay obs = with_sources (Some (\<lambda>s. (ddHits (rwDedup (relay s)), ddMisses (rwDedup (relay s)))))
     (Some (\<lambda>s. upConnected (rwUpstream (relay s)))) obs (NewCollector fq stats (Some (grpc_counter srv)) ''relay'')"
  by (cases obs; simp add: grpc_collector_def relay_collector_def with_sources_def SetObserver_def SetDedupStats_def SetUpstreamStatus_def
      Let_def NewCollector_def)+

lemma described_names:
  assumes "inj fq" "\<forall>f. obs = Some f \<longrightarrow> observer_fits fq mode (f s)"
  shows "distinct (map mdName (Describe (with_sources dd up obs (NewCollector fq stats conn mode)) s))"
  using assms(2) by (cases dd; cases up; cases obs)
    (simp_all add: Describe_def with_sources_def NewCollector_def new_desc_def observer_fits_def NewObserver_def inj_eq [OF assms(1)])

lemma well_described_sources:
  assumes "inj fq" "\<forall>f. obs = Some f \<longrightarrow> observer_fits fq mode (f s)"
  shows "well_described (with_sources dd up obs (NewCollector fq stats conn mode)) s float64"
proof -
  let ?c = "with_sources dd up obs (NewCollector fq stats conn mode)"
  have "distinct (map mdName (map metric_of (Collect float64 ?c s)))" using assms(2) by (cases dd; cases up; cases obs; cases conn)
    (simp_all add: Collect_def with_sources_def NewCollector_def Let_def new_desc_def observer_fits_def NewObserver_def inj_eq [OF assms(1)])
  then have "distinct (map metric_of (Collect float64 ?c s))" unfolding distinct_map [of mdName] by (rule conjunct1)
  moreover have "set (map metric_of (Collect float64 ?c s)) \<subseteq> set (Describe ?c s)"
    by (cases dd; cases up; cases obs; cases "coConn (NewCollector fq stats conn mode)")
      (simp_all add: Describe_def Collect_def with_sources_def Let_def)
  ultimately show ?thesis using described_names [OF assms, of dd up stats conn] by (simp add: well_described_def)
qed

text \<open>The counters of both transports count their live sessions.\<close>

definition counts_ok :: "world \<Rightarrow> bool" where
  "counts_ok w \<longleftrightarrow> dom (wGrpc w) \<subseteq> {..<wNext w} \<and> dom (wWs w) \<subseteq> {..<wNext w}
     \<and> srvConnectionCount (wSrv w) = int (card (dom (wGrpc w))) \<and> wsvConnectionCount (wWsv w) = int (card (dom (wWs w)))
     \<and> srvConnectionsTotal (wSrv w) - srvDisconnectionsTotal (wSrv w) = srvConnectionCount (wSrv w)"

lemma identity_counts:
  "session_identity srv = (state, i, srv') \<Longrightarrow> srvConnectionCount srv' = srvConnectionCount srv
     \<and> srvConnectionsTotal srv' = srvConnectionsTotal srv \<and> srvDisconnectionsTotal srv' = srvDisconnectionsTotal srv"
  by (auto simp: session_identity_def counter_state_def Let_def split: option.splits sum.splits prod.splits)

lemma create_counts:
  assumes "grpc_createSession p srv ss = (Some s, srv', ss')"
  shows "srvConnectionCount srv' = srvConnectionCount srv + 1 \<and> srvConnectionsTotal srv' = srvConnectionsTotal srv + 1
     \<and> srvDisconnectionsTotal srv' = srvDisconnectionsTotal srv"
proof -
  obtain state i srv1 where id: "session_identity srv = (state, i, srv1)" by (cases "session_identity srv") auto
  have "srvConnectionCount srv' = srvConnectionCount srv1 + 1 \<and> srvConnectionsTotal srv' = srvConnectionsTotal srv1 + 1
     \<and> srvDisconnectionsTotal srv' = srvDisconnectionsTotal srv1"
    using assms by (auto simp: grpc_createSession_def id Let_def split: option.splits prod.splits)
  then show ?thesis using identity_counts [OF id] by simp
qed

lemma cleanup_counts:
  "grpc_cleanupSession p now s srv ss e = (s', srv', ss', e') \<Longrightarrow> srvConnectionCount srv' = srvConnectionCount srv - 1
     \<and> srvConnectionsTotal srv' = srvConnectionsTotal srv \<and> srvDisconnectionsTotal srv' = srvDisconnectionsTotal srv + 1"
  by (auto simp: grpc_cleanupSession_def close_state_def Let_def split: prod.splits session_state.splits option.splits)

lemma card_dom_fresh: "dom m \<subseteq> {..<n :: nat} \<Longrightarrow> card (dom (m(n \<mapsto> x))) = Suc (card (dom m))"
  using finite_subset [of "dom m" "{..<n}"] by (auto simp: card_insert_if)

lemma card_dom_gone: "dom m \<subseteq> {..<n :: nat} \<Longrightarrow> m p = Some x \<Longrightarrow> int (card (dom (m(p := None)))) = int (card (dom m)) - 1"
  using finite_subset [of "dom m" "{..<n}"] card_gt_0_iff [of "dom m"] by (auto simp: card_Diff_singleton domI of_nat_diff)

lemma counts_ok_step: "world_step w w' \<Longrightarrow> counts_ok w \<Longrightarrow> counts_ok w'"
proof (induction rule: world_step.induct)
  case (grpc_open w s srv st)
  then show ?case using create_counts [OF grpc_open.hyps(2)] card_dom_fresh [of "wGrpc w" "wNext w"] by (auto simp: counts_ok_def less_Suc_eq)
next
  case (grpc_close w p s now s' srv st e)
  then show ?case using cleanup_counts [OF grpc_close.hyps(2)] card_dom_gone [of "wGrpc w" "wNext w", OF _ grpc_close.hyps(1)]
    by (auto simp: counts_ok_def)
next
  case (ws_open w now s wsv st)
  then have "wsvConnectionCount wsv = wsvConnectionCount (wWsv w) + 1" by (auto simp: ws_createSession_def Let_def)
  then show ?case using ws_open.prems card_dom_fresh [of "wWs w" "wNext w"] by (auto simp: counts_ok_def less_Suc_eq)
next
  case (ws_close w p s now s' wsv st e)
  then have "wsvConnectionCount wsv = wsvConnectionCount (wWsv w) - 1" by (auto simp: ws_cleanupSession_def split: prod.splits)
  then show ?case using ws_close.prems card_dom_gone [of "wWs w" "wNext w", OF _ ws_close.hyps(1)] by (auto simp: counts_ok_def)
next
  case (other w p s s' m e)
  then have "dom ((wGrpc w)(p \<mapsto> s')) = dom (wGrpc w)" by auto
  then show ?case using other.prems by (simp add: counts_ok_def)
next
  case (ws_other w p s s' e)
  then have "dom ((wWs w)(p \<mapsto> s')) = dom (wWs w)" by auto
  then show ?case using ws_other.prems by (simp add: counts_ok_def)
qed

lemma counts_ok_reach: "world_step\<^sup>*\<^sup>* (serve_start e mmap slotSize cfg v wcfg) w \<Longrightarrow> counts_ok w"
  by (induction rule: rtranclp_induct)
    (auto intro: counts_ok_step, simp add: counts_ok_def serve_start_def grpc_start_def ws_New_def split: prod.splits)

text \<open>The collector of \<^verbatim>\<open>serve\<close>: the gRPC server's own sessions and those of the WebSocket server.\<close>

definition serve_collector :: "fqname \<Rightarrow> (world \<Rightarrow> Observer) option \<Rightarrow> world Collector" where
  "serve_collector fq obs = grpc_collector fq (Stats \<circ> wEngine) wSrv [Some (wsvConnectionCount \<circ> wWsv)] obs"



end
