(* ===== verification/Servers.thy ===== *)
theory Servers
  imports Metrics
begin

text \<open>
  Starting and stopping: \<^verbatim>\<open>Start\<close> and \<^verbatim>\<open>Stop\<close> of the gRPC server, the WebSocket server and the relay, and
  the commands \<^verbatim>\<open>serve\<close> and \<^verbatim>\<open>relay\<close> of \<^verbatim>\<open>internal/cli\<close> that run them, with what they hold of the process:
  listening addresses, the session arena, the connection to the upstream, the fan-out workers and the
  sweeper.

  \<^item> \<open>osBound\<close> are the addresses this process listens on; \<open>net_Listen\<close> fails on one of them, as it does on
    one that is not \<open>lbAvailable\<close>. A port is given, so that an address is bound at most once.
  \<^item> \<open>lbKeys\<close> says whether a pair of certificate and key loads, \<open>lbMmap\<close> whether memory can be mapped,
    \<open>lbUpstream\<close> whether the first stream to the upstream comes up, \<open>lbDrains\<close> whether \<^verbatim>\<open>http.Server.Shutdown\<close>
    ends in time.
  \<^item> \<^verbatim>\<open>GracefulStop\<close> and \<^verbatim>\<open>Shutdown\<close> close the listeners that were given to \<^verbatim>\<open>Serve\<close>, and only those.
\<close>

record os =
  osBound :: "string list"

record libs =
  lbAvailable :: "string \<Rightarrow> bool"
  lbKeys :: "string \<Rightarrow> string \<Rightarrow> bool"
  lbMmap :: "u64 \<Rightarrow> bool"
  lbUpstream :: bool
  lbDrains :: bool

datatype server_error = ErrNotReady | ErrListen | ErrTLS | ErrUpstream | ErrMetrics | ErrShutdown

definition net_Listen :: "libs \<Rightarrow> string \<Rightarrow> os \<Rightarrow> bool \<times> os" where
  "net_Listen lb addr w =
     (if lbAvailable lb addr \<and> addr \<notin> set (osBound w) then (True, w\<lparr>osBound := addr # osBound w\<rparr>) else (False, w))"

definition net_Close :: "string \<Rightarrow> os \<Rightarrow> os" where
  "net_Close addr w = w\<lparr>osBound := remove1 addr (osBound w)\<rparr>"

record running =
  rnListener :: "string option"
  rnServing :: bool
  rnArena :: "session_arena option"
  rnMetrics :: "MetricsServer option"
  rnUpstream :: bool
  rnWorkers :: nat
  rnCancelled :: bool
  rnSweeper :: Sweeper

definition not_started :: running where
  "not_started = \<lparr>rnListener = None, rnServing = False, rnArena = None, rnMetrics = None, rnUpstream = False,
     rnWorkers = 0, rnCancelled = False, rnSweeper = NewSweeper\<rparr>"

definition tls_fails :: "libs \<Rightarrow> 'z TransportConfig_scheme \<Rightarrow> bool" where
  "tls_fails lb cfg \<longleftrightarrow> tcTLSCertFile cfg \<noteq> [] \<and> tcTLSKeyFile cfg \<noteq> [] \<and> \<not> lbKeys lb (tcTLSCertFile cfg) (tcTLSKeyFile cfg)"

text \<open>The arena, when it is asked for and can be mapped; the heap otherwise.\<close>

definition start_arena :: "libs \<Rightarrow> int \<Rightarrow> 'z GrpcConfig_scheme \<Rightarrow> session_arena option" where
  "start_arena lb slotSize cfg =
     (if tcUseArena cfg
      then (case arena_New (lbMmap lb) zero_slot slotSize (arena_sessions cfg) of Inl _ \<Rightarrow> None | Inr a \<Rightarrow> Some a)
      else None)"

definition start_metrics :: "libs \<Rightarrow> string \<Rightarrow> os \<Rightarrow> bool \<times> MetricsServer \<times> os" where
  "start_metrics lb addr w =
     (case net_Listen lb addr w of
        (listens, w1) \<Rightarrow> (case metrics_Start listens (metrics_NewServer addr) of (ok, m) \<Rightarrow> (ok, m, w1)))"

definition stop_metrics :: "libs \<Rightarrow> MetricsServer option \<Rightarrow> os \<Rightarrow> MetricsServer option \<times> os" where
  "stop_metrics lb ms w =
     (case ms of
        None \<Rightarrow> (None, w)
      | Some m \<Rightarrow> (Some (snd (metrics_Stop (lbDrains lb) m)), if msRunning m then net_Close (msAddr m) w else w))"

definition close_arena :: "session_arena option \<Rightarrow> session_arena option" where
  "close_arena a = map_option (\<lambda>x. snd (arena_Close None x)) a"

section \<open>The gRPC server\<close>

definition grpc_Start :: "libs \<Rightarrow> int \<Rightarrow> 'z GrpcConfig_scheme \<Rightarrow> running \<times> os \<Rightarrow> server_error option \<times> running \<times> os" where
  "grpc_Start lb slotSize cfg = (\<lambda>(s, w).
     (case net_Listen lb (tcAddress cfg) w of
        (False, _) \<Rightarrow> (Some ErrListen, s, w)
      | (True, w1) \<Rightarrow>
          (let s1 = s\<lparr>rnListener := Some (tcAddress cfg)\<rparr>
           in if tls_fails lb cfg then (Some ErrTLS, s1, w1)
              else
                (let s2 = s1\<lparr>rnArena := start_arena lb slotSize cfg\<rparr>
                 in if tcMetricsEnabled cfg then
                      (case start_metrics lb (tcMetricsAddr cfg) w1 of
                         (ok, m, w2) \<Rightarrow>
                           (let s3 = s2\<lparr>rnMetrics := Some m\<rparr>
                            in if ok then (None, s3\<lparr>rnServing := True\<rparr>, w2) else (Some ErrMetrics, s3, w2)))
                    else (None, s2\<lparr>rnServing := True\<rparr>, w1)))))"

definition release_listener :: "running \<times> os \<Rightarrow> running \<times> os" where
  "release_listener = (\<lambda>(s, w).
     (case rnListener s of
        None \<Rightarrow> (s, w)
      | Some addr \<Rightarrow> if rnServing s then (s\<lparr>rnListener := None, rnServing := False\<rparr>, net_Close addr w) else (s, w)))"

definition grpc_Stop :: "libs \<Rightarrow> running \<times> os \<Rightarrow> running \<times> os" where
  "grpc_Stop lb = (\<lambda>(s, w).
     (case release_listener (s\<lparr>rnCancelled := True\<rparr>, w) of
        (s1, w1) \<Rightarrow>
          (case stop_metrics lb (rnMetrics s1) w1 of
             (m, w2) \<Rightarrow> (s1\<lparr>rnMetrics := m, rnSweeper := Sweeper_Stop (rnSweeper s1), rnArena := close_arena (rnArena s1)\<rparr>, w2))))"

section \<open>The WebSocket server\<close>

definition ws_Start :: "libs \<Rightarrow> WsConfig \<Rightarrow> running \<times> os \<Rightarrow> server_error option \<times> running \<times> os" where
  "ws_Start lb cfg = (\<lambda>(s, w).
     (case net_Listen lb (tcAddress cfg) w of
        (False, _) \<Rightarrow> (Some ErrListen, s, w)
      | (True, w1) \<Rightarrow>
          if tls_fails lb cfg then (Some ErrTLS, s, net_Close (tcAddress cfg) w1)
          else (None, s\<lparr>rnListener := Some (tcAddress cfg), rnServing := True\<rparr>, w1)))"

text \<open>A shutdown that does not end in time returns before the sweeper is stopped.\<close>

definition ws_Stop :: "libs \<Rightarrow> running \<times> os \<Rightarrow> server_error option \<times> running \<times> os" where
  "ws_Stop lb = (\<lambda>(s, w).
     (case release_listener (s\<lparr>rnCancelled := True\<rparr>, w) of
        (s1, w1) \<Rightarrow>
          if rnServing s \<and> \<not> lbDrains lb then (Some ErrShutdown, s1, w1)
          else (None, s1\<lparr>rnSweeper := Sweeper_Stop (rnSweeper s1)\<rparr>, w1)))"

section \<open>The relay\<close>

definition relay_Start :: "libs \<Rightarrow> int \<Rightarrow> RelayServerConfig \<Rightarrow> running \<times> os \<Rightarrow> server_error option \<times> running \<times> os" where
  "relay_Start lb slotSize cfg = (\<lambda>(s, w).
     (case net_Listen lb (tcAddress cfg) w of
        (False, _) \<Rightarrow> (Some ErrListen, s, w)
      | (True, w1) \<Rightarrow>
          (let addr = tcAddress cfg;
               s1 = s\<lparr>rnListener := Some addr\<rparr>
           in if tls_fails lb cfg then (Some ErrTLS, s1, net_Close addr w1)
              else
                (let s2 = s1\<lparr>rnArena := start_arena lb slotSize cfg\<rparr>
                 in if \<not> lbUpstream lb then (Some ErrUpstream, s2\<lparr>rnArena := close_arena (rnArena s2)\<rparr>, net_Close addr w1)
                    else
                      (let s3 = s2\<lparr>rnUpstream := True\<rparr>;
                           up = (\<lambda>x. x\<lparr>rnServing := True, rnWorkers := nat (rsFanoutWorkers cfg)\<rparr>)
                       in if tcMetricsEnabled cfg then
                            (case start_metrics lb (tcMetricsAddr cfg) w1 of
                               (ok, m, w2) \<Rightarrow>
                                 (let s4 = s3\<lparr>rnMetrics := Some m\<rparr>
                                  in if ok then (None, up s4, w2) else (Some ErrMetrics, s4\<lparr>rnUpstream := False\<rparr>, net_Close addr w2)))
                          else (None, up s3, w1))))))"

text \<open>\<^verbatim>\<open>Stop\<close> of a relay that was started; without its gRPC server it would dereference a nil pointer.\<close>

definition relay_Stop :: "libs \<Rightarrow> running \<times> os \<Rightarrow> running \<times> os" where
  "relay_Stop lb = (\<lambda>(s, w).
     (case release_listener (s\<lparr>rnCancelled := True\<rparr>, w) of
        (s1, w1) \<Rightarrow>
          (case stop_metrics lb (rnMetrics s1) w1 of
             (m, w2) \<Rightarrow>
               (s1\<lparr>rnUpstream := False, rnMetrics := m, rnWorkers := 0, rnSweeper := Sweeper_Stop (rnSweeper s1),
                   rnArena := close_arena (rnArena s1)\<rparr>, w2))))"

section \<open>The commands\<close>

text \<open>
  The state of a command: the first server, the WebSocket server if there is one, whether the engine
  was stopped, and the process. \<open>cfg\<close> is the document that was loaded, \<open>v\<close> the verifier made of it.
  A command that ends with an error exits with status 1.
\<close>

record command =
  cmMain :: running
  cmWs :: "running option"
  cmEngineStopped :: bool
  cmOs :: os

definition start_ws :: "libs \<Rightarrow> WsConfig option \<Rightarrow> (running \<times> os \<Rightarrow> running \<times> os) \<Rightarrow> running \<times> os \<Rightarrow> server_error option \<times> command" where
  "start_ws lb wcfg stop = (\<lambda>(s, w).
     (case wcfg of
        None \<Rightarrow> (None, \<lparr>cmMain = s, cmWs = None, cmEngineStopped = False, cmOs = w\<rparr>)
      | Some c \<Rightarrow>
          (case ws_Start lb c (not_started, w) of
             (None, x, w1) \<Rightarrow> (None, \<lparr>cmMain = s, cmWs = Some x, cmEngineStopped = False, cmOs = w1\<rparr>)
           | (Some err, x, w1) \<Rightarrow>
               (case stop (s, w1) of (s1, w2) \<Rightarrow> (Some err, \<lparr>cmMain = s1, cmWs = Some x, cmEngineStopped = False, cmOs = w2\<rparr>)))))"

definition runServe :: "libs \<Rightarrow> int \<Rightarrow> Gentis \<Rightarrow> Verifier \<Rightarrow> os \<Rightarrow> server_error option \<times> command" where
  "runServe lb slotSize cfg v w =
     (let wcfg = buildWSServer (gWebSocket cfg) (serverWSTransport (gServer cfg)) v;
          gcfg = fst (grpc_New (svAddr (gServer cfg)) (buildGRPCOpts cfg v))
      in case grpc_Start lb slotSize gcfg (not_started, w) of
           (Some err, s, w1) \<Rightarrow> (Some err, \<lparr>cmMain = s, cmWs = None, cmEngineStopped = False, cmOs = w1\<rparr>)
         | (None, s, w1) \<Rightarrow> start_ws lb wcfg (grpc_Stop lb) (s, w1))"

definition runRelay :: "libs \<Rightarrow> int \<Rightarrow> Gentis \<Rightarrow> Verifier \<Rightarrow> os \<Rightarrow> server_error option \<times> command" where
  "runRelay lb slotSize cfg v w =
     (let wcfg = buildWSServer (gWebSocket cfg) (relayWSTransport (gRelay cfg)) v;
          rcfg = fst (relay_New (buildRelayOpts cfg v))
      in if RelayReady cfg \<noteq> None then (Some ErrNotReady, \<lparr>cmMain = not_started, cmWs = None, cmEngineStopped = False, cmOs = w\<rparr>)
         else
         case relay_Start lb slotSize rcfg (not_started, w) of
           (Some err, s, w1) \<Rightarrow> (Some err, \<lparr>cmMain = s, cmWs = None, cmEngineStopped = False, cmOs = w1\<rparr>)
         | (None, s, w1) \<Rightarrow> start_ws lb wcfg (relay_Stop lb) (s, w1))"

text \<open>\<^verbatim>\<open>stopServe\<close> and \<^verbatim>\<open>stopRelay\<close>: the WebSocket server, the other server, the engine; the first error.\<close>

definition stop_command :: "libs \<Rightarrow> (running \<times> os \<Rightarrow> running \<times> os) \<Rightarrow> command \<Rightarrow> server_error option \<times> command" where
  "stop_command lb stop c =
     (case cmWs c of
        None \<Rightarrow> (case stop (cmMain c, cmOs c) of (s, w) \<Rightarrow> (None, c\<lparr>cmMain := s, cmEngineStopped := True, cmOs := w\<rparr>))
      | Some x \<Rightarrow>
          (case ws_Stop lb (x, cmOs c) of
             (err, x1, w1) \<Rightarrow>
               (case stop (cmMain c, w1) of
                  (s, w2) \<Rightarrow> (err, c\<lparr>cmMain := s, cmWs := Some x1, cmEngineStopped := True, cmOs := w2\<rparr>))))"

section \<open>What is held\<close>

text \<open>A running server holds its address and that of its metrics; \<open>rest\<close> are the addresses of others.\<close>

definition metrics_held :: "running \<Rightarrow> string list" where
  "metrics_held s = (case rnMetrics s of None \<Rightarrow> [] | Some m \<Rightarrow> if msRunning m then [msAddr m] else [])"

definition holds :: "running \<Rightarrow> string list \<Rightarrow> os \<Rightarrow> bool" where
  "holds s rest w \<longleftrightarrow> (\<exists>addr. rnServing s \<and> rnListener s = Some addr \<and> distinct (osBound w)
     \<and> osBound w = metrics_held s @ addr # rest)"

definition all_released :: "running \<Rightarrow> bool" where
  "all_released s \<longleftrightarrow> \<not> rnServing s \<and> metrics_held s = [] \<and> \<not> rnUpstream s \<and> rnWorkers s = 0 \<and> rnCancelled s
     \<and> swStopped (rnSweeper s) \<and> (\<forall>a. rnArena s = Some a \<longrightarrow> arClosed a)"

lemmas starting = net_Listen_def start_metrics_def metrics_Start_def metrics_NewServer_def

text \<open>A start that succeeds holds the address and the metrics address; what a failed one leaves behind.\<close>

lemma grpc_Start_ok:
  assumes "grpc_Start lb z cfg (not_started, w) = (None, s, w1)" "distinct (osBound w)"
  shows "holds s (osBound w) w1" "\<not> rnUpstream s" "rnWorkers s = 0"
  using assms
  by (auto simp: grpc_Start_def Let_def starting holds_def metrics_held_def not_started_def split: prod.splits bool.splits if_splits option.splits)

lemma grpc_Start_failed:
  assumes "grpc_Start lb z cfg (not_started, w) = (Some err, s, w1)" "distinct (osBound w)"
  shows "err = ErrListen \<and> w1 = w \<or> err \<in> {ErrTLS, ErrMetrics} \<and> osBound w1 = tcAddress cfg # osBound w \<and> \<not> rnServing s
     \<and> metrics_held s = []"
  using assms
  by (auto simp: grpc_Start_def Let_def starting metrics_held_def not_started_def split: prod.splits bool.splits if_splits option.splits)

lemma relay_Start_ok:
  assumes "relay_Start lb z cfg (not_started, w) = (None, s, w1)" "distinct (osBound w)"
  shows "holds s (osBound w) w1"
  using assms
  by (auto simp: relay_Start_def Let_def starting holds_def metrics_held_def not_started_def split: prod.splits bool.splits if_splits option.splits)

lemma relay_Start_failed:
  assumes "relay_Start lb z cfg (not_started, w) = (Some err, s, w1)" "distinct (osBound w)"
  shows "osBound w1 = osBound w"
  using assms
  by (auto simp: relay_Start_def Let_def starting net_Close_def split: prod.splits bool.splits if_splits option.splits)

lemma ws_Start_cases:
  assumes "ws_Start lb cfg (not_started, w) = (err, s, w1)" "distinct (osBound w)"
  shows "err = None \<longrightarrow> holds s (osBound w) w1 \<and> rnMetrics s = None" "err \<noteq> None \<longrightarrow> osBound w1 = osBound w"
  using assms
  by (auto simp: ws_Start_def holds_def metrics_held_def not_started_def starting net_Close_def split: prod.splits bool.splits if_splits)

text \<open>A stop of a running server releases what it holds, also under addresses bound since.\<close>

lemma stop_metrics_held:
  assumes "stop_metrics lb (rnMetrics s) w = (m, w1)"
  shows "osBound w1 = fold remove1 (metrics_held s) (osBound w)" "metrics_held (s\<lparr>rnMetrics := m\<rparr>) = []"
proof -
  have "osBound w1 = fold remove1 (metrics_held s) (osBound w) \<and> metrics_held (s\<lparr>rnMetrics := m\<rparr>) = []"
  proof (cases "rnMetrics s")
    case None
    then show ?thesis using assms [symmetric] by (simp add: stop_metrics_def metrics_held_def)
  next
    case (Some ms)
    then show ?thesis using assms [symmetric]
      by (cases "msRunning ms") (simp_all add: stop_metrics_def metrics_held_def net_Close_def metrics_Stop_def)
  qed
  then show "osBound w1 = fold remove1 (metrics_held s) (osBound w)" "metrics_held (s\<lparr>rnMetrics := m\<rparr>) = []" by auto
qed

lemma close_arena_closed: "close_arena a = Some x \<Longrightarrow> arClosed x"
  by (cases a) (auto simp: close_arena_def arena_Close_def dest: arg_cong [where f = arClosed] split: if_splits)

definition released_under :: "running \<Rightarrow> os \<Rightarrow> string list" where
  "released_under s w = fold remove1 (metrics_held s) (remove1 (the (rnListener s)) (osBound w))"

lemma grpc_Stop_held:
  assumes "rnServing s" "rnListener s = Some addr" "\<not> rnUpstream s" "rnWorkers s = 0" "grpc_Stop lb (s, w) = (s', w')"
  shows "osBound w' = released_under s w" "all_released s'"
proof -
  let ?s1 = "s\<lparr>rnCancelled := True, rnListener := None, rnServing := False\<rparr>"
  obtain m w2 where m: "stop_metrics lb (rnMetrics ?s1) (net_Close addr w) = (m, w2)" by fastforce
  have held: "metrics_held ?s1 = metrics_held s" by (simp add: metrics_held_def)
  have run: "s' = ?s1\<lparr>rnMetrics := m, rnSweeper := Sweeper_Stop (rnSweeper s), rnArena := close_arena (rnArena s)\<rparr>" "w' = w2"
    using assms(1,2,5) m by (auto simp: grpc_Stop_def release_listener_def split: prod.splits)
  show "osBound w' = released_under s w" using stop_metrics_held(1) [OF m] assms(2) held by (simp add: run(2) released_under_def net_Close_def)
  have "metrics_held s' = []" using stop_metrics_held(2) [OF m] by (simp add: run(1) metrics_held_def)
  then show "all_released s'" using assms(3,4) close_arena_closed by (auto simp: run(1) all_released_def Sweeper_Stop_def)
qed

lemma relay_Stop_held:
  assumes "rnServing s" "rnListener s = Some addr" "relay_Stop lb (s, w) = (s', w')"
  shows "osBound w' = released_under s w" "all_released s'"
proof -
  let ?s1 = "s\<lparr>rnCancelled := True, rnListener := None, rnServing := False\<rparr>"
  obtain m w2 where m: "stop_metrics lb (rnMetrics ?s1) (net_Close addr w) = (m, w2)" by fastforce
  have held: "metrics_held ?s1 = metrics_held s" by (simp add: metrics_held_def)
  have run: "s' = ?s1\<lparr>rnUpstream := False, rnMetrics := m, rnWorkers := 0, rnSweeper := Sweeper_Stop (rnSweeper s),
      rnArena := close_arena (rnArena s)\<rparr>" "w' = w2"
    using assms m by (auto simp: relay_Stop_def release_listener_def split: prod.splits)
  show "osBound w' = released_under s w" using stop_metrics_held(1) [OF m] assms(2) held by (simp add: run(2) released_under_def net_Close_def)
  have "metrics_held s' = []" using stop_metrics_held(2) [OF m] by (simp add: run(1) metrics_held_def)
  then show "all_released s'" using close_arena_closed by (auto simp: run(1) all_released_def Sweeper_Stop_def)
qed

lemma released_held: "holds s rest w \<Longrightarrow> released_under s w = rest"
  by (auto simp: holds_def released_under_def metrics_held_def split: option.splits if_splits)

lemma ws_Stop_held:
  assumes "rnServing s" "rnListener s = Some addr" "ws_Stop lb (s, w) = (err, s', w')"
  shows "w' = net_Close addr w" "err = None \<and> swStopped (rnSweeper s') \<or> err = Some ErrShutdown" "\<not> rnServing s'"
  using assms by (auto simp: ws_Stop_def release_listener_def Sweeper_Stop_def split: if_splits)

text \<open>A gRPC server whose start failed after it had its listener: \<^verbatim>\<open>Stop\<close> does not close it, and a retry fails.\<close>

lemma grpc_retry:
  assumes "grpc_Start lb z cfg (not_started, w) = (Some err, s, w1)" "err \<noteq> ErrListen" "distinct (osBound w)"
  shows "fst (grpc_Start lb z cfg (grpc_Stop lb (s, w1))) = Some ErrListen"
proof -
  have failed: "osBound w1 = tcAddress cfg # osBound w" "\<not> rnServing s" "metrics_held s = []"
    using grpc_Start_failed [OF assms(1,3)] assms(2) by auto
  obtain s2 w2 where stop: "grpc_Stop lb (s, w1) = (s2, w2)" by fastforce
  then have "osBound w2 = osBound w1" using failed(2,3)
    by (auto simp: grpc_Stop_def release_listener_def stop_metrics_def metrics_held_def split: option.splits prod.splits if_splits)
  then show ?thesis using failed(1) by (simp add: stop grpc_Start_def net_Listen_def)
qed

text \<open>
  A stopped command is back to \<open>rest\<close>, its engine stopped and its first server with nothing held; only
  the sweeper of the WebSocket server is left when that server's shutdown ran out of time.
\<close>

definition stops_clean :: "libs \<Rightarrow> (running \<times> os \<Rightarrow> running \<times> os) \<Rightarrow> string list \<Rightarrow> command \<Rightarrow> bool" where
  "stops_clean lb stop rest c = (case stop_command lb stop c of
     (e, c') \<Rightarrow> osBound (cmOs c') = rest \<and> all_released (cmMain c') \<and> cmEngineStopped c' \<and> e \<in> {None, Some ErrShutdown}
       \<and> (\<forall>x. cmWs c' = Some x \<longrightarrow> \<not> rnServing x \<and> (e = None \<longrightarrow> swStopped (rnSweeper x))))"

text \<open>
  What \<^verbatim>\<open>runServe\<close> and \<^verbatim>\<open>runRelay\<close> share once their first server runs: it holds its addresses in \<open>w1\<close>, and its
  \<open>stop\<close> releases them.
\<close>

lemma start_ws_cases:
  assumes "start_ws lb wcfg stop (s, w1) = (err, c)" "holds s rest w1"
    and stop: "\<And>w s' w'. stop (s, w) = (s', w') \<Longrightarrow> osBound w' = released_under s w \<and> all_released s'"
  shows "err \<noteq> None \<longrightarrow> osBound (cmOs c) = rest"
    and "err = None \<longrightarrow> stops_clean lb stop rest c"
proof -
  have rest: "released_under s w = rest" if "osBound w = osBound w1" for w
    using that released_held [OF assms(2)] by (simp add: released_under_def)
  have distinct: "distinct (osBound w1)" using assms(2) by (auto simp: holds_def)
  show "err \<noteq> None \<longrightarrow> osBound (cmOs c) = rest"
  proof
    assume "err \<noteq> None"
    then obtain wc ec x w2 s3 w3 where run: "wcfg = Some wc" "ws_Start lb wc (not_started, w1) = (Some ec, x, w2)"
        "stop (s, w2) = (s3, w3)" "cmOs c = w3"
      using assms(1) by (auto simp: start_ws_def split: option.splits prod.splits)
    have "osBound w2 = osBound w1" using ws_Start_cases(2) [OF run(2) distinct] by simp
    then show "osBound (cmOs c) = rest" using stop [OF run(3)] rest by (simp add: run(4))
  qed
  show "err = None \<longrightarrow> stops_clean lb stop rest c"
  proof
    assume ok: "err = None"
    show "stops_clean lb stop rest c"
    proof (cases wcfg)
      case None
      then have c: "c = \<lparr>cmMain = s, cmWs = None, cmEngineStopped = False, cmOs = w1\<rparr>"
        using assms(1) ok by (simp add: start_ws_def)
      obtain s' w' where run: "stop (s, w1) = (s', w')" by fastforce
      then show ?thesis using stop [OF run] rest [OF refl] by (simp add: stops_clean_def stop_command_def c)
    next
      case (Some wc)
      then obtain x w2 where ws: "ws_Start lb wc (not_started, w1) = (None, x, w2)"
          and c: "c = \<lparr>cmMain = s, cmWs = Some x, cmEngineStopped = False, cmOs = w2\<rparr>"
        using assms(1) ok by (auto simp: start_ws_def split: option.splits prod.splits)
      have held: "holds x (osBound w1) w2" "metrics_held x = []" using ws_Start_cases(1) [OF ws distinct] by (auto simp: metrics_held_def)
      then obtain addr where addr: "rnServing x" "rnListener x = Some addr" "osBound w2 = addr # osBound w1" by (auto simp: holds_def)
      obtain e2 x2 w3 where wstop: "ws_Stop lb (x, w2) = (e2, x2, w3)" using prod_cases3 by blast
      obtain s' w' where run: "stop (s, w3) = (s', w')" by fastforce
      have "osBound w3 = osBound w1" using ws_Stop_held(1) [OF addr(1,2) wstop] addr(3) by (simp add: net_Close_def)
      then have "osBound w' = rest" "all_released s'" using stop [OF run] rest by auto
      then show ?thesis using ws_Stop_held(2,3) [OF addr(1,2) wstop] by (auto simp: stops_clean_def stop_command_def c wstop run)
    qed
  qed
qed

lemma start_ws_error: "start_ws lb wcfg stop (s, w) = (err, c) \<Longrightarrow> err \<noteq> Some ErrMetrics"
  by (auto simp: start_ws_def ws_Start_def split: option.splits prod.splits bool.splits if_splits)

lemma relay_Start_arena:
  "relay_Start lb z cfg (not_started, w) = (Some err, s, w1) \<Longrightarrow>
     (err = ErrMetrics \<longrightarrow> rnArena s = start_arena lb z cfg) \<and> (err \<noteq> ErrMetrics \<longrightarrow> (\<forall>a. rnArena s = Some a \<longrightarrow> arClosed a))"
  by (auto simp: relay_Start_def Let_def not_started_def close_arena_closed split: prod.splits bool.splits if_splits)

lemma grpc_New_address: "tcAddress (fst (grpc_New addr (buildGRPCOpts cfg v))) = addr"
  by (auto simp: grpc_New_def buildGRPCOpts_def grpc_defaultConfig_def clamp_subscriptions_def Let_def
      WithVerifier_def WithPingInterval_def WithAuthDeadline_def WithMaxMessageSize_def WithMaxSubscriptions_def WithTLS_def
      WithArena_def WithMaxSessions_def WithMetrics_def)

lemma runServe_cases:
  assumes "runServe lb z cfg v w = (err, c)" "distinct (osBound w)"
  shows "err = None \<longrightarrow> stops_clean lb (grpc_Stop lb) (osBound w) c"
    and "err \<noteq> None \<longrightarrow> osBound (cmOs c) = osBound w
       \<or> err \<in> {Some ErrTLS, Some ErrMetrics} \<and> osBound (cmOs c) = svAddr (gServer cfg) # osBound w
         \<and> fst (grpc_Start lb z (fst (grpc_New (svAddr (gServer cfg)) (buildGRPCOpts cfg v))) (grpc_Stop lb (cmMain c, cmOs c))) = Some ErrListen"
proof -
  let ?g = "fst (grpc_New (svAddr (gServer cfg)) (buildGRPCOpts cfg v))"
  obtain e s w1 where start: "grpc_Start lb z ?g (not_started, w) = (e, s, w1)" using prod_cases3 by blast
  have stop: "osBound w'' = released_under s w' \<and> all_released s''" if "e = None" "grpc_Stop lb (s, w') = (s'', w'')" for w' s'' w''
  proof -
    have "holds s (osBound w) w1" "\<not> rnUpstream s" "rnWorkers s = 0"
      using grpc_Start_ok [of lb z ?g w s w1] start assms(2) that(1) by auto
    then show ?thesis using grpc_Stop_held [OF _ _ _ _ that(2)] by (auto simp: holds_def)
  qed
  have ran: "start_ws lb (buildWSServer (gWebSocket cfg) (serverWSTransport (gServer cfg)) v) (grpc_Stop lb) (s, w1) = (err, c)" if "e = None"
    using assms(1) start that by (simp add: runServe_def Let_def)
  have held: "holds s (osBound w) w1" if "e = None" using grpc_Start_ok(1) [of lb z ?g w s w1] start assms(2) that by simp
  have failed: "err = e \<and> c = \<lparr>cmMain = s, cmWs = None, cmEngineStopped = False, cmOs = w1\<rparr>" if "e \<noteq> None"
    using assms(1) start that by (auto simp: runServe_def Let_def)
  show "err = None \<longrightarrow> stops_clean lb (grpc_Stop lb) (osBound w) c"
    using start_ws_cases(2) [OF ran held stop] failed by (cases e) auto
  have addr: "tcAddress ?g = svAddr (gServer cfg)" by (rule grpc_New_address)
  show "err \<noteq> None \<longrightarrow> osBound (cmOs c) = osBound w
       \<or> err \<in> {Some ErrTLS, Some ErrMetrics} \<and> osBound (cmOs c) = svAddr (gServer cfg) # osBound w
         \<and> fst (grpc_Start lb z ?g (grpc_Stop lb (cmMain c, cmOs c))) = Some ErrListen"
  proof (cases e)
    case None
    then show ?thesis using start_ws_cases(1) [OF ran held stop] by simp
  next
    case (Some er)
    then show ?thesis using failed start grpc_Start_failed [of lb z ?g w er s w1] grpc_retry [of lb z ?g w er s w1] assms(2) addr by auto
  qed
qed

lemma runRelay_cases:
  assumes "runRelay lb z cfg v w = (err, c)" "distinct (osBound w)"
  shows "err = None \<longrightarrow> stops_clean lb (relay_Stop lb) (osBound w) c"
    and "err \<noteq> None \<longrightarrow> osBound (cmOs c) = osBound w"
    and "err = Some ErrMetrics \<longrightarrow> rnArena (cmMain c) = start_arena lb z (fst (relay_New (buildRelayOpts cfg v)))"
proof -
  let ?r = "fst (relay_New (buildRelayOpts cfg v))"
  obtain e s w1 where start: "relay_Start lb z ?r (not_started, w) = (e, s, w1)" using prod_cases3 by blast
  have held: "holds s (osBound w) w1" if "e = None" using relay_Start_ok [of lb z ?r w s w1] start assms(2) that by simp
  have stop: "osBound w'' = released_under s w' \<and> all_released s''" if "e = None" "relay_Stop lb (s, w') = (s'', w'')" for w' s'' w''
    using held [OF that(1)] relay_Stop_held [OF _ _ that(2)] by (auto simp: holds_def)
  have main: "(err = None \<longrightarrow> stops_clean lb (relay_Stop lb) (osBound w) c) \<and> (err \<noteq> None \<longrightarrow> osBound (cmOs c) = osBound w)
     \<and> (err = Some ErrMetrics \<longrightarrow> rnArena (cmMain c) = start_arena lb z ?r)"
  proof (cases "RelayReady cfg = None")
    case False
    then show ?thesis using assms(1) by (auto simp: runRelay_def)
  next
    case ready: True
    show ?thesis
    proof (cases e)
      case None
      have ran: "start_ws lb (buildWSServer (gWebSocket cfg) (relayWSTransport (gRelay cfg)) v) (relay_Stop lb) (s, w1) = (err, c)"
        using assms(1) start ready None by (simp add: runRelay_def Let_def)
      then show ?thesis using start_ws_cases [OF ran held stop] None start_ws_error [OF ran] by simp
    next
      case (Some er)
      then have "err = Some er \<and> c = \<lparr>cmMain = s, cmWs = None, cmEngineStopped = False, cmOs = w1\<rparr>"
        using assms(1) start ready by (simp add: runRelay_def Let_def)
      then show ?thesis
        using Some relay_Start_failed [of lb z ?r w er s w1] relay_Start_arena [of lb z ?r w er s w1] start assms(2) by auto
    qed
  qed
  then show "err = None \<longrightarrow> stops_clean lb (relay_Stop lb) (osBound w) c" "err \<noteq> None \<longrightarrow> osBound (cmOs c) = osBound w"
    "err = Some ErrMetrics \<longrightarrow> rnArena (cmMain c) = start_arena lb z ?r" by auto
qed

section \<open>Properties\<close>


definition demo_libs :: "bool \<Rightarrow> libs" where
  "demo_libs up = \<lparr>lbAvailable = (\<lambda>_. True), lbKeys = (\<lambda>_ _. False), lbMmap = (\<lambda>_. True), lbUpstream = up, lbDrains = True\<rparr>"

definition demo_settings :: Gentis where
  "demo_settings = Defaults\<lparr>gServer := (gServer Defaults)\<lparr>svTLS := (svTLS (gServer Defaults))\<lparr>tlsCert := ''c'', tlsKey := ''k''\<rparr>\<rparr>,
     gRelay := (gRelay Defaults)\<lparr>rlUpstream := (rlUpstream (gRelay Defaults))\<lparr>ucAddr := ''u''\<rparr>\<rparr>\<rparr>"


end
