(* ===== verification/Session_Timers.thy ===== *)
theory Session_Timers
  imports Protocol
begin

text \<open>
  The two timers of a session (\<^verbatim>\<open>scheduleExpiry\<close> and the authentication deadline in \<^verbatim>\<open>internal/grpc/session.go\<close>,
  \<^verbatim>\<open>internal/ws\<close> and \<^verbatim>\<open>internal/relay/relay.go\<close>; the code is the same in the three packages), with the
  goroutines the runtime starts for them.

  \<^item> \<^verbatim>\<open>time.AfterFunc\<close> arms a timer; once it is due the runtime starts its function in a goroutine of its own.
    \<^verbatim>\<open>Timer.Stop\<close> keeps an armed timer from firing and does nothing to a function that was started.
  \<^item> The dispatch goroutine runs \<^verbatim>\<open>Connect\<close> and \<^verbatim>\<open>Refresh\<close> of theory Protocol, also after the session was
    cancelled, until the session ends. \<open>verify now\<close> is the verifier with the clock at \<open>now\<close>.
  \<^item> Times are nanoseconds. \<open>lfGranted\<close> records when credentials were accepted and when they lapse.
\<close>

datatype timer = NoTimer | Armed int | Fired
datatype callback = ExpiryRun | AuthCheck | AuthCancel

record life =
  lfSession :: Session
  lfNow :: int
  lfAuth :: timer
  lfExpiry :: timer
  lfCallbacks :: "callback list"
  lfCancelled :: bool
  lfEnded :: bool
  lfGranted :: "(int \<times> int option) list"

definition stop_timer :: "timer \<Rightarrow> timer" where
  "stop_timer t = (case t of Armed _ \<Rightarrow> NoTimer | _ \<Rightarrow> t)"

text \<open>The timers of a new session.\<close>

definition start_life :: "int \<Rightarrow> int \<Rightarrow> Session \<Rightarrow> life" where
  "start_life deadline now s =
     \<lparr>lfSession = s, lfNow = now, lfAuth = (if deadline > 0 then Armed (now + deadline) else NoTimer), lfExpiry = NoTimer,
      lfCallbacks = [], lfCancelled = False, lfEnded = False, lfGranted = []\<rparr>"

definition scheduleExpiry :: "int option \<Rightarrow> life \<Rightarrow> life" where
  "scheduleExpiry exp l =
     (let l1 = l\<lparr>lfExpiry := NoTimer\<rparr>
      in case exp of None \<Rightarrow> l1 | Some e \<Rightarrow> l1\<lparr>lfExpiry := Armed (nanos e)\<rparr>)"

text \<open>
  \<open>before\<close> and \<open>after\<close> are the session around a \<^verbatim>\<open>Connect\<close> or a \<^verbatim>\<open>Refresh\<close>, whose answer is the last one sent:
  unless it is an error the operation has called \<^verbatim>\<open>ScheduleExpiry\<close>.
\<close>

definition accepted :: "Session \<Rightarrow> bool" where
  "accepted s = (case last (psOut s) of Connected _ _ \<Rightarrow> True | Refreshed _ _ \<Rightarrow> True | _ \<Rightarrow> False)"

definition dispatched :: "Session \<Rightarrow> life \<Rightarrow> life" where
  "dispatched s l =
     (if accepted s
      then (scheduleExpiry (psExpiry s) l)\<lparr>lfSession := s, lfGranted := lfGranted l @ [(lfNow l, map_option nanos (psExpiry s))]\<rparr>
      else l\<lparr>lfSession := s\<rparr>)"

text \<open>A callback that was started: the expiry cancels, the deadline looks and then cancels.\<close>

definition run_callback :: "callback \<Rightarrow> life \<Rightarrow> callback list \<times> life" where
  "run_callback c l =
     (case c of
        ExpiryRun \<Rightarrow> ([], l\<lparr>lfCancelled := True\<rparr>)
      | AuthCheck \<Rightarrow> (if IsAuthenticated (psState (lfSession l)) then ([], l) else ([AuthCancel], l))
      | AuthCancel \<Rightarrow> ([], l\<lparr>lfCancelled := True\<rparr>))"

text \<open>The part of \<^verbatim>\<open>cleanupSession\<close> that ends the timers and the context.\<close>

definition cleanup_timers :: "life \<Rightarrow> life" where
  "cleanup_timers l = l\<lparr>lfExpiry := stop_timer (lfExpiry l), lfAuth := stop_timer (lfAuth l), lfCancelled := True, lfEnded := True\<rparr>"

inductive timer_side :: "life \<Rightarrow> life \<Rightarrow> bool" where
  fire_expiry: "lfExpiry l = Armed due \<Longrightarrow> due \<le> lfNow l \<Longrightarrow>
    timer_side l (l\<lparr>lfExpiry := Fired, lfCallbacks := ExpiryRun # lfCallbacks l\<rparr>)"
| fire_auth: "lfAuth l = Armed due \<Longrightarrow> due \<le> lfNow l \<Longrightarrow>
    timer_side l (l\<lparr>lfAuth := Fired, lfCallbacks := AuthCheck # lfCallbacks l\<rparr>)"
| run: "lfCallbacks l = xs @ c # ys \<Longrightarrow> run_callback c l = (rest, l') \<Longrightarrow>
    timer_side l (l'\<lparr>lfCallbacks := xs @ rest @ ys\<rparr>)"

inductive session_side :: "(int \<Rightarrow> string \<Rightarrow> auth_error + Claims) \<Rightarrow> life \<Rightarrow> life \<Rightarrow> bool" for verify where
  connect: "\<not> lfEnded l \<Longrightarrow> Connect (verify (lfNow l)) req reqID (lfSession l) = s \<Longrightarrow> session_side verify l (dispatched s l)"
| refresh: "\<not> lfEnded l \<Longrightarrow> Refresh (verify (lfNow l)) rreq reqID (lfSession l) = s \<Longrightarrow> session_side verify l (dispatched s l)"
| message: "\<not> lfEnded l \<Longrightarrow> IsAuthenticated (psState s) = IsAuthenticated (psState (lfSession l)) \<Longrightarrow>
    session_side verify l (l\<lparr>lfSession := s\<rparr>)"
| finish: "\<not> lfEnded l \<Longrightarrow> session_side verify l (cleanup_timers l)"
| time: "lfNow l \<le> now \<Longrightarrow> session_side verify l (l\<lparr>lfNow := now\<rparr>)"

definition life_step :: "(int \<Rightarrow> string \<Rightarrow> auth_error + Claims) \<Rightarrow> life \<Rightarrow> life \<Rightarrow> bool" where
  "life_step verify l l' \<longleftrightarrow> timer_side l l' \<or> session_side verify l l'"

section \<open>Verifiers\<close>

text \<open>What the timers rely on: credentials that are accepted have not lapsed.\<close>

locale expiring_verifier =
  fixes verify :: "int \<Rightarrow> string \<Rightarrow> auth_error + Claims"
  assumes fresh: "verify now token = Inr c \<Longrightarrow> ExpiresAt c = Some e \<Longrightarrow> now < nanos e"

definition verify_hmac :: "codec \<Rightarrow> bytes \<Rightarrow> int \<Rightarrow> string \<Rightarrow> auth_error + Claims" where
  "verify_hmac cd secret now token = Verify cd \<lparr>vsecret = secret, vnow = now\<rparr> token"

interpretation hmac: expiring_verifier "verify_hmac cd secret"
  by unfold_locales (auto simp: verify_hmac_def dest!: check_claims_ok elim!: Verify_Inr)

interpretation insecure: expiring_verifier "\<lambda>_. InsecureVerify"
  by unfold_locales (auto simp: InsecureVerify_def)

section \<open>What cancels a session\<close>

text \<open>
  Some credentials lapsed while they were the current ones; nothing was accepted before the deadline.
\<close>

definition lapsed :: "(int \<times> int option) list \<Rightarrow> int \<Rightarrow> bool" where
  "lapsed gs now \<longleftrightarrow> (\<exists>i t e. i < length gs \<and> gs ! i = (t, Some e) \<and> e \<le> now \<and> (i + 1 < length gs \<longrightarrow> e \<le> fst (gs ! (i + 1))))"

definition missed :: "int \<Rightarrow> int \<Rightarrow> (int \<times> int option) list \<Rightarrow> int \<Rightarrow> bool" where
  "missed deadline start gs now \<longleftrightarrow> 0 < deadline \<and> start + deadline \<le> now \<and> (gs = [] \<or> start + deadline \<le> fst (hd gs))"

definition overdue :: "(int \<times> int option) list \<Rightarrow> int \<Rightarrow> bool" where
  "overdue gs now \<longleftrightarrow> gs \<noteq> [] \<and> (\<exists>e. snd (last gs) = Some e \<and> e \<le> now)"

text \<open>The invariant of the expiry timer and the one of the deadline, over what they read.\<close>

definition expiry_ok :: "(int \<times> int option) list \<Rightarrow> int \<Rightarrow> timer \<Rightarrow> callback set \<Rightarrow> bool \<Rightarrow> bool" where
  "expiry_ok gs now tm cs over \<longleftrightarrow> (\<forall>due. tm = Armed due \<longrightarrow> gs \<noteq> [] \<and> snd (last gs) = Some due)
     \<and> (gs \<noteq> [] \<and> \<not> over \<longrightarrow> (\<forall>e. snd (last gs) = Some e \<longrightarrow> tm = Armed e \<or> ExpiryRun \<in> cs))
     \<and> (ExpiryRun \<in> cs \<longrightarrow> lapsed gs now)"

definition auth_ok :: "int \<Rightarrow> int \<Rightarrow> (int \<times> int option) list \<Rightarrow> int \<Rightarrow> timer \<Rightarrow> callback set \<Rightarrow> bool \<Rightarrow> bool" where
  "auth_ok deadline start gs now tm cs over \<longleftrightarrow> (\<forall>due. tm = Armed due \<longrightarrow> 0 < deadline \<and> due = start + deadline)
     \<and> (0 < deadline \<and> gs = [] \<and> \<not> over \<longrightarrow> tm = Armed (start + deadline) \<or> AuthCheck \<in> cs \<or> AuthCancel \<in> cs)
     \<and> (AuthCheck \<in> cs \<longrightarrow> 0 < deadline \<and> start + deadline \<le> now)
     \<and> (AuthCancel \<in> cs \<longrightarrow> missed deadline start gs now)"

definition life_ok :: "int \<Rightarrow> int \<Rightarrow> life \<Rightarrow> bool" where
  "life_ok deadline start l \<longleftrightarrow> expiry_ok (lfGranted l) (lfNow l) (lfExpiry l) (set (lfCallbacks l)) (lfCancelled l)
     \<and> auth_ok deadline start (lfGranted l) (lfNow l) (lfAuth l) (set (lfCallbacks l)) (lfCancelled l)
     \<and> (IsAuthenticated (psState (lfSession l)) \<longleftrightarrow> lfGranted l \<noteq> [])
     \<and> (lfCancelled l \<and> \<not> lfEnded l \<longrightarrow> lapsed (lfGranted l) (lfNow l) \<or> missed deadline start (lfGranted l) (lfNow l))
     \<and> (lfEnded l \<longrightarrow> lfCancelled l \<and> (\<forall>due. lfExpiry l \<noteq> Armed due) \<and> (\<forall>due. lfAuth l \<noteq> Armed due))
     \<and> (\<forall>(t, x) \<in> set (lfGranted l). \<forall>e. x = Some e \<longrightarrow> t < e)"

lemma life_okI:
  assumes "expiry_ok (lfGranted l) (lfNow l) (lfExpiry l) (set (lfCallbacks l)) (lfCancelled l)"
    and "auth_ok d t (lfGranted l) (lfNow l) (lfAuth l) (set (lfCallbacks l)) (lfCancelled l)"
    and "IsAuthenticated (psState (lfSession l)) \<longleftrightarrow> lfGranted l \<noteq> []"
    and "lfCancelled l \<and> \<not> lfEnded l \<longrightarrow> lapsed (lfGranted l) (lfNow l) \<or> missed d t (lfGranted l) (lfNow l)"
    and "lfEnded l \<longrightarrow> lfCancelled l \<and> (\<forall>due. lfExpiry l \<noteq> Armed due) \<and> (\<forall>due. lfAuth l \<noteq> Armed due)"
    and "\<forall>(t, x) \<in> set (lfGranted l). \<forall>e. x = Some e \<longrightarrow> t < e"
  shows "life_ok d t l"
  using assms by (simp add: life_ok_def)

lemma life_okD:
  assumes "life_ok d t l"
  shows "expiry_ok (lfGranted l) (lfNow l) (lfExpiry l) (set (lfCallbacks l)) (lfCancelled l)"
    "auth_ok d t (lfGranted l) (lfNow l) (lfAuth l) (set (lfCallbacks l)) (lfCancelled l)"
    "IsAuthenticated (psState (lfSession l)) \<longleftrightarrow> lfGranted l \<noteq> []"
    "lfCancelled l \<and> \<not> lfEnded l \<longrightarrow> lapsed (lfGranted l) (lfNow l) \<or> missed d t (lfGranted l) (lfNow l)"
    "lfEnded l \<longrightarrow> lfCancelled l \<and> (\<forall>due. lfExpiry l \<noteq> Armed due) \<and> (\<forall>due. lfAuth l \<noteq> Armed due)"
    "\<forall>(t, x) \<in> set (lfGranted l). \<forall>e. x = Some e \<longrightarrow> t < e"
  using assms by (simp_all add: life_ok_def)

lemma life_ok_start: "\<not> IsAuthenticated (psState s) \<Longrightarrow> life_ok deadline now (start_life deadline now s)"
  by (simp add: life_ok_def expiry_ok_def auth_ok_def start_life_def)

lemma later: "x \<le> now \<Longrightarrow> lapsed gs x \<Longrightarrow> lapsed gs now" "x \<le> now \<Longrightarrow> missed d t gs x \<Longrightarrow> missed d t gs now"
  by (fastforce simp: lapsed_def, auto simp: missed_def)

lemma granting: "lapsed gs now \<Longrightarrow> lapsed (gs @ [(now, x)]) now" "missed d t gs now \<Longrightarrow> missed d t (gs @ [(now, x)]) now"
proof -
  assume "lapsed gs now"
  then obtain i t e where i: "i < length gs" "gs ! i = (t, Some e)" "e \<le> now" "i + 1 < length gs \<longrightarrow> e \<le> fst (gs ! (i + 1))"
    unfolding lapsed_def by blast
  then show "lapsed (gs @ [(now, x)]) now" unfolding lapsed_def
    by (intro exI [of _ i] exI [of _ t] exI [of _ e]) (auto simp: nth_append not_less less_Suc_eq le_less)
qed (auto simp: missed_def hd_append)

lemma overdue_lapsed:
  assumes "overdue gs now"
  shows "lapsed gs now"
proof -
  obtain t e where "gs \<noteq> []" "last gs = (t, Some e)" "e \<le> now" using assms by (cases "last gs") (auto simp: overdue_def)
  then show ?thesis unfolding lapsed_def by (intro exI [of _ "length gs - 1"] exI [of _ t] exI [of _ e]) (auto simp: last_conv_nth)
qed

lemma Connect_answer:
  assumes "Connect v req reqID s = s'"
  shows "accepted s' \<Longrightarrow> IsAuthenticated (psState s') \<and> (\<exists>c. v (cqAuthToken req) = Inr c \<and> psExpiry s' = ExpiresAt c)"
    and "\<not> accepted s' \<Longrightarrow> psState s' = psState s"
  using assms by (auto simp: Connect_def Let_def accepted_def send_def ScheduleExpiry_def State_Authenticate_def IsAuthenticated_def split: sum.splits if_splits)

lemma Refresh_answer:
  assumes "Refresh v req reqID s = s'"
  shows "accepted s' \<Longrightarrow> IsAuthenticated (psState s') \<and> (\<exists>c. v (rqAuthToken req) = Inr c \<and> psExpiry s' = ExpiresAt c)"
    and "\<not> accepted s' \<Longrightarrow> psState s' = psState s"
  using assms by (auto simp: Refresh_def authed_def Let_def accepted_def send_def ScheduleExpiry_def State_Authenticate_def IsAuthenticated_def
    split: sum.splits if_splits)

section \<open>The invariant\<close>

lemma timer_side_ok:
  assumes "timer_side l l'" "life_ok d t l"
  shows "life_ok d t l'"
  using assms
proof (induction rule: timer_side.induct)
  case (fire_expiry l due)
  note ok = life_okD [OF fire_expiry.prems]
  have "overdue (lfGranted l) (lfNow l)" using ok(1) fire_expiry.hyps by (simp add: expiry_ok_def overdue_def)
  from overdue_lapsed [OF this] show ?case using ok
    by (intro life_okI) (simp_all add: expiry_ok_def auth_ok_def)
next
  case (fire_auth l due)
  note ok = life_okD [OF fire_auth.prems]
  have "0 < d \<and> t + d \<le> lfNow l" using ok(2) fire_auth.hyps by (auto simp: auth_ok_def)
  then show ?case using ok by (intro life_okI) (simp_all add: expiry_ok_def auth_ok_def)
next
  case (run l xs c ys rest l')
  note ok = life_okD [OF run.prems] and cs = run.hyps(1)
  have here: "c \<in> set (lfCallbacks l)" by (simp add: cs)
  show ?case
  proof (cases c)
    case ExpiryRun
    then have l': "rest = []" "l' = l\<lparr>lfCancelled := True\<rparr>" using run.hyps(2) by (simp_all add: run_callback_def)
    have "lapsed (lfGranted l) (lfNow l)" using ok(1) here ExpiryRun by (simp add: expiry_ok_def)
    then show ?thesis using ok by (intro life_okI) (simp_all add: l' cs expiry_ok_def auth_ok_def)
  next
    case AuthCancel
    then have l': "rest = []" "l' = l\<lparr>lfCancelled := True\<rparr>" using run.hyps(2) by (simp_all add: run_callback_def)
    have "missed d t (lfGranted l) (lfNow l)" using ok(2) here AuthCancel by (simp add: auth_ok_def)
    then show ?thesis using ok by (intro life_okI) (simp_all add: l' cs expiry_ok_def auth_ok_def)
  next
    case AuthCheck
    then have l': "l' = l" "rest = (if lfGranted l \<noteq> [] then [] else [AuthCancel])"
      using run.hyps(2) ok(3) by (auto simp: run_callback_def split: if_splits)
    have "0 < d \<and> t + d \<le> lfNow l" using ok(2) here AuthCheck by (simp add: auth_ok_def)
    then have "lfGranted l = [] \<Longrightarrow> missed d t (lfGranted l) (lfNow l)" by (simp add: missed_def)
    then show ?thesis using ok AuthCheck by (intro life_okI) (simp_all add: l' cs expiry_ok_def auth_ok_def)
  qed
qed

lemma dispatched_ok:
  assumes "life_ok d t l" "\<not> lfEnded l"
    and "accepted s \<Longrightarrow> IsAuthenticated (psState s) \<and> (\<forall>e. psExpiry s = Some e \<longrightarrow> lfNow l < nanos e)"
    and "\<not> accepted s \<Longrightarrow> psState s = psState (lfSession l)"
  shows "life_ok d t (dispatched s l)"
proof (cases "accepted s")
  case False
  then show ?thesis using life_okD [OF assms(1)] assms(4) by (intro life_okI) (simp_all add: dispatched_def)
next
  case True
  let ?gs = "lfGranted l @ [(lfNow l, map_option nanos (psExpiry s))]"
  note ok = life_okD [OF assms(1)]
  have keep: "lapsed (lfGranted l) (lfNow l) \<Longrightarrow> lapsed ?gs (lfNow l)" "missed d t (lfGranted l) (lfNow l) \<Longrightarrow> missed d t ?gs (lfNow l)"
    by (rule granting; assumption)+
  have l': "lfGranted (dispatched s l) = ?gs" "lfNow (dispatched s l) = lfNow l" "lfAuth (dispatched s l) = lfAuth l"
    "lfExpiry (dispatched s l) = (case psExpiry s of None \<Rightarrow> NoTimer | Some e \<Rightarrow> Armed (nanos e))" "lfSession (dispatched s l) = s"
    "lfCallbacks (dispatched s l) = lfCallbacks l" "lfCancelled (dispatched s l) = lfCancelled l" "lfEnded (dispatched s l) = lfEnded l"
    using True by (auto simp: dispatched_def scheduleExpiry_def Let_def split: option.splits)
  show ?thesis
  proof (rule life_okI; unfold l')
    show "expiry_ok ?gs (lfNow l) (case psExpiry s of None \<Rightarrow> NoTimer | Some e \<Rightarrow> Armed (nanos e)) (set (lfCallbacks l)) (lfCancelled l)"
      using ok(1) keep(1) by (auto simp: expiry_ok_def split: option.splits)
    show "auth_ok d t ?gs (lfNow l) (lfAuth l) (set (lfCallbacks l)) (lfCancelled l)" using ok(2) keep(2) by (auto simp: auth_ok_def)
    show "lfCancelled l \<and> \<not> lfEnded l \<longrightarrow> lapsed ?gs (lfNow l) \<or> missed d t ?gs (lfNow l)" using ok(4) keep by blast
    show "\<forall>(t, x) \<in> set ?gs. \<forall>e. x = Some e \<longrightarrow> t < e" using ok(6) assms(3) [OF True] by auto
  qed (use assms(2) assms(3) [OF True] in auto)
qed

context expiring_verifier
begin

lemma session_side_ok:
  assumes "session_side verify l l'" "life_ok d t l"
  shows "life_ok d t l'"
  using assms
proof (induction rule: session_side.induct)
  case (connect l req reqID s)
  show ?case by (rule dispatched_ok [OF connect.prems connect.hyps(1)]) (use Connect_answer [OF connect.hyps(2)] fresh in auto)
next
  case (refresh l rreq reqID s)
  show ?case by (rule dispatched_ok [OF refresh.prems refresh.hyps(1)]) (use Refresh_answer [OF refresh.hyps(2)] fresh in auto)
next
  case (message l s)
  then show ?case by (simp add: life_ok_def)
next
  case (finish l)
  note ok = life_okD [OF finish.prems]
  have stopped: "stop_timer x \<noteq> Armed due" for x due by (cases x) (simp_all add: stop_timer_def)
  show ?case using ok stopped by (intro life_okI) (simp_all add: cleanup_timers_def expiry_ok_def auth_ok_def)
next
  case (time l now)
  note ok = life_okD [OF time.prems] and later = later [OF time.hyps]
  have "expiry_ok (lfGranted l) now (lfExpiry l) (set (lfCallbacks l)) (lfCancelled l)"
    using ok(1) later(1) by (auto simp: expiry_ok_def)
  moreover have "auth_ok d t (lfGranted l) now (lfAuth l) (set (lfCallbacks l)) (lfCancelled l)"
    using ok(2) later(2) time.hyps by (auto simp: auth_ok_def)
  ultimately show ?case using ok(3-6) later by (intro life_okI) auto
qed

lemma life_ok_reach:
  assumes "(life_step verify)\<^sup>*\<^sup>* (start_life d t s) l" "\<not> IsAuthenticated (psState s)"
  shows "life_ok d t l"
  using assms(1)
proof (induction rule: rtranclp_induct)
  case base
  show ?case by (rule life_ok_start [OF assms(2)])
next
  case (step l l')
  then show ?case using timer_side_ok session_side_ok by (auto simp: life_step_def)
qed

end

text \<open>A session that is due to end has a callback to run or a timer to fire, until it is cancelled.\<close>

lemma callback_runs: "c \<in> set (lfCallbacks l) \<Longrightarrow> \<exists>l'. timer_side l l'"
  using timer_side.run by (metis split_list prod.collapse)

lemma quiet_cancelled:
  assumes "life_ok d t l" "\<not> lfEnded l" "\<nexists>l'. timer_side l l'"
  shows "overdue (lfGranted l) (lfNow l) \<Longrightarrow> lfCancelled l"
    "0 < d \<Longrightarrow> t + d \<le> lfNow l \<Longrightarrow> lfGranted l = [] \<Longrightarrow> lfCancelled l"
proof -
  have idle: "set (lfCallbacks l) = {}" by (intro equals0I) (use callback_runs assms(3) in blast)
  have still: "lfExpiry l \<noteq> Armed due" "lfAuth l \<noteq> Armed due" if "due \<le> lfNow l" for due
    using assms(3) that timer_side.fire_expiry timer_side.fire_auth by blast+
  show "overdue (lfGranted l) (lfNow l) \<Longrightarrow> lfCancelled l"
    using life_okD(1) [OF assms(1)] idle still(1) by (auto simp: expiry_ok_def overdue_def)
  show "0 < d \<Longrightarrow> t + d \<le> lfNow l \<Longrightarrow> lfGranted l = [] \<Longrightarrow> lfCancelled l"
    using life_okD(2) [OF assms(1)] idle still(2) by (auto simp: auth_ok_def)
qed

fun timer_pieces :: "timer \<Rightarrow> nat" where
  "timer_pieces (Armed _) = 1"
| "timer_pieces _ = 0"

fun callback_pieces :: "callback \<Rightarrow> nat" where
  "callback_pieces AuthCheck = 2"
| "callback_pieces _ = 1"

definition timer_work :: "life \<Rightarrow> nat" where
  "timer_work l = 2 * timer_pieces (lfExpiry l) + 3 * timer_pieces (lfAuth l) + sum_list (map callback_pieces (lfCallbacks l))"

lemma timer_side_work: "timer_side l l' \<Longrightarrow> timer_work l' < timer_work l"
  by (induction rule: timer_side.induct) (auto simp: timer_work_def run_callback_def split: callback.splits if_splits)

lemma timer_side_bound: "(timer_side ^^ k) l l' \<Longrightarrow> k + timer_work l' \<le> timer_work l"
  by (induction k arbitrary: l') (auto dest!: timer_side_work, fastforce)

text \<open>
  (C28) Credentials and the authentication deadline are enforced, and nothing else ends a session here: in
  every interleaving of the dispatch goroutine with the timers and their goroutines, with either verifier,
  accepted credentials have not lapsed, and while the expiry timer is armed it is the one of the
  credentials accepted last. A session that was cancelled and not ended by its peer had credentials that
  lapsed before others were accepted, or had not authenticated when the deadline came. A session whose
  last credentials have lapsed, or that let the deadline pass, is cancelled once the runtime has started
  and run what is due, which takes at most \<open>timer_work\<close> steps; and an ended session leaves no timer armed.
\<close>

theorem timers_enforced:
  assumes "(life_step verify)\<^sup>*\<^sup>* (start_life deadline start s) l" and "\<not> IsAuthenticated (psState s)"
    and "verify = verify_hmac cd secret \<or> verify = (\<lambda>_. InsecureVerify)"
  shows "(\<forall>(t, x) \<in> set (lfGranted l). \<forall>e. x = Some e \<longrightarrow> t < e)
    \<and> (\<forall>due. lfExpiry l = Armed due \<longrightarrow> lfGranted l \<noteq> [] \<and> snd (last (lfGranted l)) = Some due)
    \<and> (lfCancelled l \<and> \<not> lfEnded l \<longrightarrow> lapsed (lfGranted l) (lfNow l) \<or> missed deadline start (lfGranted l) (lfNow l))
    \<and> (\<not> lfEnded l \<and> (\<nexists>l'. timer_side l l')
        \<and> (overdue (lfGranted l) (lfNow l) \<or> 0 < deadline \<and> start + deadline \<le> lfNow l \<and> lfGranted l = []) \<longrightarrow> lfCancelled l)
    \<and> (\<forall>k l'. (timer_side ^^ k) l l' \<longrightarrow> k \<le> timer_work l)
    \<and> (lfEnded l \<longrightarrow> (\<forall>due. lfExpiry l \<noteq> Armed due \<and> lfAuth l \<noteq> Armed due))"
proof -
  have ok: "life_ok deadline start l" using assms(3) hmac.life_ok_reach insecure.life_ok_reach assms(1,2) by blast
  have "k \<le> timer_work l" if "(timer_side ^^ k) l l'" for k l' using timer_side_bound [OF that] by simp
  moreover have "\<forall>due. lfExpiry l = Armed due \<longrightarrow> lfGranted l \<noteq> [] \<and> snd (last (lfGranted l)) = Some due"
    using life_okD(1) [OF ok] by (simp add: expiry_ok_def)
  ultimately show ?thesis using life_okD(4,5,6) [OF ok] quiet_cancelled [OF ok] by (intro conjI) blast+
qed

text \<open>
  Credentials until second 100 that lapse, and a refresh a moment later: it is accepted, and the session is
  cancelled by the timer that had fired before.
\<close>

definition demo_session :: Session where
  "demo_session = \<lparr>psID = 1, psState = NewState 1, psQoS = NewConsumer True, psCid = 0, psSweeper = NewSweeper,
     psMaxSubscriptions = 10, psMaxMessageSize = 0, psProtocolVersion = 1, psExpiry = None, psOut = []\<rparr>"

definition demo_tokens :: "int \<Rightarrow> string \<Rightarrow> auth_error + Claims" where
  "demo_tokens = verify_hmac (demo_codec\<lparr>jsonClaims := (\<lambda>raw. Some \<lparr>Sub = ''alice'', Exp = (if raw = ''q'' then 200 else 100), Nbf = 0,
     cChannels = None, cPub = None\<rparr>)\<rparr>) ''k''"

theorem timers_enforced_witness:
  "\<exists>l. (life_step demo_tokens)\<^sup>*\<^sup>* (start_life 0 5 demo_session) l \<and> lfCancelled l \<and> \<not> lfEnded l
     \<and> map snd (lfGranted l) = [Some (nanos 100), Some (nanos 200)] \<and> lfNow l = nanos 100
     \<and> lapsed (lfGranted l) (lfNow l)"
proof -
  let ?v = "demo_tokens"
  define l0 where "l0 = start_life 0 5 demo_session"
  define l1 where "l1 = dispatched (Connect (?v (lfNow l0)) \<lparr>cqAuthToken = ''h.p.sig'', cqProtocolVersion = 1\<rparr> [] (lfSession l0)) l0"
  define l2 where "l2 = l1\<lparr>lfNow := nanos 100\<rparr>"
  define l3 where "l3 = l2\<lparr>lfExpiry := Fired, lfCallbacks := ExpiryRun # lfCallbacks l2\<rparr>"
  define l4 where "l4 = dispatched (Refresh (?v (lfNow l3)) \<lparr>rqAuthToken = ''h.q.sig''\<rparr> [] (lfSession l3)) l3"
  define l5 where "l5 = (l4\<lparr>lfCancelled := True\<rparr>)\<lparr>lfCallbacks := [] @ [] @ []\<rparr>"
  note states = l0_def l1_def l2_def l3_def l4_def l5_def
  have facts: "\<not> lfEnded l0" "lfNow l1 \<le> nanos 100" "lfExpiry l2 = Armed (nanos 100)" "nanos 100 \<le> lfNow l2" "\<not> lfEnded l3"
    "lfCallbacks l4 = [] @ ExpiryRun # []" "lfCancelled l5" "\<not> lfEnded l5" "lfNow l5 = nanos 100"
    "map snd (lfGranted l5) = [Some (nanos 100), Some (nanos 200)]" "lfGranted l5 \<noteq> [] \<and> fst (hd (lfGranted l5)) = 5"
    "\<not> IsAuthenticated (psState demo_session)"
    unfolding states by code_simp+
  have s1: "life_step ?v l0 l1" using session_side.connect [OF facts(1) refl] by (simp add: life_step_def l1_def)
  have s2: "life_step ?v l1 l2" using session_side.time [OF facts(2)] by (simp add: life_step_def l2_def)
  have s3: "life_step ?v l2 l3" using timer_side.fire_expiry [OF facts(3,4)] by (simp add: life_step_def l3_def)
  have s4: "life_step ?v l3 l4" using session_side.refresh [OF facts(5) refl] by (simp add: life_step_def l4_def)
  have s5: "life_step ?v l4 l5" using timer_side.run [OF facts(6)] by (simp add: life_step_def l5_def run_callback_def)
  note onward = rtranclp.rtrancl_into_rtrancl
  have "(life_step ?v)\<^sup>*\<^sup>* l0 l5"
    by (rule onward [OF onward [OF onward [OF onward [OF r_into_rtranclp [of "life_step ?v", OF s1] s2] s3] s4] s5])
  then have run: "(life_step ?v)\<^sup>*\<^sup>* (start_life 0 5 demo_session) l5" by (simp only: l0_def)
  have "lfCancelled l5 \<and> \<not> lfEnded l5 \<longrightarrow> lapsed (lfGranted l5) (lfNow l5) \<or> missed 0 5 (lfGranted l5) (lfNow l5)"
    by (rule timers_enforced [OF run facts(12) disjI1 [OF demo_tokens_def], THEN conjunct2, THEN conjunct2, THEN conjunct1])
  then have "lapsed (lfGranted l5) (lfNow l5)" using facts(7,8) by (simp only: missed_def) simp
  then show ?thesis using run facts(7-10) by (intro exI [of _ l5] conjI)
qed

end
