(* ===== verification/Spec2Isabelle.thy ===== *)
theory Spec2Isabelle
  imports Auth Engine_Delivery Protocol_Props Session_Store Ring Dedup Router Arena_State Ws_Writer Relay Upstream_Locks Sessions
    GC_Pacer Session_Flow Ws_Keepalive Relay_Sessions Relay_Workers
    Fanout_Pool Metrics Servers Session_Timers
begin

text \<open>
  Gentis is a publish/subscribe server written in Go. Clients connect over gRPC or WebSockets,
  authenticate with a signed token, subscribe to channels (exactly or by a wildcard pattern) and
  publish to them; a relay is a second server that holds its clients' channels on an upstream one.
  This library models the packages under \<^verbatim>\<open>src/internal\<close> bottom-up, one theory per component, and
  proves what each of them promises. Definitions have the names of the code, with a prefix where two
  packages use the same one.

  \<^bold>\<open>Conventions.\<close> Theory Prelude has the machine types (\<open>u64\<close>, \<open>u32\<close> are words and wrap around; Go's
  \<^verbatim>\<open>int\<close> and \<^verbatim>\<open>int64\<close> are integers, within the bounds named where a wrap-around could matter), Go's maps
  (association lists with distinct keys, iterated in any order the theorems quantify over) and the
  results of code that can panic. State is passed explicitly; a goroutine that shares memory with
  others is a step relation over the pieces of the code that are atomic, and the theorems quantify
  over its interleavings. Clocks, hashes, random epochs, HMAC, JSON, YAML, the environment, files and
  sockets are parameters.

  \<^bold>\<open>The engine\<close> (\<^verbatim>\<open>internal/engine\<close>, \<^verbatim>\<open>pattern\<close>, \<^verbatim>\<open>namespace\<close>).
  \<^item> Pattern: the wildcard matcher and its bounded cache; it accepts what a recursive glob accepts.
  \<^item> Namespace: settings, their validation, the registry that resolves a channel to its settings.
  \<^item> Delivery, Fanout: the delivery record and loop, and the chunks of \<^verbatim>\<open>fanout.go\<close>; under every
    schedule each subscriber is called once and the counts add up. Fanout_Pool: the worker pool with its
    channel, lock and shutdown under any number of publications.
  \<^item> History: the ring of recent publications; a replay returns exactly what was asked for or refuses.
  \<^item> Channel, Sub_Index, Shards, Pattern_Registry: subscribers and the priority cohort of a channel, the
    reverse index (locale \<open>reverse_index\<close>), the channel table, and the wildcard registry whose readers
    take no lock.
  \<^item> Engine: \<^verbatim>\<open>SubscribePriority\<close>, \<^verbatim>\<open>Unsubscribe\<close>, \<^verbatim>\<open>UnsubscribeAll\<close>, \<^verbatim>\<open>Publish\<close>, \<^verbatim>\<open>Recover\<close> and the sweeper,
    composed as the code composes them. Engine_Inv shows the invariant that ties tables, index, registry and
    counters together; Engine_Publish, Engine_Props and Engine_Delivery show who is reached, how
    publications are numbered, and what a recovery returns.
  \<^item> GC_Pacer: the goroutine that tunes the garbage collector from the engine's counters; the settings of the
    process come back when it stops, and forced collections keep their distance.

  \<^bold>\<open>At-least-once delivery\<close> (\<^verbatim>\<open>internal/qos\<close>). Window is the credit window; Consumer the per-session consumer
  and the sweeper; its source of history is the locale \<open>recoverer\<close>, which Consumer_Engine interprets on
  the engine. The pump is a partial function, and its termination is proved.

  \<^bold>\<open>Sessions\<close> (\<^verbatim>\<open>internal/client\<close>, \<^verbatim>\<open>transport\<close>, \<^verbatim>\<open>arena\<close>, \<^verbatim>\<open>ringbuf\<close>, \<^verbatim>\<open>auth\<close>, \<^verbatim>\<open>protocol\<close>).
  \<^item> Auth: grants and token verification. Client: the session state on the heap.
  \<^item> Arena, Arena_State: the slab allocator under interleaved goroutines, and the session state in a
    slot, which refines the one on the heap.
  \<^item> Session_Store: identities with generations. Ring: the sequence-numbered ring, a refinement of a
    bounded queue (locale \<open>bounded_queue\<close>).
  \<^item> Protocol, Protocol_Props: every operation a client can ask for, and that session, engine and
    consumer agree on what a client is subscribed to.

  \<^bold>\<open>Transports\<close> (\<^verbatim>\<open>internal/grpc\<close>, \<^verbatim>\<open>ws\<close>). Grpc and Ws_Writer translate messages and model the two writers;
  Ws_Keepalive is the ping ticker of the WebSocket writer; Session_Flow shows that the goroutines of a session
  (the same code in \<^verbatim>\<open>grpc\<close> and \<^verbatim>\<open>relay\<close>) never wait for a signal that does not come; Session_Timers
  that expired credentials and the authentication deadline end a session, and nothing else does; Sessions
  creates and ends the sessions of both transports over one store, one arena and one engine.

  \<^bold>\<open>The relay\<close> (\<^verbatim>\<open>internal/relay\<close>). Router, Dedup and Relay are routing, the filter of repeated publications and
  the sessions with their reference counts; Relay_Sessions is what the relay's own listener makes of a gRPC
  session (its ring of a configured size); Relay_Workers takes the upstream's messages through the bounded channel
  and the fan-out workers, which may reorder them, and stops the relay; Upstream is the connection to the
  upstream server with its goroutines, and Upstream_Locks the same reconnect with its locks and its bounded channel.

  \<^bold>\<open>Start-up\<close> (\<^verbatim>\<open>internal/config\<close>, \<^verbatim>\<open>logs/parse.go\<close>, \<^verbatim>\<open>cli\<close>). Configuration is the settings document: defaults,
  overlay, validation, loader. Commands turns a loaded document into the options and the start states
  of the engine, the store and the servers. Servers is \<^verbatim>\<open>Start\<close> and \<^verbatim>\<open>Stop\<close> of the three servers and the
  two commands over them, with the listeners, memory and connections they hold; it shows what every
  start that fails and every stop gives back. Metrics (\<^verbatim>\<open>internal/metrics\<close>) is the collector over a running
  server: what it describes and what a scrape shows.

  \<^bold>\<open>Bounds.\<close> Executions do not use up the counters of identities (\<open>2^31\<close> of each transport, \<open>2^32\<close>
  generations of a slot) or of offsets (\<open>2^64\<close> of a channel); a shard count is below \<open>2^62\<close>. No
  definition uses fuel: a loop that may not end is a partial function with a termination theorem.

  \<^bold>\<open>Not modelled.\<close> Registration with Prometheus, its HTTP handlers and the calls of the observers;
  \<^verbatim>\<open>internal/logs/log.go\<close>, the flags, signals, debug server and health probe of \<^verbatim>\<open>internal/cli\<close>, TLS, keepalive
  options and the generated code are configuration of libraries. Object pools are modelled where
  the pooled object carries state (the channels); the message pools only recycle memory.
\<close>

end
